(* ===== verification/Kernel_Prelude.thy ===== *)
theory Kernel_Prelude
  imports Main "HOL-Library.Word"
begin

text \<open>
  Shared vocabulary of the development: the machine integers of the i386 kernel as
  integers with the wrap-around written out, the error numbers a system call can
  return, the shape of an operation's result, and the generic lemmas about lists and
  about extents (runs of consecutive unit numbers) that the components share.

  Conventions.  A C routine that returns 0 or an error number is modelled by a value of
  \<open>errno + 'a\<close>: \<open>Inl e\<close> for the error, \<open>Inr r\<close> for the value handed back through the
  \<open>rval_t\<close> pointer or the result pointer.  A routine that changes kernel state returns the
  new state next to that value, on the error branches too, because the code may have
  changed something before it fails.
\<close>

section \<open>Machine integers\<close>

definition u16 :: "int \<Rightarrow> int" where
  "u16 x = x mod 65536"

definition u32 :: "int \<Rightarrow> int" where
  "u32 x = x mod 4294967296"

definition s16 :: "int \<Rightarrow> int" where
  "s16 x = (x + 32768) mod 65536 - 32768"

definition s32 :: "int \<Rightarrow> int" where
  "s32 x = (x + 2147483648) mod 4294967296 - 2147483648"

definition INT_MAX :: int where "INT_MAX = 2147483647"
definition SHRT_MAX :: int where "SHRT_MAX = 32767"
definition USHRT_MAX :: int where "USHRT_MAX = 65535"

named_theorems wrap_simps \<open>wrap-around of a value that is already in range\<close>

lemma u16_id [wrap_simps]: "0 \<le> x \<Longrightarrow> x < 65536 \<Longrightarrow> u16 x = x"
  by (simp add: u16_def)

lemma u32_id [wrap_simps]: "0 \<le> x \<Longrightarrow> x < 4294967296 \<Longrightarrow> u32 x = x"
  by (simp add: u32_def)

lemma s16_id [wrap_simps]: "- 32768 \<le> x \<Longrightarrow> x < 32768 \<Longrightarrow> s16 x = x"
  by (simp add: s16_def)

lemma s32_id [wrap_simps]: "- 2147483648 \<le> x \<Longrightarrow> x < 2147483648 \<Longrightarrow> s32 x = x"
  by (simp add: s32_def)

lemma u16_range [simp]: "0 \<le> u16 x" "u16 x < 65536"
  by (simp_all add: u16_def)

lemma u32_range [simp]: "0 \<le> u32 x" "u32 x < 4294967296"
  by (simp_all add: u32_def)

lemma s16_range [simp]: "- 32768 \<le> s16 x" "s16 x < 32768"
  by (simp_all add: s16_def)

lemma s32_range [simp]: "- 2147483648 \<le> s32 x" "s32 x < 2147483648"
  by (simp_all add: s32_def)

lemma s32_s32 [simp]: "s32 (s32 x) = s32 x"
  using s32_range [of x] by (intro s32_id) linarith+

lemma s32_wrap: "2147483648 \<le> x \<Longrightarrow> x < 6442450944 \<Longrightarrow> s32 x = x - 4294967296"
proof -
  assume x: "2147483648 \<le> x" "x < 6442450944"
  have "(x + 2147483648) mod 4294967296 = (x + 2147483648 - 4294967296) mod 4294967296"
    by (simp only: minus_mod_self2)
  also have "\<dots> = x + 2147483648 - 4294967296" using x by (intro mod_pos_pos_trivial) simp_all
  finally show ?thesis by (simp add: s32_def)
qed

text \<open>Unsigned 32-bit addition and subtraction of unit numbers kept as naturals.\<close>

definition uadd :: "nat \<Rightarrow> nat \<Rightarrow> nat" where
  "uadd a b = (a + b) mod 4294967296"

definition usub :: "nat \<Rightarrow> nat \<Rightarrow> nat" where
  "usub a b = (a + 4294967296 - b mod 4294967296) mod 4294967296"

lemma uadd_id [wrap_simps]: "a + b < 4294967296 \<Longrightarrow> uadd a b = a + b"
  by (simp add: uadd_def)

lemma usub_id [wrap_simps]: "b \<le> a \<Longrightarrow> a < 4294967296 \<Longrightarrow> usub a b = a - b"
  by (simp add: usub_def mod_if)

section \<open>Error numbers and results\<close>

datatype errno =
    EPERM | ENOENT | EINTR | E2BIG | EBADF | EAGAIN | ENOMEM | EACCES | EFAULT | EEXIST
  | EINVAL | EFBIG | ENOSPC | ERANGE | ENOMSG | EIDRM | EDEADLK | ENOLCK | EOVERFLOW

type_synonym 'a res = "errno + 'a"

abbreviation Err :: "errno \<Rightarrow> 'a res" where "Err \<equiv> Inl"
abbreviation Ok :: "'a \<Rightarrow> 'a res" where "Ok \<equiv> Inr"

section \<open>Lists updated by index\<close>

lemma nth_list_update_if:
  "i < length xs \<Longrightarrow> xs[i := v] ! j = (if i = j then v else xs ! j)"
  by simp

lemma list_update_restore:
  "i < length xs \<Longrightarrow> xs[i := v, i := xs ! i] = xs"
  by (simp add: list_update_overwrite)

section \<open>Extents and who owns a unit\<close>

text \<open>
  An extent \<open>(a, n)\<close> is the run of units \<open>a, a+1, \<dots>, a+n-1\<close>.  \<open>cover xs u\<close> counts the
  extents of a list that hold the unit \<open>u\<close>; with \<open>units_ok xs F T\<close> every unit of the
  total \<open>T\<close> is free or in at most one owner's extent, never both, and no unit outside
  \<open>T\<close> is handed out.  Counting makes the predicate independent of the order of the list.
\<close>

definition ext :: "nat \<times> nat \<Rightarrow> nat set" where
  "ext e = {fst e ..< fst e + snd e}"

definition cover :: "(nat \<times> nat) list \<Rightarrow> nat \<Rightarrow> nat" where
  "cover xs u = sum_list (map (\<lambda>e. of_bool (u \<in> ext e)) xs)"

definition units_ok :: "(nat \<times> nat) list \<Rightarrow> nat set \<Rightarrow> nat set \<Rightarrow> bool" where
  "units_ok xs F T \<longleftrightarrow> (\<forall>u. cover xs u + of_bool (u \<in> F) \<le> of_bool (u \<in> T))"

lemma cover_Nil [simp]: "cover [] u = 0"
  by (simp add: cover_def)

lemma cover_Cons [simp]: "cover (e # xs) u = of_bool (u \<in> ext e) + cover xs u"
  by (simp add: cover_def)

lemma cover_append [simp]: "cover (xs @ ys) u = cover xs u + cover ys u"
  by (simp add: cover_def)

lemma ext_empty [simp]: "ext (a, 0) = {}"
  by (simp add: ext_def)

lemma cover_pos: "e \<in> set xs \<Longrightarrow> u \<in> ext e \<Longrightarrow> 0 < cover xs u"
  by (induction xs) auto

lemma units_ok_disjoint:
  assumes "units_ok (xs @ e # ys) F T" and "u \<in> ext e"
  shows "u \<notin> F" and "u \<in> T" and "cover xs u = 0" and "cover ys u = 0"
proof -
  have le: "cover (xs @ e # ys) u + of_bool (u \<in> F) \<le> (of_bool (u \<in> T) :: nat)"
    using assms(1) unfolding units_ok_def by blast
  have one: "of_bool (u \<in> T) \<le> (1 :: nat)" by simp
  have "cover xs u + (1 + cover ys u) + of_bool (u \<in> F) \<le> (of_bool (u \<in> T) :: nat)"
    using le assms(2) by simp
  with one show "u \<notin> F" "u \<in> T" "cover xs u = 0" "cover ys u = 0"
    by (auto simp: of_bool_def split: if_splits)
qed

lemma units_ok_permute:
  assumes "units_ok xs F T" and "\<And>u. cover xs u = cover ys u"
  shows "units_ok ys F T"
  using assms by (simp add: units_ok_def)

lemma units_ok_other_extents:
  assumes "units_ok xs F T" and "i < length xs" and "j < length xs" and "i \<noteq> j"
  shows "ext (xs ! i) \<inter> ext (xs ! j) = {}"
proof (rule ccontr)
  assume "ext (xs ! i) \<inter> ext (xs ! j) \<noteq> {}"
  then obtain u where ui: "u \<in> ext (xs ! i)" and uj: "u \<in> ext (xs ! j)" by blast
  have split: "take i xs @ xs ! i # drop (Suc i) xs = xs"
    using assms(2) by (simp add: id_take_nth_drop [symmetric])
  with assms(1) have ok: "units_ok (take i xs @ xs ! i # drop (Suc i) xs) F T" by simp
  have none: "cover (take i xs) u = 0" "cover (drop (Suc i) xs) u = 0"
    using units_ok_disjoint [OF ok ui] by simp_all
  show False
  proof (cases "j < i")
    case True
    with assms(2,3) have "xs ! j \<in> set (take i xs)"
      by (metis in_set_conv_nth length_take min.absorb4 nth_take)
    from cover_pos [OF this uj] none(1) show False by simp
  next
    case False
    with assms(3,4) have "xs ! j \<in> set (drop (Suc i) xs)"
      by (auto simp: in_set_conv_nth intro!: exI [of _ "j - Suc i"])
    from cover_pos [OF this uj] none(2) show False by simp
  qed
qed

end
