(* ===== verification/Ipc_Perm.thy ===== *)
theory Ipc_Perm
  imports Kernel_Prelude
begin

text \<open>
  What the two IPC facilities share (\<open>proc/ipc/ipc.c\<close>, with \<open>groupmember\<close> of
  \<open>proc/cred.c\<close> and \<open>pm_denied\<close> of \<open>acc/priv/sum/sum.c\<close>): the permission structure of
  an IPC object, the access check \<open>ipcaccess\<close>, the search for or creation of an entry by
  key \<open>ipcget\<close>, and the coding of a slot number and a sequence number into the identifier
  a user sees.

  Mandatory access control and access control lists are add-on packages whose code is not
  part of the repository: the flag \<open>mac_installed\<close>, the level comparison \<open>mac_liddom\<close> and
  the list check \<open>ipcaclck\<close> are fields of the record \<open>sec_env\<close> every definition takes.
  Auditing and the covert channel limiter have no effect on the state and are left out.
\<close>

unbundle bit_operations_syntax

section \<open>Credentials and privileges\<close>

type_synonym bits = "32 word"

record cred =
  cr_uid :: int
  cr_gid :: int
  cr_ruid :: int
  cr_suid :: int
  cr_groups :: "int list"
  cr_lid :: int
  cr_wkgpriv :: bits

definition P_OWNER :: nat where "P_OWNER = 0"
definition P_DACREAD :: nat where "P_DACREAD = 3"
definition P_DACWRITE :: nat where "P_DACWRITE = 4"
definition P_MACREAD :: nat where "P_MACREAD = 7"
definition P_MACWRITE :: nat where "P_MACWRITE = 8"
definition P_SYSOPS :: nat where "P_SYSOPS = 14"

definition P_RTIME :: nat where "P_RTIME = 17"
definition P_TSHAR :: nat where "P_TSHAR = 22"

definition pm_denied :: "cred \<Rightarrow> nat \<Rightarrow> bool" where
  "pm_denied crp priv \<longleftrightarrow> cr_wkgpriv crp AND push_bit priv 1 = 0"

fun group_search :: "int \<Rightarrow> int list \<Rightarrow> bool" where
  "group_search gid [] = False"
| "group_search gid (gp # gps) = (if gp = gid then True else group_search gid gps)"

definition groupmember :: "int \<Rightarrow> cred \<Rightarrow> bool" where
  "groupmember gid cr = (if gid = cr_gid cr then True else group_search gid (cr_groups cr))"

text \<open>May the second process act on the first?\<close>

definition hasprocperm :: "cred \<Rightarrow> cred \<Rightarrow> bool" where
  "hasprocperm tcrp scrp \<longleftrightarrow> \<not> pm_denied scrp P_OWNER \<or> cr_uid scrp = cr_ruid tcrp
     \<or> cr_ruid scrp = cr_ruid tcrp \<or> cr_uid scrp = cr_suid tcrp \<or> cr_ruid scrp = cr_suid tcrp"

lemma groupmember_iff: "groupmember gid cr \<longleftrightarrow> gid = cr_gid cr \<or> gid \<in> set (cr_groups cr)"
proof -
  have "group_search gid gps \<longleftrightarrow> gid \<in> set gps" for gps by (induction gps) auto
  then show ?thesis by (simp add: groupmember_def)
qed

lemma pm_denied_bit: "pm_denied crp priv \<longleftrightarrow> \<not> bit (cr_wkgpriv crp) priv"
  by (simp add: pm_denied_def and_exp_eq_0_iff_not_bit)

section \<open>The permission structure\<close>

record ipc_perm =
  ip_uid :: int
  ip_gid :: int
  ip_cuid :: int
  ip_cgid :: int
  ip_mode :: bits
  ip_seq :: int
  ip_key :: int
  ip_dacp :: "nat option"   \<comment> \<open>\<open>ipc_secp->dacp\<close>: the kernel's handle of the ACL, if any\<close>
  ip_lid :: int             \<comment> \<open>\<open>ipc_secp->ipc_lid\<close>\<close>

definition IPC_R :: bits where "IPC_R = 256"          \<comment> \<open>0400\<close>
definition IPC_W :: bits where "IPC_W = 128"          \<comment> \<open>0200\<close>
definition IPC_MAC :: bits where "IPC_MAC = 1"
definition IPC_DAC :: bits where "IPC_DAC = 2"
definition IPC_ALLOC :: bits where "IPC_ALLOC = 32768"  \<comment> \<open>0100000\<close>
definition IPC_CREAT :: bits where "IPC_CREAT = 512"  \<comment> \<open>0001000\<close>
definition IPC_EXCL :: bits where "IPC_EXCL = 1024"   \<comment> \<open>0002000\<close>
definition IPC_NOWAIT :: bits where "IPC_NOWAIT = 2048" \<comment> \<open>0004000\<close>
definition PERM_MASK :: bits where "PERM_MASK = 511"  \<comment> \<open>0777\<close>
definition IPC_PRIVATE :: int where "IPC_PRIVATE = 0"
definition MAXUID :: int where "MAXUID = 60002"

named_theorems ipc_bits \<open>values of the flag words\<close>
lemmas [ipc_bits] = IPC_R_def IPC_W_def IPC_MAC_def IPC_DAC_def IPC_ALLOC_def IPC_CREAT_def
  IPC_EXCL_def IPC_NOWAIT_def PERM_MASK_def

definition ipc_alloc :: "ipc_perm \<Rightarrow> bool" where
  "ipc_alloc p \<longleftrightarrow> ip_mode p AND IPC_ALLOC \<noteq> 0"

record sec_env =
  mac_installed :: bool
  mac_liddom :: "int \<Rightarrow> int \<Rightarrow> bool"    \<comment> \<open>True: the first level does not dominate\<close>
  ipcaclck :: "ipc_perm \<Rightarrow> bits \<Rightarrow> cred \<Rightarrow> int"

text \<open>The process on whose behalf a system call runs, and the time it sees.\<close>

record proc_ctx =
  p_slot :: nat
  p_pid :: int
  u_cred :: cred
  p_sec :: sec_env
  hrestime :: int

datatype mac_op = MACEQUAL | MACDOM

text \<open>\<open>MAC_ACCESS\<close>: true when access is refused.\<close>

definition MAC_ACCESS :: "sec_env \<Rightarrow> mac_op \<Rightarrow> int \<Rightarrow> int \<Rightarrow> bool" where
  "MAC_ACCESS sec op lid1 lid2 =
     (if \<not> mac_installed sec then False
      else if lid1 = lid2 then False
      else if op = MACDOM then mac_liddom sec lid1 lid2 else True)"

section \<open>The access check\<close>

definition ipc_nodaccess :: "bits \<Rightarrow> cred \<Rightarrow> unit res" where
  "ipc_nodaccess savemode cr =
     (if savemode AND IPC_R \<noteq> 0 \<and> pm_denied cr P_DACREAD
         \<or> savemode AND IPC_W \<noteq> 0 \<and> pm_denied cr P_DACWRITE
      then Err EACCES else Ok ())"

definition ipc_other :: "ipc_perm \<Rightarrow> bits \<Rightarrow> cred \<Rightarrow> unit res" where
  "ipc_other p savemode cr =
     (let mode = drop_bit 6 savemode in
      if ip_mode p AND mode = mode then Ok () else ipc_nodaccess savemode cr)"

definition ipc_dacaccess :: "sec_env \<Rightarrow> ipc_perm \<Rightarrow> bits \<Rightarrow> cred \<Rightarrow> unit res" where
  "ipc_dacaccess sec p savemode cr =
     (if cr_uid cr = ip_uid p \<or> cr_uid cr = ip_cuid p then
        (if ip_mode p AND savemode = savemode then Ok () else ipc_nodaccess savemode cr)
      else
        let mode = drop_bit 3 savemode in
        if ip_dacp p \<noteq> None then
          (let v = ipcaclck sec p mode cr in
           if v = -1 then ipc_other p savemode cr
           else if v = 0 then Ok ()
           else if v = 1 then ipc_nodaccess savemode cr
           else Err EACCES)
        else if groupmember (ip_gid p) cr \<or> groupmember (ip_cgid p) cr then
          (if ip_mode p AND mode = mode then Ok () else ipc_nodaccess savemode cr)
        else ipc_other p savemode cr)"

definition ipcaccess :: "sec_env \<Rightarrow> ipc_perm \<Rightarrow> bits \<Rightarrow> bits \<Rightarrow> cred \<Rightarrow> unit res" where
  "ipcaccess sec p mode flags cr =
     (if flags AND IPC_MAC \<noteq> 0 \<and> MAC_ACCESS sec MACEQUAL (cr_lid cr) (ip_lid p)
         \<and> mode AND IPC_W \<noteq> 0 \<and> pm_denied cr P_MACWRITE
      then Err EINVAL
      else if flags AND IPC_MAC \<noteq> 0 \<and> MAC_ACCESS sec MACEQUAL (cr_lid cr) (ip_lid p)
         \<and> mode AND IPC_R \<noteq> 0 \<and> MAC_ACCESS sec MACDOM (cr_lid cr) (ip_lid p)
         \<and> pm_denied cr P_MACREAD
      then Err EINVAL
      else if flags AND IPC_DAC = 0 then Ok ()
      else ipc_dacaccess sec p mode cr)"

section \<open>Finding or creating an entry\<close>

text \<open>
  The array of permission structures is the list \<open>base\<close>; an entry is named by its index.
  \<open>ipc_other_level\<close> is the test that keeps an unused entry last used at another level for
  later (\<open>sbase\<close> in the code).
\<close>

definition ipc_other_level :: "sec_env \<Rightarrow> cred \<Rightarrow> ipc_perm \<Rightarrow> bool" where
  "ipc_other_level sec cr p \<longleftrightarrow>
     mac_installed sec \<and> ip_lid p \<noteq> 0 \<and> MAC_ACCESS sec MACEQUAL (cr_lid cr) (ip_lid p)"

definition keep_first :: "nat option \<Rightarrow> nat \<Rightarrow> nat option" where
  "keep_first sbase i = (case sbase of None \<Rightarrow> Some i | Some j \<Rightarrow> Some j)"

fun private_scan :: "sec_env \<Rightarrow> cred \<Rightarrow> nat \<Rightarrow> nat option \<Rightarrow> ipc_perm list \<Rightarrow> nat option" where
  "private_scan sec cr i sbase [] = sbase"
| "private_scan sec cr i sbase (p # ps) =
     (if ipc_alloc p then private_scan sec cr (Suc i) sbase ps
      else if ipc_other_level sec cr p
      then private_scan sec cr (Suc i) (keep_first sbase i) ps
      else Some i)"

datatype key_scan = KeyErr errno | KeyFound nat | KeyNone "nat option" "nat option"

fun keyed_scan ::
  "sec_env \<Rightarrow> cred \<Rightarrow> int \<Rightarrow> bits \<Rightarrow> nat \<Rightarrow> nat option \<Rightarrow> nat option \<Rightarrow> ipc_perm list \<Rightarrow> key_scan"
where
  "keyed_scan sec cr k flag i a sbase [] = KeyNone a sbase"
| "keyed_scan sec cr k flag i a sbase (p # ps) =
     (if ipc_alloc p then
        (if ip_key p = k \<and> \<not> MAC_ACCESS sec MACEQUAL (cr_lid cr) (ip_lid p) then
           (if flag AND (IPC_CREAT OR IPC_EXCL) = IPC_CREAT OR IPC_EXCL then KeyErr EEXIST
            else if (flag AND PERM_MASK) AND NOT (ip_mode p) \<noteq> 0 then KeyErr EACCES
            else KeyFound i)
         else keyed_scan sec cr k flag (Suc i) a sbase ps)
      else if ipc_other_level sec cr p
      then keyed_scan sec cr k flag (Suc i) a (keep_first sbase i) ps
      else keyed_scan sec cr k flag (Suc i) (keep_first a i) sbase ps)"

definition ipc_init_perm :: "cred \<Rightarrow> int \<Rightarrow> bits \<Rightarrow> ipc_perm \<Rightarrow> ipc_perm" where
  "ipc_init_perm cr k flag p =
     p\<lparr>ip_mode := IPC_ALLOC OR (flag AND PERM_MASK), ip_key := k,
       ip_uid := cr_uid cr, ip_cuid := cr_uid cr,
       ip_gid := cr_gid cr, ip_cgid := cr_gid cr, ip_lid := cr_lid cr\<rparr>"

text \<open>
  On success: the index of the entry, the status word (true for a new entry), and the
  array with the new entry filled in.
\<close>

definition ipc_create :: "cred \<Rightarrow> int \<Rightarrow> bits \<Rightarrow> ipc_perm list \<Rightarrow> nat
    \<Rightarrow> (nat \<times> bool \<times> ipc_perm list) res" where
  "ipc_create cr k flag base i =
     Ok (i, True, base[i := ipc_init_perm cr k flag (base ! i)])"

definition ipcget :: "sec_env \<Rightarrow> cred \<Rightarrow> int \<Rightarrow> bits \<Rightarrow> ipc_perm list
    \<Rightarrow> (nat \<times> bool \<times> ipc_perm list) res" where
  "ipcget sec cr k flag base =
     (if k = IPC_PRIVATE then
        (case private_scan sec cr 0 None base of
           None \<Rightarrow> Err ENOSPC
         | Some i \<Rightarrow> ipc_create cr k flag base i)
      else
        case keyed_scan sec cr k flag 0 None None base of
          KeyErr e \<Rightarrow> Err e
        | KeyFound i \<Rightarrow> Ok (i, False, base)
        | KeyNone a sbase \<Rightarrow>
            if flag AND IPC_CREAT = 0 then Err ENOENT
            else (case a of
                    Some i \<Rightarrow> ipc_create cr k flag base i
                  | None \<Rightarrow> (case sbase of None \<Rightarrow> Err ENOSPC
                            | Some i \<Rightarrow> ipc_create cr k flag base i)))"

section \<open>Identifiers\<close>

text \<open>
  The identifier of slot \<open>i\<close> is \<open>seq * mni + i\<close>, computed in unsigned 32-bit arithmetic
  and returned as an int.  \<open>ipc_id_slot\<close> is the check that \<open>msgconv\<close> and \<open>semconv\<close> make.
  When an object is removed its sequence number moves on, and back to 0 when the next
  identifier would not be positive (or, for a caller using the old command number, would
  not fit a short).
\<close>

definition ipc_id :: "nat \<Rightarrow> int \<Rightarrow> nat \<Rightarrow> int" where
  "ipc_id mni seq i = s32 (u32 (seq * int mni + int i))"

definition ipc_id_slot :: "nat \<Rightarrow> ipc_perm list \<Rightarrow> int \<Rightarrow> nat res" where
  "ipc_id_slot mni base ident =
     (if ident < 0 then Err EINVAL
      else let i = nat (ident mod int mni) in
        if \<not> ipc_alloc (base ! i) \<or> ident div int mni \<noteq> ip_seq (base ! i) then Err EINVAL
        else Ok i)"

definition ipc_next_seq :: "nat \<Rightarrow> bool \<Rightarrow> int \<Rightarrow> int \<Rightarrow> int" where
  "ipc_next_seq mni old_cmd ident seq =
     (if old_cmd \<and> s32 (ident + int mni) > SHRT_MAX \<or> s32 (ident + int mni) < 0 then 0
      else u32 (seq + 1))"


section \<open>The access check meets its policy\<close>

text \<open>
  The policy, stated on rights: which of the three permission triples of the mode applies
  to the caller, and whether it grants a right.  An owner is judged by the owner triple
  only, a member of one of the object's groups by the group triple only.
\<close>

datatype right = Read | Write

fun right_bit :: "right \<Rightarrow> nat" where
  "right_bit Read = 8" | "right_bit Write = 7"

fun right_priv :: "right \<Rightarrow> nat" where
  "right_priv Read = P_DACREAD" | "right_priv Write = P_DACWRITE"

definition mode_of :: "bool \<Rightarrow> bool \<Rightarrow> bits" where
  "mode_of rd wr = (if rd then IPC_R else 0) OR (if wr then IPC_W else 0)"

definition rights :: "bool \<Rightarrow> bool \<Rightarrow> right set" where
  "rights rd wr = {r. case r of Read \<Rightarrow> rd | Write \<Rightarrow> wr}"

definition perm_class :: "ipc_perm \<Rightarrow> cred \<Rightarrow> nat" where
  "perm_class p cr =
     (if cr_uid cr = ip_uid p \<or> cr_uid cr = ip_cuid p then 0
      else if groupmember (ip_gid p) cr \<or> groupmember (ip_cgid p) cr then 1 else 2)"

definition mac_permits :: "sec_env \<Rightarrow> ipc_perm \<Rightarrow> cred \<Rightarrow> right set \<Rightarrow> bool" where
  "mac_permits sec p cr R \<longleftrightarrow>
     mac_installed sec \<and> cr_lid cr \<noteq> ip_lid p \<longrightarrow>
       (Write \<in> R \<longrightarrow> \<not> pm_denied cr P_MACWRITE)
       \<and> (Read \<in> R \<longrightarrow> \<not> mac_liddom sec (cr_lid cr) (ip_lid p) \<or> \<not> pm_denied cr P_MACREAD)"

definition dac_permits :: "ipc_perm \<Rightarrow> cred \<Rightarrow> right set \<Rightarrow> bool" where
  "dac_permits p cr R \<longleftrightarrow>
     (\<forall>r \<in> R. bit (ip_mode p) (right_bit r - 3 * perm_class p cr))
     \<or> (\<forall>r \<in> R. \<not> pm_denied cr (right_priv r))"

lemma and_or_eq: "(p AND (x OR y) = x OR y) \<longleftrightarrow> (p AND x = x \<and> p AND y = (y :: bits))"
  by (auto simp: bit_eq_iff bit_simps)

lemma and_exp_full: "n < 32 \<Longrightarrow> (p AND 2 ^ n = (2 ^ n :: bits)) \<longleftrightarrow> bit p n"
  by (auto simp: bit_eq_iff [of "p AND 2 ^ n" "2 ^ n"] bit_and_iff bit_exp_iff)

lemma and_flag:
  "(p AND 256 = (256 :: bits)) = bit p 8" "(p AND 128 = (128 :: bits)) = bit p 7"
  "(p AND 32 = (32 :: bits)) = bit p 5" "(p AND 16 = (16 :: bits)) = bit p 4"
  "(p AND 4 = (4 :: bits)) = bit p 2" "(p AND 2 = (2 :: bits)) = bit p 1"
  using and_exp_full [of 8 p] and_exp_full [of 7 p] and_exp_full [of 5 p]
    and_exp_full [of 4 p] and_exp_full [of 2 p] and_exp_full [of 1 p] by simp_all

lemma and_flags:
  "(p AND 384 = (384 :: bits)) = (bit p 8 \<and> bit p 7)"
  "(p AND 48 = (48 :: bits)) = (bit p 5 \<and> bit p 4)"
  "(p AND 6 = (6 :: bits)) = (bit p 2 \<and> bit p 1)"
  using and_or_eq [of p 256 128] and_or_eq [of p 32 16] and_or_eq [of p 4 2]
  by (simp_all add: and_flag)

lemma rights_simps [simp]:
  "Read \<in> rights rd wr \<longleftrightarrow> rd" "Write \<in> rights rd wr \<longleftrightarrow> wr"
  "(\<forall>r \<in> rights rd wr. Q r) \<longleftrightarrow> (rd \<longrightarrow> Q Read) \<and> (wr \<longrightarrow> Q Write)"
  by (auto simp: rights_def split: right.splits)

lemma mode_of_covered:
  assumes "c \<le> 2"
  shows "(p AND drop_bit (3 * c) (mode_of rd wr) = drop_bit (3 * c) (mode_of rd wr))
    = (\<forall>r \<in> rights rd wr. bit p (right_bit r - 3 * c))"
proof -
  have c: "c = 0 \<or> c = 1 \<or> c = 2" using assms by auto
  from c show ?thesis
    by (cases rd; cases wr) (auto simp: mode_of_def ipc_bits and_flag and_flags)
qed

lemma mode_of_wants:
  "mode_of rd wr AND IPC_R \<noteq> 0 \<longleftrightarrow> rd" "mode_of rd wr AND IPC_W \<noteq> 0 \<longleftrightarrow> wr"
  by (simp_all add: mode_of_def ipc_bits)

lemma ipc_nodaccess_spec:
  "ipc_nodaccess (mode_of rd wr) cr =
     (if \<forall>r \<in> rights rd wr. \<not> pm_denied cr (right_priv r) then Ok () else Err EACCES)"
  by (cases rd; cases wr) (auto simp: ipc_nodaccess_def mode_of_wants)

lemma ipc_dacaccess_spec:
  assumes "ip_dacp p = None"
  shows "ipc_dacaccess sec p (mode_of rd wr) cr =
    (if dac_permits p cr (rights rd wr) then Ok () else Err EACCES)"
proof -
  note covered = mode_of_covered [of 0 "ip_mode p" rd wr, simplified]
    mode_of_covered [of 1 "ip_mode p" rd wr, simplified]
    mode_of_covered [of 2 "ip_mode p" rd wr, simplified]
  note defs = ipc_dacaccess_def ipc_other_def ipc_nodaccess_spec dac_permits_def
    perm_class_def Let_def
  consider "cr_uid cr = ip_uid p \<or> cr_uid cr = ip_cuid p"
    | "\<not> (cr_uid cr = ip_uid p \<or> cr_uid cr = ip_cuid p)"
      "groupmember (ip_gid p) cr \<or> groupmember (ip_cgid p) cr"
    | "\<not> (cr_uid cr = ip_uid p \<or> cr_uid cr = ip_cuid p)"
      "\<not> (groupmember (ip_gid p) cr \<or> groupmember (ip_cgid p) cr)" by blast
  then show ?thesis
  proof cases
    case 1
    then show ?thesis by (auto simp: defs covered)
  next
    case 2
    then show ?thesis using assms by (auto simp: defs covered)
  next
    case 3
    then show ?thesis using assms by (auto simp: defs covered)
  qed
qed

lemma both_flags: "(IPC_MAC OR IPC_DAC) AND IPC_MAC \<noteq> 0" "(IPC_MAC OR IPC_DAC) AND IPC_DAC \<noteq> 0"
  "IPC_MAC \<noteq> 0" "IPC_DAC \<noteq> 0"
  by (simp_all add: ipc_bits)

text \<open>C34: The access check of the IPC facilities decides exactly the documented policy: a
  mandatory refusal is reported as EINVAL before anything else; otherwise (no access list)
  the one permission triple of the caller's class must grant every requested right, or the
  caller must hold the override privilege of every requested right, else EACCES.\<close>

theorem ipcaccess_decides_policy:
  "ip_dacp p = None \<Longrightarrow>
   ipcaccess sec p (mode_of rd wr) (IPC_MAC OR IPC_DAC) cr =
     (if \<not> mac_permits sec p cr (rights rd wr) then Err EINVAL
      else if dac_permits p cr (rights rd wr) then Ok () else Err EACCES)"
  using ipc_dacaccess_spec [of p sec rd wr cr]
  by (auto simp: ipcaccess_def mode_of_wants both_flags mac_permits_def MAC_ACCESS_def)

definition demo_cred :: cred where
  "demo_cred = \<lparr>cr_uid = 100, cr_gid = 7, cr_ruid = 100, cr_suid = 100, cr_groups = [20, 30], cr_lid = 5, cr_wkgpriv = 8\<rparr>"

definition demo_perm :: ipc_perm where
  "demo_perm = \<lparr>ip_uid = 1, ip_gid = 30, ip_cuid = 1, ip_cgid = 1, ip_mode = 32768 OR 160,
     ip_seq = 2, ip_key = 77, ip_dacp = None, ip_lid = 5\<rparr>"

definition demo_sec :: sec_env where
  "demo_sec = \<lparr>mac_installed = True, mac_liddom = (\<lambda>l l'. l < l'), ipcaclck = (\<lambda>p m c. -1)\<rparr>"

theorem ipcaccess_decides_policy_witness:
  "ipcaccess demo_sec demo_perm (mode_of True False) (IPC_MAC OR IPC_DAC) demo_cred = Ok ()
   \<and> ipcaccess demo_sec demo_perm (mode_of True True) (IPC_MAC OR IPC_DAC) demo_cred = Err EACCES"
  using ipcaccess_decides_policy [of demo_perm demo_sec True False demo_cred]
    ipcaccess_decides_policy [of demo_perm demo_sec True True demo_cred]
  by (simp add: demo_perm_def demo_cred_def demo_sec_def mac_permits_def dac_permits_def
      perm_class_def groupmember_iff pm_denied_bit P_DACREAD_def P_DACWRITE_def bit_simps)


section \<open>Keys name one object per level\<close>

definition reachable_key :: "sec_env \<Rightarrow> cred \<Rightarrow> int \<Rightarrow> ipc_perm \<Rightarrow> bool" where
  "reachable_key sec cr k p \<longleftrightarrow>
     ipc_alloc p \<and> ip_key p = k \<and> \<not> MAC_ACCESS sec MACEQUAL (cr_lid cr) (ip_lid p)"

definition keys_unique :: "sec_env \<Rightarrow> ipc_perm list \<Rightarrow> bool" where
  "keys_unique sec base \<longleftrightarrow>
     (\<forall>i < length base. \<forall>j < length base. i \<noteq> j \<longrightarrow>
        ipc_alloc (base ! i) \<longrightarrow> ipc_alloc (base ! j) \<longrightarrow>
        ip_key (base ! i) = ip_key (base ! j) \<longrightarrow> ip_key (base ! i) \<noteq> IPC_PRIVATE \<longrightarrow>
        MAC_ACCESS sec MACEQUAL (ip_lid (base ! i)) (ip_lid (base ! j)))"

lemma MACEQUAL_trans:
  "\<not> MAC_ACCESS sec MACEQUAL a b \<Longrightarrow> \<not> MAC_ACCESS sec MACEQUAL a c \<Longrightarrow>
   \<not> MAC_ACCESS sec MACEQUAL b c"
  by (auto simp: MAC_ACCESS_def split: if_splits)

lemma MACEQUAL_commute: "MAC_ACCESS sec MACEQUAL a b = MAC_ACCESS sec MACEQUAL b a"
  by (auto simp: MAC_ACCESS_def)

text \<open>
  What the scans return, for an array read from position \<open>i\<close> on: \<open>pre\<close> is what was read
  before.  A remembered index always names an unused entry.
\<close>

definition unused_at :: "ipc_perm list \<Rightarrow> nat \<Rightarrow> bool" where
  "unused_at base i \<longleftrightarrow> i < length base \<and> \<not> ipc_alloc (base ! i)"

lemma private_scan_Some:
  assumes "private_scan sec cr (length pre) sbase ps = Some i"
    and "\<And>j. sbase = Some j \<Longrightarrow> unused_at (pre @ ps) j"
  shows "unused_at (pre @ ps) i"
  using assms
proof (induction ps arbitrary: pre sbase)
  case Nil
  then show ?case by simp
next
  case (Cons p ps)
  have snoc: "pre @ p # ps = (pre @ [p]) @ ps" by simp
  show ?case
  proof (cases "ipc_alloc p \<or> ipc_other_level sec cr p")
    case False
    with Cons.prems(1) have "i = length pre" by simp
    with False show ?thesis by (simp add: unused_at_def)
  next
    case True
    obtain sbase' where
      scan: "private_scan sec cr (length (pre @ [p])) sbase' ps = Some i"
      and unused: "\<And>j. sbase' = Some j \<Longrightarrow> unused_at ((pre @ [p]) @ ps) j"
    proof (cases "ipc_alloc p")
      case True
      with Cons.prems show thesis by (intro that [of sbase]) auto
    next
      case False
      with True Cons.prems show thesis
        by (intro that [of "keep_first sbase (length pre)"])
           (auto simp: keep_first_def unused_at_def split: option.splits)
    qed
    from Cons.IH [OF scan unused] show ?thesis unfolding snoc .
  qed
qed

lemma private_scan_None:
  "private_scan sec cr i sbase ps = None \<longleftrightarrow> sbase = None \<and> (\<forall>p \<in> set ps. ipc_alloc p)"
  by (induction ps arbitrary: i sbase) (auto simp: keep_first_def split: option.splits)

lemma keyed_scan_KeyNone:
  assumes "keyed_scan sec cr k flag (length pre) a sbase ps = KeyNone a' sbase'"
    and "\<And>j. a = Some j \<Longrightarrow> unused_at (pre @ ps) j"
    and "\<And>j. sbase = Some j \<Longrightarrow> unused_at (pre @ ps) j"
  shows "(\<forall>p \<in> set ps. \<not> reachable_key sec cr k p)
    \<and> (\<forall>j. a' = Some j \<longrightarrow> unused_at (pre @ ps) j)
    \<and> (\<forall>j. sbase' = Some j \<longrightarrow> unused_at (pre @ ps) j)
    \<and> (a' = None \<and> sbase' = None \<longleftrightarrow> a = None \<and> sbase = None \<and> (\<forall>p \<in> set ps. ipc_alloc p))"
  using assms
proof (induction ps arbitrary: pre a sbase)
  case Nil
  then show ?case by auto
next
  case (Cons p ps)
  have snoc: "pre @ p # ps = (pre @ [p]) @ ps" by simp
  have here: "unused_at (pre @ p # ps) (length pre)" if "\<not> ipc_alloc p"
    using that by (simp add: unused_at_def)
  obtain a1 s1 where scan: "keyed_scan sec cr k flag (length (pre @ [p])) a1 s1 ps = KeyNone a' sbase'"
    and unused: "\<And>j. a1 = Some j \<Longrightarrow> unused_at ((pre @ [p]) @ ps) j"
      "\<And>j. s1 = Some j \<Longrightarrow> unused_at ((pre @ [p]) @ ps) j"
    and none: "a1 = None \<and> s1 = None \<longleftrightarrow> a = None \<and> sbase = None \<and> ipc_alloc p"
    and p: "\<not> reachable_key sec cr k p"
  proof -
    consider "ipc_alloc p" | "\<not> ipc_alloc p" "ipc_other_level sec cr p"
      | "\<not> ipc_alloc p" "\<not> ipc_other_level sec cr p" by blast
    then show thesis
    proof cases
      case 1
      with Cons.prems show thesis
        by (intro that [of a sbase]) (auto simp: reachable_key_def split: if_splits)
    next
      case 2
      with Cons.prems here show thesis
        by (intro that [of a "keep_first sbase (length pre)"])
           (auto simp: reachable_key_def keep_first_def split: option.splits)
    next
      case 3
      with Cons.prems here show thesis
        by (intro that [of "keep_first a (length pre)" sbase])
           (auto simp: reachable_key_def keep_first_def split: option.splits)
    qed
  qed
  from Cons.IH [OF scan unused] none p show ?case unfolding snoc by auto
qed

lemma keyed_scan_KeyFound:
  assumes "keyed_scan sec cr k flag (length pre) a sbase ps = KeyFound i"
  shows "length pre \<le> i \<and> i < length (pre @ ps) \<and> reachable_key sec cr k ((pre @ ps) ! i)
    \<and> (flag AND PERM_MASK) AND NOT (ip_mode ((pre @ ps) ! i)) = 0
    \<and> flag AND (IPC_CREAT OR IPC_EXCL) \<noteq> IPC_CREAT OR IPC_EXCL"
  using assms
proof (induction ps arbitrary: pre a sbase)
  case Nil
  then show ?case by simp
next
  case (Cons p ps)
  have snoc: "pre @ p # ps = (pre @ [p]) @ ps" by simp
  show ?case
  proof (cases "reachable_key sec cr k p")
    case True
    with Cons.prems show ?thesis by (auto simp: reachable_key_def nth_append split: if_splits)
  next
    case False
    then obtain a1 s1 where "keyed_scan sec cr k flag (length (pre @ [p])) a1 s1 ps = KeyFound i"
      using Cons.prems by (auto simp: reachable_key_def split: if_splits)
    from Cons.IH [OF this] show ?thesis unfolding snoc by auto
  qed
qed

lemma keyed_scan_KeyErr:
  assumes "keyed_scan sec cr k flag i a sbase ps = KeyErr e"
  shows "\<exists>p \<in> set ps. reachable_key sec cr k p \<and>
    (e = EEXIST \<and> flag AND (IPC_CREAT OR IPC_EXCL) = IPC_CREAT OR IPC_EXCL
     \<or> e = EACCES \<and> flag AND (IPC_CREAT OR IPC_EXCL) \<noteq> IPC_CREAT OR IPC_EXCL
         \<and> (flag AND PERM_MASK) AND NOT (ip_mode p) \<noteq> 0)"
  using assms
proof (induction ps arbitrary: i a sbase)
  case Nil
  then show ?case by simp
next
  case (Cons p ps)
  show ?case
  proof (cases "reachable_key sec cr k p")
    case True
    with Cons.prems show ?thesis by (auto simp: reachable_key_def split: if_splits)
  next
    case False
    then obtain i1 a1 s1 where "keyed_scan sec cr k flag i1 a1 s1 ps = KeyErr e"
      using Cons.prems by (auto simp: reachable_key_def split: if_splits)
    from Cons.IH [OF this] show ?thesis by auto
  qed
qed

lemma ipc_alloc_init: "ipc_alloc (ipc_init_perm cr k flag p)"
proof -
  have "(IPC_ALLOC OR m) AND IPC_ALLOC = IPC_ALLOC" for m
    by (auto simp: bit_eq_iff bit_simps)
  then show ?thesis by (simp add: ipc_alloc_def ipc_init_perm_def ipc_bits)
qed

text \<open>The outcomes of \<open>ipcget\<close>, each with what holds of the array then.\<close>

lemma ipcget_new:
  assumes "ipcget sec cr k flag base = Ok (i, True, base')"
  shows "unused_at base i \<and> base' = base[i := ipc_init_perm cr k flag (base ! i)]
    \<and> (k = IPC_PRIVATE \<or> flag AND IPC_CREAT \<noteq> 0 \<and> (\<forall>p \<in> set base. \<not> reachable_key sec cr k p))"
proof (cases "k = IPC_PRIVATE")
  case True
  with assms have "private_scan sec cr (length []) None base = Some i"
    "base' = base[i := ipc_init_perm cr k flag (base ! i)]"
    by (auto simp: ipcget_def ipc_create_def split: option.splits)
  with private_scan_Some [of sec cr "[]" None base i] True show ?thesis by simp
next
  case False
  with assms obtain a sbase where
    scan: "keyed_scan sec cr k flag (length []) None None base = KeyNone a sbase"
    and creat: "flag AND IPC_CREAT \<noteq> 0" and i: "a = Some i \<or> sbase = Some i"
    and base': "base' = base[i := ipc_init_perm cr k flag (base ! i)]"
    by (auto simp: ipcget_def ipc_create_def split: key_scan.splits option.splits if_splits)
  from keyed_scan_KeyNone [of sec cr k flag "[]" None None base a sbase] scan creat i base'
  show ?thesis by auto
qed

lemma ipcget_old:
  assumes "ipcget sec cr k flag base = Ok (i, False, base')"
  shows "base' = base \<and> i < length base \<and> k \<noteq> IPC_PRIVATE \<and> reachable_key sec cr k (base ! i)
    \<and> (flag AND PERM_MASK) AND NOT (ip_mode (base ! i)) = 0
    \<and> flag AND (IPC_CREAT OR IPC_EXCL) \<noteq> IPC_CREAT OR IPC_EXCL"
proof -
  from assms have k: "k \<noteq> IPC_PRIVATE"
    and scan: "keyed_scan sec cr k flag (length []) None None base = KeyFound i"
    and "base' = base"
    by (auto simp: ipcget_def ipc_create_def split: key_scan.splits option.splits if_splits)
  with keyed_scan_KeyFound [of sec cr k flag "[]" None None base i] scan show ?thesis by simp
qed

lemma keys_unique_update:
  assumes "keys_unique sec base" and "i < length base"
    and "ip_key q = IPC_PRIVATE
         \<or> (\<forall>p \<in> set base. ipc_alloc p \<longrightarrow> ip_key p = ip_key q \<longrightarrow>
              MAC_ACCESS sec MACEQUAL (ip_lid q) (ip_lid p))"
  shows "keys_unique sec (base[i := q])"
proof -
  have other: "MAC_ACCESS sec MACEQUAL (ip_lid q) (ip_lid (base ! j))"
    if "j < length base" "ipc_alloc (base ! j)" "ip_key (base ! j) = ip_key q"
      "ip_key q \<noteq> IPC_PRIVATE" for j
    using assms(3) that by auto
  show ?thesis
    unfolding keys_unique_def
  proof (intro allI impI)
    fix a b
    assume as: "a < length (base[i := q])" "b < length (base[i := q])" "a \<noteq> b"
      "ipc_alloc (base[i := q] ! a)" "ipc_alloc (base[i := q] ! b)"
      "ip_key (base[i := q] ! a) = ip_key (base[i := q] ! b)"
      "ip_key (base[i := q] ! a) \<noteq> IPC_PRIVATE"
    then show "MAC_ACCESS sec MACEQUAL (ip_lid (base[i := q] ! a)) (ip_lid (base[i := q] ! b))"
      using assms(1) other [of a] other [of b] MACEQUAL_commute
      by (cases "a = i"; cases "b = i") (auto simp: keys_unique_def)
  qed
qed

lemma ipcget_keys_unique_new:
  assumes "keys_unique sec base" and "ipcget sec cr k flag base = Ok (i, True, base')"
  shows "keys_unique sec base'"
proof -
  from ipcget_new [OF assms(2)] have i: "i < length base"
    and base': "base' = base[i := ipc_init_perm cr k flag (base ! i)]"
    and none: "k = IPC_PRIVATE \<or> (\<forall>p \<in> set base. \<not> reachable_key sec cr k p)"
    by (auto simp: unused_at_def)
  have key: "ip_key (ipc_init_perm cr k flag (base ! i)) = k"
    "ip_lid (ipc_init_perm cr k flag (base ! i)) = cr_lid cr" by (simp_all add: ipc_init_perm_def)
  from none show ?thesis
    unfolding base' by (intro keys_unique_update [OF assms(1) i]) (auto simp: key reachable_key_def)
qed

text \<open>C35: Looking up or creating an entry never makes two live objects of one security
  level share a public key.\<close>

theorem ipcget_keeps_keys_unique:
  assumes "keys_unique sec base" and "ipcget sec cr k flag base = Ok (i, new, base')"
  shows "keys_unique sec base' \<and> length base' = length base"
proof (cases new)
  case True
  with assms ipcget_keys_unique_new [of sec base cr k flag i base']
    ipcget_new [of sec cr k flag base i base'] show ?thesis by auto
next
  case False
  with assms ipcget_old [of sec cr k flag base i base'] show ?thesis by auto
qed

definition demo_table :: "ipc_perm list" where
  "demo_table = [demo_perm, demo_perm\<lparr>ip_mode := 0\<rparr>, demo_perm\<lparr>ip_mode := 0\<rparr>]"

lemmas demo_table_simps = demo_table_def demo_perm_def demo_sec_def demo_cred_def ipc_alloc_def
  ipc_bits MAC_ACCESS_def ipc_other_level_def keep_first_def IPC_PRIVATE_def

lemma demo_create:
  "ipcget demo_sec demo_cred 99 (IPC_CREAT OR 384) demo_table
   = Ok (1, True, demo_table[1 := ipc_init_perm demo_cred 99 (IPC_CREAT OR 384) (demo_table ! 1)])"
  by (simp add: ipcget_def ipc_create_def demo_table_simps)

lemma demo_table_unique: "keys_unique demo_sec demo_table"
  by (simp add: keys_unique_def demo_table_simps less_Suc_eq)

theorem ipcget_keeps_keys_unique_witness:
  "keys_unique demo_sec
     (demo_table[1 := ipc_init_perm demo_cred 99 (IPC_CREAT OR 384) (demo_table ! 1)])"
  using ipcget_keeps_keys_unique [OF demo_table_unique demo_create] by simp

text \<open>The result of \<open>ipcget\<close>: the two errors are returned in exactly the documented
  situations; a new entry is one nobody used, and all else is untouched; an old one has the
  key at the caller's level and grants all the permission bits asked for, and is never
  returned to a caller that insisted on creating it.\<close>

theorem ipcget_outcomes:
  "(ipcget sec cr k flag base = Err ENOENT \<longleftrightarrow>
      k \<noteq> IPC_PRIVATE \<and> (\<forall>p \<in> set base. \<not> reachable_key sec cr k p) \<and> flag AND IPC_CREAT = 0)
   \<and> (ipcget sec cr k flag base = Err ENOSPC \<longleftrightarrow>
      (\<forall>p \<in> set base. ipc_alloc p)
      \<and> (k = IPC_PRIVATE
         \<or> (\<forall>p \<in> set base. \<not> reachable_key sec cr k p) \<and> flag AND IPC_CREAT \<noteq> 0))
   \<and> (\<forall>i base'. ipcget sec cr k flag base = Ok (i, True, base') \<longrightarrow>
      unused_at base i \<and> base' = base[i := ipc_init_perm cr k flag (base ! i)])
   \<and> (\<forall>i base'. ipcget sec cr k flag base = Ok (i, False, base') \<longrightarrow>
      base' = base \<and> i < length base \<and> reachable_key sec cr k (base ! i)
      \<and> (flag AND PERM_MASK) AND NOT (ip_mode (base ! i)) = 0
      \<and> flag AND (IPC_CREAT OR IPC_EXCL) \<noteq> IPC_CREAT OR IPC_EXCL)"
proof (intro conjI allI impI)
  note none = private_scan_None [of sec cr 0 None base]
  note keyed = keyed_scan_KeyNone [of sec cr k flag "[]" None None base, simplified]
  have found: "reachable_key sec cr k (base ! i) \<and> i < length base"
    if "keyed_scan sec cr k flag 0 None None base = KeyFound i" for i
    using keyed_scan_KeyFound [of sec cr k flag "[]" None None base i] that by simp
  have err: "(\<exists>p \<in> set base. reachable_key sec cr k p) \<and> (e = EEXIST \<or> e = EACCES)"
    if "keyed_scan sec cr k flag 0 None None base = KeyErr e" for e
    using keyed_scan_KeyErr [OF that] by blast
  show "ipcget sec cr k flag base = Err ENOENT \<longleftrightarrow>
      k \<noteq> IPC_PRIVATE \<and> (\<forall>p \<in> set base. \<not> reachable_key sec cr k p) \<and> flag AND IPC_CREAT = 0"
    using keyed found err
    by (auto simp: ipcget_def ipc_create_def split: option.splits key_scan.splits dest: nth_mem)
  show "ipcget sec cr k flag base = Err ENOSPC \<longleftrightarrow>
      (\<forall>p \<in> set base. ipc_alloc p)
      \<and> (k = IPC_PRIVATE
         \<or> (\<forall>p \<in> set base. \<not> reachable_key sec cr k p) \<and> flag AND IPC_CREAT \<noteq> 0)"
    using keyed found err none
    by (auto simp: ipcget_def ipc_create_def split: option.splits key_scan.splits dest: nth_mem)
next
  fix i base'
  assume "ipcget sec cr k flag base = Ok (i, True, base')"
  from ipcget_new [OF this] show "unused_at base i"
    "base' = base[i := ipc_init_perm cr k flag (base ! i)]" by simp_all
next
  fix i base'
  assume "ipcget sec cr k flag base = Ok (i, False, base')"
  from ipcget_old [OF this] show "base' = base" "i < length base"
    "reachable_key sec cr k (base ! i)" "(flag AND PERM_MASK) AND NOT (ip_mode (base ! i)) = 0"
    "flag AND (IPC_CREAT OR IPC_EXCL) \<noteq> IPC_CREAT OR IPC_EXCL" by simp_all
qed

theorem ipcget_outcomes_witness:
  "unused_at demo_table 1"
  using ipcget_outcomes [of demo_sec demo_cred 99 "IPC_CREAT OR 384" demo_table] demo_create
  by simp


section \<open>Identifiers name one generation of one slot\<close>

definition seq_ok :: "nat \<Rightarrow> nat \<Rightarrow> int \<Rightarrow> bool" where
  "seq_ok mni i seq \<longleftrightarrow> 0 \<le> seq \<and> seq * int mni + int i \<le> INT_MAX"

lemma ipc_id_exact:
  assumes "seq_ok mni i seq"
  shows "ipc_id mni seq i = seq * int mni + int i"
proof -
  define x where "x = seq * int mni + int i"
  have "0 \<le> x" "x \<le> INT_MAX" using assms by (simp_all add: seq_ok_def x_def)
  then have "s32 (u32 x) = x" by (simp add: INT_MAX_def u32_id s32_id)
  then show ?thesis by (simp add: ipc_id_def x_def)
qed

lemma ipc_id_digits:
  assumes "i < mni" and "seq_ok mni i seq"
  shows "0 \<le> ipc_id mni seq i" "ipc_id mni seq i mod int mni = int i"
    "ipc_id mni seq i div int mni = seq"
  using assms by (simp_all add: ipc_id_exact) (simp add: seq_ok_def)

lemma ipc_next_seq_ok:
  assumes "seq_ok mni i seq" and "i < mni" and "int mni \<le> INT_MAX"
  shows "seq_ok mni i (ipc_next_seq mni old_cmd (ipc_id mni seq i) seq)"
proof (cases "s32 (ipc_id mni seq i + int mni) < 0")
  case True
  with assms show ?thesis by (simp add: seq_ok_def ipc_next_seq_def)
next
  case False
  let ?x = "seq * int mni + int i + int mni"
  have sum: "0 \<le> ?x" "?x \<le> 2 * INT_MAX" using assms by (auto simp: seq_ok_def)
  have fits: "?x \<le> INT_MAX"
  proof (rule ccontr)
    assume "\<not> ?x \<le> INT_MAX"
    with sum have "s32 ?x = ?x - 4294967296"
      by (simp add: s32_def INT_MAX_def mod_pos_geq mod_pos_pos_trivial)
    with sum False assms show False by (simp add: ipc_id_exact INT_MAX_def)
  qed
  have "seq * 1 \<le> seq * int mni" using assms by (intro mult_left_mono) (auto simp: seq_ok_def)
  then have "u32 (seq + 1) = seq + 1"
    using fits assms by (intro u32_id) (auto simp: seq_ok_def INT_MAX_def)
  then show ?thesis
    using fits assms by (auto simp: seq_ok_def ipc_next_seq_def ring_distribs)
qed

lemma ipc_next_seq_moves:
  assumes "seq_ok mni i seq" and "i < mni" and "2 * int mni \<le> SHRT_MAX"
  shows "ipc_next_seq mni old_cmd (ipc_id mni seq i) seq \<noteq> seq"
proof (cases "seq = 0")
  case True
  with assms have "s32 (ipc_id mni seq i + int mni) = int i + int mni"
    by (simp add: ipc_id_exact SHRT_MAX_def s32_id)
  with True assms show ?thesis by (simp add: ipc_next_seq_def u32_id)
next
  case False
  have "seq * 1 \<le> seq * int mni" using assms by (intro mult_left_mono) (auto simp: seq_ok_def)
  then have "u32 (seq + 1) = seq + 1"
    using assms by (intro u32_id) (auto simp: seq_ok_def INT_MAX_def)
  with False show ?thesis by (simp add: ipc_next_seq_def)
qed

text \<open>
  A facility's table of objects: \<open>perm_at\<close> reads a permission structure out of its state,
  \<open>conv\<close> is its own conversion of identifiers.  Both \<open>msgconv\<close> and \<open>semconv\<close> provide it.
\<close>

locale object_table =
  fixes perm_at :: "'s \<Rightarrow> nat \<Rightarrow> ipc_perm" and mni :: "'s \<Rightarrow> nat" and conv :: "'s \<Rightarrow> int \<Rightarrow> nat res"
  assumes conv_neg: "ident < 0 \<Longrightarrow> conv s ident = Err EINVAL"
    and conv_slot: "0 \<le> ident \<Longrightarrow> conv s ident =
      (let i = nat (ident mod int (mni s)) in
       if ipc_alloc (perm_at s i) \<and> ident div int (mni s) = ip_seq (perm_at s i)
       then Ok i else Err EINVAL)"
begin

lemma conv_ident:
  assumes "i < mni s" and "ipc_alloc (perm_at s i)" and "seq_ok (mni s) i (ip_seq (perm_at s i))"
  shows "conv s (ipc_id (mni s) (ip_seq (perm_at s i)) i) = Ok i"
  using assms ipc_id_digits [OF assms(1,3)] by (simp add: conv_slot)

lemma conv_Ok:
  assumes "conv s ident = Ok i"
  shows "0 \<le> ident \<and> i = nat (ident mod int (mni s)) \<and> ipc_alloc (perm_at s i)
    \<and> ident div int (mni s) = ip_seq (perm_at s i)"
  using assms conv_neg [of ident s] conv_slot [of ident s]
  by (cases "ident < 0") (auto simp: Let_def split: if_splits)

lemma conv_lt: "conv s ident = Ok i \<Longrightarrow> 0 < mni s \<Longrightarrow> i < mni s"
  by (auto dest!: conv_Ok simp: nat_less_iff)

lemma conv_inj:
  assumes "conv s a = Ok i" and "conv s b = Ok i"
  shows "a = b"
proof -
  note a = conv_Ok [OF assms(1)] and b = conv_Ok [OF assms(2)]
  from a b have "a div int (mni s) = b div int (mni s)" by simp
  have "0 \<le> x mod int (mni s)" if "0 \<le> x" for x
    using that by (cases "mni s = 0") simp_all
  with a b have "0 \<le> a mod int (mni s)" "0 \<le> b mod int (mni s)"
    "nat (a mod int (mni s)) = nat (b mod int (mni s))" by auto
  then have "a mod int (mni s) = b mod int (mni s)" using eq_nat_nat_iff by blast
  with \<open>a div int (mni s) = b div int (mni s)\<close> show ?thesis by (metis div_mult_mod_eq)
qed

text \<open>An identifier of an earlier generation of a reused slot is refused.\<close>

lemma conv_stale:
  assumes "i < mni s" and "seq_ok (mni s) i seq" and "2 * int (mni s) \<le> SHRT_MAX"
    and "ip_seq (perm_at s i) = ipc_next_seq (mni s) old_cmd (ipc_id (mni s) seq i) seq"
  shows "conv s (ipc_id (mni s) seq i) = Err EINVAL"
  using ipc_id_digits [OF assms(1,2)] ipc_next_seq_moves [OF assms(2,1,3), of old_cmd] assms(4)
  by (auto simp: conv_slot Let_def)

end

end
