(* ===== verification/Resource_Map.thy ===== *)
theory Resource_Map
  imports Kernel_Prelude
begin

text \<open>
  The kernel's resource map (\<open>util/malloc.c\<close>, \<open>util/map.h\<close>): an array of
  (size, address) pairs sorted by address and ended by an entry of size 0, from which
  \<open>rmalloc\<close> takes the first run that is long enough and to which \<open>rmfree\<close> gives a run
  back, joining it with its neighbours.  Both IPC facilities allocate from such maps.
  Slot 0 of the array holds the number of unused slots (\<open>mapsize\<close>) and the wanted flag
  (\<open>mapwant\<close>); the slots from 1 on are the list \<open>slots\<close>.

  The theory gives the two routines as the code walks the array, the invariant of the
  array, what the routines do to the set of free units, and the interface
  \<open>unit_allocator\<close> that clients rely on.
\<close>

section \<open>The map and its two routines\<close>

record map_ent =
  m_size :: nat
  m_addr :: nat

record rmap =
  mapsize :: nat
  mapwant :: nat
  slots :: "map_ent list"

abbreviation ent :: "nat \<Rightarrow> nat \<Rightarrow> map_ent" where
  "ent s a \<equiv> \<lparr>m_size = s, m_addr = a\<rparr>"

definition mapinit :: "rmap \<Rightarrow> nat \<Rightarrow> rmap" where
  "mapinit m y = m\<lparr>mapsize := y - 2\<rparr>"

text \<open>
  The two shifting loops move the later entries one slot towards the start, over the
  entry the scan stands on.  \<open>rm_shift_up\<close> is the do-while of \<open>rmalloc\<close>, which copies
  up to and including the terminator; \<open>rm_compress\<close> is the while of \<open>rmfree\<close>, which
  tests before it copies.
\<close>

fun rm_shift_up :: "map_ent list \<Rightarrow> map_ent list" where
  "rm_shift_up (e # e' # es) =
     e' # (if m_size e' \<noteq> 0 then rm_shift_up (e' # es) else e' # es)"
| "rm_shift_up es = es"

fun rm_compress :: "map_ent list \<Rightarrow> map_ent list" where
  "rm_compress (e # e' # es) =
     (if m_size e \<noteq> 0 then e' # rm_compress (e' # es) else e # e' # es)"
| "rm_compress es = es"

text \<open>
  The first-fit scan: \<open>None\<close> when it meets the terminator; otherwise the address taken,
  whether an entry became empty, and the new slots.
\<close>

fun rm_scan :: "map_ent list \<Rightarrow> nat \<Rightarrow> (nat \<times> bool \<times> map_ent list) option" where
  "rm_scan [] sz = None"
| "rm_scan (bp # es) sz =
     (if m_size bp = 0 then None
      else if sz \<le> m_size bp then
        let a = m_addr bp;
            bp' = ent (m_size bp - sz) (uadd (m_addr bp) sz)
        in if m_size bp' = 0 then Some (a, True, rm_shift_up (bp' # es))
           else Some (a, False, bp' # es)
      else case rm_scan es sz of
             None \<Rightarrow> None
           | Some (a, emptied, es') \<Rightarrow> Some (a, emptied, bp # es'))"

definition rmalloc :: "rmap \<Rightarrow> nat \<Rightarrow> nat \<times> rmap" where
  "rmalloc mp sz =
     (if sz = 0 then (0, mp)
      else case rm_scan (slots mp) sz of
             None \<Rightarrow> (0, mp)
           | Some (a, emptied, es) \<Rightarrow>
               (a, mp\<lparr>slots := es,
                      mapsize := (if emptied then Suc (mapsize mp) else mapsize mp)\<rparr>))"

text \<open>
  The swapping loop of \<open>rmfree\<close>: the new entry goes into the slot of \<open>bp\<close> and each
  entry moves one slot on, until the terminator has been overwritten.
\<close>

fun rm_insert :: "map_ent list \<Rightarrow> nat \<Rightarrow> nat \<Rightarrow> map_ent list" where
  "rm_insert [] a sz = []"
| "rm_insert (bp # es) a sz =
     ent sz a # (if m_size bp \<noteq> 0 then rm_insert es (m_addr bp) (m_size bp) else es)"

text \<open>
  \<open>RmLost\<close> is the early return after the warning about a map overflow; \<open>RmDone w\<close> is
  the normal end, with \<open>w\<close> telling whether the sleepers on the map were woken.
\<close>

datatype rm_out = RmDone bool | RmLost

definition rm_wake :: "rmap \<Rightarrow> rm_out \<times> rmap" where
  "rm_wake mp = (if mapwant mp \<noteq> 0 then (RmDone True, mp\<lparr>mapwant := 0\<rparr>)
                 else (RmDone False, mp))"

definition rm_at :: "map_ent list \<Rightarrow> map_ent" where
  "rm_at es = (case es of [] \<Rightarrow> ent 0 0 | e # _ \<Rightarrow> e)"

definition rmfree :: "rmap \<Rightarrow> nat \<Rightarrow> nat \<Rightarrow> rm_out \<times> rmap" where
  "rmfree mp sz a =
     (if sz = 0 then (RmDone False, mp)
      else
        let before = takeWhile (\<lambda>e. m_addr e \<le> a \<and> m_size e \<noteq> 0) (slots mp);
            rest = dropWhile (\<lambda>e. m_addr e \<le> a \<and> m_size e \<noteq> 0) (slots mp);
            bp = rm_at rest
        in if before \<noteq> [] \<and> uadd (m_addr (last before)) (m_size (last before)) = a then
             let prev = ent (uadd (m_size (last before)) sz) (m_addr (last before))
             in if m_addr bp \<noteq> 0 \<and> uadd a sz = m_addr bp then
                  rm_wake (mp\<lparr>slots := butlast before
                                 @ ent (uadd (m_size prev) (m_size bp)) (m_addr prev)
                                 # rm_compress rest,
                               mapsize := Suc (mapsize mp)\<rparr>)
                else rm_wake (mp\<lparr>slots := butlast before @ prev # rest\<rparr>)
           else if uadd a sz = m_addr bp \<and> m_size bp \<noteq> 0 then
             rm_wake (mp\<lparr>slots := before
                            @ ent (uadd (m_size bp) sz) (usub (m_addr bp) sz) # tl rest\<rparr>)
           else if mapsize mp = 0 then (RmLost, mp)
           else rm_wake (mp\<lparr>slots := before @ rm_insert rest a sz,
                            mapsize := mapsize mp - 1\<rparr>))"

text \<open>The names the routines had before, kept for compatibility.\<close>

definition malloc :: "rmap \<Rightarrow> nat \<Rightarrow> nat \<times> rmap" where
  "malloc mp sz = rmalloc mp sz"

definition mfree :: "rmap \<Rightarrow> nat \<Rightarrow> nat \<Rightarrow> rm_out \<times> rmap" where
  "mfree mp sz a = rmfree mp sz a"

section \<open>The array invariant\<close>

text \<open>
  \<open>exts_ok lo es\<close>: the entries start after \<open>lo\<close>, are non-empty, sorted, do not wrap and do
  not even touch each other.  \<open>rmap_ok\<close>: live entries, then at least one all-zero slot;
  \<open>mapsize\<close> is the number of zero slots besides the terminator.
\<close>

fun exts_ok :: "nat \<Rightarrow> map_ent list \<Rightarrow> bool" where
  "exts_ok lo [] = True"
| "exts_ok lo (e # es) =
     (lo < m_addr e \<and> 0 < m_size e \<and> m_addr e + m_size e < 4294967296
      \<and> exts_ok (m_addr e + m_size e) es)"

definition rmap_ok :: "rmap \<Rightarrow> bool" where
  "rmap_ok mp \<longleftrightarrow> (\<exists>es. exts_ok 0 es \<and> slots mp = es @ replicate (Suc (mapsize mp)) (ent 0 0))"

definition units_of :: "map_ent list \<Rightarrow> nat set" where
  "units_of es = (\<Union>e \<in> set es. {m_addr e ..< m_addr e + m_size e})"

definition free_units :: "rmap \<Rightarrow> nat set" where
  "free_units mp = units_of (slots mp)"

lemma units_of_simps [simp]:
  "units_of [] = {}"
  "units_of (e # es) = {m_addr e ..< m_addr e + m_size e} \<union> units_of es"
  "units_of (es @ es') = units_of es \<union> units_of es'"
  by (auto simp: units_of_def)

lemma units_of_zeros [simp]: "units_of (replicate n (ent 0 0)) = {}"
  by (auto simp: units_of_def)

lemma exts_ok_mono: "exts_ok lo es \<Longrightarrow> lo' \<le> lo \<Longrightarrow> exts_ok lo' es"
  by (cases es) auto

lemma exts_ok_above: "exts_ok lo es \<Longrightarrow> u \<in> units_of es \<Longrightarrow> lo < u"
  by (induction lo es rule: exts_ok.induct) fastforce+

lemma exts_ok_append:
  "exts_ok lo (es @ es') \<longleftrightarrow>
     exts_ok lo es
     \<and> exts_ok (if es = [] then lo else m_addr (last es) + m_size (last es)) es'"
  by (induction lo es rule: exts_ok.induct) auto

lemma exts_ok_positive: "exts_ok lo es \<Longrightarrow> e \<in> set es \<Longrightarrow> 0 < m_size e"
  by (induction lo es rule: exts_ok.induct) auto

lemma replicate_Suc_app: "replicate (Suc n) x @ xs = x # replicate n x @ xs"
  by simp

lemma zeros_snoc: "replicate n (ent 0 0) @ [ent 0 0] = replicate (Suc n) (ent 0 0)"
  by (simp add: replicate_append_same)

section \<open>The loops on a well-formed array\<close>

lemma rm_shift_up_zeros:
  "exts_ok lo es \<Longrightarrow>
   rm_shift_up (e # es @ replicate (Suc k) (ent 0 0)) = es @ replicate (Suc (Suc k)) (ent 0 0)"
proof (induction es arbitrary: e lo)
  case Nil
  then show ?case by simp
next
  case (Cons f es)
  then have "rm_shift_up (f # es @ replicate (Suc k) (ent 0 0))
      = es @ replicate (Suc (Suc k)) (ent 0 0)" by auto
  with Cons.prems show ?case by simp
qed

lemma rm_compress_zeros:
  assumes "exts_ok lo es" and "0 < m_size e"
  shows "rm_compress (e # es @ replicate (Suc k) (ent 0 0))
         = es @ replicate (Suc (Suc k)) (ent 0 0)"
  using assms
proof (induction es arbitrary: e lo)
  case Nil
  then show ?case by (cases k) simp_all
next
  case (Cons f es)
  then have "rm_compress (f # es @ replicate (Suc k) (ent 0 0))
      = es @ replicate (Suc (Suc k)) (ent 0 0)" by auto
  with Cons.prems show ?case by simp
qed

lemma rm_insert_zeros:
  "exts_ok lo es \<Longrightarrow>
   rm_insert (es @ replicate (Suc (Suc k)) (ent 0 0)) a n
     = ent n a # es @ replicate (Suc k) (ent 0 0)"
proof (induction es arbitrary: a n lo)
  case Nil
  then show ?case by simp
next
  case (Cons e es)
  then have "rm_insert (es @ replicate (Suc (Suc k)) (ent 0 0)) (m_addr e) (m_size e)
      = ent (m_size e) (m_addr e) # es @ replicate (Suc k) (ent 0 0)" by auto
  with Cons.prems show ?case by simp
qed


section \<open>What the scan and the split find\<close>

lemma rm_scan_None:
  "exts_ok lo es \<Longrightarrow> 0 < n \<Longrightarrow>
   rm_scan (es @ replicate (Suc k) (ent 0 0)) n = None \<longleftrightarrow> (\<forall>e \<in> set es. m_size e < n)"
  by (induction es arbitrary: lo) (auto simp: Let_def not_le split: option.splits if_splits)

lemma rm_scan_Some:
  assumes "exts_ok lo es" and "0 < n"
    and "rm_scan (es @ replicate (Suc k) (ent 0 0)) n = Some (a, emptied, es')"
  shows "\<exists>pre e post. es = pre @ e # post \<and> (\<forall>f \<in> set pre. m_size f < n) \<and> n \<le> m_size e
           \<and> a = m_addr e \<and> emptied = (m_size e = n)
           \<and> es' = (if m_size e = n then pre @ post @ replicate (Suc (Suc k)) (ent 0 0)
                    else pre @ ent (m_size e - n) (m_addr e + n) # post
                           @ replicate (Suc k) (ent 0 0))"
  using assms
proof (induction es arbitrary: lo es')
  case Nil
  then show ?case by simp
next
  case (Cons f fs)
  have fs: "exts_ok (m_addr f + m_size f) fs" and f: "0 < m_size f"
      "m_addr f + m_size f < 4294967296"
    using Cons.prems(1) by simp_all
  show ?case
  proof (cases "n \<le> m_size f")
    case True
    have wrap: "uadd (m_addr f) n = m_addr f + n" using True f by (simp add: wrap_simps)
    show ?thesis
      using Cons.prems(3) True f wrap rm_shift_up_zeros [OF fs]
      by (intro exI [of _ "[]"] exI [of _ f] exI [of _ fs])
         (auto simp: Let_def split: if_splits)
  next
    case False
    with Cons.prems(3) f obtain es0
      where rec: "rm_scan (fs @ replicate (Suc k) (ent 0 0)) n = Some (a, emptied, es0)"
        and es': "es' = f # es0"
      by (auto split: option.splits)
    from Cons.IH [OF fs Cons.prems(2) rec] obtain pre e post where
      "fs = pre @ e # post" "\<forall>f \<in> set pre. m_size f < n" "n \<le> m_size e" "a = m_addr e"
      "emptied = (m_size e = n)"
      "es0 = (if m_size e = n then pre @ post @ replicate (Suc (Suc k)) (ent 0 0)
              else pre @ ent (m_size e - n) (m_addr e + n) # post @ replicate (Suc k) (ent 0 0))"
      by blast
    with False es' show ?thesis
      by (intro exI [of _ "f # pre"] exI [of _ e] exI [of _ post]) simp
  qed
qed

text \<open>Splitting a well-formed array at an address that is not free.\<close>

lemma split_at:
  assumes "exts_ok lo es" and "a \<notin> units_of es"
  shows "\<exists>pre post. es = pre @ post
    \<and> takeWhile (\<lambda>e. m_addr e \<le> a \<and> m_size e \<noteq> 0) (es @ replicate (Suc k) (ent 0 0)) = pre
    \<and> dropWhile (\<lambda>e. m_addr e \<le> a \<and> m_size e \<noteq> 0) (es @ replicate (Suc k) (ent 0 0))
        = post @ replicate (Suc k) (ent 0 0)
    \<and> (pre \<noteq> [] \<longrightarrow> m_addr (last pre) + m_size (last pre) \<le> a)
    \<and> (post \<noteq> [] \<longrightarrow> a < m_addr (hd post))"
proof -
  let ?P = "\<lambda>e. m_addr e \<le> a \<and> m_size e \<noteq> 0"
  let ?z = "replicate (Suc k) (ent 0 0)"
  define pre where "pre = takeWhile ?P es"
  define post where "post = dropWhile ?P es"
  have es: "es = pre @ post" by (simp add: pre_def post_def)
  have pre: "\<forall>e \<in> set pre. ?P e" by (auto simp: pre_def dest: set_takeWhileD)
  have post: "post \<noteq> [] \<Longrightarrow> \<not> ?P (hd post)"
    using hd_dropWhile [of ?P es] unfolding post_def .
  have zero: "takeWhile ?P ?z = []" "dropWhile ?P ?z = ?z" by simp_all
  have split: "takeWhile ?P (es @ ?z) = pre" "dropWhile ?P (es @ ?z) = post @ ?z"
  proof -
    show "takeWhile ?P (es @ ?z) = pre"
    proof (cases "post = []")
      case True
      with es pre zero show ?thesis by (simp add: takeWhile_append2)
    next
      case False
      with post have "\<exists>e \<in> set es. \<not> ?P e" using es by (metis hd_in_set in_set_conv_decomp Un_iff set_append)
      then show ?thesis by (auto simp: pre_def takeWhile_append1)
    qed
    then show "dropWhile ?P (es @ ?z) = post @ ?z"
      using takeWhile_dropWhile_id [of ?P "es @ ?z"] es by (metis append_assoc same_append_eq)
  qed
  have last_le: "m_addr (last pre) + m_size (last pre) \<le> a" if "pre \<noteq> []"
  proof -
    from that have mem: "last pre \<in> set pre" by simp
    with pre have le: "m_addr (last pre) \<le> a" by blast
    have "a \<notin> {m_addr (last pre) ..< m_addr (last pre) + m_size (last pre)}"
      using assms(2) mem es by (auto simp: units_of_def)
    with le show ?thesis by auto
  qed
  have hd_gt: "a < m_addr (hd post)" if "post \<noteq> []"
  proof -
    from that have "hd post \<in> set es" using es by simp
    with assms(1) have "0 < m_size (hd post)" by (rule exts_ok_positive)
    with post [OF that] show ?thesis by simp
  qed
  show ?thesis using es split last_le hd_gt by blast
qed


section \<open>Correctness of allocation\<close>

lemma free_units_split:
  "exts_ok lo (pre @ post) \<Longrightarrow> units_of pre \<inter> units_of post = {}"
proof (induction pre arbitrary: lo)
  case Nil
  then show ?case by simp
next
  case (Cons e pre)
  then have "units_of pre \<inter> units_of post = {}" by auto
  moreover have "u \<notin> units_of post" if "u \<in> {m_addr e ..< m_addr e + m_size e}" for u
  proof
    assume u: "u \<in> units_of post"
    from Cons.prems have "exts_ok (m_addr e + m_size e) (pre @ post)" by simp
    moreover from u have "u \<in> units_of (pre @ post)" by simp
    ultimately have "m_addr e + m_size e < u" by (rule exts_ok_above)
    with that show False by simp
  qed
  ultimately show ?case by auto
qed

lemma rmalloc_ok:
  assumes "rmap_ok m" and "rmalloc m n = (a, m')"
  shows "rmap_ok m'"
    and "a = 0 \<Longrightarrow> m' = m"
    and "a \<noteq> 0 \<Longrightarrow> ext (a, n) \<subseteq> free_units m \<and> free_units m' = free_units m - ext (a, n)"
proof -
  from assms(1) obtain es where es: "exts_ok 0 es"
    and sl: "slots m = es @ replicate (Suc (mapsize m)) (ent 0 0)"
    by (auto simp: rmap_ok_def)
  have "rmap_ok m' \<and> (a = 0 \<longrightarrow> m' = m) \<and>
     (a \<noteq> 0 \<longrightarrow> ext (a, n) \<subseteq> free_units m \<and> free_units m' = free_units m - ext (a, n))"
  proof (cases "n = 0 \<or> rm_scan (slots m) n = None")
    case True
    with assms(2) have "a = 0" "m' = m" by (auto simp: rmalloc_def split: if_splits)
    with assms(1) show ?thesis by simp
  next
    case False
    then obtain b emptied es' where n: "0 < n"
      and scan: "rm_scan (slots m) n = Some (b, emptied, es')" by auto
    from assms(2) n scan have a: "a = b"
      and m': "m' = m\<lparr>slots := es',
                     mapsize := (if emptied then Suc (mapsize m) else mapsize m)\<rparr>"
      by (auto simp: rmalloc_def)
    from rm_scan_Some [OF es n scan [unfolded sl]] obtain pre e post where
      split: "es = pre @ e # post" and ne: "n \<le> m_size e" and b: "b = m_addr e"
      and em: "emptied = (m_size e = n)"
      and es': "es' = (if m_size e = n
          then pre @ post @ replicate (Suc (Suc (mapsize m))) (ent 0 0)
          else pre @ ent (m_size e - n) (m_addr e + n) # post
                 @ replicate (Suc (mapsize m)) (ent 0 0))" by blast
    have e_ok: "0 < m_addr e" "m_addr e + m_size e < 4294967296"
      using es split by (auto simp: exts_ok_append split: if_splits)
    have dis_pre: "units_of pre \<inter> units_of (e # post) = {}"
      using free_units_split es split by blast
    have dis_post: "units_of [e] \<inter> units_of post = {}"
      using free_units_split [of 0 "pre @ [e]" post] es split by auto
    have fu: "free_units m = units_of pre \<union> units_of [e] \<union> units_of post"
      using sl split by (simp add: free_units_def Un_assoc)
    have ext: "ext (b, n) \<subseteq> units_of [e]" using ne b by (auto simp: ext_def)
    have rmok: "rmap_ok m'"
    proof (cases "m_size e = n")
      case True
      from es split have "exts_ok 0 (pre @ post)"
        by (auto simp: exts_ok_append intro: exts_ok_mono split: if_splits)
      with True m' em es' show ?thesis
        unfolding rmap_ok_def by (intro exI [of _ "pre @ post"]) simp
    next
      case False
      from es split e_ok ne False
      have "exts_ok 0 (pre @ ent (m_size e - n) (m_addr e + n) # post)"
        by (auto simp: exts_ok_append split: if_splits)
      with False m' em es' show ?thesis unfolding rmap_ok_def
        by (intro exI [of _ "pre @ ent (m_size e - n) (m_addr e + n) # post"]) simp
    qed
    have "free_units m' = units_of pre \<union> (units_of [e] - ext (b, n)) \<union> units_of post"
      using m' es' ne b by (auto simp: free_units_def ext_def)
    with fu ext dis_pre dis_post have "free_units m' = free_units m - ext (b, n)" by auto
    with rmok ext fu a b e_ok show ?thesis by auto
  qed
  then show "rmap_ok m'" "a = 0 \<Longrightarrow> m' = m"
    "a \<noteq> 0 \<Longrightarrow> ext (a, n) \<subseteq> free_units m \<and> free_units m' = free_units m - ext (a, n)"
    by blast+
qed

lemma run_in_one_extent:
  assumes "exts_ok lo es" and "0 < n" and "{b ..< b + n} \<subseteq> units_of es"
  shows "\<exists>e \<in> set es. {b ..< b + n} \<subseteq> {m_addr e ..< m_addr e + m_size e}"
  using assms
proof (induction es arbitrary: lo)
  case Nil
  then show ?case by auto
next
  case (Cons e es)
  let ?stop = "m_addr e + m_size e"
  have rest: "exts_ok ?stop es" using Cons.prems by simp
  have gap: "?stop \<notin> units_of es" using exts_ok_above [OF rest] by blast
  show ?case
  proof (cases "b < ?stop")
    case True
    have "b + n \<le> ?stop"
    proof (rule ccontr)
      assume "\<not> b + n \<le> ?stop"
      with True have "?stop \<in> {b ..< b + n}" by simp
      with Cons.prems(3) gap show False by auto
    qed
    moreover have "m_addr e \<le> b"
    proof -
      have "b \<in> {b ..< b + n}" using Cons.prems(2) by simp
      with Cons.prems(3) have "b \<in> units_of (e # es)" by (rule subsetD)
      moreover have "b \<notin> units_of es" using exts_ok_above [OF rest, of b] True by auto
      ultimately show ?thesis by simp
    qed
    ultimately show ?thesis by auto
  next
    case False
    with Cons.prems(3) have "{b ..< b + n} \<subseteq> units_of es" by fastforce
    from Cons.IH [OF rest Cons.prems(2) this] show ?thesis by auto
  qed
qed

lemma rmalloc_complete:
  assumes "rmap_ok m" and "0 < n" and "{b ..< b + n} \<subseteq> free_units m"
  shows "fst (rmalloc m n) \<noteq> 0"
proof -
  from assms(1) obtain es where es: "exts_ok 0 es"
    and sl: "slots m = es @ replicate (Suc (mapsize m)) (ent 0 0)"
    by (auto simp: rmap_ok_def)
  from assms(3) sl have "{b ..< b + n} \<subseteq> units_of es" by (simp add: free_units_def)
  from run_in_one_extent [OF es assms(2) this] obtain e where "e \<in> set es"
    and "{b ..< b + n} \<subseteq> {m_addr e ..< m_addr e + m_size e}" by blast
  with assms(2) atLeastLessThan_subset_iff [of b "b + n" "m_addr e" "m_addr e + m_size e"]
  have "e \<in> set es" "\<not> m_size e < n" by auto
  then have "rm_scan (slots m) n \<noteq> None"
    using rm_scan_None [OF es assms(2), of "mapsize m"] sl by auto
  then obtain a emptied es' where scan: "rm_scan (slots m) n = Some (a, emptied, es')"
    by auto
  from rm_scan_Some [OF es assms(2) scan [unfolded sl]] obtain pre f post where
    "es = pre @ f # post" "a = m_addr f" by blast
  with es have "0 < a" by (auto simp: exts_ok_append split: if_splits)
  with scan assms(2) show ?thesis by (simp add: rmalloc_def)
qed


section \<open>Correctness of release\<close>

lemma rm_wake_simps [simp]:
  "slots (snd (rm_wake m)) = slots m" "mapsize (snd (rm_wake m)) = mapsize m"
  "fst (rm_wake m) \<noteq> RmLost"
  by (simp_all add: rm_wake_def)

lemma rmap_ok_rm_wake [simp]: "rmap_ok (snd (rm_wake m)) = rmap_ok m"
  by (simp add: rmap_ok_def)

lemma free_units_rm_wake [simp]: "free_units (snd (rm_wake m)) = free_units m"
  by (simp add: free_units_def)

text \<open>
  What one release does to a well-formed array cut at the released address: joined with
  the entry before it, with the entry after it, with both, or put in a slot of its own.
\<close>

lemma exts_ok_adjoin_prev:
  assumes "exts_ok lo (pre @ post)" and "pre \<noteq> []"
    and "m_addr (last pre) + m_size (last pre) = a" and "a + n < 4294967296"
    and "post \<noteq> [] \<Longrightarrow> a + n < m_addr (hd post)"
  shows "exts_ok lo (butlast pre @ ent (m_size (last pre) + n) (m_addr (last pre)) # post)"
proof -
  from assms(2) obtain qs q where "pre = qs @ [q]" by (metis append_butlast_last_id)
  with assms show ?thesis by (cases post) (auto simp: exts_ok_append)
qed

lemma exts_ok_adjoin_both:
  assumes "exts_ok lo (pre @ f # post)" and "pre \<noteq> []"
    and "m_addr (last pre) + m_size (last pre) = a" and "a + n = m_addr f"
  shows "exts_ok lo (butlast pre @ ent (m_size (last pre) + n + m_size f) (m_addr (last pre)) # post)"
proof -
  from assms(2) obtain qs q where pre: "pre = qs @ [q]" by (metis append_butlast_last_id)
  with assms(3,4) have eq: "m_addr q + (m_size q + n + m_size f) = m_addr f + m_size f" by simp
  from assms(1) pre show ?thesis by (auto simp: exts_ok_append eq)
qed

lemma exts_ok_adjoin_next:
  assumes "exts_ok lo (pre @ f # post)" and "a + n = m_addr f" and "lo < a"
    and "pre \<noteq> [] \<Longrightarrow> m_addr (last pre) + m_size (last pre) < a"
  shows "exts_ok lo (pre @ ent (m_size f + n) a # post)"
proof -
  from assms(2) have eq: "a + (m_size f + n) = m_addr f + m_size f" by simp
  from assms(1,3,4) show ?thesis by (auto simp: exts_ok_append eq)
qed

lemma exts_ok_insert:
  assumes "exts_ok lo (pre @ post)" and "0 < n" and "a + n < 4294967296" and "lo < a"
    and "pre \<noteq> [] \<Longrightarrow> m_addr (last pre) + m_size (last pre) < a"
    and "post \<noteq> [] \<Longrightarrow> a + n < m_addr (hd post)"
  shows "exts_ok lo (pre @ ent n a # post)"
  using assms by (cases post) (auto simp: exts_ok_append split: if_splits)

lemma units_of_butlast:
  "pre \<noteq> [] \<Longrightarrow> units_of pre = units_of (butlast pre)
     \<union> {m_addr (last pre) ..< m_addr (last pre) + m_size (last pre)}"
  by (metis append_butlast_last_id sup_bot_right units_of_simps)

lemma ext_join: "ext (a, n) \<union> {a + n ..< a + n + (s :: nat)} = {a ..< a + (s + n)}"
  by (auto simp: ext_def)

text \<open>
  \<open>cut_at m n a pre post\<close>: the facts about the cut that every branch of \<open>rmfree\<close> needs,
  for the release of the run \<open>(a, n)\<close>.
\<close>

definition cut_at :: "rmap \<Rightarrow> nat \<Rightarrow> nat \<Rightarrow> map_ent list \<Rightarrow> map_ent list \<Rightarrow> bool" where
  "cut_at m n a pre post \<longleftrightarrow>
     exts_ok 0 (pre @ post) \<and> 0 < n \<and> 0 < a \<and> a + n < 4294967296
     \<and> slots m = pre @ post @ replicate (Suc (mapsize m)) (ent 0 0)
     \<and> takeWhile (\<lambda>e. m_addr e \<le> a \<and> m_size e \<noteq> 0) (slots m) = pre
     \<and> dropWhile (\<lambda>e. m_addr e \<le> a \<and> m_size e \<noteq> 0) (slots m)
         = post @ replicate (Suc (mapsize m)) (ent 0 0)
     \<and> (pre \<noteq> [] \<longrightarrow> m_addr (last pre) + m_size (last pre) \<le> a)
     \<and> (post \<noteq> [] \<longrightarrow> a + n \<le> m_addr (hd post))"

lemma cut_exists:
  assumes "rmap_ok m" and "0 < n" and "0 < a" and "a + n < 4294967296"
    and "ext (a, n) \<inter> free_units m = {}"
  shows "\<exists>pre post. cut_at m n a pre post"
proof -
  from assms(1) obtain es where es: "exts_ok 0 es"
    and sl: "slots m = es @ replicate (Suc (mapsize m)) (ent 0 0)"
    by (auto simp: rmap_ok_def)
  have fu: "free_units m = units_of es" using sl by (simp add: free_units_def)
  have "a \<in> ext (a, n)" using assms(2) by (simp add: ext_def)
  with assms(5) fu have notin: "a \<notin> units_of es" by blast
  obtain pre post where cut: "es = pre @ post"
      "takeWhile (\<lambda>e. m_addr e \<le> a \<and> m_size e \<noteq> 0) (slots m) = pre"
      "dropWhile (\<lambda>e. m_addr e \<le> a \<and> m_size e \<noteq> 0) (slots m)
         = post @ replicate (Suc (mapsize m)) (ent 0 0)"
      "pre \<noteq> [] \<longrightarrow> m_addr (last pre) + m_size (last pre) \<le> a"
      "post \<noteq> [] \<longrightarrow> a < m_addr (hd post)"
    using split_at [OF es notin, of "mapsize m"] unfolding sl by blast
  have "a + n \<le> m_addr (hd post)" if ne: "post \<noteq> []"
  proof -
    obtain f fs where post: "post = f # fs" using ne by (cases post) auto
    with es cut(1) have "0 < m_size f" by (auto simp: exts_ok_append)
    then have "m_addr f \<in> free_units m" using fu cut(1) post by simp
    then have "m_addr f \<notin> ext (a, n)" using assms(5) by blast
    with cut(5) ne post show ?thesis by (auto simp: ext_def)
  qed
  with assms es sl cut have "cut_at m n a pre post" by (simp add: cut_at_def)
  then show ?thesis by blast
qed

lemma cut_at_hd:
  assumes "cut_at m n a pre (f # post)"
  shows "0 < m_size f" "0 < m_addr f" "m_addr f + m_size f < 4294967296"
    "exts_ok (m_addr f + m_size f) post"
  using assms by (auto simp: cut_at_def exts_ok_append split: if_splits)

lemma cut_at_free: "cut_at m n a pre post \<Longrightarrow> free_units m = units_of pre \<union> units_of post"
  by (simp add: cut_at_def free_units_def)

text \<open>The test for an adjoining entry before the cut, and its outcome without wrap-around.\<close>

lemma cut_at_prev:
  assumes "cut_at m n a pre post"
  shows "(pre \<noteq> [] \<and> uadd (m_addr (last pre)) (m_size (last pre)) = a)
         = (pre \<noteq> [] \<and> m_addr (last pre) + m_size (last pre) = a)"
  using assms by (auto simp: cut_at_def wrap_simps)

lemma rmfree_unfold:
  assumes "cut_at m n a pre post"
  shows "rmfree m n a =
    (let rest = post @ replicate (Suc (mapsize m)) (ent 0 0);
         bp = (if post = [] then ent 0 0 else hd post) in
     if pre \<noteq> [] \<and> m_addr (last pre) + m_size (last pre) = a then
       if m_addr bp \<noteq> 0 \<and> a + n = m_addr bp then
         rm_wake (m\<lparr>slots := butlast pre
            @ ent (m_size (last pre) + n + m_size bp) (m_addr (last pre)) # rm_compress rest,
            mapsize := Suc (mapsize m)\<rparr>)
       else rm_wake (m\<lparr>slots := butlast pre
            @ ent (m_size (last pre) + n) (m_addr (last pre)) # rest\<rparr>)
     else if a + n = m_addr bp \<and> m_size bp \<noteq> 0 then
       rm_wake (m\<lparr>slots := pre @ ent (m_size bp + n) a # tl rest\<rparr>)
     else if mapsize m = 0 then (RmLost, m)
     else rm_wake (m\<lparr>slots := pre @ rm_insert rest a n, mapsize := mapsize m - 1\<rparr>))"
proof -
  let ?z = "replicate (Suc (mapsize m)) (ent 0 0)"
  note c = assms [unfolded cut_at_def]
  have bp: "rm_at (post @ ?z) = (if post = [] then ent 0 0 else hd post)"
    by (cases post) (simp_all add: rm_at_def)
  have n: "n \<noteq> 0" and wrap: "uadd a n = a + n" using c by (simp_all add: wrap_simps)
  have sum1: "uadd (m_size (last pre)) n = m_size (last pre) + n"
    if "m_addr (last pre) + m_size (last pre) = a" using that c by (simp add: wrap_simps)
  have sum2: "uadd (m_size (last pre) + n) (m_size (hd post)) = m_size (last pre) + n + m_size (hd post)"
    if "m_addr (last pre) + m_size (last pre) = a" "post \<noteq> []" "a + n = m_addr (hd post)"
    using that cut_at_hd(3) [of m n a pre "hd post" "tl post"] assms by (simp add: wrap_simps)
  have sum3: "uadd (m_size (hd post)) n = m_size (hd post) + n" "usub (m_addr (hd post)) n = a"
    if "post \<noteq> []" "a + n = m_addr (hd post)"
    using that cut_at_hd(3) [of m n a pre "hd post" "tl post"] assms c
    by (simp_all add: wrap_simps)
  have tw: "takeWhile (\<lambda>e. m_addr e \<le> a \<and> m_size e \<noteq> 0) (slots m) = pre"
    and dw: "dropWhile (\<lambda>e. m_addr e \<le> a \<and> m_size e \<noteq> 0) (slots m) = post @ ?z"
    using c by blast+
  show ?thesis
    unfolding rmfree_def Let_def tw dw bp wrap cut_at_prev [OF assms]
    using n sum1 sum2 sum3 by (auto simp: wrap_simps)
qed

lemma rmfree_joins_prev:
  assumes "cut_at m n a pre post" and "pre \<noteq> []"
    and "m_addr (last pre) + m_size (last pre) = a" and "rmfree m n a = (out, m')"
  shows "rmap_ok m' \<and> out \<noteq> RmLost \<and> free_units m' = free_units m \<union> ext (a, n)"
proof (cases "post \<noteq> [] \<and> a + n = m_addr (hd post)")
  case True
  then obtain f fs where post: "post = f # fs" by (cases post) auto
  note f = cut_at_hd [OF assms(1) [unfolded post]]
  have eq: "(out, m') = rm_wake (m\<lparr>slots := butlast pre
      @ ent (m_size (last pre) + n + m_size f) (m_addr (last pre)) # fs
      @ replicate (Suc (Suc (mapsize m))) (ent 0 0), mapsize := Suc (mapsize m)\<rparr>)"
    using rmfree_unfold [OF assms(1)] assms(2-4) True post f(2) rm_compress_zeros [OF f(4,1)]
    by (simp add: Let_def)
  have "exts_ok 0 (butlast pre @ ent (m_size (last pre) + n + m_size f) (m_addr (last pre)) # fs)"
    using assms(1-3) True post by (intro exts_ok_adjoin_both) (auto simp: cut_at_def)
  then have "rmap_ok (snd (out, m'))" unfolding eq rmap_ok_rm_wake
    unfolding rmap_ok_def by (intro exI conjI, assumption) simp
  moreover have "free_units (snd (out, m')) = free_units m \<union> ext (a, n)"
    unfolding eq free_units_rm_wake
    using assms(2,3) True post cut_at_free [OF assms(1)] units_of_butlast [OF assms(2)]
    by (auto simp: free_units_def ext_def)
  moreover have "fst (out, m') \<noteq> RmLost" unfolding eq by simp
  ultimately show ?thesis by simp
next
  case False
  have bp: "(post = [] \<or> m_addr (hd post) \<noteq> a + n)" using False by auto
  have eq: "(out, m') = rm_wake (m\<lparr>slots := butlast pre
      @ ent (m_size (last pre) + n) (m_addr (last pre)) # post
      @ replicate (Suc (mapsize m)) (ent 0 0)\<rparr>)"
    using rmfree_unfold [OF assms(1)] assms(2-4) bp by (auto simp: Let_def)
  have "exts_ok 0 (butlast pre @ ent (m_size (last pre) + n) (m_addr (last pre)) # post)"
    using assms(1-3) False by (intro exts_ok_adjoin_prev) (auto simp: cut_at_def)
  then have "rmap_ok (snd (out, m'))" unfolding eq rmap_ok_rm_wake
    unfolding rmap_ok_def by (intro exI conjI, assumption) simp
  moreover have "free_units (snd (out, m')) = free_units m \<union> ext (a, n)"
    unfolding eq free_units_rm_wake
    using assms(2,3) cut_at_free [OF assms(1)] units_of_butlast [OF assms(2)]
    by (auto simp: free_units_def ext_def)
  moreover have "fst (out, m') \<noteq> RmLost" unfolding eq by simp
  ultimately show ?thesis by simp
qed

lemma rmfree_joins_next:
  assumes "cut_at m n a pre (f # fs)"
    and "\<not> (pre \<noteq> [] \<and> m_addr (last pre) + m_size (last pre) = a)"
    and "a + n = m_addr f" and "rmfree m n a = (out, m')"
  shows "rmap_ok m' \<and> out \<noteq> RmLost \<and> free_units m' = free_units m \<union> ext (a, n)"
proof -
  note f = cut_at_hd [OF assms(1)]
  have F: "(pre \<noteq> [] \<and> m_addr (last pre) + m_size (last pre) = a) = False"
    using assms(2) by blast
  have eq: "(out, m') = rm_wake (m\<lparr>slots := pre @ ent (m_size f + n) a # fs
      @ replicate (Suc (mapsize m)) (ent 0 0)\<rparr>)"
    unfolding assms(4) [symmetric] rmfree_unfold [OF assms(1)] Let_def F
    using assms(3) f(1) by simp
  have "exts_ok 0 (pre @ ent (m_size f + n) a # fs)"
    using assms(1-3) by (intro exts_ok_adjoin_next) (auto simp: cut_at_def)
  then have "rmap_ok (snd (out, m'))" unfolding eq rmap_ok_rm_wake
    unfolding rmap_ok_def by (intro exI conjI, assumption) simp
  moreover have "free_units (snd (out, m')) = free_units m \<union> ext (a, n)"
    unfolding eq free_units_rm_wake cut_at_free [OF assms(1)]
    by (simp add: free_units_def ext_join assms(3) [symmetric] Un_assoc Un_left_commute Un_commute)
  moreover have "fst (out, m') \<noteq> RmLost" unfolding eq by simp
  ultimately show ?thesis by simp
qed

lemma rmfree_new_slot:
  assumes "cut_at m n a pre post"
    and "\<not> (pre \<noteq> [] \<and> m_addr (last pre) + m_size (last pre) = a)"
    and "\<not> (post \<noteq> [] \<and> a + n = m_addr (hd post))" and "mapsize m = Suc k"
    and "rmfree m n a = (out, m')"
  shows "rmap_ok m' \<and> out \<noteq> RmLost \<and> free_units m' = free_units m \<union> ext (a, n)"
proof -
  have "\<exists>lo. exts_ok lo post" using assms(1) by (auto simp: cut_at_def exts_ok_append)
  then have ins: "rm_insert (post @ replicate (Suc (Suc k)) (ent 0 0)) a n
      = ent n a # post @ replicate (Suc k) (ent 0 0)"
    using rm_insert_zeros by blast
  have F: "(pre \<noteq> [] \<and> m_addr (last pre) + m_size (last pre) = a) = False"
    using assms(2) by blast
  let ?bp = "if post = [] then ent 0 0 else hd post"
  have G: "(a + n = m_addr ?bp \<and> m_size ?bp \<noteq> 0) = False" using assms(3) by auto
  have eq: "(out, m') = rm_wake (m\<lparr>slots := pre @ ent n a # post
      @ replicate (Suc k) (ent 0 0), mapsize := k\<rparr>)"
    unfolding assms(5) [symmetric] rmfree_unfold [OF assms(1)] Let_def F G
    using ins assms(4) by simp
  have "exts_ok 0 (pre @ ent n a # post)"
    using assms(1-3) by (intro exts_ok_insert) (auto simp: cut_at_def)
  then have "rmap_ok (snd (out, m'))" unfolding eq rmap_ok_rm_wake
    unfolding rmap_ok_def by (intro exI conjI, assumption) simp
  moreover have "free_units (snd (out, m')) = free_units m \<union> ext (a, n)"
    unfolding eq free_units_rm_wake
    using cut_at_free [OF assms(1)] by (auto simp: free_units_def ext_def)
  moreover have "fst (out, m') \<noteq> RmLost" unfolding eq by simp
  ultimately show ?thesis by simp
qed

lemma rmfree_ok:
  assumes "rmap_ok m" and "0 < a" and "a + n < 4294967296"
    and "ext (a, n) \<inter> free_units m = {}" and "rmfree m n a = (out, m')"
  shows "rmap_ok m' \<and> (out = RmLost \<longrightarrow> m' = m \<and> mapsize m = 0)
         \<and> (out \<noteq> RmLost \<longrightarrow> free_units m' = free_units m \<union> ext (a, n))"
proof (cases "n = 0")
  case True
  with assms show ?thesis by (auto simp: rmfree_def)
next
  case False
  with assms cut_exists obtain pre post where cut: "cut_at m n a pre post" by blast
  show ?thesis
  proof (cases "pre \<noteq> [] \<and> m_addr (last pre) + m_size (last pre) = a")
    case True
    with rmfree_joins_prev [OF cut _ _ assms(5)] show ?thesis by blast
  next
    case noprev: False
    show ?thesis
    proof (cases "post \<noteq> [] \<and> a + n = m_addr (hd post)")
      case True
      then obtain f fs where "post = f # fs" by (cases post) auto
      with True rmfree_joins_next [of m n a pre f fs out m'] cut noprev assms(5)
      show ?thesis by simp
    next
      case nonext: False
      show ?thesis
      proof (cases "mapsize m")
        case 0
        with rmfree_unfold [OF cut] assms(5) noprev nonext have "out = RmLost" "m' = m"
          by (auto simp: Let_def split: if_splits)
        with assms(1) 0 show ?thesis by simp
      next
        case (Suc k)
        from rmfree_new_slot [OF cut noprev nonext Suc assms(5)] show ?thesis by blast
      qed
    qed
  qed
qed


section \<open>The interface the clients rely on\<close>

text \<open>
  An allocator of numbered units: \<open>alloc\<close> returns the first unit of a free run or 0,
  \<open>release\<close> gives a run back (and may drop it when the allocator is out of room for its
  own book-keeping).  The two client lemmas say what a facility needs: allocated runs
  never overlap what is already owned, and a released run leaves the others alone.
\<close>

locale unit_allocator =
  fixes alloc :: "'m \<Rightarrow> nat \<Rightarrow> nat \<times> 'm"
    and release :: "'m \<Rightarrow> nat \<Rightarrow> nat \<Rightarrow> 'm"
    and avail :: "'m \<Rightarrow> nat set"
    and invar :: "'m \<Rightarrow> bool"
  assumes alloc_invar: "invar m \<Longrightarrow> alloc m n = (a, m') \<Longrightarrow> invar m'"
    and alloc_fails: "invar m \<Longrightarrow> alloc m n = (0, m') \<Longrightarrow> m' = m"
    and alloc_takes: "invar m \<Longrightarrow> alloc m n = (a, m') \<Longrightarrow> 0 < a \<Longrightarrow>
      ext (a, n) \<subseteq> avail m \<and> avail m' = avail m - ext (a, n)"
    and release_invar: "invar m \<Longrightarrow> 0 < a \<Longrightarrow> a + n < 4294967296 \<Longrightarrow>
      ext (a, n) \<inter> avail m = {} \<Longrightarrow> invar (release m n a)"
    and release_gives: "invar m \<Longrightarrow> 0 < a \<Longrightarrow> a + n < 4294967296 \<Longrightarrow>
      ext (a, n) \<inter> avail m = {} \<Longrightarrow>
      avail (release m n a) = avail m \<or> avail (release m n a) = avail m \<union> ext (a, n)"
begin

lemma alloc_units_ok:
  assumes "invar m" and "units_ok xs (avail m) T" and "alloc m n = (a, m')" and "0 < a"
  shows "units_ok ((a, n) # xs) (avail m') T"
proof -
  from alloc_takes [OF assms(1,3,4)] have sub: "ext (a, n) \<subseteq> avail m"
    and eq: "avail m' = avail m - ext (a, n)" by auto
  have "of_bool (u \<in> ext (a, n)) + of_bool (u \<in> avail m') = (of_bool (u \<in> avail m) :: nat)"
    for u using sub eq by (auto simp: of_bool_def)
  with assms(2) show ?thesis by (simp add: units_ok_def add.assoc add.left_commute)
qed

lemma alloc_fresh:
  assumes "invar m" and "units_ok xs (avail m) T" and "alloc m n = (a, m')" and "0 < a"
    and "e \<in> set xs"
  shows "ext e \<inter> ext (a, n) = {}"
proof -
  from alloc_units_ok [OF assms(1-4)] have "units_ok ([] @ (a, n) # xs) (avail m') T" by simp
  from units_ok_disjoint(4) [OF this] assms(5) show ?thesis
    by (metis disjoint_iff cover_pos less_irrefl)
qed

lemma release_units_ok:
  assumes "invar m" and "units_ok (xs @ (a, n) # ys) (avail m) T" and "0 < a"
    and "a + n < 4294967296"
  shows "invar (release m n a) \<and> units_ok (xs @ ys) (avail (release m n a)) T"
proof -
  have dis: "ext (a, n) \<inter> avail m = {}" using units_ok_disjoint(1) [OF assms(2)] by blast
  have le: "cover (xs @ ys) u + of_bool (u \<in> avail m \<union> ext (a, n)) \<le> (of_bool (u \<in> T) :: nat)"
    for u
  proof -
    have "cover (xs @ (a, n) # ys) u + of_bool (u \<in> avail m) \<le> (of_bool (u \<in> T) :: nat)"
      using assms(2) by (auto simp: units_ok_def)
    then show ?thesis by (auto simp: of_bool_def split: if_splits)
  qed
  have "of_bool (u \<in> avail m) \<le> (of_bool (u \<in> avail m \<union> ext (a, n)) :: nat)" for u
    by (auto simp: of_bool_def)
  with le have "units_ok (xs @ ys) (avail m) T" unfolding units_ok_def
    by (meson add_left_mono order_trans)
  moreover from le have "units_ok (xs @ ys) (avail m \<union> ext (a, n)) T"
    by (simp add: units_ok_def)
  ultimately show ?thesis
    using release_invar [OF assms(1,3,4) dis] release_gives [OF assms(1,3,4) dis] by auto
qed

end

text \<open>
  An allocator that finds every free run and, having room, loses nothing on release: what
  was given back can be allocated again.
\<close>

locale lossless_allocator = unit_allocator +
  fixes room :: "'m \<Rightarrow> bool"
  assumes alloc_complete: "invar m \<Longrightarrow> 0 < n \<Longrightarrow> {b ..< b + n} \<subseteq> avail m \<Longrightarrow>
      fst (alloc m n) \<noteq> 0"
    and release_all: "invar m \<Longrightarrow> room m \<Longrightarrow> 0 < a \<Longrightarrow> a + n < 4294967296 \<Longrightarrow>
      ext (a, n) \<inter> avail m = {} \<Longrightarrow> avail (release m n a) = avail m \<union> ext (a, n)"
begin

lemma realloc_released:
  assumes "invar m" and "room m" and "0 < a" and "0 < n" and "a + n < 4294967296"
    and "ext (a, n) \<inter> avail m = {}"
  shows "fst (alloc (release m n a) n) \<noteq> 0"
proof -
  have "{a ..< a + n} \<subseteq> avail (release m n a)"
    using release_all [OF assms(1,2,3,5,6)] by (simp add: ext_def)
  with alloc_complete [OF release_invar [OF assms(1,3,5,6)] assms(4)] show ?thesis by blast
qed

end

definition rm_release :: "rmap \<Rightarrow> nat \<Rightarrow> nat \<Rightarrow> rmap" where
  "rm_release m n a = snd (rmfree m n a)"

interpretation rm: lossless_allocator rmalloc rm_release free_units rmap_ok "\<lambda>m. mapsize m \<noteq> 0"
proof unfold_locales
  fix m :: rmap and n a m'
  assume "rmap_ok m" "rmalloc m n = (a, m')"
  then show "rmap_ok m'" by (rule rmalloc_ok)
next
  fix m :: rmap and n m'
  assume "rmap_ok m" "rmalloc m n = (0, m')"
  then show "m' = m" by (rule rmalloc_ok(2)) simp
next
  fix m :: rmap and n a m'
  assume "rmap_ok m" "rmalloc m n = (a, m')" "0 < a"
  then show "ext (a, n) \<subseteq> free_units m \<and> free_units m' = free_units m - ext (a, n)"
    using rmalloc_ok(3) by blast
next
  fix m :: rmap and a n
  assume as: "rmap_ok m" "0 < a" "a + n < 4294967296" "ext (a, n) \<inter> free_units m = {}"
  obtain out m' where out: "rmfree m n a = (out, m')" by (cases "rmfree m n a")
  from rmfree_ok [OF as out] have res: "rmap_ok m'" "out = RmLost \<longrightarrow> m' = m \<and> mapsize m = 0"
    "out \<noteq> RmLost \<longrightarrow> free_units m' = free_units m \<union> ext (a, n)" by blast+
  from res(1) out show "rmap_ok (rm_release m n a)" by (simp add: rm_release_def)
  from res(2,3) out show "free_units (rm_release m n a) = free_units m
      \<or> free_units (rm_release m n a) = free_units m \<union> ext (a, n)"
    by (cases "out = RmLost") (simp_all add: rm_release_def)
  assume "mapsize m \<noteq> 0"
  with res(2,3) out show "free_units (rm_release m n a) = free_units m \<union> ext (a, n)"
    by (auto simp: rm_release_def)
next
  fix m :: rmap and n b
  assume "rmap_ok m" "0 < n" "{b ..< b + n} \<subseteq> free_units m"
  then show "fst (rmalloc m n) \<noteq> 0" by (rule rmalloc_complete)
qed


section \<open>Set-up of a map and its properties\<close>

text \<open>A zeroed array of \<open>y\<close> slots, initialised and filled the way the facilities do it.\<close>

definition rm_zeroed :: "nat \<Rightarrow> rmap" where
  "rm_zeroed y = \<lparr>mapsize = 0, mapwant = 0, slots = replicate (y - 1) (ent 0 0)\<rparr>"

lemma rmap_ok_mapinit:
  "2 \<le> y \<Longrightarrow> rmap_ok (mapinit (rm_zeroed y) y) \<and> free_units (mapinit (rm_zeroed y) y) = {}"
  by (auto simp: rmap_ok_def mapinit_def rm_zeroed_def free_units_def Suc_diff_Suc numeral_2_eq_2
      intro!: exI [of _ "[]"])

lemma rm_filled_ok:
  assumes "3 \<le> y" and "n < 4294967295"
  shows "rmap_ok (rm_release (mapinit (rm_zeroed y) y) n 1)
         \<and> free_units (rm_release (mapinit (rm_zeroed y) y) n 1) = {1 ..< 1 + n}"
proof -
  have y: "2 \<le> y" using assms(1) by simp
  from rmap_ok_mapinit [OF y] have ok: "rmap_ok (mapinit (rm_zeroed y) y)"
    and fu: "free_units (mapinit (rm_zeroed y) y) = {}" by blast+
  have room: "mapsize (mapinit (rm_zeroed y) y) \<noteq> 0" using assms(1) by (simp add: mapinit_def)
  from rm.release_invar [OF ok, of 1 n] rm.release_all [OF ok room, of 1 n] fu assms(2)
  show ?thesis by (simp add: ext_def)
qed

definition demo_map :: rmap where
  "demo_map = \<lparr>mapsize = 1, mapwant = 1, slots = [ent 5 1, ent 3 10, ent 0 0, ent 0 0]\<rparr>"

lemma demo_map_ok: "rmap_ok demo_map"
  unfolding rmap_ok_def demo_map_def
  by (intro exI [of _ "[ent 5 1, ent 3 10]"]) (simp add: numeral_2_eq_2)

text \<open>C20: Allocation hands out only free units.  On a well-formed map \<open>rmalloc\<close> either
  fails and leaves the map as it is, or returns the first unit of a run that was entirely
  free and removes exactly that run from the free units; the array stays well-formed.\<close>

theorem rmalloc_takes_free_run:
  assumes "rmap_ok m" and "rmalloc m n = (a, m')"
  shows "rmap_ok m' \<and>
    (if a = 0 then m' = m
     else {a ..< a + n} \<subseteq> free_units m \<and> free_units m' = free_units m - {a ..< a + n})"
  using rmalloc_ok [OF assms] by (auto simp: ext_def)

theorem rmalloc_takes_free_run_witness:
  "rmap_ok (snd (rmalloc demo_map 3)) \<and> fst (rmalloc demo_map 3) = 1
   \<and> free_units (snd (rmalloc demo_map 3)) = free_units demo_map - {1 ..< 4}"
proof -
  have run: "rmalloc demo_map 3 = (1, snd (rmalloc demo_map 3))"
    by (simp add: rmalloc_def demo_map_def uadd_def)
  from rmalloc_takes_free_run [OF demo_map_ok run] arg_cong [OF run, of fst]
  show ?thesis by simp
qed

text \<open>Allocation is complete: if some run of \<open>n\<close> consecutive units is free, \<open>rmalloc\<close>
  of \<open>n\<close> units succeeds, because neighbouring free runs are always kept joined.\<close>

theorem rmalloc_finds_every_run:
  assumes "rmap_ok m" and "0 < n" and "{b ..< b + n} \<subseteq> free_units m"
  shows "fst (rmalloc m n) \<noteq> 0"
  using assms by (rule rm.alloc_complete)

theorem rmalloc_finds_every_run_witness:
  "fst (rmalloc demo_map 3) \<noteq> 0"
proof -
  have "{10 ..< 10 + 3} \<subseteq> free_units demo_map" by (simp add: demo_map_def free_units_def)
  from rmalloc_finds_every_run [OF demo_map_ok _ this] show ?thesis by simp
qed

text \<open>C21: Release returns exactly the released run: the array stays sorted, joined and
  non-overlapping, the free units grow by that run, and a sleeper that set the wanted flag
  is woken.  Only a full array loses the run, and then the map is unchanged and nobody is
  woken.\<close>

theorem rmfree_returns_run:
  assumes "rmap_ok m" and "0 < a" and "0 < n" and "a + n < 4294967296"
    and "{a ..< a + n} \<inter> free_units m = {}" and "rmfree m n a = (out, m')"
  shows "rmap_ok m' \<and>
    (case out of
       RmLost \<Rightarrow> m' = m \<and> mapsize m = 0
     | RmDone woken \<Rightarrow> free_units m' = free_units m \<union> {a ..< a + n}
         \<and> woken = (mapwant m \<noteq> 0) \<and> mapwant m' = 0)"
proof -
  have res: "rmap_ok m'" "out = RmLost \<longrightarrow> m' = m \<and> mapsize m = 0"
    "out \<noteq> RmLost \<longrightarrow> free_units m' = free_units m \<union> ext (a, n)"
    using rmfree_ok [of m a n out m'] assms by (simp_all add: ext_def)
  have "woken = (mapwant m \<noteq> 0) \<and> mapwant m' = 0" if "out = RmDone woken" for woken
    using assms(3,6) that by (auto simp: rmfree_def rm_wake_def Let_def split: if_splits)
  with res show ?thesis by (cases out) (simp_all add: ext_def)
qed

theorem rmfree_returns_run_witness:
  "fst (rmfree demo_map 4 6) = RmDone True
   \<and> free_units (snd (rmfree demo_map 4 6)) = free_units demo_map \<union> {6 ..< 10}
   \<and> slots (snd (rmfree demo_map 4 6)) = [ent 12 1, ent 0 0, ent 0 0, ent 0 0]"
proof -
  have run: "rmfree demo_map 4 6 = (RmDone True, snd (rmfree demo_map 4 6))"
    by (simp add: rmfree_def demo_map_def uadd_def rm_at_def rm_wake_def)
  have "{6 ..< 6 + 4} \<inter> free_units demo_map = {}" by (auto simp: demo_map_def free_units_def)
  from rmfree_returns_run [OF demo_map_ok _ _ _ this run]
  have "free_units (snd (rmfree demo_map 4 6)) = free_units demo_map \<union> {6 ..< 10}" by simp
  moreover have "slots (snd (rmfree demo_map 4 6)) = [ent 12 1, ent 0 0, ent 0 0, ent 0 0]"
    by (simp add: rmfree_def demo_map_def uadd_def rm_at_def rm_wake_def)
  ultimately show ?thesis using arg_cong [OF run, of fst] by simp
qed

end
