(* ===== verification/Sem_Undo.thy ===== *)
theory Sem_Undo
  imports Ipc_Perm Resource_Map "HOL-Library.Product_Lexorder"
begin

text \<open>
  The state of the semaphore facility (\<open>proc/ipc/sem.h\<close>) and its undo tables
  (\<open>semaoe\<close>, \<open>semunrm\<close> of \<open>proc/ipc/sem.c\<close>).

  The global array \<open>sem[]\<close> is the list \<open>sems\<close>; \<open>sem_base\<close> of a set is an index into it.
  The array \<open>semu[]\<close> of undo structures is a list of entry lists, an entry list being the
  active part \<open>un_ent[0..un_cnt-1]\<close>.  The two chains through \<open>un_np\<close> (active structures
  from \<open>semunp\<close>, free ones from \<open>semfup\<close>) are lists of indices into \<open>semu\<close> in chain
  order; \<open>sem_undo\<close> gives the structure of a process slot.  \<open>woken\<close> logs the channels
  handed to \<open>wakeprocs\<close>, the latest first; a channel is the address of a semaphore's
  \<open>semncnt\<close> or \<open>semzcnt\<close>.
\<close>

section \<open>State\<close>

record seminfo =
  semmapsz :: nat      \<comment> \<open>\<open>seminfo.semmap\<close>\<close>
  semmni :: nat
  semmns :: nat
  semmnu :: nat
  semmsl :: int
  semopm :: nat
  semume :: nat
  semvmx :: int
  semaem :: int

record semaphore =
  semval :: int
  sempid :: int
  semncnt :: int
  semzcnt :: int

record semid_ds =
  sem_perm :: ipc_perm
  sem_base :: nat
  sem_nsems :: nat
  sem_otime :: int
  sem_ctime :: int

record undo =
  un_aoe :: int
  un_num :: nat
  un_id :: int

datatype sem_chan = NCnt nat | ZCnt nat

record sem_state =
  sema :: "semid_ds list"
  sems :: "semaphore list"
  semmap :: rmap
  semu :: "undo list list"
  semunp :: "nat list"
  semfup :: "nat list"
  sem_undo :: "nat option list"
  woken :: "sem_chan list"

section \<open>Creating and updating an adjust-on-exit entry\<close>

text \<open>
  The search of \<open>semaoe\<close>: the position of the first entry not below \<open>(ident, num)\<close>, and
  whether that entry is the one.
\<close>

fun undo_scan :: "int \<Rightarrow> nat \<Rightarrow> undo list \<Rightarrow> nat \<times> bool" where
  "undo_scan ident num [] = (0, False)"
| "undo_scan ident num (e # es) =
     (if un_id e < ident \<or> un_id e = ident \<and> un_num e < num
      then (case undo_scan ident num es of (i, found) \<Rightarrow> (Suc i, found))
      else (0, un_id e = ident \<and> un_num e = num))"

text \<open>
  What \<open>semaoe\<close> does to the entries of the process's undo structure.  On \<open>ERANGE\<close> the
  code has already subtracted the value and adds it again, both in short arithmetic.
\<close>

definition undo_post :: "seminfo \<Rightarrow> int \<Rightarrow> int \<Rightarrow> nat \<Rightarrow> undo list \<Rightarrow> unit res \<times> undo list" where
  "undo_post si val ident num es =
     (case undo_scan ident num es of (i, found) \<Rightarrow>
        if \<not> found then
          (if semume si \<le> length es then (Err EINVAL, es)
           else (Ok (), take i es @ \<lparr>un_aoe = s16 (- val), un_num = num, un_id = ident\<rparr> # drop i es))
        else
          (let uup = es ! i; aoe = s16 (un_aoe uup - val) in
           if aoe > semaem si \<or> aoe < - semaem si
           then (Err ERANGE, es[i := uup\<lparr>un_aoe := s16 (aoe + val)\<rparr>])
           else if aoe = 0 then (Ok (), take i es @ drop (Suc i) es)
           else (Ok (), es[i := uup\<lparr>un_aoe := aoe\<rparr>])))"

text \<open>The undo structure of a process, taken from the free chain at first use.\<close>

definition undo_struct :: "nat \<Rightarrow> sem_state \<Rightarrow> (nat \<times> sem_state) option" where
  "undo_struct slot s =
     (case sem_undo s ! slot of
        Some up \<Rightarrow> Some (up, s)
      | None \<Rightarrow>
          (case semfup s of
             [] \<Rightarrow> None
           | up # ups \<Rightarrow> Some (up, s\<lparr>semfup := ups, sem_undo := (sem_undo s)[slot := Some up]\<rparr>)))"

definition semaoe :: "seminfo \<Rightarrow> nat \<Rightarrow> int \<Rightarrow> int \<Rightarrow> nat \<Rightarrow> sem_state \<Rightarrow> unit res \<times> sem_state" where
  "semaoe si slot val ident num s =
     (if val = 0 then (Ok (), s)
      else if val > semaem si \<or> val < - semaem si then (Err ERANGE, s)
      else
        case undo_struct slot s of
          None \<Rightarrow> (Err ENOSPC, s)
        | Some (up, s1) \<Rightarrow>
            (let es = semu s1 ! up in
             case undo_post si val ident num es of (r, es') \<Rightarrow>
               (r, s1\<lparr>semu := (semu s1)[up := es'],
                      semunp := (if es = [] \<and> es' \<noteq> [] then up # semunp s1
                                 else if es \<noteq> [] \<and> es' = [] then remove1 up (semunp s1)
                                 else semunp s1)\<rparr>)))"

section \<open>Removing the entries of a set or of one semaphore\<close>

fun semunrm_ents :: "int \<Rightarrow> nat \<Rightarrow> nat \<Rightarrow> undo list \<Rightarrow> undo list" where
  "semunrm_ents ident low high [] = []"
| "semunrm_ents ident low high (e # es) =
     (if ident < un_id e then e # es
      else if ident > un_id e \<or> low > un_num e then e # semunrm_ents ident low high es
      else if high < un_num e then e # es
      else semunrm_ents ident low high es)"

text \<open>The walk over the active chain: the structures stay on it that keep an entry.\<close>

fun semunrm_chain :: "int \<Rightarrow> nat \<Rightarrow> nat \<Rightarrow> nat list \<Rightarrow> undo list list \<Rightarrow> nat list \<times> undo list list" where
  "semunrm_chain ident low high [] us = ([], us)"
| "semunrm_chain ident low high (p # ps) us =
     (let es = semunrm_ents ident low high (us ! p) in
      case semunrm_chain ident low high ps (us[p := es]) of (ps', us') \<Rightarrow>
        (if es = [] then ps' else p # ps', us'))"

definition semunrm :: "int \<Rightarrow> nat \<Rightarrow> nat \<Rightarrow> sem_state \<Rightarrow> sem_state" where
  "semunrm ident low high s =
     (case semunrm_chain ident low high (semunp s) (semu s) of (ps, us) \<Rightarrow>
        s\<lparr>semunp := ps, semu := us\<rparr>)"

section \<open>The invariant of an entry list\<close>

text \<open>
  Limits under which the short arithmetic of the entries is exact.  \<open>semaem\<close> is a tunable
  whose default is 16384; above that a sum of two admissible values can wrap back into the
  admissible range.
\<close>

definition undo_limits :: "seminfo \<Rightarrow> bool" where
  "undo_limits si \<longleftrightarrow> 0 \<le> semaem si \<and> semaem si \<le> 16384"

definition undo_key :: "undo \<Rightarrow> int \<times> nat" where
  "undo_key e = (un_id e, un_num e)"

definition undo_list_ok :: "seminfo \<Rightarrow> undo list \<Rightarrow> bool" where
  "undo_list_ok si es \<longleftrightarrow> sorted_wrt (<) (map undo_key es) \<and> length es \<le> semume si
     \<and> (\<forall>e \<in> set es. un_aoe e \<noteq> 0 \<and> \<bar>un_aoe e\<bar> \<le> semaem si)"

fun aoe_of :: "undo list \<Rightarrow> int \<times> nat \<Rightarrow> int" where
  "aoe_of [] k = 0"
| "aoe_of (e # es) k = (if undo_key e = k then un_aoe e else aoe_of es k)"

text \<open>The at most one entry of a key, as a piece of the list.\<close>

definition undo_mid :: "int \<times> nat \<Rightarrow> int \<Rightarrow> undo list" where
  "undo_mid k a = (if a = 0 then [] else [\<lparr>un_aoe = a, un_num = snd k, un_id = fst k\<rparr>])"

definition undo_cut :: "int \<times> nat \<Rightarrow> undo list \<Rightarrow> undo list \<Rightarrow> bool" where
  "undo_cut k pre post \<longleftrightarrow>
     (\<forall>e \<in> set pre. undo_key e < k) \<and> (\<forall>e \<in> set post. k < undo_key e)"

lemma undo_key_less: "undo_key e < (ident, num) \<longleftrightarrow>
    un_id e < ident \<or> un_id e = ident \<and> un_num e < num"
  by (auto simp: undo_key_def)

lemma undo_split:
  assumes "undo_list_ok si es"
  obtains pre post where "es = pre @ undo_mid k (aoe_of es k) @ post" "undo_cut k pre post"
  using assms
proof (induction es arbitrary: thesis)
  case Nil
  show ?case by (rule Nil.prems(1) [of "[]" "[]"]) (simp_all add: undo_mid_def undo_cut_def)
next
  case (Cons e es)
  from Cons.prems(2) have ok: "undo_list_ok si es" and above: "\<forall>x \<in> set es. undo_key e < undo_key x"
    and nz: "un_aoe e \<noteq> 0" by (auto simp: undo_list_ok_def)
  consider "undo_key e < k" | "undo_key e = k" | "k < undo_key e" by fastforce
  then show ?case
  proof cases
    case 1
    from Cons.IH [OF _ ok] obtain pre post where
      "es = pre @ undo_mid k (aoe_of es k) @ post" "undo_cut k pre post" by blast
    with 1 show ?thesis
      by (intro Cons.prems(1) [of "e # pre" post]) (auto simp: undo_cut_def)
  next
    case 2
    then have "undo_mid k (un_aoe e) = [e]" using nz by (auto simp: undo_mid_def undo_key_def)
    with 2 above show ?thesis
      by (intro Cons.prems(1) [of "[]" es]) (auto simp: undo_cut_def)
  next
    case 3
    have "aoe_of (e # es) k = 0" using 3 above
    proof (induction es)
      case Nil
      then show ?case by auto
    next
      case (Cons x xs)
      then show ?case by (auto dest: order.strict_trans)
    qed
    with 3 above show ?thesis
      by (intro Cons.prems(1) [of "[]" "e # es"])
         (auto simp: undo_cut_def undo_mid_def dest: order.strict_trans)
  qed
qed

lemma undo_scan_cut:
  assumes "undo_cut (ident, num) pre post"
  shows "undo_scan ident num (pre @ undo_mid (ident, num) a @ post) = (length pre, a \<noteq> 0)"
  using assms
proof (induction pre)
  case Nil
  then show ?case
    by (cases post) (auto simp: undo_mid_def undo_cut_def undo_key_def)
next
  case (Cons e pre)
  then show ?case by (auto simp: undo_cut_def undo_key_less split: prod.splits)
qed

lemma aoe_of_cut:
  assumes "undo_cut k pre post"
  shows "aoe_of (pre @ undo_mid k a @ post) k' =
    (if k' = k then a else aoe_of (pre @ post) k')"
proof -
  have none: "aoe_of es k = 0" if "\<forall>e \<in> set es. undo_key e \<noteq> k" for es
    using that by (induction es) auto
  have post: "aoe_of post k = 0" using assms by (intro none) (auto simp: undo_cut_def)
  show ?thesis
    using assms post
    by (induction pre) (auto simp: undo_cut_def undo_mid_def undo_key_def)
qed

lemma undo_key_mid: "undo_key \<lparr>un_aoe = a, un_num = snd k, un_id = fst k\<rparr> = k"
  by (simp add: undo_key_def)

lemma undo_list_ok_cutD:
  assumes "undo_cut k pre post" and "undo_list_ok si (pre @ undo_mid k a @ post)"
  shows "undo_list_ok si (pre @ post)" "a \<noteq> 0 \<Longrightarrow> \<bar>a\<bar> \<le> semaem si"
    "a \<noteq> 0 \<Longrightarrow> length pre + length post < semume si"
  using assms by (auto simp: undo_list_ok_def undo_mid_def sorted_wrt_append split: if_splits)

lemma undo_list_ok_cutI:
  assumes "undo_cut k pre post" and "undo_list_ok si (pre @ post)"
    and "a \<noteq> 0 \<Longrightarrow> \<bar>a\<bar> \<le> semaem si \<and> length pre + length post < semume si"
  shows "undo_list_ok si (pre @ undo_mid k a @ post)"
  using assms undo_key_mid [of a k]
  by (auto simp: undo_list_ok_def undo_mid_def sorted_wrt_append undo_cut_def)

lemma s16_small: "\<bar>x\<bar> \<le> 32767 \<Longrightarrow> s16 x = x"
  by (auto simp: s16_def)

text \<open>
  \<open>undo_post\<close> as arithmetic on the one value of the key; the error branches leave the
  list as it was, the wrapped subtraction included.
\<close>

lemma undo_post_cut:
  assumes lim: "undo_limits si" and cut: "undo_cut (ident, num) pre post"
    and val: "val \<noteq> 0" "\<bar>val\<bar> \<le> semaem si" and a: "\<bar>a\<bar> \<le> semaem si"
  shows "undo_post si val ident num (pre @ undo_mid (ident, num) a @ post) =
    (if a = 0 \<and> semume si \<le> length pre + length post
     then (Err EINVAL, pre @ undo_mid (ident, num) a @ post)
     else if \<bar>a - val\<bar> > semaem si then (Err ERANGE, pre @ undo_mid (ident, num) a @ post)
     else (Ok (), pre @ undo_mid (ident, num) (a - val) @ post))"
proof -
  have sm: "semaem si \<le> 16384" using lim by (simp add: undo_limits_def)
  have small: "\<bar>val\<bar> \<le> 16384" "\<bar>a\<bar> \<le> 16384" using val a sm by simp_all
  show ?thesis
  proof (cases "a = 0")
    case True
    then show ?thesis
      using val small s16_small [of "- val"]
      by (simp add: undo_post_def undo_scan_cut [OF cut, of 0, unfolded undo_mid_def, simplified]
          undo_mid_def)
  next
    case False
    have scan: "undo_scan ident num (pre @ undo_mid (ident, num) a @ post) = (length pre, True)"
      using undo_scan_cut [OF cut, of a] False by simp
    show ?thesis
    proof (cases "\<bar>a - val\<bar> \<le> 32767")
      case exact: True
      then have s: "s16 (a - val) = a - val" "s16 (a - val + val) = a"
        using small by (simp_all add: s16_small)
      with False scan show ?thesis
        by (auto simp: undo_post_def undo_mid_def nth_append Let_def)
    next
      case wrap: False
      with small have e: "a - val = 32768 \<or> a - val = - 32768" by linarith
      then have s: "s16 (a - val) = - 32768" by (auto simp: s16_def)
      have "a = 16384 \<and> val = - 16384 \<or> a = - 16384 \<and> val = 16384" using e small by linarith
      then have again: "s16 (s16 (a - val) + val) = a" by (auto simp: s16_def)
      with s False scan sm wrap show ?thesis
        by (auto simp: undo_post_def undo_mid_def nth_append Let_def)
    qed
  qed
qed

section \<open>The invariant of the undo tables\<close>

text \<open>
  Every structure is on the free chain or belongs to one process; the active chain holds
  exactly the structures with an entry.
\<close>

definition owners_ok :: "sem_state \<Rightarrow> bool" where
  "owners_ok s \<longleftrightarrow>
     distinct (semfup s)
     \<and> (\<forall>up \<in> set (semfup s). up < length (semu s) \<and> semu s ! up = [] \<and> Some up \<notin> set (sem_undo s))
     \<and> (\<forall>up. Some up \<in> set (sem_undo s) \<longrightarrow> up < length (semu s))
     \<and> (\<forall>i < length (sem_undo s). \<forall>j < length (sem_undo s).
          sem_undo s ! i \<noteq> None \<longrightarrow> sem_undo s ! i = sem_undo s ! j \<longrightarrow> i = j)
     \<and> (\<forall>up < length (semu s). up \<in> set (semfup s) \<or> Some up \<in> set (sem_undo s))"

definition undo_tables_ok :: "seminfo \<Rightarrow> sem_state \<Rightarrow> bool" where
  "undo_tables_ok si s \<longleftrightarrow>
     undo_limits si \<and> owners_ok s \<and> (\<forall>es \<in> set (semu s). undo_list_ok si es)
     \<and> distinct (semunp s) \<and> set (semunp s) = {up. up < length (semu s) \<and> semu s ! up \<noteq> []}"

text \<open>The value by which a process would adjust a semaphore when it exits.\<close>

definition adj :: "sem_state \<Rightarrow> nat \<Rightarrow> int \<times> nat \<Rightarrow> int" where
  "adj s slot k = (case sem_undo s ! slot of None \<Rightarrow> 0 | Some up \<Rightarrow> aoe_of (semu s ! up) k)"

lemma owned_lt:
  "owners_ok s \<Longrightarrow> slot < length (sem_undo s) \<Longrightarrow> sem_undo s ! slot = Some up \<Longrightarrow>
   up < length (semu s) \<and> Some up \<in> set (sem_undo s)"
  using nth_mem [of slot "sem_undo s"] by (simp add: owners_ok_def)

lemma undo_struct_ok:
  assumes ok: "undo_tables_ok si s" and slot: "slot < length (sem_undo s)"
    and run: "undo_struct slot s = Some (up, s1)"
  shows "undo_tables_ok si s1" "sem_undo s1 = (sem_undo s)[slot := Some up]"
    "up < length (semu s)" "\<And>i. i < length (sem_undo s) \<Longrightarrow> adj s1 i = adj s i"
    "semu s1 = semu s" "sema s1 = sema s" "sems s1 = sems s" "semmap s1 = semmap s"
    "woken s1 = woken s" "semunp s1 = semunp s"
proof -
  from ok have own: "owners_ok s" by (simp add: undo_tables_ok_def)
  have *: "undo_tables_ok si s1 \<and> sem_undo s1 = (sem_undo s)[slot := Some up] \<and> up < length (semu s)
     \<and> (\<forall>i < length (sem_undo s). adj s1 i = adj s i)
     \<and> semu s1 = semu s \<and> sema s1 = sema s \<and> sems s1 = sems s \<and> semmap s1 = semmap s
     \<and> woken s1 = woken s \<and> semunp s1 = semunp s"
  proof (cases "sem_undo s ! slot")
    case (Some u)
    with run have eq: "u = up" "s1 = s" by (simp_all add: undo_struct_def)
    moreover from Some eq slot have "(sem_undo s)[slot := Some up] = sem_undo s"
      by (metis list_update_id)
    moreover from Some eq slot own have "up < length (semu s)" using owned_lt by simp
    ultimately show ?thesis using ok by simp
  next
    case None
    with run obtain ups where free: "semfup s = up # ups"
      and s1: "s1 = s\<lparr>semfup := ups, sem_undo := (sem_undo s)[slot := Some up]\<rparr>"
      by (auto simp: undo_struct_def split: list.splits)
    from own free have up: "up < length (semu s)" "semu s ! up = []" "Some up \<notin> set (sem_undo s)"
      "up \<notin> set ups" by (auto simp: owners_ok_def)
    then have fresh: "\<And>i. i < length (sem_undo s) \<Longrightarrow> sem_undo s ! i \<noteq> Some up"
      by (metis nth_mem)
    have mem: "Some x \<in> set ((sem_undo s)[slot := Some up]) \<longleftrightarrow> x = up \<or> Some x \<in> set (sem_undo s)"
      for x using None slot
      by (metis (no_types, lifting) in_set_conv_nth length_list_update nth_list_update option.distinct(1)
          option.inject)
    have "owners_ok s1"
      unfolding owners_ok_def
    proof (intro conjI allI impI ballI)
      show "distinct (semfup s1)" using own free by (simp add: s1 owners_ok_def)
    next
      fix x assume "x \<in> set (semfup s1)"
      with own free up(4) mem show "x < length (semu s1)" "semu s1 ! x = []"
        "Some x \<notin> set (sem_undo s1)"
        by (auto simp: s1 owners_ok_def)
    next
      fix x assume "Some x \<in> set (sem_undo s1)"
      with own up(1) mem show "x < length (semu s1)" by (auto simp: s1 owners_ok_def)
    next
      fix i j assume "i < length (sem_undo s1)" "j < length (sem_undo s1)"
        "sem_undo s1 ! i \<noteq> None" "sem_undo s1 ! i = sem_undo s1 ! j"
      with own fresh slot show "i = j"
        by (auto simp: s1 owners_ok_def nth_list_update split: if_splits)
    next
      fix x assume "x < length (semu s1)"
      with own free mem show "x \<in> set (semfup s1) \<or> Some x \<in> set (sem_undo s1)"
        by (auto simp: s1 owners_ok_def)
    qed
    moreover have "adj s1 i = adj s i" if "i < length (sem_undo s)" for i
      using that up None slot by (cases "i = slot") (simp_all add: s1 adj_def fun_eq_iff split: option.splits)
    ultimately show ?thesis using ok up by (simp add: s1 undo_tables_ok_def)
  qed
  from * show "undo_tables_ok si s1" "sem_undo s1 = (sem_undo s)[slot := Some up]"
    "up < length (semu s)" "\<And>i. i < length (sem_undo s) \<Longrightarrow> adj s1 i = adj s i"
    "semu s1 = semu s" "sema s1 = sema s" "sems s1 = sems s" "semmap s1 = semmap s"
    "woken s1 = woken s" "semunp s1 = semunp s" by blast+
qed

text \<open>Replacing the entries of one structure, with the matching move of the active chain.\<close>

definition set_entries :: "nat \<Rightarrow> undo list \<Rightarrow> sem_state \<Rightarrow> sem_state" where
  "set_entries up es' s =
     s\<lparr>semu := (semu s)[up := es'],
       semunp := (if semu s ! up = [] \<and> es' \<noteq> [] then up # semunp s
                  else if semu s ! up \<noteq> [] \<and> es' = [] then remove1 up (semunp s)
                  else semunp s)\<rparr>"

lemma set_entries_ok:
  assumes ok: "undo_tables_ok si s" and up: "Some up \<in> set (sem_undo s)"
    and es': "undo_list_ok si es'"
  shows "undo_tables_ok si (set_entries up es' s)"
proof -
  from ok up have lt: "up < length (semu s)" by (auto simp: undo_tables_ok_def owners_ok_def)
  from ok have chain: "distinct (semunp s)"
    "set (semunp s) = {up. up < length (semu s) \<and> semu s ! up \<noteq> []}"
    by (simp_all add: undo_tables_ok_def)
  have "distinct (semunp (set_entries up es' s))
    \<and> set (semunp (set_entries up es' s))
      = {x. x < length (semu (set_entries up es' s)) \<and> semu (set_entries up es' s) ! x \<noteq> []}"
    using chain lt by (auto simp: set_entries_def nth_list_update)
  moreover have "\<forall>es \<in> set (semu (set_entries up es' s)). undo_list_ok si es"
    using ok es' set_update_subset_insert [of "semu s" up es']
    by (auto simp: undo_tables_ok_def set_entries_def)
  moreover have "owners_ok (set_entries up es' s)"
    using ok up by (auto simp: undo_tables_ok_def owners_ok_def set_entries_def nth_list_update)
  ultimately show ?thesis using ok by (simp add: undo_tables_ok_def)
qed

lemma set_entries_adj:
  assumes ok: "undo_tables_ok si s" and slot: "slot < length (sem_undo s)"
    and up: "sem_undo s ! slot = Some up" and i: "i < length (sem_undo s)"
  shows "adj (set_entries up es' s) i = (if i = slot then aoe_of es' else adj s i)"
proof -
  from ok have own: "owners_ok s" by (simp add: undo_tables_ok_def)
  have lt: "up < length (semu s)" using owned_lt [OF own slot up] by simp
  have "sem_undo s ! i = Some up \<longleftrightarrow> i = slot" using own slot up i
    by (auto simp: owners_ok_def)
  then show ?thesis using up lt
    by (auto simp: adj_def set_entries_def fun_eq_iff nth_list_update split: option.splits)
qed

lemma semaoe_unfold:
  "val \<noteq> 0 \<Longrightarrow> \<bar>val\<bar> \<le> semaem si \<Longrightarrow> undo_struct slot s = Some (up, s1) \<Longrightarrow>
   semaoe si slot val ident num s =
     (case undo_post si val ident num (semu s1 ! up) of (r, es') \<Rightarrow> (r, set_entries up es' s1))"
  by (auto simp: semaoe_def set_entries_def Let_def split: prod.splits)

lemma set_entries_id: "semu s ! up = es \<Longrightarrow> set_entries up es s = s"
  by (auto simp: set_entries_def)

definition undo_frame :: "sem_state \<Rightarrow> sem_state \<Rightarrow> bool" where
  "undo_frame s s' \<longleftrightarrow> sema s' = sema s \<and> sems s' = sems s \<and> semmap s' = semmap s \<and> woken s' = woken s
     \<and> length (sem_undo s') = length (sem_undo s) \<and> length (semu s') = length (semu s)"

lemma undo_frame_refl [simp]: "undo_frame s s"
  by (simp add: undo_frame_def)

lemma undo_frame_trans: "undo_frame s s1 \<Longrightarrow> undo_frame s1 s2 \<Longrightarrow> undo_frame s s2"
  by (simp add: undo_frame_def)

text \<open>
  The whole effect of \<open>semaoe\<close>: on success the process's value for the key moves by
  \<open>- val\<close> and nothing else changes; on an error no entry of anybody changes.
\<close>

lemma semaoe_spec:
  assumes ok: "undo_tables_ok si s" and slot: "slot < length (sem_undo s)"
    and run: "semaoe si slot val ident num s = (r, s')"
  shows "undo_tables_ok si s'" "undo_frame s s'"
    "r = Ok () \<Longrightarrow> i < length (sem_undo s) \<Longrightarrow> adj s' i =
       (if i = slot then (adj s i)((ident, num) := adj s i (ident, num) - val) else adj s i)"
    "r = Err e \<Longrightarrow> semu s' = semu s" "r = Err e \<Longrightarrow> i < length (sem_undo s) \<Longrightarrow> adj s' i = adj s i"
    "r = Ok () \<Longrightarrow> val \<noteq> 0 \<Longrightarrow> \<bar>val\<bar> \<le> semaem si"
proof -
  have *: "undo_tables_ok si s' \<and> undo_frame s s'
    \<and> (r = Ok () \<longrightarrow> (\<forall>i < length (sem_undo s). adj s' i =
       (if i = slot then (adj s i)((ident, num) := adj s i (ident, num) - val) else adj s i)))
    \<and> (\<forall>e. r = Err e \<longrightarrow> semu s' = semu s \<and> (\<forall>i < length (sem_undo s). adj s' i = adj s i))
    \<and> (r = Ok () \<longrightarrow> val \<noteq> 0 \<longrightarrow> \<bar>val\<bar> \<le> semaem si)"
  proof (cases "val = 0 \<or> \<bar>val\<bar> > semaem si \<or> undo_struct slot s = None")
    case True
    with run have "s' = s \<and> (r = Ok () \<longrightarrow> val = 0)"
      by (auto simp: semaoe_def split: if_splits)
    with ok show ?thesis by (auto simp: fun_upd_idem)
  next
    case False
    then obtain up s1 where st: "undo_struct slot s = Some (up, s1)" by auto
    note s1 = undo_struct_ok [OF ok slot st]
    let ?es = "semu s1 ! up" and ?k = "(ident, num)"
    have es: "undo_list_ok si ?es" using s1(1,3,5) by (simp add: undo_tables_ok_def)
    have own: "sem_undo s1 ! slot = Some up" "slot < length (sem_undo s1)"
      "Some up \<in> set (sem_undo s1)"
      using s1(2) slot by (auto intro: set_update_memI)
    obtain pre post a where cut: "?es = pre @ undo_mid ?k a @ post" "undo_cut ?k pre post"
      and a_def: "a = aoe_of ?es ?k"
      using undo_split [OF es] by metis
    have a: "a = adj s slot ?k"
      using s1(4) [OF slot] own by (simp add: adj_def fun_eq_iff a_def)
    have lim: "undo_limits si" using ok by (simp add: undo_tables_ok_def)
    note cutD = undo_list_ok_cutD [OF cut(2) es [unfolded cut(1)]]
    have abs: "\<bar>a\<bar> \<le> semaem si"
      using cutD(2) lim by (cases "a = 0") (auto simp: undo_limits_def)
    have val: "val \<noteq> 0" "\<bar>val\<bar> \<le> semaem si" using False by auto
    note post = undo_post_cut [OF lim cut(2) val abs, folded cut(1)]
    note unfold = semaoe_unfold [OF val st, of ident num]
    show ?thesis
    proof (cases r)
      case (Inl e)
      with run unfold post have "s' = s1" by (auto simp: set_entries_id split: if_splits)
      with Inl s1 val show ?thesis by (simp add: undo_frame_def)
    next
      case (Inr x)
      let ?es' = "pre @ undo_mid ?k (a - val) @ post"
      from Inr run unfold post have s': "s' = set_entries up ?es' s1"
        and room: "\<not> (a = 0 \<and> semume si \<le> length pre + length post)"
        and small: "\<bar>a - val\<bar> \<le> semaem si"
        by (auto split: if_splits)
      have es': "undo_list_ok si ?es'"
        using room small cutD by (intro undo_list_ok_cutI [OF cut(2)]) auto
      have "aoe_of ?es' k = (if k = ?k then a - val else aoe_of ?es k)" for k
        using aoe_of_cut [OF cut(2)] cut(1) by simp
      then have new: "aoe_of ?es' = (adj s slot)(?k := adj s slot ?k - val)"
        using s1(4) [OF slot] own a by (auto simp: adj_def fun_eq_iff)
      have "undo_tables_ok si s'" using set_entries_ok [OF s1(1) own(3) es'] by (simp add: s')
      moreover have "undo_frame s s'" using s1 by (simp add: s' undo_frame_def set_entries_def)
      moreover have "adj s' i = (if i = slot then aoe_of ?es' else adj s i)"
        if "i < length (sem_undo s)" for i
        using set_entries_adj [OF s1(1) own(2,1), of i ?es'] that s1(2,4) by (simp add: s')
      ultimately show ?thesis using Inr val new by simp
    qed
  qed
  from * show "undo_tables_ok si s'" "undo_frame s s'"
    "r = Ok () \<Longrightarrow> i < length (sem_undo s) \<Longrightarrow> adj s' i =
       (if i = slot then (adj s i)((ident, num) := adj s i (ident, num) - val) else adj s i)"
    "r = Err e \<Longrightarrow> semu s' = semu s" "r = Err e \<Longrightarrow> i < length (sem_undo s) \<Longrightarrow> adj s' i = adj s i"
    "r = Ok () \<Longrightarrow> val \<noteq> 0 \<Longrightarrow> \<bar>val\<bar> \<le> semaem si"
    by blast+
qed

text \<open>
  A process may have been given a structure meanwhile; all else of the ownership is kept.
\<close>

definition undo_ext :: "nat \<Rightarrow> sem_state \<Rightarrow> sem_state \<Rightarrow> bool" where
  "undo_ext slot s t \<longleftrightarrow> length (sem_undo t) = length (sem_undo s)
     \<and> (\<forall>i < length (sem_undo s).
          sem_undo t ! i = sem_undo s ! i \<or> i = slot \<and> sem_undo s ! i = None)"

lemma undo_ext_refl [simp]: "undo_ext slot s s"
  by (simp add: undo_ext_def)

lemma undo_ext_same: "sem_undo t = sem_undo s \<Longrightarrow> undo_ext slot s t"
  by (simp add: undo_ext_def)

lemma undo_ext_trans: "undo_ext slot s t \<Longrightarrow> undo_ext slot t u \<Longrightarrow> undo_ext slot s u"
  unfolding undo_ext_def by metis

lemma undo_ext_Some:
  "undo_ext slot s t \<Longrightarrow> slot < length (sem_undo s) \<Longrightarrow> sem_undo s ! slot = Some up \<Longrightarrow>
   sem_undo t ! slot = Some up"
  by (auto simp: undo_ext_def)

lemma undo_ext_adj:
  assumes s: "undo_tables_ok si s" and t: "undo_tables_ok si t" and ext: "undo_ext slot s t"
    and semu: "semu t = semu s" and i: "i < length (sem_undo s)"
  shows "adj t i = adj s i"
proof (cases "sem_undo t ! i = sem_undo s ! i")
  case True
  with semu show ?thesis by (simp add: adj_def fun_eq_iff split: option.splits)
next
  case False
  with ext i have None: "sem_undo s ! i = None" "i = slot" by (auto simp: undo_ext_def)
  from t have own: "owners_ok t" by (simp add: undo_tables_ok_def)
  have len: "length (sem_undo t) = length (sem_undo s)" using ext by (simp add: undo_ext_def)
  have "semu s ! up = []" if up: "sem_undo t ! i = Some up" for up
  proof -
    have lt: "up < length (semu s)" using owned_lt [OF own _ up] i len semu by simp
    have "Some up \<notin> set (sem_undo s)"
    proof
      assume "Some up \<in> set (sem_undo s)"
      then obtain j where j: "j < length (sem_undo s)" "sem_undo s ! j = Some up"
        by (auto simp: in_set_conv_nth)
      then have "sem_undo t ! j = Some up" using ext by (auto simp: undo_ext_def)
      then have "i = j" using own up i j(1) len by (auto simp: owners_ok_def)
      with j None show False by simp
    qed
    with lt s show ?thesis by (auto simp: undo_tables_ok_def owners_ok_def)
  qed
  then show ?thesis using None(1) semu
    by (auto simp: adj_def fun_eq_iff split: option.splits)
qed

lemma semaoe_ext:
  assumes "undo_tables_ok si s" and "slot < length (sem_undo s)"
    and "semaoe si slot val ident num s = (r, s')"
  shows "undo_ext slot s s'"
proof -
  have ext: "undo_ext slot s s1" if "undo_struct slot s = Some (up, s1)" for up s1
  proof (cases "sem_undo s ! slot")
    case None
    with that have "sem_undo s1 = (sem_undo s)[slot := Some up]"
      by (auto simp: undo_struct_def split: list.splits)
    moreover have "(sem_undo s)[slot := Some up] ! i = sem_undo s ! i" if "i \<noteq> slot" for i
      using that by simp
    ultimately show ?thesis using None unfolding undo_ext_def by (metis length_list_update)
  next
    case (Some u)
    with that show ?thesis by (simp add: undo_struct_def)
  qed
  have same: "undo_ext slot s (s1\<lparr>semu := us, semunp := ps\<rparr>)" "undo_ext slot s (s1\<lparr>semu := us\<rparr>)"
    if "undo_ext slot s s1" for s1 us ps
    using that by (simp_all add: undo_ext_def)
  from assms(3) show ?thesis
    by (auto simp: semaoe_def Let_def intro!: same dest: ext split: if_splits option.splits prod.splits)
qed

text \<open>Posting the opposite value takes a posting back exactly.\<close>

lemma semaoe_inverse:
  assumes ok: "undo_tables_ok si s" and slot: "slot < length (sem_undo s)"
    and run: "semaoe si slot val ident num s = (Ok (), s')"
    and t: "semu t = semu s'" "undo_ext slot s' t"
  shows "\<exists>t'. semaoe si slot (- val) ident num t = (Ok (), t') \<and> semu t' = semu s
    \<and> sem_undo t' = sem_undo t"
proof (cases "val = 0")
  case True
  with run t show ?thesis by (auto simp: semaoe_def)
next
  case False
  have val: "\<bar>val\<bar> \<le> semaem si" using semaoe_spec(6) [OF ok slot run] False by simp
  with False run obtain up s1 where st: "undo_struct slot s = Some (up, s1)"
    by (auto simp: semaoe_def split: if_splits option.splits)
  note s1 = undo_struct_ok [OF ok slot st]
  let ?es = "semu s1 ! up" and ?k = "(ident, num)"
  have es: "undo_list_ok si ?es" using s1(1,3,5) by (simp add: undo_tables_ok_def)
  obtain pre post a where cut: "?es = pre @ undo_mid ?k a @ post" "undo_cut ?k pre post"
    using undo_split [OF es] by metis
  have lim: "undo_limits si" using ok by (simp add: undo_tables_ok_def)
  note cutD = undo_list_ok_cutD [OF cut(2) es [unfolded cut(1)]]
  have abs: "\<bar>a\<bar> \<le> semaem si"
    using cutD(2) lim by (cases "a = 0") (auto simp: undo_limits_def)
  let ?es' = "pre @ undo_mid ?k (a - val) @ post"
  from run semaoe_unfold [OF False val st, of ident num]
    undo_post_cut [OF lim cut(2) False val abs, folded cut(1)]
  have s': "s' = set_entries up ?es' s1" and small: "\<bar>a - val\<bar> \<le> semaem si"
    by (auto split: if_splits)
  have up: "semu t ! up = ?es'" "sem_undo t ! slot = Some up"
    using t s' s1(2,3,5) slot undo_ext_Some [OF t(2), of up] by (simp_all add: set_entries_def)
  have st': "undo_struct slot t = Some (up, t)" using up(2) by (simp add: undo_struct_def)
  have room: "\<not> (a - val = 0 \<and> semume si \<le> length pre + length post)"
    using cutD(3) False by auto
  have "undo_post si (- val) ident num (semu t ! up) = (Ok (), ?es)"
    using undo_post_cut [OF lim cut(2), of "- val" "a - val"] False val small room abs
      cut(1) up(1) by simp
  then have "semaoe si slot (- val) ident num t = (Ok (), set_entries up ?es t)"
    using semaoe_unfold [of "- val" si slot t up t ident num] False val st' by simp
  moreover have "semu (set_entries up ?es t) = semu s"
    using t(1) s' s1(3,5) by (simp add: set_entries_def)
  ultimately show ?thesis by (auto simp: set_entries_def)
qed

lemma aoe_of_mem:
  "sorted_wrt (<) (map undo_key es) \<Longrightarrow> e \<in> set es \<Longrightarrow> aoe_of es (undo_key e) = un_aoe e"
  by (induction es) auto

lemma aoe_of_nonzero: "aoe_of es k \<noteq> 0 \<Longrightarrow> \<exists>e \<in> set es. undo_key e = k \<and> un_aoe e = aoe_of es k"
  by (induction es) (auto split: if_splits)

section \<open>Removing entries is filtering\<close>

definition undo_hit :: "int \<Rightarrow> nat \<Rightarrow> nat \<Rightarrow> int \<times> nat \<Rightarrow> bool" where
  "undo_hit ident low high k \<longleftrightarrow> fst k = ident \<and> low \<le> snd k \<and> snd k \<le> high"

lemma semunrm_ents_filter:
  "sorted_wrt (<) (map undo_key es) \<Longrightarrow>
   semunrm_ents ident low high es = filter (\<lambda>e. \<not> undo_hit ident low high (undo_key e)) es"
proof (induction es)
  case Nil
  then show ?case by simp
next
  case (Cons e es)
  from Cons.prems have above: "\<forall>x \<in> set es. undo_key e < undo_key x" by simp
  have keep: "filter (\<lambda>e. \<not> undo_hit ident low high (undo_key e)) es = es"
    if "\<And>x. undo_key e < undo_key x \<Longrightarrow> \<not> undo_hit ident low high (undo_key x)"
    using that above by (auto simp: filter_id_conv)
  show ?case
  proof (cases "ident < un_id e \<or> un_id e = ident \<and> low \<le> un_num e \<and> high < un_num e")
    case True
    then have "filter (\<lambda>e. \<not> undo_hit ident low high (undo_key e)) es = es"
      by (intro keep) (auto simp: undo_hit_def undo_key_def)
    with True show ?thesis by (auto simp: undo_hit_def undo_key_def)
  next
    case False
    with Cons.IH Cons.prems show ?thesis by (auto simp: undo_hit_def undo_key_def)
  qed
qed

lemma aoe_of_filter:
  "aoe_of (filter (\<lambda>e. \<not> P (undo_key e)) es) k = (if P k then 0 else aoe_of es k)"
  by (induction es) auto

lemma undo_list_ok_filter: "undo_list_ok si es \<Longrightarrow> undo_list_ok si (filter P es)"
proof -
  assume "undo_list_ok si es"
  moreover have "sorted_wrt (<) (map undo_key (filter P es))" if "sorted_wrt (<) (map undo_key es)"
    using that by (induction es) auto
  ultimately show ?thesis using le_trans [OF length_filter_le [of P es]]
    by (auto simp: undo_list_ok_def)
qed

lemma semunrm_chain_spec:
  assumes "distinct ps" and "\<forall>p \<in> set ps. p < length us"
  shows "semunrm_chain ident low high ps us =
    (filter (\<lambda>p. semunrm_ents ident low high (us ! p) \<noteq> []) ps,
     map (\<lambda>i. if i \<in> set ps then semunrm_ents ident low high (us ! i) else us ! i) [0 ..< length us])"
  using assms
proof (induction ps arbitrary: us)
  case Nil
  then show ?case by (simp add: map_nth)
next
  case (Cons p ps)
  let ?us = "us[p := semunrm_ents ident low high (us ! p)]"
  from Cons.prems have p: "p < length us" "p \<notin> set ps" and ps: "distinct ps"
    "\<forall>x \<in> set ps. x < length ?us" by auto
  have "filter (\<lambda>x. semunrm_ents ident low high (?us ! x) \<noteq> []) ps
      = filter (\<lambda>x. semunrm_ents ident low high (us ! x) \<noteq> []) ps"
    using p(2) by (intro filter_cong refl) (metis nth_list_update_neq)
  moreover have "map (\<lambda>i. if i \<in> set ps then semunrm_ents ident low high (?us ! i) else ?us ! i)
        [0 ..< length ?us]
      = map (\<lambda>i. if i \<in> set (p # ps) then semunrm_ents ident low high (us ! i) else us ! i)
        [0 ..< length us]"
    using p by (auto simp: nth_list_update)
  ultimately show ?case using Cons.IH [OF ps] by (simp add: Let_def)
qed

lemma semunrm_spec:
  assumes ok: "undo_tables_ok si s"
  shows "undo_tables_ok si (semunrm ident low high s)" "undo_frame s (semunrm ident low high s)"
    "sem_undo (semunrm ident low high s) = sem_undo s"
    "i < length (sem_undo s) \<Longrightarrow> adj (semunrm ident low high s) i k =
       (if undo_hit ident low high k then 0 else adj s i k)"
proof -
  let ?f = "\<lambda>es. filter (\<lambda>e. \<not> undo_hit ident low high (undo_key e)) es" and ?s' = "semunrm ident low high s"
  from ok have own: "owners_ok s" and ents: "\<And>p. p < length (semu s) \<Longrightarrow> undo_list_ok si (semu s ! p)"
    and dist: "distinct (semunp s)"
    and chain: "set (semunp s) = {up. up < length (semu s) \<and> semu s ! up \<noteq> []}"
    by (auto simp: undo_tables_ok_def)
  have f: "semunrm_ents ident low high (semu s ! p) = ?f (semu s ! p)" if "p < length (semu s)" for p
    using ents [OF that] by (intro semunrm_ents_filter) (simp add: undo_list_ok_def)
  have un: "semunp ?s' = filter (\<lambda>p. ?f (semu s ! p) \<noteq> []) (semunp s)"
    "semu ?s' = map ?f (semu s)"
  proof -
    have run: "semunrm_chain ident low high (semunp s) (semu s) =
      (filter (\<lambda>p. semunrm_ents ident low high (semu s ! p) \<noteq> []) (semunp s),
       map (\<lambda>i. if i \<in> set (semunp s) then semunrm_ents ident low high (semu s ! i) else semu s ! i)
         [0 ..< length (semu s)])"
      using dist chain by (intro semunrm_chain_spec) auto
    have "filter (\<lambda>p. semunrm_ents ident low high (semu s ! p) \<noteq> []) (semunp s)
        = filter (\<lambda>p. ?f (semu s ! p) \<noteq> []) (semunp s)"
      using chain f by (intro filter_cong) auto
    moreover have "map (\<lambda>i. if i \<in> set (semunp s) then semunrm_ents ident low high (semu s ! i)
        else semu s ! i) [0 ..< length (semu s)] = map ?f (semu s)"
      using chain f by (intro nth_equalityI) auto
    ultimately show "semunp ?s' = filter (\<lambda>p. ?f (semu s ! p) \<noteq> []) (semunp s)"
      "semu ?s' = map ?f (semu s)" using run by (simp_all add: semunrm_def)
  qed
  have rest: "sem_undo ?s' = sem_undo s" "semfup ?s' = semfup s" "sema ?s' = sema s"
    "sems ?s' = sems s" "semmap ?s' = semmap s" "woken ?s' = woken s"
    by (simp_all add: semunrm_def split: prod.splits)
  show "sem_undo ?s' = sem_undo s" by (rule rest)
  show "undo_frame s ?s'" using rest un by (simp add: undo_frame_def)
  have "?f es = []" if "es = []" for es using that by simp
  with own have "owners_ok ?s'"
    unfolding owners_ok_def rest(1,2) un(2) by (auto simp del: filter_empty_conv)
  moreover have "\<forall>es \<in> set (semu ?s'). undo_list_ok si es"
    using ok un(2) by (auto simp: undo_tables_ok_def undo_list_ok_filter)
  moreover have "up \<in> set (semunp ?s') \<longleftrightarrow> up < length (semu ?s') \<and> semu ?s' ! up \<noteq> []" for up
  proof -
    have "up \<in> set (semunp s) \<longleftrightarrow> up < length (semu s) \<and> semu s ! up \<noteq> []"
      using chain by simp
    then show ?thesis by (cases "semu s ! up = []") (auto simp: un simp del: filter_empty_conv)
  qed
  then have "set (semunp ?s') = {up. up < length (semu ?s') \<and> semu ?s' ! up \<noteq> []}" by blast
  ultimately show "undo_tables_ok si ?s'" using ok dist un(1) by (simp add: undo_tables_ok_def)
  assume i: "i < length (sem_undo s)"
  show "adj ?s' i k = (if undo_hit ident low high k then 0 else adj s i k)"
    using rest(1) un(2) owned_lt [OF own i] by (auto simp: adj_def aoe_of_filter split: option.splits)
qed

end
