(* ===== verification/Semaphores.thy ===== *)
theory Semaphores
  imports Sem_Undo
begin

text \<open>
  The semaphore system calls (\<open>proc/ipc/sem.c\<close>): \<open>semop\<close> with its attempt-and-undo loop,
  \<open>semexit\<close>, \<open>semctl\<close>, \<open>semget\<close> and the set-up at boot.

  A system call runs to its end or to its \<open>sleep\<close> without being interrupted by another
  process.  \<open>semop\<close> is therefore two definitions: \<open>semop\<close>, up to the return or the first
  sleep, and \<open>semop_resume\<close>, from the return of \<open>sleep\<close> to the return or the next sleep.
  What user memory yields is an argument: the operation list a \<open>copyin\<close> gives, or \<open>None\<close>
  for a fault.  \<open>kmem_alloc\<close> with \<open>KM_SLEEP\<close> gives no memory exactly for size 0.
\<close>

section \<open>Semaphores and their sleepers\<close>

record sembuf =
  sem_num :: nat
  sem_op :: int
  sem_flg :: bits

definition SEM_A :: bits where "SEM_A = IPC_W"
definition SEM_R :: bits where "SEM_R = IPC_R"
definition SEM_UNDO :: bits where "SEM_UNDO = 4096"   \<comment> \<open>010000\<close>

definition sem_perms :: "sem_state \<Rightarrow> ipc_perm list" where
  "sem_perms s = map sem_perm (sema s)"

definition semconv :: "seminfo \<Rightarrow> sem_state \<Rightarrow> int \<Rightarrow> nat res" where
  "semconv si s ident =
     (if ident < 0 then Err EINVAL
      else let sp = nat (ident mod int (semmni si)) in
        if ip_mode (sem_perm (sema s ! sp)) AND IPC_ALLOC = 0
           \<or> ident div int (semmni si) \<noteq> ip_seq (sem_perm (sema s ! sp))
        then Err EINVAL else Ok sp)"

definition upd_sem :: "nat \<Rightarrow> (semaphore \<Rightarrow> semaphore) \<Rightarrow> sem_state \<Rightarrow> sem_state" where
  "upd_sem a f s = s\<lparr>sems := (sems s)[a := f (sems s ! a)]\<rparr>"

definition upd_ds :: "nat \<Rightarrow> (semid_ds \<Rightarrow> semid_ds) \<Rightarrow> sem_state \<Rightarrow> sem_state" where
  "upd_ds sp f s = s\<lparr>sema := (sema s)[sp := f (sema s ! sp)]\<rparr>"

definition wake_ncnt :: "nat \<Rightarrow> sem_state \<Rightarrow> sem_state" where
  "wake_ncnt a s =
     (if semncnt (sems s ! a) \<noteq> 0
      then (upd_sem a (\<lambda>p. p\<lparr>semncnt := 0\<rparr>) s)\<lparr>woken := NCnt a # woken s\<rparr> else s)"

definition wake_zcnt :: "nat \<Rightarrow> sem_state \<Rightarrow> sem_state" where
  "wake_zcnt a s =
     (if semzcnt (sems s ! a) \<noteq> 0
      then (upd_sem a (\<lambda>p. p\<lparr>semzcnt := 0\<rparr>) s)\<lparr>woken := ZCnt a # woken s\<rparr> else s)"

definition add_semval :: "nat \<Rightarrow> int \<Rightarrow> sem_state \<Rightarrow> sem_state" where
  "add_semval a d = upd_sem a (\<lambda>p. p\<lparr>semval := u16 (semval p + d)\<rparr>)"

section \<open>The operation loop of semop\<close>

text \<open>Taking back the operations done so far, the last one first.\<close>

fun semundo_rev :: "seminfo \<Rightarrow> nat \<Rightarrow> int \<Rightarrow> nat \<Rightarrow> sembuf list \<Rightarrow> sem_state \<Rightarrow> sem_state" where
  "semundo_rev si slot ident base [] s = s"
| "semundo_rev si slot ident base (op # ops) s =
     semundo_rev si slot ident base ops
       (if sem_op op = 0 then s
        else
          let s1 = add_semval (base + sem_num op) (- sem_op op) s in
          if sem_flg op AND SEM_UNDO \<noteq> 0
          then snd (semaoe si slot (s16 (- sem_op op)) ident (sem_num op) s1) else s1)"

definition semundo :: "seminfo \<Rightarrow> nat \<Rightarrow> int \<Rightarrow> nat \<Rightarrow> sembuf list \<Rightarrow> sem_state \<Rightarrow> sem_state" where
  "semundo si slot ident base prev s = semundo_rev si slot ident base (rev prev) s"

text \<open>
  One operation: it is done, it fails, or it has to wait on a channel (then nothing has
  changed yet).
\<close>

datatype op_out = OpDone | OpFail errno | OpBlock sem_chan

definition semop_raise ::
  "seminfo \<Rightarrow> nat \<Rightarrow> int \<Rightarrow> nat \<Rightarrow> sembuf \<Rightarrow> sem_state \<Rightarrow> op_out \<times> sem_state" where
  "semop_raise si slot ident base op s =
     (let a = base + sem_num op in
      if sem_op op + semval (sems s ! a) > semvmx si then (OpFail ERANGE, s)
      else
        case (if sem_flg op AND SEM_UNDO \<noteq> 0 then semaoe si slot (sem_op op) ident (sem_num op) s
              else (Ok (), s)) of
          (Inl e, s1) \<Rightarrow> (OpFail e, s1)
        | (Inr _, s1) \<Rightarrow>
            (let s2 = wake_ncnt a (add_semval a (sem_op op) s1) in
             (OpDone, if semval (sems s2 ! a) = 0 then wake_zcnt a s2 else s2)))"

definition semop_lower ::
  "seminfo \<Rightarrow> nat \<Rightarrow> int \<Rightarrow> nat \<Rightarrow> sembuf \<Rightarrow> sem_state \<Rightarrow> op_out \<times> sem_state" where
  "semop_lower si slot ident base op s =
     (let a = base + sem_num op in
      if semval (sems s ! a) \<ge> - sem_op op then
        case (if sem_flg op AND SEM_UNDO \<noteq> 0 then semaoe si slot (sem_op op) ident (sem_num op) s
              else (Ok (), s)) of
          (Inl e, s1) \<Rightarrow> (OpFail e, s1)
        | (Inr _, s1) \<Rightarrow>
            (let s2 = add_semval a (sem_op op) s1 in
             (OpDone, if semval (sems s2 ! a) = 0 then wake_zcnt a s2 else s2))
      else (OpBlock (NCnt a), s))"

definition semop_zero :: "nat \<Rightarrow> sembuf \<Rightarrow> sem_state \<Rightarrow> op_out \<times> sem_state" where
  "semop_zero base op s =
     (let a = base + sem_num op in
      if semval (sems s ! a) \<noteq> 0 then (OpBlock (ZCnt a), s) else (OpDone, s))"

definition semop_one ::
  "seminfo \<Rightarrow> nat \<Rightarrow> int \<Rightarrow> nat \<Rightarrow> sembuf \<Rightarrow> sem_state \<Rightarrow> op_out \<times> sem_state" where
  "semop_one si slot ident base op s =
     (if sem_op op > 0 then semop_raise si slot ident base op s
      else if sem_op op < 0 then semop_lower si slot ident base op s
      else semop_zero base op s)"

text \<open>Going to sleep counts the sleeper; an interrupted sleeper counts itself out.\<close>

fun sem_count_up :: "sem_chan \<Rightarrow> sem_state \<Rightarrow> sem_state" where
  "sem_count_up (NCnt a) s = upd_sem a (\<lambda>p. p\<lparr>semncnt := u16 (semncnt p + 1)\<rparr>) s"
| "sem_count_up (ZCnt a) s = upd_sem a (\<lambda>p. p\<lparr>semzcnt := u16 (semzcnt p + 1)\<rparr>) s"

fun sem_count_down :: "sem_chan \<Rightarrow> sem_state \<Rightarrow> sem_state" where
  "sem_count_down (NCnt a) s =
     (if semncnt (sems s ! a) \<le> 1
      then (upd_sem a (\<lambda>p. p\<lparr>semncnt := 0\<rparr>) s)\<lparr>woken := NCnt a # woken s\<rparr>
      else upd_sem a (\<lambda>p. p\<lparr>semncnt := semncnt p - 1\<rparr>) s)"
| "sem_count_down (ZCnt a) s =
     (if semzcnt (sems s ! a) \<le> 1
      then (upd_sem a (\<lambda>p. p\<lparr>semzcnt := 0\<rparr>) s)\<lparr>woken := ZCnt a # woken s\<rparr>
      else upd_sem a (\<lambda>p. p\<lparr>semzcnt := semzcnt p - 1\<rparr>) s)"

text \<open>The loop over the operations; \<open>prev\<close> is the prefix already performed.\<close>

datatype pass_out = PassDone | PassErr errno | PassSleep sem_chan

fun semop_loop :: "seminfo \<Rightarrow> nat \<Rightarrow> int \<Rightarrow> nat \<Rightarrow> sembuf list \<Rightarrow> sembuf list \<Rightarrow> sem_state
    \<Rightarrow> pass_out \<times> sem_state" where
  "semop_loop si slot ident base prev [] s = (PassDone, s)"
| "semop_loop si slot ident base prev (op # ops) s =
     (case semop_one si slot ident base op s of
        (OpDone, s1) \<Rightarrow> semop_loop si slot ident base (prev @ [op]) ops s1
      | (OpFail e, s1) \<Rightarrow> (PassErr e, semundo si slot ident base prev s1)
      | (OpBlock ch, s1) \<Rightarrow>
          (let s2 = semundo si slot ident base prev s1 in
           if sem_flg op AND IPC_NOWAIT \<noteq> 0 then (PassErr EAGAIN, s2)
           else (PassSleep ch, sem_count_up ch s2)))"

fun stamp_pids :: "int \<Rightarrow> nat \<Rightarrow> sembuf list \<Rightarrow> sem_state \<Rightarrow> sem_state" where
  "stamp_pids pid base [] s = s"
| "stamp_pids pid base (op # ops) s =
     stamp_pids pid base ops (upd_sem (base + sem_num op) (\<lambda>p. p\<lparr>sempid := pid\<rparr>) s)"

section \<open>semop\<close>

datatype semop_out = SemopRet "int res" | SemopSleep sem_chan

record semop_args =
  so_semid :: int
  so_nsops :: nat

type_synonym user_ops = "(nat \<Rightarrow> sembuf) option"

definition semop_pass ::
  "seminfo \<Rightarrow> proc_ctx \<Rightarrow> int \<Rightarrow> nat \<Rightarrow> sembuf list \<Rightarrow> sem_state \<Rightarrow> semop_out \<times> sem_state" where
  "semop_pass si c ident sp ops s =
     (let base = sem_base (sema s ! sp) in
      case semop_loop si (p_slot c) ident base [] ops s of
        (PassDone, s1) \<Rightarrow>
          (SemopRet (Ok 0),
           upd_ds sp (\<lambda>d. d\<lparr>sem_otime := hrestime c\<rparr>) (stamp_pids (p_pid c) base ops s1))
      | (PassErr e, s1) \<Rightarrow> (SemopRet (Err e), s1)
      | (PassSleep ch, s1) \<Rightarrow> (SemopSleep ch, s1))"

fun semop_verify :: "proc_ctx \<Rightarrow> semid_ds \<Rightarrow> sembuf list \<Rightarrow> unit res" where
  "semop_verify c d [] = Ok ()"
| "semop_verify c d (op # ops) =
     (case ipcaccess (p_sec c) (sem_perm d) (if sem_op op \<noteq> 0 then SEM_A else SEM_R OR SEM_A)
             IPC_MAC (u_cred c) of
        Inl e \<Rightarrow> Err e
      | Inr _ \<Rightarrow>
          (case ipcaccess (p_sec c) (sem_perm d) (if sem_op op \<noteq> 0 then SEM_A else SEM_R)
                  IPC_DAC (u_cred c) of
             Inl e \<Rightarrow> Err e
           | Inr _ \<Rightarrow> if sem_num op \<ge> sem_nsems d then Err EFBIG else semop_verify c d ops))"

definition semop ::
  "seminfo \<Rightarrow> proc_ctx \<Rightarrow> semop_args \<Rightarrow> user_ops \<Rightarrow> sem_state \<Rightarrow> semop_out \<times> sem_state" where
  "semop si c uap usr s =
     (case semconv si s (so_semid uap) of
        Inl e \<Rightarrow> (SemopRet (Err e), s)
      | Inr sp \<Rightarrow>
          if so_nsops uap > semopm si then (SemopRet (Err E2BIG), s)
          else if so_nsops uap = 0 then (SemopRet (Err ENOMEM), s)
          else
            case usr of
              None \<Rightarrow> (SemopRet (Err EFAULT), s)
            | Some f \<Rightarrow>
                (let ops = map f [0 ..< so_nsops uap] in
                 case semop_verify c (sema s ! sp) ops of
                   Inl e \<Rightarrow> (SemopRet (Err e), s)
                 | Inr _ \<Rightarrow> semop_pass si c (so_semid uap) sp ops s))"

text \<open>
  After the sleep: \<open>sp\<close> and the channel are what the sleeper kept on its kernel stack, the
  operation list is read from user memory again.
\<close>

definition semop_resume :: "seminfo \<Rightarrow> proc_ctx \<Rightarrow> semop_args \<Rightarrow> nat \<Rightarrow> sem_chan \<Rightarrow> bool \<Rightarrow> user_ops
    \<Rightarrow> sem_state \<Rightarrow> semop_out \<times> sem_state" where
  "semop_resume si c uap sp ch interrupted usr s =
     (if interrupted then (SemopRet (Err EINTR), sem_count_down ch s)
      else
        case semconv si s (so_semid uap) of
          Inl _ \<Rightarrow> (SemopRet (Err EIDRM), s)
        | Inr _ \<Rightarrow>
            (case usr of
               None \<Rightarrow> (SemopRet (Err EFAULT), s)
             | Some f \<Rightarrow> semop_pass si c (so_semid uap) sp (map f [0 ..< so_nsops uap]) s))"

section \<open>semexit\<close>

text \<open>The entries of the exiting process, the last one first.\<close>

fun semexit_ents :: "seminfo \<Rightarrow> undo list \<Rightarrow> sem_state \<Rightarrow> sem_state" where
  "semexit_ents si [] s = s"
| "semexit_ents si (e # es) s =
     semexit_ents si es
       (case semconv si s (un_id e) of
          Inl _ \<Rightarrow> s
        | Inr sp \<Rightarrow>
            (let a = sem_base (sema s ! sp) + un_num e;
                 v = semval (sems s ! a) + un_aoe e in
             if v < 0 \<or> v > semvmx si then s
             else
               let s1 = upd_sem a (\<lambda>p. p\<lparr>semval := u16 v\<rparr>) s;
                   s2 = (if v = 0 then wake_zcnt a s1 else s1) in
               if un_aoe e > 0 then wake_ncnt a s2 else s2))"

definition semexit :: "seminfo \<Rightarrow> proc_ctx \<Rightarrow> sem_state \<Rightarrow> sem_state" where
  "semexit si c s =
     (case sem_undo s ! p_slot c of
        None \<Rightarrow> s
      | Some up \<Rightarrow>
          (let s1 = (if semu s ! up = [] then s
                     else let s0 = semexit_ents si (rev (semu s ! up)) s in
                       s0\<lparr>semu := (semu s0)[up := []], semunp := remove1 up (semunp s0)\<rparr>) in
           s1\<lparr>semfup := up # semfup s1, sem_undo := (sem_undo s1)[p_slot c := None]\<rparr>))"

section \<open>What one operation changes\<close>

definition semvals :: "sem_state \<Rightarrow> int list" where
  "semvals s = map semval (sems s)"

definition vals16 :: "sem_state \<Rightarrow> bool" where
  "vals16 s \<longleftrightarrow> (\<forall>v \<in> set (semvals s). 0 \<le> v \<and> v < 65536)"

named_theorems sem_frame \<open>components of the state an update leaves alone\<close>

lemma upd_sem_simps [sem_frame]:
  "sema (upd_sem a f s) = sema s" "semmap (upd_sem a f s) = semmap s" "semu (upd_sem a f s) = semu s"
  "semunp (upd_sem a f s) = semunp s" "semfup (upd_sem a f s) = semfup s"
  "sem_undo (upd_sem a f s) = sem_undo s" "woken (upd_sem a f s) = woken s"
  "length (sems (upd_sem a f s)) = length (sems s)"
  by (simp_all add: upd_sem_def)

lemma wake_simps [sem_frame]:
  "sema (wake_ncnt a s) = sema s" "semmap (wake_ncnt a s) = semmap s" "semu (wake_ncnt a s) = semu s"
  "semunp (wake_ncnt a s) = semunp s" "semfup (wake_ncnt a s) = semfup s"
  "sem_undo (wake_ncnt a s) = sem_undo s" "length (sems (wake_ncnt a s)) = length (sems s)"
  "sema (wake_zcnt a s) = sema s" "semmap (wake_zcnt a s) = semmap s" "semu (wake_zcnt a s) = semu s"
  "semunp (wake_zcnt a s) = semunp s" "semfup (wake_zcnt a s) = semfup s"
  "sem_undo (wake_zcnt a s) = sem_undo s" "length (sems (wake_zcnt a s)) = length (sems s)"
  by (simp_all add: wake_ncnt_def wake_zcnt_def upd_sem_def)

lemma add_semval_simps [sem_frame]:
  "sema (add_semval a d s) = sema s" "semmap (add_semval a d s) = semmap s"
  "semu (add_semval a d s) = semu s" "semunp (add_semval a d s) = semunp s"
  "semfup (add_semval a d s) = semfup s" "sem_undo (add_semval a d s) = sem_undo s"
  "woken (add_semval a d s) = woken s" "length (sems (add_semval a d s)) = length (sems s)"
  by (simp_all add: add_semval_def sem_frame)

lemma undo_tables_ok_cong:
  "semu t = semu s \<Longrightarrow> semunp t = semunp s \<Longrightarrow> semfup t = semfup s \<Longrightarrow> sem_undo t = sem_undo s \<Longrightarrow>
   undo_tables_ok si t = undo_tables_ok si s"
  by (simp add: undo_tables_ok_def owners_ok_def)

lemma undo_tables_ok_frame [sem_frame]:
  "undo_tables_ok si (upd_sem a f s) = undo_tables_ok si s"
  "undo_tables_ok si (wake_ncnt a s) = undo_tables_ok si s"
  "undo_tables_ok si (wake_zcnt a s) = undo_tables_ok si s"
  "undo_tables_ok si (add_semval a d s) = undo_tables_ok si s"
  by (intro undo_tables_ok_cong; simp add: sem_frame)+

lemma semvals_upd:
  "(\<And>p. semval (f p) = semval p) \<Longrightarrow> semvals (upd_sem a f s) = semvals s"
  by (cases "a < length (sems s)") (simp_all add: semvals_def upd_sem_def map_update list_update_same_conv
      list_update_beyond)

lemma semvals_wake [simp]: "semvals (wake_ncnt a s) = semvals s" "semvals (wake_zcnt a s) = semvals s"
proof -
  have "semvals (t\<lparr>woken := w\<rparr>) = semvals t" for t w by (simp add: semvals_def)
  then show "semvals (wake_ncnt a s) = semvals s" "semvals (wake_zcnt a s) = semvals s"
    by (simp_all add: wake_ncnt_def wake_zcnt_def semvals_upd)
qed

lemma semvals_add: "semvals (add_semval a d s) = (semvals s)[a := u16 (semvals s ! a + d)]"
  by (cases "a < length (sems s)") (simp_all add: semvals_def add_semval_def upd_sem_def map_update
      list_update_beyond)

lemma semvals_cong: "sems t = sems s \<Longrightarrow> semvals t = semvals s"
  by (simp add: semvals_def)

lemma semval_semvals: "a < length (sems s) \<Longrightarrow> semval (sems s ! a) = semvals s ! a"
  by (simp add: semvals_def)

lemma length_semvals [simp]: "length (semvals s) = length (sems s)"
  by (simp add: semvals_def)

text \<open>
  The bookkeeping part of an operation, and all that \<open>semop_one\<close> does when it is done.
\<close>

definition post_op :: "seminfo \<Rightarrow> nat \<Rightarrow> int \<Rightarrow> sembuf \<Rightarrow> sem_state \<Rightarrow> unit res \<times> sem_state" where
  "post_op si slot ident op s =
     (if sem_op op \<noteq> 0 \<and> sem_flg op AND SEM_UNDO \<noteq> 0
      then semaoe si slot (sem_op op) ident (sem_num op) s else (Ok (), s))"

lemma semop_one_OpDone:
  assumes "semop_one si slot ident base op s = (OpDone, s')"
  obtains s1 where "post_op si slot ident op s = (Ok (), s1)"
    "semu s' = semu s1" "sem_undo s' = sem_undo s1" "sema s' = sema s1" "semmap s' = semmap s1"
    "length (sems s') = length (sems s1)"
    "undo_tables_ok si s' = undo_tables_ok si s1"
    "semvals s' = (if sem_op op = 0 then semvals s1 else semvals (add_semval (base + sem_num op) (sem_op op) s1))"
proof -
  consider "sem_op op > 0" | "sem_op op < 0" | "sem_op op = 0" by linarith
  then show thesis
  proof cases
    case 1
    with assms show thesis
      by (auto simp: semop_one_def semop_raise_def Let_def post_op_def sem_frame
          split: if_splits sum.splits prod.splits intro!: that)
  next
    case 2
    with assms show thesis
      by (auto simp: semop_one_def semop_lower_def Let_def post_op_def sem_frame
          split: if_splits sum.splits prod.splits intro!: that)
  next
    case 3
    with assms show thesis
      by (auto simp: semop_one_def semop_zero_def Let_def post_op_def
          split: if_splits intro!: that)
  qed
qed

lemma semop_one_OpFail:
  assumes "semop_one si slot ident base op s = (OpFail e, s')"
  shows "post_op si slot ident op s = (Err e, s')
    \<or> s' = s \<and> e = ERANGE \<and> 0 < sem_op op \<and> sem_op op + semval (sems s ! (base + sem_num op)) > semvmx si"
  using assms
  by (auto simp: semop_one_def semop_raise_def semop_lower_def semop_zero_def Let_def post_op_def
      split: if_splits sum.splits prod.splits)

lemma semop_one_OpBlock:
  assumes "semop_one si slot ident base op s = (OpBlock ch, s')"
  shows "s' = s
    \<and> (sem_op op < 0 \<and> ch = NCnt (base + sem_num op) \<and> semval (sems s ! (base + sem_num op)) < - sem_op op
       \<or> sem_op op = 0 \<and> ch = ZCnt (base + sem_num op) \<and> semval (sems s ! (base + sem_num op)) \<noteq> 0)"
  using assms
  by (auto simp: semop_one_def semop_raise_def semop_lower_def semop_zero_def Let_def
      split: if_splits sum.splits prod.splits)

lemma post_op_spec:
  assumes ok: "undo_tables_ok si s" and slot: "slot < length (sem_undo s)"
    and run: "post_op si slot ident op s = (r, s')"
  shows "undo_tables_ok si s'" "undo_frame s s'" "undo_ext slot s s'"
    "r = Err e \<Longrightarrow> semu s' = semu s"
    "r = Ok () \<Longrightarrow> i < length (sem_undo s) \<Longrightarrow> adj s' i =
       (if i = slot \<and> sem_op op \<noteq> 0 \<and> sem_flg op AND SEM_UNDO \<noteq> 0
        then (adj s i)((ident, sem_num op) := adj s i (ident, sem_num op) - sem_op op) else adj s i)"
proof -
  have *: "undo_tables_ok si s' \<and> undo_frame s s' \<and> undo_ext slot s s' \<and> (\<forall>e. r = Err e \<longrightarrow> semu s' = semu s)
    \<and> (r = Ok () \<longrightarrow> (\<forall>i < length (sem_undo s). adj s' i =
       (if i = slot \<and> sem_op op \<noteq> 0 \<and> sem_flg op AND SEM_UNDO \<noteq> 0
        then (adj s i)((ident, sem_num op) := adj s i (ident, sem_num op) - sem_op op) else adj s i)))"
  proof (cases "sem_op op \<noteq> 0 \<and> sem_flg op AND SEM_UNDO \<noteq> 0")
    case True
    with run have aoe: "semaoe si slot (sem_op op) ident (sem_num op) s = (r, s')"
      by (simp add: post_op_def)
    with semaoe_spec [OF ok slot aoe] semaoe_ext [OF ok slot aoe] True show ?thesis by auto
  next
    case False
    then have nop: "(sem_op op \<noteq> 0 \<and> sem_flg op AND SEM_UNDO \<noteq> 0) = False" by simp
    with run have eq: "r = Ok ()" "s' = s" by (auto simp: post_op_def)
    show ?thesis unfolding eq using nop ok by (auto simp del: not_gr_zero)
  qed
  then show "undo_tables_ok si s'" "undo_frame s s'" "undo_ext slot s s'"
    "r = Err e \<Longrightarrow> semu s' = semu s"
    "r = Ok () \<Longrightarrow> i < length (sem_undo s) \<Longrightarrow> adj s' i =
       (if i = slot \<and> sem_op op \<noteq> 0 \<and> sem_flg op AND SEM_UNDO \<noteq> 0
        then (adj s i)((ident, sem_num op) := adj s i (ident, sem_num op) - sem_op op) else adj s i)"
    by blast+
qed

section \<open>Taking operations back\<close>

text \<open>One round of the loop of \<open>semundo\<close>.\<close>

definition unop :: "seminfo \<Rightarrow> nat \<Rightarrow> int \<Rightarrow> nat \<Rightarrow> sembuf \<Rightarrow> sem_state \<Rightarrow> sem_state" where
  "unop si slot ident base op s =
     (if sem_op op = 0 then s
      else
        let s1 = add_semval (base + sem_num op) (- sem_op op) s in
        if sem_flg op AND SEM_UNDO \<noteq> 0
        then snd (semaoe si slot (s16 (- sem_op op)) ident (sem_num op) s1) else s1)"

lemma semundo_rev_unop: "semundo_rev si slot ident base ops s = fold (unop si slot ident base) ops s"
  by (induction ops arbitrary: s) (simp_all add: unop_def)

lemma semundo_snoc:
  "semundo si slot ident base (prev @ [op]) s
   = semundo si slot ident base prev (unop si slot ident base op s)"
  by (simp add: semundo_def semundo_rev_unop)

lemma semundo_Nil [simp]: "semundo si slot ident base [] s = s"
  by (simp add: semundo_def)

text \<open>
  \<open>t\<close> agrees with \<open>s\<close> on all that \<open>semundo\<close> restores.
\<close>

definition same_sems :: "seminfo \<Rightarrow> nat \<Rightarrow> sem_state \<Rightarrow> sem_state \<Rightarrow> bool" where
  "same_sems si slot s t \<longleftrightarrow> undo_tables_ok si t \<and> undo_ext slot s t \<and> semu t = semu s
     \<and> semvals t = semvals s \<and> sema t = sema s \<and> semmap t = semmap s"

lemma u16_back: "0 \<le> v \<Longrightarrow> v < 65536 \<Longrightarrow> u16 (u16 (v + d) - d) = v"
  by (simp add: u16_def mod_simps)

lemma list_update_back:
  "(\<And>v. v \<in> set xs \<Longrightarrow> g (f v) = v) \<Longrightarrow> xs[a := f (xs ! a), a := g (xs[a := f (xs ! a)] ! a)] = xs"
  by (cases "a < length xs") (simp_all add: list_update_beyond)

lemma undo_frame_semvals: "undo_frame s s' \<Longrightarrow> semvals s' = semvals s"
  by (simp add: undo_frame_def semvals_def)

lemma unop_takes_back:
  assumes ok: "undo_tables_ok si s" and slot: "slot < length (sem_undo s)" and v16: "vals16 s"
    and run: "semop_one si slot ident base op s = (OpDone, s')"
    and t: "same_sems si slot s' t"
  shows "same_sems si slot s (unop si slot ident base op t)"
proof -
  let ?a = "base + sem_num op" and ?d = "sem_op op"
  obtain s1 where post: "post_op si slot ident op s = (Ok (), s1)"
    and s': "semu s' = semu s1" "sem_undo s' = sem_undo s1" "sema s' = sema s1" "semmap s' = semmap s1"
      "semvals s' = (if ?d = 0 then semvals s1 else semvals (add_semval ?a ?d s1))"
    using semop_one_OpDone [OF run] by metis
  note ps = post_op_spec [OF ok slot post]
  have t': "undo_tables_ok si t" "undo_ext slot s' t" "semu t = semu s'" "semvals t = semvals s'"
    "sema t = sema s'" "semmap t = semmap s'"
    using t by (simp_all add: same_sems_def)
  have v1: "semvals s1 = semvals s" "sema s1 = sema s" "semmap s1 = semmap s"
    "length (sem_undo s1) = length (sem_undo s)"
    using undo_frame_semvals [OF ps(2)] ps(2) by (simp_all add: undo_frame_def)
  have ext: "undo_ext slot s t"
    using undo_ext_trans [OF undo_ext_trans [OF ps(3) undo_ext_same [OF s'(2)]] t'(2)] .
  show ?thesis
  proof (cases "?d = 0")
    case True
    with post have "s1 = s" by (simp add: post_op_def)
    with True t' s' ext show ?thesis by (simp add: unop_def same_sems_def)
  next
    case False
    let ?t1 = "add_semval ?a (- ?d) t"
    have restored: "semvals ?t1 = semvals s"
    proof -
      have "(semvals s)[?a := u16 (semvals s ! ?a + ?d),
          ?a := u16 ((semvals s)[?a := u16 (semvals s ! ?a + ?d)] ! ?a + - ?d)] = semvals s"
        using v16 by (intro list_update_back) (auto simp: vals16_def u16_back)
      with False t'(4) s'(5) v1(1) show ?thesis by (simp add: semvals_add)
    qed
    have t1: "undo_tables_ok si ?t1" "semu ?t1 = semu s1" "undo_ext slot s1 ?t1" "sema ?t1 = sema s"
      "semmap ?t1 = semmap s" "sem_undo ?t1 = sem_undo t"
      using t' s' v1 by (simp_all add: sem_frame undo_ext_def)
    show ?thesis
    proof (cases "sem_flg op AND SEM_UNDO \<noteq> 0")
      case True
      with False post have aoe: "semaoe si slot ?d ident (sem_num op) s = (Ok (), s1)"
        by (simp add: post_op_def)
      have "\<bar>?d\<bar> \<le> 16384"
        using semaoe_spec(6) [OF ok slot aoe] False ok by (auto simp: undo_tables_ok_def undo_limits_def)
      then have neg: "s16 (- ?d) = - ?d" by (simp add: s16_small)
      obtain t2 where t2: "semaoe si slot (- ?d) ident (sem_num op) ?t1 = (Ok (), t2)"
        "semu t2 = semu s" "sem_undo t2 = sem_undo ?t1"
        using semaoe_inverse [OF ok slot aoe t1(2,3)] by blast
      have slot1: "slot < length (sem_undo ?t1)" using slot t1(3) v1(4) by (simp add: undo_ext_def)
      note sp = semaoe_spec(1,2) [OF t1(1) slot1 t2(1)]
      have "same_sems si slot s t2"
        using sp t2(2,3) restored ext t1(4-6) undo_frame_semvals [OF sp(2)]
        by (auto simp: same_sems_def undo_frame_def undo_ext_def)
      with False True t2(1) neg show ?thesis by (simp add: unop_def)
    next
      case no_undo: False
      with False post have "s1 = s" by (simp add: post_op_def)
      with no_undo False t1 restored ext show ?thesis
        by (simp add: unop_def same_sems_def undo_ext_def)
    qed
  qed
qed

text \<open>
  The loop invariant: the state reached after the operations \<open>prev\<close>, from which \<open>semundo\<close>
  leads back.
\<close>

definition undoable :: "seminfo \<Rightarrow> nat \<Rightarrow> int \<Rightarrow> nat \<Rightarrow> sem_state \<Rightarrow> sembuf list \<Rightarrow> sem_state \<Rightarrow> bool" where
  "undoable si slot ident base s0 prev s \<longleftrightarrow>
     undo_tables_ok si s \<and> slot < length (sem_undo s) \<and> vals16 s \<and> undo_ext slot s0 s
     \<and> sema s = sema s0 \<and> semmap s = semmap s0 \<and> length (sems s) = length (sems s0)
     \<and> (\<forall>t. same_sems si slot s t \<longrightarrow> same_sems si slot s0 (semundo si slot ident base prev t))"

lemma vals16_update:
  "vals16 s \<Longrightarrow> semvals s' = (semvals s)[a := u16 x] \<Longrightarrow> vals16 s'"
  using set_update_subset_insert [of "semvals s" a "u16 x"] by (auto simp: vals16_def)

lemma undoable_step:
  assumes inv: "undoable si slot ident base s0 prev s"
    and run: "semop_one si slot ident base op s = (OpDone, s')"
  shows "undoable si slot ident base s0 (prev @ [op]) s'"
proof -
  from inv have ok: "undo_tables_ok si s" "slot < length (sem_undo s)" "vals16 s"
    and rest: "undo_ext slot s0 s" "sema s = sema s0" "semmap s = semmap s0"
      "length (sems s) = length (sems s0)"
    and undo: "\<And>t. same_sems si slot s t \<Longrightarrow> same_sems si slot s0 (semundo si slot ident base prev t)"
    by (simp_all add: undoable_def)
  obtain s1 where post: "post_op si slot ident op s = (Ok (), s1)"
    and s': "semu s' = semu s1" "sem_undo s' = sem_undo s1" "sema s' = sema s1" "semmap s' = semmap s1"
      "length (sems s') = length (sems s1)" "undo_tables_ok si s' = undo_tables_ok si s1"
      "semvals s' = (if sem_op op = 0 then semvals s1
                     else semvals (add_semval (base + sem_num op) (sem_op op) s1))"
    using semop_one_OpDone [OF run] by metis
  note ps = post_op_spec [OF ok(1,2) post]
  have v1: "semvals s1 = semvals s" "length (sem_undo s1) = length (sem_undo s)"
    using undo_frame_semvals [OF ps(2)] ps(2) by (simp_all add: undo_frame_def)
  have "vals16 s'"
  proof (cases "sem_op op = 0")
    case True
    with s'(7) v1 ok(3) show ?thesis by (simp add: vals16_def)
  next
    case False
    with s'(7) v1 show ?thesis by (intro vals16_update [OF ok(3)]) (simp add: semvals_add)
  qed
  moreover have "undo_ext slot s0 s'"
    using undo_ext_trans [OF rest(1) undo_ext_trans [OF ps(3) undo_ext_same [OF s'(2)]]] .
  moreover have "same_sems si slot s0 (semundo si slot ident base (prev @ [op]) t)"
    if "same_sems si slot s' t" for t
    using undo [OF unop_takes_back [OF ok run that]] by (simp add: semundo_snoc)
  ultimately show ?thesis
    using ps(1,2) s' ok(2) v1 rest by (auto simp: undoable_def undo_frame_def)
qed

lemma undoable_start:
  "undo_tables_ok si s \<Longrightarrow> slot < length (sem_undo s) \<Longrightarrow> vals16 s \<Longrightarrow>
   undoable si slot ident base s [] s"
  by (simp add: undoable_def)

lemma same_sems_refl: "undo_tables_ok si s \<Longrightarrow> same_sems si slot s s"
  by (simp add: same_sems_def)

lemma same_sems_post_Err:
  assumes "undo_tables_ok si s" "slot < length (sem_undo s)" "post_op si slot ident op s = (Err e, s')"
  shows "same_sems si slot s s'"
  using post_op_spec(1-4) [OF assms] undo_frame_semvals [OF post_op_spec(2) [OF assms]]
  by (simp add: same_sems_def undo_frame_def)

lemma sem_count_up_simps [sem_frame]:
  "semu (sem_count_up ch s) = semu s" "sem_undo (sem_count_up ch s) = sem_undo s"
  "sema (sem_count_up ch s) = sema s" "semmap (sem_count_up ch s) = semmap s"
  "semvals (sem_count_up ch s) = semvals s" "undo_tables_ok si (sem_count_up ch s) = undo_tables_ok si s"
  "length (sems (sem_count_up ch s)) = length (sems s)"
  by (cases ch; simp add: sem_frame semvals_upd)+

lemma semop_loop_undoable:
  assumes "undoable si slot ident base s0 prev s"
    and "semop_loop si slot ident base prev ops s = (out, s')"
  shows "if out = PassDone then undoable si slot ident base s0 (prev @ ops) s'
         else same_sems si slot s0 s'"
  using assms
proof (induction ops arbitrary: prev s)
  case Nil
  then show ?case by auto
next
  case (Cons op ops)
  from Cons.prems(1) have ok: "undo_tables_ok si s" "slot < length (sem_undo s)"
    and undo: "\<And>t. same_sems si slot s t \<Longrightarrow> same_sems si slot s0 (semundo si slot ident base prev t)"
    by (simp_all add: undoable_def)
  obtain o1 s1 where one: "semop_one si slot ident base op s = (o1, s1)" by fastforce
  show ?case
  proof (cases o1)
    case OpDone
    with one have step: "semop_one si slot ident base op s = (OpDone, s1)" by simp
    from Cons.IH [OF undoable_step [OF Cons.prems(1) step]] Cons.prems(2) step
    show ?thesis by (cases "out = PassDone") simp_all
  next
    case (OpFail e)
    with one semop_one_OpFail [of si slot ident base op s e s1]
    have "same_sems si slot s s1"
      using same_sems_post_Err [OF ok] same_sems_refl [OF ok(1)] by blast
    with undo Cons.prems(2) one OpFail show ?thesis by auto
  next
    case (OpBlock ch)
    with one semop_one_OpBlock [of si slot ident base op s ch s1]
    have "same_sems si slot s0 (semundo si slot ident base prev s1)"
      using undo same_sems_refl [OF ok(1)] by blast
    with Cons.prems(2) one OpBlock show ?thesis
      by (auto simp: Let_def same_sems_def sem_frame undo_ext_def split: if_splits)
  qed
qed

section \<open>A pass performs all operations or none\<close>

lemma semop_loop_same:
  assumes "undo_tables_ok si s" and "slot < length (sem_undo s)" and "vals16 s"
    and "semop_loop si slot ident base [] ops s = (out, s')" and "out \<noteq> PassDone"
  shows "same_sems si slot s s'"
  using semop_loop_undoable [OF undoable_start [OF assms(1-3)] assms(4)] assms(5) by simp

text \<open>C11: \<open>semop\<close> is atomic.  A pass over the operations that ends in an error or in a
  sleep leaves every semaphore value and every adjust-on-exit entry of every process as it
  found them, whatever operations it had already performed and whatever they posted.\<close>

theorem semop_pass_all_or_nothing:
  assumes "undo_tables_ok si s" and "p_slot c < length (sem_undo s)" and "vals16 s"
    and "semop_pass si c ident sp ops s = (out, s')" and "out \<noteq> SemopRet (Ok 0)"
  shows "semvals s' = semvals s \<and> semu s' = semu s \<and> undo_tables_ok si s'
    \<and> (\<forall>i < length (sem_undo s). adj s' i = adj s i)"
proof -
  obtain po s1 where loop: "semop_loop si (p_slot c) ident (sem_base (sema s ! sp)) [] ops s = (po, s1)"
    by fastforce
  with assms(4,5) have "po \<noteq> PassDone" "s' = s1"
    by (auto simp: semop_pass_def Let_def split: pass_out.splits)
  with semop_loop_same [OF assms(1-3) loop] have "same_sems si (p_slot c) s s'" by simp
  then show ?thesis using undo_ext_adj [OF assms(1)] by (auto simp: same_sems_def)
qed

definition sem_vals_ok :: "seminfo \<Rightarrow> sem_state \<Rightarrow> bool" where
  "sem_vals_ok si s \<longleftrightarrow> semvmx si \<le> 65535 \<and> (\<forall>v \<in> set (semvals s). 0 \<le> v \<and> v \<le> semvmx si)"

text \<open>A small instance: two sets of two semaphores.\<close>

definition demo_si :: seminfo where
  "demo_si = \<lparr>semmapsz = 10, semmni = 2, semmns = 4, semmnu = 2, semmsl = 3, semopm = 5,
     semume = 3, semvmx = 100, semaem = 100\<rparr>"

definition demo_ctx :: proc_ctx where
  "demo_ctx = \<lparr>p_slot = 1, p_pid = 42, u_cred = demo_cred, p_sec = demo_sec, hrestime = 1000\<rparr>"

definition demo_sems :: sem_state where
  "demo_sems =
     \<lparr>sema = [\<lparr>sem_perm = demo_perm\<lparr>ip_seq := 0\<rparr>, sem_base = 0, sem_nsems = 2, sem_otime = 0, sem_ctime = 0\<rparr>,
              \<lparr>sem_perm = demo_perm\<lparr>ip_mode := 32768, ip_seq := 1\<rparr>, sem_base = 2, sem_nsems = 2,
               sem_otime = 0, sem_ctime = 0\<rparr>],
      sems = map (\<lambda>v. \<lparr>semval = v, sempid = 0, semncnt = 0, semzcnt = 0\<rparr>) [3, 0, 7, 5],
      semmap = demo_map, semu = [[], []], semunp = [], semfup = [0, 1],
      sem_undo = [None, None], woken = []\<rparr>"

definition demo_ops :: "sembuf list" where
  "demo_ops = [\<lparr>sem_num = 0, sem_op = -2, sem_flg = 4096\<rparr>, \<lparr>sem_num = 1, sem_op = 4, sem_flg = 0\<rparr>]"

definition demo_blocked_ops :: "sembuf list" where
  "demo_blocked_ops = demo_ops @ [\<lparr>sem_num = 1, sem_op = -9, sem_flg = 0\<rparr>]"

lemmas demo_sem_simps = demo_si_def demo_sems_def demo_ops_def demo_blocked_ops_def
  demo_ctx_def semop_pass_def semop_one_def semop_lower_def semop_raise_def semop_zero_def
  semundo_def semaoe_def undo_struct_def undo_post_def add_semval_def wake_ncnt_def wake_zcnt_def
  upd_sem_def SEM_UNDO_def ipc_bits u16_def s16_def Let_def

lemma demo_sems_ok:
  "undo_tables_ok demo_si demo_sems" "p_slot demo_ctx < length (sem_undo demo_sems)"
  "sem_vals_ok demo_si demo_sems" "vals16 demo_sems"
  by (auto simp: undo_tables_ok_def owners_ok_def undo_limits_def undo_list_ok_def sem_vals_ok_def
      vals16_def semvals_def demo_si_def demo_sems_def demo_ctx_def less_Suc_eq nth_Cons')

lemma demo_blocked_run:
  "fst (semop_pass demo_si demo_ctx 0 0 demo_blocked_ops demo_sems) = SemopSleep (NCnt 1)"
  by (simp add: demo_sem_simps)

theorem semop_pass_all_or_nothing_witness:
  "semvals (snd (semop_pass demo_si demo_ctx 0 0 demo_blocked_ops demo_sems)) = [3, 0, 7, 5]"
proof -
  let ?run = "semop_pass demo_si demo_ctx 0 0 demo_blocked_ops demo_sems"
  have run: "?run = (SemopSleep (NCnt 1), snd ?run)"
    using demo_blocked_run by (metis prod.collapse)
  from semop_pass_all_or_nothing [OF demo_sems_ok(1,2,4) run]
  show ?thesis by (simp add: semvals_def demo_sems_def)
qed

text \<open>
  The specification of a pass: values as a function of the address, no bookkeeping.
\<close>

datatype sem_verdict = Performed "nat \<Rightarrow> int" | TooBig | Waits sem_chan bool

fun sem_spec :: "int \<Rightarrow> nat \<Rightarrow> sembuf list \<Rightarrow> (nat \<Rightarrow> int) \<Rightarrow> sem_verdict" where
  "sem_spec vmx base [] val = Performed val"
| "sem_spec vmx base (op # ops) val =
     (let a = base + sem_num op; v = val a in
      if sem_op op > 0 then
        (if v + sem_op op > vmx then TooBig else sem_spec vmx base ops (val(a := v + sem_op op)))
      else if sem_op op < 0 then
        (if v < - sem_op op then Waits (NCnt a) (sem_flg op AND IPC_NOWAIT \<noteq> 0)
         else sem_spec vmx base ops (val(a := v + sem_op op)))
      else if v \<noteq> 0 then Waits (ZCnt a) (sem_flg op AND IPC_NOWAIT \<noteq> 0)
      else sem_spec vmx base ops val)"

definition posts :: "sembuf \<Rightarrow> bool" where
  "posts op \<longleftrightarrow> sem_op op \<noteq> 0 \<and> sem_flg op AND SEM_UNDO \<noteq> 0"

lemma sem_vals_ok_vals16: "sem_vals_ok si s \<Longrightarrow> vals16 s"
  by (auto simp: sem_vals_ok_def vals16_def)

lemma sem_vals_ok_update:
  assumes "sem_vals_ok si s" and "semvals s' = (semvals s)[a := v]" and "0 \<le> v" and "v \<le> semvmx si"
  shows "sem_vals_ok si s'"
  using assms set_update_subset_insert [of "semvals s" a v] by (auto simp: sem_vals_ok_def)

lemma semop_one_values:
  assumes ok: "undo_tables_ok si s" and slot: "slot < length (sem_undo s)"
    and vals: "sem_vals_ok si s" and a: "base + sem_num op < length (sems s)"
    and run: "semop_one si slot ident base op s = (OpDone, s')"
  shows "semvals s' = (semvals s)[base + sem_num op := semvals s ! (base + sem_num op) + sem_op op]"
    "0 \<le> semvals s ! (base + sem_num op) + sem_op op"
    "semvals s ! (base + sem_num op) + sem_op op \<le> semvmx si"
    "sem_op op = 0 \<Longrightarrow> semvals s ! (base + sem_num op) = 0"
proof -
  let ?a = "base + sem_num op" and ?v = "semvals s ! (base + sem_num op)"
  obtain s1 where post: "post_op si slot ident op s = (Ok (), s1)"
    and s': "semvals s' = (if sem_op op = 0 then semvals s1 else semvals (add_semval ?a (sem_op op) s1))"
    using semop_one_OpDone [OF run] by metis
  have v1: "semvals s1 = semvals s"
    using undo_frame_semvals [OF post_op_spec(2) [OF ok slot post]] .
  have v: "0 \<le> ?v" "?v \<le> semvmx si" "semvmx si \<le> 65535"
    using vals a by (auto simp: sem_vals_ok_def)
  have sv: "semval (sems s ! ?a) = ?v" using a by (simp add: semval_semvals)
  have new: "0 \<le> ?v + sem_op op \<and> ?v + sem_op op \<le> semvmx si \<and> (sem_op op = 0 \<longrightarrow> ?v = 0)"
    using run v(1,2) sv
    by (auto simp: semop_one_def semop_raise_def semop_lower_def semop_zero_def Let_def
        split: if_splits prod.splits sum.splits)
  then show "0 \<le> ?v + sem_op op" "?v + sem_op op \<le> semvmx si" "sem_op op = 0 \<Longrightarrow> ?v = 0"
    by simp_all
  show "semvals s' = (semvals s)[?a := ?v + sem_op op]"
    using s' v1 new v(3) by (auto simp: semvals_add u16_id) (metis list_update_id)
qed

lemma semop_loop_spec:
  assumes "undo_tables_ok si s" and "slot < length (sem_undo s)" and "sem_vals_ok si s"
    and "\<forall>op \<in> set ops. base + sem_num op < length (sems s)"
    and "semop_loop si slot ident base prev ops s = (out, s')"
    and "\<forall>a < length (sems s). val a = semvals s ! a"
  shows "case out of
      PassDone \<Rightarrow> (\<exists>val'. sem_spec (semvmx si) base ops val = Performed val'
          \<and> (\<forall>a < length (sems s). val' a = semvals s' ! a)) \<and> sem_vals_ok si s'
    | PassSleep ch \<Rightarrow> sem_spec (semvmx si) base ops val = Waits ch False
    | PassErr e \<Rightarrow> sem_spec (semvmx si) base ops val = TooBig \<and> e = ERANGE
        \<or> (\<exists>ch. sem_spec (semvmx si) base ops val = Waits ch True) \<and> e = EAGAIN
        \<or> (\<exists>op \<in> set ops. posts op)"
  using assms
proof (induction ops arbitrary: prev s val)
  case Nil
  then show ?case by auto
next
  case (Cons op ops)
  let ?a = "base + sem_num op"
  have a: "?a < length (sems s)" using Cons.prems(4) by simp
  have va: "val ?a = semval (sems s ! ?a)" using Cons.prems(6) a by (simp add: semval_semvals)
  obtain o1 s1 where one: "semop_one si slot ident base op s = (o1, s1)" by fastforce
  show ?case
  proof (cases o1)
    case OpDone
    with one have step: "semop_one si slot ident base op s = (OpDone, s1)" by simp
    note vals = semop_one_values [OF Cons.prems(1-3) a step]
    have "undoable si slot ident base s [] s"
      using undoable_start [OF Cons.prems(1,2) sem_vals_ok_vals16 [OF Cons.prems(3)]] .
    from undoable_step [OF this step] have s1: "undo_tables_ok si s1" "slot < length (sem_undo s1)"
      "length (sems s1) = length (sems s)" by (simp_all add: undoable_def)
    let ?val = "val(?a := val ?a + sem_op op)"
    have agree: "\<forall>b < length (sems s1). ?val b = semvals s1 ! b"
      using Cons.prems(6) vals(1) s1(3) a by (simp add: nth_list_update)
    have "sem_spec (semvmx si) base (op # ops) val = sem_spec (semvmx si) base ops ?val"
      using vals(2-4) va a by (auto simp: Let_def semval_semvals fun_upd_idem)
    moreover note Cons.IH [OF s1(1,2) sem_vals_ok_update [OF Cons.prems(3) vals(1-3)] _ _ agree, of "prev @ [op]"]
    ultimately show ?thesis
      using Cons.prems(4,5) step s1(3) by (auto split: pass_out.splits)
  next
    case (OpFail e)
    with one have "post_op si slot ident op s = (Err e, s1) \<or> e = ERANGE \<and> 0 < sem_op op
        \<and> sem_op op + semval (sems s ! ?a) > semvmx si"
      using semop_one_OpFail by blast
    then have "posts op \<or> sem_spec (semvmx si) base (op # ops) val = TooBig \<and> e = ERANGE"
      using va by (auto simp: post_op_def posts_def Let_def split: if_splits)
    moreover have "out = PassErr e" using Cons.prems(5) one OpFail by simp
    ultimately show ?thesis by auto
  next
    case (OpBlock ch)
    with one have "sem_op op < 0 \<and> ch = NCnt ?a \<and> semval (sems s ! ?a) < - sem_op op
       \<or> sem_op op = 0 \<and> ch = ZCnt ?a \<and> semval (sems s ! ?a) \<noteq> 0"
      using semop_one_OpBlock by blast
    then have "sem_spec (semvmx si) base (op # ops) val = Waits ch (sem_flg op AND IPC_NOWAIT \<noteq> 0)"
      using va by (auto simp: Let_def)
    with Cons.prems(5) one OpBlock show ?thesis by (auto simp: Let_def split: if_splits)
  qed
qed

definition op_sum :: "(sembuf \<Rightarrow> bool) \<Rightarrow> nat \<Rightarrow> sembuf list \<Rightarrow> int" where
  "op_sum P n ops = sum_list (map sem_op (filter (\<lambda>op. sem_num op = n \<and> P op) ops))"

lemma op_sum_simps [simp]:
  "op_sum P n [] = 0"
  "op_sum P n (op # ops) = (if sem_num op = n \<and> P op then sem_op op else 0) + op_sum P n ops"
  by (simp_all add: op_sum_def)

lemma adj_same: "semu t = semu s \<Longrightarrow> sem_undo t = sem_undo s \<Longrightarrow> adj t = adj s"
  by (simp add: adj_def fun_eq_iff split: option.splits)

lemma semop_loop_accounts:
  assumes "undo_tables_ok si s" and "slot < length (sem_undo s)" and "sem_vals_ok si s"
    and "\<forall>op \<in> set ops. base + sem_num op < length (sems s)"
    and "semop_loop si slot ident base prev ops s = (PassDone, s')"
  shows "(\<forall>n. base + n < length (sems s) \<longrightarrow>
      semvals s' ! (base + n) = semvals s ! (base + n) + op_sum (\<lambda>_. True) n ops)
    \<and> (\<forall>i k. i < length (sem_undo s) \<longrightarrow> adj s' i k = adj s i k -
         (if i = slot \<and> fst k = ident then op_sum posts (snd k) ops else 0))
    \<and> length (sems s') = length (sems s)"
  using assms
proof (induction ops arbitrary: prev s)
  case Nil
  then show ?case by auto
next
  case (Cons op ops)
  let ?a = "base + sem_num op"
  have a: "?a < length (sems s)" using Cons.prems(4) by simp
  from Cons.prems(5) obtain s1 where step: "semop_one si slot ident base op s = (OpDone, s1)"
    and loop: "semop_loop si slot ident base (prev @ [op]) ops s1 = (PassDone, s')"
    by (auto simp: Let_def split: prod.splits op_out.splits if_splits)
  note vals = semop_one_values [OF Cons.prems(1-3) a step]
  have "undoable si slot ident base s [] s"
    using undoable_start [OF Cons.prems(1,2) sem_vals_ok_vals16 [OF Cons.prems(3)]] .
  from undoable_step [OF this step] have s1: "undo_tables_ok si s1" "slot < length (sem_undo s1)"
    "length (sems s1) = length (sems s)" and ext: "undo_ext slot s s1"
    by (simp_all add: undoable_def)
  have len: "length (sem_undo s1) = length (sem_undo s)" using ext by (simp add: undo_ext_def)
  obtain s2 where post: "post_op si slot ident op s = (Ok (), s2)"
    and s2: "semu s1 = semu s2" "sem_undo s1 = sem_undo s2"
    using semop_one_OpDone [OF step] by metis
  have adj1: "adj s1 i k = adj s i k - (if i = slot \<and> k = (ident, sem_num op) \<and> posts op then sem_op op else 0)"
    if "i < length (sem_undo s)" for i k
    using post_op_spec(5) [OF Cons.prems(1,2) post refl that] adj_same [OF s2]
    by (auto simp: posts_def)
  have vals1: "semvals s1 ! (base + n) = semvals s ! (base + n) + (if sem_num op = n then sem_op op else 0)"
    if "base + n < length (sems s)" for n
    using vals(1) that a by (simp add: nth_list_update)
  from Cons.IH [OF s1(1,2) sem_vals_ok_update [OF Cons.prems(3) vals(1-3)] _ loop] Cons.prems(4) s1(3)
  have IH: "\<forall>n. base + n < length (sems s) \<longrightarrow>
      semvals s' ! (base + n) = semvals s1 ! (base + n) + op_sum (\<lambda>_. True) n ops"
    "\<forall>i k. i < length (sem_undo s1) \<longrightarrow> adj s' i k = adj s1 i k -
         (if i = slot \<and> fst k = ident then op_sum posts (snd k) ops else 0)"
    "length (sems s') = length (sems s)" by auto
  show ?case
  proof (intro conjI allI impI)
    fix n assume "base + n < length (sems s)"
    with IH(1) vals1 show "semvals s' ! (base + n)
      = semvals s ! (base + n) + op_sum (\<lambda>_. True) n (op # ops)" by simp
  next
    fix i k assume "i < length (sem_undo s)"
    with IH(2) adj1 [of i k] len show "adj s' i k = adj s i k -
         (if i = slot \<and> fst k = ident then op_sum posts (snd k) (op # ops) else 0)"
      by (cases k) auto
  qed (use IH(3) in simp)
qed

text \<open>After a pass that succeeded only process ids and the time of the set change.\<close>

lemma stamp_pids_frame:
  "semvals (stamp_pids pid base ops s) = semvals s" "semu (stamp_pids pid base ops s) = semu s"
  "sem_undo (stamp_pids pid base ops s) = sem_undo s" "sema (stamp_pids pid base ops s) = sema s"
  "semmap (stamp_pids pid base ops s) = semmap s"
  "undo_tables_ok si (stamp_pids pid base ops s) = undo_tables_ok si s"
  "length (sems (stamp_pids pid base ops s)) = length (sems s)"
  by (induction ops arbitrary: s) (simp_all add: sem_frame semvals_upd)

lemma upd_ds_simps [sem_frame]:
  "sems (upd_ds sp f s) = sems s" "semvals (upd_ds sp f s) = semvals s" "semu (upd_ds sp f s) = semu s"
  "sem_undo (upd_ds sp f s) = sem_undo s" "semmap (upd_ds sp f s) = semmap s"
  "undo_tables_ok si (upd_ds sp f s) = undo_tables_ok si s" "woken (upd_ds sp f s) = woken s"
  "length (sema (upd_ds sp f s)) = length (sema s)"
  by (simp_all add: upd_ds_def semvals_def undo_tables_ok_def owners_ok_def)

lemma semop_pass_Ok:
  assumes "semop_pass si c ident sp ops s = (SemopRet (Ok r), s')"
  obtains s1 where "semop_loop si (p_slot c) ident (sem_base (sema s ! sp)) [] ops s = (PassDone, s1)"
    "r = 0" "s' = upd_ds sp (\<lambda>d. d\<lparr>sem_otime := hrestime c\<rparr>)
      (stamp_pids (p_pid c) (sem_base (sema s ! sp)) ops s1)"
  using assms by (auto simp: semop_pass_def Let_def split: prod.splits pass_out.splits)

definition ops_in_range :: "nat \<Rightarrow> sembuf list \<Rightarrow> sem_state \<Rightarrow> bool" where
  "ops_in_range sp ops s \<longleftrightarrow>
     (\<forall>op \<in> set ops. sem_base (sema s ! sp) + sem_num op < length (sems s))"

text \<open>C24: A successful \<open>semop\<close> adds up: every semaphore of the set moved by exactly the
  sum of the operations on it and stays within 0 and \<open>semvmx\<close>; the process's adjust-on-exit
  value moved by exactly the opposite sum over the operations with \<open>SEM_UNDO\<close>; all other
  values of this and of every other process are unchanged.\<close>

theorem semop_pass_accounts:
  assumes "undo_tables_ok si s" and "p_slot c < length (sem_undo s)" and "sem_vals_ok si s"
    and "ops_in_range sp ops s"
    and "semop_pass si c ident sp ops s = (SemopRet (Ok r), s')"
  shows "undo_tables_ok si s' \<and> sem_vals_ok si s'
    \<and> (\<forall>n. sem_base (sema s ! sp) + n < length (sems s) \<longrightarrow>
        semvals s' ! (sem_base (sema s ! sp) + n)
        = semvals s ! (sem_base (sema s ! sp) + n) + op_sum (\<lambda>_. True) n ops)
    \<and> (\<forall>i k. i < length (sem_undo s) \<longrightarrow> adj s' i k = adj s i k -
         (if i = p_slot c \<and> fst k = ident then op_sum posts (snd k) ops else 0))"
proof -
  obtain s1 where loop: "semop_loop si (p_slot c) ident (sem_base (sema s ! sp)) [] ops s = (PassDone, s1)"
    and s': "s' = upd_ds sp (\<lambda>d. d\<lparr>sem_otime := hrestime c\<rparr>)
      (stamp_pids (p_pid c) (sem_base (sema s ! sp)) ops s1)"
    by (rule semop_pass_Ok [OF assms(5)]) auto
  have range: "\<forall>op \<in> set ops. sem_base (sema s ! sp) + sem_num op < length (sems s)"
    using assms(4) by (simp add: ops_in_range_def)
  have same: "semvals s' = semvals s1" "semu s' = semu s1" "sem_undo s' = sem_undo s1"
    "undo_tables_ok si s' = undo_tables_ok si s1"
    unfolding s' by (simp_all add: sem_frame stamp_pids_frame)
  note adj = adj_same [OF same(2,3)]
  have "undo_tables_ok si s1"
    using semop_loop_undoable [OF undoable_start [OF assms(1,2) sem_vals_ok_vals16 [OF assms(3)]] loop]
    by (simp add: undoable_def)
  moreover have "sem_vals_ok si s1"
    using semop_loop_spec [OF assms(1-3) range loop, of "\<lambda>a. semvals s ! a"] by simp
  ultimately show ?thesis
    using semop_loop_accounts [OF assms(1-3) range loop] same adj by (simp add: sem_vals_ok_def)
qed

lemma demo_run:
  "semop_pass demo_si demo_ctx 0 0 demo_ops demo_sems =
     (SemopRet (Ok 0), snd (semop_pass demo_si demo_ctx 0 0 demo_ops demo_sems))"
proof -
  have "fst (semop_pass demo_si demo_ctx 0 0 demo_ops demo_sems) = SemopRet (Ok 0)"
    by (simp add: demo_sem_simps)
  then show ?thesis by (metis prod.collapse)
qed

lemma demo_ops_in_range: "ops_in_range 0 demo_ops demo_sems"
  by (simp add: ops_in_range_def demo_ops_def demo_sems_def)

theorem semop_pass_accounts_witness:
  "semvals (snd (semop_pass demo_si demo_ctx 0 0 demo_ops demo_sems)) ! 0 = 1
   \<and> semvals (snd (semop_pass demo_si demo_ctx 0 0 demo_ops demo_sems)) ! 1 = 4
   \<and> adj (snd (semop_pass demo_si demo_ctx 0 0 demo_ops demo_sems)) 1 (0, 0) = 2"
proof -
  note acc = semop_pass_accounts [OF demo_sems_ok(1-3) demo_ops_in_range demo_run]
  from acc have vals: "\<And>n. n < 4 \<Longrightarrow> semvals (snd (semop_pass demo_si demo_ctx 0 0 demo_ops demo_sems)) ! n
      = semvals demo_sems ! n + op_sum (\<lambda>_. True) n demo_ops"
    by (simp add: demo_sems_def)
  from acc have "adj (snd (semop_pass demo_si demo_ctx 0 0 demo_ops demo_sems)) 1 (0, 0)
      = adj demo_sems 1 (0, 0) - op_sum posts 0 demo_ops"
    by (simp add: demo_sems_def demo_ctx_def)
  with vals [of 0] vals [of 1] show ?thesis
    by (simp add: semvals_def demo_sems_def demo_ops_def posts_def SEM_UNDO_def adj_def)
qed

text \<open>C19: \<open>semop\<close> refines its specification, a fold over the values that knows no
  undo entries: it succeeds, sleeps or fails with \<open>EAGAIN\<close> or \<open>ERANGE\<close> exactly as the
  specification performs, waits or overflows, with the values the specification gives; any
  other error needs an operation that posts an undo entry.\<close>

theorem semop_pass_refines_spec:
  assumes "undo_tables_ok si s" and "p_slot c < length (sem_undo s)" and "sem_vals_ok si s"
    and "ops_in_range sp ops s"
    and "semop_pass si c ident sp ops s = (out, s')"
  shows "case sem_spec (semvmx si) (sem_base (sema s ! sp)) ops ((!) (semvals s)) of
      Performed val \<Rightarrow> out = SemopRet (Ok 0) \<and> (\<forall>a < length (sems s). semvals s' ! a = val a)
        \<or> (\<exists>e. out = SemopRet (Err e)) \<and> (\<exists>op \<in> set ops. posts op)
    | TooBig \<Rightarrow> out = SemopRet (Err ERANGE)
        \<or> (\<exists>e. out = SemopRet (Err e)) \<and> (\<exists>op \<in> set ops. posts op)
    | Waits ch nowait \<Rightarrow> out = (if nowait then SemopRet (Err EAGAIN) else SemopSleep ch)
        \<or> (\<exists>e. out = SemopRet (Err e)) \<and> (\<exists>op \<in> set ops. posts op)"
proof -
  have range: "\<forall>op \<in> set ops. sem_base (sema s ! sp) + sem_num op < length (sems s)"
    using assms(4) by (simp add: ops_in_range_def)
  obtain po s1 where loop: "semop_loop si (p_slot c) ident (sem_base (sema s ! sp)) [] ops s = (po, s1)"
    by fastforce
  note spec = semop_loop_spec [OF assms(1-3) range loop, of "(!) (semvals s)"]
  show ?thesis
  proof (cases po)
    case PassDone
    with loop assms(5) have "out = SemopRet (Ok 0)" "semvals s' = semvals s1"
      by (auto simp: semop_pass_def Let_def sem_frame stamp_pids_frame)
    with spec PassDone show ?thesis by auto
  next
    case (PassErr e)
    with loop assms(5) have "out = SemopRet (Err e)" by (auto simp: semop_pass_def Let_def)
    with spec PassErr show ?thesis by (auto split: sem_verdict.splits)
  next
    case (PassSleep ch)
    with loop assms(5) have "out = SemopSleep ch" by (auto simp: semop_pass_def Let_def)
    with spec PassSleep show ?thesis by auto
  qed
qed

theorem semop_pass_refines_spec_witness:
  "sem_spec (semvmx demo_si) 0 demo_blocked_ops ((!) (semvals demo_sems)) = Waits (NCnt 1) False
   \<and> fst (semop_pass demo_si demo_ctx 0 0 demo_blocked_ops demo_sems) = SemopSleep (NCnt 1)"
proof -
  let ?run = "semop_pass demo_si demo_ctx 0 0 demo_blocked_ops demo_sems"
  have range: "ops_in_range 0 demo_blocked_ops demo_sems"
    by (simp add: ops_in_range_def demo_blocked_ops_def demo_ops_def demo_sems_def)
  have spec: "sem_spec (semvmx demo_si) 0 demo_blocked_ops ((!) (semvals demo_sems)) = Waits (NCnt 1) False"
    by (simp add: demo_blocked_ops_def demo_ops_def demo_si_def demo_sems_def semvals_def
        IPC_NOWAIT_def Let_def)
  have base: "sem_base (sema demo_sems ! 0) = 0" by (simp add: demo_sems_def)
  have run: "?run = (fst ?run, snd ?run)" by simp
  from semop_pass_refines_spec [OF demo_sems_ok(1-3) range run]
  have "fst ?run = SemopSleep (NCnt 1) \<or> (\<exists>e. fst ?run = SemopRet (Err e))"
    using spec base by auto
  with spec demo_blocked_run show ?thesis by auto
qed

section \<open>A call stays inside its set\<close>

definition touches :: "nat set \<Rightarrow> sem_state \<Rightarrow> sem_state \<Rightarrow> bool" where
  "touches A s s' \<longleftrightarrow> length (sems s') = length (sems s) \<and> sema s' = sema s
     \<and> (\<forall>b. b \<notin> A \<longrightarrow> sems s' ! b = sems s ! b)"

lemma touches_refl [simp]: "touches A s s"
  by (simp add: touches_def)

lemma touches_trans: "touches A s t \<Longrightarrow> touches A t u \<Longrightarrow> touches A s u"
  by (simp add: touches_def)

lemma touches_same: "sems t = sems s \<Longrightarrow> sema t = sema s \<Longrightarrow> touches A s t"
  by (simp add: touches_def)

lemma nth_update_outside: "a \<in> A \<Longrightarrow> b \<notin> A \<Longrightarrow> xs[a := x] ! b = xs ! b"
  by (metis nth_list_update_neq)

lemma touches_upd: "touches A s t \<Longrightarrow> a \<in> A \<Longrightarrow> touches A s (upd_sem a f t)"
  by (auto simp: touches_def upd_sem_def nth_update_outside)

lemma touches_wake:
  "touches A s t \<Longrightarrow> a \<in> A \<Longrightarrow> touches A s (wake_ncnt a t)"
  "touches A s t \<Longrightarrow> a \<in> A \<Longrightarrow> touches A s (wake_zcnt a t)"
  by (auto simp: touches_def wake_ncnt_def wake_zcnt_def upd_sem_def nth_update_outside)

lemma touches_add: "touches A s t \<Longrightarrow> a \<in> A \<Longrightarrow> touches A s (add_semval a d t)"
  by (simp add: add_semval_def touches_upd)

lemma undo_struct_sems: "undo_struct slot s = Some (up, s1) \<Longrightarrow> sems s1 = sems s \<and> sema s1 = sema s"
  by (auto simp: undo_struct_def split: option.splits list.splits)

lemma touches_semaoe:
  "touches A s t \<Longrightarrow> touches A s (snd (semaoe si slot val ident num t))"
  by (rule touches_trans, assumption, rule touches_same)
     (auto simp: semaoe_def Let_def dest: undo_struct_sems split: option.splits prod.splits)

lemma touches_post: "semaoe si slot val ident num s = (r, s1) \<Longrightarrow> touches A s s1"
  using touches_semaoe [of A s s si slot val ident num] by simp

lemmas touches_intros = touches_refl touches_upd touches_wake touches_add touches_semaoe touches_post

lemma touches_semop_one:
  assumes "base + sem_num op \<in> A"
  shows "touches A s (snd (semop_one si slot ident base op s))"
proof -
  have raise: "touches A s (snd (semop_raise si slot ident base op s))"
    using assms by (auto simp: semop_raise_def Let_def split: sum.splits prod.splits if_splits
        intro: touches_intros)
  have lower: "touches A s (snd (semop_lower si slot ident base op s))"
    using assms by (auto simp: semop_lower_def Let_def split: sum.splits prod.splits if_splits
        intro: touches_intros)
  show ?thesis
    using raise lower by (auto simp: semop_one_def semop_zero_def Let_def)
qed

lemma touches_semundo_rev:
  "\<forall>op \<in> set ops. base + sem_num op \<in> A \<Longrightarrow> touches A s (semundo_rev si slot ident base ops s)"
proof (induction ops arbitrary: s)
  case Nil
  then show ?case by simp
next
  case (Cons op ops)
  have "touches A s (unop si slot ident base op s)"
    using Cons.prems by (auto simp: unop_def Let_def intro!: touches_refl touches_add touches_semaoe)
  with Cons show ?case
    by (auto simp: semundo_rev_unop intro: touches_trans)
qed

lemma touches_loop:
  "\<forall>op \<in> set prev \<union> set ops. base + sem_num op \<in> A \<Longrightarrow>
   touches A s (snd (semop_loop si slot ident base prev ops s))"
proof (induction ops arbitrary: prev s)
  case Nil
  then show ?case by simp
next
  case (Cons op ops)
  obtain o1 s1 where one: "semop_one si slot ident base op s = (o1, s1)" by fastforce
  have a: "base + sem_num op \<in> A" using Cons.prems by simp
  have t1: "touches A s s1" using touches_semop_one [OF a, of s si slot ident] one by simp
  have t2: "touches A s (semundo si slot ident base prev s1)"
    using touches_trans [OF t1] touches_semundo_rev Cons.prems by (simp add: semundo_def)
  show ?case
  proof (cases o1)
    case OpDone
    with one t1 Cons.IH [of "prev @ [op]" s1] Cons.prems show ?thesis
      by (auto intro: touches_trans)
  next
    case (OpFail e)
    with one t2 show ?thesis by simp
  next
    case (OpBlock ch)
    with one semop_one_OpBlock [of si slot ident base op s ch s1]
    have "touches A u (sem_count_up ch u)" for u using a by (auto intro!: touches_upd touches_refl)
    with one OpBlock t2 show ?thesis by (auto simp: Let_def intro: touches_trans)
  qed
qed

lemma touches_stamps:
  "\<forall>op \<in> set ops. base + sem_num op \<in> A \<Longrightarrow> touches A s (stamp_pids pid base ops s)"
proof (induction ops arbitrary: s)
  case (Cons op ops)
  then show ?case
    using touches_trans [OF touches_upd [OF touches_refl]] by fastforce
qed simp

lemma semop_pass_inside:
  assumes "\<forall>op \<in> set ops. sem_num op < sem_nsems (sema s ! sp)"
    and "semop_pass si c ident sp ops s = (out, s')"
    and "b \<notin> {sem_base (sema s ! sp) ..< sem_base (sema s ! sp) + sem_nsems (sema s ! sp)}"
  shows "sems s' ! b = sems s ! b"
proof -
  let ?base = "sem_base (sema s ! sp)"
  let ?A = "{?base ..< ?base + sem_nsems (sema s ! sp)}"
  have ops: "\<forall>op \<in> set ops. ?base + sem_num op \<in> ?A" using assms(1) by auto
  obtain po s1 where loop: "semop_loop si (p_slot c) ident ?base [] ops s = (po, s1)" by fastforce
  have "touches ?A s s1" using touches_loop [of "[]" ops ?base ?A s si "p_slot c" ident] ops loop by simp
  then have "touches ?A s (stamp_pids (p_pid c) ?base ops s1)" "touches ?A s s1"
    using touches_stamps [OF ops] touches_trans by blast+
  with assms(2,3) loop show ?thesis
    by (auto simp: semop_pass_def Let_def touches_def sem_frame split: pass_out.splits)
qed

lemma semop_verify_Ok: "semop_verify c d ops = Ok () \<Longrightarrow> \<forall>op \<in> set ops. sem_num op < sem_nsems d"
  by (induction ops) (auto split: sum.splits if_splits)

text \<open>A \<open>semop\<close> call, up to its return or its first sleep, changes no semaphore
  outside the set it names, whatever operation list the user supplies.\<close>

theorem semop_stays_in_set:
  assumes "semop si c uap usr s = (out, s')" and "semconv si s (so_semid uap) = Ok sp"
    and "b \<notin> {sem_base (sema s ! sp) ..< sem_base (sema s ! sp) + sem_nsems (sema s ! sp)}"
  shows "sems s' ! b = sems s ! b"
proof (cases "s' = s")
  case False
  with assms(1,2) obtain f where "semop_verify c (sema s ! sp) (map f [0 ..< so_nsops uap]) = Ok ()"
    and "semop_pass si c (so_semid uap) sp (map f [0 ..< so_nsops uap]) s = (out, s')"
    by (auto simp: semop_def Let_def split: if_splits option.splits sum.splits)
  from semop_pass_inside [OF semop_verify_Ok [OF this(1)] this(2) assms(3)] show ?thesis .
qed simp

definition demo_uap :: semop_args where
  "demo_uap = \<lparr>so_semid = 0, so_nsops = 1\<rparr>"

definition demo_stray :: user_ops where
  "demo_stray = Some (\<lambda>i. \<lparr>sem_num = 2, sem_op = 1, sem_flg = 0\<rparr>)"

definition demo_sysv :: proc_ctx where
  "demo_sysv = demo_ctx\<lparr>u_cred := demo_cred\<lparr>cr_uid := 1\<rparr>\<rparr>"

lemmas demo_call_simps = demo_sem_simps semop_def semop_resume_def semconv_def demo_uap_def
  demo_stray_def demo_sysv_def demo_perm_def demo_cred_def demo_sec_def ipcaccess_def
  MAC_ACCESS_def ipc_dacaccess_def ipc_other_def ipc_nodaccess_def SEM_A_def SEM_R_def
  pm_denied_def upd_ds_def P_MACWRITE_def P_MACREAD_def

theorem semop_stays_in_set_witness:
  "sems (snd (semop demo_si demo_sysv demo_uap demo_stray demo_sems)) ! 2 = sems demo_sems ! 2"
proof -
  have run: "semop demo_si demo_sysv demo_uap demo_stray demo_sems =
      (fst (semop demo_si demo_sysv demo_uap demo_stray demo_sems),
       snd (semop demo_si demo_sysv demo_uap demo_stray demo_sems))" by simp
  have conv: "semconv demo_si demo_sems (so_semid demo_uap) = Ok 0" by (simp add: demo_call_simps)
  show ?thesis
    by (rule semop_stays_in_set [OF run conv]) (simp add: demo_sems_def)
qed


end
