(* ===== verification/Sem_Control.thy ===== *)
theory Sem_Control
  imports Semaphores
begin

text \<open>
  \<open>semctl\<close>, \<open>semget\<close>, \<open>seminit\<close> and the entry point \<open>semsys\<close> (\<open>proc/ipc/sem.c\<close>).
  One definition per command of \<open>semctl\<close>; what a command copies in from user memory is a
  field of the argument record (\<open>None\<close> for a fault), \<open>sc_out k\<close> says whether the \<open>k\<close>-th
  copy-out succeeds, and what is copied out is part of the result.
\<close>

section \<open>semctl\<close>

datatype sem_cmd =
    IPC_O_RMID | IPC_RMID | IPC_O_SET | IPC_SET | IPC_O_STAT | IPC_STAT
  | GETNCNT | GETPID | GETVAL | GETALL | GETZCNT | SETVAL | SETALL | BadCmd

record semctl_args =
  sc_semid :: int
  sc_semnum :: nat
  sc_cmd :: sem_cmd
  sc_arg :: int
  sc_set :: "(int \<times> int \<times> bits) option"   \<comment> \<open>uid, gid and mode of the structure copied in\<close>
  sc_vals :: "(nat \<Rightarrow> int) option"          \<comment> \<open>the unsigned shorts at \<open>arg\<close>\<close>
  sc_out :: "nat \<Rightarrow> bool"

datatype sem_ret = RVal int | RAll "int list" | RStat semid_ds

type_synonym sem_result = "sem_ret res \<times> sem_state"

definition sem_owner :: "proc_ctx \<Rightarrow> ipc_perm \<Rightarrow> unit res" where
  "sem_owner c p =
     (case ipcaccess (p_sec c) p (SEM_R OR SEM_A) IPC_MAC (u_cred c) of
        Inl e \<Rightarrow> Err e
      | Inr _ \<Rightarrow>
          if cr_uid (u_cred c) \<noteq> ip_uid p \<and> cr_uid (u_cred c) \<noteq> ip_cuid p
             \<and> pm_denied (u_cred c) P_OWNER
          then Err EPERM else Ok ())"

definition rmid_sem :: "nat \<Rightarrow> sem_state \<Rightarrow> sem_state" where
  "rmid_sem a s = wake_zcnt a (wake_ncnt a (upd_sem a (\<lambda>p. p\<lparr>semval := 0, sempid := 0\<rparr>) s))"

definition semctl_rmid :: "seminfo \<Rightarrow> proc_ctx \<Rightarrow> bool \<Rightarrow> int \<Rightarrow> nat \<Rightarrow> sem_state \<Rightarrow> sem_result" where
  "semctl_rmid si c old_cmd ident sp s =
     (let d = sema s ! sp in
      case sem_owner c (sem_perm d) of
        Inl e \<Rightarrow> (Err e, s)
      | Inr _ \<Rightarrow>
          (let s1 = semunrm ident 0 (sem_nsems d) s;
               s2 = fold rmid_sem [sem_base d ..< sem_base d + sem_nsems d] s1;
               s3 = s2\<lparr>semmap := rm_release (semmap s2) (sem_nsems d) (sem_base d + 1)\<rparr> in
           (Ok (RVal 0),
            upd_ds sp (\<lambda>d. d\<lparr>sem_perm := (sem_perm d)
                \<lparr>ip_seq := ipc_next_seq (semmni si) old_cmd ident (ip_seq (sem_perm d)),
                 ip_mode := 0, ip_dacp := None\<rparr>\<rparr>) s3)))"

text \<open>
  The old and the expanded structure differ in the type of the ids: unsigned shorts in the
  old one, so that only the upper bound is tested there.
\<close>

definition semctl_set :: "proc_ctx \<Rightarrow> bool \<Rightarrow> (int \<times> int \<times> bits) option \<Rightarrow> nat \<Rightarrow> sem_state \<Rightarrow> sem_result" where
  "semctl_set c old_cmd ds sp s =
     (case sem_owner c (sem_perm (sema s ! sp)) of
        Inl e \<Rightarrow> (Err e, s)
      | Inr _ \<Rightarrow>
          (case ds of
             None \<Rightarrow> (Err EFAULT, s)
           | Some (uid, gid, mode) \<Rightarrow>
               if uid > MAXUID \<or> gid > MAXUID \<or> \<not> old_cmd \<and> (uid < 0 \<or> gid < 0)
               then (Err EINVAL, s)
               else (Ok (RVal 0),
                     upd_ds sp (\<lambda>d. d\<lparr>sem_perm := (sem_perm d)
                         \<lparr>ip_uid := uid, ip_gid := gid, ip_mode := (mode AND PERM_MASK) OR IPC_ALLOC\<rparr>,
                       sem_ctime := hrestime c\<rparr>) s)))"

text \<open>Access for reading or altering through the other commands.\<close>

definition sem_allowed :: "proc_ctx \<Rightarrow> ipc_perm \<Rightarrow> bits \<Rightarrow> unit res" where
  "sem_allowed c p mode = ipcaccess (p_sec c) p mode (IPC_MAC OR IPC_DAC) (u_cred c)"

definition old_semid_ds :: "semid_ds \<Rightarrow> semid_ds" where
  "old_semid_ds d =
     d\<lparr>sem_perm := (sem_perm d)\<lparr>ip_uid := u16 (ip_uid (sem_perm d)), ip_gid := u16 (ip_gid (sem_perm d)),
           ip_cuid := u16 (ip_cuid (sem_perm d)), ip_cgid := u16 (ip_cgid (sem_perm d)),
           ip_mode := ip_mode (sem_perm d) AND 65535, ip_seq := u16 (ip_seq (sem_perm d)),
           ip_dacp := None\<rparr>,
       sem_base := 0\<rparr>"

definition semctl_o_stat :: "proc_ctx \<Rightarrow> (nat \<Rightarrow> bool) \<Rightarrow> nat \<Rightarrow> sem_state \<Rightarrow> sem_result" where
  "semctl_o_stat c out sp s =
     (let d = sema s ! sp; p = sem_perm d in
      case sem_allowed c p SEM_R of
        Inl e \<Rightarrow> (Err e, s)
      | Inr _ \<Rightarrow>
          if ip_uid p > USHRT_MAX \<or> ip_gid p > USHRT_MAX \<or> ip_cuid p > USHRT_MAX
             \<or> ip_cgid p > USHRT_MAX \<or> ip_seq p > USHRT_MAX
          then (Err EOVERFLOW, s)
          else if \<not> out 0 then (Err EFAULT, s)
          else (Ok (RStat (old_semid_ds d)), s))"

definition semctl_stat :: "proc_ctx \<Rightarrow> (nat \<Rightarrow> bool) \<Rightarrow> nat \<Rightarrow> sem_state \<Rightarrow> sem_result" where
  "semctl_stat c out sp s =
     (let d = sema s ! sp in
      case sem_allowed c (sem_perm d) SEM_R of
        Inl e \<Rightarrow> (Err e, s)
      | Inr _ \<Rightarrow>
          if \<not> out 0 then (Err EFAULT, s)
          else (Ok (RStat (d\<lparr>sem_perm := (sem_perm d)\<lparr>ip_dacp := None\<rparr>, sem_base := 0\<rparr>)), s))"

text \<open>The four commands that read one number of one semaphore.\<close>

definition semctl_get :: "proc_ctx \<Rightarrow> (semaphore \<Rightarrow> int) \<Rightarrow> nat \<Rightarrow> nat \<Rightarrow> sem_state \<Rightarrow> sem_result" where
  "semctl_get c field num sp s =
     (let d = sema s ! sp in
      case sem_allowed c (sem_perm d) SEM_R of
        Inl e \<Rightarrow> (Err e, s)
      | Inr _ \<Rightarrow>
          if num \<ge> sem_nsems d then (Err EINVAL, s)
          else (Ok (RVal (field (sems s ! (sem_base d + num)))), s))"

fun getall_copy :: "(nat \<Rightarrow> bool) \<Rightarrow> nat \<Rightarrow> semaphore list \<Rightarrow> int list res" where
  "getall_copy out k [] = Ok []"
| "getall_copy out k (p # ps) =
     (if \<not> out k then Err EFAULT
      else case getall_copy out (Suc k) ps of
             Inl e \<Rightarrow> Err e
           | Inr vs \<Rightarrow> Ok (semval p # vs))"

definition semctl_getall :: "proc_ctx \<Rightarrow> (nat \<Rightarrow> bool) \<Rightarrow> nat \<Rightarrow> sem_state \<Rightarrow> sem_result" where
  "semctl_getall c out sp s =
     (let d = sema s ! sp in
      case sem_allowed c (sem_perm d) SEM_R of
        Inl e \<Rightarrow> (Err e, s)
      | Inr _ \<Rightarrow>
          (case getall_copy out 0 (take (sem_nsems d) (drop (sem_base d) (sems s))) of
             Inl e \<Rightarrow> (Err e, s)
           | Inr vs \<Rightarrow> (Ok (RAll vs), s)))"

text \<open>Setting a value wakes those waiting for an increase or those waiting for zero.\<close>

definition sem_setval :: "int \<Rightarrow> nat \<Rightarrow> int \<Rightarrow> sem_state \<Rightarrow> sem_state" where
  "sem_setval pid a v s =
     (let s1 = upd_sem a (\<lambda>p. p\<lparr>semval := u16 v\<rparr>) s;
          s2 = (if u16 v \<noteq> 0 then wake_ncnt a s1 else wake_zcnt a s1) in
      upd_sem a (\<lambda>p. p\<lparr>sempid := pid\<rparr>) s2)"

definition semctl_setval ::
  "seminfo \<Rightarrow> proc_ctx \<Rightarrow> int \<Rightarrow> nat \<Rightarrow> int \<Rightarrow> nat \<Rightarrow> sem_state \<Rightarrow> sem_result" where
  "semctl_setval si c ident num arg sp s =
     (let d = sema s ! sp in
      case sem_allowed c (sem_perm d) SEM_A of
        Inl e \<Rightarrow> (Err e, s)
      | Inr _ \<Rightarrow>
          if num \<ge> sem_nsems d then (Err EINVAL, s)
          else if u32 arg > semvmx si then (Err ERANGE, s)
          else (Ok (RVal 0),
                semunrm ident num num (sem_setval (p_pid c) (sem_base d + num) arg s)))"

fun sem_setvals :: "int \<Rightarrow> nat \<Rightarrow> int list \<Rightarrow> sem_state \<Rightarrow> sem_state" where
  "sem_setvals pid a [] s = s"
| "sem_setvals pid a (v # vs) s = sem_setvals pid (Suc a) vs (sem_setval pid a v s)"

definition semctl_setall ::
  "seminfo \<Rightarrow> proc_ctx \<Rightarrow> int \<Rightarrow> (nat \<Rightarrow> int) option \<Rightarrow> nat \<Rightarrow> sem_state \<Rightarrow> sem_result" where
  "semctl_setall si c ident usr sp s =
     (let d = sema s ! sp in
      case sem_allowed c (sem_perm d) SEM_A of
        Inl e \<Rightarrow> (Err e, s)
      | Inr _ \<Rightarrow>
          if sem_nsems d = 0 then (Err ENOMEM, s)
          else
            case usr of
              None \<Rightarrow> (Err EFAULT, s)
            | Some f \<Rightarrow>
                (let vals = map (\<lambda>i. u16 (f i)) [0 ..< sem_nsems d] in
                 if \<exists>v \<in> set vals. v > semvmx si then (Err ERANGE, s)
                 else (Ok (RVal 0),
                       sem_setvals (p_pid c) (sem_base d) vals (semunrm ident 0 (sem_nsems d) s))))"

definition semctl :: "seminfo \<Rightarrow> proc_ctx \<Rightarrow> semctl_args \<Rightarrow> sem_state \<Rightarrow> sem_result" where
  "semctl si c uap s =
     (case semconv si s (sc_semid uap) of
        Inl e \<Rightarrow> (Err e, s)
      | Inr sp \<Rightarrow>
          (case sc_cmd uap of
             IPC_O_RMID \<Rightarrow> semctl_rmid si c True (sc_semid uap) sp s
           | IPC_RMID \<Rightarrow> semctl_rmid si c False (sc_semid uap) sp s
           | IPC_O_SET \<Rightarrow> semctl_set c True (sc_set uap) sp s
           | IPC_SET \<Rightarrow> semctl_set c False (sc_set uap) sp s
           | IPC_O_STAT \<Rightarrow> semctl_o_stat c (sc_out uap) sp s
           | IPC_STAT \<Rightarrow> semctl_stat c (sc_out uap) sp s
           | GETNCNT \<Rightarrow> semctl_get c semncnt (sc_semnum uap) sp s
           | GETPID \<Rightarrow> semctl_get c sempid (sc_semnum uap) sp s
           | GETVAL \<Rightarrow> semctl_get c semval (sc_semnum uap) sp s
           | GETALL \<Rightarrow> semctl_getall c (sc_out uap) sp s
           | GETZCNT \<Rightarrow> semctl_get c semzcnt (sc_semnum uap) sp s
           | SETVAL \<Rightarrow> semctl_setval si c (sc_semid uap) (sc_semnum uap) (sc_arg uap) sp s
           | SETALL \<Rightarrow> semctl_setall si c (sc_semid uap) (sc_vals uap) sp s
           | BadCmd \<Rightarrow> (Err EINVAL, s)))"

section \<open>semget, seminit and the entry point\<close>

record semget_args =
  sg_key :: int
  sg_nsems :: int
  sg_semflg :: bits

definition sem_set_perm :: "nat \<Rightarrow> ipc_perm \<Rightarrow> sem_state \<Rightarrow> sem_state" where
  "sem_set_perm sp p = upd_ds sp (\<lambda>d. d\<lparr>sem_perm := p\<rparr>)"

definition sem_drop_mode :: "nat \<Rightarrow> sem_state \<Rightarrow> sem_state" where
  "sem_drop_mode sp = upd_ds sp (\<lambda>d. d\<lparr>sem_perm := (sem_perm d)\<lparr>ip_mode := 0\<rparr>\<rparr>)"

definition semget :: "seminfo \<Rightarrow> proc_ctx \<Rightarrow> semget_args \<Rightarrow> sem_state \<Rightarrow> int res \<times> sem_state" where
  "semget si c uap s =
     (case ipcget (p_sec c) (u_cred c) (sg_key uap) (sg_semflg uap) (sem_perms s) of
        Inl e \<Rightarrow> (Err e, s)
      | Inr (sp, created, base') \<Rightarrow>
          (let s0 = sem_set_perm sp (base' ! sp) s;
               ret = (\<lambda>s. Ok (ipc_id (semmni si) (ip_seq (sem_perm (sema s ! sp))) sp)) in
           if created then
             (if sg_nsems uap \<le> 0 \<or> sg_nsems uap > semmsl si
              then (Err EINVAL, sem_drop_mode sp s0)
              else
                case rmalloc (semmap s0) (nat (sg_nsems uap)) of
                  (i, map') \<Rightarrow>
                    if i = 0 then (Err ENOSPC, sem_drop_mode sp s0)
                    else
                      (let s1 = upd_ds sp (\<lambda>d. d\<lparr>sem_base := i - 1,
                                   sem_nsems := nat (u16 (sg_nsems uap)),
                                   sem_ctime := hrestime c, sem_otime := 0\<rparr>)
                                 (s0\<lparr>semmap := map'\<rparr>) in
                       (ret s1, s1)))
           else if sg_nsems uap \<noteq> 0 \<and> int (sem_nsems (sema s0 ! sp)) < u32 (sg_nsems uap)
           then (Err EINVAL, s0)
           else (ret s0, s0)))"

text \<open>
  The state at boot: \<open>semu\<close> is zeroed memory, its structures chained in order; the security
  structures are allocated so that every set has one without a list.
\<close>

definition zero_perm :: ipc_perm where
  "zero_perm = \<lparr>ip_uid = 0, ip_gid = 0, ip_cuid = 0, ip_cgid = 0, ip_mode = 0, ip_seq = 0,
     ip_key = 0, ip_dacp = None, ip_lid = 0\<rparr>"

definition seminit :: "seminfo \<Rightarrow> nat \<Rightarrow> sem_state" where
  "seminit si nproc =
     \<lparr>sema = replicate (semmni si)
        \<lparr>sem_perm = zero_perm, sem_base = 0, sem_nsems = 0, sem_otime = 0, sem_ctime = 0\<rparr>,
      sems = replicate (semmns si) \<lparr>semval = 0, sempid = 0, semncnt = 0, semzcnt = 0\<rparr>,
      semmap = rm_release (mapinit (rm_zeroed (semmapsz si)) (semmapsz si)) (semmns si) 1,
      semu = replicate (semmnu si) [],
      semunp = [], semfup = [0 ..< semmnu si],
      sem_undo = replicate nproc None, woken = []\<rparr>"

datatype semsys_args =
    SEMCTL semctl_args | SEMGET semget_args | SEMOP semop_args user_ops | SEMBAD

datatype semsys_out = SemRet "sem_ret res" | SemSleep sem_chan

definition semsys ::
  "seminfo \<Rightarrow> proc_ctx \<Rightarrow> semsys_args \<Rightarrow> sem_state \<Rightarrow> semsys_out \<times> sem_state" where
  "semsys si c uap s =
     (case uap of
        SEMCTL a \<Rightarrow> (case semctl si c a s of (r, s') \<Rightarrow> (SemRet r, s'))
      | SEMGET a \<Rightarrow> (case semget si c a s of (r, s') \<Rightarrow> (SemRet (map_sum id RVal r), s'))
      | SEMOP a usr \<Rightarrow>
          (case semop si c a usr s of
             (SemopRet r, s') \<Rightarrow> (SemRet (map_sum id RVal r), s')
           | (SemopSleep ch, s') \<Rightarrow> (SemSleep ch, s'))
      | SEMBAD \<Rightarrow> (SemRet (Err EINVAL), s))"

section \<open>Identifiers of sets\<close>

interpretation sem_ids: object_table "\<lambda>s i. sem_perm (sema s ! i)" "\<lambda>s. semmni si" "semconv si" for si
  by unfold_locales (auto simp: semconv_def ipc_alloc_def Let_def)

lemma semconv_cong: "sema t = sema s \<Longrightarrow> semconv si t = semconv si s"
  by (simp add: semconv_def fun_eq_iff)

text \<open>Whether an identifier is live depends on the mode and the sequence number of its slot.\<close>

lemma semconv_upd_other:
  assumes "semconv si s x = Ok i" and "i \<noteq> sp"
  shows "semconv si (upd_ds sp f s) x = Ok i"
  using assms sem_ids.conv_Ok [OF assms(1)] sem_ids.conv_slot [of x si] by (auto simp: upd_ds_def)

lemma semconv_upd_same:
  assumes "ipc_alloc (sem_perm (f (sema s ! sp))) = ipc_alloc (sem_perm (sema s ! sp))"
    and "ip_seq (sem_perm (f (sema s ! sp))) = ip_seq (sem_perm (sema s ! sp))"
  shows "semconv si (upd_ds sp f s) = semconv si s"
proof
  fix x
  have "ipc_alloc (sem_perm (sema (upd_ds sp f s) ! i)) = ipc_alloc (sem_perm (sema s ! i))
    \<and> ip_seq (sem_perm (sema (upd_ds sp f s) ! i)) = ip_seq (sem_perm (sema s ! i))" for i
    using assms
    by (cases "i = sp"; cases "sp < length (sema s)") (simp_all add: upd_ds_def list_update_beyond)
  then show "semconv si (upd_ds sp f s) x = semconv si s x"
    using sem_ids.conv_neg [of x si] sem_ids.conv_slot [of x si] by (cases "x < 0") simp_all
qed

section \<open>The sets own disjoint parts of the semaphore array\<close>

definition set_ext :: "semid_ds \<Rightarrow> nat \<times> nat" where
  "set_ext d = (if ipc_alloc (sem_perm d) then (sem_base d + 1, sem_nsems d) else (0, 0))"

definition sets_ok :: "seminfo \<Rightarrow> sem_state \<Rightarrow> bool" where
  "sets_ok si s \<longleftrightarrow> rmap_ok (semmap s)
     \<and> units_ok (map set_ext (sema s)) (free_units (semmap s)) {1 ..< 1 + semmns si}
     \<and> length (sema s) = semmni si \<and> length (sems s) = semmns si
     \<and> (\<forall>d \<in> set (sema s). ipc_alloc (sem_perm d) \<longrightarrow> 0 < sem_nsems d)"

definition sem_limits :: "seminfo \<Rightarrow> bool" where
  "sem_limits si \<longleftrightarrow> undo_limits si \<and> 0 < semmni si \<and> 2 * int (semmni si) \<le> SHRT_MAX
     \<and> 3 \<le> semmapsz si \<and> semmns si < 4294967295 \<and> semmsl si \<le> USHRT_MAX
     \<and> 0 \<le> semvmx si \<and> semvmx si \<le> USHRT_MAX"

lemma sets_ok_range:
  assumes "sets_ok si s" and "sp < length (sema s)" and "ipc_alloc (sem_perm (sema s ! sp))"
  shows "sem_base (sema s ! sp) + sem_nsems (sema s ! sp) \<le> length (sems s)"
    "0 < sem_nsems (sema s ! sp)"
proof -
  let ?d = "sema s ! sp"
  have mem: "?d \<in> set (sema s)" using assms(2) by simp
  then show pos: "0 < sem_nsems ?d" using assms by (auto simp: sets_ok_def)
  have "set_ext ?d \<in> set (map set_ext (sema s))" using mem by simp
  then obtain xs ys where split: "map set_ext (sema s) = xs @ set_ext ?d # ys"
    by (metis split_list)
  have ok: "units_ok (xs @ set_ext ?d # ys) (free_units (semmap s)) {1 ..< 1 + semmns si}"
    using assms(1) split by (simp add: sets_ok_def)
  have "sem_base ?d + sem_nsems ?d \<in> ext (set_ext ?d)"
    using assms(3) pos by (simp add: set_ext_def ext_def)
  from units_ok_disjoint(2) [OF ok this] assms(1) show "sem_base ?d + sem_nsems ?d \<le> length (sems s)"
    by (simp add: sets_ok_def)
qed

lemma sets_ok_disjoint:
  assumes "sets_ok si s" and "i < length (sema s)" and "j < length (sema s)" and "i \<noteq> j"
    and "ipc_alloc (sem_perm (sema s ! i))" and "ipc_alloc (sem_perm (sema s ! j))"
    and "n < sem_nsems (sema s ! i)" and "m < sem_nsems (sema s ! j)"
  shows "sem_base (sema s ! i) + n \<noteq> sem_base (sema s ! j) + m"
proof
  assume eq: "sem_base (sema s ! i) + n = sem_base (sema s ! j) + m"
  have "ext (set_ext (sema s ! i)) \<inter> ext (set_ext (sema s ! j)) = {}"
    using units_ok_other_extents [of "map set_ext (sema s)" "free_units (semmap s)"
        "{1 ..< 1 + semmns si}" i j] assms(1-4)
    unfolding sets_ok_def by simp
  moreover have "sem_base (sema s ! i) + 1 + n \<in> ext (set_ext (sema s ! i))"
    using assms(5,7) by (simp add: set_ext_def ext_def)
  moreover have "sem_base (sema s ! i) + 1 + n \<in> ext (set_ext (sema s ! j))"
    using assms(6,8) eq by (simp add: set_ext_def ext_def)
  ultimately show False by blast
qed

lemma map_ext_update:
  "sp < length ds \<Longrightarrow> map set_ext (ds[sp := d]) =
     take sp (map set_ext ds) @ set_ext d # drop (Suc sp) (map set_ext ds)"
  by (simp add: upd_conv_take_nth_drop take_map drop_map)

lemma map_ext_split:
  "sp < length ds \<Longrightarrow> map set_ext ds =
     take sp (map set_ext ds) @ set_ext (ds ! sp) # drop (Suc sp) (map set_ext ds)"
  using id_take_nth_drop [of sp "map set_ext ds"] by simp

lemma sets_ok_same:
  assumes "sets_ok si s" and "map set_ext (sema s') = map set_ext (sema s)"
    and "semmap s' = semmap s" and "length (sems s') = length (sems s)"
    and "\<And>d. d \<in> set (sema s') \<Longrightarrow> ipc_alloc (sem_perm d) \<Longrightarrow> 0 < sem_nsems d"
  shows "sets_ok si s'"
  using assms map_eq_imp_length_eq [OF assms(2)] by (auto simp: sets_ok_def)

text \<open>Creating a set and removing one, as changes of the owned extents.\<close>

lemma sets_ok_create:
  assumes ok: "sets_ok si s" and sp: "sp < length (sema s)"
    and free: "\<not> ipc_alloc (sem_perm (sema s ! sp))"
    and run: "rmalloc (semmap s) n = (i, map')" and i: "0 < i" and n: "0 < n"
    and d: "ipc_alloc (sem_perm d)" "sem_base d = i - 1" "sem_nsems d = n"
    and s': "sema s' = (sema s)[sp := d]" "semmap s' = map'" "length (sems s') = length (sems s)"
  shows "sets_ok si s'"
proof -
  let ?F = "free_units (semmap s)" and ?T = "{1 ..< 1 + semmns si}"
  let ?xs = "take sp (map set_ext (sema s))" and ?ys = "drop (Suc sp) (map set_ext (sema s))"
  have rm: "rmap_ok (semmap s)" using ok by (simp add: sets_ok_def)
  have "set_ext (sema s ! sp) = (0, 0)" using free by (simp add: set_ext_def)
  then have "units_ok (?xs @ (0, 0) # ?ys) ?F ?T"
    using ok map_ext_split [OF sp] by (simp add: sets_ok_def)
  then have "units_ok (?xs @ ?ys) ?F ?T" by (rule units_ok_permute) simp
  from rm.alloc_units_ok [OF rm this run i]
  have "units_ok ((i, n) # ?xs @ ?ys) (free_units map') ?T" .
  then have "units_ok (?xs @ (i, n) # ?ys) (free_units map') ?T"
    by (rule units_ok_permute) simp
  moreover have "map set_ext (sema s') = ?xs @ (i, n) # ?ys"
    using d i s'(1) map_ext_update [OF sp] by (simp add: set_ext_def)
  ultimately have "units_ok (map set_ext (sema s')) (free_units (semmap s')) ?T"
    using s'(2) by simp
  moreover have "\<forall>d' \<in> set (sema s'). ipc_alloc (sem_perm d') \<longrightarrow> 0 < sem_nsems d'"
    using ok n d(3) s'(1) set_update_subset_insert [of "sema s" sp d] by (auto simp: sets_ok_def)
  ultimately show ?thesis
    using ok rm.alloc_invar [OF rm run] s' by (simp add: sets_ok_def)
qed

lemma sets_ok_remove:
  assumes lim: "sem_limits si" and ok: "sets_ok si s" and sp: "sp < length (sema s)"
    and live: "ipc_alloc (sem_perm (sema s ! sp))"
    and d: "\<not> ipc_alloc (sem_perm d)"
    and s': "sema s' = (sema s)[sp := d]" "length (sems s') = length (sems s)"
      "semmap s' = rm_release (semmap s) (sem_nsems (sema s ! sp)) (sem_base (sema s ! sp) + 1)"
  shows "sets_ok si s'"
proof -
  let ?F = "free_units (semmap s)" and ?T = "{1 ..< 1 + semmns si}"
  let ?xs = "take sp (map set_ext (sema s))" and ?ys = "drop (Suc sp) (map set_ext (sema s))"
  let ?a = "sem_base (sema s ! sp) + 1" and ?n = "sem_nsems (sema s ! sp)"
  have rm: "rmap_ok (semmap s)" using ok by (simp add: sets_ok_def)
  have "set_ext (sema s ! sp) = (?a, ?n)" using live by (simp add: set_ext_def)
  then have units: "units_ok (?xs @ (?a, ?n) # ?ys) ?F ?T"
    using ok map_ext_split [OF sp] by (simp add: sets_ok_def)
  have "?a + ?n < 4294967296"
    using sets_ok_range [OF ok sp live] lim ok by (simp add: sem_limits_def sets_ok_def)
  from rm.release_units_ok [OF rm units _ this]
  have rel: "rmap_ok (semmap s')" "units_ok (?xs @ ?ys) (free_units (semmap s')) ?T"
    using s'(3) by simp_all
  then have "units_ok (?xs @ (0, 0) # ?ys) (free_units (semmap s')) ?T"
    by (intro units_ok_permute [OF rel(2)]) simp
  moreover have "map set_ext (sema s') = ?xs @ (0, 0) # ?ys"
    using d s'(1) map_ext_update [OF sp] by (simp add: set_ext_def)
  moreover have "\<forall>d' \<in> set (sema s'). ipc_alloc (sem_perm d') \<longrightarrow> 0 < sem_nsems d'"
    using ok d s'(1) set_update_subset_insert [of "sema s" sp d] by (auto simp: sets_ok_def)
  ultimately show ?thesis using ok rel(1) s' by (simp add: sets_ok_def)
qed

end
