(* ===== verification/Sem_Invariant.thy ===== *)
theory Sem_Invariant
  imports Sem_Control
begin

text \<open>
  The invariant of the semaphore facility: what \<open>seminit\<close> establishes and every system
  call, every resumption of a sleeper and every process exit keeps.  It ties the parts
  together: the sets own disjoint runs of the semaphore array, all values are in range, the
  undo tables are well-formed, and an undo entry always names a semaphore of a live set.
\<close>

definition entries_live :: "seminfo \<Rightarrow> sem_state \<Rightarrow> bool" where
  "entries_live si s \<longleftrightarrow> (\<forall>i < length (sem_undo s). \<forall>k. adj s i k \<noteq> 0 \<longrightarrow>
     (\<exists>sp. semconv si s (fst k) = Ok sp \<and> snd k < sem_nsems (sema s ! sp)))"

definition seqs_ok :: "seminfo \<Rightarrow> sem_state \<Rightarrow> bool" where
  "seqs_ok si s \<longleftrightarrow> (\<forall>i < length (sema s). seq_ok (semmni si) i (ip_seq (sem_perm (sema s ! i))))"

definition sem_inv :: "seminfo \<Rightarrow> nat \<Rightarrow> sem_state \<Rightarrow> bool" where
  "sem_inv si nproc s \<longleftrightarrow> sem_limits si \<and> undo_tables_ok si s \<and> length (sem_undo s) = nproc
     \<and> sem_vals_ok si s \<and> sets_ok si s \<and> entries_live si s \<and> seqs_ok si s"

lemma sem_invD:
  assumes "sem_inv si nproc s"
  shows "sem_limits si" "undo_tables_ok si s" "length (sem_undo s) = nproc" "sem_vals_ok si s"
    "vals16 s" "sets_ok si s" "entries_live si s" "seqs_ok si s" "owners_ok s"
  using assms sem_vals_ok_vals16 by (auto simp: sem_inv_def undo_tables_ok_def)

text \<open>A step that leaves the sets alone.\<close>

lemma sem_inv_same_sets:
  assumes inv: "sem_inv si nproc s"
    and sets: "sema s' = sema s" "semmap s' = semmap s" "length (sems s') = length (sems s)"
    and undo: "undo_tables_ok si s'" "length (sem_undo s') = length (sem_undo s)"
    and vals: "sem_vals_ok si s'"
    and entries: "\<And>i k. i < length (sem_undo s) \<Longrightarrow> adj s' i k \<noteq> 0 \<Longrightarrow>
      adj s i k \<noteq> 0 \<or> (\<exists>sp. semconv si s (fst k) = Ok sp \<and> snd k < sem_nsems (sema s ! sp))"
  shows "sem_inv si nproc s'"
proof -
  have "entries_live si s'"
    using sem_invD(7) [OF inv] entries undo(2) sets(1) semconv_cong [OF sets(1)]
    unfolding entries_live_def by metis
  moreover have "sets_ok si s'" using sem_invD(6) [OF inv] sets by (simp add: sets_ok_def)
  ultimately show ?thesis using inv undo vals sets(1) by (simp add: sem_inv_def seqs_ok_def)
qed

text \<open>A change of one set's descriptor that keeps its extent, its mode's allocation bit and
  its sequence number.\<close>

lemma map_upd_same: "g (f (xs ! i)) = g (xs ! i) \<Longrightarrow> map g (xs[i := f (xs ! i)]) = map g xs"
  by (cases "i < length xs") (simp_all add: map_update list_update_same_conv list_update_beyond)

lemma set_upd_cases: "x \<in> set (xs[i := f (xs ! i)]) \<Longrightarrow> x \<in> set xs \<or> xs ! i \<in> set xs \<and> x = f (xs ! i)"
  using set_update_subset_insert [of xs i "f (xs ! i)"]
  by (cases "i < length xs") (auto simp: list_update_beyond)

lemma sem_inv_upd_ds:
  assumes inv: "sem_inv si nproc s"
    and f: "ipc_alloc (sem_perm (f (sema s ! sp))) = ipc_alloc (sem_perm (sema s ! sp))"
      "ip_seq (sem_perm (f (sema s ! sp))) = ip_seq (sem_perm (sema s ! sp))"
      "sem_base (f (sema s ! sp)) = sem_base (sema s ! sp)"
      "sem_nsems (f (sema s ! sp)) = sem_nsems (sema s ! sp)"
  shows "sem_inv si nproc (upd_ds sp f s)"
proof -
  let ?s' = "upd_ds sp f s"
  have ext: "map set_ext (sema ?s') = map set_ext (sema s)"
    unfolding upd_ds_def by (simp, intro map_upd_same) (simp add: set_ext_def f)
  have at: "sem_nsems (sema ?s' ! i) = sem_nsems (sema s ! i)"
    "ip_seq (sem_perm (sema ?s' ! i)) = ip_seq (sem_perm (sema s ! i))" for i
    using f by (cases "i = sp"; cases "sp < length (sema s)"; simp add: upd_ds_def list_update_beyond)+
  have pos: "0 < sem_nsems d" if "d \<in> set (sema ?s')" "ipc_alloc (sem_perm d)" for d
    using set_upd_cases [of d "sema s" sp f] that sem_invD(6) [OF inv] f
    by (auto simp: upd_ds_def sets_ok_def)
  have "sets_ok si ?s'"
    using sets_ok_same [OF sem_invD(6) [OF inv] ext _ _ pos] by (simp add: sem_frame)
  moreover have "entries_live si ?s'"
    using sem_invD(7) [OF inv] semconv_upd_same [of f s sp si, OF f(1,2)] at
    by (simp add: entries_live_def sem_frame adj_same [of ?s' s])
  moreover have "seqs_ok si ?s'"
    using sem_invD(8) [OF inv] at by (simp add: seqs_ok_def sem_frame)
  ultimately show ?thesis using inv by (simp add: sem_inv_def sem_frame sem_vals_ok_def)
qed

lemma conv_in_range:
  assumes "sem_inv si nproc s" and "semconv si s ident = Ok sp"
  shows "sp < length (sema s)" "ipc_alloc (sem_perm (sema s ! sp))"
  using sem_ids.conv_lt [OF assms(2)] sem_ids.conv_Ok [OF assms(2)] assms(1)
  by (auto simp: sem_inv_def sem_limits_def sets_ok_def)

section \<open>semop\<close>

lemma semop_pass_inv:
  assumes inv: "sem_inv si nproc s" and slot: "p_slot c < nproc"
    and conv: "semconv si s ident = Ok sp"
    and ops: "\<forall>op \<in> set ops. sem_num op < sem_nsems (sema s ! sp)"
    and run: "semop_pass si c ident sp ops s = (out, s')"
  shows "sem_inv si nproc s'"
proof -
  note D = sem_invD [OF inv]
  have slot': "p_slot c < length (sem_undo s)" using slot D(3) by simp
  let ?base = "sem_base (sema s ! sp)"
  note sp = conv_in_range [OF inv conv]
  have range: "\<forall>op \<in> set ops. ?base + sem_num op < length (sems s)"
    using ops sets_ok_range(1) [OF D(6) sp] by fastforce
  obtain po s1 where loop: "semop_loop si (p_slot c) ident ?base [] ops s = (po, s1)" by fastforce
  note und = semop_loop_undoable [OF undoable_start [OF D(2) slot' D(5)] loop]
  show ?thesis
  proof (cases "po = PassDone")
    case False
    with loop run have s': "s' = s1" by (auto simp: semop_pass_def Let_def split: pass_out.splits)
    from und False have same: "same_sems si (p_slot c) s s'" by (simp add: s')
    then have len: "length (sems s') = length (sems s)"
      by (metis length_semvals same_sems_def)
    show ?thesis
      using same len D(4) undo_ext_adj [OF D(2)]
      by (intro sem_inv_same_sets [OF inv]) (auto simp: same_sems_def sem_vals_ok_def undo_ext_def)
  next
    case True
    note acc = semop_loop_accounts [OF D(2) slot' D(4) range loop [unfolded True]]
    have vals: "sem_vals_ok si s1"
      using semop_loop_spec [OF D(2) slot' D(4) range loop, of "\<lambda>a. semvals s ! a"] True by simp
    have fine: "snd k < sem_nsems (sema s ! sp)" if "op_sum posts (snd k) ops \<noteq> 0" for k :: "int \<times> nat"
    proof (rule ccontr)
      assume "\<not> snd k < sem_nsems (sema s ! sp)"
      then have "filter (\<lambda>op. sem_num op = snd k \<and> posts op) ops = []"
        using ops by (auto simp: filter_empty_conv)
      with that show False by (simp add: op_sum_def)
    qed
    have inv1: "sem_inv si nproc s1"
    proof (rule sem_inv_same_sets [OF inv])
      show "sema s1 = sema s" "semmap s1 = semmap s" "length (sems s1) = length (sems s)"
        "undo_tables_ok si s1" "length (sem_undo s1) = length (sem_undo s)"
        using und True by (simp_all add: undoable_def undo_ext_def)
      show "sem_vals_ok si s1" by (rule vals)
      fix i k assume "i < length (sem_undo s)" "adj s1 i k \<noteq> 0"
      then show "adj s i k \<noteq> 0 \<or> (\<exists>sp. semconv si s (fst k) = Ok sp \<and> snd k < sem_nsems (sema s ! sp))"
        using acc fine [of k] conv
        by (cases "fst k = ident \<and> op_sum posts (snd k) ops \<noteq> 0"; cases k) (auto split: if_splits)
    qed
    let ?s2 = "stamp_pids (p_pid c) ?base ops s1"
    have inv2: "sem_inv si nproc ?s2"
      using D(3) sem_invD(2-4) [OF inv1]
      by (intro sem_inv_same_sets [OF inv1])
         (simp_all add: stamp_pids_frame sem_vals_ok_def adj_same [of ?s2 s1])
    have s': "s' = upd_ds sp (\<lambda>d. d\<lparr>sem_otime := hrestime c\<rparr>) ?s2"
      using loop run True by (simp add: semop_pass_def)
    show ?thesis unfolding s' by (rule sem_inv_upd_ds [OF inv2]) simp_all
  qed
qed

lemma semop_inv:
  assumes inv: "sem_inv si nproc s" and slot: "p_slot c < nproc"
    and run: "semop si c uap usr s = (out, s')"
  shows "sem_inv si nproc s'"
proof (cases "s' = s")
  case False
  with run obtain f sp where conv: "semconv si s (so_semid uap) = Ok sp"
    and "semop_verify c (sema s ! sp) (map f [0 ..< so_nsops uap]) = Ok ()"
    and "semop_pass si c (so_semid uap) sp (map f [0 ..< so_nsops uap]) s = (out, s')"
    by (auto simp: semop_def Let_def split: if_splits option.splits sum.splits)
  from semop_pass_inv [OF inv slot conv semop_verify_Ok [OF this(2)] this(3)] show ?thesis .
qed (use inv in simp)

lemma sem_count_down_frame:
  "semu (sem_count_down ch s) = semu s" "sem_undo (sem_count_down ch s) = sem_undo s"
  "sema (sem_count_down ch s) = sema s" "semmap (sem_count_down ch s) = semmap s"
  "semvals (sem_count_down ch s) = semvals s"
  "undo_tables_ok si (sem_count_down ch s) = undo_tables_ok si s"
  "length (sems (sem_count_down ch s)) = length (sems s)"
proof -
  have logged: "semvals (t\<lparr>woken := w\<rparr>) = semvals t" "undo_tables_ok si (t\<lparr>woken := w\<rparr>) = undo_tables_ok si t"
    for t w by (simp_all add: semvals_def undo_tables_ok_def owners_ok_def)
  show "semu (sem_count_down ch s) = semu s" "sem_undo (sem_count_down ch s) = sem_undo s"
    "sema (sem_count_down ch s) = sema s" "semmap (sem_count_down ch s) = semmap s"
    "semvals (sem_count_down ch s) = semvals s"
    "undo_tables_ok si (sem_count_down ch s) = undo_tables_ok si s"
    "length (sems (sem_count_down ch s)) = length (sems s)"
    by (cases ch; simp add: sem_frame semvals_upd logged)+
qed

lemma semop_resume_inv:
  assumes inv: "sem_inv si nproc s" and slot: "p_slot c < nproc"
    and sp: "\<And>i. semconv si s (so_semid uap) = Ok i \<Longrightarrow> i = sp"
    and ops: "\<And>f op. usr = Some f \<Longrightarrow> op \<in> set (map f [0 ..< so_nsops uap]) \<Longrightarrow>
      sem_num op < sem_nsems (sema s ! sp)"
    and run: "semop_resume si c uap sp ch intr usr s = (out, s')"
  shows "sem_inv si nproc s'"
proof (cases intr)
  case True
  with run have s': "s' = sem_count_down ch s" by (simp add: semop_resume_def)
  show ?thesis
    unfolding s' using sem_invD [OF inv]
    by (intro sem_inv_same_sets [OF inv])
       (simp_all add: sem_count_down_frame sem_vals_ok_def adj_same [of "sem_count_down ch s" s])
next
  case False
  show ?thesis
  proof (cases "s' = s")
    case True
    with inv show ?thesis by simp
  next
    case changed: False
    with run False obtain f i where conv: "semconv si s (so_semid uap) = Ok i" "usr = Some f"
      and pass: "semop_pass si c (so_semid uap) sp (map f [0 ..< so_nsops uap]) s = (out, s')"
      by (auto simp: semop_resume_def split: option.splits sum.splits)
    from semop_pass_inv [OF inv slot _ _ pass] conv sp ops show ?thesis by simp
  qed
qed

section \<open>semexit\<close>

text \<open>The address an entry adjusts, and what it does to the value there.\<close>

definition entry_addr :: "seminfo \<Rightarrow> sem_state \<Rightarrow> undo \<Rightarrow> nat option" where
  "entry_addr si s e =
     (case semconv si s (un_id e) of Inl _ \<Rightarrow> None | Inr sp \<Rightarrow> Some (sem_base (sema s ! sp) + un_num e))"

definition adjusted :: "int \<Rightarrow> int \<Rightarrow> int \<Rightarrow> int" where
  "adjusted vmx v d = (if 0 \<le> v + d \<and> v + d \<le> vmx then v + d else v)"

definition semexit_one :: "seminfo \<Rightarrow> undo \<Rightarrow> sem_state \<Rightarrow> sem_state" where
  "semexit_one si e s = semexit_ents si [e] s"

lemma semexit_ents_Cons: "semexit_ents si (e # es) s = semexit_ents si es (semexit_one si e s)"
  by (simp add: semexit_one_def)

lemma semexit_one_frame:
  "sema (semexit_one si e s) = sema s" "semmap (semexit_one si e s) = semmap s"
  "semu (semexit_one si e s) = semu s" "semunp (semexit_one si e s) = semunp s"
  "semfup (semexit_one si e s) = semfup s" "sem_undo (semexit_one si e s) = sem_undo s"
  "length (sems (semexit_one si e s)) = length (sems s)"
  by (simp_all add: semexit_one_def Let_def sem_frame split: sum.splits)

lemma semvals_set:
  "semvals (upd_sem a (\<lambda>p. p\<lparr>semval := v\<rparr>) s) = (semvals s)[a := v]"
  by (cases "a < length (sems s)") (simp_all add: semvals_def upd_sem_def map_update list_update_beyond)

lemma semexit_one_vals:
  assumes "sem_vals_ok si s" and "entry_addr si s e = Some a" and "a < length (sems s)"
  shows "semvals (semexit_one si e s) = (semvals s)[a := adjusted (semvmx si) (semvals s ! a) (un_aoe e)]"
proof -
  from assms(2) obtain sp where sp: "semconv si s (un_id e) = Ok sp"
    "a = sem_base (sema s ! sp) + un_num e"
    by (auto simp: entry_addr_def split: sum.splits)
  have vmx: "semvmx si \<le> 65535" using assms(1) by (simp add: sem_vals_ok_def)
  show ?thesis
    using sp assms(3) vmx
    by (auto simp: semexit_one_def Let_def adjusted_def semvals_set semval_semvals u16_id)
qed

lemma semexit_one_vals_ok:
  assumes "sem_vals_ok si s" and "entry_addr si s e = Some a" and "a < length (sems s)"
  shows "sem_vals_ok si (semexit_one si e s)"
proof (rule sem_vals_ok_update [OF assms(1) semexit_one_vals [OF assms]])
  have "0 \<le> semvals s ! a \<and> semvals s ! a \<le> semvmx si"
    using assms(1,3) by (auto simp: sem_vals_ok_def)
  then show "0 \<le> adjusted (semvmx si) (semvals s ! a) (un_aoe e)"
    "adjusted (semvmx si) (semvals s ! a) (un_aoe e) \<le> semvmx si"
    by (auto simp: adjusted_def)
qed

lemma semexit_ents_frame:
  "sema (semexit_ents si es s) = sema s" "semmap (semexit_ents si es s) = semmap s"
  "semu (semexit_ents si es s) = semu s" "semunp (semexit_ents si es s) = semunp s"
  "semfup (semexit_ents si es s) = semfup s" "sem_undo (semexit_ents si es s) = sem_undo s"
  "length (sems (semexit_ents si es s)) = length (sems s)"
  by (induction es arbitrary: s)
     (simp_all only: semexit_ents_Cons semexit_one_frame semexit_ents.simps(1))

lemma entry_addr_cong: "sema t = sema s \<Longrightarrow> entry_addr si t e = entry_addr si s e"
  by (simp add: entry_addr_def semconv_cong [of t s] split: sum.splits)

lemma semexit_ents_vals:
  assumes "sem_vals_ok si s"
    and "\<And>e. e \<in> set es \<Longrightarrow> \<exists>a < length (sems s). entry_addr si s e = Some a"
    and "distinct (map (entry_addr si s) es)"
  shows "sem_vals_ok si (semexit_ents si es s)
    \<and> (\<forall>e \<in> set es. \<forall>a. entry_addr si s e = Some a \<longrightarrow>
        semvals (semexit_ents si es s) ! a = adjusted (semvmx si) (semvals s ! a) (un_aoe e))
    \<and> (\<forall>a. (\<forall>e \<in> set es. entry_addr si s e \<noteq> Some a) \<longrightarrow>
        semvals (semexit_ents si es s) ! a = semvals s ! a)"
  using assms
proof (induction es arbitrary: s)
  case Nil
  then show ?case by simp
next
  case (Cons e es)
  from Cons.prems(2) [of e] obtain a where a: "a < length (sems s)" "entry_addr si s e = Some a" by auto
  let ?s1 = "semexit_one si e s"
  have addr: "entry_addr si ?s1 = entry_addr si s"
    using entry_addr_cong [OF semexit_one_frame(1)] by (rule ext)
  note vals = semexit_one_vals [OF Cons.prems(1) a(2,1)]
  have "sem_vals_ok si ?s1" by (rule semexit_one_vals_ok [OF Cons.prems(1) a(2,1)])
  from Cons.IH [OF this] Cons.prems(2,3) addr
  have IH: "sem_vals_ok si (semexit_ents si es ?s1)"
    "\<forall>e \<in> set es. \<forall>a. entry_addr si s e = Some a \<longrightarrow>
        semvals (semexit_ents si es ?s1) ! a = adjusted (semvmx si) (semvals ?s1 ! a) (un_aoe e)"
    "\<forall>a. (\<forall>e \<in> set es. entry_addr si s e \<noteq> Some a) \<longrightarrow>
        semvals (semexit_ents si es ?s1) ! a = semvals ?s1 ! a"
    by (simp_all add: semexit_one_frame)
  have other: "entry_addr si s x \<noteq> Some a" if "x \<in> set es" for x
    using Cons.prems(3) a(2) that by (auto simp: image_iff)
  have keep: "semvals ?s1 ! b = semvals s ! b" if "b \<noteq> a" for b
    using vals that by simp
  show ?case
    unfolding semexit_ents_Cons
  proof (intro conjI ballI allI impI)
    show "sem_vals_ok si (semexit_ents si es ?s1)" by (rule IH(1))
  next
    fix x b
    assume x: "x \<in> set (e # es)" "entry_addr si s x = Some b"
    show "semvals (semexit_ents si es ?s1) ! b = adjusted (semvmx si) (semvals s ! b) (un_aoe x)"
    proof (cases "x \<in> set es")
      case True
      with x(2) other have "b \<noteq> a" by auto
      with True x(2) IH(2) keep show ?thesis by simp
    next
      case False
      with x a have "x = e" "b = a" by auto
      with IH(3) other vals a(1) show ?thesis by simp
    qed
  next
    fix b
    assume b: "\<forall>x \<in> set (e # es). entry_addr si s x \<noteq> Some b"
    with a(2) have "b \<noteq> a" by auto
    with b IH(3) keep show "semvals (semexit_ents si es ?s1) ! b = semvals s ! b" by simp
  qed
qed

lemma live_entry_addr:
  assumes inv: "sem_inv si nproc s" and slot: "slot < nproc" and k: "adj s slot (un_id e, un_num e) \<noteq> 0"
  obtains sp where "semconv si s (un_id e) = Ok sp" "un_num e < sem_nsems (sema s ! sp)"
    "entry_addr si s e = Some (sem_base (sema s ! sp) + un_num e)"
    "sem_base (sema s ! sp) + un_num e < length (sems s)"
proof -
  from sem_invD(3,7) [OF inv] slot k obtain sp where sp: "semconv si s (un_id e) = Ok sp"
    "un_num e < sem_nsems (sema s ! sp)" by (force simp: entries_live_def)
  with sets_ok_range(1) [OF sem_invD(6) [OF inv] conv_in_range [OF inv sp(1)]] that show thesis
    by (simp add: entry_addr_def)
qed

lemma own_entries:
  assumes inv: "sem_inv si nproc s" and slot: "slot < nproc" and up: "sem_undo s ! slot = Some up"
  shows "\<And>e. e \<in> set (semu s ! up) \<Longrightarrow> adj s slot (un_id e, un_num e) = un_aoe e \<and> un_aoe e \<noteq> 0"
    "distinct (map (entry_addr si s) (semu s ! up))"
proof -
  have lt: "up < length (semu s)" using owned_lt [OF sem_invD(9) [OF inv] _ up] slot sem_invD(3) [OF inv]
    by simp
  have es: "undo_list_ok si (semu s ! up)" using sem_invD(2) [OF inv] lt by (simp add: undo_tables_ok_def)
  then have sorted: "sorted_wrt (<) (map undo_key (semu s ! up))" by (simp add: undo_list_ok_def)
  show mem: "adj s slot (un_id e, un_num e) = un_aoe e \<and> un_aoe e \<noteq> 0" if "e \<in> set (semu s ! up)" for e
    using aoe_of_mem [OF sorted that] up es that by (simp add: adj_def undo_key_def undo_list_ok_def)
  have keys: "distinct (map undo_key (semu s ! up))" using sorted by (simp add: strict_sorted_iff)
  have "x = y" if x: "x \<in> set (semu s ! up)" and y: "y \<in> set (semu s ! up)"
    and eq: "entry_addr si s x = entry_addr si s y" for x y
  proof -
    from mem [OF x] obtain i where i: "semconv si s (un_id x) = Ok i" "un_num x < sem_nsems (sema s ! i)"
      "entry_addr si s x = Some (sem_base (sema s ! i) + un_num x)"
      using live_entry_addr [OF inv slot, of x] by metis
    from mem [OF y] obtain j where j: "semconv si s (un_id y) = Ok j" "un_num y < sem_nsems (sema s ! j)"
      "entry_addr si s y = Some (sem_base (sema s ! j) + un_num y)"
      using live_entry_addr [OF inv slot, of y] by metis
    have "i = j"
      using sets_ok_disjoint [OF sem_invD(6) [OF inv] _ _ _ _ _ i(2) j(2)] conv_in_range [OF inv i(1)]
        conv_in_range [OF inv j(1)] eq i(3) j(3) by auto
    with i j eq sem_ids.conv_inj have "un_id x = un_id y" "un_num x = un_num y" by auto
    then have "undo_key x = undo_key y" by (simp add: undo_key_def)
    with keys x y show "x = y" by (auto simp: distinct_map inj_on_def)
  qed
  with keys show "distinct (map (entry_addr si s) (semu s ! up))"
    by (auto simp: distinct_map inj_on_def)
qed

text \<open>Giving the structure back.\<close>

definition undo_release :: "nat \<Rightarrow> nat \<Rightarrow> sem_state \<Rightarrow> sem_state" where
  "undo_release slot up s =
     s\<lparr>semu := (semu s)[up := []], semunp := remove1 up (semunp s), semfup := up # semfup s,
       sem_undo := (sem_undo s)[slot := None]\<rparr>"

lemma semexit_release:
  assumes "undo_tables_ok si s" and "sem_undo s ! p_slot c = Some up"
  shows "semexit si c s = undo_release (p_slot c) up (semexit_ents si (rev (semu s ! up)) s)"
proof (cases "semu s ! up = []")
  case True
  with assms have "up \<notin> set (semunp s)" by (auto simp: undo_tables_ok_def)
  moreover from True have "(semu s)[up := []] = semu s" by (metis list_update_id)
  ultimately show ?thesis using True assms(2)
    by (simp add: semexit_def undo_release_def remove1_idem Let_def)
next
  case False
  with assms(2) show ?thesis by (simp add: semexit_def undo_release_def Let_def)
qed

lemma undo_release_ok:
  assumes ok: "undo_tables_ok si s" and slot: "slot < length (sem_undo s)"
    and up: "sem_undo s ! slot = Some up"
  shows "undo_tables_ok si (undo_release slot up s)"
    "i < length (sem_undo s) \<Longrightarrow> adj (undo_release slot up s) i = (if i = slot then (\<lambda>k. 0) else adj s i)"
proof -
  from ok have own: "owners_ok s" by (simp add: undo_tables_ok_def)
  note lt = owned_lt [OF own slot up]
  have others: "sem_undo s ! j \<noteq> Some up" if "j \<noteq> slot" "j < length (sem_undo s)" for j
    using own slot up that by (auto simp: owners_ok_def)
  have mem: "Some x \<in> set ((sem_undo s)[slot := None]) \<longleftrightarrow> x \<noteq> up \<and> Some x \<in> set (sem_undo s)" for x
    using others up slot
    by (auto simp: in_set_conv_nth nth_list_update)
       (metis option.inject)
  have "owners_ok (undo_release slot up s)"
    unfolding owners_ok_def
  proof (intro conjI allI impI ballI)
    show "distinct (semfup (undo_release slot up s))"
      using own lt by (auto simp: undo_release_def owners_ok_def)
  next
    fix x assume "x \<in> set (semfup (undo_release slot up s))"
    with own lt mem show "x < length (semu (undo_release slot up s))"
      "semu (undo_release slot up s) ! x = []" "Some x \<notin> set (sem_undo (undo_release slot up s))"
      by (auto simp: undo_release_def owners_ok_def nth_list_update)
  next
    fix x assume "Some x \<in> set (sem_undo (undo_release slot up s))"
    with own mem show "x < length (semu (undo_release slot up s))"
      by (auto simp: undo_release_def owners_ok_def)
  next
    fix i j assume "i < length (sem_undo (undo_release slot up s))"
      "j < length (sem_undo (undo_release slot up s))"
      "sem_undo (undo_release slot up s) ! i \<noteq> None"
      "sem_undo (undo_release slot up s) ! i = sem_undo (undo_release slot up s) ! j"
    with own slot show "i = j"
      by (auto simp: undo_release_def owners_ok_def nth_list_update split: if_splits)
  next
    fix x assume "x < length (semu (undo_release slot up s))"
    with own mem show "x \<in> set (semfup (undo_release slot up s))
        \<or> Some x \<in> set (sem_undo (undo_release slot up s))"
      by (auto simp: undo_release_def owners_ok_def)
  qed
  moreover have "x \<in> set (remove1 up (semunp s)) \<longleftrightarrow> x < length (semu s) \<and> (semu s)[up := []] ! x \<noteq> []" for x
  proof -
    have "x \<in> set (semunp s) \<longleftrightarrow> x < length (semu s) \<and> semu s ! x \<noteq> []" "distinct (semunp s)"
      using ok by (simp_all add: undo_tables_ok_def)
    then show ?thesis using lt by (cases "x = up") simp_all
  qed
  moreover have "undo_list_ok si []" by (simp add: undo_list_ok_def)
  then have "\<forall>es \<in> set ((semu s)[up := []]). undo_list_ok si es"
    using ok set_update_subset_insert [of "semu s" up "[]"] by (auto simp: undo_tables_ok_def)
  ultimately show "undo_tables_ok si (undo_release slot up s)"
    using ok by (auto simp: undo_tables_ok_def undo_release_def)
  assume i: "i < length (sem_undo s)"
  show "adj (undo_release slot up s) i = (if i = slot then (\<lambda>k. 0) else adj s i)"
  proof (cases "i = slot")
    case True
    with slot show ?thesis by (simp add: adj_def undo_release_def fun_eq_iff)
  next
    case False
    with others [OF False i] show ?thesis
      by (auto simp: adj_def undo_release_def fun_eq_iff nth_list_update_neq split: option.splits)
  qed
qed

lemma semexit_effect:
  assumes inv: "sem_inv si nproc s" and slot: "p_slot c < nproc"
  shows "sem_inv si nproc (semexit si c s)"
    "i < nproc \<Longrightarrow> adj (semexit si c s) i = (if i = p_slot c then (\<lambda>k. 0) else adj s i)"
    "semconv si s ident = Ok sp \<Longrightarrow> n < sem_nsems (sema s ! sp) \<Longrightarrow>
       semvals (semexit si c s) ! (sem_base (sema s ! sp) + n) =
       adjusted (semvmx si) (semvals s ! (sem_base (sema s ! sp) + n)) (adj s (p_slot c) (ident, n))"
proof -
  note D = sem_invD [OF inv]
  have slot': "p_slot c < length (sem_undo s)" using slot D(3) by simp
  have in_vals: "0 \<le> semvals s ! a \<and> semvals s ! a \<le> semvmx si" if "a < length (sems s)" for a
    using D(4) that by (simp add: sem_vals_ok_def)
  have "sem_inv si nproc (semexit si c s)
    \<and> (\<forall>i < nproc. adj (semexit si c s) i = (if i = p_slot c then (\<lambda>k. 0) else adj s i))
    \<and> (\<forall>ident sp n. semconv si s ident = Ok sp \<longrightarrow> n < sem_nsems (sema s ! sp) \<longrightarrow>
       semvals (semexit si c s) ! (sem_base (sema s ! sp) + n) =
       adjusted (semvmx si) (semvals s ! (sem_base (sema s ! sp) + n)) (adj s (p_slot c) (ident, n)))"
  proof (cases "sem_undo s ! p_slot c")
    case None
    then have "adj s (p_slot c) = (\<lambda>k. 0)" "semexit si c s = s"
      by (simp_all add: adj_def fun_eq_iff semexit_def)
    moreover have "adjusted (semvmx si) v 0 = v" for v by (simp add: adjusted_def)
    ultimately show ?thesis using inv by auto
  next
    case (Some up)
    let ?es = "semu s ! up" and ?s1 = "semexit_ents si (rev (semu s ! up)) s"
    note own = own_entries [OF inv slot Some]
    have addrs: "\<exists>a < length (sems s). entry_addr si s e = Some a" if "e \<in> set (rev ?es)" for e
    proof -
      from own(1) [of e] that have "adj s (p_slot c) (un_id e, un_num e) \<noteq> 0" by simp
      from live_entry_addr [OF inv slot this] show ?thesis by metis
    qed
    have dist: "distinct (map (entry_addr si s) (rev ?es))"
      using own(2) by (simp add: rev_map [symmetric])
    note vals = semexit_ents_vals [OF D(4) addrs dist]
    have s': "semexit si c s = undo_release (p_slot c) up ?s1" by (rule semexit_release [OF D(2) Some])
    have ok1: "undo_tables_ok si ?s1"
      using D(2) undo_tables_ok_cong [of ?s1 s si] by (simp add: semexit_ents_frame)
    have adj1: "adj ?s1 = adj s" by (intro adj_same) (simp_all add: semexit_ents_frame)
    note rel = undo_release_ok [OF ok1, of "p_slot c" up, unfolded semexit_ents_frame, OF slot' Some]
    have same: "sema (semexit si c s) = sema s" "semmap (semexit si c s) = semmap s"
      "semvals (semexit si c s) = semvals ?s1" "length (sems (semexit si c s)) = length (sems s)"
      "length (sem_undo (semexit si c s)) = length (sem_undo s)"
      by (simp_all add: s' undo_release_def semexit_ents_frame semvals_def)
    have adj': "adj (semexit si c s) i = (if i = p_slot c then (\<lambda>k. 0) else adj s i)" if "i < nproc" for i
      using rel(2) [of i] adj1 that D(3) by (simp add: s')
    have "sem_inv si nproc (semexit si c s)"
      using rel(1) vals same adj' D(3)
      by (intro sem_inv_same_sets [OF inv]) (auto simp: s' sem_vals_ok_def split: if_splits)
    moreover have "semvals ?s1 ! (sem_base (sema s ! sp) + n) =
       adjusted (semvmx si) (semvals s ! (sem_base (sema s ! sp) + n)) (adj s (p_slot c) (ident, n))"
      if conv: "semconv si s ident = Ok sp" and n: "n < sem_nsems (sema s ! sp)" for ident sp n
    proof -
      let ?a = "sem_base (sema s ! sp) + n"
      have key: "undo_key e = (ident, n)" if e: "e \<in> set ?es" "entry_addr si s e = Some ?a" for e
      proof -
        from own(1) [OF e(1)] obtain j where j: "semconv si s (un_id e) = Ok j"
          "un_num e < sem_nsems (sema s ! j)" "entry_addr si s e = Some (sem_base (sema s ! j) + un_num e)"
          using live_entry_addr [OF inv slot, of e] by metis
        have "j = sp"
          using sets_ok_disjoint [OF D(6) _ _ _ _ _ j(2) n] conv_in_range [OF inv j(1)]
            conv_in_range [OF inv conv] e(2) j(3) by auto
        with j e(2) sem_ids.conv_inj [OF conv, of "un_id e"] show ?thesis by (simp add: undo_key_def)
      qed
      show ?thesis
      proof (cases "adj s (p_slot c) (ident, n) = 0")
        case True
        have "entry_addr si s e \<noteq> Some ?a" if "e \<in> set ?es" for e
          using key [OF that] own(1) [OF that] True by (auto simp: undo_key_def)
        moreover have "?a < length (sems s)"
          using sets_ok_range(1) [OF D(6) conv_in_range [OF inv conv]] n by simp
        ultimately show ?thesis using vals True in_vals by (simp add: adjusted_def)
      next
        case False
        then have "aoe_of ?es (ident, n) \<noteq> 0" using Some by (simp add: adj_def)
        from aoe_of_nonzero [OF this] obtain e where e: "e \<in> set ?es" "undo_key e = (ident, n)"
          "un_aoe e = adj s (p_slot c) (ident, n)" using Some by (auto simp: adj_def)
        have "entry_addr si s e = Some ?a" using e(2) conv by (simp add: undo_key_def entry_addr_def)
        with vals e show ?thesis by simp
      qed
    qed
    ultimately show ?thesis using adj' same(3) by simp
  qed
  then show "sem_inv si nproc (semexit si c s)"
    "i < nproc \<Longrightarrow> adj (semexit si c s) i = (if i = p_slot c then (\<lambda>k. 0) else adj s i)"
    "semconv si s ident = Ok sp \<Longrightarrow> n < sem_nsems (sema s ! sp) \<Longrightarrow>
       semvals (semexit si c s) ! (sem_base (sema s ! sp) + n) =
       adjusted (semvmx si) (semvals s ! (sem_base (sema s ! sp) + n)) (adj s (p_slot c) (ident, n))"
    by blast+
qed

section \<open>semctl\<close>

lemma sem_frame_semmap:
  "semvals (s\<lparr>semmap := m\<rparr>) = semvals s" "undo_tables_ok si (s\<lparr>semmap := m\<rparr>) = undo_tables_ok si s"
  by (simp_all add: semvals_def undo_tables_ok_def owners_ok_def)

lemma sem_inv_vals:
  assumes "sem_inv si nproc s" and "sema s' = sema s" "semmap s' = semmap s"
    "length (sems s') = length (sems s)" "semu s' = semu s" "sem_undo s' = sem_undo s"
    "undo_tables_ok si s' = undo_tables_ok si s" "sem_vals_ok si s'"
  shows "sem_inv si nproc s'"
  using assms sem_invD [OF assms(1)]
  by (intro sem_inv_same_sets [OF assms(1)]) (simp_all add: adj_same [of s' s])

lemma sem_inv_semunrm:
  assumes inv: "sem_inv si nproc s"
  shows "sem_inv si nproc (semunrm ident low high s)"
proof -
  note un = semunrm_spec [OF sem_invD(2) [OF inv], where ident = ident and low = low and high = high]
  have "semvals (semunrm ident low high s) = semvals s" using undo_frame_semvals [OF un(2)] .
  then show ?thesis
    using un sem_invD(4) [OF inv]
    by (intro sem_inv_same_sets [OF inv]) (auto simp: undo_frame_def sem_vals_ok_def split: if_splits)
qed

lemma sem_setval_frame:
  "sema (sem_setval pid a v s) = sema s" "semmap (sem_setval pid a v s) = semmap s"
  "length (sems (sem_setval pid a v s)) = length (sems s)" "semu (sem_setval pid a v s) = semu s"
  "sem_undo (sem_setval pid a v s) = sem_undo s"
  "undo_tables_ok si (sem_setval pid a v s) = undo_tables_ok si s"
  "semvals (sem_setval pid a v s) = (semvals s)[a := u16 v]"
  by (simp_all add: sem_setval_def Let_def sem_frame semvals_upd semvals_set)

lemma sem_setval_inv:
  assumes inv: "sem_inv si nproc s" and v: "0 \<le> u16 v" "u16 v \<le> semvmx si"
  shows "sem_inv si nproc (sem_setval pid a v s)"
  using sem_vals_ok_update [OF sem_invD(4) [OF inv] sem_setval_frame(7) v]
  by (intro sem_inv_vals [OF inv]) (simp_all add: sem_setval_frame)

lemma sem_setvals_inv:
  "sem_inv si nproc s \<Longrightarrow> \<forall>v \<in> set vs. 0 \<le> u16 v \<and> u16 v \<le> semvmx si \<Longrightarrow>
   sem_inv si nproc (sem_setvals pid a vs s)"
  by (induction vs arbitrary: a s) (simp_all add: sem_setval_inv)

lemma rmid_sem_frame:
  "sema (rmid_sem a s) = sema s" "semmap (rmid_sem a s) = semmap s"
  "length (sems (rmid_sem a s)) = length (sems s)" "semu (rmid_sem a s) = semu s"
  "sem_undo (rmid_sem a s) = sem_undo s" "undo_tables_ok si (rmid_sem a s) = undo_tables_ok si s"
  "semvals (rmid_sem a s) = (semvals s)[a := 0]"
proof -
  have "semvals (upd_sem a (\<lambda>p. p\<lparr>semval := 0, sempid := 0\<rparr>) s) = (semvals s)[a := 0]"
    by (cases "a < length (sems s)") (simp_all add: semvals_def upd_sem_def map_update list_update_beyond)
  then show "semvals (rmid_sem a s) = (semvals s)[a := 0]" by (simp add: rmid_sem_def)
qed (simp_all add: rmid_sem_def sem_frame)

lemma rmid_sem_inv: "sem_inv si nproc s \<Longrightarrow> sem_inv si nproc (rmid_sem a s)"
proof -
  assume inv: "sem_inv si nproc s"
  have "0 \<le> semvmx si" using sem_invD(1) [OF inv] by (simp add: sem_limits_def)
  with sem_vals_ok_update [OF sem_invD(4) [OF inv] rmid_sem_frame(7)]
  show ?thesis by (intro sem_inv_vals [OF inv]) (simp_all add: rmid_sem_frame)
qed

lemma rmid_fold_inv:
  "sem_inv si nproc s \<Longrightarrow> sem_inv si nproc (fold rmid_sem as s) \<and> sema (fold rmid_sem as s) = sema s
    \<and> semmap (fold rmid_sem as s) = semmap s \<and> semu (fold rmid_sem as s) = semu s
    \<and> sem_undo (fold rmid_sem as s) = sem_undo s"
  by (induction as arbitrary: s) (simp_all add: rmid_sem_inv rmid_sem_frame)

text \<open>Removing a set: its entries are gone from every process, its extent is free again,
  its identifier is dead.\<close>

lemma semctl_rmid_inv:
  assumes inv: "sem_inv si nproc s" and conv: "semconv si s ident = Ok sp"
    and run: "semctl_rmid si c old_cmd ident sp s = (r, s')"
  shows "sem_inv si nproc s'"
    "r = Ok v \<Longrightarrow> \<not> ipc_alloc (sem_perm (sema s' ! sp))
      \<and> ip_seq (sem_perm (sema s' ! sp)) = ipc_next_seq (semmni si) old_cmd ident (ip_seq (sem_perm (sema s ! sp)))
      \<and> (\<forall>i < nproc. \<forall>n. adj s' i (ident, n) = (if n \<le> sem_nsems (sema s ! sp) then 0 else adj s i (ident, n)))
      \<and> (\<forall>x i. i \<noteq> sp \<longrightarrow> semconv si s x = Ok i \<longrightarrow> semconv si s' x = Ok i)"
proof -
  let ?d = "sema s ! sp"
  let ?s1 = "semunrm ident 0 (sem_nsems ?d) s"
  let ?s2 = "fold rmid_sem [sem_base ?d ..< sem_base ?d + sem_nsems ?d] ?s1"
  let ?s3 = "?s2\<lparr>semmap := rm_release (semmap ?s2) (sem_nsems ?d) (sem_base ?d + 1)\<rparr>"
  let ?f = "\<lambda>d. d\<lparr>sem_perm := (sem_perm d)
      \<lparr>ip_seq := ipc_next_seq (semmni si) old_cmd ident (ip_seq (sem_perm d)), ip_mode := 0, ip_dacp := None\<rparr>\<rparr>"
  note sp = conv_in_range [OF inv conv]
  have "sem_inv si nproc s' \<and> (\<forall>v. r = Ok v \<longrightarrow> \<not> ipc_alloc (sem_perm (sema s' ! sp))
      \<and> ip_seq (sem_perm (sema s' ! sp)) = ipc_next_seq (semmni si) old_cmd ident (ip_seq (sem_perm (sema s ! sp)))
      \<and> (\<forall>i < nproc. \<forall>n. adj s' i (ident, n) = (if n \<le> sem_nsems (sema s ! sp) then 0 else adj s i (ident, n)))
      \<and> (\<forall>x i. i \<noteq> sp \<longrightarrow> semconv si s x = Ok i \<longrightarrow> semconv si s' x = Ok i))"
  proof (cases "sem_owner c (sem_perm ?d)")
    case (Inl e)
    with run inv show ?thesis by (auto simp: semctl_rmid_def)
  next
    case (Inr u)
    with run have s': "s' = upd_ds sp ?f ?s3" by (simp add: semctl_rmid_def Let_def)
    have inv1: "sem_inv si nproc ?s1" by (rule sem_inv_semunrm [OF inv])
    note fold = rmid_fold_inv [OF inv1, of "[sem_base ?d ..< sem_base ?d + sem_nsems ?d]"]
    then have inv2: "sem_inv si nproc ?s2" by blast
    note un = semunrm_spec [OF sem_invD(2) [OF inv], where ident = ident and low = 0 and high = "sem_nsems ?d"]
    have sema: "sema ?s2 = sema s" using fold un(2) by (simp add: undo_frame_def)
    have map: "semmap ?s2 = semmap s" using fold un(2) by (simp add: undo_frame_def)
    have dead: "\<not> ipc_alloc (sem_perm (?f d))" for d by (simp add: ipc_alloc_def)
    have at: "sema s' ! sp = ?f ?d" "\<And>i. i \<noteq> sp \<Longrightarrow> sema s' ! i = sema s ! i"
      using sp(1) sema by (simp_all add: s' upd_ds_def)
    have adj': "adj s' i k = (if undo_hit ident 0 (sem_nsems ?d) k then 0 else adj s i k)"
      if "i < nproc" for i k
    proof -
      have "adj s' = adj ?s1" using fold by (intro adj_same) (simp_all add: s' sem_frame)
      then show ?thesis using un(4) that sem_invD(3) [OF inv] by simp
    qed
    have keep: "semconv si s' x = Ok i" if "i \<noteq> sp" "semconv si s x = Ok i" for x i
    proof -
      have "semconv si ?s3 x = Ok i" using that(2) semconv_cong [of ?s3 s si] sema by simp
      from semconv_upd_other [OF this that(1)] show ?thesis by (simp add: s')
    qed
    have sets: "sets_ok si s'"
    proof (rule sets_ok_remove [OF sem_invD(1) [OF inv] sem_invD(6) [OF inv2], of sp "?f ?d"])
      show "sp < length (sema ?s2)" "ipc_alloc (sem_perm (sema ?s2 ! sp))" using sp sema by simp_all
      show "\<not> ipc_alloc (sem_perm (?f ?d))" by (rule dead)
      show "sema s' = (sema ?s2)[sp := ?f ?d]" "length (sems s') = length (sems ?s2)"
        "semmap s' = rm_release (semmap ?s2) (sem_nsems (sema ?s2 ! sp)) (sem_base (sema ?s2 ! sp) + 1)"
        using sema by (simp_all add: s' upd_ds_def)
    qed
    have entries: "entries_live si s'"
      unfolding entries_live_def
    proof (intro allI impI)
      fix i k
      assume i: "i < length (sem_undo s')" and k: "adj s' i k \<noteq> 0"
      have len: "length (sem_undo s') = nproc"
        using sem_invD(3) [OF inv2] by (simp add: s' sem_frame)
      with i k adj' have old: "adj s i k \<noteq> 0" "\<not> undo_hit ident 0 (sem_nsems ?d) k"
        by (auto split: if_splits)
      then obtain j where j: "semconv si s (fst k) = Ok j" "snd k < sem_nsems (sema s ! j)"
        using sem_invD(3,7) [OF inv] i len by (force simp: entries_live_def)
      have "j \<noteq> sp"
        using old(2) j sem_ids.conv_inj [OF conv, of "fst k"] by (auto simp: undo_hit_def)
      with j keep at(2) show "\<exists>sp. semconv si s' (fst k) = Ok sp \<and> snd k < sem_nsems (sema s' ! sp)"
        by auto
    qed
    have seqs: "seqs_ok si s'"
    proof -
      have id: "ident = ipc_id (semmni si) (ip_seq (sem_perm ?d)) sp"
        using sem_ids.conv_ident [of sp si s] sem_ids.conv_inj [OF conv] sp sem_invD(6,8) [OF inv]
        by (auto simp: seqs_ok_def sets_ok_def)
      have "seq_ok (semmni si) sp (ip_seq (sem_perm ?d))" "sp < semmni si" "int (semmni si) \<le> INT_MAX"
        using sp(1) sem_invD(1,6,8) [OF inv]
        by (auto simp: seqs_ok_def sets_ok_def sem_limits_def SHRT_MAX_def INT_MAX_def)
      from ipc_next_seq_ok [OF this, of old_cmd] id
      have "seq_ok (semmni si) sp (ip_seq (sem_perm (sema s' ! sp)))" using at(1) by simp
      moreover have "length (sema s') = length (sema s)" using sema by (simp add: s' upd_ds_def)
      ultimately show ?thesis using sem_invD(8) [OF inv] at(2)
        unfolding seqs_ok_def by metis
    qed
    have rest: "undo_tables_ok si s'" "sem_vals_ok si s'" "length (sem_undo s') = nproc"
      using sem_invD(2-4) [OF inv2]
      by (simp_all add: s' sem_frame sem_frame_semmap sem_vals_ok_def)
    show ?thesis
      using sets entries seqs rest sem_invD(1) [OF inv] at dead adj' keep
      by (auto simp: sem_inv_def undo_hit_def)
  qed
  then show "sem_inv si nproc s'"
    "r = Ok v \<Longrightarrow> \<not> ipc_alloc (sem_perm (sema s' ! sp))
      \<and> ip_seq (sem_perm (sema s' ! sp)) = ipc_next_seq (semmni si) old_cmd ident (ip_seq (sem_perm (sema s ! sp)))
      \<and> (\<forall>i < nproc. \<forall>n. adj s' i (ident, n) = (if n \<le> sem_nsems (sema s ! sp) then 0 else adj s i (ident, n)))
      \<and> (\<forall>x i. i \<noteq> sp \<longrightarrow> semconv si s x = Ok i \<longrightarrow> semconv si s' x = Ok i)"
    by blast+
qed

lemma semctl_inv:
  assumes inv: "sem_inv si nproc s" and run: "semctl si c uap s = (r, s')"
  shows "sem_inv si nproc s'"
proof (cases "s' = s")
  case changed: False
  with run obtain sp where conv: "semconv si s (sc_semid uap) = Ok sp"
    by (auto simp: semctl_def split: sum.splits)
  have "(m OR IPC_ALLOC) AND IPC_ALLOC = IPC_ALLOC" for m by (auto simp: bit_eq_iff bit_simps)
  then have alloc: "ipc_alloc (p\<lparr>ip_mode := m OR IPC_ALLOC\<rparr>)" for p m
    by (simp add: ipc_alloc_def ipc_bits)
  have set: "sem_inv si nproc s'" if "semctl_set c old ds sp s = (r, s')" for old ds
    using that changed conv_in_range(2) [OF inv conv]
    by (auto simp: semctl_set_def alloc
        split: sum.splits option.splits prod.splits if_splits
        intro!: sem_inv_upd_ds [OF inv])
  have setval: "sem_inv si nproc s'" if "semctl_setval si c ident num arg sp s = (r, s')" for ident num arg
  proof -
    have "u16 arg = u32 arg" if "u32 arg \<le> semvmx si"
    proof -
      have "arg mod 4294967296 mod 65536 = arg mod 65536" by (rule mod_mod_cancel) simp
      moreover have "u32 arg < 65536" using that sem_invD(4) [OF inv] by (simp add: sem_vals_ok_def)
      ultimately show ?thesis by (simp add: u16_def u32_def mod_pos_pos_trivial)
    qed
    with that changed show ?thesis
      by (auto simp: semctl_setval_def Let_def split: sum.splits if_splits
          intro!: sem_inv_semunrm sem_setval_inv [OF inv])
  qed
  have setall: "sem_inv si nproc s'" if "semctl_setall si c ident usr sp s = (r, s')" for ident usr
    using that changed
    by (auto simp: semctl_setall_def Let_def u16_id not_less split: sum.splits if_splits option.splits
        intro!: sem_inv_semunrm [OF inv] sem_setvals_inv)
  show ?thesis
    using run changed conv set setval setall semctl_rmid_inv(1) [OF inv conv]
    by (auto simp: semctl_def semctl_o_stat_def semctl_stat_def semctl_get_def semctl_getall_def Let_def
        split: sem_cmd.splits sum.splits if_splits)
qed (use inv in simp)

section \<open>semget\<close>

lemma upd_ds_comp: "upd_ds sp g (upd_ds sp f s) = upd_ds sp (\<lambda>d. g (f d)) s"
  by (cases "sp < length (sema s)") (simp_all add: upd_ds_def list_update_beyond)

lemma upd_ds_semmap: "upd_ds sp f (s\<lparr>semmap := m\<rparr>) = (upd_ds sp f s)\<lparr>semmap := m\<rparr>"
  by (simp add: upd_ds_def)

lemma sem_inv_create:
  assumes inv: "sem_inv si nproc s" and sp: "sp < length (sema s)"
    and free: "\<not> ipc_alloc (sem_perm (sema s ! sp))"
    and run: "rmalloc (semmap s) n = (i, map')" and i: "0 < i" and n: "0 < n"
    and f: "ipc_alloc (sem_perm (f (sema s ! sp)))" "sem_base (f (sema s ! sp)) = i - 1"
      "sem_nsems (f (sema s ! sp)) = n" "ip_seq (sem_perm (f (sema s ! sp))) = ip_seq (sem_perm (sema s ! sp))"
  shows "sem_inv si nproc ((upd_ds sp f s)\<lparr>semmap := map'\<rparr>)"
proof -
  let ?s' = "(upd_ds sp f s)\<lparr>semmap := map'\<rparr>"
  have at: "sema ?s' ! j = (if j = sp then f (sema s ! sp) else sema s ! j)" for j
    using sp by (simp add: upd_ds_def)
  have "sets_ok si ?s'"
    by (rule sets_ok_create [OF sem_invD(6) [OF inv] sp free run i n, of "f (sema s ! sp)"])
       (use f in \<open>simp_all add: upd_ds_def\<close>)
  moreover have "entries_live si ?s'"
    unfolding entries_live_def
  proof (intro allI impI)
    fix j k
    assume "j < length (sem_undo ?s')" "adj ?s' j k \<noteq> 0"
    then have "adj s j k \<noteq> 0" "j < length (sem_undo s)"
      using adj_same [of ?s' s] by (simp_all add: sem_frame)
    then obtain x where x: "semconv si s (fst k) = Ok x" "snd k < sem_nsems (sema s ! x)"
      using sem_invD(7) [OF inv] by (force simp: entries_live_def)
    have "x \<noteq> sp" using conv_in_range(2) [OF inv x(1)] free by auto
    have "semconv si ?s' (fst k) = Ok x"
      using semconv_upd_other [OF x(1) \<open>x \<noteq> sp\<close>, of f] semconv_cong [of ?s' "upd_ds sp f s" si] by simp
    with x(2) \<open>x \<noteq> sp\<close> at show "\<exists>y. semconv si ?s' (fst k) = Ok y \<and> snd k < sem_nsems (sema ?s' ! y)"
      by auto
  qed
  moreover have "seqs_ok si ?s'"
    using sem_invD(8) [OF inv] at f(4) by (auto simp: seqs_ok_def sem_frame)
  ultimately show ?thesis
    using inv by (simp add: sem_inv_def sem_frame sem_frame_semmap sem_vals_ok_def)
qed

text \<open>The two outcomes of \<open>ipcget\<close> for the table of sets.\<close>

lemma sem_ipcget_new:
  assumes "ipcget sec cr k flag (sem_perms s) = Ok (sp, True, base')"
  shows "sp < length (sema s)" "\<not> ipc_alloc (sem_perm (sema s ! sp))"
    "base' ! sp = ipc_init_perm cr k flag (sem_perm (sema s ! sp))"
    "ipc_alloc (base' ! sp)" "ip_seq (base' ! sp) = ip_seq (sem_perm (sema s ! sp))"
proof -
  from ipcget_new [OF assms] show "sp < length (sema s)" "\<not> ipc_alloc (sem_perm (sema s ! sp))"
    "base' ! sp = ipc_init_perm cr k flag (sem_perm (sema s ! sp))"
    by (auto simp: unused_at_def sem_perms_def)
  then show "ipc_alloc (base' ! sp)" "ip_seq (base' ! sp) = ip_seq (sem_perm (sema s ! sp))"
    by (simp_all add: ipc_alloc_init) (simp add: ipc_init_perm_def)
qed

lemma sem_ipcget_old:
  assumes "ipcget sec cr k flag (sem_perms s) = Ok (sp, False, base')"
  shows "sp < length (sema s)" "base' ! sp = sem_perm (sema s ! sp)" "ipc_alloc (sem_perm (sema s ! sp))"
  using ipcget_old [OF assms] by (auto simp: sem_perms_def reachable_key_def)

lemma semget_inv:
  assumes inv: "sem_inv si nproc s" and run: "semget si c uap s = (r, s')"
  shows "sem_inv si nproc s'"
proof (cases "ipcget (p_sec c) (u_cred c) (sg_key uap) (sg_semflg uap) (sem_perms s)")
  case (Inl e)
  with run inv show ?thesis by (auto simp: semget_def)
next
  case (Inr x)
  then obtain sp created base' where
    get: "ipcget (p_sec c) (u_cred c) (sg_key uap) (sg_semflg uap) (sem_perms s) = Ok (sp, created, base')"
    by (metis prod_cases3)
  let ?set = "\<lambda>d. d\<lparr>sem_perm := base' ! sp\<rparr>" and ?drop = "\<lambda>d. d\<lparr>sem_perm := (sem_perm d)\<lparr>ip_mode := 0\<rparr>\<rparr>"
  show ?thesis
  proof (cases created)
    case False
    with get have old: "base' ! sp = sem_perm (sema s ! sp)"
      by (intro sem_ipcget_old(2)) simp
    have "s' = upd_ds sp ?set s"
      using run get False by (auto simp: semget_def Let_def sem_set_perm_def split: if_splits)
    then show ?thesis using old by (simp add: sem_inv_upd_ds [OF inv])
  next
    case True
    have "ipcget (p_sec c) (u_cred c) (sg_key uap) (sg_semflg uap) (sem_perms s) = Ok (sp, True, base')"
      using get True by simp
    note new = sem_ipcget_new [OF this]
    have dropped: "sem_inv si nproc (upd_ds sp (\<lambda>d. ?drop (?set d)) s)"
      using new by (intro sem_inv_upd_ds [OF inv]) (simp_all add: ipc_alloc_def)
    obtain i map' where rm: "rmalloc (semmap s) (nat (sg_nsems uap)) = (i, map')" by fastforce
    consider "sg_nsems uap \<le> 0 \<or> sg_nsems uap > semmsl si \<or> i = 0"
      | "0 < sg_nsems uap" "sg_nsems uap \<le> semmsl si" "0 < i" by linarith
    then show ?thesis
    proof cases
      case 1
      then have "s' = upd_ds sp (\<lambda>d. ?drop (?set d)) s"
        using run get True rm
        by (auto simp: semget_def Let_def sem_set_perm_def sem_drop_mode_def upd_ds_comp sem_frame
            split: if_splits)
      with dropped show ?thesis by simp
    next
      case 2
      let ?f = "\<lambda>d. (?set d)\<lparr>sem_base := i - 1, sem_nsems := nat (u16 (sg_nsems uap)),
                     sem_ctime := hrestime c, sem_otime := 0\<rparr>"
      have fits: "u16 (sg_nsems uap) = sg_nsems uap"
        using 2 sem_invD(1) [OF inv] by (simp add: sem_limits_def USHRT_MAX_def u16_id)
      have s': "s' = (upd_ds sp ?f s)\<lparr>semmap := map'\<rparr>"
        using run get True rm 2
        by (auto simp: semget_def Let_def sem_set_perm_def upd_ds_comp upd_ds_semmap sem_frame)
      show ?thesis unfolding s'
        by (rule sem_inv_create [OF inv new(1,2) rm 2(3)]) (use 2 new fits in simp_all)
    qed
  qed
qed

section \<open>Boot\<close>

lemma seminit_inv:
  assumes lim: "sem_limits si"
  shows "sem_inv si nproc (seminit si nproc)"
proof -
  let ?s = "seminit si nproc"
  have map: "rmap_ok (semmap ?s)" "free_units (semmap ?s) = {1 ..< 1 + semmns si}"
    using rm_filled_ok [of "semmapsz si" "semmns si"] lim by (simp_all add: seminit_def sem_limits_def)
  have zero: "\<not> ipc_alloc zero_perm" by (simp add: ipc_alloc_def zero_perm_def)
  have "cover (map set_ext (sema ?s)) u = 0" for u
  proof -
    have "cover (replicate n (0, 0)) u = 0" for n by (induction n) simp_all
    then show ?thesis by (simp add: seminit_def set_ext_def zero)
  qed
  with map have "sets_ok si ?s"
    using zero by (auto simp: sets_ok_def units_ok_def seminit_def)
  moreover have "undo_tables_ok si ?s"
    using lim by (auto simp: undo_tables_ok_def owners_ok_def seminit_def sem_limits_def undo_list_ok_def)
  moreover have "sem_vals_ok si ?s"
    using lim by (auto simp: sem_vals_ok_def semvals_def seminit_def sem_limits_def USHRT_MAX_def)
  moreover have "entries_live si ?s"
    by (auto simp: entries_live_def adj_def seminit_def)
  moreover have "seqs_ok si ?s"
    using lim by (auto simp: seqs_ok_def seminit_def zero_perm_def seq_ok_def sem_limits_def
        SHRT_MAX_def INT_MAX_def)
  ultimately show ?thesis using lim by (simp add: sem_inv_def seminit_def)
qed

section \<open>All states the facility can reach\<close>

text \<open>
  The steps: a system call by some process, up to its return or its sleep; the return of a
  sleeper from its sleep, woken or interrupted; the exit of a process.  A resumed call reads
  its operations again: the rule admits the lists that name semaphores of the set (the lists
  the unchanged user memory yields); \<open>semop_resume_unchecked\<close> shows what others do.
\<close>

inductive sem_reach :: "seminfo \<Rightarrow> nat \<Rightarrow> sem_state \<Rightarrow> bool" for si nproc where
  boot: "sem_limits si \<Longrightarrow> sem_reach si nproc (seminit si nproc)"
| call: "sem_reach si nproc s \<Longrightarrow> p_slot c < nproc \<Longrightarrow> semsys si c uap s = (out, s') \<Longrightarrow>
    sem_reach si nproc s'"
| resume: "sem_reach si nproc s \<Longrightarrow> p_slot c < nproc \<Longrightarrow>
    (\<And>i. semconv si s (so_semid uap) = Ok i \<Longrightarrow> i = sp) \<Longrightarrow>
    (\<And>f op. usr = Some f \<Longrightarrow> op \<in> set (map f [0 ..< so_nsops uap]) \<Longrightarrow>
       sem_num op < sem_nsems (sema s ! sp)) \<Longrightarrow>
    semop_resume si c uap sp ch interrupted usr s = (out', s') \<Longrightarrow> sem_reach si nproc s'"
| proc_exit: "sem_reach si nproc s \<Longrightarrow> p_slot c < nproc \<Longrightarrow> sem_reach si nproc (semexit si c s)"

lemma semsys_inv:
  assumes "sem_inv si nproc s" and "p_slot c < nproc" and "semsys si c uap s = (out, s')"
  shows "sem_inv si nproc s'"
  using assms(3) semctl_inv [OF assms(1)] semget_inv [OF assms(1)] semop_inv [OF assms(1,2)] assms(1)
  by (cases uap) (auto simp: semsys_def split: prod.splits semop_out.splits)

lemma sem_reach_inv: "sem_reach si nproc s \<Longrightarrow> sem_inv si nproc s"
proof (induction rule: sem_reach.induct)
  case boot
  then show ?case by (rule seminit_inv)
next
  case call
  then show ?case by (blast intro: semsys_inv)
next
  case resume
  then show ?case by (blast intro: semop_resume_inv)
next
  case proc_exit
  then show ?case by (blast intro: semexit_effect(1))
qed

text \<open>A short history: a set is created, then raised by a process that asks for undo.\<close>

definition demo_boot :: sem_state where
  "demo_boot = seminit demo_si 2"

definition demo_get :: semget_args where
  "demo_get = \<lparr>sg_key = 5, sg_nsems = 2, sg_semflg = 512 OR 384\<rparr>"

definition demo_made :: sem_state where
  "demo_made = snd (semsys demo_si demo_ctx (SEMGET demo_get) demo_boot)"

definition demo_raise :: user_ops where
  "demo_raise = Some (\<lambda>i. \<lparr>sem_num = 1, sem_op = 3, sem_flg = 4096\<rparr>)"

definition demo_raised :: sem_state where
  "demo_raised = snd (semsys demo_si demo_ctx (SEMOP demo_uap demo_raise) demo_made)"

definition demo_set :: semid_ds where
  "demo_set = \<lparr>sem_perm = \<lparr>ip_uid = 100, ip_gid = 7, ip_cuid = 100, ip_cgid = 7, ip_mode = 33152,
       ip_seq = 0, ip_key = 5, ip_dacp = None, ip_lid = 5\<rparr>,
     sem_base = 0, sem_nsems = 2, sem_otime = 0, sem_ctime = 1000\<rparr>"

lemma demo_boot_eq: "demo_boot = \<lparr>
    sema = [\<lparr>sem_perm = zero_perm, sem_base = 0, sem_nsems = 0, sem_otime = 0, sem_ctime = 0\<rparr>,
            \<lparr>sem_perm = zero_perm, sem_base = 0, sem_nsems = 0, sem_otime = 0, sem_ctime = 0\<rparr>],
    sems = replicate 4 \<lparr>semval = 0, sempid = 0, semncnt = 0, semzcnt = 0\<rparr>,
    semmap = \<lparr>mapsize = 7, mapwant = 0, slots = ent 4 1 # replicate 8 (ent 0 0)\<rparr>,
    semu = [[], []], semunp = [], semfup = [0, 1], sem_undo = [None, None], woken = []\<rparr>"
proof -
  have two: "replicate 2 x = [x, x]" "[0 ..< 2] = [0, 1 :: nat]" for x :: 'x
    by (simp_all add: eval_nat_numeral)
  have "replicate 9 x = x # replicate 8 x" for x :: map_ent by (simp add: eval_nat_numeral)
  then show ?thesis
    by (simp add: demo_boot_def seminit_def demo_si_def rm_release_def rmfree_def mapinit_def rm_zeroed_def
        rm_at_def rm_wake_def uadd_def two)
qed

lemma demo_made_eq: "demo_made = demo_boot\<lparr>
    sema := [demo_set, \<lparr>sem_perm = zero_perm, sem_base = 0, sem_nsems = 0, sem_otime = 0, sem_ctime = 0\<rparr>],
    semmap := \<lparr>mapsize = 7, mapwant = 0, slots = ent 2 3 # replicate 8 (ent 0 0)\<rparr>\<rparr>"
  by (simp add: demo_made_def demo_get_def demo_set_def semsys_def semget_def demo_boot_eq
      demo_si_def ipcget_def sem_perms_def zero_perm_def ipc_alloc_def ipc_bits ipc_other_level_def
      keep_first_def IPC_PRIVATE_def ipc_create_def ipc_init_perm_def sem_set_perm_def upd_ds_def Let_def
      rmalloc_def uadd_def u16_def demo_ctx_def demo_cred_def demo_sec_def)

lemma demo_raised_eq: "demo_raised = demo_made\<lparr>
    sema := [demo_set\<lparr>sem_otime := 1000\<rparr>,
      \<lparr>sem_perm = zero_perm, sem_base = 0, sem_nsems = 0, sem_otime = 0, sem_ctime = 0\<rparr>],
    sems := (sems demo_made)[1 := \<lparr>semval = 3, sempid = 42, semncnt = 0, semzcnt = 0\<rparr>],
    semu := [[\<lparr>un_aoe = -3, un_num = 1, un_id = 0\<rparr>], []], semunp := [0], semfup := [1],
    sem_undo := [None, Some 0]\<rparr>"
proof -
  have four: "replicate 4 x = [x, x, x, x]" for x :: semaphore by (simp add: eval_nat_numeral)
  show ?thesis
    by (simp add: demo_raised_def demo_raise_def demo_made_eq demo_boot_eq demo_set_def semsys_def four
        demo_call_simps)
qed

lemma demo_limits: "sem_limits demo_si"
  by (simp add: sem_limits_def undo_limits_def demo_si_def SHRT_MAX_def USHRT_MAX_def)

lemma demo_reach: "sem_reach demo_si 2 demo_boot" "sem_reach demo_si 2 demo_made"
  "sem_reach demo_si 2 demo_raised"
proof -
  have slot: "p_slot demo_ctx < 2" by (simp add: demo_ctx_def)
  show boot: "sem_reach demo_si 2 demo_boot"
    unfolding demo_boot_def by (rule sem_reach.boot [OF demo_limits])
  show made: "sem_reach demo_si 2 demo_made"
    unfolding demo_made_def by (rule sem_reach.call [OF boot slot prod.collapse [symmetric]])
  show "sem_reach demo_si 2 demo_raised"
    unfolding demo_raised_def by (rule sem_reach.call [OF made slot prod.collapse [symmetric]])
qed



lemma demo_conv: "semconv demo_si demo_raised 0 = Ok 0"
  by (simp add: semconv_def demo_raised_eq demo_made_eq demo_set_def demo_si_def ipc_bits)

text \<open>C25: The exit of a process applies each of its adjust-on-exit values to the semaphore it
  was posted for, unless the result would leave the range from 0 to \<open>semvmx\<close>; it leaves the
  process without any value and those of all other processes as they are.\<close>

theorem semexit_applies_adjustments:
  assumes "sem_reach si nproc s" and "p_slot c < nproc"
    and "semconv si s ident = Ok sp" and "n < sem_nsems (sema s ! sp)" and "i < nproc"
  shows "semvals (semexit si c s) ! (sem_base (sema s ! sp) + n) =
      adjusted (semvmx si) (semvals s ! (sem_base (sema s ! sp) + n)) (adj s (p_slot c) (ident, n))
    \<and> adj (semexit si c s) i = (if i = p_slot c then (\<lambda>k. 0) else adj s i)"
  using semexit_effect [OF sem_reach_inv [OF assms(1)] assms(2)] assms(3-5) by blast

theorem semexit_applies_adjustments_witness:
  "semvals demo_raised ! 1 = 3 \<and> semvals (semexit demo_si demo_ctx demo_raised) ! 1 = 0"
proof -
  have n: "1 < sem_nsems (sema demo_raised ! 0)" by (simp add: demo_raised_eq demo_set_def)
  have slot: "p_slot demo_ctx < 2" by (simp add: demo_ctx_def)
  have vals: "semvals demo_raised ! 1 = 3"
    by (simp add: semvals_def demo_raised_eq demo_made_eq demo_boot_eq)
  moreover have "adj demo_raised (p_slot demo_ctx) (0, 1) = -3"
    by (simp add: adj_def demo_raised_eq demo_ctx_def undo_key_def)
  moreover have "sem_base (sema demo_raised ! 0) = 0" by (simp add: demo_raised_eq demo_set_def)
  ultimately show ?thesis
    using semexit_applies_adjustments [OF demo_reach(3) slot demo_conv n slot]
    by (simp add: adjusted_def demo_si_def)
qed

text \<open>C26: Removing a set ends its identifier: later calls that use it get \<open>EINVAL\<close> and a
  sleeper that wakes up gets \<open>EIDRM\<close>, also when the slot has been given to a new set; all
  adjust-on-exit values for the set are gone and no other identifier is affected.\<close>

theorem semctl_rmid_ends_identifier:
  assumes "sem_reach si nproc s" and "semconv si s ident = Ok sp"
    and "semctl_rmid si c old_cmd ident sp s = (Ok v, s')"
  shows "(\<forall>x i. i \<noteq> sp \<longrightarrow> semconv si s x = Ok i \<longrightarrow> semconv si s' x = Ok i)
    \<and> (\<forall>i < nproc. \<forall>n \<le> sem_nsems (sema s ! sp). adj s' i (ident, n) = 0)
    \<and> (\<forall>t. ip_seq (sem_perm (sema t ! sp)) = ip_seq (sem_perm (sema s' ! sp)) \<longrightarrow>
        semconv si t ident = Err EINVAL
        \<and> (\<forall>uap c' usr. so_semid uap = ident \<longrightarrow> fst (semop si c' uap usr t) = SemopRet (Err EINVAL))
        \<and> (\<forall>uap c' usr ch. so_semid uap = ident \<longrightarrow>
             fst (semop_resume si c' uap sp ch False usr t) = SemopRet (Err EIDRM)))"
proof -
  have inv: "sem_inv si nproc s" by (rule sem_reach_inv [OF assms(1)])
  note rm = semctl_rmid_inv(2) [OF inv assms(2,3) refl]
  note sp = conv_in_range [OF inv assms(2)]
  have lt: "sp < semmni si" and seq: "seq_ok (semmni si) sp (ip_seq (sem_perm (sema s ! sp)))"
    and lim: "2 * int (semmni si) \<le> SHRT_MAX"
    using sp sem_invD(1,6,8) [OF inv] by (simp_all add: sets_ok_def seqs_ok_def sem_limits_def)
  have id: "ident = ipc_id (semmni si) (ip_seq (sem_perm (sema s ! sp))) sp"
    using sem_ids.conv_ident [of sp si s, OF lt sp(2) seq] sem_ids.conv_inj [OF assms(2)] by simp
  have "semconv si t ident = Err EINVAL"
    if "ip_seq (sem_perm (sema t ! sp)) = ip_seq (sem_perm (sema s' ! sp))" for t
    using sem_ids.conv_stale [of sp si "ip_seq (sem_perm (sema s ! sp))" t old_cmd, OF lt seq lim]
      that rm id by simp
  then show ?thesis using rm by (auto simp: semop_def semop_resume_def)
qed

theorem semctl_rmid_ends_identifier_witness:
  "semconv demo_si demo_raised 0 = Ok 0
   \<and> semconv demo_si (snd (semctl_rmid demo_si demo_ctx False 0 0 demo_raised)) 0 = Err EINVAL"
proof -
  let ?run = "semctl_rmid demo_si demo_ctx False 0 0 demo_raised"
  have "fst ?run = Ok (RVal 0)"
    by (simp add: semctl_rmid_def sem_owner_def demo_raised_eq demo_made_eq demo_set_def ipcaccess_def
        MAC_ACCESS_def demo_ctx_def demo_cred_def demo_sec_def ipc_bits Let_def)
  then have run: "?run = (Ok (RVal 0), snd ?run)" by (metis prod.collapse)
  from semctl_rmid_ends_identifier [OF demo_reach(3) demo_conv run] demo_conv
  show ?thesis by blast
qed

end
