(* ===== verification/Record_Locks.thy ===== *)
theory Record_Locks
  imports Kernel_Prelude
begin

text \<open>
  File and record locking (\<open>fs/flock.c\<close>): the chain of locks of a file, the adjustment of a
  process's locks to a new request \<open>flckadj\<close>, the conflict test \<open>blocked\<close>, deadlock
  detection, and the entry points \<open>reclock\<close>, \<open>chklock\<close> and \<open>cleanlocks\<close>.

  A doubly linked chain of \<open>filock\<close> records is a list; \<open>fl_addr\<close> is the address of a record,
  so a pointer to a record is its address, \<open>NULL\<close> is \<open>None\<close>, and \<open>prev\<close> and \<open>next\<close> are the
  neighbours in the list.  Addresses are handed out by a counter.  The union \<open>stat\<close> is kept
  as in C: one word is \<open>wakeflg\<close> of a lock and \<open>blk.sysid\<close> of a sleeping request.
  \<open>l_end\<close> and \<open>l_len\<close> are one field in the code and in the model.

  Whether \<open>kmem_zalloc\<close> finds memory, the attributes of the vnode and the XENIX
  compatibility flags of the calling process are arguments.
\<close>

section \<open>Data\<close>

datatype lck_type = F_RDLCK | F_WRLCK | F_UNLCK | F_OTHER

record flock =
  l_type :: lck_type
  l_whence :: int
  l_start :: int
  l_end :: int
  l_sysid :: int
  l_pid :: int

record filock =
  fl_addr :: nat
  fl_set :: flock
  st_word :: int      \<comment> \<open>\<open>stat.wakeflg\<close>, and \<open>stat.blk.sysid\<close> of a sleeping request\<close>
  blk_pid :: int      \<comment> \<open>\<open>stat.blk.pid\<close>\<close>

record flckinfo =
  reccnt :: int
  rectot :: int
  next_addr :: nat
  lck_woken :: "nat list"

record lck_env =
  t_flckrec :: int
  kmem_ok :: "nat \<Rightarrow> bool"
  virtual_xout :: bool
  isfcntl :: bool
  islocking :: bool
  badvise_pre_sv :: bool

definition MAXEND :: int where "MAXEND = 2147483647"   \<comment> \<open>017777777777\<close>

definition SAMEOWNER :: "flock \<Rightarrow> flock \<Rightarrow> bool" where
  "SAMEOWNER a b \<longleftrightarrow> l_pid a = l_pid b \<and> l_sysid a = l_sysid b"

section \<open>Chains of locks\<close>

fun at_addr :: "nat \<Rightarrow> filock list \<Rightarrow> filock option" where
  "at_addr a [] = None"
| "at_addr a (f # fs) = (if fl_addr f = a then Some f else at_addr a fs)"

fun upd_addr :: "nat \<Rightarrow> (filock \<Rightarrow> filock) \<Rightarrow> filock list \<Rightarrow> filock list" where
  "upd_addr a g [] = []"
| "upd_addr a g (f # fs) = (if fl_addr f = a then g f # fs else f # upd_addr a g fs)"

fun insert_after :: "nat option \<Rightarrow> filock \<Rightarrow> filock list \<Rightarrow> filock list" where
  "insert_after None new fs = new # fs"
| "insert_after (Some a) new [] = [new]"
| "insert_after (Some a) new (f # fs) =
     (if fl_addr f = a then f # new # fs else f # insert_after (Some a) new fs)"

fun unlink_addr :: "nat \<Rightarrow> filock list \<Rightarrow> filock list" where
  "unlink_addr a [] = []"
| "unlink_addr a (f # fs) = (if fl_addr f = a then fs else f # unlink_addr a fs)"

fun prev_addr :: "nat option \<Rightarrow> nat \<Rightarrow> filock list \<Rightarrow> nat option" where
  "prev_addr p a [] = p"
| "prev_addr p a (f # fs) = (if fl_addr f = a then p else prev_addr (Some (fl_addr f)) a fs)"

fun chain_from :: "nat \<Rightarrow> filock list \<Rightarrow> filock list" where
  "chain_from a [] = []"
| "chain_from a (f # fs) = (if fl_addr f = a then f # fs else chain_from a fs)"

definition insflck ::
  "lck_env \<Rightarrow> filock list \<Rightarrow> flock \<Rightarrow> nat option \<Rightarrow> flckinfo \<Rightarrow> nat option \<times> filock list \<times> flckinfo"
where
  "insflck env lst lckdat fl info =
     (if reccnt info \<ge> t_flckrec env then (None, lst, info)
      else if \<not> kmem_ok env (next_addr info) then (None, lst, info)
      else
        let new = \<lparr>fl_addr = next_addr info, fl_set = lckdat, st_word = 0, blk_pid = 0\<rparr> in
        (Some (next_addr info), insert_after fl new lst,
         info\<lparr>reccnt := reccnt info + 1, rectot := s32 (rectot info + 1), next_addr := next_addr info + 1\<rparr>))"

definition WAKEUP :: "nat \<Rightarrow> filock list \<Rightarrow> flckinfo \<Rightarrow> filock list \<times> flckinfo" where
  "WAKEUP a lst info =
     (case at_addr a lst of
        None \<Rightarrow> (lst, info)
      | Some f \<Rightarrow>
          if st_word f \<noteq> 0
          then (upd_addr a (\<lambda>f. f\<lparr>st_word := 0\<rparr>) lst, info\<lparr>lck_woken := a # lck_woken info\<rparr>)
          else (lst, info))"

definition delflck :: "filock list \<Rightarrow> nat \<Rightarrow> flckinfo \<Rightarrow> filock list \<times> flckinfo" where
  "delflck lst a info =
     (let info1 = snd (WAKEUP a lst info) in
      (unlink_addr a lst, info1\<lparr>reccnt := reccnt info1 - 1\<rparr>))"

section \<open>The region a request covers relative to a lock\<close>

datatype s_region = S_BEFORE | S_START | S_MIDDLE | S_END | S_AFTER
datatype e_region = E_BEFORE | E_START | E_MIDDLE | E_END | E_AFTER

definition regflck :: "flock \<Rightarrow> filock \<Rightarrow> s_region \<times> e_region" where
  "regflck ld flp =
     (let e = (if l_end ld < l_end (fl_set flp) then
                 (if l_end ld = l_start (fl_set flp) - 1 then E_START
                  else if l_end ld < l_start (fl_set flp) then E_BEFORE
                  else E_MIDDLE)
               else if l_end ld = l_end (fl_set flp) then E_END
               else E_AFTER) in
      if l_start ld > l_start (fl_set flp) then
        (if l_start ld - 1 = l_end (fl_set flp) then (S_END, E_AFTER)
         else if l_start ld > l_end (fl_set flp) then (S_AFTER, E_AFTER)
         else (S_MIDDLE, e))
      else if l_start ld = l_start (fl_set flp) then (S_START, e)
      else (S_BEFORE, e))"

section \<open>Adjusting a process's locks\<close>

text \<open>
  One lock of the requesting process: what the switch of \<open>flckadj\<close> does with it.  The
  result is a return from \<open>flckadj\<close>, or the request, the insert position and whether the
  scan stops, with the chain and the counters.
\<close>

datatype adj_out = AdjReturn "unit res" | AdjNext flock "nat option" bool

type_synonym adj_state = "filock list \<times> flckinfo"

text \<open>The last lock from \<open>flp\<close> on that starts before \<open>start\<close>.\<close>

fun last_before :: "int \<Rightarrow> nat option \<Rightarrow> filock list \<Rightarrow> nat option" where
  "last_before start p [] = p"
| "last_before start p (f # fs) =
     (if l_start (fl_set f) < start then last_before start (Some (fl_addr f)) fs else p)"

text \<open>Cutting a lock off before the request, and waking those who wait for it.\<close>

definition cut_before :: "flock \<Rightarrow> nat \<Rightarrow> adj_state \<Rightarrow> adj_state" where
  "cut_before ld a st =
     WAKEUP a (upd_addr a (\<lambda>f. f\<lparr>fl_set := (fl_set f)\<lparr>l_end := l_start ld - 1\<rparr>\<rparr>) (fst st)) (snd st)"

text \<open>The three cases that end inside the lock, from the tests on the type on.\<close>

definition adj_middle ::
  "lck_env \<Rightarrow> flock \<Rightarrow> nat option \<Rightarrow> filock \<Rightarrow> bool \<Rightarrow> adj_state \<Rightarrow> adj_out \<times> adj_state" where
  "adj_middle env ld insrtp flp inside st =
     (let a = fl_addr flp;
          finish = (\<lambda>ld st.
            if inside then (AdjNext ld (Some a) True, cut_before ld a st)
            else (AdjNext ld insrtp True, delflck (fst st) a (snd st))) in
      if l_type ld = l_type (fl_set flp) then finish (ld\<lparr>l_end := l_end (fl_set flp)\<rparr>) st
      else
        let td = (fl_set flp)\<lparr>l_start := l_end ld + 1\<rparr>;
            tdi = last_before (l_start td) (Some a) (chain_from a (fst st)) in
        case insflck env (fst st) td tdi (snd st) of
          (None, st') \<Rightarrow> (AdjReturn (Err ENOLCK), st')
        | (Some _, st') \<Rightarrow> finish ld st')"

definition adj_one ::
  "lck_env \<Rightarrow> flock \<Rightarrow> nat option \<Rightarrow> filock \<Rightarrow> adj_state \<Rightarrow> adj_out \<times> adj_state" where
  "adj_one env ld insrtp flp st =
     (let a = fl_addr flp;
          same = (l_type ld = l_type (fl_set flp));
          prev = prev_addr None a (fst st);
          del = delflck (fst st) a (snd st) in
      case regflck ld flp of
        (S_BEFORE, E_BEFORE) \<Rightarrow> (AdjNext ld insrtp True, st)
      | (S_BEFORE, E_START) \<Rightarrow>
          if same then (AdjNext (ld\<lparr>l_end := l_end (fl_set flp)\<rparr>) insrtp True, del)
          else (AdjNext ld insrtp True, st)
      | (S_START, E_END) \<Rightarrow>
          if same then (AdjReturn (Ok ()), st) else (AdjNext ld prev False, del)
      | (S_START, E_AFTER) \<Rightarrow> (AdjNext ld prev False, del)
      | (S_BEFORE, E_END) \<Rightarrow> (AdjNext ld insrtp same, del)
      | (S_BEFORE, E_AFTER) \<Rightarrow> (AdjNext ld insrtp False, del)
      | (S_START, E_MIDDLE) \<Rightarrow>
          if same then (AdjReturn (Ok ()), st) else adj_middle env ld prev flp False st
      | (S_MIDDLE, E_MIDDLE) \<Rightarrow>
          if same then (AdjReturn (Ok ()), st) else adj_middle env ld insrtp flp True st
      | (S_BEFORE, E_MIDDLE) \<Rightarrow> adj_middle env ld insrtp flp False st
      | (S_MIDDLE, E_END) \<Rightarrow>
          if same then (AdjReturn (Ok ()), st)
          else (AdjNext ld (Some a) False, cut_before ld a st)
      | (S_MIDDLE, E_AFTER) \<Rightarrow>
          if same then (AdjNext (ld\<lparr>l_start := l_start (fl_set flp)\<rparr>) prev False, del)
          else (AdjNext ld (Some a) False, cut_before ld a st)
      | (S_END, E_AFTER) \<Rightarrow>
          if same then (AdjNext (ld\<lparr>l_start := l_start (fl_set flp)\<rparr>) prev False, del)
          else (AdjNext ld insrtp False, st)
      | (S_AFTER, E_AFTER) \<Rightarrow> (AdjNext ld (Some a) False, st)
      | _ \<Rightarrow> (AdjNext ld insrtp False, st))"

fun adj_loop ::
  "lck_env \<Rightarrow> flock \<Rightarrow> nat option \<Rightarrow> filock list \<Rightarrow> adj_state \<Rightarrow> adj_out \<times> adj_state" where
  "adj_loop env ld insrtp [] st = (AdjNext ld insrtp True, st)"
| "adj_loop env ld insrtp (flp # nflp) st =
     (if SAMEOWNER (fl_set flp) ld then
        (case adj_one env ld insrtp flp st of
           (AdjReturn r, st') \<Rightarrow> (AdjReturn r, st')
         | (AdjNext ld' i' stop, st') \<Rightarrow>
             if stop then (AdjNext ld' i' True, st') else adj_loop env ld' i' nflp st')
      else adj_loop env ld insrtp nflp st)"

definition flckadj ::
  "lck_env \<Rightarrow> nat option \<Rightarrow> flock \<Rightarrow> filock list \<Rightarrow> flckinfo \<Rightarrow> unit res \<times> flock \<times> adj_state" where
  "flckadj env insrtp ld lst info =
     (let todo = (case insrtp of None \<Rightarrow> lst | Some a \<Rightarrow> chain_from a lst) in
      case adj_loop env ld insrtp todo (lst, info) of
        (AdjReturn r, st) \<Rightarrow> (r, ld, st)
      | (AdjNext ld' i' _, st) \<Rightarrow>
          if l_type ld' = F_UNLCK then (Ok (), ld', st)
          else
            let i'' = (case i' of None \<Rightarrow> None
                       | Some a \<Rightarrow> last_before (l_start ld') (Some a) (chain_from a (fst st))) in
            case insflck env (fst st) ld' i'' (snd st) of
              (None, st') \<Rightarrow> (Err ENOLCK, ld', st')
            | (Some _, st') \<Rightarrow> (Ok (), ld', st'))"

section \<open>Conflicts and deadlock\<close>

definition xenix_compat :: "lck_env \<Rightarrow> flock \<Rightarrow> bool" where
  "xenix_compat env lckdat \<longleftrightarrow>
     (virtual_xout env \<and> isfcntl env) \<and> l_type lckdat = F_UNLCK \<or> badvise_pre_sv env"

definition lock_blocks :: "lck_env \<Rightarrow> flock \<Rightarrow> filock \<Rightarrow> bool" where
  "lock_blocks env lckdat f \<longleftrightarrow>
     l_start lckdat \<le> l_end (fl_set f)
     \<and> (l_type (fl_set f) = F_WRLCK \<or> xenix_compat env lckdat \<and> islocking env
        \<or> l_type (fl_set f) = F_RDLCK \<and> l_type lckdat = F_WRLCK)"

text \<open>The second loop of \<open>blocked\<close>, and the first, which also finds the insert position.\<close>

fun blocked_rest :: "lck_env \<Rightarrow> flock \<Rightarrow> filock list \<Rightarrow> filock option" where
  "blocked_rest env lckdat [] = None"
| "blocked_rest env lckdat (f # fs) =
     (if l_end lckdat < l_start (fl_set f) then None
      else if \<not> SAMEOWNER (fl_set f) lckdat \<and> lock_blocks env lckdat f then Some f
      else blocked_rest env lckdat fs)"

fun blocked_scan ::
  "lck_env \<Rightarrow> flock \<Rightarrow> nat option \<Rightarrow> filock list \<Rightarrow> filock option \<times> nat option" where
  "blocked_scan env lckdat insrt [] = (None, insrt)"
| "blocked_scan env lckdat insrt (f # fs) =
     (if l_start (fl_set f) < l_start lckdat then
        (if SAMEOWNER (fl_set f) lckdat then
           (if l_start lckdat - 1 \<le> l_end (fl_set f)
            then (blocked_rest env lckdat (f # fs), Some (fl_addr f))
            else blocked_scan env lckdat (Some (fl_addr f)) fs)
         else if lock_blocks env lckdat f then (Some f, Some (fl_addr f))
         else blocked_scan env lckdat (Some (fl_addr f)) fs)
      else (blocked_rest env lckdat (f # fs), insrt))"

definition blocked :: "lck_env \<Rightarrow> filock list \<Rightarrow> flock \<Rightarrow> filock option \<times> nat option" where
  "blocked env lst lckdat = blocked_scan env lckdat None lst"

text \<open>
  Deadlock detection follows the blocking processes through the sleeping requests.  The loop
  has no bound of its own: \<open>None\<close> is a loop that does not end.
\<close>

fun sleeping_on :: "int \<times> int \<Rightarrow> filock list \<Rightarrow> (int \<times> int) option" where
  "sleeping_on p [] = None"
| "sleeping_on p (sf # sfs) =
     (if fst p = l_pid (fl_set sf) \<and> snd p = l_sysid (fl_set sf) then Some (blk_pid sf, st_word sf)
      else sleeping_on p sfs)"

partial_function (option) deadflck_loop :: "filock list \<Rightarrow> flock \<Rightarrow> int \<times> int \<Rightarrow> bool option" where
  "deadflck_loop sleepers lckdat blck =
     (if fst blck = l_pid lckdat \<and> snd blck = l_sysid lckdat then Some True
      else case sleeping_on blck sleepers of
             None \<Rightarrow> Some False
           | Some next \<Rightarrow> deadflck_loop sleepers lckdat next)"

declare deadflck_loop.simps [code]

definition deadflck :: "filock list \<Rightarrow> filock \<Rightarrow> flock \<Rightarrow> bool option" where
  "deadflck sleepers flp lckdat =
     deadflck_loop sleepers lckdat (l_pid (fl_set flp), l_sysid (fl_set flp))"

end
