(* ===== verification/Record_Lock_Adjust.thy ===== *)
theory Record_Lock_Adjust
  imports Record_Locks
begin

text \<open>
  The correctness of \<open>flckadj\<close>: with the chain in order before, the chain is in order after,
  the requesting process holds the requested type on exactly the requested bytes and what it
  held before elsewhere, and nobody else's bytes change.
\<close>

section \<open>The order of a chain\<close>

abbreviation "lstart f \<equiv> l_start (fl_set f)"
abbreviation "lend f \<equiv> l_end (fl_set f)"
abbreviation "ltype f \<equiv> l_type (fl_set f)"

definition owner :: "flock \<Rightarrow> int \<times> int" where
  "owner l = (l_pid l, l_sysid l)"

lemma SAMEOWNER_owner: "SAMEOWNER a b \<longleftrightarrow> owner a = owner b"
  by (auto simp: SAMEOWNER_def owner_def)

text \<open>
  \<open>f\<close> may come before \<open>g\<close>: the starts are in order and two locks of one process neither
  overlap nor touch with the same type.
\<close>

definition lck_before :: "flock \<Rightarrow> flock \<Rightarrow> bool" where
  "lck_before f g \<longleftrightarrow> l_start f \<le> l_start g
     \<and> (owner f = owner g \<longrightarrow> l_end f < l_start g \<and> (l_end f + 1 = l_start g \<longrightarrow> l_type f \<noteq> l_type g))"

definition lck_range :: "flock \<Rightarrow> bool" where
  "lck_range l \<longleftrightarrow> 0 \<le> l_start l \<and> l_start l \<le> l_end l \<and> l_end l \<le> MAXEND"

definition locks_ok :: "flock list \<Rightarrow> bool" where
  "locks_ok ls \<longleftrightarrow> sorted_wrt lck_before ls
     \<and> (\<forall>l \<in> set ls. lck_range l \<and> l_type l \<in> {F_RDLCK, F_WRLCK})"

definition chain_ok :: "filock list \<Rightarrow> flckinfo \<Rightarrow> bool" where
  "chain_ok lst info \<longleftrightarrow> locks_ok (map fl_set lst) \<and> distinct (map fl_addr lst)
     \<and> (\<forall>f \<in> set lst. fl_addr f < next_addr info)"

text \<open>Which type a process holds on a byte of the file.\<close>

definition holds :: "flock list \<Rightarrow> int \<times> int \<Rightarrow> int \<Rightarrow> lck_type \<Rightarrow> bool" where
  "holds ls p x t \<longleftrightarrow> (\<exists>l \<in> set ls. owner l = p \<and> l_start l \<le> x \<and> x \<le> l_end l \<and> l_type l = t)"

text \<open>The same with the request laid over the locks.\<close>

definition holds_over :: "flock \<Rightarrow> flock list \<Rightarrow> int \<times> int \<Rightarrow> int \<Rightarrow> lck_type \<Rightarrow> bool" where
  "holds_over ld ls p x t \<longleftrightarrow>
     (if p = owner ld \<and> l_start ld \<le> x \<and> x \<le> l_end ld then t = l_type ld else holds ls p x t)"

lemma holds_simps [simp]:
  "holds [] p x t = False"
  "holds (l # ls) p x t \<longleftrightarrow>
     owner l = p \<and> l_start l \<le> x \<and> x \<le> l_end l \<and> l_type l = t \<or> holds ls p x t"
  "holds (ls @ ls') p x t \<longleftrightarrow> holds ls p x t \<or> holds ls' p x t"
  by (auto simp: holds_def)

lemma owner_upd [simp]:
  "owner (l\<lparr>l_start := a\<rparr>) = owner l" "owner (l\<lparr>l_end := a\<rparr>) = owner l"
  by (simp_all add: owner_def)

section \<open>Chain operations at a known place\<close>

lemma at_place:
  assumes "fl_addr f \<notin> fl_addr ` set P"
  shows "unlink_addr (fl_addr f) (P @ f # R) = P @ R"
    "upd_addr (fl_addr f) g (P @ f # R) = P @ g f # R"
    "chain_from (fl_addr f) (P @ f # R) = f # R"
    "insert_after (Some (fl_addr f)) new (P @ f # R) = P @ f # new # R"
    "at_addr (fl_addr f) (P @ f # R) = Some f"
  using assms by (induction P) auto

lemma prev_place:
  assumes "fl_addr f \<notin> fl_addr ` set P"
  shows "prev_addr p (fl_addr f) (P @ f # R) = (if P = [] then p else Some (fl_addr (last P)))"
  using assms by (induction P arbitrary: p) auto

lemma last_before_takeWhile:
  "last_before s p fs =
     (case takeWhile (\<lambda>f. lstart f < s) fs of [] \<Rightarrow> p | w # ws \<Rightarrow> Some (fl_addr (last (w # ws))))"
  by (induction fs arbitrary: p) (auto split: list.splits)

lemma delflck_place:
  assumes "fl_addr f \<notin> fl_addr ` set P"
  obtains info' where "delflck (P @ f # R) (fl_addr f) info = (P @ R, info')"
    "next_addr info' = next_addr info"
  using assms by (auto simp: delflck_def WAKEUP_def at_place Let_def)

lemma cut_before_place:
  assumes "fl_addr f \<notin> fl_addr ` set P"
  obtains f' info' where "cut_before ld (fl_addr f) (P @ f # R, info) = (P @ f' # R, info')"
    "fl_addr f' = fl_addr f" "fl_set f' = (fl_set f)\<lparr>l_end := l_start ld - 1\<rparr>"
    "next_addr info' = next_addr info"
proof -
  let ?f = "f\<lparr>fl_set := (fl_set f)\<lparr>l_end := l_start ld - 1\<rparr>\<rparr>"
  have "at_addr (fl_addr f) (P @ ?f # R) = Some ?f"
    "upd_addr (fl_addr f) h (P @ ?f # R) = P @ h ?f # R" for h
    using at_place [of ?f P] assms by simp_all
  then have run: "cut_before ld (fl_addr f) (P @ f # R, info) =
      (if st_word f \<noteq> 0 then (P @ ?f\<lparr>st_word := 0\<rparr> # R, info\<lparr>lck_woken := fl_addr f # lck_woken info\<rparr>)
       else (P @ ?f # R, info))"
    using assms by (simp add: cut_before_def WAKEUP_def at_place)
  show thesis
  proof (cases "st_word f = 0")
    case True
    with run show thesis by (intro that [of ?f info]) simp_all
  next
    case False
    with run show thesis
      by (intro that [of "?f\<lparr>st_word := 0\<rparr>" "info\<lparr>lck_woken := fl_addr f # lck_woken info\<rparr>"]) simp_all
  qed
qed

text \<open>
  Insertion after the last lock that starts before the new one, searched from a lock that
  starts before it, or from one that does not start after it.
\<close>

lemma insert_after_place:
  assumes dist: "distinct (map fl_addr (P @ f # R))" and sorted: "sorted (map lstart R)"
    and f: "lstart f < s"
  obtains W B where "R = W @ B" "\<forall>g \<in> set W. lstart g < s" "\<forall>g \<in> set B. s \<le> lstart g"
    "insert_after (last_before s (Some (fl_addr f)) (chain_from (fl_addr f) (P @ f # R))) new (P @ f # R)
     = P @ f # W @ new # B"
proof -
  let ?W = "takeWhile (\<lambda>g. lstart g < s) R" and ?B = "dropWhile (\<lambda>g. lstart g < s) R"
  have P: "fl_addr f \<notin> fl_addr ` set P" using dist by simp
  have pos: "last_before s (Some (fl_addr f)) (chain_from (fl_addr f) (P @ f # R))
    = Some (fl_addr (last (f # ?W)))"
    using f P by (simp add: at_place last_before_takeWhile split: list.splits)
  have ins: "insert_after (Some (fl_addr (last (f # ?W)))) new (P @ f # R) = P @ f # ?W @ new # ?B"
  proof (cases "?W = []")
    case True
    moreover from True have B: "?B = R" by (metis append_Nil takeWhile_dropWhile_id)
    show ?thesis unfolding True B using P by (simp add: at_place)
  next
    case False
    let ?w = "last ?W"
    have W: "butlast ?W @ ?w # ?B = R"
      using False by (metis append.assoc append_Cons append_Nil append_butlast_last_id takeWhile_dropWhile_id)
    have "fl_addr ?w \<notin> fl_addr ` set (P @ f # butlast ?W)"
      using dist by (subst (asm) W [symmetric]) auto
    from at_place(4) [OF this, of new ?B] W
    have "insert_after (Some (fl_addr ?w)) new (P @ f # R) = (P @ f # butlast ?W) @ ?w # new # ?B" by simp
    also have "\<dots> = P @ f # ?W @ new # ?B" using False by (metis append.assoc append_Cons append_Nil append_butlast_last_id)
    finally show ?thesis using False by simp
  qed
  have "s \<le> lstart g" if "g \<in> set ?B" for g
  proof -
    have sB: "sorted (map lstart ?B)" using sorted by (metis map_append sorted_append takeWhile_dropWhile_id)
    from that have "?B \<noteq> []" by (metis empty_iff list.set(1))
    then have "s \<le> lstart (hd ?B)" using hd_dropWhile [of "\<lambda>g. lstart g < s" R] by auto
    with sB that \<open>?B \<noteq> []\<close> show ?thesis by (cases ?B) auto
  qed
  with pos ins show thesis
    by (intro that [of ?W ?B]) (auto dest: set_takeWhileD)
qed

lemma insert_sorted_place:
  assumes f: "f \<in> set lst" "lstart f \<le> s" and dist: "distinct (map fl_addr lst)"
    and sorted: "sorted (map lstart lst)"
  obtains A B where "lst = A @ B"
    "insert_after (last_before s (Some (fl_addr f)) (chain_from (fl_addr f) lst)) new lst = A @ new # B"
    "\<forall>g \<in> set A. lstart g \<le> s" "\<forall>g \<in> set B. s \<le> lstart g"
proof -
  obtain P R where lst: "lst = P @ f # R" using f(1) by (meson split_list)
  have P: "fl_addr f \<notin> fl_addr ` set P" using dist by (simp add: lst)
  have below: "\<forall>g \<in> set P. lstart g \<le> s" and above: "\<forall>g \<in> set R. lstart f \<le> lstart g"
    and R: "sorted (map lstart R)"
    using sorted f(2) by (auto simp: lst sorted_append)
  show thesis
  proof (cases "lstart f < s")
    case False
    with f(2) have "lstart f = s" by simp
    with below above P show thesis
      by (intro that [of "P @ [f]" R]) (auto simp: lst at_place)
  next
    case True
    obtain W B where "R = W @ B" "\<forall>g \<in> set W. lstart g < s" "\<forall>g \<in> set B. s \<le> lstart g"
      "insert_after (last_before s (Some (fl_addr f)) (chain_from (fl_addr f) lst)) new lst = P @ f # W @ new # B"
      using insert_after_place [OF dist [unfolded lst] R True] lst by metis
    with below f(2) show thesis
      by (intro that [of "P @ f # W" B]) (auto simp: lst)
  qed
qed

section \<open>The request against one lock\<close>

definition left_of :: "flock \<Rightarrow> flock \<Rightarrow> bool" where
  "left_of ld l \<longleftrightarrow> l_end l < l_start ld \<and> (l_end l + 1 = l_start ld \<longrightarrow> l_type l \<noteq> l_type ld)"

definition right_of :: "flock \<Rightarrow> flock \<Rightarrow> bool" where
  "right_of ld l \<longleftrightarrow> l_end ld < l_start l \<and> (l_end ld + 1 = l_start l \<longrightarrow> l_type l \<noteq> l_type ld)"

lemma locks_ok_append:
  "locks_ok (P @ R) \<longleftrightarrow> locks_ok P \<and> locks_ok R \<and> (\<forall>f \<in> set P. \<forall>g \<in> set R. lck_before f g)"
  by (auto simp: locks_ok_def sorted_wrt_append)

lemma locks_ok_Cons:
  "locks_ok (l # R) \<longleftrightarrow> lck_range l \<and> l_type l \<in> {F_RDLCK, F_WRLCK} \<and> locks_ok R
     \<and> (\<forall>g \<in> set R. lck_before l g)"
  by (auto simp: locks_ok_def)

lemma locks_ok_Nil [simp]: "locks_ok []"
  by (simp add: locks_ok_def)

lemmas locks_ok_simps = locks_ok_append locks_ok_Cons

lemma own_gap:
  assumes "locks_ok (P @ l # R)" and "g \<in> set R" and "owner g = owner l"
  shows "l_end l < l_start g" "l_end l + 1 = l_start g \<Longrightarrow> l_type l \<noteq> l_type g"
proof -
  have "lck_before l g" using assms(1,2) by (simp add: locks_ok_simps)
  with assms(3) show "l_end l < l_start g" "l_end l + 1 = l_start g \<Longrightarrow> l_type l \<noteq> l_type g"
    by (simp_all add: lck_before_def)
qed

lemma own_disjoint:
  assumes "locks_ok (P @ l # R)" and "l_start l \<le> x" and "x \<le> l_end l"
  shows "\<not> holds P (owner l) x t" "\<not> holds R (owner l) x t"
  using assms by (auto simp: locks_ok_simps holds_def lck_before_def)

text \<open>A lock of the process that the request, possibly grown by it, takes in.\<close>

lemma holds_absorb:
  assumes ok: "locks_ok (P @ l # R)" and own: "owner l = owner ld"
    and ld': "owner ld' = owner ld" "l_type ld' = l_type ld"
    and hull: "\<And>x. l_start ld' \<le> x \<and> x \<le> l_end ld' \<longleftrightarrow>
      l_start ld \<le> x \<and> x \<le> l_end ld \<or> l_start l \<le> x \<and> x \<le> l_end l"
    and same_type: "l_type l = l_type ld \<or> l_start ld \<le> l_start l \<and> l_end l \<le> l_end ld"
  shows "holds_over ld' (P @ R) p x t = holds_over ld (P @ l # R) p x t"
proof (cases "p = owner ld \<and> l_start l \<le> x \<and> x \<le> l_end l")
  case True
  with ok have "\<not> holds P p x t" "\<not> holds R p x t" using own_disjoint own by metis+
  with True hull same_type own ld' show ?thesis by (auto simp: holds_over_def)
next
  case False
  have "holds_over ld (P @ l # R) p x t = holds_over ld (P @ R) p x t"
    using False own by (auto simp: holds_over_def)
  with False hull ld' show ?thesis by (auto simp: holds_over_def)
qed

lemma lck_before_cut:
  "l_end l' \<le> l_end l \<Longrightarrow> l_start l' = l_start l \<Longrightarrow> owner l' = owner l \<Longrightarrow> l_type l' = l_type l \<Longrightarrow>
   lck_before l g \<Longrightarrow> lck_before l' g"
  by (auto simp: lck_before_def)

lemma locks_ok_cut:
  assumes "locks_ok (P @ l # R)" and "l_start l < e"  and "e \<le> l_end l + 1"
  shows "locks_ok (P @ l\<lparr>l_end := e - 1\<rparr> # R)"
  using assms by (auto simp: locks_ok_simps lck_before_def lck_range_def)

lemma locks_ok_delete: "locks_ok (P @ l # R) \<Longrightarrow> locks_ok (P @ R)"
  by (auto simp: locks_ok_simps)

text \<open>A lock cut out of the middle: what is left of it before the request, and the rest.\<close>

lemma locks_ok_tail:
  assumes ok: "locks_ok (P @ l # W @ B)" and c: "l_start l \<le> c" "c < l_end l"
    and W: "\<forall>g \<in> set W. l_start g < c + 1" and B: "\<forall>g \<in> set B. c + 1 \<le> l_start g"
  shows "locks_ok (P @ W @ l\<lparr>l_start := c + 1\<rparr> # B)"
proof -
  have "owner g \<noteq> owner l" if "g \<in> set W" for g
    using own_gap(1) [OF ok, of g] that W c by auto
  then show ?thesis
    using assms by (auto simp: locks_ok_simps lck_before_def lck_range_def)
qed

lemma locks_ok_middle:
  assumes ok: "locks_ok (P @ l # W @ B)" and c: "l_start l < s" "s \<le> c" "c < l_end l"
    and W: "\<forall>g \<in> set W. l_start g < c + 1" and B: "\<forall>g \<in> set B. c + 1 \<le> l_start g"
  shows "locks_ok (P @ l\<lparr>l_end := s - 1\<rparr> # W @ l\<lparr>l_start := c + 1\<rparr> # B)"
proof -
  have "locks_ok (P @ W @ l\<lparr>l_start := c + 1\<rparr> # B)" using locks_ok_tail [OF ok _ c(3) W B] c by simp
  moreover have "owner g \<noteq> owner l" if "g \<in> set W" for g
    using own_gap(1) [OF ok, of g] that W c by auto
  ultimately show ?thesis
    using ok c by (auto simp: locks_ok_simps lck_before_def lck_range_def)
qed

section \<open>The invariant of the scan\<close>

text \<open>
  The insert position: \<open>None\<close> is right only when no lock starts before the request;
  otherwise it names a lock of the chain that does not start after it.
\<close>

definition pos_ok :: "flock \<Rightarrow> nat option \<Rightarrow> filock list \<Rightarrow> bool" where
  "pos_ok ld i lst \<longleftrightarrow> l_type ld \<noteq> F_UNLCK \<longrightarrow>
     (case i of None \<Rightarrow> \<forall>f \<in> set lst. l_start ld \<le> lstart f
      | Some a \<Rightarrow> \<exists>f \<in> set lst. fl_addr f = a \<and> lstart f \<le> l_start ld)"

definition adj_inv ::
  "flock \<Rightarrow> flock list \<Rightarrow> flock \<Rightarrow> nat option \<Rightarrow> filock list \<Rightarrow> flckinfo \<Rightarrow> bool" where
  "adj_inv ld0 ls0 ld i lst info \<longleftrightarrow>
     chain_ok lst info \<and> lck_range ld \<and> owner ld = owner ld0 \<and> l_type ld = l_type ld0
     \<and> pos_ok ld i lst
     \<and> (\<forall>p x t. holds_over ld (map fl_set lst) p x t = holds_over ld0 ls0 p x t)"

definition all_left :: "flock \<Rightarrow> filock list \<Rightarrow> bool" where
  "all_left ld P \<longleftrightarrow> (\<forall>f \<in> set P. owner (fl_set f) = owner ld \<longrightarrow> left_of ld (fl_set f))"

definition all_apart :: "flock \<Rightarrow> filock list \<Rightarrow> bool" where
  "all_apart ld P \<longleftrightarrow> (\<forall>f \<in> set P. owner (fl_set f) = owner ld \<longrightarrow>
     left_of ld (fl_set f) \<or> right_of ld (fl_set f))"

lemma all_apartI: "all_left ld P \<Longrightarrow> (\<And>f. f \<in> set R \<Longrightarrow> owner (fl_set f) = owner ld \<Longrightarrow>
    left_of ld (fl_set f) \<or> right_of ld (fl_set f)) \<Longrightarrow> all_apart ld (P @ R)"
  by (auto simp: all_left_def all_apart_def)

lemma chain_place:
  assumes "chain_ok (P @ f # R) info"
  shows "fl_addr f \<notin> fl_addr ` set P" "locks_ok (map fl_set P @ fl_set f # map fl_set R)"
    "distinct (map fl_addr (P @ f # R))" "sorted (map lstart R)"
    "\<forall>g \<in> set P. lstart g \<le> lstart f" "\<forall>g \<in> set R. lstart f \<le> lstart g" "lck_range (fl_set f)"
proof -
  have "sorted (map l_start ls)" if "locks_ok ls" for ls
    using that by (induction ls) (auto simp: locks_ok_simps lck_before_def)
  from this [of "map fl_set R"] show "sorted (map lstart R)"
    using assms by (auto simp: chain_ok_def locks_ok_simps comp_def)
  show "fl_addr f \<notin> fl_addr ` set P" "locks_ok (map fl_set P @ fl_set f # map fl_set R)"
    "distinct (map fl_addr (P @ f # R))" "\<forall>g \<in> set P. lstart g \<le> lstart f"
    "\<forall>g \<in> set R. lstart f \<le> lstart g" "lck_range (fl_set f)"
    using assms by (auto simp: chain_ok_def locks_ok_simps lck_before_def)
qed

lemma chain_delete: "chain_ok (P @ f # R) info \<Longrightarrow> next_addr info' = next_addr info \<Longrightarrow>
    chain_ok (P @ R) info'"
  by (auto simp: chain_ok_def dest: locks_ok_delete)

lemma chain_cut:
  assumes "chain_ok (P @ f # R) info" and "fl_addr f' = fl_addr f"
    and "fl_set f' = (fl_set f)\<lparr>l_end := e - 1\<rparr>" and "lstart f < e" "e \<le> lend f + 1"
    and "next_addr info' = next_addr info"
  shows "chain_ok (P @ f' # R) info'"
  using assms locks_ok_cut [OF chain_place(2) [OF assms(1)], of e] by (auto simp: chain_ok_def)

lemma pos_prev:
  assumes ok: "chain_ok (P @ f # R) info" and s: "l_start ld = lstart f"
  shows "pos_ok ld (prev_addr None (fl_addr f) (P @ f # R)) (P @ R)"
  using chain_place [OF ok] s by (auto simp: pos_ok_def prev_place)

lemma pos_delete: "pos_ok ld i (P @ f # R) \<Longrightarrow> l_start ld < lstart f \<Longrightarrow> pos_ok ld i (P @ R)"
  by (auto simp: pos_ok_def split: option.splits)

lemma adj_delete:
  assumes inv: "adj_inv ld0 ls0 ld i (P @ f # R) info" and own: "owner (fl_set f) = owner ld"
    and ld': "owner ld' = owner ld" "l_type ld' = l_type ld" "lck_range ld'"
    and hull: "\<And>x. l_start ld' \<le> x \<and> x \<le> l_end ld' \<longleftrightarrow>
      l_start ld \<le> x \<and> x \<le> l_end ld \<or> lstart f \<le> x \<and> x \<le> lend f"
    and same_type: "ltype f = l_type ld \<or> l_start ld \<le> lstart f \<and> lend f \<le> l_end ld"
    and pos: "pos_ok ld' i' (P @ R)" and info: "next_addr info' = next_addr info"
  shows "adj_inv ld0 ls0 ld' i' (P @ R) info'"
proof -
  from inv have ok: "chain_ok (P @ f # R) info" by (simp add: adj_inv_def)
  have "holds_over ld' (map fl_set (P @ R)) p x t = holds_over ld (map fl_set (P @ f # R)) p x t" for p x t
    using holds_absorb [OF chain_place(2) [OF ok] own ld'(1,2) hull same_type] by simp
  with inv ld' pos chain_delete [OF ok info] show ?thesis by (simp add: adj_inv_def)
qed

lemma adj_cut:
  assumes inv: "adj_inv ld0 ls0 ld i (P @ f # R) info" and own: "owner (fl_set f) = owner ld"
    and f': "fl_addr f' = fl_addr f" "fl_set f' = (fl_set f)\<lparr>l_end := l_start ld - 1\<rparr>"
    and region: "lstart f < l_start ld" "l_start ld \<le> lend f + 1" "lend f \<le> l_end ld"
    and info: "next_addr info' = next_addr info"
  shows "adj_inv ld0 ls0 ld (Some (fl_addr f)) (P @ f' # R) info'"
proof -
  from inv have ok: "chain_ok (P @ f # R) info" by (simp add: adj_inv_def)
  have "holds_over ld (map fl_set (P @ f' # R)) p x t = holds_over ld (map fl_set (P @ f # R)) p x t" for p x t
    using own f' region by (auto simp: holds_over_def)
  moreover have "pos_ok ld (Some (fl_addr f)) (P @ f' # R)" using f' region by (auto simp: pos_ok_def)
  ultimately show ?thesis
    using inv chain_cut [OF ok f' region(1,2) info] by (simp add: adj_inv_def)
qed

lemma rest_right:
  assumes ok: "chain_ok (P @ f # R) info" and g: "g \<in> set R" "owner (fl_set g) = owner (fl_set f)"
    and e: "l_end ld \<le> lend f" "l_end ld = lend f \<Longrightarrow> ltype f = l_type ld"
  shows "right_of ld (fl_set g)"
  using own_gap [OF chain_place(2) [OF ok], of "fl_set g"] g e by (auto simp: right_of_def)

text \<open>What a step of the scan establishes.\<close>

definition shrinks :: "filock list \<Rightarrow> filock list \<Rightarrow> bool" where
  "shrinks lst lst' \<longleftrightarrow> (\<forall>p x t. holds (map fl_set lst') p x t \<longrightarrow> holds (map fl_set lst) p x t)"

lemma shrinks_refl [simp]: "shrinks lst lst"
  by (simp add: shrinks_def)

lemma shrinks_trans: "shrinks l1 l2 \<Longrightarrow> shrinks l2 l3 \<Longrightarrow> shrinks l1 l3"
  by (simp add: shrinks_def)

lemma shrinks_delete: "shrinks (P @ f # R) (P @ R)"
  by (auto simp: shrinks_def)

definition step_ok :: "flock \<Rightarrow> flock list \<Rightarrow> filock list \<Rightarrow> filock \<Rightarrow> filock list \<Rightarrow> flock \<Rightarrow>
    adj_out \<times> adj_state \<Rightarrow> flckinfo \<Rightarrow> bool" where
  "step_ok ld0 ls0 P flp R ld res info \<longleftrightarrow>
     (case res of
        (AdjReturn (Inl e), st') \<Rightarrow> e = ENOLCK \<and> st' = (P @ flp # R, info)
      | (AdjReturn (Inr _), st') \<Rightarrow> st' = (P @ flp # R, info) \<and> ltype flp = l_type ld
          \<and> lstart flp \<le> l_start ld \<and> l_end ld \<le> lend flp
      | (AdjNext ld' i' stop, (lst', info')) \<Rightarrow> adj_inv ld0 ls0 ld' i' lst' info'
          \<and> shrinks (P @ flp # R) lst'
          \<and> (if stop then all_apart ld' lst' else \<exists>P'. lst' = P' @ R \<and> all_left ld' P'))"

lemma insflck_cases:
  assumes "insflck env lst l fl info = (r, lst', info')"
  obtains "r = None" "lst' = lst" "info' = info"
  | new where "r = Some (next_addr info)" "lst' = insert_after fl new lst"
      "fl_addr new = next_addr info" "fl_set new = l" "next_addr info' = Suc (next_addr info)"
proof (cases "reccnt info \<ge> t_flckrec env \<or> \<not> kmem_ok env (next_addr info)")
  case True
  with assms have "r = None" "lst' = lst" "info' = info" by (auto simp: insflck_def split: if_splits)
  then show thesis by (rule that(1))
next
  case False
  with assms show thesis
    by (intro that(2) [of "\<lparr>fl_addr = next_addr info, fl_set = l, st_word = 0, blk_pid = 0\<rparr>"])
       (auto simp: insflck_def Let_def)
qed

lemma all_left_owner: "owner ld' = owner ld \<Longrightarrow> l_start ld' = l_start ld \<Longrightarrow> l_type ld' = l_type ld \<Longrightarrow>
    all_left ld' P = all_left ld P"
  by (simp add: all_left_def left_of_def)

text \<open>The tail of a lock that the request ends inside of, set up after the request.\<close>

lemma tail_place:
  assumes ok: "chain_ok (P @ flp # R) info" and c: "lstart flp \<le> c" "c < lend flp"
    and new: "fl_addr new = next_addr info" "fl_set new = (fl_set flp)\<lparr>l_start := c + 1\<rparr>"
  obtains W B where "R = W @ B" "\<forall>g \<in> set W. lstart g < c + 1" "\<forall>g \<in> set B. c + 1 \<le> lstart g"
    "insert_after (last_before (c + 1) (Some (fl_addr flp)) (chain_from (fl_addr flp) (P @ flp # R))) new
       (P @ flp # R) = P @ flp # W @ new # B"
    "distinct (map fl_addr (P @ flp # W @ new # B))" "fl_addr flp \<notin> fl_addr ` set P"
    "locks_ok (map fl_set (P @ W @ new # B))"
    "\<And>l s. l = (fl_set flp)\<lparr>l_end := s - 1\<rparr> \<Longrightarrow> lstart flp < s \<Longrightarrow> s \<le> c \<Longrightarrow>
       locks_ok (map fl_set P @ l # map fl_set (W @ new # B))"
proof -
  note pl = chain_place [OF ok]
  have "lstart flp < c + 1" using c by simp
  from insert_after_place [OF pl(3,4) this] obtain W B where R: "R = W @ B"
    and W: "\<forall>g \<in> set W. lstart g < c + 1" and B: "\<forall>g \<in> set B. c + 1 \<le> lstart g"
    and ins: "insert_after (last_before (c + 1) (Some (fl_addr flp)) (chain_from (fl_addr flp) (P @ flp # R)))
       new (P @ flp # R) = P @ flp # W @ new # B" by metis
  have "distinct (map fl_addr (P @ flp # W @ new # B))"
    using ok new(1) by (auto simp: chain_ok_def R)
  moreover have "locks_ok (map fl_set P @ map fl_set W @ (fl_set flp)\<lparr>l_start := c + 1\<rparr> # map fl_set B)"
    using locks_ok_tail [of "map fl_set P" "fl_set flp" "map fl_set W" "map fl_set B" c] pl(2) c W B
    by (simp add: R)
  moreover have "locks_ok (map fl_set P @ l # map fl_set (W @ new # B))"
    if "l = (fl_set flp)\<lparr>l_end := s - 1\<rparr>" "lstart flp < s" "s \<le> c" for l s
    using locks_ok_middle [of "map fl_set P" "fl_set flp" "map fl_set W" "map fl_set B" s c] pl(2) c W B
      that new(2) by (simp add: R)
  ultimately show thesis using that [OF R W B ins] pl(1) new(2) by simp
qed

lemma adj_middle_cut:
  assumes inv: "adj_inv ld0 ls0 ld i (P @ flp # R) info" and left: "all_left ld P"
    and own: "owner (fl_set flp) = owner ld" and diff: "l_type ld \<noteq> ltype flp"
    and e: "lstart flp \<le> l_end ld" "l_end ld < lend flp"
    and inside: "inside \<Longrightarrow> lstart flp < l_start ld" "\<not> inside \<Longrightarrow> l_start ld \<le> lstart flp"
    and pos: "\<not> inside \<Longrightarrow> pos_ok ld i' (P @ R)"
    and i': "inside \<Longrightarrow> i' = i"
  shows "step_ok ld0 ls0 P flp R ld (adj_middle env ld i' flp inside (P @ flp # R, info)) info"
proof -
  from inv have ok: "chain_ok (P @ flp # R) info" and rng: "lck_range ld" by (simp_all add: adj_inv_def)
  let ?td = "(fl_set flp)\<lparr>l_start := l_end ld + 1\<rparr>"
  let ?tdi = "last_before (l_end ld + 1) (Some (fl_addr flp)) (chain_from (fl_addr flp) (P @ flp # R))"
  obtain r lst1 info1 where ins: "insflck env (P @ flp # R) ?td ?tdi info = (r, lst1, info1)"
    by (metis prod_cases3)
  show ?thesis
  proof (rule insflck_cases [OF ins])
    assume "r = None" "lst1 = P @ flp # R" "info1 = info"
    with ins diff show ?thesis by (simp add: adj_middle_def Let_def step_ok_def)
  next
    fix new
    assume r: "r = Some (next_addr info)" and lst1: "lst1 = insert_after ?tdi new (P @ flp # R)"
      and new: "fl_addr new = next_addr info" "fl_set new = ?td" and info1: "next_addr info1 = Suc (next_addr info)"
    obtain W B where R: "R = W @ B" and W: "\<forall>g \<in> set W. lstart g < l_end ld + 1"
      and B: "\<forall>g \<in> set B. l_end ld + 1 \<le> lstart g"
      and chain: "lst1 = P @ flp # W @ new # B"
      and dist: "distinct (map fl_addr (P @ flp # W @ new # B))" "fl_addr flp \<notin> fl_addr ` set P"
      and okW: "locks_ok (map fl_set (P @ W @ new # B))"
      and okM: "\<And>l s. l = (fl_set flp)\<lparr>l_end := s - 1\<rparr> \<Longrightarrow> lstart flp < s \<Longrightarrow> s \<le> l_end ld \<Longrightarrow>
        locks_ok (map fl_set P @ l # map fl_set (W @ new # B))"
      using tail_place [OF ok e new] lst1 by metis
    have addr: "\<forall>f \<in> set (P @ flp # W @ new # B). fl_addr f < next_addr info1"
      using ok new(1) info1 by (auto simp: chain_ok_def R less_Suc_eq)
    have right: "right_of ld (fl_set g)" if "g \<in> set (W @ new # B)" "owner (fl_set g) = owner ld" for g
    proof (cases "g = new")
      case True
      then show ?thesis using new(2) diff by (simp add: right_of_def)
    next
      case False
      with that rest_right [OF ok, of g ld] own e show ?thesis by (simp add: R)
    qed
    have overlay: "holds_over ld (map fl_set (P @ C @ W @ new # B)) p x t
        = holds_over ld (map fl_set (P @ flp # R)) p x t"
      if "\<And>x. holds (map fl_set C) p x t \<longleftrightarrow>
        owner ld = p \<and> lstart flp \<le> x \<and> x < l_start ld \<and> ltype flp = t" for C p x t
    proof (cases "p = owner ld \<and> l_start ld \<le> x \<and> x \<le> l_end ld")
      case True
      then show ?thesis by (simp add: holds_over_def)
    next
      case False
      have parts: "owner ld = p \<and> lstart flp \<le> x \<and> x \<le> lend flp \<and> ltype flp = t \<longleftrightarrow>
        owner ld = p \<and> lstart flp \<le> x \<and> x < l_start ld \<and> ltype flp = t
        \<or> owner ld = p \<and> l_end ld + 1 \<le> x \<and> x \<le> lend flp \<and> ltype flp = t"
        using False e rng unfolding lck_range_def by (cases "owner ld = p"; cases "ltype flp = t") auto
      have "holds (map fl_set (P @ flp # R)) p x t \<longleftrightarrow> holds (map fl_set (P @ C @ W @ new # B)) p x t"
        using that [of x] parts new(2) own by (simp add: R) blast
      with False show ?thesis by (auto simp: holds_over_def)
    qed
    show ?thesis
    proof (cases inside)
      case True
      obtain f' info2 where cut: "cut_before ld (fl_addr flp) (P @ flp # W @ new # B, info1)
          = (P @ f' # W @ new # B, info2)"
        and f': "fl_addr f' = fl_addr flp" "fl_set f' = (fl_set flp)\<lparr>l_end := l_start ld - 1\<rparr>"
        and info2: "next_addr info2 = next_addr info1"
        using cut_before_place [OF dist(2)] by metis
      have shr: "shrinks (P @ flp # R) (P @ f' # W @ new # B)"
        using f'(2) new(2) e inside(1) [OF True] rng
        by (auto simp: shrinks_def R lck_range_def)
      have "chain_ok (P @ f' # W @ new # B) info2"
        using okM [OF f'(2)] True inside(1) rng dist(1) addr f'(1) info2
        by (auto simp: chain_ok_def lck_range_def)
      moreover have "pos_ok ld (Some (fl_addr flp)) (P @ f' # W @ new # B)"
        using f' inside(1) [OF True] by (auto simp: pos_ok_def)
      moreover have "holds_over ld (map fl_set (P @ [f'] @ W @ new # B)) p x t
        = holds_over ld (map fl_set (P @ flp # R)) p x t" for p x t
        using f'(2) own e rng by (intro overlay) (auto simp: lck_range_def)
      ultimately have "adj_inv ld0 ls0 ld (Some (fl_addr flp)) (P @ f' # W @ new # B) info2"
        using inv by (simp add: adj_inv_def)
      moreover have "left_of ld (fl_set f')" using f'(2) diff by (simp add: left_of_def)
      then have "all_apart ld (P @ f' # W @ new # B)"
        using right by (intro all_apartI [OF left]) auto
      ultimately show ?thesis
        using True ins r chain cut diff shr by (simp add: adj_middle_def Let_def step_ok_def)
    next
      case False
      obtain info2 where del: "delflck (P @ flp # W @ new # B) (fl_addr flp) info1 = (P @ W @ new # B, info2)"
        and info2: "next_addr info2 = next_addr info1"
        using delflck_place [OF dist(2)] by metis
      have shr: "shrinks (P @ flp # R) (P @ W @ new # B)"
        using new(2) e by (auto simp: shrinks_def R)
      have "chain_ok (P @ W @ new # B) info2"
        using okW dist(1) addr info2 by (auto simp: chain_ok_def)
      moreover have "pos_ok ld i' (P @ W @ new # B)"
        using pos [OF False] inside(2) [OF False] e new(2) rng
        by (auto simp: pos_ok_def R lck_range_def split: option.splits)
      moreover have "holds_over ld (map fl_set (P @ [] @ W @ new # B)) p x t
        = holds_over ld (map fl_set (P @ flp # R)) p x t" for p x t
        using inside(2) [OF False] by (intro overlay) auto
      ultimately have "adj_inv ld0 ls0 ld i' (P @ W @ new # B) info2"
        using inv by (simp add: adj_inv_def)
      moreover have "all_apart ld (P @ W @ new # B)"
        using right by (intro all_apartI [OF left]) auto
      ultimately show ?thesis
        using False ins r chain del diff shr by (simp add: adj_middle_def Let_def step_ok_def)
    qed
  qed
qed

text \<open>The regions, as positions of the request relative to the lock.\<close>

lemma regflck_regions:
  assumes "lck_range ld" and "lck_range (fl_set f)"
  shows
    "regflck ld f = (S_BEFORE, E_BEFORE) \<longleftrightarrow> l_end ld + 1 < lstart f"
    "regflck ld f = (S_BEFORE, E_START) \<longleftrightarrow> l_end ld + 1 = lstart f"
    "regflck ld f = (S_BEFORE, E_MIDDLE) \<longleftrightarrow> l_start ld < lstart f \<and> lstart f \<le> l_end ld \<and> l_end ld < lend f"
    "regflck ld f = (S_BEFORE, E_END) \<longleftrightarrow> l_start ld < lstart f \<and> l_end ld = lend f"
    "regflck ld f = (S_BEFORE, E_AFTER) \<longleftrightarrow> l_start ld < lstart f \<and> lend f < l_end ld"
    "regflck ld f = (S_START, E_MIDDLE) \<longleftrightarrow> l_start ld = lstart f \<and> l_end ld < lend f"
    "regflck ld f = (S_START, E_END) \<longleftrightarrow> l_start ld = lstart f \<and> l_end ld = lend f"
    "regflck ld f = (S_START, E_AFTER) \<longleftrightarrow> l_start ld = lstart f \<and> lend f < l_end ld"
    "regflck ld f = (S_MIDDLE, E_MIDDLE) \<longleftrightarrow> lstart f < l_start ld \<and> l_end ld < lend f"
    "regflck ld f = (S_MIDDLE, E_END) \<longleftrightarrow> lstart f < l_start ld \<and> l_start ld \<le> lend f \<and> l_end ld = lend f"
    "regflck ld f = (S_MIDDLE, E_AFTER) \<longleftrightarrow> lstart f < l_start ld \<and> l_start ld \<le> lend f \<and> lend f < l_end ld"
    "regflck ld f = (S_END, E_AFTER) \<longleftrightarrow> l_start ld = lend f + 1"
    "regflck ld f = (S_AFTER, E_AFTER) \<longleftrightarrow> lend f + 1 < l_start ld"
  using assms by (auto simp: regflck_def lck_range_def Let_def)

lemma step_delete:
  assumes inv: "adj_inv ld0 ls0 ld i (P @ flp # R) info" and left: "all_left ld P"
    and own: "owner (fl_set flp) = owner ld"
    and ld': "owner ld' = owner ld" "l_type ld' = l_type ld" "l_end ld' \<le> MAXEND" "0 \<le> l_start ld'"
      "l_start ld' = l_start ld \<or> l_start ld' = lstart flp"
    and hull: "\<And>x. l_start ld' \<le> x \<and> x \<le> l_end ld' \<longleftrightarrow>
      l_start ld \<le> x \<and> x \<le> l_end ld \<or> lstart flp \<le> x \<and> x \<le> lend flp"
    and same_type: "ltype flp = l_type ld \<or> l_start ld \<le> lstart flp \<and> lend flp \<le> l_end ld"
    and start: "l_start ld' = lstart flp \<longrightarrow> l_start ld' = l_start ld \<or> ltype flp = l_type ld"
    and pos: "pos_ok ld' i' (P @ R)"
    and stop: "stop \<Longrightarrow> l_end ld' = lend flp \<and> ltype flp = l_type ld"
  shows "step_ok ld0 ls0 P flp R ld
    (AdjNext ld' i' stop, delflck (P @ flp # R) (fl_addr flp) info) info"
proof -
  from inv have ok: "chain_ok (P @ flp # R) info" and rng: "lck_range ld" by (simp_all add: adj_inv_def)
  note pl = chain_place [OF ok]
  obtain info' where del: "delflck (P @ flp # R) (fl_addr flp) info = (P @ R, info')"
    and info': "next_addr info' = next_addr info" using delflck_place [OF pl(1)] by metis
  have "l_start ld' \<le> l_end ld'" using hull [of "l_start ld"] rng by (auto simp: lck_range_def)
  with ld' have rng': "lck_range ld'" by (simp add: lck_range_def)
  from adj_delete [OF inv own ld'(1,2) rng' hull same_type pos info']
  have inv': "adj_inv ld0 ls0 ld' i' (P @ R) info'" .
  have left': "all_left ld' P"
    unfolding all_left_def
  proof (intro ballI impI)
    fix g assume g: "g \<in> set P" "owner (fl_set g) = owner ld'"
    with left ld'(1) have lg: "left_of ld (fl_set g)" by (simp add: all_left_def)
    have "lck_before (fl_set g) (fl_set flp)" using pl(2) g(1) by (simp add: locks_ok_simps)
    then have "lend g < lstart flp \<and> (lend g + 1 = lstart flp \<longrightarrow> ltype g \<noteq> ltype flp)"
      using g(2) own ld'(1) by (simp add: lck_before_def)
    with lg ld'(2,5) start show "left_of ld' (fl_set g)" by (auto simp: left_of_def)
  qed
  have "all_apart ld' (P @ R)" if stop
  proof (rule all_apartI [OF left'])
    fix g assume "g \<in> set R" "owner (fl_set g) = owner ld'"
    with rest_right [OF ok, of g ld'] stop [OF that] own ld'(1,2)
    show "left_of ld' (fl_set g) \<or> right_of ld' (fl_set g)" by simp
  qed
  with inv' left' del shrinks_delete [of P flp R] show ?thesis by (auto simp: step_ok_def)
qed

lemma step_keep:
  assumes inv: "adj_inv ld0 ls0 ld i (P @ flp # R) info" and left: "all_left ld P"
    and own: "owner (fl_set flp) = owner ld"
    and pos: "pos_ok ld i' (P @ flp # R)"
    and f: "if stop then right_of ld (fl_set flp) \<and> l_end ld < lstart flp else left_of ld (fl_set flp)"
  shows "step_ok ld0 ls0 P flp R ld (AdjNext ld i' stop, (P @ flp # R, info)) info"
proof -
  from inv have ok: "chain_ok (P @ flp # R) info" and rng: "lck_range ld" by (simp_all add: adj_inv_def)
  have inv': "adj_inv ld0 ls0 ld i' (P @ flp # R) info" using inv pos by (simp add: adj_inv_def)
  show ?thesis
  proof (cases stop)
    case True
    have "right_of ld (fl_set g)" if "g \<in> set (flp # R)" "owner (fl_set g) = owner ld" for g
    proof (cases "g = flp")
      case False
      have "lstart flp \<le> lend flp" using chain_place(7) [OF ok] by (simp add: lck_range_def)
      with False that rest_right [OF ok, of g ld] f True own show ?thesis by simp
    qed (use f True in simp)
    then have "all_apart ld (P @ flp # R)" by (intro all_apartI [OF left]) blast
    with True inv' show ?thesis by (simp add: step_ok_def)
  next
    case False
    with f left have "all_left ld (P @ [flp])" by (auto simp: all_left_def)
    with False inv' show ?thesis by (auto simp: step_ok_def intro!: exI [of _ "P @ [flp]"])
  qed
qed

lemma step_cut:
  assumes inv: "adj_inv ld0 ls0 ld i (P @ flp # R) info" and left: "all_left ld P"
    and own: "owner (fl_set flp) = owner ld" and diff: "l_type ld \<noteq> ltype flp"
    and region: "lstart flp < l_start ld" "l_start ld \<le> lend flp" "lend flp \<le> l_end ld"
  shows "step_ok ld0 ls0 P flp R ld
    (AdjNext ld (Some (fl_addr flp)) False, cut_before ld (fl_addr flp) (P @ flp # R, info)) info"
proof -
  from inv have ok: "chain_ok (P @ flp # R) info" by (simp add: adj_inv_def)
  obtain f' info' where cut: "cut_before ld (fl_addr flp) (P @ flp # R, info) = (P @ f' # R, info')"
    and f': "fl_addr f' = fl_addr flp" "fl_set f' = (fl_set flp)\<lparr>l_end := l_start ld - 1\<rparr>"
    and info': "next_addr info' = next_addr info"
    using cut_before_place [OF chain_place(1) [OF ok]] by metis
  have "left_of ld (fl_set f')" using f'(2) diff by (simp add: left_of_def)
  with left have "all_left ld (P @ [f'])" by (auto simp: all_left_def)
  moreover have "adj_inv ld0 ls0 ld (Some (fl_addr flp)) (P @ f' # R) info'"
    using adj_cut [OF inv own f' _ _ _ info'] region by simp
  moreover have "shrinks (P @ flp # R) (P @ f' # R)"
    using f'(2) region by (auto simp: shrinks_def)
  ultimately show ?thesis using cut by (auto simp: step_ok_def intro!: exI [of _ "P @ [f']"])
qed

lemma adj_middle_same:
  "l_type ld = ltype flp \<Longrightarrow> adj_middle env ld i flp False (lst, info)
   = (AdjNext (ld\<lparr>l_end := lend flp\<rparr>) i True, delflck lst (fl_addr flp) info)"
  by (simp add: adj_middle_def Let_def)

lemma regflck_values:
  assumes "lck_range ld" and "lck_range (fl_set f)"
  shows "regflck ld f \<in> {(S_BEFORE, E_BEFORE), (S_BEFORE, E_START), (S_BEFORE, E_MIDDLE),
    (S_BEFORE, E_END), (S_BEFORE, E_AFTER), (S_START, E_MIDDLE), (S_START, E_END), (S_START, E_AFTER),
    (S_MIDDLE, E_MIDDLE), (S_MIDDLE, E_END), (S_MIDDLE, E_AFTER), (S_END, E_AFTER), (S_AFTER, E_AFTER)}"
  using assms by (simp add: regflck_def lck_range_def Let_def)

lemma step_same:
  "l_type ld = ltype flp \<Longrightarrow> lstart flp \<le> l_start ld \<Longrightarrow> l_end ld \<le> lend flp \<Longrightarrow>
   step_ok ld0 ls0 P flp R ld (AdjReturn (Ok ()), (P @ flp # R, info)) info"
  by (simp add: step_ok_def)

lemma step_grow_start:
  assumes inv: "adj_inv ld0 ls0 ld i (P @ flp # R) info" and left: "all_left ld P"
    and own: "owner (fl_set flp) = owner ld" and same: "l_type ld = ltype flp"
    and e: "lstart flp < l_start ld" "l_start ld \<le> lend flp + 1" "lend flp < l_end ld"
  shows "step_ok ld0 ls0 P flp R ld (AdjNext (ld\<lparr>l_start := lstart flp\<rparr>)
      (prev_addr None (fl_addr flp) (P @ flp # R)) False, delflck (P @ flp # R) (fl_addr flp) info) info"
proof -
  from inv have ok: "chain_ok (P @ flp # R) info" and rng: "lck_range ld" by (simp_all add: adj_inv_def)
  have "lck_range (fl_set flp)" by (rule chain_place(7) [OF ok])
  then show ?thesis
    using rng e same
    by (intro step_delete [OF inv left own] pos_prev [OF ok]) (auto simp: lck_range_def)
qed

lemma step_grow_end:
  assumes inv: "adj_inv ld0 ls0 ld i (P @ flp # R) info" and left: "all_left ld P"
    and own: "owner (fl_set flp) = owner ld" and same: "l_type ld = ltype flp"
    and e: "l_start ld < lstart flp" "lstart flp \<le> l_end ld + 1" "l_end ld < lend flp"
  shows "step_ok ld0 ls0 P flp R ld
      (AdjNext (ld\<lparr>l_end := lend flp\<rparr>) i True, delflck (P @ flp # R) (fl_addr flp) info) info"
proof -
  from inv have ok: "chain_ok (P @ flp # R) info" and rng: "lck_range ld"
    and pos: "pos_ok ld i (P @ flp # R)" by (simp_all add: adj_inv_def)
  have frng: "lck_range (fl_set flp)" by (rule chain_place(7) [OF ok])
  have "pos_ok (ld\<lparr>l_end := lend flp\<rparr>) i (P @ R)"
    using pos_delete [OF pos e(1)] by (simp add: pos_ok_def split: option.splits)
  with frng rng e same show ?thesis
    by (intro step_delete [OF inv left own]) (auto simp: lck_range_def)
qed

lemma step_covered:
  assumes inv: "adj_inv ld0 ls0 ld i (P @ flp # R) info" and left: "all_left ld P"
    and own: "owner (fl_set flp) = owner ld"
    and e: "l_start ld \<le> lstart flp" "lend flp \<le> l_end ld" and pos: "pos_ok ld i' (P @ R)"
    and stop: "stop \<Longrightarrow> l_end ld = lend flp \<and> l_type ld = ltype flp"
  shows "step_ok ld0 ls0 P flp R ld
      (AdjNext ld i' stop, delflck (P @ flp # R) (fl_addr flp) info) info"
proof -
  from inv have rng: "lck_range ld" by (simp add: adj_inv_def)
  with e pos stop show ?thesis
    by (intro step_delete [OF inv left own]) (auto simp: lck_range_def)
qed

lemma adj_one_ok:
  assumes inv: "adj_inv ld0 ls0 ld i (P @ flp # R) info" and left: "all_left ld P"
    and own: "owner (fl_set flp) = owner ld"
  shows "step_ok ld0 ls0 P flp R ld (adj_one env ld i flp (P @ flp # R, info)) info"
proof -
  from inv have ok: "chain_ok (P @ flp # R) info" and rng: "lck_range ld"
    and pos: "pos_ok ld i (P @ flp # R)" by (simp_all add: adj_inv_def)
  have frng: "lck_range (fl_set flp)" by (rule chain_place(7) [OF ok])
  note regs = regflck_regions [OF rng frng]
  note bounds = rng [unfolded lck_range_def] frng [unfolded lck_range_def]
  let ?prev = "prev_addr None (fl_addr flp) (P @ flp # R)"
  note same_st = step_same [of ld flp ld0 ls0 P R info]
  note grow_start = step_grow_start [OF inv left own]
  note grow_end = step_grow_end [OF inv left own]
  note covered = step_covered [OF inv left own]
  consider (bb) "regflck ld flp = (S_BEFORE, E_BEFORE)" | (bs) "regflck ld flp = (S_BEFORE, E_START)"
    | (bm) "regflck ld flp = (S_BEFORE, E_MIDDLE)" | (be) "regflck ld flp = (S_BEFORE, E_END)"
    | (ba) "regflck ld flp = (S_BEFORE, E_AFTER)" | (sm) "regflck ld flp = (S_START, E_MIDDLE)"
    | (se) "regflck ld flp = (S_START, E_END)" | (sa) "regflck ld flp = (S_START, E_AFTER)"
    | (mm) "regflck ld flp = (S_MIDDLE, E_MIDDLE)" | (me) "regflck ld flp = (S_MIDDLE, E_END)"
    | (ma) "regflck ld flp = (S_MIDDLE, E_AFTER)" | (ea) "regflck ld flp = (S_END, E_AFTER)"
    | (aa) "regflck ld flp = (S_AFTER, E_AFTER)"
    using regflck_values [OF rng frng] by blast
  then show ?thesis
  proof cases
    case bb
    then have "l_end ld + 1 < lstart flp" using regs(1) by simp
    then show ?thesis using step_keep [OF inv left own pos, of True] bb
      by (simp add: adj_one_def right_of_def)
  next
    case bs
    then have e: "l_end ld + 1 = lstart flp" using regs(2) by simp
    then show ?thesis using step_keep [OF inv left own pos, of True] bs grow_end bounds
      by (auto simp: adj_one_def Let_def right_of_def)
  next
    case bm
    then have e: "l_start ld < lstart flp" "lstart flp \<le> l_end ld" "l_end ld < lend flp" using regs(3) by simp_all
    show ?thesis
    proof (cases "l_type ld = ltype flp")
      case True
      with grow_end e bm show ?thesis by (simp add: adj_one_def Let_def adj_middle_same)
    next
      case False
      from adj_middle_cut [OF inv left own False e(2,3), of False i] pos_delete [OF pos e(1)] e bm
      show ?thesis by (simp add: adj_one_def Let_def)
    qed
  next
    case be
    then have "l_start ld < lstart flp" "l_end ld = lend flp" using regs(4) by simp_all
    then show ?thesis using covered [of i "l_type ld = ltype flp"] pos_delete [OF pos] be
      by (simp add: adj_one_def Let_def)
  next
    case ba
    then have "l_start ld < lstart flp" "lend flp < l_end ld" using regs(5) by simp_all
    then show ?thesis using covered [of i False] pos_delete [OF pos] ba
      by (simp add: adj_one_def Let_def)
  next
    case sm
    then have e: "l_start ld = lstart flp" "l_end ld < lend flp" using regs(6) by simp_all
    show ?thesis
    proof (cases "l_type ld = ltype flp")
      case True
      with same_st e sm show ?thesis by (simp add: adj_one_def Let_def)
    next
      case False
      have "lstart flp \<le> l_end ld" using e bounds by simp
      from adj_middle_cut [OF inv left own False this e(2), of False ?prev] pos_prev [OF ok e(1)] e sm False
      show ?thesis by (simp add: adj_one_def Let_def)
    qed
  next
    case se
    then have "l_start ld = lstart flp" "l_end ld = lend flp" using regs(7) by simp_all
    then show ?thesis using covered [of ?prev False] pos_prev [OF ok] same_st se
      by (simp add: adj_one_def Let_def)
  next
    case sa
    then have "l_start ld = lstart flp" "lend flp < l_end ld" using regs(8) by simp_all
    then show ?thesis using covered [of ?prev False] pos_prev [OF ok] sa
      by (simp add: adj_one_def Let_def)
  next
    case mm
    then have e: "lstart flp < l_start ld" "l_end ld < lend flp" using regs(9) by simp_all
    show ?thesis
    proof (cases "l_type ld = ltype flp")
      case True
      with same_st e mm show ?thesis by (simp add: adj_one_def Let_def)
    next
      case False
      have "lstart flp \<le> l_end ld" using e bounds by simp
      from adj_middle_cut [OF inv left own False this e(2), of True i] e mm False
      show ?thesis by (simp add: adj_one_def Let_def)
    qed
  next
    case me
    then have e: "lstart flp < l_start ld" "l_start ld \<le> lend flp" "l_end ld = lend flp" using regs(10) by simp_all
    then show ?thesis using same_st step_cut [OF inv left own] me
      by (simp add: adj_one_def Let_def)
  next
    case ma
    then have e: "lstart flp < l_start ld" "l_start ld \<le> lend flp" "lend flp < l_end ld" using regs(11) by simp_all
    then show ?thesis using grow_start step_cut [OF inv left own] ma
      by (simp add: adj_one_def Let_def)
  next
    case ea
    then have e: "l_start ld = lend flp + 1" using regs(12) by simp
    then show ?thesis using grow_start step_keep [OF inv left own pos, of False] ea bounds
      by (auto simp: adj_one_def Let_def left_of_def)
  next
    case aa
    then have e: "lend flp + 1 < l_start ld" using regs(13) by simp
    have "pos_ok ld (Some (fl_addr flp)) (P @ flp # R)" using e bounds by (auto simp: pos_ok_def)
    from step_keep [OF inv left own this, of False] e aa
    show ?thesis by (simp add: adj_one_def Let_def left_of_def)
  qed
qed

text \<open>The whole scan.\<close>

definition scan_ok :: "flock \<Rightarrow> flock list \<Rightarrow> filock list \<Rightarrow> adj_out \<times> adj_state \<Rightarrow> bool" where
  "scan_ok ld0 ls0 lst res \<longleftrightarrow>
     (case res of
        (AdjReturn (Inl e), (lst', info')) \<Rightarrow> e = ENOLCK \<and> chain_ok lst' info' \<and> shrinks lst lst'
      | (AdjReturn (Inr _), (lst', info')) \<Rightarrow> chain_ok lst' info'
          \<and> (\<forall>p x t. holds (map fl_set lst') p x t = holds_over ld0 ls0 p x t)
      | (AdjNext ld' i' _, (lst', info')) \<Rightarrow>
          adj_inv ld0 ls0 ld' i' lst' info' \<and> all_apart ld' lst' \<and> shrinks lst lst')"

lemma scan_ok_shrinks: "scan_ok ld0 ls0 lst1 res \<Longrightarrow> shrinks lst lst1 \<Longrightarrow> scan_ok ld0 ls0 lst res"
  by (auto simp: scan_ok_def split: prod.splits adj_out.splits sum.splits intro: shrinks_trans)

lemma adj_loop_ok:
  assumes "adj_inv ld0 ls0 ld i (P @ todo) info" and "all_left ld P"
  shows "scan_ok ld0 ls0 (P @ todo) (adj_loop env ld i todo (P @ todo, info))"
  using assms
proof (induction todo arbitrary: ld i P info)
  case Nil
  then show ?case by (auto simp: scan_ok_def all_left_def all_apart_def)
next
  case (Cons flp R)
  show ?case
  proof (cases "SAMEOWNER (fl_set flp) ld")
    case False
    then have "all_left ld (P @ [flp])" using Cons.prems(2) by (auto simp: all_left_def SAMEOWNER_owner)
    with Cons.IH [of ld i "P @ [flp]" info] Cons.prems(1) False show ?thesis by simp
  next
    case True
    then have own: "owner (fl_set flp) = owner ld" by (simp add: SAMEOWNER_owner)
    note step = adj_one_ok [OF Cons.prems own, of env]
    obtain out lst1 info1 where one: "adj_one env ld i flp (P @ flp # R, info) = (out, (lst1, info1))"
      by (metis prod_cases3)
    show ?thesis
    proof (cases out)
      case (AdjReturn r)
      show ?thesis
      proof (cases r)
        case (Inl e)
        with step one True AdjReturn Cons.prems(1) show ?thesis by (simp add: step_ok_def scan_ok_def adj_inv_def)
      next
        case (Inr u)
        with step one AdjReturn have same: "lst1 = P @ flp # R" "info1 = info" "ltype flp = l_type ld"
          and reg: "lstart flp \<le> l_start ld" "l_end ld \<le> lend flp" by (simp_all add: step_ok_def)
        have ok: "chain_ok (P @ flp # R) info" using Cons.prems(1) by (simp add: adj_inv_def)
        have "holds (map fl_set (P @ flp # R)) p x t = holds_over ld (map fl_set (P @ flp # R)) p x t" for p x t
          using own_disjoint [OF chain_place(2) [OF ok], of x t] own reg same(3)
          by (auto simp: holds_over_def)
        with ok same one True AdjReturn Inr Cons.prems(1) show ?thesis
          by (simp add: scan_ok_def adj_inv_def)
      qed
    next
      case (AdjNext ld' i' stop)
      show ?thesis
      proof (cases stop)
        case True
        with step one AdjNext \<open>SAMEOWNER (fl_set flp) ld\<close> show ?thesis
          by (simp add: step_ok_def scan_ok_def)
      next
        case False
        with step one AdjNext obtain P' where "lst1 = P' @ R" "all_left ld' P'"
          "adj_inv ld0 ls0 ld' i' (P' @ R) info1" and shr: "shrinks (P @ flp # R) (P' @ R)"
          by (auto simp: step_ok_def)
        with Cons.IH [of ld' i' P' info1] False one AdjNext \<open>SAMEOWNER (fl_set flp) ld\<close>
        have "scan_ok ld0 ls0 (P' @ R) (adj_loop env ld i (flp # R) (P @ flp # R, info))" by simp
        from scan_ok_shrinks [OF this shr] show ?thesis .
      qed
    qed
  qed
qed

section \<open>The whole adjustment\<close>

text \<open>
  An insert position the scan may start from: right in the sense of \<open>pos_ok\<close>, and every
  lock of the process before it lies apart from the request.
\<close>

definition insrt_ok :: "flock \<Rightarrow> nat option \<Rightarrow> filock list \<Rightarrow> bool" where
  "insrt_ok ld i lst \<longleftrightarrow> pos_ok ld i lst
     \<and> (case i of None \<Rightarrow> True
        | Some a \<Rightarrow> \<exists>P f R. lst = P @ f # R \<and> fl_addr f = a \<and> all_left ld P)"

text \<open>The type the process \<open>p\<close> holds on the byte \<open>x\<close> once the request is granted.\<close>

definition granted :: "flock \<Rightarrow> flock list \<Rightarrow> int \<times> int \<Rightarrow> int \<Rightarrow> lck_type \<Rightarrow> bool" where
  "granted ld ls p x t \<longleftrightarrow>
     (if p = owner ld \<and> l_start ld \<le> x \<and> x \<le> l_end ld then t = l_type ld \<and> t \<noteq> F_UNLCK
      else holds ls p x t)"

lemma adj_inv_over: "adj_inv ld0 ls0 ld i lst info \<Longrightarrow>
    holds_over ld (map fl_set lst) p x t = holds_over ld0 ls0 p x t"
  by (simp add: adj_inv_def del: split_paired_All)

lemma adj_invD:
  assumes "adj_inv ld0 ls0 ld i lst info"
  shows "chain_ok lst info" "locks_ok (map fl_set lst)" "lck_range ld" "pos_ok ld i lst"
    "owner ld0 = owner ld" "l_type ld0 = l_type ld"
  using assms unfolding adj_inv_def chain_ok_def by (blast, blast, blast, blast, metis, metis)

lemma holds_type: "locks_ok ls \<Longrightarrow> holds ls p x t \<Longrightarrow> t = F_RDLCK \<or> t = F_WRLCK"
  by (auto simp: holds_def locks_ok_def)

lemma apart_holds: "all_apart ld lst \<Longrightarrow> l_start ld \<le> x \<Longrightarrow> x \<le> l_end ld \<Longrightarrow>
    \<not> holds (map fl_set lst) (owner ld) x t"
  by (force simp: all_apart_def holds_def left_of_def right_of_def)

text \<open>Without a new lock: the request was to unlock.\<close>

lemma granted_unlock:
  assumes inv: "adj_inv ld0 ls0 ld i lst info" and apart: "all_apart ld lst" and ok: "locks_ok ls0"
    and un: "l_type ld = F_UNLCK"
  shows "holds (map fl_set lst) p x t = granted ld0 ls0 p x t"
proof -
  note inv' = adj_invD [OF inv]
  have ld: "owner ld0 = owner ld" "l_type ld0 = F_UNLCK" and ok': "locks_ok (map fl_set lst)"
    using inv' un by simp_all
  note over = adj_inv_over [OF inv, of p x]
  note un_free = holds_type [OF ok, of p x F_UNLCK] holds_type [OF ok', of p x F_UNLCK]
  let ?now = "p = owner ld \<and> l_start ld \<le> x \<and> x \<le> l_end ld"
  let ?old = "p = owner ld0 \<and> l_start ld0 \<le> x \<and> x \<le> l_end ld0"
  have free: "\<not> holds (map fl_set lst) p x F_UNLCK" "\<not> holds ls0 p x F_UNLCK"
    using un_free by auto
  have same: "?now \<longleftrightarrow> ?old"
    using over [of F_UNLCK] free unfolding holds_over_def ld(2) un by (metis (full_types))
  show ?thesis
  proof (cases ?now)
    case True
    then have "\<not> holds (map fl_set lst) p x t" using apart_holds [OF apart] by blast
    moreover have "\<not> granted ld0 ls0 p x t" using True same ld(2) by (simp add: granted_def)
    ultimately show ?thesis by blast
  next
    case False
    then have "\<not> ?old" using same by blast
    with over [of t] show ?thesis
      unfolding holds_over_def granted_def if_not_P [OF False] if_not_P [OF \<open>\<not> ?old\<close>] by blast
  qed
qed

text \<open>With the new lock put into its place.\<close>

lemma granted_insert:
  assumes inv: "adj_inv ld0 ls0 ld i (A @ B) info" and apart: "all_apart ld (A @ B)"
    and lck: "l_type ld \<in> {F_RDLCK, F_WRLCK}" and new: "fl_addr new = next_addr info" "fl_set new = ld"
    and A: "\<forall>g \<in> set A. lstart g \<le> l_start ld" and B: "\<forall>g \<in> set B. l_start ld \<le> lstart g"
    and info': "next_addr info' = Suc (next_addr info)"
  shows "chain_ok (A @ new # B) info'"
    "holds (map fl_set (A @ new # B)) p x t = granted ld0 ls0 p x t"
proof -
  have ok: "chain_ok (A @ B) info" and rng: "lck_range ld"
    and ld: "owner ld0 = owner ld" "l_type ld0 = l_type ld"
    using adj_invD [OF inv] by simp_all
  note over = adj_inv_over [OF inv, of p x t]
  have addr: "distinct (map fl_addr (A @ new # B))" "\<forall>f \<in> set (A @ new # B). fl_addr f < next_addr info'"
    using ok new(1) info' by (auto simp: chain_ok_def less_Suc_eq)
  have "lck_before (fl_set g) ld" if "g \<in> set A" for g
    using apart that A rng ok
    by (force simp: all_apart_def lck_before_def left_of_def right_of_def lck_range_def)
  moreover have "lck_before ld (fl_set g)" if "g \<in> set B" for g
  proof -
    have "lck_range (fl_set g)" using ok that by (simp add: chain_ok_def locks_ok_def)
    moreover from apart that have "owner (fl_set g) = owner ld \<longrightarrow> left_of ld (fl_set g) \<or> right_of ld (fl_set g)"
      by (simp add: all_apart_def)
    ultimately show ?thesis using that B
      by (auto simp: lck_before_def left_of_def right_of_def lck_range_def)
  qed
  ultimately have "locks_ok (map fl_set A @ ld # map fl_set B)"
    using ok rng lck by (auto simp: chain_ok_def locks_ok_simps)
  with addr show "chain_ok (A @ new # B) info'" by (simp add: chain_ok_def new(2))
  have ins: "holds (map fl_set (A @ new # B)) p x t \<longleftrightarrow> holds_over ld (map fl_set (A @ B)) p x t"
    using apart_holds [OF apart, of x t] by (auto simp: new(2) holds_over_def)
  show "holds (map fl_set (A @ new # B)) p x t = granted ld0 ls0 p x t"
    unfolding ins over using lck by (auto simp: holds_over_def granted_def ld)
qed

lemma chain_sorted: "chain_ok lst info \<Longrightarrow> sorted (map lstart lst)"
proof (induction lst)
  case (Cons f R)
  then have "chain_ok R info" using chain_delete [of "[]" f R info info] by simp
  with Cons chain_place(6) [of "[]" f R info] show ?case by simp
qed simp

lemma insert_place:
  assumes pos: "pos_ok ld i lst" and lck: "l_type ld \<noteq> F_UNLCK" and ok: "chain_ok lst info"
  obtains A B where "lst = A @ B"
    "insert_after (case i of None \<Rightarrow> None
       | Some a \<Rightarrow> last_before (l_start ld) (Some a) (chain_from a lst)) new lst = A @ new # B"
    "\<forall>g \<in> set A. lstart g \<le> l_start ld" "\<forall>g \<in> set B. l_start ld \<le> lstart g"
proof (cases i)
  case None
  with pos lck that [of "[]" lst] show thesis by (simp add: pos_ok_def)
next
  case (Some a)
  with pos lck obtain f where f: "f \<in> set lst" "fl_addr f = a" "lstart f \<le> l_start ld"
    by (auto simp: pos_ok_def)
  have dist: "distinct (map fl_addr lst)" using ok by (simp add: chain_ok_def)
  from insert_sorted_place [OF f(1,3) dist chain_sorted [OF ok], of new] f(2) Some that
  show thesis by auto
qed

lemma flckadj_next:
  assumes "adj_loop env ld i (case i of None \<Rightarrow> lst | Some a \<Rightarrow> chain_from a lst) (lst, info)
      = (AdjNext ld1 i1 stop, lst1, info1)"
  shows "flckadj env i ld lst info = (if l_type ld1 = F_UNLCK then (Ok (), ld1, lst1, info1)
     else case insflck env lst1 ld1 (case i1 of None \<Rightarrow> None
            | Some a \<Rightarrow> last_before (l_start ld1) (Some a) (chain_from a lst1)) info1 of
          (None, st') \<Rightarrow> (Err ENOLCK, ld1, st') | (Some _, st') \<Rightarrow> (Ok (), ld1, st'))"
  using assms by (cases i1) (simp_all add: flckadj_def Let_def)

lemma flckadj_ok:
  assumes ok: "chain_ok lst info" and rng: "lck_range ld" and lck: "l_type ld \<noteq> F_OTHER"
    and ins: "insrt_ok ld i lst" and run: "flckadj env i ld lst info = (r, ld', lst', info')"
  shows "r = Err ENOLCK \<and> chain_ok lst' info' \<and> shrinks lst lst' \<or>
    r = Ok () \<and> chain_ok lst' info'
      \<and> (\<forall>p x t. holds (map fl_set lst') p x t = granted ld (map fl_set lst) p x t)"
proof -
  define todo where "todo = (case i of None \<Rightarrow> lst | Some a \<Rightarrow> chain_from a lst)"
  have inv: "adj_inv ld (map fl_set lst) ld i lst info"
    using ok rng ins by (simp add: adj_inv_def insrt_ok_def)
  have "\<exists>P. lst = P @ todo \<and> all_left ld P"
  proof (cases i)
    case None
    then show ?thesis by (simp add: todo_def all_left_def)
  next
    case (Some a)
    with ins obtain P f R where lst: "lst = P @ f # R" "fl_addr f = a" "all_left ld P"
      by (auto simp: insrt_ok_def)
    with chain_place(1) [of P f R info] ok have "chain_from a lst = f # R" by (auto simp: at_place(3))
    with lst Some show ?thesis by (auto simp: todo_def)
  qed
  then obtain P where P: "lst = P @ todo" "all_left ld P" by blast
  note loop = adj_loop_ok [OF inv [unfolded P(1)] P(2), of env, folded P(1)]
  obtain out lst1 info1 where one: "adj_loop env ld i todo (lst, info) = (out, (lst1, info1))"
    by (metis prod_cases3)
  show ?thesis
  proof (cases out)
    case (AdjReturn x)
    with run one have res: "r = x" "lst' = lst1" "info' = info1"
      by (simp_all add: flckadj_def todo_def)
    show ?thesis
    proof (cases x)
      case (Inl e)
      with loop one AdjReturn res show ?thesis by (simp add: scan_ok_def)
    next
      case (Inr u)
      with loop one AdjReturn res have ok': "chain_ok lst' info'"
        and over: "holds (map fl_set lst') p x t = holds_over ld (map fl_set lst) p x t" for p x t
        by (simp_all add: scan_ok_def del: split_paired_All)
      have "holds (map fl_set lst') p x t = granted ld (map fl_set lst) p x t" for p x t
        using over [of p x F_UNLCK] over [of p x t] holds_type [of "map fl_set lst'" p x F_UNLCK] ok'
        by (auto simp: granted_def holds_over_def chain_ok_def split: if_splits)
      with ok' Inr res show ?thesis by simp
    qed
  next
    case (AdjNext ld1 i1 stop)
    from loop one AdjNext have inv1: "adj_inv ld (map fl_set lst) ld1 i1 lst1 info1"
      and apart: "all_apart ld1 lst1" and shr: "shrinks lst lst1" by (simp_all add: scan_ok_def)
    note ty = adj_invD(6) [OF inv1, symmetric] and ok1 = adj_invD(1) [OF inv1]
    show ?thesis
    proof (cases "l_type ld = F_UNLCK")
      case True
      with run one AdjNext ty have res: "r = Ok ()" "lst' = lst1" "info' = info1"
        by (simp_all add: flckadj_def todo_def)
      have "locks_ok (map fl_set lst)" using ok by (simp add: chain_ok_def)
      from granted_unlock [OF inv1 apart this] True ty ok1 res show ?thesis by simp
    next
      case False
      let ?i = "case i1 of None \<Rightarrow> None | Some a \<Rightarrow> last_before (l_start ld1) (Some a) (chain_from a lst1)"
      obtain q lst2 info2 where put: "insflck env lst1 ld1 ?i info1 = (q, lst2, info2)"
        by (metis prod_cases3)
      show ?thesis
      proof (rule insflck_cases [OF put])
        assume "q = None" "lst2 = lst1" "info2 = info1"
        with put run one AdjNext ty False flckadj_next [of env ld i lst info] ok1 shr show ?thesis
          by (simp add: todo_def)
      next
        fix new
        assume q: "q = Some (next_addr info1)" and new: "fl_addr new = next_addr info1" "fl_set new = ld1"
          and lst2: "lst2 = insert_after ?i new lst1" and info2: "next_addr info2 = Suc (next_addr info1)"
        have res: "r = Ok ()" "lst' = lst2" "info' = info2"
          using put run one AdjNext ty False q flckadj_next [of env ld i lst info]
          by (simp_all add: todo_def)
        obtain A B where AB: "lst1 = A @ B" "insert_after ?i new lst1 = A @ new # B"
          "\<forall>g \<in> set A. lstart g \<le> l_start ld1" "\<forall>g \<in> set B. l_start ld1 \<le> lstart g"
          using insert_place [OF adj_invD(4) [OF inv1] _ ok1, of new] ty False by metis
        have "l_type ld1 \<in> {F_RDLCK, F_WRLCK}" using lck False ty by (cases "l_type ld") auto
        from granted_insert [OF inv1 [unfolded AB(1)] apart [unfolded AB(1)] this new AB(3,4) info2]
        show ?thesis using res lst2 AB(2) by simp
      qed
    qed
  qed
qed

end
