(* ===== verification/Record_Lock_Calls.thy ===== *)
theory Record_Lock_Calls
  imports Record_Lock_Adjust
begin

text \<open>
  The entry points of file locking: \<open>reclock\<close> behind \<open>fcntl\<close> and \<open>lockf\<close>, \<open>chklock\<close> which
  enforces mandatory locks, \<open>cleanlocks\<close> at the last close, and \<open>convoff\<close>.

  \<open>reclock\<close> may sleep, so it is a first pass and a pass that starts when the sleep ends.  The
  state is the lock chain of every vnode, the chain of sleeping requests and the counters; the
  size of the file or the error of \<open>VOP_GETATTR\<close> is an argument.  The read/write lock of the
  vnode that a sleeping \<open>reclock\<close> drops and takes again (\<open>INOFLCK\<close>) is left out.
\<close>

section \<open>State and requests\<close>

record lck_sys =
  filocks :: "nat \<Rightarrow> filock list"
  sleeplcks :: "filock list"
  finfo :: flckinfo

record lck_cmd =
  SETFLCK :: bool
  SLPFLCK :: bool
  RCMDLCK :: bool

record open_mode =
  FREAD :: bool
  FWRITE :: bool

text \<open>A pass of \<open>reclock\<close> returns, sleeps on a lock, or does not end.\<close>

datatype lck_out = Ret "unit res" | Sleep (sleeper: nat) (on_lock: nat) | Hang

section \<open>Normalising a request\<close>

definition convoff :: "int res \<Rightarrow> flock \<Rightarrow> int \<Rightarrow> int \<Rightarrow> unit res \<times> flock" where
  "convoff attr ld whence offset =
     (case attr of
        Inl e \<Rightarrow> (Err e, ld)
      | Inr va_size \<Rightarrow>
          if l_whence ld \<notin> {0, 1, 2} then (Err EINVAL, ld)
          else
            let base = (\<lambda>w. if w = 1 then offset else if w = 2 then va_size else 0);
                ld1 = ld\<lparr>l_start := s32 (l_start ld + base (l_whence ld))\<rparr> in
            if l_start ld1 < 0 then (Err EINVAL, ld1)
            else if whence \<notin> {0, 1, 2} then (Err EINVAL, ld1)
            else (Ok (), ld1\<lparr>l_start := s32 (l_start ld1 - base whence), l_whence := s16 whence\<rparr>))"

definition lck_denied :: "lck_env \<Rightarrow> lck_cmd \<Rightarrow> open_mode \<Rightarrow> flock \<Rightarrow> errno option" where
  "lck_denied env cmd flag ld =
     (if \<not> badvise_pre_sv env
         \<and> (SETFLCK cmd \<or> virtual_xout env \<and> isfcntl env \<or> islocking env)
         \<and> (l_type ld = F_RDLCK \<and> \<not> FREAD flag \<or> l_type ld = F_WRLCK \<and> \<not> FWRITE flag)
      then Some (if virtual_xout env \<or> islocking env then EINVAL else EBADF)
      else None)"

definition reclock_range ::
  "lck_env \<Rightarrow> int res \<Rightarrow> lck_cmd \<Rightarrow> open_mode \<Rightarrow> int \<Rightarrow> flock \<Rightarrow> unit res \<times> flock" where
  "reclock_range env attr cmd flag offset ld =
     (case lck_denied env cmd flag ld of
        Some e \<Rightarrow> (Err e, ld)
      | None \<Rightarrow>
          (case convoff attr ld 0 offset of
             (Inl e, ld1) \<Rightarrow> (Err e, ld1)
           | (Inr _, ld1) \<Rightarrow>
               if l_end ld1 < 0 then (Err EINVAL, ld1)
               else
                 let ld2 = ld1\<lparr>l_end := (if l_end ld1 = 0 then MAXEND
                                        else s32 (l_end ld1 + (l_start ld1 - 1)))\<rparr> in
                 if l_start ld2 > l_end ld2 then (Err EINVAL, ld2) else (Ok (), ld2)))"

definition restore_len :: "flock \<Rightarrow> flock" where
  "restore_len ld =
     ld\<lparr>l_end := (if l_end ld = MAXEND then 0 else s32 (l_end ld - (l_start ld - 1)))\<rparr>"

section \<open>Sleeping requests\<close>

definition rm_match :: "flock \<Rightarrow> filock \<Rightarrow> bool" where
  "rm_match lck tmp \<longleftrightarrow> l_whence (fl_set tmp) = l_whence lck \<and> l_start (fl_set tmp) \<ge> l_start lck
     \<and> l_end (fl_set tmp) \<le> l_end lck \<and> l_sysid (fl_set tmp) = l_sysid lck
     \<and> l_pid (fl_set tmp) = l_pid lck"

lemma length_unlink: "f \<in> set fs \<Longrightarrow> length (unlink_addr (fl_addr f) fs) < length fs"
  by (induction fs) auto

function RM_SLEEPLCKS :: "flock \<Rightarrow> filock list \<Rightarrow> flckinfo \<Rightarrow> filock list \<times> flckinfo" where
  "RM_SLEEPLCKS lck fs info =
     (case find (rm_match lck) fs of
        None \<Rightarrow> (fs, info)
      | Some tmp \<Rightarrow> RM_SLEEPLCKS lck (unlink_addr (fl_addr tmp) fs) (snd (delflck fs (fl_addr tmp) info)))"
  by pat_completeness auto
termination
  by (relation "measure (\<lambda>(_, fs, _). length fs)") (auto simp: find_Some_iff intro!: length_unlink)

declare RM_SLEEPLCKS.simps [simp del]

definition rm_sleeplcks :: "flock \<Rightarrow> lck_sys \<Rightarrow> lck_sys" where
  "rm_sleeplcks lck sys =
     (let r = RM_SLEEPLCKS lck (sleeplcks sys) (finfo sys) in sys\<lparr>sleeplcks := fst r, finfo := snd r\<rparr>)"

text \<open>A new entry of the chain of sleeping requests.\<close>

definition add_sleeper :: "lck_env \<Rightarrow> flock \<Rightarrow> filock \<Rightarrow> lck_sys \<Rightarrow> nat option \<times> lck_sys" where
  "add_sleeper env ld found sys =
     (case insflck env (sleeplcks sys) ld None (finfo sys) of
        (None, _, _) \<Rightarrow> (None, sys)
      | (Some a, fs, info) \<Rightarrow>
          (Some a, sys\<lparr>sleeplcks := upd_addr a (\<lambda>sf. sf\<lparr>blk_pid := l_pid (fl_set found),
                                                   st_word := l_sysid (fl_set found)\<rparr>) fs,
                       finfo := info\<rparr>))"

definition already_posted :: "flock \<Rightarrow> filock \<Rightarrow> filock \<Rightarrow> bool" where
  "already_posted ld found sf \<longleftrightarrow> l_type (fl_set sf) = l_type ld \<and> l_whence (fl_set sf) = l_whence ld
     \<and> l_start (fl_set sf) = l_start ld \<and> l_end (fl_set sf) = l_end ld
     \<and> l_sysid (fl_set sf) = l_sysid ld \<and> l_pid (fl_set sf) = l_pid ld
     \<and> st_word sf = l_sysid (fl_set found) \<and> blk_pid sf = l_pid (fl_set found)"

definition reclock_sleep ::
  "lck_env \<Rightarrow> lck_cmd \<Rightarrow> nat \<Rightarrow> flock \<Rightarrow> filock \<Rightarrow> lck_sys \<Rightarrow> lck_out \<times> flock \<times> lck_sys" where
  "reclock_sleep env cmd vp ld found sys =
     (case deadflck (sleeplcks sys) found ld of
        None \<Rightarrow> (Hang, ld, sys)
      | Some True \<Rightarrow> (Ret (Err EDEADLK), ld, sys)
      | Some False \<Rightarrow>
          if RCMDLCK cmd then
            (if \<exists>sf \<in> set (sleeplcks sys). already_posted ld found sf then (Ret (Err EINTR), ld, sys)
             else case add_sleeper env ld found sys of
                    (None, sys1) \<Rightarrow> (Ret (Err ENOLCK), ld, sys1)
                  | (Some _, sys1) \<Rightarrow> (Ret (Err EINTR), ld, sys1))
          else
            case add_sleeper env ld found sys of
              (None, sys1) \<Rightarrow> (Ret (Err ENOLCK), ld, sys1)
            | (Some a, sys1) \<Rightarrow>
                (Sleep a (fl_addr found), ld,
                 sys1\<lparr>filocks := (filocks sys1)(vp := upd_addr (fl_addr found)
                        (\<lambda>f. f\<lparr>st_word := s32 (st_word f + 1)\<rparr>) (filocks sys1 vp))\<rparr>))"

section \<open>One pass of \<open>reclock\<close>\<close>

definition adjust ::
  "lck_env \<Rightarrow> nat \<Rightarrow> nat option \<Rightarrow> flock \<Rightarrow> lck_sys \<Rightarrow> unit res \<times> flock \<times> lck_sys" where
  "adjust env vp insrt ld sys =
     (case flckadj env insrt ld (filocks sys vp) (finfo sys) of
        (r, ld', lst, info) \<Rightarrow> (r, ld', sys\<lparr>filocks := (filocks sys)(vp := lst), finfo := info\<rparr>))"

definition reclock_pass ::
  "lck_env \<Rightarrow> lck_cmd \<Rightarrow> nat \<Rightarrow> flock \<Rightarrow> lck_sys \<Rightarrow> lck_out \<times> flock \<times> lck_sys" where
  "reclock_pass env cmd vp ld sys =
     (case l_type ld of
        F_OTHER \<Rightarrow> (Ret (Err EINVAL), ld, sys)
      | F_UNLCK \<Rightarrow>
          (let (r, ld1, sys1) =
             (if SETFLCK cmd then
                adjust env vp (case filocks sys vp of [] \<Rightarrow> None | f # _ \<Rightarrow> Some (fl_addr f)) ld sys
              else if virtual_xout env \<and> isfcntl env then
                (Ok (), case fst (blocked env (filocks sys vp) ld) of None \<Rightarrow> ld | Some f \<Rightarrow> fl_set f, sys)
              else (Ok (), ld, sys))
           in (Ret r, ld1, if RCMDLCK cmd then rm_sleeplcks ld1 sys1 else sys1))
      | _ \<Rightarrow>
          (case blocked env (filocks sys vp) ld of
             (None, insrt) \<Rightarrow>
               (let (r, ld1, sys1) = (if SETFLCK cmd then adjust env vp insrt ld sys
                                      else (Ok (), ld\<lparr>l_type := F_UNLCK\<rparr>, sys))
                in (Ret r, ld1, if RCMDLCK cmd \<and> SLPFLCK cmd then rm_sleeplcks ld1 sys1 else sys1))
           | (Some found, _) \<Rightarrow>
               if SLPFLCK cmd then reclock_sleep env cmd vp ld found sys
               else if SETFLCK cmd then (Ret (Err EAGAIN), ld, sys)
               else (Ret (Ok ()), fl_set found, sys)))"

definition reclock_finish :: "lck_out \<times> flock \<times> lck_sys \<Rightarrow> lck_out \<times> flock \<times> lck_sys" where
  "reclock_finish res =
     (case res of (Ret r, ld, sys) \<Rightarrow> (Ret r, restore_len ld, sys) | _ \<Rightarrow> res)"

definition reclock ::
  "lck_env \<Rightarrow> int res \<Rightarrow> nat \<Rightarrow> flock \<Rightarrow> lck_cmd \<Rightarrow> open_mode \<Rightarrow> int \<Rightarrow> lck_sys
     \<Rightarrow> lck_out \<times> flock \<times> lck_sys" where
  "reclock env attr vp lckdat cmd flag offset sys =
     (case reclock_range env attr cmd flag offset lckdat of
        (Inl e, ld) \<Rightarrow> (Ret (Err e), ld, sys)
      | (Inr _, ld) \<Rightarrow> reclock_finish (reclock_pass env cmd vp ld sys))"

text \<open>The sleep ends, interrupted by a signal or not.\<close>

definition reclock_resume ::
  "lck_env \<Rightarrow> nat \<Rightarrow> flock \<Rightarrow> lck_cmd \<Rightarrow> nat \<Rightarrow> bool \<Rightarrow> lck_sys \<Rightarrow> lck_out \<times> flock \<times> lck_sys" where
  "reclock_resume env vp ld cmd sf interrupted sys =
     (let fs = upd_addr sf (\<lambda>s. s\<lparr>blk_pid := 0, st_word := 0\<rparr>) (sleeplcks sys);
          r = delflck fs sf (finfo sys);
          sys1 = sys\<lparr>sleeplcks := fst r, finfo := snd r\<rparr> in
      reclock_finish (if interrupted then (Ret (Err EINTR), ld, sys1)
                      else reclock_pass env cmd vp ld sys1))"

section \<open>Mandatory locking and the last close\<close>

definition chklock_req :: "lck_env \<Rightarrow> open_mode \<Rightarrow> int \<Rightarrow> int \<Rightarrow> int \<Rightarrow> int \<Rightarrow> flock" where
  "chklock_req env iomode offset len p_epid p_sysid =
     \<lparr>l_type = (if FWRITE iomode then F_WRLCK else F_RDLCK), l_whence = 0, l_start = offset,
      l_end = (if len = 0 \<and> (virtual_xout env \<or> islocking env) then 1 else len),
      l_sysid = p_sysid, l_pid = p_epid\<rparr>"

definition chklock_error :: "lck_env \<Rightarrow> unit res \<Rightarrow> flock \<Rightarrow> errno option" where
  "chklock_error env r bf =
     (let error = (case r of Inl e \<Rightarrow> Some e
                   | Inr _ \<Rightarrow> if l_type bf \<noteq> F_UNLCK then Some EAGAIN else None) in
      if badvise_pre_sv env \<and> error = Some EAGAIN then Some EACCES else error)"

definition chklock ::
  "lck_env \<Rightarrow> int res \<Rightarrow> nat \<Rightarrow> open_mode \<Rightarrow> int \<Rightarrow> int \<Rightarrow> bool \<Rightarrow> int \<Rightarrow> int \<Rightarrow> lck_sys
     \<Rightarrow> (errno option + lck_out) \<times> flock \<times> lck_sys" where
  "chklock env attr vp iomode offset len nodelay p_epid p_sysid sys =
     (case reclock env attr vp (chklock_req env iomode offset len p_epid p_sysid)
             \<lparr>SETFLCK = False, SLPFLCK = \<not> nodelay, RCMDLCK = False\<rparr>
             \<lparr>FREAD = False, FWRITE = False\<rparr> offset sys of
        (Ret r, bf, sys') \<Rightarrow> (Inl (chklock_error env r bf), bf, sys')
      | (out, bf, sys') \<Rightarrow> (Inr out, bf, sys'))"

definition IGN_PID :: int where "IGN_PID = -1"

fun clean_scan :: "int \<Rightarrow> int \<Rightarrow> filock list \<Rightarrow> adj_state \<Rightarrow> adj_state" where
  "clean_scan pid sysid [] st = st"
| "clean_scan pid sysid (flp # nflp) st =
     clean_scan pid sysid nflp
       (if (l_pid (fl_set flp) = pid \<or> pid = IGN_PID) \<and> l_sysid (fl_set flp) = sysid
        then delflck (fst st) (fl_addr flp) (snd st) else st)"

definition cleanlocks :: "nat \<Rightarrow> int \<Rightarrow> int \<Rightarrow> lck_sys \<Rightarrow> lck_sys" where
  "cleanlocks vp pid sysid sys =
     (let r = clean_scan pid sysid (filocks sys vp) (filocks sys vp, finfo sys) in
      sys\<lparr>filocks := (filocks sys)(vp := fst r), finfo := snd r\<rparr>)"

end
