(* ===== verification/Record_Lock_Facts.thy ===== *)
theory Record_Lock_Facts
  imports Record_Lock_Calls
begin

text \<open>
  What the parts of \<open>reclock\<close> do: the conflict test finds a conflicting lock whenever there is
  one and yields a usable insert position, a granted request conflicts with nobody, the
  adjustment wakes everybody who waits on a lock it takes away, and deadlock detection decides
  reachability in the graph of who waits for whom as long as that graph has no cycle.
\<close>

section \<open>The conflict test\<close>

definition lck_conflict :: "lck_env \<Rightarrow> flock \<Rightarrow> filock \<Rightarrow> bool" where
  "lck_conflict env ld f \<longleftrightarrow>
     \<not> SAMEOWNER (fl_set f) ld \<and> lstart f \<le> l_end ld \<and> lock_blocks env ld f"

lemma blocked_rest_None:
  "sorted (map lstart fs) \<Longrightarrow> blocked_rest env ld fs = None \<longleftrightarrow> (\<forall>f \<in> set fs. \<not> lck_conflict env ld f)"
  by (induction fs) (auto simp: lck_conflict_def split: if_splits)

lemma blocked_rest_Some:
  "blocked_rest env ld fs = Some f \<Longrightarrow> f \<in> set fs \<and> lck_conflict env ld f"
  by (induction fs) (auto simp: lck_conflict_def split: if_splits)

lemma blocked_scan_None:
  "sorted (map lstart fs) \<Longrightarrow> l_start ld \<le> l_end ld \<Longrightarrow>
   fst (blocked_scan env ld i fs) = None \<longleftrightarrow> (\<forall>f \<in> set fs. \<not> lck_conflict env ld f)"
proof (induction fs arbitrary: i)
  case (Cons f fs)
  show ?case
  proof (cases "lstart f < l_start ld \<and> (SAMEOWNER (fl_set f) ld \<longrightarrow> lend f < l_start ld - 1)
      \<and> (\<not> SAMEOWNER (fl_set f) ld \<longrightarrow> \<not> lock_blocks env ld f)")
    case True
    then have "\<not> lck_conflict env ld f" by (auto simp: lck_conflict_def)
    with True Cons show ?thesis by auto
  next
    case False
    note rest = blocked_rest_None [OF Cons.prems(1)]
    from False consider "\<not> lstart f < l_start ld"
      | "lstart f < l_start ld" "SAMEOWNER (fl_set f) ld" "l_start ld - 1 \<le> lend f"
      | "lstart f < l_start ld" "\<not> SAMEOWNER (fl_set f) ld" "lock_blocks env ld f" by linarith
    then show ?thesis
      by cases (use rest Cons.prems(2) in \<open>auto simp: lck_conflict_def simp del: blocked_rest.simps\<close>)
  qed
qed simp

lemma blocked_scan_Some:
  "fst (blocked_scan env ld i fs) = Some f \<Longrightarrow> l_start ld \<le> l_end ld \<Longrightarrow>
   f \<in> set fs \<and> lck_conflict env ld f"
proof (induction fs arbitrary: i)
  case (Cons g fs)
  then show ?case using blocked_rest_Some [of env ld "g # fs" f]
    by (auto simp: lck_conflict_def split: if_splits)
qed simp

lemmas blocked_None = blocked_scan_None [of _ _ _ None, folded blocked_def]
lemmas blocked_Some = blocked_scan_Some [of _ _ None, folded blocked_def]

text \<open>The insert position that the conflict test finds is one the adjustment may start from.\<close>

lemma blocked_scan_insrt:
  assumes "snd (blocked_scan env ld i fs) = j" "fst (blocked_scan env ld i fs) = None"
    and "all_left ld P" "sorted (map lstart (P @ fs))"
    and "i = (if P = [] then None else Some (fl_addr (last P)))"
    and "\<forall>f \<in> set P. lstart f < l_start ld"
  shows "insrt_ok ld j (P @ fs)"
  using assms
proof (induction fs arbitrary: P i)
  case Nil
  show ?case
  proof (cases P rule: rev_cases)
    case (snoc Q f)
    with Nil show ?thesis
      by (auto simp: insrt_ok_def pos_ok_def all_left_def intro!: exI [of _ Q])
  qed (use Nil in \<open>simp add: insrt_ok_def pos_ok_def\<close>)
next
  case (Cons f fs)
  have here: "insrt_ok ld (Some (fl_addr f)) (P @ f # fs)" if "lstart f < l_start ld"
    using that Cons.prems(3) by (auto simp: insrt_ok_def pos_ok_def)
  show ?case
  proof (cases "lstart f < l_start ld \<and> (SAMEOWNER (fl_set f) ld \<longrightarrow> lend f < l_start ld - 1)")
    case True
    have left: "all_left ld (P @ [f])"
      using True Cons.prems(3) by (auto simp: all_left_def left_of_def SAMEOWNER_owner)
    from True Cons.prems(1,2) have "snd (blocked_scan env ld (Some (fl_addr f)) fs) = j"
      "fst (blocked_scan env ld (Some (fl_addr f)) fs) = None" by (auto split: if_splits)
    from Cons.IH [OF this left] Cons.prems(4,6) True show ?thesis by simp
  next
    case False
    then consider "lstart f < l_start ld" "SAMEOWNER (fl_set f) ld" "\<not> lend f < l_start ld - 1"
      | "\<not> lstart f < l_start ld" by auto
    then show ?thesis
    proof cases
      case 1
      with Cons.prems(1) here show ?thesis by (auto split: if_splits)
    next
      case 2
      then have j: "j = i" using Cons.prems(1) by simp
      have above: "\<forall>g \<in> set (f # fs). l_start ld \<le> lstart g" using 2 Cons.prems(4) by (auto simp: sorted_append)
      show ?thesis
      proof (cases P rule: rev_cases)
        case Nil
        with j above Cons.prems(5) show ?thesis by (auto simp: insrt_ok_def pos_ok_def)
      next
        case (snoc Q g)
        with j Cons.prems(3,5,6) show ?thesis
          by (auto simp: insrt_ok_def pos_ok_def all_left_def intro!: exI [of _ Q])
      qed
    qed
  qed
qed

lemma blocked_insrt:
  assumes "blocked env lst ld = (None, i)" and "chain_ok lst info"
  shows "insrt_ok ld i lst"
  using blocked_scan_insrt [of env ld None lst i "[]"] assms chain_sorted [OF assms(2)]
  by (simp add: blocked_def all_left_def)

lemma head_insrt:
  "l_type ld = F_UNLCK \<Longrightarrow> insrt_ok ld (case lst of [] \<Rightarrow> None | f # _ \<Rightarrow> Some (fl_addr f)) lst"
  by (auto simp: insrt_ok_def pos_ok_def all_left_def split: list.splits intro!: exI [of _ "[]"])

section \<open>No two processes hold conflicting locks\<close>

definition conflict_free :: "flock list \<Rightarrow> bool" where
  "conflict_free ls \<longleftrightarrow> (\<forall>p q x t. holds ls p x F_WRLCK \<longrightarrow> holds ls q x t \<longrightarrow> p = q)"

lemma conflict_freeD: "conflict_free ls \<Longrightarrow> holds ls p x F_WRLCK \<Longrightarrow> holds ls q x t \<Longrightarrow> p = q"
  unfolding conflict_free_def by blast

lemma conflict_free_shrinks:
  "conflict_free (map fl_set lst) \<Longrightarrow> shrinks lst lst' \<Longrightarrow> conflict_free (map fl_set lst')"
  unfolding conflict_free_def shrinks_def by blast

text \<open>If nothing conflicts with the request, what others hold on its bytes is compatible with it.\<close>

lemma granted_compatible:
  assumes none: "\<forall>f \<in> set lst. \<not> lck_conflict env ld f" and ty: "l_type ld = F_RDLCK \<or> l_type ld = F_WRLCK"
    and x: "l_start ld \<le> x" "x \<le> l_end ld" and h: "holds (map fl_set lst) q x t" "q \<noteq> owner ld"
  shows "l_type ld = F_RDLCK \<and> t \<noteq> F_WRLCK \<or> t \<noteq> F_RDLCK \<and> t \<noteq> F_WRLCK"
proof -
  from h(1) obtain f where f: "f \<in> set lst" "owner (fl_set f) = q" "lstart f \<le> x" "x \<le> lend f" "ltype f = t"
    by (auto simp: holds_def)
  with none h(2) x have "\<not> lock_blocks env ld f" by (auto simp: lck_conflict_def SAMEOWNER_owner)
  with f x ty show ?thesis by (cases "l_type ld") (auto simp: lock_blocks_def)
qed

lemma conflict_free_granted:
  assumes free: "conflict_free (map fl_set lst)" and ok: "locks_ok (map fl_set lst)"
    and none: "l_type ld \<noteq> F_UNLCK \<Longrightarrow> \<forall>f \<in> set lst. \<not> lck_conflict env ld f"
    and ty: "l_type ld \<noteq> F_OTHER"
    and new: "\<And>p x t. holds (map fl_set lst') p x t = granted ld (map fl_set lst) p x t"
  shows "conflict_free (map fl_set lst')"
  unfolding conflict_free_def new
proof (intro allI impI)
  fix p q x t
  assume p: "granted ld (map fl_set lst) p x F_WRLCK" and q: "granted ld (map fl_set lst) q x t"
  let ?at = "l_start ld \<le> x \<and> x \<le> l_end ld"
  show "p = q"
  proof (cases "?at \<and> (p = owner ld \<or> q = owner ld) \<and> p \<noteq> q")
    case False
    with p q show ?thesis by (auto simp: granted_def split: if_splits dest: conflict_freeD [OF free])
  next
    case True
    show ?thesis
    proof (cases "p = owner ld")
      case True
      with \<open>?at \<and> (p = owner ld \<or> q = owner ld) \<and> p \<noteq> q\<close> p q
      have "l_type ld = F_WRLCK" "holds (map fl_set lst) q x t" "q \<noteq> owner ld" ?at
        by (auto simp: granted_def split: if_splits)
      with granted_compatible [OF none, of x q t] holds_type [OF ok, of q x t] show ?thesis by auto
    next
      case False
      with True p q have h: "holds (map fl_set lst) p x F_WRLCK" "p \<noteq> owner ld" ?at
        and "t = l_type ld" "t \<noteq> F_UNLCK"
        by (auto simp: granted_def split: if_splits)
      with ty have "l_type ld = F_RDLCK \<or> l_type ld = F_WRLCK" "l_type ld \<noteq> F_UNLCK" by (cases "l_type ld"; simp)+
      with granted_compatible [OF none, of x p F_WRLCK] h show ?thesis by auto
    qed
  qed
qed

section \<open>Who waits on a lock is woken when the lock goes\<close>

definition armed :: "filock list \<Rightarrow> (nat \<times> flock) set" where
  "armed lst = {(fl_addr f, fl_set f) | f. f \<in> set lst \<and> st_word f \<noteq> 0}"

text \<open>
  A lock somebody waits on is still there unchanged and still says so, or its sleepers were woken.
  Addresses are only handed out upwards.
\<close>

definition keeps_wake :: "adj_state \<Rightarrow> adj_state \<Rightarrow> bool" where
  "keeps_wake st st' \<longleftrightarrow>
     (\<forall>e \<in> armed (fst st). e \<in> armed (fst st') \<or> fst e \<in> set (lck_woken (snd st')))
     \<and> set (lck_woken (snd st)) \<subseteq> set (lck_woken (snd st'))
     \<and> next_addr (snd st) \<le> next_addr (snd st')"

lemma keeps_wake_refl [simp]: "keeps_wake st st"
  by (simp add: keeps_wake_def)

lemma keeps_wake_trans: "keeps_wake a b \<Longrightarrow> keeps_wake b c \<Longrightarrow> keeps_wake a c"
  unfolding keeps_wake_def by (blast dest: order_trans)

lemma armed_insert: "e \<in> armed lst \<Longrightarrow> e \<in> armed (insert_after fl new lst)"
  by (induction fl new lst rule: insert_after.induct) (auto simp: armed_def)

lemma armed_unlink: "e \<in> armed lst \<Longrightarrow>
    e \<in> armed (unlink_addr a lst) \<or> (\<exists>f. at_addr a lst = Some f \<and> st_word f \<noteq> 0 \<and> fst e = a)"
  by (induction lst) (auto simp: armed_def split: if_splits)

lemma armed_upd: "e \<in> armed lst \<Longrightarrow>
    e \<in> armed (upd_addr a g lst) \<or> (\<exists>f. at_addr a lst = Some f \<and> st_word f \<noteq> 0 \<and> fst e = a)"
  by (induction lst) (auto simp: armed_def split: if_splits)

lemma keeps_wake_WAKEUP: "keeps_wake (lst, info) (WAKEUP a lst info)"
  using armed_upd [of _ lst a] by (auto simp: keeps_wake_def WAKEUP_def split: option.splits)

lemma keeps_wake_delflck: "keeps_wake (lst, info) (delflck lst a info)"
  using armed_unlink [of _ lst a]
  by (auto simp: keeps_wake_def delflck_def WAKEUP_def Let_def split: option.splits if_splits)

lemma at_addr_upd: "(\<And>f. fl_addr (g f) = fl_addr f) \<Longrightarrow>
    at_addr a (upd_addr a g lst) = map_option g (at_addr a lst)"
  by (induction lst) auto

lemma upd_upd: "(\<And>f. fl_addr (g f) = fl_addr f) \<Longrightarrow>
    upd_addr a h (upd_addr a g lst) = upd_addr a (h \<circ> g) lst"
  by (induction lst) auto

lemma keeps_wake_cut: "keeps_wake st (cut_before ld a st)"
  using armed_upd [of _ "fst st" a]
  by (auto simp: keeps_wake_def cut_before_def WAKEUP_def at_addr_upd upd_upd split: option.splits)

lemma keeps_wake_insflck: "insflck env lst l fl info = (r, st') \<Longrightarrow> keeps_wake (lst, info) st'"
  using armed_insert [of _ lst fl]
  by (auto simp: insflck_def keeps_wake_def Let_def split: if_splits)

lemma keeps_wake_middle: "adj_middle env ld i flp inside st = (out, st') \<Longrightarrow> keeps_wake st st'"
proof -
  assume run: "adj_middle env ld i flp inside st = (out, st')"
  have fin: "keeps_wake s (cut_before ld a s)" "keeps_wake s (delflck (fst s) a (snd s))" for s ld a
    using keeps_wake_cut keeps_wake_delflck [of "fst s" "snd s"] by simp_all
  let ?td = "(fl_set flp)\<lparr>l_start := l_end ld + 1\<rparr>"
  let ?tdi = "last_before (l_end ld + 1) (Some (fl_addr flp)) (chain_from (fl_addr flp) (fst st))"
  obtain r s where ins: "insflck env (fst st) ?td ?tdi (snd st) = (r, s)" by (metis surj_pair)
  have "keeps_wake st s" using keeps_wake_insflck [OF ins] by simp
  with run ins show ?thesis
    by (auto simp: adj_middle_def Let_def fin split: if_splits option.splits intro: keeps_wake_trans)
qed

lemma keeps_wake_one: "adj_one env ld i flp st = (out, st') \<Longrightarrow> keeps_wake st st'"
proof -
  assume run: "adj_one env ld i flp st = (out, st')"
  have del: "keeps_wake st (delflck (fst st) a (snd st))" for a
    using keeps_wake_delflck [of "fst st" "snd st"] by simp
  obtain s e where reg: "regflck ld flp = (s, e)" by (metis surj_pair)
  show ?thesis
    using run unfolding adj_one_def reg Let_def
    by (cases s; cases e) (auto split: if_splits simp: del keeps_wake_cut dest: keeps_wake_middle)
qed

lemma keeps_wake_loop: "adj_loop env ld i todo st = (out, st') \<Longrightarrow> keeps_wake st st'"
proof (induction env ld i todo st rule: adj_loop.induct)
  case (2 env ld i flp nflp st)
  show ?case
  proof (cases "SAMEOWNER (fl_set flp) ld")
    case True
    obtain o1 s1 where one: "adj_one env ld i flp st = (o1, s1)" by (metis surj_pair)
    note k = keeps_wake_one [OF one]
    show ?thesis
    proof (cases o1)
      case (AdjReturn r)
      with 2 True one k show ?thesis by simp
    next
      case (AdjNext ld' i' stop)
      show ?thesis
      proof (cases stop)
        case False
        with 2 True one AdjNext have "keeps_wake s1 st'" by simp
        with k show ?thesis by (rule keeps_wake_trans)
      qed (use 2 True one AdjNext k in simp)
    qed
  qed (use 2 in simp)
qed simp

lemma keeps_wake_flckadj:
  assumes "flckadj env i ld lst info = (r, ld', st')" shows "keeps_wake (lst, info) st'"
proof -
  obtain out s where loop: "adj_loop env ld i (case i of None \<Rightarrow> lst | Some a \<Rightarrow> chain_from a lst) (lst, info)
      = (out, s)" by (metis surj_pair)
  note k = keeps_wake_loop [OF loop]
  show ?thesis
  proof (cases out)
    case (AdjReturn x)
    with assms loop k show ?thesis by (simp add: flckadj_def)
  next
    case (AdjNext ld1 i1 stop)
    obtain lst1 info1 where s: "s = (lst1, info1)" by (metis surj_pair)
    let ?i = "case i1 of None \<Rightarrow> None | Some a \<Rightarrow> last_before (l_start ld1) (Some a) (chain_from a lst1)"
    obtain q s2 where ins: "insflck env lst1 ld1 ?i info1 = (q, s2)" by (metis surj_pair)
    have "keeps_wake (lst, info) s2" using k keeps_wake_insflck [OF ins] keeps_wake_trans s by metis
    with assms flckadj_next [OF loop [unfolded AdjNext s]] k s ins show ?thesis
      by (auto split: if_splits option.splits)
  qed
qed

section \<open>Deadlock detection\<close>

lemma is_owner: "fst p = l_pid l \<and> snd p = l_sysid l \<longleftrightarrow> p = owner l"
  by (cases p) (simp add: owner_def)

lemma sleeping_on_Cons: "sleeping_on p (sf # sfs) =
    (if p = owner (fl_set sf) then Some (blk_pid sf, st_word sf) else sleeping_on p sfs)"
  by (simp add: is_owner)

lemma deadflck_loop_unfold: "deadflck_loop sleepers ld p =
    (if p = owner ld then Some True
     else case sleeping_on p sleepers of None \<Rightarrow> Some False | Some q \<Rightarrow> deadflck_loop sleepers ld q)"
  by (subst deadflck_loop.simps) (simp only: is_owner)

text \<open>\<open>p\<close> waits for \<open>q\<close>: the first sleeping request of \<open>p\<close> is blocked by \<open>q\<close>.\<close>

definition waits :: "filock list \<Rightarrow> ((int \<times> int) \<times> (int \<times> int)) set" where
  "waits sleepers = {(p, q). sleeping_on p sleepers = Some q}"

lemma waits_Cons:
  "waits (sf # sfs) = insert (owner (fl_set sf), (blk_pid sf, st_word sf))
     {e \<in> waits sfs. fst e \<noteq> owner (fl_set sf)}"
  by (auto simp: waits_def sleeping_on_Cons simp del: sleeping_on.simps split: if_splits)

lemma finite_waits [simp]: "finite (waits sleepers)"
  by (induction sleepers) (simp_all add: waits_Cons, simp add: waits_def)

lemma deadflck_loop_acyclic:
  assumes "acyclic (waits sleepers)"
  shows "deadflck_loop sleepers ld p = Some ((p, owner ld) \<in> (waits sleepers)\<^sup>*)"
proof -
  have "wf ((waits sleepers)\<inverse>)" using assms by (simp add: finite_acyclic_wf_converse)
  then show ?thesis
  proof (induction p rule: wf_induct_rule)
    case (less p)
    show ?case
    proof (cases "p = owner ld")
      case True
      then show ?thesis by (subst deadflck_loop_unfold) simp
    next
      case False
      show ?thesis
      proof (cases "sleeping_on p sleepers")
        case None
        then have "(p, owner ld) \<notin> (waits sleepers)\<^sup>*"
          using False by (auto simp: waits_def elim: converse_rtranclE)
        with None False show ?thesis
          by (subst deadflck_loop_unfold) simp
      next
        case (Some q)
        then have edge: "(p, q) \<in> waits sleepers" by (simp add: waits_def)
        have "(p, owner ld) \<in> (waits sleepers)\<^sup>* \<longleftrightarrow> (q, owner ld) \<in> (waits sleepers)\<^sup>*"
        proof
          assume "(p, owner ld) \<in> (waits sleepers)\<^sup>*"
          then show "(q, owner ld) \<in> (waits sleepers)\<^sup>*"
            by (rule converse_rtranclE) (use False Some in \<open>auto simp: waits_def\<close>)
        qed (use edge in \<open>rule converse_rtrancl_into_rtrancl\<close>)
        with less [of q] edge Some False show ?thesis
          by (subst deadflck_loop_unfold) simp
      qed
    qed
  qed
qed

lemma deadflck_acyclic:
  "acyclic (waits sleepers) \<Longrightarrow>
   deadflck sleepers flp ld = Some ((owner (fl_set flp), owner ld) \<in> (waits sleepers)\<^sup>*)"
  by (simp add: deadflck_def deadflck_loop_acyclic owner_def)

text \<open>A request that passes the test does not close a cycle.\<close>

lemma waits_sleep_acyclic:
  assumes "acyclic (waits sleepers)"
    and "(owner (fl_set flp), owner ld) \<notin> (waits sleepers)\<^sup>*"
    and "owner (fl_set sf) = owner ld" "(blk_pid sf, st_word sf) = owner (fl_set flp)"
  shows "acyclic (waits (sf # sleepers))"
proof (rule acyclic_subset)
  show "acyclic (insert (owner ld, owner (fl_set flp)) (waits sleepers))"
    using assms(1,2) by (simp add: acyclic_insert)
  show "waits (sf # sleepers) \<subseteq> insert (owner ld, owner (fl_set flp)) (waits sleepers)"
    using assms(3,4) by (auto simp: waits_Cons)
qed

text \<open>As long as no process has two entries, removing one only removes its edge.\<close>

lemma sleeping_on_None: "p \<notin> (\<lambda>s. owner (fl_set s)) ` set sfs \<Longrightarrow> sleeping_on p sfs = None"
  by (induction sfs) (simp_all add: sleeping_on_Cons del: sleeping_on.simps(2))

lemma waits_remove:
  "distinct (map (\<lambda>s. owner (fl_set s)) (A @ sf # B)) \<Longrightarrow> waits (A @ B) \<subseteq> waits (A @ sf # B)"
proof (induction A)
  case Nil
  then have "sleeping_on (owner (fl_set sf)) B = None" by (intro sleeping_on_None) simp
  then have "fst e \<noteq> owner (fl_set sf)" if "e \<in> waits B" for e
    using that by (auto simp: waits_def)
  then show ?case by (auto simp: waits_Cons)
qed (auto simp: waits_Cons)

text \<open>The loop does not end on a cycle that the requester is not part of.\<close>

lemma deadflck_loop_cycle:
  assumes C: "\<And>p. p \<in> C \<Longrightarrow> \<exists>q \<in> C. sleeping_on p sleepers = Some q" and "owner ld \<notin> C" and "p \<in> C"
  shows "deadflck_loop sleepers ld p = None"
proof -
  have "s = sleepers \<longrightarrow> l = ld \<longrightarrow> p \<notin> C" if "deadflck_loop s l p = Some b" for s l p b
  proof (rule deadflck_loop.raw_induct
      [where P = "\<lambda>s l p b. s = sleepers \<longrightarrow> l = ld \<longrightarrow> p \<notin> C", OF _ that])
    fix loop s l p b
    assume IH: "\<And>s l p b. loop s l p = Some b \<Longrightarrow> s = sleepers \<longrightarrow> l = ld \<longrightarrow> p \<notin> C"
      and step: "(if fst p = l_pid l \<and> snd p = l_sysid l then Some True
        else case sleeping_on p s of None \<Rightarrow> Some False | Some next \<Rightarrow> loop s l next) = Some b"
    show "s = sleepers \<longrightarrow> l = ld \<longrightarrow> p \<notin> C"
    proof (intro impI notI)
      assume same: "s = sleepers" "l = ld" and p: "p \<in> C"
      from C [OF p] obtain q where q: "q \<in> C" "sleeping_on p sleepers = Some q" by blast
      have "\<not> (fst p = l_pid ld \<and> snd p = l_sysid ld)" using assms(2) p is_owner [of p ld] by auto
      with step q(2) same have "loop sleepers ld q = Some b" by auto
      from IH [OF this] q(1) same show False by simp
    qed
  qed
  with assms(3) show ?thesis by (cases "deadflck_loop sleepers ld p") auto
qed

end
