(* ===== verification/Record_Lock_Safety.thy ===== *)
theory Record_Lock_Safety
  imports Record_Lock_Facts
begin

text \<open>
  Processes that lock records concurrently: a state with the sleeping calls, a step relation
  whose steps are the entry points of \<open>Record_Lock_Calls\<close>, its invariant, and the properties of
  record locking.  Requests of remote lock daemons (\<open>RCMDLCK\<close>) are left out of the step relation;
  \<open>remote_requests_hang_deadflck\<close> shows why.
\<close>

section \<open>The system of processes that lock records\<close>

text \<open>A process asleep in \<open>reclock\<close>; \<open>sc_ready\<close> once the lock it sleeps on woke it.\<close>

record sleep_call =
  sc_sf :: nat
  sc_on :: nat
  sc_vp :: nat
  sc_req :: flock
  sc_cmd :: lck_cmd
  sc_env :: lck_env
  sc_ready :: bool

definition settle :: "flckinfo \<Rightarrow> sleep_call list \<Rightarrow> sleep_call list" where
  "settle info cs = map (\<lambda>c. if sc_on c \<in> set (lck_woken info) then c\<lparr>sc_ready := True\<rparr> else c) cs"

definition after_call ::
  "lck_env \<Rightarrow> nat \<Rightarrow> lck_cmd \<Rightarrow> lck_out \<times> flock \<times> lck_sys \<Rightarrow> sleep_call list
     \<Rightarrow> lck_sys \<times> sleep_call list" where
  "after_call env vp cmd res cs =
     (case res of (out, ld, sys) \<Rightarrow>
        (sys\<lparr>finfo := (finfo sys)\<lparr>lck_woken := []\<rparr>\<rparr>,
         (case out of
            Sleep a f \<Rightarrow> [\<lparr>sc_sf = a, sc_on = f, sc_vp = vp, sc_req = ld, sc_cmd = cmd,
                          sc_env = env, sc_ready = False\<rparr>]
          | _ \<Rightarrow> []) @ settle (finfo sys) cs))"

definition lck_boot :: lck_sys where
  "lck_boot = \<lparr>filocks = \<lambda>_. [], sleeplcks = [],
     finfo = \<lparr>reccnt = 0, rectot = 0, next_addr = 0, lck_woken = []\<rparr>\<rparr>"

text \<open>
  The wake-up flag of a lock is a 32-bit count of the sleeps on it since it last woke anybody;
  the steps leave out the 2^32nd.
\<close>

definition flag_room :: "filock list \<Rightarrow> bool" where
  "flag_room lst \<longleftrightarrow> (\<forall>f \<in> set lst. s32 (st_word f + 1) \<noteq> 0)"

inductive lck_reach :: "lck_sys \<Rightarrow> sleep_call list \<Rightarrow> bool" where
  boot: "lck_reach lck_boot []"
| call: "lck_reach sys cs \<Longrightarrow> \<not> RCMDLCK cmd \<Longrightarrow> \<forall>c \<in> set cs. owner (sc_req c) \<noteq> owner lckdat \<Longrightarrow>
    flag_room (filocks sys vp) \<Longrightarrow>
    after_call env vp cmd (reclock env attr vp lckdat cmd flag off sys) cs = (sys', cs') \<Longrightarrow>
    lck_reach sys' cs'"
| resume: "lck_reach sys (as @ c # bs) \<Longrightarrow> interrupted \<or> sc_ready c \<Longrightarrow>
    flag_room (filocks sys (sc_vp c)) \<Longrightarrow>
    after_call env (sc_vp c) (sc_cmd c)
      (reclock_resume env (sc_vp c) (sc_req c) (sc_cmd c) (sc_sf c) interrupted sys) (as @ bs)
      = (sys', cs') \<Longrightarrow>
    lck_reach sys' cs'"
| close: "lck_reach sys cs \<Longrightarrow>
    after_call env vp cmd (Ret (Ok ()), ld, cleanlocks vp pid sysid sys) cs = (sys', cs') \<Longrightarrow>
    lck_reach sys' cs'"

section \<open>The invariant\<close>

definition chains_ok :: "lck_sys \<Rightarrow> bool" where
  "chains_ok sys \<longleftrightarrow> (\<forall>vp. chain_ok (filocks sys vp) (finfo sys) \<and> conflict_free (map fl_set (filocks sys vp)))"

text \<open>A request waits on the lock with the address \<open>a\<close>, which still conflicts with it.\<close>

definition waits_on :: "lck_env \<Rightarrow> flock \<Rightarrow> nat \<Rightarrow> filock list \<Rightarrow> bool" where
  "waits_on env ld a lst \<longleftrightarrow> (\<exists>f \<in> set lst. fl_addr f = a \<and> st_word f \<noteq> 0 \<and> lck_conflict env ld f)"

lemma lck_conflict_cong: "fl_set f = fl_set g \<Longrightarrow> lck_conflict env ld f = lck_conflict env ld g"
  by (simp add: lck_conflict_def lock_blocks_def)

lemma waits_on_kept:
  assumes "waits_on env ld a (fst st)" and "keeps_wake st st'"
  shows "waits_on env ld a (fst st') \<or> a \<in> set (lck_woken (snd st'))"
proof -
  from assms(1) obtain f where f: "f \<in> set (fst st)" "fl_addr f = a" "st_word f \<noteq> 0" "lck_conflict env ld f"
    by (auto simp: waits_on_def)
  then have "(a, fl_set f) \<in> armed (fst st)" by (auto simp: armed_def)
  with assms(2) have "(a, fl_set f) \<in> armed (fst st') \<or> a \<in> set (lck_woken (snd st'))"
    by (fastforce simp: keeps_wake_def)
  then show ?thesis
  proof
    assume "(a, fl_set f) \<in> armed (fst st')"
    then obtain g where "g \<in> set (fst st')" "fl_addr g = a" "st_word g \<noteq> 0" "fl_set g = fl_set f"
      by (auto simp: armed_def)
    with f(4) lck_conflict_cong [of g f] show ?thesis by (auto simp: waits_on_def)
  qed simp
qed

definition sleepers_ok :: "filock list \<Rightarrow> flckinfo \<Rightarrow> bool" where
  "sleepers_ok sfs info \<longleftrightarrow> distinct (map fl_addr sfs) \<and> (\<forall>sf \<in> set sfs. fl_addr sf < next_addr info)
     \<and> distinct (map (\<lambda>sf. owner (fl_set sf)) sfs) \<and> acyclic (waits sfs)"

definition req_ok :: "flock \<Rightarrow> lck_cmd \<Rightarrow> bool" where
  "req_ok ld cmd \<longleftrightarrow> lck_range ld \<and> \<not> RCMDLCK cmd"

definition calls_ok :: "lck_sys \<Rightarrow> sleep_call list \<Rightarrow> bool" where
  "calls_ok sys cs \<longleftrightarrow>
     map (\<lambda>c. (sc_sf c, sc_req c)) cs = map (\<lambda>sf. (fl_addr sf, fl_set sf)) (sleeplcks sys)
     \<and> (\<forall>c \<in> set cs. req_ok (sc_req c) (sc_cmd c)
          \<and> (\<not> sc_ready c \<longrightarrow> waits_on (sc_env c) (sc_req c) (sc_on c) (filocks sys (sc_vp c))))"

definition lck_inv :: "lck_sys \<Rightarrow> sleep_call list \<Rightarrow> bool" where
  "lck_inv sys cs \<longleftrightarrow> chains_ok sys \<and> sleepers_ok (sleeplcks sys) (finfo sys) \<and> calls_ok sys cs
     \<and> lck_woken (finfo sys) = []"

text \<open>What a pass over one file may do to the rest of the system.\<close>

definition sys_moves :: "nat \<Rightarrow> lck_sys \<Rightarrow> lck_sys \<Rightarrow> bool" where
  "sys_moves vp sys sys' \<longleftrightarrow>
     (\<forall>v. v \<noteq> vp \<longrightarrow> filocks sys' v = filocks sys v)
     \<and> keeps_wake (filocks sys vp, finfo sys) (filocks sys' vp, finfo sys')"

lemma chain_ok_later: "chain_ok lst info \<Longrightarrow> next_addr info \<le> next_addr info' \<Longrightarrow> chain_ok lst info'"
  by (auto simp: chain_ok_def)

lemma chains_okI:
  assumes "chains_ok sys" "sys_moves vp sys sys'"
    and "chain_ok (filocks sys' vp) (finfo sys')" "conflict_free (map fl_set (filocks sys' vp))"
  shows "chains_ok sys'"
  unfolding chains_ok_def
proof
  fix v
  show "chain_ok (filocks sys' v) (finfo sys') \<and> conflict_free (map fl_set (filocks sys' v))"
    using assms chain_ok_later [of "filocks sys v" "finfo sys" "finfo sys'"]
    by (cases "v = vp") (auto simp: chains_ok_def sys_moves_def keeps_wake_def)
qed

lemma waits_settle:
  assumes move: "sys_moves vp sys sys'" and on: "waits_on env ld a (filocks sys v)"
  shows "waits_on env ld a (filocks sys' v) \<or> a \<in> set (lck_woken (finfo sys'))"
  using assms waits_on_kept [of env ld a "(filocks sys v, finfo sys)" "(filocks sys' v, finfo sys')"]
  by (cases "v = vp") (auto simp: sys_moves_def)

text \<open>The state after a step, when no process went to sleep in it.\<close>

lemma after_no_sleep:
  assumes chains: "chains_ok sys" "chains_ok sys'" and move: "sys_moves vp sys sys'"
    and sl: "sleepers_ok (sleeplcks sys) (finfo sys)" "sleeplcks sys' = sleeplcks sys"
    and calls: "calls_ok sys cs" and quiet: "lck_woken (finfo sys) = []"
    and out: "\<And>a f. out \<noteq> Sleep a f"
    and res: "after_call env vp cmd (out, ld, sys') cs = (sys2, cs2)"
  shows "lck_inv sys2 cs2"
proof -
  have s2: "sys2 = sys'\<lparr>finfo := (finfo sys')\<lparr>lck_woken := []\<rparr>\<rparr>" "cs2 = settle (finfo sys') cs"
    using res out by (auto simp: after_call_def split: lck_out.splits)
  have "next_addr (finfo sys) \<le> next_addr (finfo sys')"
    using move by (simp add: sys_moves_def keeps_wake_def)
  then have "sleepers_ok (sleeplcks sys2) (finfo sys2)"
    using sl by (auto simp: s2 sleepers_ok_def)
  moreover have "chains_ok sys2" using chains(2) by (simp add: s2 chains_ok_def chain_ok_def)
  moreover have "map (\<lambda>c. (sc_sf c, sc_req c)) cs2 = map (\<lambda>c. (sc_sf c, sc_req c)) cs"
    by (simp add: s2 settle_def comp_def if_distrib cong: if_cong)
  moreover have "req_ok (sc_req c) (sc_cmd c) \<and> (\<not> sc_ready c \<longrightarrow> waits_on (sc_env c) (sc_req c) (sc_on c) (filocks sys2 (sc_vp c)))"
    if "c \<in> set cs2" for c
    using that calls waits_settle [OF move]
    by (fastforce simp: s2 settle_def calls_ok_def split: if_splits)
  ultimately show ?thesis using calls sl(2) by (simp add: lck_inv_def calls_ok_def s2(1))
qed


text \<open>What one pass of \<open>reclock\<close> does.\<close>

definition went_to_sleep :: "lck_env \<Rightarrow> nat \<Rightarrow> flock \<Rightarrow> nat \<Rightarrow> nat \<Rightarrow> lck_sys \<Rightarrow> lck_sys \<Rightarrow> bool" where
  "went_to_sleep env vp ld a f sys sys' \<longleftrightarrow>
     waits_on env ld f (filocks sys' vp) \<and> lck_woken (finfo sys') = lck_woken (finfo sys)
     \<and> sleepers_ok (sleeplcks sys') (finfo sys')
     \<and> (\<exists>sf. sleeplcks sys' = sf # sleeplcks sys \<and> fl_addr sf = a \<and> fl_set sf = ld)"

definition pass_ok :: "lck_env \<Rightarrow> nat \<Rightarrow> flock \<Rightarrow> lck_sys \<Rightarrow> lck_out \<times> flock \<times> lck_sys \<Rightarrow> bool" where
  "pass_ok env vp ld sys res \<longleftrightarrow>
     (case res of (out, ld', sys') \<Rightarrow> chains_ok sys' \<and> sys_moves vp sys sys'
        \<and> (case out of
             Hang \<Rightarrow> False
           | Ret r \<Rightarrow> sleeplcks sys' = sleeplcks sys
           | Sleep a f \<Rightarrow> ld' = ld \<and> went_to_sleep env vp ld a f sys sys'))"

lemma sys_moves_refl [simp]: "sys_moves vp sys sys"
  by (simp add: sys_moves_def)

lemma adjust_ok:
  assumes chains: "chains_ok sys" and rng: "lck_range ld" and ty: "l_type ld \<noteq> F_OTHER"
    and ins: "insrt_ok ld i (filocks sys vp)"
    and none: "l_type ld \<noteq> F_UNLCK \<Longrightarrow> \<forall>f \<in> set (filocks sys vp). \<not> lck_conflict env ld f"
    and run: "adjust env vp i ld sys = (r, ld', sys')"
  shows "chains_ok sys' \<and> sys_moves vp sys sys' \<and> sleeplcks sys' = sleeplcks sys"
proof -
  obtain lst info where adj: "flckadj env i ld (filocks sys vp) (finfo sys) = (r, ld', lst, info)"
    and sys': "sys' = sys\<lparr>filocks := (filocks sys)(vp := lst), finfo := info\<rparr>"
    using run by (auto simp: adjust_def split: prod.splits)
  have ok: "chain_ok (filocks sys vp) (finfo sys)" and free: "conflict_free (map fl_set (filocks sys vp))"
    using chains by (auto simp: chains_ok_def)
  have move: "sys_moves vp sys sys'"
    using keeps_wake_flckadj [OF adj] by (simp add: sys_moves_def sys')
  have "chain_ok lst info \<and> conflict_free (map fl_set lst)"
    using flckadj_ok [OF ok rng ty ins adj]
  proof (elim disjE conjE)
    assume "chain_ok lst info" "shrinks (filocks sys vp) lst"
    with free show ?thesis using conflict_free_shrinks by blast
  next
    assume "chain_ok lst info"
      and new: "\<forall>p x t. holds (map fl_set lst) p x t = granted ld (map fl_set (filocks sys vp)) p x t"
    moreover have "locks_ok (map fl_set (filocks sys vp))" using ok by (simp add: chain_ok_def)
    ultimately show ?thesis using conflict_free_granted [OF free _ none ty] by blast
  qed
  then show ?thesis using chains_okI [OF chains move] move by (simp add: sys')
qed

lemma add_sleeper_cases:
  assumes "add_sleeper env ld found sys = (r, sys1)"
  obtains "r = None" "sys1 = sys"
  | sf where "r = Some (next_addr (finfo sys))" "filocks sys1 = filocks sys"
      "sleeplcks sys1 = sf # sleeplcks sys" "fl_addr sf = next_addr (finfo sys)" "fl_set sf = ld"
      "(blk_pid sf, st_word sf) = owner (fl_set found)"
      "next_addr (finfo sys1) = Suc (next_addr (finfo sys))" "lck_woken (finfo sys1) = lck_woken (finfo sys)"
proof (cases "reccnt (finfo sys) \<ge> t_flckrec env \<or> \<not> kmem_ok env (next_addr (finfo sys))")
  case True
  with assms have "r = None" "sys1 = sys" by (auto simp: add_sleeper_def insflck_def split: if_splits)
  then show thesis by (rule that(1))
next
  case False
  with assms show thesis
    by (intro that(2) [of "\<lparr>fl_addr = next_addr (finfo sys), fl_set = ld, st_word = l_sysid (fl_set found),
        blk_pid = l_pid (fl_set found)\<rparr>"]) (auto simp: add_sleeper_def insflck_def Let_def owner_def)
qed

lemma raise_flag:
  shows "map fl_set (upd_addr a (\<lambda>f. f\<lparr>st_word := s32 (st_word f + 1)\<rparr>) lst) = map fl_set lst"
    "map fl_addr (upd_addr a (\<lambda>f. f\<lparr>st_word := s32 (st_word f + 1)\<rparr>) lst) = map fl_addr lst"
  by (induction lst) auto

lemma armed_upd_keep:
  assumes "\<forall>f \<in> set lst. fl_addr (g f) = fl_addr f \<and> fl_set (g f) = fl_set f \<and> st_word (g f) \<noteq> 0"
    and "e \<in> armed lst"
  shows "e \<in> armed (upd_addr a g lst)"
  using assms
proof (induction lst)
  case (Cons f lst)
  then consider "e = (fl_addr f, fl_set f)" "st_word f \<noteq> 0" | "e \<in> armed lst" by (auto simp: armed_def)
  then show ?case
  proof cases
    case 1
    with Cons.prems have "\<exists>h \<in> set (upd_addr a g (f # lst)). e = (fl_addr h, fl_set h) \<and> st_word h \<noteq> 0"
      by auto
    then show ?thesis by (auto simp: armed_def)
  next
    case 2
    with Cons have "e \<in> armed (upd_addr a g lst)" by simp
    with 2 show ?thesis by (auto simp: armed_def)
  qed
qed (simp add: armed_def)

lemma raise_flag_waits:
  assumes "f \<in> set lst" "distinct (map fl_addr lst)" "flag_room lst" "lck_conflict env ld f"
  shows "waits_on env ld (fl_addr f) (upd_addr (fl_addr f) (\<lambda>f. f\<lparr>st_word := s32 (st_word f + 1)\<rparr>) lst)"
proof -
  from assms(1) obtain P R where lst: "lst = P @ f # R" by (meson split_list)
  with assms(2) have "fl_addr f \<notin> fl_addr ` set P" by simp
  then have at: "upd_addr (fl_addr f) g lst = P @ g f # R" for g by (simp add: lst at_place)
  let ?f = "f\<lparr>st_word := s32 (st_word f + 1)\<rparr>"
  have "st_word ?f \<noteq> 0" using assms(1,3) by (simp add: flag_room_def)
  moreover have "lck_conflict env ld ?f" using assms(4) lck_conflict_cong [of ?f f] by simp
  ultimately show ?thesis by (auto simp: at waits_on_def)
qed

lemma chain_ok_maps:
  assumes "map fl_set lst' = map fl_set lst" "map fl_addr lst' = map fl_addr lst"
  shows "chain_ok lst' info = chain_ok lst info"
proof -
  have "(\<forall>f \<in> set lst. fl_addr f < n) \<longleftrightarrow> (\<forall>a \<in> set (map fl_addr lst). a < n)"
    for n :: nat and lst :: "filock list" by simp
  with assms show ?thesis by (simp only: chain_ok_def)
qed

lemma reclock_sleep_ok:
  assumes chains: "chains_ok sys" and sl: "sleepers_ok (sleeplcks sys) (finfo sys)"
    and new: "owner ld \<notin> (\<lambda>sf. owner (fl_set sf)) ` set (sleeplcks sys)"
    and cmd: "\<not> RCMDLCK cmd" and found: "found \<in> set (filocks sys vp)" "lck_conflict env ld found"
    and room: "flag_room (filocks sys vp)"
  shows "pass_ok env vp ld sys (reclock_sleep env cmd vp ld found sys)"
proof -
  have acy: "acyclic (waits (sleeplcks sys))" using sl by (simp add: sleepers_ok_def)
  show ?thesis
  proof (cases "(owner (fl_set found), owner ld) \<in> (waits (sleeplcks sys))\<^sup>*")
    case True
    with acy chains show ?thesis by (simp add: reclock_sleep_def deadflck_acyclic pass_ok_def)
  next
    case False
    obtain r sys1 where add: "add_sleeper env ld found sys = (r, sys1)" by (metis surj_pair)
    show ?thesis
    proof (rule add_sleeper_cases [OF add])
      assume "r = None" "sys1 = sys"
      with add False acy cmd chains show ?thesis
        by (simp add: reclock_sleep_def deadflck_acyclic pass_ok_def)
    next
      fix sf
      assume r: "r = Some (next_addr (finfo sys))" and f1: "filocks sys1 = filocks sys"
        and sl1: "sleeplcks sys1 = sf # sleeplcks sys" and sf: "fl_addr sf = next_addr (finfo sys)"
        "fl_set sf = ld" "(blk_pid sf, st_word sf) = owner (fl_set found)"
        and i1: "next_addr (finfo sys1) = Suc (next_addr (finfo sys))"
        "lck_woken (finfo sys1) = lck_woken (finfo sys)"
      let ?lst = "upd_addr (fl_addr found) (\<lambda>f. f\<lparr>st_word := s32 (st_word f + 1)\<rparr>) (filocks sys vp)"
      let ?sys = "sys1\<lparr>filocks := (filocks sys1)(vp := ?lst)\<rparr>"
      have run: "reclock_sleep env cmd vp ld found sys = (Sleep (next_addr (finfo sys)) (fl_addr found), ld, ?sys)"
        using add False acy cmd r f1 by (simp add: reclock_sleep_def deadflck_acyclic)
      note flag = raise_flag [of "fl_addr found" "filocks sys vp"]
      have chok: "chain_ok (filocks sys vp) (finfo sys)" using chains by (simp add: chains_ok_def)
      then have wts: "waits_on env ld (fl_addr found) ?lst"
        using raise_flag_waits [OF found(1) _ room found(2)] by (simp add: chain_ok_def)
      have move: "sys_moves vp sys ?sys"
        using f1 i1 room
        by (auto simp: sys_moves_def keeps_wake_def flag_room_def intro: armed_upd_keep)
      have "chain_ok ?lst (finfo sys1)"
        using chains chain_ok_later [of ?lst "finfo sys"] i1(1)
        by (simp add: chain_ok_maps [OF flag(1,2)] chains_ok_def)
      with chains_okI [OF chains move] chains have ok: "chains_ok ?sys"
        by (simp add: flag(1) chains_ok_def)
      have "acyclic (waits (sf # sleeplcks sys))"
        using waits_sleep_acyclic [OF acy False _ sf(3)] sf(2) by simp
      with sl new sf(1,2) i1(1) have "sleepers_ok (sf # sleeplcks sys) (finfo sys1)"
        by (auto simp: sleepers_ok_def less_Suc_eq)
      with sl1 sf i1 wts have "went_to_sleep env vp ld (next_addr (finfo sys)) (fl_addr found) sys ?sys"
        by (simp add: went_to_sleep_def)
      with run ok move show ?thesis by (simp add: pass_ok_def)
    qed
  qed
qed


lemma reclock_pass_ok:
  assumes chains: "chains_ok sys" and sl: "sleepers_ok (sleeplcks sys) (finfo sys)"
    and new: "owner ld \<notin> (\<lambda>sf. owner (fl_set sf)) ` set (sleeplcks sys)"
    and cmd: "\<not> RCMDLCK cmd" and rng: "lck_range ld"
    and room: "flag_room (filocks sys vp)"
  shows "pass_ok env vp ld sys (reclock_pass env cmd vp ld sys)"
proof -
  have ok: "chain_ok (filocks sys vp) (finfo sys)" using chains by (simp add: chains_ok_def)
  note sorted = chain_sorted [OF ok]
  have le: "l_start ld \<le> l_end ld" using rng by (simp add: lck_range_def)
  have same: "pass_ok env vp ld sys (Ret r, ld', sys)" for r ld' using chains by (simp add: pass_ok_def)
  have done1: "pass_ok env vp ld sys (Ret r, ld', sys')"
    if "adjust env vp i ld sys = (r, ld', sys')" "insrt_ok ld i (filocks sys vp)" "l_type ld \<noteq> F_OTHER"
      "l_type ld \<noteq> F_UNLCK \<Longrightarrow> fst (blocked env (filocks sys vp) ld) = None" for i r ld' sys'
    using adjust_ok [OF chains rng that(3,2) _ that(1)] that(4) blocked_None [OF sorted le]
    by (simp add: pass_ok_def)
  show ?thesis
  proof (cases "l_type ld = F_RDLCK \<or> l_type ld = F_WRLCK")
    case True
    obtain fd i where bl: "blocked env (filocks sys vp) ld = (fd, i)" by (metis surj_pair)
    show ?thesis
    proof (cases fd)
      case None
      obtain r ld1 sys1 where adj: "adjust env vp i ld sys = (r, ld1, sys1)" by (metis prod_cases3)
      from done1 [OF adj] blocked_insrt [OF _ ok] bl None True same cmd adj show ?thesis
        by (auto simp: reclock_pass_def split: lck_type.splits)
    next
      case (Some f)
      have "fst (blocked env (filocks sys vp) ld) = Some f" using bl Some by simp
      from blocked_Some [OF this le] have "f \<in> set (filocks sys vp)" "lck_conflict env ld f" by simp_all
      from reclock_sleep_ok [OF chains sl new cmd this room] bl Some True same show ?thesis
        by (auto simp: reclock_pass_def split: lck_type.splits)
    qed
  next
    case False
    then consider "l_type ld = F_UNLCK" | "l_type ld = F_OTHER" by (cases "l_type ld") auto
    then show ?thesis
    proof cases
      case 1
      let ?i = "case filocks sys vp of [] \<Rightarrow> None | f # _ \<Rightarrow> Some (fl_addr f)"
      obtain r ld1 sys1 where adj: "adjust env vp ?i ld sys = (r, ld1, sys1)" by (metis prod_cases3)
      from done1 [OF adj head_insrt [OF 1]] 1 same cmd adj show ?thesis
        by (simp add: reclock_pass_def)
    qed (use same in \<open>simp add: reclock_pass_def\<close>)
  qed
qed


section \<open>The invariant is kept\<close>

lemma reclock_finish_sys [simp]:
  "reclock_finish (out, ld, sys) = (out, (case out of Ret r \<Rightarrow> restore_len ld | _ \<Rightarrow> ld), sys)"
  by (simp add: reclock_finish_def split: lck_out.splits)

lemma after_pass:
  assumes pass: "pass_ok env vp ld sys res" and chains: "chains_ok sys"
    and sl: "sleepers_ok (sleeplcks sys) (finfo sys)" and calls: "calls_ok sys cs"
    and quiet: "lck_woken (finfo sys) = []" and rng: "lck_range ld" and cmd: "\<not> RCMDLCK cmd"
    and res: "after_call env vp cmd (reclock_finish res) cs = (sys2, cs2)"
  shows "lck_inv sys2 cs2"
proof -
  obtain out ld' sys' where r: "res = (out, ld', sys')" by (metis prod_cases3)
  from pass have ch: "chains_ok sys'" and move: "sys_moves vp sys sys'" by (simp_all add: pass_ok_def r)
  show ?thesis
  proof (cases out)
    case (Ret x)
    with pass have "sleeplcks sys' = sleeplcks sys" by (simp add: pass_ok_def r)
    from after_no_sleep [OF chains ch move sl this calls quiet, of "Ret x"] res Ret
    show ?thesis by (simp add: r)
  next
    case Hang
    with pass show ?thesis by (simp add: pass_ok_def r)
  next
    case (Sleep a f)
    with pass have ld': "ld' = ld" and slp: "went_to_sleep env vp ld a f sys sys'" by (simp_all add: pass_ok_def r)
    from slp obtain sf where sf: "sleeplcks sys' = sf # sleeplcks sys" "fl_addr sf = a" "fl_set sf = ld"
      and sl': "sleepers_ok (sleeplcks sys') (finfo sys')" and f: "waits_on env ld f (filocks sys' vp)"
      and w: "lck_woken (finfo sys') = []"
      using quiet by (auto simp: went_to_sleep_def)
    let ?c = "\<lparr>sc_sf = a, sc_on = f, sc_vp = vp, sc_req = ld, sc_cmd = cmd,
                          sc_env = env, sc_ready = False\<rparr>"
    have s2: "sys2 = sys'\<lparr>finfo := (finfo sys')\<lparr>lck_woken := []\<rparr>\<rparr>" "cs2 = ?c # cs"
      using res w by (auto simp: r Sleep after_call_def settle_def ld')
    have "waits_on (sc_env c) (sc_req c) (sc_on c) (filocks sys' (sc_vp c))"
      if "c \<in> set cs" "\<not> sc_ready c" for c
      using waits_settle [OF move, of "sc_env c" "sc_req c" "sc_on c" "sc_vp c"] that calls w by (simp add: calls_ok_def)
    then have "calls_ok sys2 cs2" using calls sf f rng cmd by (auto simp: calls_ok_def s2 req_ok_def)
    moreover have "chains_ok sys2" "sleepers_ok (sleeplcks sys2) (finfo sys2)"
      using ch sl' by (simp_all add: s2 chains_ok_def chain_ok_def sleepers_ok_def)
    ultimately show ?thesis by (simp add: lck_inv_def s2)
  qed
qed

lemma calls_owners: "calls_ok sys cs \<Longrightarrow>
    (\<lambda>sf. owner (fl_set sf)) ` set (sleeplcks sys) = (\<lambda>c. owner (sc_req c)) ` set cs"
proof -
  assume "calls_ok sys cs"
  then have "map snd (map (\<lambda>c. (sc_sf c, sc_req c)) cs)
      = map snd (map (\<lambda>sf. (fl_addr sf, fl_set sf)) (sleeplcks sys))" by (simp only: calls_ok_def)
  then have "map sc_req cs = map fl_set (sleeplcks sys)" by (simp add: comp_def)
  then have "owner ` set (map sc_req cs) = owner ` set (map fl_set (sleeplcks sys))" by simp
  then show ?thesis by (simp add: image_image)
qed

text \<open>An accepted request covers a range of bytes below the largest offset.\<close>

lemma reclock_range_ok:
  assumes "reclock_range env attr cmd flag off l = (Ok (), ld)"
  shows "lck_range ld" "owner ld = owner l" "l_type ld = l_type l" "l_whence ld = 0"
proof -
  have s32_max: "s32 x \<le> MAXEND" for x using s32_range(2) [of x] unfolding MAXEND_def by linarith
  show "lck_range ld" "owner ld = owner l" "l_type ld = l_type l" "l_whence ld = 0"
    using assms s32_max
    by (auto simp: reclock_range_def convoff_def lck_range_def owner_def Let_def MAXEND_def s16_def
        split: option.splits sum.splits prod.splits if_splits)
qed


text \<open>The entry of a process that stops sleeping leaves the chain of sleeping requests.\<close>

lemma leave_sleepers:
  assumes inv: "lck_inv sys (as @ c # bs)"
  obtains sys1 where "\<And>env vp ld cmd interrupted. reclock_resume env vp ld cmd (sc_sf c) interrupted sys
      = reclock_finish (if interrupted then (Ret (Err EINTR), ld, sys1) else reclock_pass env cmd vp ld sys1)"
    "chains_ok sys1" "filocks sys1 = filocks sys" "sleepers_ok (sleeplcks sys1) (finfo sys1)"
    "calls_ok sys1 (as @ bs)" "lck_woken (finfo sys1) = []"
    "owner (sc_req c) \<notin> (\<lambda>sf. owner (fl_set sf)) ` set (sleeplcks sys1)"
proof -
  have calls: "calls_ok sys (as @ c # bs)" and sl: "sleepers_ok (sleeplcks sys) (finfo sys)"
    and chains: "chains_ok sys" and quiet: "lck_woken (finfo sys) = []"
    using inv by (simp_all add: lck_inv_def)
  let ?k = "\<lambda>sf. (fl_addr sf, fl_set sf)"
  from calls have "map ?k (sleeplcks sys) = map (\<lambda>c. (sc_sf c, sc_req c)) (as @ c # bs)"
    by (simp only: calls_ok_def)
  then obtain A sf B where S: "sleeplcks sys = A @ sf # B" and A: "map ?k A = map (\<lambda>c. (sc_sf c, sc_req c)) as"
    and sf: "fl_addr sf = sc_sf c" "fl_set sf = sc_req c" and B: "map ?k B = map (\<lambda>c. (sc_sf c, sc_req c)) bs"
    by (auto simp: map_eq_append_conv map_eq_Cons_conv append_eq_map_conv Cons_eq_map_conv)
  let ?info = "(finfo sys)\<lparr>reccnt := reccnt (finfo sys) - 1\<rparr>"
  let ?sys = "sys\<lparr>sleeplcks := A @ B, finfo := ?info\<rparr>"
  have P: "fl_addr sf \<notin> fl_addr ` set A" using sl by (simp add: S sleepers_ok_def)
  let ?z = "sf\<lparr>blk_pid := 0, st_word := 0\<rparr>"
  have "upd_addr (sc_sf c) (\<lambda>s. s\<lparr>blk_pid := 0, st_word := 0\<rparr>) (sleeplcks sys) = A @ ?z # B"
    using at_place(2) [OF P] by (simp add: S sf(1) [symmetric])
  moreover have "delflck (A @ ?z # B) (sc_sf c) (finfo sys) = (A @ B, ?info)"
    using at_place(1,5) [of ?z A] P by (simp add: delflck_def WAKEUP_def Let_def sf(1) [symmetric])
  ultimately have run: "reclock_resume env vp ld cmd (sc_sf c) interrupted sys
      = reclock_finish (if interrupted then (Ret (Err EINTR), ld, ?sys) else reclock_pass env cmd vp ld ?sys)"
    for env vp ld cmd interrupted by (simp add: reclock_resume_def Let_def)
  have dist: "distinct (map (\<lambda>sf. owner (fl_set sf)) (A @ sf # B))" using sl by (simp add: S sleepers_ok_def)
  have "acyclic (waits (A @ B))"
    using acyclic_subset [OF _ waits_remove [OF dist]] sl by (simp add: S sleepers_ok_def)
  then have sl': "sleepers_ok (A @ B) ?info" using sl by (simp add: S sleepers_ok_def)
  have "map (\<lambda>c. (sc_sf c, sc_req c)) (as @ bs) = map ?k (A @ B)"
    by (simp only: map_append A B)
  moreover have "\<forall>c \<in> set (as @ bs). req_ok (sc_req c) (sc_cmd c)
      \<and> (\<not> sc_ready c \<longrightarrow> waits_on (sc_env c) (sc_req c) (sc_on c) (filocks sys (sc_vp c)))"
    using calls by (simp add: calls_ok_def)
  ultimately have "calls_ok ?sys (as @ bs)" unfolding calls_ok_def by simp
  moreover have "chains_ok ?sys" using chains by (simp add: chains_ok_def chain_ok_def)
  moreover have "owner (sc_req c) \<notin> (\<lambda>sf. owner (fl_set sf)) ` set (A @ B)"
    using dist by (simp add: sf(2) [symmetric] image_Un)
  ultimately show thesis using that [of ?sys] run sl' quiet by simp
qed

text \<open>The last close.\<close>

definition lck_of :: "int \<Rightarrow> int \<Rightarrow> filock \<Rightarrow> bool" where
  "lck_of pid sysid f \<longleftrightarrow> (l_pid (fl_set f) = pid \<or> pid = IGN_PID) \<and> l_sysid (fl_set f) = sysid"

lemma clean_scan_filter:
  assumes "distinct (map fl_addr (P @ todo))"
  shows "\<exists>info'. clean_scan pid sysid todo (P @ todo, info) = (P @ [f \<leftarrow> todo. \<not> lck_of pid sysid f], info')
     \<and> keeps_wake (P @ todo, info) (P @ [f \<leftarrow> todo. \<not> lck_of pid sysid f], info')
     \<and> reccnt info' = reccnt info - int (length [f \<leftarrow> todo. lck_of pid sysid f])
     \<and> next_addr info' = next_addr info"
  using assms
proof (induction todo arbitrary: P info)
  case (Cons f todo)
  show ?case
  proof (cases "lck_of pid sysid f")
    case True
    have P: "fl_addr f \<notin> fl_addr ` set P" using Cons.prems by simp
    obtain info1 where del: "delflck (P @ f # todo) (fl_addr f) info = (P @ todo, info1)"
      and n: "next_addr info1 = next_addr info" using delflck_place [OF P] by metis
    have cnt: "reccnt info1 = reccnt info - 1"
      using del by (auto simp: delflck_def WAKEUP_def Let_def split: option.splits if_splits)
    have k: "keeps_wake (P @ f # todo, info) (P @ todo, info1)"
      using keeps_wake_delflck [of "P @ f # todo" info "fl_addr f"] del by simp
    have "distinct (map fl_addr (P @ todo))" using Cons.prems by simp
    from Cons.IH [OF this, of info1] True del k cnt n show ?thesis
      by (auto simp: lck_of_def intro: keeps_wake_trans)
  next
    case False
    have "distinct (map fl_addr ((P @ [f]) @ todo))" using Cons.prems by simp
    from Cons.IH [OF this, of info] False show ?thesis by (auto simp: lck_of_def)
  qed
qed simp

lemma cleanlocks_ok:
  assumes chains: "chains_ok sys"
  shows "filocks (cleanlocks vp pid sysid sys) vp = [f \<leftarrow> filocks sys vp. \<not> lck_of pid sysid f]"
    "chains_ok (cleanlocks vp pid sysid sys)" "sys_moves vp sys (cleanlocks vp pid sysid sys)"
    "sleeplcks (cleanlocks vp pid sysid sys) = sleeplcks sys"
    "reccnt (finfo (cleanlocks vp pid sysid sys))
      = reccnt (finfo sys) - int (length [f \<leftarrow> filocks sys vp. lck_of pid sysid f])"
proof -
  let ?lst = "filocks sys vp" and ?new = "[f \<leftarrow> filocks sys vp. \<not> lck_of pid sysid f]"
  have ok: "chain_ok ?lst (finfo sys)" using chains by (simp add: chains_ok_def)
  then obtain info' where run: "clean_scan pid sysid ?lst (?lst, finfo sys) = (?new, info')"
    and k: "keeps_wake (?lst, finfo sys) (?new, info')" and n: "next_addr info' = next_addr (finfo sys)"
    and cnt: "reccnt info' = reccnt (finfo sys) - int (length [f \<leftarrow> ?lst. lck_of pid sysid f])"
    using clean_scan_filter [of "[]" ?lst pid sysid "finfo sys"] by (auto simp: chain_ok_def)
  have sys': "cleanlocks vp pid sysid sys = sys\<lparr>filocks := (filocks sys)(vp := ?new), finfo := info'\<rparr>"
    by (simp add: cleanlocks_def run Let_def)
  show new: "filocks (cleanlocks vp pid sysid sys) vp = ?new"
    "sleeplcks (cleanlocks vp pid sysid sys) = sleeplcks sys"
    "reccnt (finfo (cleanlocks vp pid sysid sys))
      = reccnt (finfo sys) - int (length [f \<leftarrow> filocks sys vp. lck_of pid sysid f])"
    by (simp_all add: sys' cnt)
  show move: "sys_moves vp sys (cleanlocks vp pid sysid sys)" using k by (simp add: sys_moves_def sys')
  have "shrinks ?lst ?new" by (auto simp: shrinks_def holds_def)
  then have "conflict_free (map fl_set ?new)"
    using chains conflict_free_shrinks unfolding chains_ok_def by blast
  moreover have "chain_ok ?new info'"
    using ok n by (auto simp: chain_ok_def locks_ok_def sorted_wrt_map distinct_map
        intro: sorted_wrt_filter inj_on_subset)
  ultimately show "chains_ok (cleanlocks vp pid sysid sys)"
    using chains_okI [OF chains move] by (simp add: sys')
qed

text \<open>Every reachable state satisfies the invariant.\<close>

lemma lck_reach_inv: "lck_reach sys cs \<Longrightarrow> lck_inv sys cs"
proof (induction rule: lck_reach.induct)
  case boot
  show ?case
    by (auto simp: lck_inv_def lck_boot_def chains_ok_def chain_ok_def conflict_free_def sleepers_ok_def
        waits_def acyclic_def calls_ok_def)
next
  case (call sys cs cmd lckdat vp env attr flag off sys' cs')
  note inv = call.IH [unfolded lck_inv_def]
  show ?case
  proof (cases "fst (reclock_range env attr cmd flag off lckdat)")
    case (Inl e)
    then obtain ld where "reclock_range env attr cmd flag off lckdat = (Err e, ld)"
      by (metis prod.collapse)
    then have "reclock env attr vp lckdat cmd flag off sys = (Ret (Err e), ld, sys)"
      by (simp add: reclock_def)
    with call.hyps have res: "after_call env vp cmd (Ret (Err e), ld, sys) cs = (sys', cs')" by simp
    show ?thesis by (rule after_no_sleep [OF _ _ _ _ _ _ _ _ res]) (use inv in auto)
  next
    case (Inr u)
    then obtain ld where rng: "reclock_range env attr cmd flag off lckdat = (Ok (), ld)"
      by (metis (full_types) prod.collapse unit.exhaust)
    then have run: "reclock env attr vp lckdat cmd flag off sys = reclock_finish (reclock_pass env cmd vp ld sys)"
      by (simp add: reclock_def)
    have "owner ld \<notin> (\<lambda>sf. owner (fl_set sf)) ` set (sleeplcks sys)"
      using call.hyps(3) reclock_range_ok(2) [OF rng] calls_owners [of sys cs] inv by auto
    from reclock_pass_ok [OF _ _ this] inv call.hyps reclock_range_ok(1) [OF rng]
    have "pass_ok env vp ld sys (reclock_pass env cmd vp ld sys)" by blast
    from call.hyps run have "after_call env vp cmd (reclock_finish (reclock_pass env cmd vp ld sys)) cs = (sys', cs')"
      by simp
    from after_pass [OF \<open>pass_ok _ _ _ _ _\<close> _ _ _ _ reclock_range_ok(1) [OF rng] _ this] inv call.hyps
    show ?thesis by blast
  qed
next
  case (resume sys as c bs interrupted env sys' cs')
  obtain sys1 where run: "\<And>env vp ld cmd interrupted. reclock_resume env vp ld cmd (sc_sf c) interrupted sys
      = reclock_finish (if interrupted then (Ret (Err EINTR), ld, sys1) else reclock_pass env cmd vp ld sys1)"
    and s1: "chains_ok sys1" "filocks sys1 = filocks sys" "sleepers_ok (sleeplcks sys1) (finfo sys1)"
      "calls_ok sys1 (as @ bs)" "lck_woken (finfo sys1) = []"
      "owner (sc_req c) \<notin> (\<lambda>sf. owner (fl_set sf)) ` set (sleeplcks sys1)"
    using leave_sleepers [OF resume.IH] by metis
  have req: "lck_range (sc_req c)" "\<not> RCMDLCK (sc_cmd c)"
    using resume.IH by (simp_all add: lck_inv_def calls_ok_def req_ok_def)
  let ?res = "if interrupted then (Ret (Err EINTR), sc_req c, sys1)
      else reclock_pass env (sc_cmd c) (sc_vp c) (sc_req c) sys1"
  have "pass_ok env (sc_vp c) (sc_req c) sys1 ?res"
    using reclock_pass_ok [OF s1(1,3,6) req(2,1)] resume.hyps s1(1,2) by (simp add: pass_ok_def)
  from after_pass [OF this s1(1,3,4,5) req] resume.hyps run show ?case by simp
next
  case (close sys cs env vp cmd ld pid sysid sys' cs')
  note inv = close.IH [unfolded lck_inv_def]
  show ?case
    using after_no_sleep [OF _ cleanlocks_ok(2,3) _ cleanlocks_ok(4) _ _ _ close.hyps(2)] inv by blast
qed


section \<open>A concrete run\<close>

text \<open>Process 1 write-locks bytes 0 to 9, process 2 asks for a read lock on bytes 5 to 9 and sleeps.\<close>

definition run_env :: lck_env where
  "run_env = \<lparr>t_flckrec = 300, kmem_ok = \<lambda>_. True, virtual_xout = False, isfcntl = True,
     islocking = False, badvise_pre_sv = False\<rparr>"

definition run_req :: "lck_type \<Rightarrow> int \<Rightarrow> int \<Rightarrow> int \<Rightarrow> flock" where
  "run_req t pid start len =
     \<lparr>l_type = t, l_whence = 0, l_start = start, l_end = len, l_sysid = 0, l_pid = pid\<rparr>"

definition setlkw :: lck_cmd where
  "setlkw = \<lparr>SETFLCK = True, SLPFLCK = True, RCMDLCK = False\<rparr>"

definition rdwr :: open_mode where
  "rdwr = \<lparr>FREAD = True, FWRITE = True\<rparr>"

definition run_call :: "flock \<Rightarrow> lck_sys \<times> sleep_call list \<Rightarrow> lck_sys \<times> sleep_call list" where
  "run_call l w = after_call run_env 0 setlkw (reclock run_env (Ok 100) 0 l setlkw rdwr 0 (fst w)) (snd w)"

definition run1 where "run1 = run_call (run_req F_WRLCK 1 0 10) (lck_boot, [])"
definition run2 where "run2 = run_call (run_req F_RDLCK 2 5 5) run1"

lemma run1_reach: "lck_reach (fst run1) (snd run1)"
  by (rule lck_reach.call [OF lck_reach.boot, of setlkw "run_req F_WRLCK 1 0 10" 0 run_env "Ok 100" rdwr 0])
     (simp_all add: run1_def run_call_def setlkw_def flag_room_def lck_boot_def)

lemma run1_val: "filocks (fst run1) 0 = [\<lparr>fl_addr = 0, fl_set = run_req F_WRLCK 1 0 9, st_word = 0, blk_pid = 0\<rparr>]"
  "snd run1 = []"
  by code_simp+

lemma run2_val: "filocks (fst run2) 0 = [\<lparr>fl_addr = 0, fl_set = run_req F_WRLCK 1 0 9, st_word = 1, blk_pid = 0\<rparr>]"
  "map sc_on (snd run2) = [0]" "map sc_ready (snd run2) = [False]"
  by code_simp+

lemma run2_reach: "lck_reach (fst run2) (snd run2)"
  by (rule lck_reach.call [OF run1_reach, of setlkw "run_req F_RDLCK 2 5 5" 0 run_env "Ok 100" rdwr 0])
     (simp_all add: run2_def run_call_def setlkw_def flag_room_def run1_val s32_def)


section \<open>Properties of record locking\<close>

text \<open>C3: In every state the system calls can reach, the lock chain of every file is sorted by
  start, its locks are read or write locks of a non-empty range of offsets, the locks of one
  process neither overlap nor touch with the same type, and no two processes hold conflicting
  locks on the same byte.\<close>

theorem lck_reach_safe:
  assumes "lck_reach sys cs"
  shows "locks_ok (map fl_set (filocks sys vp)) \<and> conflict_free (map fl_set (filocks sys vp))"
  using lck_reach_inv [OF assms] by (simp add: lck_inv_def chains_ok_def chain_ok_def)

theorem lck_reach_safe_witness:
  "locks_ok (map fl_set (filocks (fst run2) 0)) \<and> holds (map fl_set (filocks (fst run2) 0)) (1, 0) 5 F_WRLCK"
  using lck_reach_safe [OF run2_reach, of 0] by (simp add: run2_val run_req_def owner_def)

text \<open>C12: When a request to set a lock succeeds, the calling process holds the requested type on
  exactly the bytes of the request (nothing after an unlock), what it held on other bytes and
  what everybody else holds is unchanged, on this file and on every other.\<close>

theorem reclock_grants_request:
  assumes "lck_reach sys cs" and "SETFLCK cmd"
    and "reclock_range env attr cmd flag off lckdat = (Ok (), ld)"
    and "reclock env attr vp lckdat cmd flag off sys = (Ret (Ok ()), ld', sys')"
  shows "(\<forall>p x t. holds (map fl_set (filocks sys' vp)) p x t = granted ld (map fl_set (filocks sys vp)) p x t)
     \<and> (\<forall>v. v \<noteq> vp \<longrightarrow> filocks sys' v = filocks sys v)"
proof -
  have ok: "chain_ok (filocks sys vp) (finfo sys)"
    using lck_reach_inv [OF assms(1)] by (simp add: lck_inv_def chains_ok_def)
  note rng = reclock_range_ok(1) [OF assms(3)]
  obtain out ld1 sys1 where pass: "reclock_pass env cmd vp ld sys = (out, ld1, sys1)" by (metis prod_cases3)
  with assms(3,4) have res: "out = Ret (Ok ())" "sys1 = sys'" by (simp_all add: reclock_def)
  have rm: "filocks (rm_sleeplcks l s) = filocks s" for l s by (simp add: rm_sleeplcks_def Let_def)
  obtain i ld2 sys2 where adj: "adjust env vp i ld sys = (Ok (), ld2, sys2)" "insrt_ok ld i (filocks sys vp)"
    and ty: "l_type ld \<noteq> F_OTHER" and same: "filocks sys' = filocks sys2"
  proof (cases "l_type ld = F_UNLCK")
    case True
    let ?i = "case filocks sys vp of [] \<Rightarrow> None | f # _ \<Rightarrow> Some (fl_addr f)"
    obtain r ld2 sys2 where "adjust env vp ?i ld sys = (r, ld2, sys2)" by (metis prod_cases3)
    with True pass res assms(2) head_insrt [OF True] rm that [of ?i ld2 sys2] show thesis
      by (auto simp: reclock_pass_def split: if_splits)
  next
    case False
    then have ty: "l_type ld = F_RDLCK \<or> l_type ld = F_WRLCK"
      using pass res by (cases "l_type ld") (auto simp: reclock_pass_def)
    obtain fd i where bl: "blocked env (filocks sys vp) ld = (fd, i)" by (metis surj_pair)
    show thesis
    proof (cases fd)
      case None
      obtain r ld2 sys2 where "adjust env vp i ld sys = (r, ld2, sys2)" by (metis prod_cases3)
      with ty pass res assms(2) blocked_insrt [OF bl [unfolded None] ok] bl None rm that [of i ld2 sys2]
      show thesis by (auto simp: reclock_pass_def split: if_splits)
    next
      case (Some f)
      with ty pass res assms(2) bl show thesis
        by (auto simp: reclock_pass_def reclock_sleep_def split: if_splits option.splits prod.splits bool.splits)
    qed
  qed
  then obtain lst info where "flckadj env i ld (filocks sys vp) (finfo sys) = (Ok (), ld2, lst, info)"
    and sys2: "sys2 = sys\<lparr>filocks := (filocks sys)(vp := lst), finfo := info\<rparr>"
    by (auto simp: adjust_def split: prod.splits)
  from flckadj_ok [OF ok rng ty adj(2) this(1)] same sys2 show ?thesis by simp
qed

theorem reclock_grants_request_witness:
  "\<exists>sys'. reclock run_env (Ok 100) 0 (run_req F_UNLCK 1 2 3) setlkw rdwr 0 (fst run2)
       = (Ret (Ok ()), run_req F_UNLCK 1 2 3, sys')
     \<and> holds (map fl_set (filocks sys' 0)) (1, 0) 5 F_WRLCK
     \<and> \<not> holds (map fl_set (filocks sys' 0)) (1, 0) 4 F_WRLCK"
proof -
  let ?r = "reclock run_env (Ok 100) 0 (run_req F_UNLCK 1 2 3) setlkw rdwr 0 (fst run2)"
  have out: "fst ?r = Ret (Ok ())" "fst (snd ?r) = run_req F_UNLCK 1 2 3" by code_simp+
  then have run: "?r = (Ret (Ok ()), run_req F_UNLCK 1 2 3, snd (snd ?r))" by (metis prod.collapse)
  have rng: "reclock_range run_env (Ok 100) setlkw rdwr 0 (run_req F_UNLCK 1 2 3) = (Ok (), run_req F_UNLCK 1 2 4)"
    by code_simp
  have "SETFLCK setlkw" by (simp add: setlkw_def)
  from reclock_grants_request [OF run2_reach this rng run] run show ?thesis
    by (intro exI [of _ "snd (snd ?r)"]) (simp add: granted_def run2_val run_req_def owner_def)
qed

text \<open>The conflict test of a sorted chain finds a lock exactly when some lock of another process
  conflicts with the request, and what it returns is such a lock.\<close>

theorem blocked_finds_conflict:
  assumes "sorted (map lstart lst)" and "l_start ld \<le> l_end ld"
  shows "(fst (blocked env lst ld) = None \<longleftrightarrow> (\<forall>f \<in> set lst. \<not> lck_conflict env ld f))
     \<and> (\<forall>f. fst (blocked env lst ld) = Some f \<longrightarrow> f \<in> set lst \<and> lck_conflict env ld f)"
  using blocked_None [OF assms] blocked_Some assms(2) by blast

theorem blocked_finds_conflict_witness:
  "fst (blocked run_env (filocks (fst run1) 0) (run_req F_RDLCK 2 5 9)) \<noteq> None
   \<and> (\<exists>f \<in> set (filocks (fst run1) 0). lck_conflict run_env (run_req F_RDLCK 2 5 9) f)"
proof -
  have "sorted (map lstart (filocks (fst run1) 0))" "l_start (run_req F_RDLCK 2 5 9) \<le> l_end (run_req F_RDLCK 2 5 9)"
    by (simp_all add: run1_val run_req_def)
  note b = blocked_finds_conflict [OF this, of run_env]
  have "fst (blocked run_env (filocks (fst run1) 0) (run_req F_RDLCK 2 5 9)) \<noteq> None" by code_simp
  with b show ?thesis by blast
qed

text \<open>C13: No wake-up is lost: a process that sleeps and has not been woken sleeps on a lock that is
  still in the chain of its file, still notes that somebody waits, belongs to another process and
  still conflicts with the request.\<close>

theorem lck_sleeper_is_blocked:
  assumes "lck_reach sys cs" and "c \<in> set cs" and "\<not> sc_ready c"
  shows "\<exists>f \<in> set (filocks sys (sc_vp c)). fl_addr f = sc_on c \<and> st_word f \<noteq> 0
     \<and> lck_conflict (sc_env c) (sc_req c) f"
  using lck_reach_inv [OF assms(1)] assms(2,3) by (simp add: lck_inv_def calls_ok_def waits_on_def)

theorem lck_sleeper_is_blocked_witness:
  "\<exists>c f. snd run2 = [c] \<and> sc_on c = 0 \<and> f \<in> set (filocks (fst run2) (sc_vp c))
     \<and> lck_conflict (sc_env c) (sc_req c) f"
proof -
  obtain c where c: "snd run2 = [c]" "sc_on c = 0" "\<not> sc_ready c"
    using run2_val(2,3) by (cases "snd run2") auto
  then have "c \<in> set (snd run2)" by simp
  from lck_sleeper_is_blocked [OF run2_reach this c(3)] c show ?thesis by blast
qed



lemma reclock_range_val:
  assumes "lck_denied env cmd flag l = None" and "l_whence l \<in> {0, 1, 2}"
    and "start = l_start l + (if l_whence l = 1 then offset else if l_whence l = 2 then fsize else 0)"
    and "- 2147483648 \<le> start" "start \<le> MAXEND" "l_end l \<le> MAXEND"
  shows "(if 0 \<le> start \<and> 0 \<le> l_end l \<and> start + l_end l - 1 \<le> MAXEND
      then reclock_range env (Ok fsize) cmd flag offset l
        = (Ok (), l\<lparr>l_start := start, l_end := (if l_end l = 0 then MAXEND else start + l_end l - 1),
                    l_whence := 0\<rparr>)
      else fst (reclock_range env (Ok fsize) cmd flag offset l) = Err EINVAL)"
proof -
  have st: "s32 start = start" using assms(4,5) by (intro s32_id) (auto simp: MAXEND_def)
  have conv: "convoff (Ok fsize) l 0 offset = (if start < 0 then (Err EINVAL, l\<lparr>l_start := start\<rparr>)
      else (Ok (), l\<lparr>l_start := start, l_whence := 0\<rparr>))"
    using assms(2,3) st by (auto simp: convoff_def Let_def s16_def)
  consider "start < 0" | "0 \<le> start" "l_end l < 0" | "0 \<le> start" "l_end l = 0"
    | "0 \<le> start" "0 < l_end l" "start + l_end l - 1 \<le> MAXEND"
    | "0 \<le> start" "0 < l_end l" "start + l_end l - 1 > MAXEND" by linarith
  then show ?thesis
  proof cases
    case 4
    then have "s32 (l_end l + (start - 1)) = start + l_end l - 1"
      by (subst s32_id) (auto simp: MAXEND_def)
    with 4 assms(1) show ?thesis by (simp add: reclock_range_def conv)
  next
    case 5
    then have "s32 (l_end l + (start - 1)) = l_end l + (start - 1) - 4294967296"
      using assms(5,6) by (intro s32_wrap) (auto simp: MAXEND_def)
    with 5 assms(1,5,6) show ?thesis by (simp add: reclock_range_def conv MAXEND_def)
  qed (use assms(1,5) in \<open>simp_all add: reclock_range_def conv\<close>)
qed

text \<open>C31: An accepted request covers offsets between 0 and the largest offset; when the start
  relative to the file fits in an offset, a request is accepted exactly when the start is not
  negative, the length is not negative and the last byte is not beyond the largest offset.\<close>

theorem reclock_range_bounds:
  assumes "lck_denied env cmd flag l = None" and "l_whence l \<in> {0, 1, 2}"
    and "start = l_start l + (if l_whence l = 1 then offset else if l_whence l = 2 then fsize else 0)"
    and "- 2147483648 \<le> start" "start \<le> MAXEND" "l_end l \<le> MAXEND"
  shows "(if 0 \<le> start \<and> 0 \<le> l_end l \<and> start + l_end l - 1 \<le> MAXEND
      then reclock_range env (Ok fsize) cmd flag offset l
        = (Ok (), l\<lparr>l_start := start, l_end := (if l_end l = 0 then MAXEND else start + l_end l - 1),
                    l_whence := 0\<rparr>)
      else fst (reclock_range env (Ok fsize) cmd flag offset l) = Err EINVAL)"
  by (rule reclock_range_val [OF assms])

theorem reclock_range_bounds_witness:
  "reclock_range run_env (Ok 100) setlkw rdwr 0 (run_req F_RDLCK 1 5 10)
     = (Ok (), run_req F_RDLCK 1 5 14)
   \<and> fst (reclock_range run_env (Ok 100) setlkw rdwr 0 (run_req F_RDLCK 1 5 2147483647)) = Err EINVAL"
  using reclock_range_bounds [of run_env setlkw rdwr "run_req F_RDLCK 1 5 10" 5 0 100]
    reclock_range_bounds [of run_env setlkw rdwr "run_req F_RDLCK 1 5 2147483647" 5 0 100]
  by (simp add: lck_denied_def rdwr_def run_req_def MAXEND_def)

text \<open>C32: The last close of a file by a process removes exactly that process's locks on the file,
  leaves all others alone, gives their records back, and wakes everybody who waits for one of
  them.\<close>

theorem cleanlocks_frees:
  assumes "lck_reach sys cs"
  shows "filocks (cleanlocks vp pid sysid sys) = (filocks sys)(vp := [f \<leftarrow> filocks sys vp. \<not> lck_of pid sysid f])
     \<and> reccnt (finfo (cleanlocks vp pid sysid sys))
         = reccnt (finfo sys) - int (length [f \<leftarrow> filocks sys vp. lck_of pid sysid f])
     \<and> (\<forall>f \<in> set (filocks sys vp). lck_of pid sysid f \<longrightarrow> st_word f \<noteq> 0 \<longrightarrow>
          fl_addr f \<in> set (lck_woken (finfo (cleanlocks vp pid sysid sys))))"
proof -
  have chains: "chains_ok sys" using lck_reach_inv [OF assms] by (simp add: lck_inv_def)
  note clean = cleanlocks_ok [OF chains, of vp pid sysid]
  have "fl_addr f \<in> set (lck_woken (finfo (cleanlocks vp pid sysid sys)))"
    if f: "f \<in> set (filocks sys vp)" "lck_of pid sysid f" "st_word f \<noteq> 0" for f
  proof -
    have "(fl_addr f, fl_set f) \<in> armed (filocks sys vp)" using f by (auto simp: armed_def)
    moreover have "(fl_addr f, fl_set f) \<notin> armed [f \<leftarrow> filocks sys vp. \<not> lck_of pid sysid f]"
      using f(2) by (auto simp: armed_def lck_of_def)
    ultimately show ?thesis using clean(1,3) by (fastforce simp: sys_moves_def keeps_wake_def)
  qed
  moreover have "filocks (cleanlocks vp pid sysid sys) = (filocks sys)(vp := [f \<leftarrow> filocks sys vp. \<not> lck_of pid sysid f])"
    using clean(1,3) by (auto simp: sys_moves_def fun_eq_iff)
  ultimately show ?thesis using clean(5) by blast
qed

theorem cleanlocks_frees_witness:
  "filocks (cleanlocks 0 1 0 (fst run2)) 0 = [] \<and> 0 \<in> set (lck_woken (finfo (cleanlocks 0 1 0 (fst run2))))"
  using cleanlocks_frees [OF run2_reach, of 0 1 0] by (simp add: run2_val run_req_def lck_of_def)

definition one_left :: lck_env where
  "one_left = run_env\<lparr>t_flckrec := 2\<rparr>"

definition read_held :: lck_sys where
  "read_held = snd (snd (reclock one_left (Ok 100) 0 (run_req F_RDLCK 1 0 100) setlkw rdwr 0 lck_boot))"

text \<open>C33: A request that fails for want of a lock record may already have taken away a lock the
  process held: with one record left, asking for a write lock in the middle of a read lock
  returns \<open>ENOLCK\<close> and leaves the middle unlocked.\<close>

theorem enolck_drops_locks:
  "fst (reclock one_left (Ok 100) 0 (run_req F_WRLCK 1 40 20) setlkw rdwr 0 read_held) = Ret (Err ENOLCK)
   \<and> holds (map fl_set (filocks read_held 0)) (1, 0) 50 F_RDLCK
   \<and> (\<forall>t. \<not> holds (map fl_set (filocks (snd (snd (reclock one_left (Ok 100) 0 (run_req F_WRLCK 1 40 20)
             setlkw rdwr 0 read_held))) 0)) (1, 0) 50 t)"
proof -
  let ?r = "reclock one_left (Ok 100) 0 (run_req F_WRLCK 1 40 20) setlkw rdwr 0 read_held"
  have "fst ?r = Ret (Err ENOLCK)" by code_simp
  moreover have "map fl_set (filocks read_held 0) = [run_req F_RDLCK 1 0 99]" by code_simp
  moreover have "map fl_set (filocks (snd (snd ?r)) 0) = [run_req F_RDLCK 1 0 39, run_req F_RDLCK 1 60 99]"
    by code_simp
  ultimately show ?thesis by (simp add: run_req_def owner_def)
qed


text \<open>
  Requests posted by remote lock daemons (\<open>RCMDLCK\<close>) are not followed by a sleep, so one process
  can have two entries in the chain of sleeping requests, an abandoned one under a newer one.
  The run below makes the abandoned entry visible again: 1 waits for 2 and gives up, then waits
  for 3; 2 asks for a lock of 1; 3 unlocks and 1 is granted its second request, which removes
  the newer entry.  Now 1 waits for 2 and 2 waits for 1.
\<close>

definition rsetlkw :: lck_cmd where
  "rsetlkw = \<lparr>SETFLCK = True, SLPFLCK = True, RCMDLCK = True\<rparr>"

definition post :: "lck_type \<Rightarrow> int \<Rightarrow> int \<Rightarrow> lck_sys \<Rightarrow> lck_sys" where
  "post t pid start sys =
     snd (snd (reclock run_env (Ok 100) 0 (run_req t pid start 10) rsetlkw rdwr 0 sys))"

definition remote_run :: lck_sys where
  "remote_run = fold (\<lambda>(t, pid, start). post t pid start)
     [(F_WRLCK, 2, 0), (F_WRLCK, 3, 10), (F_WRLCK, 1, 20), (F_WRLCK, 1, 0), (F_WRLCK, 1, 10),
      (F_WRLCK, 2, 20), (F_UNLCK, 3, 10), (F_WRLCK, 1, 10)] lck_boot"

text \<open>C29: After requests posted by remote lock daemons the wait-for relation can have a cycle, and then
  deadlock detection never returns to a third process that asks for a lock of one on the cycle.\<close>

theorem remote_requests_hang_deadflck:
  "fst (reclock run_env (Ok 100) 0 (run_req F_WRLCK 4 0 10) setlkw rdwr 0 remote_run) = Hang"
proof -
  let ?ld = "run_req F_WRLCK 4 0 9"
  have sleepers: "map (\<lambda>sf. (owner (fl_set sf), blk_pid sf, st_word sf)) (sleeplcks remote_run)
      = [((2, 0), 1, 0), ((1, 0), 2, 0)]" by code_simp
  then have "sleeping_on p (sleeplcks remote_run) = Some (if p = (2, 0) then (1, 0) else (2, 0))"
    if "p \<in> {(1, 0), (2, 0)}" for p
    using that by (auto simp: map_eq_Cons_conv sleeping_on_Cons simp del: sleeping_on.simps)
  then have cyc: "deadflck_loop (sleeplcks remote_run) ?ld (2, 0) = None"
    by (intro deadflck_loop_cycle [of "{(1, 0), (2, 0)}"]) (auto simp: owner_def run_req_def)
  have "map_option fl_set (fst (blocked run_env (filocks remote_run 0) ?ld)) = Some (run_req F_WRLCK 2 0 9)"
    by code_simp
  then obtain f i where bl: "blocked run_env (filocks remote_run 0) ?ld = (Some f, i)"
    and f: "fl_set f = run_req F_WRLCK 2 0 9"
    by (cases "blocked run_env (filocks remote_run 0) ?ld") auto
  have rng: "reclock_range run_env (Ok 100) setlkw rdwr 0 (run_req F_WRLCK 4 0 10) = (Ok (), ?ld)"
    by code_simp
  have "deadflck (sleeplcks remote_run) f ?ld = None"
    using cyc by (simp add: deadflck_def f run_req_def)
  with bl rng show ?thesis
    by (simp add: reclock_def reclock_pass_def reclock_sleep_def run_req_def setlkw_def)
qed

text \<open>C30: Mandatory locking without waiting refuses exactly when somebody else holds a conflicting
  lock on the bytes to be read or written: with the standard system call environment \<open>chklock\<close>
  returns no error when there is none and \<open>EAGAIN\<close> when there is one.\<close>

theorem chklock_enforces:
  assumes "lck_reach sys cs"
    and "\<not> virtual_xout env" "\<not> islocking env" "\<not> badvise_pre_sv env"
    and "0 \<le> offset" "0 < len" "offset + len - 1 \<le> MAXEND" "offset \<le> MAXEND" "len \<le> MAXEND"
  shows "fst (chklock env (Ok fsize) vp iomode offset len True p_epid p_sysid sys) =
    Inl (if \<exists>f \<in> set (filocks sys vp). owner (fl_set f) \<noteq> (p_epid, p_sysid)
            \<and> lstart f \<le> offset + len - 1 \<and> offset \<le> lend f
            \<and> (ltype f = F_WRLCK \<or> FWRITE iomode)
         then Some EAGAIN else None)"
proof -
  let ?cmd = "\<lparr>SETFLCK = False, SLPFLCK = False, RCMDLCK = False\<rparr>"
  let ?flag = "\<lparr>FREAD = False, FWRITE = False\<rparr>"
  let ?t = "if FWRITE iomode then F_WRLCK else F_RDLCK"
  let ?bf = "\<lparr>l_type = ?t, l_whence = 0, l_start = offset, l_end = len, l_sysid = p_sysid, l_pid = p_epid\<rparr>"
  let ?ld = "?bf\<lparr>l_end := offset + len - 1\<rparr>"
  have ok: "chain_ok (filocks sys vp) (finfo sys)"
    using lck_reach_inv [OF assms(1)] by (simp add: lck_inv_def chains_ok_def)
  have req: "chklock_req env iomode offset len p_epid p_sysid = ?bf"
    using assms(2,3) by (simp add: chklock_req_def)
  have den: "lck_denied env ?cmd ?flag ?bf = None" using assms(2,3) by (simp add: lck_denied_def)
  have rng: "reclock_range env (Ok fsize) ?cmd ?flag offset ?bf = (Ok (), ?ld)"
    using reclock_range_val [OF den, of offset offset fsize] assms(5-9) by simp
  have le: "l_start ?ld \<le> l_end ?ld" using assms(6) by simp
  obtain fd i where bl: "blocked env (filocks sys vp) ?ld = (fd, i)" by (metis surj_pair)
  have conf: "lck_conflict env ?ld f \<longleftrightarrow> owner (fl_set f) \<noteq> (p_epid, p_sysid)
      \<and> lstart f \<le> offset + len - 1 \<and> offset \<le> lend f \<and> (ltype f = F_WRLCK \<or> FWRITE iomode)"
    if "f \<in> set (filocks sys vp)" for f
  proof -
    have "ltype f = F_RDLCK \<or> ltype f = F_WRLCK" using ok that by (auto simp: chain_ok_def locks_ok_def)
    then show ?thesis using assms(3,4)
      by (auto simp: lck_conflict_def SAMEOWNER_owner lock_blocks_def xenix_compat_def owner_def)
  qed
  show ?thesis
  proof (cases fd)
    case None
    with bl blocked_None [OF chain_sorted [OF ok] le, of env] conf
    have "\<not> (\<exists>f \<in> set (filocks sys vp). owner (fl_set f) \<noteq> (p_epid, p_sysid)
      \<and> lstart f \<le> offset + len - 1 \<and> offset \<le> lend f \<and> (ltype f = F_WRLCK \<or> FWRITE iomode))" by auto
    with None bl rng req assms(2-4) show ?thesis
      by (auto simp: chklock_def reclock_def reclock_pass_def chklock_error_def restore_len_def Let_def)
  next
    case (Some f)
    with bl have "fst (blocked env (filocks sys vp) ?ld) = Some f" by simp
    from blocked_Some [OF this le] have f: "f \<in> set (filocks sys vp)" "lck_conflict env ?ld f" by simp_all
    have "ltype f \<noteq> F_UNLCK" using ok f(1) by (auto simp: chain_ok_def locks_ok_def)
    moreover have "\<exists>f \<in> set (filocks sys vp). owner (fl_set f) \<noteq> (p_epid, p_sysid)
      \<and> lstart f \<le> offset + len - 1 \<and> offset \<le> lend f \<and> (ltype f = F_WRLCK \<or> FWRITE iomode)"
      using f conf by blast
    ultimately show ?thesis using Some bl rng req assms(2-4)
      by (auto simp: chklock_def reclock_def reclock_pass_def chklock_error_def restore_len_def Let_def)
  qed
qed

theorem chklock_enforces_witness:
  "fst (chklock run_env (Ok 100) 0 \<lparr>FREAD = True, FWRITE = False\<rparr> 5 10 True 2 0 (fst run2)) = Inl (Some EAGAIN)
   \<and> fst (chklock run_env (Ok 100) 0 \<lparr>FREAD = True, FWRITE = False\<rparr> 10 10 True 2 0 (fst run2)) = Inl None"
  using chklock_enforces [OF run2_reach, of run_env 5 10 100 0 "\<lparr>FREAD = True, FWRITE = False\<rparr>" 2 0]
    chklock_enforces [OF run2_reach, of run_env 10 10 100 0 "\<lparr>FREAD = True, FWRITE = False\<rparr>" 2 0]
  by (simp add: run_env_def run2_val run_req_def owner_def MAXEND_def)

end
