(* ===== verification/Message_Queues.thy ===== *)
theory Message_Queues
  imports Ipc_Perm Resource_Map
begin

text \<open>
  The message queues of System V IPC (\<open>proc/ipc/msg.c\<close>).

  The message headers form an array; a header is known by its index, \<open>NULL\<close> is \<open>None\<close>, and the
  free list and the list of every queue run through \<open>msg_next\<close>.  The text pool is byte
  addressed memory, given out in segments by the resource map \<open>msgmap\<close>.

  A queue is locked while a call works on it, because copying from and to user memory can
  sleep on a page fault.  A call is therefore cut where it may sleep: on the lock of a queue, on
  one of the four channels, and while it copies the text of a message.  \<open>msg_kont\<close> says where a
  sleeping call goes on, \<open>msg_run\<close> runs it from there to the next such point, and \<open>msg_copied\<close>
  from the end of a copy.  The channels woken on the way are collected in \<open>msg_woken\<close>.

  Left out: auditing, covert channel limiting, the scheduling hint of \<open>wakeprocs\<close>, and the page
  faults of the copies that happen while nothing is in flight (the message type of \<open>msgsnd\<close>, the
  structure of \<open>msgctl\<close>): what these copies deliver is part of the arguments, \<open>None\<close> a fault.
\<close>

unbundle bit_operations_syntax

section \<open>Data\<close>

definition MSG_R :: bits where "MSG_R = IPC_R"
definition MSG_W :: bits where "MSG_W = IPC_W"
definition MSG_RWAIT :: bits where "MSG_RWAIT = 512"
definition MSG_WWAIT :: bits where "MSG_WWAIT = 1024"
definition MSG_NOERROR :: bits where "MSG_NOERROR = 4096"

type_synonym byte = "8 word"

record msg =
  msg_next :: "nat option"
  msg_type :: int
  msg_ts :: nat
  msg_spot :: nat

record msqid_ds =
  msg_perm :: ipc_perm
  msg_first :: "nat option"
  msg_last :: "nat option"
  msg_cbytes :: int
  msg_qnum :: int
  msg_qbytes :: int
  msg_lspid :: int
  msg_lrpid :: int
  msg_stime :: int
  msg_rtime :: int
  msg_ctime :: int

record msginfo =
  msgmapsz :: nat
  msgmax :: int
  msgmnb :: int
  msgmni :: nat
  msgssz :: nat
  msgtql :: nat
  msgseg :: nat

text \<open>\<open>&qp->msg_qnum\<close>, \<open>qp\<close>, \<open>&msgfp\<close>, \<open>msgmap\<close> and the lock of a queue.\<close>

datatype msg_chan = RcvChan nat | SndChan nat | HdrChan | MapChan | LockChan nat

record msg_state =
  msgque :: "msqid_ds list"
  msgh :: "msg list"
  msgfp :: "nat option"
  msgmap :: rmap
  msgtext :: "nat \<Rightarrow> byte"
  msglock :: "bool list"
  msg_woken :: "msg_chan list"

definition wake :: "msg_chan \<Rightarrow> msg_state \<Rightarrow> msg_state" where
  "wake ch s = s\<lparr>msg_woken := ch # msg_woken s\<rparr>"

definition upd_qp :: "nat \<Rightarrow> (msqid_ds \<Rightarrow> msqid_ds) \<Rightarrow> msg_state \<Rightarrow> msg_state" where
  "upd_qp qp f s = s\<lparr>msgque := (msgque s)[qp := f (msgque s ! qp)]\<rparr>"

definition upd_mp :: "nat \<Rightarrow> (msg \<Rightarrow> msg) \<Rightarrow> msg_state \<Rightarrow> msg_state" where
  "upd_mp mp f s = s\<lparr>msgh := (msgh s)[mp := f (msgh s ! mp)]\<rparr>"

definition set_mode :: "(bits \<Rightarrow> bits) \<Rightarrow> msqid_ds \<Rightarrow> msqid_ds" where
  "set_mode f d = d\<lparr>msg_perm := (msg_perm d)\<lparr>ip_mode := f (ip_mode (msg_perm d))\<rparr>\<rparr>"

definition has_mode :: "bits \<Rightarrow> nat \<Rightarrow> msg_state \<Rightarrow> bool" where
  "has_mode b qp s \<longleftrightarrow> ip_mode (msg_perm (msgque s ! qp)) AND b \<noteq> 0"

section \<open>Headers, segments and locks\<close>

definition btoq :: "msginfo \<Rightarrow> nat \<Rightarrow> nat" where
  "btoq si x = (x + msgssz si - 1) div msgssz si"

definition msgfp_free :: "nat \<Rightarrow> msg_state \<Rightarrow> msg_state" where
  "msgfp_free mp s =
     (let s1 = upd_mp mp (\<lambda>h. h\<lparr>msg_next := msgfp s\<rparr>) s;
          s2 = (if msgfp s = None then wake HdrChan s1 else s1) in
      s2\<lparr>msgfp := Some mp\<rparr>)"

definition map_free :: "nat \<Rightarrow> nat \<Rightarrow> msg_state \<Rightarrow> msg_state" where
  "map_free n a s =
     (case rmfree (msgmap s) n a of
        (RmDone True, m) \<Rightarrow> wake MapChan (s\<lparr>msgmap := m\<rparr>)
      | (_, m) \<Rightarrow> s\<lparr>msgmap := m\<rparr>)"

definition msgfree :: "msginfo \<Rightarrow> nat \<Rightarrow> nat option \<Rightarrow> nat \<Rightarrow> msg_state \<Rightarrow> msg_state" where
  "msgfree si qp pmp mp s =
     (let next = msg_next (msgh s ! mp);
          s1 = (case pmp of
                  None \<Rightarrow> upd_qp qp (\<lambda>d. d\<lparr>msg_first := next\<rparr>) s
                | Some p \<Rightarrow> upd_mp p (\<lambda>h. h\<lparr>msg_next := next\<rparr>) s);
          s2 = upd_qp qp (\<lambda>d. d\<lparr>msg_last := (if next = None then pmp else msg_last d),
                                 msg_qnum := u32 (msg_qnum d - 1)\<rparr>) s1;
          s3 = (if has_mode MSG_WWAIT qp s2
                then wake (SndChan qp) (upd_qp qp (set_mode (\<lambda>m. m AND NOT MSG_WWAIT)) s2) else s2);
          ts = msg_ts (msgh s3 ! mp);
          s4 = (if ts \<noteq> 0 then map_free (btoq si ts) (msg_spot (msgh s3 ! mp) + 1) s3 else s3) in
      msgfp_free mp s4)"

definition msgunlock :: "nat \<Rightarrow> msg_state \<Rightarrow> msg_state" where
  "msgunlock qp s = wake (LockChan qp) (s\<lparr>msglock := (msglock s)[qp := False]\<rparr>)"

text \<open>The lock is taken here, unless it is held; a wrong identifier gives it back.\<close>

datatype conv_out = ConvOk nat | ConvErr | ConvWait nat

definition msgconv :: "msginfo \<Rightarrow> int \<Rightarrow> msg_state \<Rightarrow> conv_out \<times> msg_state" where
  "msgconv si ident s =
     (if ident < 0 then (ConvErr, s)
      else
        let qp = nat (ident mod int (msgmni si));
            s1 = s\<lparr>msglock := (msglock s)[qp := True]\<rparr> in
        if msglock s ! qp then (ConvWait qp, s)
        else if \<not> has_mode IPC_ALLOC qp s \<or> ident div int (msgmni si) \<noteq> ip_seq (msg_perm (msgque s ! qp))
        then (ConvErr, msgunlock qp s1)
        else (ConvOk qp, s1))"

section \<open>Calls and where they stand\<close>

datatype msg_cmd = MsgRmid bool | MsgSet bool | MsgStat bool | MsgBad

record msgctl_args =
  mc_msgid :: int
  mc_cmd :: msg_cmd     \<comment> \<open>with true for the old number of the command\<close>
  mc_set :: "(int \<times> int \<times> bits \<times> int) option"   \<comment> \<open>uid, gid, mode and qbytes copied in\<close>
  mc_out :: bool

record msgget_args =
  mg_key :: int
  mg_msgflg :: bits

record msgrcv_args =
  mr_msqid :: int
  mr_msgsz :: int
  mr_msgtyp :: int
  mr_msgflg :: bits

record msgsnd_args =
  ms_msqid :: int
  ms_msgsz :: int
  ms_msgflg :: bits
  ms_type :: "int option"

datatype msg_ret = MVal int | MStat msqid_ds | MMsg int "byte list"

text \<open>
  \<open>KRcvFind a qp\<close> is \<open>findmsg\<close>, \<open>KSndRes a qp type\<close> is \<open>getres\<close>, \<open>KSndIntr a qp full\<close> the code after an
  interrupted sleep, with \<open>full\<close> when the sleep was for room on the queue.
\<close>

datatype msg_kont =
    KCtl msgctl_args | KGet msgget_args | KBad
  | KRcv msgrcv_args | KRcvFind msgrcv_args nat
  | KSnd msgsnd_args | KSndRes msgsnd_args nat int | KSndIntr msgsnd_args nat bool

text \<open>A message being copied, with the lock of the queue held.\<close>

datatype msg_copy =
    RcvCopy msgrcv_args (cp_qp: nat) "nat option" nat nat
  | SndCopy msgsnd_args (cp_qp: nat) nat nat int

datatype msg_out = Ret "msg_ret res" | Sleep msg_chan msg_kont | Copying msg_copy

text \<open>Leave the lock and return; leave the lock and sleep.\<close>

definition leave :: "nat \<Rightarrow> msg_ret res \<Rightarrow> msg_state \<Rightarrow> msg_out \<times> msg_state" where
  "leave qp r s = (Ret r, msgunlock qp s)"

definition doze :: "nat \<Rightarrow> msg_chan \<Rightarrow> msg_kont \<Rightarrow> msg_state \<Rightarrow> msg_out \<times> msg_state" where
  "doze qp ch k s = (Sleep ch k, msgunlock qp s)"

text \<open>Take the lock of the queue again: it may have been removed meanwhile.\<close>

definition relock ::
  "msginfo \<Rightarrow> int \<Rightarrow> nat \<Rightarrow> msg_kont \<Rightarrow> (msg_state \<Rightarrow> msg_out \<times> msg_state) \<Rightarrow> msg_state \<Rightarrow> msg_out \<times> msg_state" where
  "relock si ident qp k go s =
     (case msgconv si ident s of
        (ConvErr, s1) \<Rightarrow> (Ret (Err EIDRM), s1)
      | (ConvWait q, s1) \<Rightarrow> (Sleep (LockChan q) k, s1)
      | (ConvOk qp1, s1) \<Rightarrow> if qp1 \<noteq> qp then leave qp1 (Err EIDRM) s1 else go s1)"

section \<open>msgrcv\<close>

text \<open>
  The scan for a message: of the type asked for, or of the lowest type up to the one asked for
  when that is negative.  There are not more messages than headers, which bounds the loop.
\<close>

fun rcv_scan :: "nat \<Rightarrow> msg list \<Rightarrow> int \<Rightarrow> nat option \<Rightarrow> nat option \<Rightarrow> nat option \<times> nat option
    \<Rightarrow> nat option \<times> nat option" where
  "rcv_scan 0 h typ pmp mp best = best"
| "rcv_scan (Suc n) h typ pmp mp best =
     (case mp of
        None \<Rightarrow> best
      | Some m \<Rightarrow>
          if typ > 0 then
            (if typ \<noteq> msg_type (h ! m) then rcv_scan n h typ mp (msg_next (h ! m)) best else (pmp, mp))
          else
            rcv_scan n h typ mp (msg_next (h ! m))
              (if msg_type (h ! m) \<le> s32 (- typ)
                  \<and> \<not> (case snd best of None \<Rightarrow> False | Some b \<Rightarrow> msg_type (h ! b) \<le> msg_type (h ! m))
               then (pmp, mp) else best))"

definition rcv_find :: "msginfo \<Rightarrow> int \<Rightarrow> nat \<Rightarrow> msg_state \<Rightarrow> nat option \<times> nat option" where
  "rcv_find si typ qp s =
     (let first = msg_first (msgque s ! qp) in
      if typ = 0 then (None, first) else rcv_scan (msgtql si) (msgh s) typ None first (None, None))"

definition msgrcv_find :: "msginfo \<Rightarrow> msgrcv_args \<Rightarrow> nat \<Rightarrow> msg_state \<Rightarrow> msg_out \<times> msg_state" where
  "msgrcv_find si a qp =
     relock si (mr_msqid a) qp (KRcvFind a qp) (\<lambda>s.
       case rcv_find si (mr_msgtyp a) qp s of
         (pmp, Some mp) \<Rightarrow>
           (let ts = msg_ts (msgh s ! mp) in
            if u32 (mr_msgsz a) < int ts \<and> mr_msgflg a AND MSG_NOERROR = 0 then leave qp (Err E2BIG) s
            else (Copying (RcvCopy a qp pmp mp (if u32 (mr_msgsz a) < int ts then nat (u32 (mr_msgsz a)) else ts)), s))
       | (_, None) \<Rightarrow>
           if mr_msgflg a AND IPC_NOWAIT \<noteq> 0 then leave qp (Err ENOMSG) s
           else doze qp (RcvChan qp) (KRcvFind a qp) (upd_qp qp (set_mode (\<lambda>m. m OR MSG_RWAIT)) s))"

definition msgrcv :: "msginfo \<Rightarrow> proc_ctx \<Rightarrow> msgrcv_args \<Rightarrow> msg_state \<Rightarrow> msg_out \<times> msg_state" where
  "msgrcv si c a s =
     (case msgconv si (mr_msqid a) s of
        (ConvErr, s1) \<Rightarrow> (Ret (Err EINVAL), s1)
      | (ConvWait q, s1) \<Rightarrow> (Sleep (LockChan q) (KRcv a), s1)
      | (ConvOk qp, s1) \<Rightarrow>
          let p = msg_perm (msgque s1 ! qp) in
          (case ipcaccess (p_sec c) p (MSG_R OR MSG_W) IPC_MAC (u_cred c) of
             Inl e \<Rightarrow> leave qp (Err e) s1
           | Inr _ \<Rightarrow>
               (case ipcaccess (p_sec c) p MSG_R IPC_DAC (u_cred c) of
                  Inl e \<Rightarrow> leave qp (Err e) s1
                | Inr _ \<Rightarrow>
                    if mr_msgsz a < 0 then leave qp (Err EINVAL) s1
                    else msgrcv_find si a qp (msgunlock qp s1))))"

text \<open>After the copies of the type and the text.\<close>

definition text_bytes :: "msginfo \<Rightarrow> (nat \<Rightarrow> byte) \<Rightarrow> nat \<Rightarrow> nat \<Rightarrow> byte list" where
  "text_bytes si txt spot n = map (\<lambda>i. txt (msgssz si * spot + i)) [0 ..< n]"

definition msgrcv_copied ::
  "msginfo \<Rightarrow> proc_ctx \<Rightarrow> nat \<Rightarrow> nat option \<Rightarrow> nat \<Rightarrow> nat \<Rightarrow> bool \<Rightarrow> bool \<Rightarrow> msg_state \<Rightarrow> msg_out \<times> msg_state" where
  "msgrcv_copied si c qp pmp mp sz out0 out1 s =
     (if \<not> out0 \<or> sz \<noteq> 0 \<and> \<not> out1 then leave qp (Err EFAULT) s
      else
        let h = msgh s ! mp;
            s1 = upd_qp qp (\<lambda>d. d\<lparr>msg_cbytes := u32 (msg_cbytes d - int (msg_ts h)), msg_lrpid := p_pid c,
                   msg_rtime := hrestime c\<rparr>) s in
        leave qp (Ok (MMsg (msg_type h) (text_bytes si (msgtext s) (msg_spot h) sz))) (msgfree si qp pmp mp s1))"

section \<open>msgsnd\<close>

definition snd_cnt :: "msgsnd_args \<Rightarrow> nat" where
  "snd_cnt a = nat (ms_msgsz a)"

definition msgsnd_res :: "msginfo \<Rightarrow> msgsnd_args \<Rightarrow> nat \<Rightarrow> int \<Rightarrow> msg_state \<Rightarrow> msg_out \<times> msg_state" where
  "msgsnd_res si a qp ty =
     relock si (ms_msqid a) qp (KSndRes a qp ty) (\<lambda>s.
       let cnt = snd_cnt a; nowait = (ms_msgflg a AND IPC_NOWAIT \<noteq> 0); d = msgque s ! qp in
       if u32 (int cnt + msg_cbytes d) > msg_qbytes d then
         (if nowait then leave qp (Err EAGAIN) s
          else doze qp (SndChan qp) (KSndRes a qp ty) (upd_qp qp (set_mode (\<lambda>m. m OR MSG_WWAIT)) s))
       else
         case msgfp s of
           None \<Rightarrow> if nowait then leave qp (Err EAGAIN) s else doze qp HdrChan (KSndRes a qp ty) s
         | Some mp \<Rightarrow>
             (let s1 = s\<lparr>msgfp := msg_next (msgh s ! mp)\<rparr> in
              if cnt = 0 then (Copying (SndCopy a qp mp 0 ty), s1)
              else
                case rmalloc (msgmap s1) (btoq si cnt) of
                  (spot, m) \<Rightarrow>
                    if spot = 0 then
                      (if nowait then leave qp (Err EAGAIN) (msgfp_free mp s1)
                       else doze qp MapChan (KSndRes a qp ty)
                              (msgfp_free mp (s1\<lparr>msgmap := m\<lparr>mapwant := uadd (mapwant m) 1\<rparr>\<rparr>)))
                    else (Copying (SndCopy a qp mp spot ty), s1\<lparr>msgmap := m\<rparr>)))"

definition msgsnd :: "msginfo \<Rightarrow> proc_ctx \<Rightarrow> msgsnd_args \<Rightarrow> msg_state \<Rightarrow> msg_out \<times> msg_state" where
  "msgsnd si c a s =
     (case msgconv si (ms_msqid a) s of
        (ConvErr, s1) \<Rightarrow> (Ret (Err EINVAL), s1)
      | (ConvWait q, s1) \<Rightarrow> (Sleep (LockChan q) (KSnd a), s1)
      | (ConvOk qp, s1) \<Rightarrow>
          (case ipcaccess (p_sec c) (msg_perm (msgque s1 ! qp)) MSG_W (IPC_MAC OR IPC_DAC) (u_cred c) of
             Inl e \<Rightarrow> leave qp (Err e) s1
           | Inr _ \<Rightarrow>
               if ms_msgsz a < 0 \<or> ms_msgsz a > msgmax si then leave qp (Err EINVAL) s1
               else
                 case ms_type a of
                   None \<Rightarrow> leave qp (Err EFAULT) s1
                 | Some ty \<Rightarrow>
                     if ty < 1 then leave qp (Err EINVAL) s1
                     else msgsnd_res si a qp ty (msgunlock qp s1)))"

text \<open>The sleep was interrupted.\<close>

definition msgsnd_intr :: "msginfo \<Rightarrow> msgsnd_args \<Rightarrow> nat \<Rightarrow> bool \<Rightarrow> msg_state \<Rightarrow> msg_out \<times> msg_state" where
  "msgsnd_intr si a qp full s =
     (case msgconv si (ms_msqid a) s of
        (ConvErr, s1) \<Rightarrow> (Ret (Err EINVAL), s1)
      | (ConvWait q, s1) \<Rightarrow> (Sleep (LockChan q) (KSndIntr a qp full), s1)
      | (ConvOk qp1, s1) \<Rightarrow>
          if qp1 \<noteq> qp then leave qp1 (Err EINTR) s1
          else if full
          then leave qp (Err EINTR) (wake (SndChan qp) (upd_qp qp (set_mode (\<lambda>m. m AND NOT MSG_WWAIT)) s1))
          else leave qp (Err EINTR) s1)"

text \<open>After the copy of the text, which comes from user memory; \<open>None\<close> is a fault.\<close>

definition msgsnd_copied ::
  "msginfo \<Rightarrow> proc_ctx \<Rightarrow> nat \<Rightarrow> nat \<Rightarrow> nat \<Rightarrow> nat \<Rightarrow> int \<Rightarrow> (nat \<Rightarrow> byte) option \<Rightarrow> msg_state \<Rightarrow> msg_out \<times> msg_state" where
  "msgsnd_copied si c qp mp cnt spot ty usr s =
     (if cnt \<noteq> 0 \<and> usr = None
      then leave qp (Err EFAULT) (msgfp_free mp (map_free (btoq si cnt) spot s))
      else
        let base = msgssz si * (spot - 1);
            s1 = (if cnt \<noteq> 0
                  then s\<lparr>msgtext := (\<lambda>x. if base \<le> x \<and> x < base + cnt then the usr (x - base) else msgtext s x)\<rparr>
                  else s);
            s2 = upd_qp qp (\<lambda>d. d\<lparr>msg_qnum := u32 (msg_qnum d + 1), msg_cbytes := u32 (msg_cbytes d + int cnt),
                   msg_lspid := p_pid c, msg_stime := hrestime c\<rparr>) s1;
            s3 = upd_mp mp (\<lambda>_. \<lparr>msg_next = None, msg_type = ty, msg_ts = cnt,
                   msg_spot = (if cnt \<noteq> 0 then spot - 1 else 4294967295)\<rparr>) s2;
            s4 = (case msg_last (msgque s3 ! qp) of
                    None \<Rightarrow> upd_qp qp (\<lambda>d. d\<lparr>msg_first := Some mp, msg_last := Some mp\<rparr>) s3
                  | Some l \<Rightarrow> upd_qp qp (\<lambda>d. d\<lparr>msg_last := Some mp\<rparr>) (upd_mp l (\<lambda>h. h\<lparr>msg_next := Some mp\<rparr>) s3));
            s5 = (if has_mode MSG_RWAIT qp s4
                  then wake (RcvChan qp) (upd_qp qp (set_mode (\<lambda>m. m AND NOT MSG_RWAIT)) s4) else s4) in
        leave qp (Ok (MVal 0)) s5)"

section \<open>msgctl, msgget, msginit and msgsys\<close>

fun rmid_msgs :: "nat \<Rightarrow> msginfo \<Rightarrow> nat \<Rightarrow> msg_state \<Rightarrow> msg_state" where
  "rmid_msgs 0 si qp s = s"
| "rmid_msgs (Suc n) si qp s =
     (case msg_first (msgque s ! qp) of
        None \<Rightarrow> s
      | Some mp \<Rightarrow> rmid_msgs n si qp (msgfree si qp None mp s))"

definition msg_owner :: "proc_ctx \<Rightarrow> ipc_perm \<Rightarrow> unit res" where
  "msg_owner c p =
     (case ipcaccess (p_sec c) p (MSG_R OR MSG_W) IPC_MAC (u_cred c) of
        Inl e \<Rightarrow> Err e
      | Inr _ \<Rightarrow>
          if cr_uid (u_cred c) \<noteq> ip_uid p \<and> cr_uid (u_cred c) \<noteq> ip_cuid p
             \<and> pm_denied (u_cred c) P_OWNER
          then Err EPERM else Ok ())"

definition msgctl_rmid :: "msginfo \<Rightarrow> bool \<Rightarrow> int \<Rightarrow> nat \<Rightarrow> msg_state \<Rightarrow> msg_state" where
  "msgctl_rmid si old_cmd ident qp s =
     (let s1 = upd_qp qp (\<lambda>d. d\<lparr>msg_cbytes := 0,
                 msg_perm := (msg_perm d)\<lparr>ip_seq := ipc_next_seq (msgmni si) old_cmd ident (ip_seq (msg_perm d))\<rparr>\<rparr>)
                 (rmid_msgs (msgtql si) si qp s);
          s2 = (if has_mode MSG_RWAIT qp s1 then wake (RcvChan qp) s1 else s1);
          s3 = (if has_mode MSG_WWAIT qp s2 then wake (SndChan qp) s2 else s2) in
      upd_qp qp (\<lambda>d. d\<lparr>msg_perm := (msg_perm d)\<lparr>ip_mode := 0, ip_dacp := None\<rparr>\<rparr>) s3)"

definition msgctl_set ::
  "proc_ctx \<Rightarrow> bool \<Rightarrow> (int \<times> int \<times> bits \<times> int) option \<Rightarrow> nat \<Rightarrow> msg_state \<Rightarrow> msg_ret res \<times> msg_state" where
  "msgctl_set c old_cmd ds qp s =
     (case ds of
        None \<Rightarrow> (Err EFAULT, s)
      | Some (uid, gid, mode, qbytes) \<Rightarrow>
          if qbytes > msg_qbytes (msgque s ! qp) \<and> pm_denied (u_cred c) P_SYSOPS then (Err EPERM, s)
          else if uid > MAXUID \<or> gid > MAXUID \<or> \<not> old_cmd \<and> (uid < 0 \<or> gid < 0) then (Err EINVAL, s)
          else (Ok (MVal 0),
                upd_qp qp (\<lambda>d. d\<lparr>msg_perm := (msg_perm d)\<lparr>ip_uid := uid, ip_gid := gid,
                    ip_mode := (ip_mode (msg_perm d) AND NOT PERM_MASK) OR (mode AND PERM_MASK)\<rparr>,
                  msg_qbytes := qbytes, msg_ctime := hrestime c\<rparr>) s))"

definition old_msqid_ds :: "msqid_ds \<Rightarrow> msqid_ds" where
  "old_msqid_ds d =
     d\<lparr>msg_perm := (msg_perm d)\<lparr>ip_uid := u16 (ip_uid (msg_perm d)), ip_gid := u16 (ip_gid (msg_perm d)),
           ip_cuid := u16 (ip_cuid (msg_perm d)), ip_cgid := u16 (ip_cgid (msg_perm d)),
           ip_mode := ip_mode (msg_perm d) AND 65535, ip_seq := u16 (ip_seq (msg_perm d)), ip_dacp := None\<rparr>,
       msg_first := None, msg_last := None, msg_cbytes := u16 (msg_cbytes d), msg_qnum := u16 (msg_qnum d),
       msg_qbytes := u16 (msg_qbytes d), msg_lspid := s16 (msg_lspid d), msg_lrpid := s16 (msg_lrpid d)\<rparr>"

definition msgctl_stat :: "bool \<Rightarrow> bool \<Rightarrow> msqid_ds \<Rightarrow> msg_ret res" where
  "msgctl_stat old_cmd out d =
     (let p = msg_perm d in
      if old_cmd \<and> (ip_uid p > USHRT_MAX \<or> ip_gid p > USHRT_MAX \<or> ip_cuid p > USHRT_MAX \<or> ip_cgid p > USHRT_MAX
           \<or> ip_seq p > USHRT_MAX \<or> msg_cbytes d > USHRT_MAX \<or> msg_qnum d > USHRT_MAX \<or> msg_qbytes d > USHRT_MAX
           \<or> msg_lspid d > SHRT_MAX \<or> msg_lrpid d > SHRT_MAX)
      then Err EOVERFLOW
      else if \<not> out then Err EFAULT
      else Ok (MStat (if old_cmd then old_msqid_ds d
                      else d\<lparr>msg_first := None, msg_last := None, msg_perm := p\<lparr>ip_dacp := None\<rparr>\<rparr>)))"

definition msgctl :: "msginfo \<Rightarrow> proc_ctx \<Rightarrow> msgctl_args \<Rightarrow> msg_state \<Rightarrow> msg_out \<times> msg_state" where
  "msgctl si c a s =
     (case msgconv si (mc_msgid a) s of
        (ConvErr, s1) \<Rightarrow> (Ret (Err EINVAL), s1)
      | (ConvWait q, s1) \<Rightarrow> (Sleep (LockChan q) (KCtl a), s1)
      | (ConvOk qp, s1) \<Rightarrow>
          let p = msg_perm (msgque s1 ! qp) in
          (case mc_cmd a of
             MsgRmid old_cmd \<Rightarrow>
               (case msg_owner c p of
                  Inl e \<Rightarrow> leave qp (Err e) s1
                | Inr _ \<Rightarrow> leave qp (Ok (MVal 0)) (msgctl_rmid si old_cmd (mc_msgid a) qp s1))
           | MsgSet old_cmd \<Rightarrow>
               (case msg_owner c p of
                  Inl e \<Rightarrow> leave qp (Err e) s1
                | Inr _ \<Rightarrow> (case msgctl_set c old_cmd (mc_set a) qp s1 of (r, s2) \<Rightarrow> leave qp r s2))
           | MsgStat old_cmd \<Rightarrow>
               (case ipcaccess (p_sec c) p MSG_R (IPC_MAC OR IPC_DAC) (u_cred c) of
                  Inl e \<Rightarrow> leave qp (Err e) s1
                | Inr _ \<Rightarrow> leave qp (msgctl_stat old_cmd (mc_out a) (msgque s1 ! qp)) s1)
           | MsgBad \<Rightarrow> leave qp (Err EINVAL) s1))"

definition msg_perms :: "msg_state \<Rightarrow> ipc_perm list" where
  "msg_perms s = map msg_perm (msgque s)"

definition msgget :: "msginfo \<Rightarrow> proc_ctx \<Rightarrow> msgget_args \<Rightarrow> msg_state \<Rightarrow> int res \<times> msg_state" where
  "msgget si c a s =
     (case ipcget (p_sec c) (u_cred c) (mg_key a) (mg_msgflg a) (msg_perms s) of
        Inl e \<Rightarrow> (Err e, s)
      | Inr (qp, created, base') \<Rightarrow>
          (let s1 = upd_qp qp (\<lambda>d. d\<lparr>msg_perm := base' ! qp\<rparr>) s;
               s2 = (if created
                     then upd_qp qp (\<lambda>d. d\<lparr>msg_first := None, msg_last := None, msg_qnum := 0,
                            msg_qbytes := u32 (msgmnb si), msg_lspid := 0, msg_lrpid := 0, msg_stime := 0,
                            msg_rtime := 0, msg_ctime := hrestime c\<rparr>) s1
                     else s1) in
           (Ok (ipc_id (msgmni si) (ip_seq (msg_perm (msgque s2 ! qp))) qp), s2)))"

text \<open>The state at boot; \<open>pool\<close> says whether the memory for the text pool was there.\<close>

definition zero_msqid :: msqid_ds where
  "zero_msqid = \<lparr>msg_perm = \<lparr>ip_uid = 0, ip_gid = 0, ip_cuid = 0, ip_cgid = 0, ip_mode = 0, ip_seq = 0,
       ip_key = 0, ip_dacp = None, ip_lid = 0\<rparr>, msg_first = None, msg_last = None, msg_cbytes = 0, msg_qnum = 0,
     msg_qbytes = 0, msg_lspid = 0, msg_lrpid = 0, msg_stime = 0, msg_rtime = 0, msg_ctime = 0\<rparr>"

definition msginit :: "msginfo \<Rightarrow> bool \<Rightarrow> msg_state" where
  "msginit si pool =
     \<lparr>msgque = replicate (msgmni si) zero_msqid,
      msgh = map (\<lambda>i. \<lparr>msg_next = (if i + 1 < msgtql si then Some (i + 1) else None), msg_type = 0, msg_ts = 0,
        msg_spot = 0\<rparr>) [0 ..< msgtql si],
      msgfp = Some 0,
      msgmap = rm_release (mapinit (rm_zeroed (msgmapsz si)) (msgmapsz si)) (if pool then msgseg si else 0) 1,
      msgtext = (\<lambda>_. 0), msglock = replicate (msgmni si) False, msg_woken = []\<rparr>"

datatype msgsys_args = MSGGET msgget_args | MSGCTL msgctl_args | MSGRCV msgrcv_args | MSGSND msgsnd_args | MSGBAD

definition msgsys :: "msgsys_args \<Rightarrow> msg_kont" where
  "msgsys uap =
     (case uap of
        MSGGET a \<Rightarrow> KGet a | MSGCTL a \<Rightarrow> KCtl a | MSGRCV a \<Rightarrow> KRcv a | MSGSND a \<Rightarrow> KSnd a | MSGBAD \<Rightarrow> KBad)"

section \<open>Running a call\<close>

definition msg_run :: "msginfo \<Rightarrow> proc_ctx \<Rightarrow> msg_kont \<Rightarrow> msg_state \<Rightarrow> msg_out \<times> msg_state" where
  "msg_run si c k s =
     (case k of
        KCtl a \<Rightarrow> msgctl si c a s
      | KGet a \<Rightarrow> (case msgget si c a s of (r, s1) \<Rightarrow> (Ret (map_sum id MVal r), s1))
      | KBad \<Rightarrow> (Ret (Err EINVAL), s)
      | KRcv a \<Rightarrow> msgrcv si c a s
      | KRcvFind a qp \<Rightarrow> msgrcv_find si a qp s
      | KSnd a \<Rightarrow> msgsnd si c a s
      | KSndRes a qp ty \<Rightarrow> msgsnd_res si a qp ty s
      | KSndIntr a qp full \<Rightarrow> msgsnd_intr si a qp full s)"

text \<open>What the copies deliver.\<close>

record user_copy =
  uc_out0 :: bool
  uc_out1 :: bool
  uc_text :: "(nat \<Rightarrow> byte) option"

definition msg_copied :: "msginfo \<Rightarrow> proc_ctx \<Rightarrow> msg_copy \<Rightarrow> user_copy \<Rightarrow> msg_state \<Rightarrow> msg_out \<times> msg_state" where
  "msg_copied si c cp u s =
     (case cp of
        RcvCopy a qp pmp mp sz \<Rightarrow> msgrcv_copied si c qp pmp mp sz (uc_out0 u) (uc_out1 u) s
      | SndCopy a qp mp spot ty \<Rightarrow> msgsnd_copied si c qp mp (snd_cnt a) spot ty (uc_text u) s)"

text \<open>A signal ends a sleep on one of the four channels; a receiver returns at once.\<close>

datatype msg_sig = SigNone | SigReturn "msg_ret res" | SigGoOn msg_kont

definition msg_signal :: "msg_chan \<Rightarrow> msg_kont \<Rightarrow> msg_sig" where
  "msg_signal ch k =
     (case k of
        KRcvFind a qp \<Rightarrow> (case ch of RcvChan _ \<Rightarrow> SigReturn (Err EINTR) | _ \<Rightarrow> SigNone)
      | KSndRes a qp ty \<Rightarrow>
          (case ch of
             SndChan _ \<Rightarrow> SigGoOn (KSndIntr a qp True)
           | HdrChan \<Rightarrow> SigGoOn (KSndIntr a qp False)
           | MapChan \<Rightarrow> SigGoOn (KSndIntr a qp False)
           | _ \<Rightarrow> SigNone)
      | _ \<Rightarrow> SigNone)"

end
