(* ===== verification/Message_Lists.thy ===== *)
theory Message_Lists
  imports Message_Queues "HOL-Library.Multiset"
begin

text \<open>
  The lists of message headers in the state of \<open>msg.c\<close>: the chains through \<open>msg_next\<close>, and
  \<open>store_ok\<close>, which says that the free list, the lists of the queues and the headers in flight share
  out the header table, and that the text segments of the messages, those in flight and the free
  units of the map share out the pool.  The lemmas \<open>store_pop\<close> to \<open>store_unlink\<close> are the steps of the
  owner of a header or a segment; allocating and releasing rest on the interface of the resource
  map (\<open>rm.alloc_units_ok\<close>, \<open>rm.release_units_ok\<close>).
\<close>

section \<open>Chains of headers\<close>

fun path :: "msg list \<Rightarrow> nat option \<Rightarrow> nat list \<Rightarrow> bool" where
  "path h p [] \<longleftrightarrow> p = None"
| "path h p (x # xs) \<longleftrightarrow> p = Some x \<and> path h (msg_next (h ! x)) xs"

fun chain :: "nat \<Rightarrow> msg list \<Rightarrow> nat option \<Rightarrow> nat list" where
  "chain 0 h p = []"
| "chain (Suc n) h p = (case p of None \<Rightarrow> [] | Some x \<Rightarrow> x # chain n h (msg_next (h ! x)))"

lemma path_upd [simp]: "x \<notin> set xs \<Longrightarrow> path (h[x := v]) p xs = path h p xs"
  by (induction xs arbitrary: p) auto

lemma path_next_cong:
  "(\<And>x. x \<in> set xs \<Longrightarrow> msg_next (h' ! x) = msg_next (h ! x)) \<Longrightarrow> path h' p xs = path h p xs"
  by (induction xs arbitrary: p) auto

lemma path_chain: "path h p xs \<Longrightarrow> length xs \<le> n \<Longrightarrow> chain n h p = xs"
proof (induction xs arbitrary: p n)
  case Nil
  then show ?case by (cases n) auto
next
  case (Cons x xs)
  then show ?case by (cases n) auto
qed

lemma path_first: "path h p xs \<Longrightarrow> p = (case xs of [] \<Rightarrow> None | x # _ \<Rightarrow> Some x)"
  by (cases xs) auto

lemma path_next:
  "path h p (A @ x # B) \<Longrightarrow> msg_next (h ! x) = (case B of [] \<Rightarrow> None | y # _ \<Rightarrow> Some y)"
  by (induction A arbitrary: p) (auto dest: path_first)

text \<open>Linking at the end, and unlinking.\<close>

lemma path_link:
  assumes "path h p xs" and "m \<notin> set xs" and "distinct xs" and "\<forall>x \<in> set xs. x < length h" and "m < length h"
    and "msg_next (h ! m) = None"
  shows "xs = [] \<Longrightarrow> path h (Some m) [m]"
    "xs \<noteq> [] \<Longrightarrow> path (h[last xs := (h ! last xs)\<lparr>msg_next := Some m\<rparr>]) p (xs @ [m])"
proof -
  show "xs = [] \<Longrightarrow> path h (Some m) [m]" using assms by simp
  show "xs \<noteq> [] \<Longrightarrow> path (h[last xs := (h ! last xs)\<lparr>msg_next := Some m\<rparr>]) p (xs @ [m])"
    using assms(1-4)
  proof (induction xs arbitrary: p)
    case (Cons x xs)
    show ?case
    proof (cases "xs = []")
      case True
      with Cons.prems assms(5,6) show ?thesis by auto
    next
      case False
      then have "last xs \<noteq> x" using Cons.prems(4) by (metis distinct.simps(2) last_in_set)
      with False Cons show ?thesis by auto
    qed
  qed simp
qed

lemma path_unlink_first: "path h p (m # B) \<Longrightarrow> path h (msg_next (h ! m)) B"
  by simp

lemma path_unlink:
  assumes "A \<noteq> []" and "path h p (A @ m # B)" and "distinct (A @ m # B)" and "\<forall>x \<in> set A. x < length h"
  shows "path (h[last A := (h ! last A)\<lparr>msg_next := msg_next (h ! m)\<rparr>]) p (A @ B)"
  using assms
proof (induction A arbitrary: p)
  case (Cons a A)
  show ?case
  proof (cases "A = []")
    case True
    with Cons.prems show ?thesis by auto
  next
    case False
    moreover have "a \<notin> set A" using Cons.prems(3) by simp
    ultimately have "last A \<noteq> a" by (metis last_in_set)
    with False Cons show ?thesis by auto
  qed
qed simp

section \<open>Who owns the headers and the segments\<close>

definition hdr_ext :: "msginfo \<Rightarrow> msg \<Rightarrow> nat \<times> nat" where
  "hdr_ext si h = (if msg_ts h = 0 then (0, 0) else (msg_spot h + 1, btoq si (msg_ts h)))"

text \<open>\<open>fl\<close> the free list, \<open>Q ! i\<close> the list of queue \<open>i\<close>.\<close>

definition lists_ok :: "msginfo \<Rightarrow> msg_state \<Rightarrow> nat list \<Rightarrow> nat list list \<Rightarrow> bool" where
  "lists_ok si s fl Q \<longleftrightarrow> length (msgh s) = msgtql si \<and> length (msgque s) = msgmni si \<and> length Q = msgmni si
     \<and> path (msgh s) (msgfp s) fl
     \<and> (\<forall>i < msgmni si. path (msgh s) (msg_first (msgque s ! i)) (Q ! i)
          \<and> msg_last (msgque s ! i) = (if Q ! i = [] then None else Some (last (Q ! i)))
          \<and> msg_qnum (msgque s ! i) = u32 (int (length (Q ! i))))"

definition owned :: "msginfo \<Rightarrow> nat list \<Rightarrow> nat list list \<Rightarrow> nat list \<Rightarrow> bool" where
  "owned si fl Q H \<longleftrightarrow> mset (fl @ concat Q @ H) = mset [0 ..< msgtql si]"

definition segs_ok :: "msginfo \<Rightarrow> msg_state \<Rightarrow> nat list list \<Rightarrow> (nat \<times> nat) list \<Rightarrow> bool" where
  "segs_ok si s Q E \<longleftrightarrow> rmap_ok (msgmap s)
     \<and> units_ok (map (\<lambda>m. hdr_ext si (msgh s ! m)) (concat Q) @ E) (free_units (msgmap s)) {1 ..< 1 + msgseg si}"

definition store_ok :: "msginfo \<Rightarrow> msg_state \<Rightarrow> nat list \<Rightarrow> nat list list \<Rightarrow> nat list \<Rightarrow> (nat \<times> nat) list \<Rightarrow> bool" where
  "store_ok si s fl Q H E \<longleftrightarrow> lists_ok si s fl Q \<and> owned si fl Q H \<and> segs_ok si s Q E"

lemma cover_mset: "mset xs = mset ys \<Longrightarrow> cover xs u = cover ys u"
  unfolding cover_def sum_mset_sum_list [symmetric] mset_map by simp

lemma owned_distinct: "owned si fl Q H \<Longrightarrow> distinct (fl @ concat Q @ H)"
  unfolding owned_def by (drule mset_eq_imp_distinct_iff) (simp only: distinct_upt)

lemma owned_range: "owned si fl Q H \<Longrightarrow> x \<in> set fl \<union> set (concat Q) \<union> set H \<Longrightarrow> x < msgtql si"
proof -
  assume o: "owned si fl Q H" and x: "x \<in> set fl \<union> set (concat Q) \<union> set H"
  have "set (fl @ concat Q @ H) = set [0 ..< msgtql si]" using o unfolding owned_def by (rule mset_eq_setD)
  moreover have "x \<in> set (fl @ concat Q @ H)" using x by (simp only: set_append Un_assoc)
  ultimately show "x < msgtql si" by simp
qed

lemma concat_update:
  "i < length Q \<Longrightarrow> mset (concat (Q[i := q'])) + mset (Q ! i) = mset (concat Q) + mset q'"
proof -
  assume i: "i < length Q"
  have "Q = take i Q @ Q ! i # drop (Suc i) Q" using i by (rule id_take_nth_drop)
  then have "mset (concat Q) = mset (concat (take i Q @ Q ! i # drop (Suc i) Q))" by (rule arg_cong)
  then have "mset (concat Q) = mset (concat (take i Q)) + mset (Q ! i) + mset (concat (drop (Suc i) Q))" by simp
  then show ?thesis using i by (simp add: upd_conv_take_nth_drop)
qed

lemma queues_disjoint:
  assumes "distinct (concat Q)" "i < length Q" "j < length Q" "i \<noteq> j"
  shows "set (Q ! i) \<inter> set (Q ! j) = {}"
  using assms
proof (induction Q arbitrary: i j)
  case (Cons q Q)
  show ?case
  proof (cases i; cases j)
    fix j' assume "i = 0" "j = Suc j'"
    with Cons.prems show ?thesis by (fastforce simp: in_set_conv_nth)
  next
    fix i' assume "i = Suc i'" "j = 0"
    with Cons.prems show ?thesis by (fastforce simp: in_set_conv_nth)
  next
    fix i' j' assume "i = Suc i'" "j = Suc j'"
    with Cons show ?thesis by auto
  qed (use Cons.prems in simp)
qed simp


section \<open>The steps of an owner\<close>

lemma store_range: "store_ok si s fl Q H E \<Longrightarrow> x \<in> set fl \<union> set (concat Q) \<union> set H \<Longrightarrow> x < length (msgh s)"
  using owned_range [of si fl Q H x] by (simp only: store_ok_def lists_ok_def)

lemma in_concat: "i < length Q \<Longrightarrow> x \<in> set (Q ! i) \<Longrightarrow> x \<in> set (concat Q)"
  by auto

text \<open>The state of the headers, the queues and the map decides.\<close>

lemma store_cong:
  assumes "msgh t = msgh s" "msgfp t = msgfp s" "length (msgque t) = length (msgque s)" "free_units (msgmap t) = free_units (msgmap s)"
    "rmap_ok (msgmap t) = rmap_ok (msgmap s)"
    "\<And>i. i < length (msgque s) \<Longrightarrow> msg_first (msgque t ! i) = msg_first (msgque s ! i)
      \<and> msg_last (msgque t ! i) = msg_last (msgque s ! i) \<and> msg_qnum (msgque t ! i) = msg_qnum (msgque s ! i)"
  shows "store_ok si t fl Q H E = store_ok si s fl Q H E"
  using assms by (auto simp: store_ok_def lists_ok_def segs_ok_def)

lemma upd_qp_simps [simp]:
  "msgh (upd_qp qp f s) = msgh s" "msgfp (upd_qp qp f s) = msgfp s" "msgmap (upd_qp qp f s) = msgmap s"
  "msgtext (upd_qp qp f s) = msgtext s" "msglock (upd_qp qp f s) = msglock s" "msg_woken (upd_qp qp f s) = msg_woken s"
  "length (msgque (upd_qp qp f s)) = length (msgque s)"
  by (simp_all add: upd_qp_def)

lemma upd_qp_nth: "i < length (msgque s) \<Longrightarrow> msgque (upd_qp qp f s) ! i = (if i = qp then f (msgque s ! i) else msgque s ! i)"
  by (simp add: upd_qp_def)

lemma upd_mp_simps [simp]:
  "msgque (upd_mp mp f s) = msgque s" "msgfp (upd_mp mp f s) = msgfp s" "msgmap (upd_mp mp f s) = msgmap s"
  "msgtext (upd_mp mp f s) = msgtext s" "msglock (upd_mp mp f s) = msglock s" "msg_woken (upd_mp mp f s) = msg_woken s"
  "length (msgh (upd_mp mp f s)) = length (msgh s)"
  by (simp_all add: upd_mp_def)

lemma msg_wake_simps [simp]:
  "msgh (wake ch s) = msgh s" "msgfp (wake ch s) = msgfp s" "msgmap (wake ch s) = msgmap s" "msgque (wake ch s) = msgque s"
  "msgtext (wake ch s) = msgtext s" "msglock (wake ch s) = msglock s" "msg_woken (wake ch s) = ch # msg_woken s"
  by (simp_all add: wake_def)

lemma store_pop:
  assumes st: "store_ok si s fl Q H E" and mp: "msgfp s = Some mp"
  shows "\<exists>fl'. fl = mp # fl' \<and> store_ok si (s\<lparr>msgfp := msg_next (msgh s ! mp)\<rparr>) fl' Q (mp # H) E"
proof -
  obtain fl' where fl: "fl = mp # fl'" using st mp by (cases fl) (auto simp: store_ok_def lists_ok_def)
  with st show ?thesis by (auto simp: store_ok_def lists_ok_def owned_def segs_ok_def)
qed

lemma store_push:
  assumes st: "store_ok si s fl Q (mp # H) E"
  shows "store_ok si (msgfp_free mp s) (mp # fl) Q H E"
proof -
  let ?h = "(msgh s)[mp := (msgh s ! mp)\<lparr>msg_next := msgfp s\<rparr>]"
  have d: "distinct (fl @ concat Q @ mp # H)" using owned_distinct [of si fl Q "mp # H"] st by (simp only: store_ok_def)
  have lt: "mp < length (msgh s)" using store_range [OF st] by simp
  have lists: "lists_ok si (msgfp_free mp s) (mp # fl) Q"
    unfolding lists_ok_def
  proof (intro conjI allI impI)
    have l: "lists_ok si s fl Q" using st by (simp add: store_ok_def)
    show "length (msgh (msgfp_free mp s)) = msgtql si" "length (msgque (msgfp_free mp s)) = msgmni si" "length Q = msgmni si"
      using l by (simp_all add: lists_ok_def msgfp_free_def Let_def)
    show "path (msgh (msgfp_free mp s)) (msgfp (msgfp_free mp s)) (mp # fl)"
      using l d lt by (cases "msgfp s") (auto simp: lists_ok_def msgfp_free_def Let_def upd_mp_def)
    fix i assume i: "i < msgmni si"
    then have "mp \<notin> set (Q ! i)" using d l in_concat [of i Q mp] by (auto simp: lists_ok_def)
    then show "path (msgh (msgfp_free mp s)) (msg_first (msgque (msgfp_free mp s) ! i)) (Q ! i)"
      using l i by (simp add: lists_ok_def msgfp_free_def Let_def upd_mp_def)
    show "msg_last (msgque (msgfp_free mp s) ! i) = (if Q ! i = [] then None else Some (last (Q ! i)))"
      "msg_qnum (msgque (msgfp_free mp s) ! i) = u32 (int (length (Q ! i)))"
      using l i by (simp_all add: lists_ok_def msgfp_free_def Let_def)
  qed
  moreover have "owned si (mp # fl) Q H" using st by (simp add: store_ok_def owned_def)
  moreover have "segs_ok si (msgfp_free mp s) Q E"
  proof -
    have "msgh (msgfp_free mp s) = ?h" "msgmap (msgfp_free mp s) = msgmap s" by (simp_all add: msgfp_free_def Let_def upd_mp_def)
    moreover have "hdr_ext si (?h ! m) = hdr_ext si (msgh s ! m)" for m
      by (cases "m = mp"; cases "mp < length (msgh s)") (auto simp: hdr_ext_def list_update_beyond)
    ultimately show ?thesis using st by (simp add: store_ok_def segs_ok_def)
  qed
  ultimately show ?thesis by (simp add: store_ok_def)
qed

lemma store_alloc:
  assumes st: "store_ok si s fl Q H E" and al: "rmalloc (msgmap s) n = (a, m)" "0 < a"
  shows "store_ok si (s\<lparr>msgmap := m\<rparr>) fl Q H ((a, n) # E)"
proof -
  from st have ok: "rmap_ok (msgmap s)"
    "units_ok (map (\<lambda>m. hdr_ext si (msgh s ! m)) (concat Q) @ E) (free_units (msgmap s)) {1 ..< 1 + msgseg si}"
    by (simp_all add: store_ok_def segs_ok_def)
  from rm.alloc_units_ok [OF ok al] have
    "units_ok (map (\<lambda>m. hdr_ext si (msgh s ! m)) (concat Q) @ (a, n) # E) (free_units m) {1 ..< 1 + msgseg si}"
    by (rule units_ok_permute) simp
  moreover have "rmap_ok m" using rm.alloc_invar [OF ok(1) al(1)] .
  ultimately show ?thesis using st by (simp add: store_ok_def lists_ok_def segs_ok_def)
qed

lemma units_ok_bound: "units_ok (xs @ (a, n) # ys) F {1 ..< 1 + k} \<Longrightarrow> 0 < n \<Longrightarrow> 0 < a \<and> a + n \<le> 1 + k"
proof -
  assume u: "units_ok (xs @ (a, n) # ys) F {1 ..< 1 + k}" and n: "0 < n"
  have "a \<in> {1 ..< 1 + k}" "a + n - 1 \<in> {1 ..< 1 + k}"
    using units_ok_disjoint(2) [OF u, of a] units_ok_disjoint(2) [OF u, of "a + n - 1"] n by (auto simp: ext_def)
  with n show ?thesis by auto
qed

lemma map_free_simps [simp]:
  "msgh (map_free n a s) = msgh s" "msgfp (map_free n a s) = msgfp s" "msgque (map_free n a s) = msgque s"
  "msgtext (map_free n a s) = msgtext s" "msglock (map_free n a s) = msglock s"
  "msgmap (map_free n a s) = rm_release (msgmap s) n a"
  by (auto simp: map_free_def rm_release_def split: prod.split rm_out.split bool.split)

lemma store_release:
  assumes st: "store_ok si s fl Q H ((a, n) # E)" and n: "0 < n" and si: "msgseg si < 4294967295"
  shows "store_ok si (map_free n a s) fl Q H E"
proof -
  let ?xs = "map (\<lambda>m. hdr_ext si (msgh s ! m)) (concat Q)"
  from st have ok: "rmap_ok (msgmap s)" "units_ok (?xs @ (a, n) # E) (free_units (msgmap s)) {1 ..< 1 + msgseg si}"
    by (simp_all add: store_ok_def segs_ok_def)
  from units_ok_bound [OF ok(2) n] have "0 < a" "a + n < 4294967296" using si by auto
  from rm.release_units_ok [OF ok this] st show ?thesis
    by (simp add: store_ok_def segs_ok_def lists_ok_def)
qed

lemma u32_plus: "u32 (u32 x + y) = u32 (x + y)" "u32 (u32 x - y) = u32 (x - y)"
  by (simp_all add: u32_def mod_simps)

lemma hdr_ext_relink [simp]: "hdr_ext si (h[x := (h ! x)\<lparr>msg_next := v\<rparr>] ! m) = hdr_ext si (h ! m)"
  by (cases "x < length h"; cases "m = x") (simp_all add: hdr_ext_def list_update_beyond)

lemma concat_update_mset:
  assumes "i < length Q"
  shows "mset (concat (Q[i := Q ! i @ [m]])) = add_mset m (mset (concat Q))"
    and "Q ! i = A @ m # B \<Longrightarrow> add_mset m (mset (concat (Q[i := A @ B]))) = mset (concat Q)"
  using concat_update [OF assms, of "Q ! i @ [m]"] concat_update [OF assms, of "A @ B"] by simp_all

lemma store_link:
  assumes st: "store_ok si s fl Q (mp # H) (hdr_ext si h # E)" and qp: "qp < msgmni si" and h: "msg_next h = None"
    and t: "msgh t = (if Q ! qp = [] then (msgh s)[mp := h]
        else (msgh s)[mp := h, last (Q ! qp) := (msgh s ! last (Q ! qp))\<lparr>msg_next := Some mp\<rparr>])"
      "msgfp t = msgfp s" "msgmap t = msgmap s" "length (msgque t) = length (msgque s)"
    and tq: "msg_first (msgque t ! qp) = (if Q ! qp = [] then Some mp else msg_first (msgque s ! qp))"
      "msg_last (msgque t ! qp) = Some mp" "msg_qnum (msgque t ! qp) = u32 (msg_qnum (msgque s ! qp) + 1)"
    and ti: "\<And>i. i < msgmni si \<Longrightarrow> i \<noteq> qp \<Longrightarrow> msg_first (msgque t ! i) = msg_first (msgque s ! i)
        \<and> msg_last (msgque t ! i) = msg_last (msgque s ! i) \<and> msg_qnum (msgque t ! i) = msg_qnum (msgque s ! i)"
  shows "store_ok si t fl (Q[qp := Q ! qp @ [mp]]) H E"
proof -
  have l: "lists_ok si s fl Q" and o: "owned si fl Q (mp # H)" and g: "segs_ok si s Q (hdr_ext si h # E)"
    using st by (simp_all add: store_ok_def)
  have d: "distinct (fl @ concat Q @ mp # H)" using o by (rule owned_distinct)
  have lq: "qp < length Q" using l qp by (simp add: lists_ok_def)
  have lt: "mp < length (msgh s)" using store_range [OF st] by simp
  have inQ: "x < length (msgh s)" "x \<notin> set fl" "x \<noteq> mp" if "x \<in> set (concat Q)" for x
    using store_range [OF st, of x] that d by (auto simp del: set_concat)
  have keep: "path (msgh t) p xs = path (msgh s) p xs" if "mp \<notin> set xs" "Q ! qp \<noteq> [] \<Longrightarrow> last (Q ! qp) \<notin> set xs" for p xs
    using that t(1) by simp
  have lastin: "Q ! qp \<noteq> [] \<Longrightarrow> last (Q ! qp) \<in> set (concat Q)" using in_concat [OF lq] by simp
  have dQ: "distinct (Q ! i)" if "i < length Q" for i
    using d that by (auto simp: distinct_concat_iff)
  have "lists_ok si t fl (Q[qp := Q ! qp @ [mp]])"
    unfolding lists_ok_def
  proof (intro conjI allI impI)
    show "length (msgh t) = msgtql si" "length (msgque t) = msgmni si" "length (Q[qp := Q ! qp @ [mp]]) = msgmni si"
      using l t by (simp_all add: lists_ok_def)
    have "path (msgh t) (msgfp s) fl = path (msgh s) (msgfp s) fl"
      using d inQ(2) [OF lastin] by (intro keep) auto
    then show "path (msgh t) (msgfp t) fl" using l t(2) by (simp add: lists_ok_def)
    fix i assume i: "i < msgmni si"
    then have iQ: "i < length Q" using l by (simp add: lists_ok_def)
    have pi: "path (msgh s) (msg_first (msgque s ! i)) (Q ! i)" using l i by (simp add: lists_ok_def)
    have mi: "mp \<notin> set (Q ! i)" using inQ(3) in_concat [OF iQ] by blast
    show "path (msgh t) (msg_first (msgque t ! i)) (Q[qp := Q ! qp @ [mp]] ! i)"
    proof (cases "i = qp")
      case False
      have "path (msgh t) (msg_first (msgque s ! i)) (Q ! i) = path (msgh s) (msg_first (msgque s ! i)) (Q ! i)"
      proof (rule keep [OF mi])
        assume "Q ! qp \<noteq> []"
        then have "last (Q ! qp) \<in> set (Q ! qp)" by simp
        then show "last (Q ! qp) \<notin> set (Q ! i)"
          using queues_disjoint [of Q qp i] d lq iQ False by (auto simp del: set_concat)
      qed
      with pi ti [OF i False] False show ?thesis by simp
    next
      case True
      have p: "path ((msgh s)[mp := h]) (msg_first (msgque s ! qp)) (Q ! qp)" using pi mi True by simp
      show ?thesis
      proof (cases "Q ! qp = []")
        case empty: True
        then show ?thesis using True lq t(1) tq(1) h lt by simp
      next
        case False
        have "last (Q ! qp) \<noteq> mp" using inQ(3) lastin [OF False] by blast
        moreover have "path ((msgh s)[mp := h, last (Q ! qp) := ((msgh s)[mp := h] ! last (Q ! qp))\<lparr>msg_next := Some mp\<rparr>])
            (msg_first (msgque s ! qp)) (Q ! qp @ [mp])"
          using p mi dQ [OF lq] inQ(1) in_concat [OF lq] lt h True False
          by (intro path_link(2)) (auto simp del: set_concat)
        ultimately show ?thesis using True False lq t(1) tq(1) by simp
      qed
    qed
    show "msg_last (msgque t ! i) = (if Q[qp := Q ! qp @ [mp]] ! i = [] then None else Some (last (Q[qp := Q ! qp @ [mp]] ! i)))"
    proof (cases "i = qp")
      case True
      show ?thesis using True lq tq(2) by simp
    qed (use l i lq ti in \<open>auto simp: lists_ok_def\<close>)
    show "msg_qnum (msgque t ! i) = u32 (int (length (Q[qp := Q ! qp @ [mp]] ! i)))"
    proof (cases "i = qp")
      case True
      have "msg_qnum (msgque s ! qp) = u32 (int (length (Q ! qp)))" using l qp by (simp add: lists_ok_def)
      then show ?thesis using True lq tq(3) by (simp add: u32_plus) (simp add: add.commute)
    qed (use l i lq ti in \<open>auto simp: lists_ok_def\<close>)
  qed
  moreover have "owned si fl (Q[qp := Q ! qp @ [mp]]) H"
    using o concat_update_mset(1) [OF lq] by (simp add: owned_def)
  moreover have "segs_ok si t (Q[qp := Q ! qp @ [mp]]) E"
  proof -
    have tn: "msgh t = (let g = (msgh s)[mp := h] in
        if Q ! qp = [] then g else g[last (Q ! qp) := (g ! last (Q ! qp))\<lparr>msg_next := Some mp\<rparr>])"
    proof (cases "Q ! qp = []")
      case False
      from inQ(3) [OF lastin [OF this]] have "mp \<noteq> last (Q ! qp)" by (rule not_sym)
      with False show ?thesis unfolding t(1) Let_def by (simp only: nth_list_update_neq not_False_eq_True if_False)
    qed (simp add: t(1))
    have hdr: "hdr_ext si (msgh t ! x) = (if x = mp then hdr_ext si h else hdr_ext si (msgh s ! x))" for x
      unfolding tn Let_def using lt by simp
    have eq: "image_mset (\<lambda>m. hdr_ext si (msgh t ! m)) (mset (concat (Q[qp := Q ! qp @ [mp]])))
        = add_mset (hdr_ext si h) (image_mset (\<lambda>m. hdr_ext si (msgh s ! m)) (mset (concat Q)))"
      (is "image_mset ?f _ = add_mset _ (image_mset ?g _)")
    proof -
      have "image_mset ?f (mset (concat Q)) = image_mset ?g (mset (concat Q))"
      proof (rule image_mset_cong)
        fix x assume "x \<in># mset (concat Q)"
        then have "x \<in> set (concat Q)" by (simp only: set_mset_mset)
        with hdr inQ(3) show "?f x = ?g x" by metis
      qed
      then show ?thesis unfolding concat_update_mset(1) [OF lq] using hdr [of mp] by simp
    qed
    have "cover (map (\<lambda>m. hdr_ext si (msgh t ! m)) (concat (Q[qp := Q ! qp @ [mp]])) @ E) u
        = cover (map (\<lambda>m. hdr_ext si (msgh s ! m)) (concat Q) @ hdr_ext si h # E) u" for u
      using eq by (intro cover_mset) simp
    with g t(3) show ?thesis by (simp add: segs_ok_def units_ok_def del: cover_append cover_Cons)
  qed
  ultimately show ?thesis by (simp add: store_ok_def)
qed

lemma store_unlink:
  assumes st: "store_ok si s fl Q H E" and qp: "qp < msgmni si" and q: "Q ! qp = A @ mp # B"
    and t: "msgh t = (if A = [] then msgh s
        else (msgh s)[last A := (msgh s ! last A)\<lparr>msg_next := msg_next (msgh s ! mp)\<rparr>])"
      "msgfp t = msgfp s" "msgmap t = msgmap s" "length (msgque t) = length (msgque s)"
    and tq: "msg_first (msgque t ! qp) = (if A = [] then msg_next (msgh s ! mp) else msg_first (msgque s ! qp))"
      "msg_last (msgque t ! qp) = (if msg_next (msgh s ! mp) = None then (if A = [] then None else Some (last A))
         else msg_last (msgque s ! qp))"
      "msg_qnum (msgque t ! qp) = u32 (msg_qnum (msgque s ! qp) - 1)"
    and ti: "\<And>i. i < msgmni si \<Longrightarrow> i \<noteq> qp \<Longrightarrow> msg_first (msgque t ! i) = msg_first (msgque s ! i)
        \<and> msg_last (msgque t ! i) = msg_last (msgque s ! i) \<and> msg_qnum (msgque t ! i) = msg_qnum (msgque s ! i)"
  shows "store_ok si t fl (Q[qp := A @ B]) (mp # H) (hdr_ext si (msgh s ! mp) # E)"
proof -
  have l: "lists_ok si s fl Q" and o: "owned si fl Q H" and g: "segs_ok si s Q E"
    using st by (simp_all add: store_ok_def)
  have d: "distinct (fl @ concat Q @ H)" using o by (rule owned_distinct)
  have lq: "qp < length Q" using l qp by (simp add: lists_ok_def)
  have inQ: "x < length (msgh s)" "x \<notin> set fl" if "x \<in> set (concat Q)" for x
    using store_range [OF st, of x] that d by (auto simp del: set_concat)
  have keep: "path (msgh t) p xs = path (msgh s) p xs" if "A \<noteq> [] \<Longrightarrow> last A \<notin> set xs" for p xs
    using that t(1) by simp
  have lastin: "A \<noteq> [] \<Longrightarrow> last A \<in> set (Q ! qp)" using q by simp
  have dQ: "distinct (A @ mp # B)"
    using d lq q by (metis distinct_append distinct_concat_iff nth_mem)
  have pq: "path (msgh s) (msg_first (msgque s ! qp)) (A @ mp # B)" using l qp q by (auto simp: lists_ok_def)
  have nx: "msg_next (msgh s ! mp) = (case B of [] \<Rightarrow> None | y # _ \<Rightarrow> Some y)" using path_next [OF pq] .
  have "lists_ok si t fl (Q[qp := A @ B])"
    unfolding lists_ok_def
  proof (intro conjI allI impI)
    show "length (msgh t) = msgtql si" "length (msgque t) = msgmni si" "length (Q[qp := A @ B]) = msgmni si"
      using l t by (simp_all add: lists_ok_def)
    have "path (msgh t) (msgfp s) fl = path (msgh s) (msgfp s) fl"
      using inQ(2) in_concat [OF lq] lastin by (intro keep) blast
    then show "path (msgh t) (msgfp t) fl" using l t(2) by (simp add: lists_ok_def)
    fix i assume i: "i < msgmni si"
    then have iQ: "i < length Q" using l by (simp add: lists_ok_def)
    have pi: "path (msgh s) (msg_first (msgque s ! i)) (Q ! i)" using l i by (simp add: lists_ok_def)
    show "path (msgh t) (msg_first (msgque t ! i)) (Q[qp := A @ B] ! i)"
    proof (cases "i = qp")
      case False
      have "path (msgh t) (msg_first (msgque s ! i)) (Q ! i) = path (msgh s) (msg_first (msgque s ! i)) (Q ! i)"
      proof (rule keep)
        assume "A \<noteq> []"
        from lastin [OF this] show "last A \<notin> set (Q ! i)"
          using queues_disjoint [of Q qp i] d lq iQ False by (auto simp del: set_concat)
      qed
      with pi ti [OF i False] False show ?thesis by simp
    next
      case True
      show ?thesis
      proof (cases "A = []")
        case empty: True
        then show ?thesis using True lq t(1) tq(1) pq by simp
      next
        case False
        have "path ((msgh s)[last A := (msgh s ! last A)\<lparr>msg_next := msg_next (msgh s ! mp)\<rparr>])
            (msg_first (msgque s ! qp)) (A @ B)"
          using pq dQ inQ(1) in_concat [OF lq] q False by (intro path_unlink) auto
        then show ?thesis using True False lq t(1) tq(1) by simp
      qed
    qed
    show "msg_last (msgque t ! i) = (if Q[qp := A @ B] ! i = [] then None else Some (last (Q[qp := A @ B] ! i)))"
    proof (cases "i = qp")
      case True
      show ?thesis using True lq tq(2) nx l qp q by (cases B) (auto simp: lists_ok_def)
    qed (use l i lq ti in \<open>auto simp: lists_ok_def\<close>)
    show "msg_qnum (msgque t ! i) = u32 (int (length (Q[qp := A @ B] ! i)))"
    proof (cases "i = qp")
      case True
      have "msg_qnum (msgque s ! qp) = u32 (int (length (A @ mp # B)))" using l qp q by (auto simp: lists_ok_def)
      then show ?thesis using True lq tq(3) by (simp add: u32_plus)
    qed (use l i lq ti in \<open>auto simp: lists_ok_def\<close>)
  qed
  moreover have "owned si fl (Q[qp := A @ B]) (mp # H)"
    using o unfolding owned_def mset_append concat_update_mset(2) [OF lq q, symmetric] by simp
  moreover have "segs_ok si t (Q[qp := A @ B]) (hdr_ext si (msgh s ! mp) # E)"
  proof -
    have same: "hdr_ext si (msgh t ! x) = hdr_ext si (msgh s ! x)" for x
      unfolding t(1) by simp
    have eq: "add_mset (hdr_ext si (msgh s ! mp)) (image_mset (\<lambda>m. hdr_ext si (msgh s ! m)) (mset (concat (Q[qp := A @ B]))))
        = image_mset (\<lambda>m. hdr_ext si (msgh s ! m)) (mset (concat Q))"
      using arg_cong [OF concat_update_mset(2) [OF lq q], of "image_mset (\<lambda>m. hdr_ext si (msgh s ! m))"]
      by (simp del: mset_concat)
    have "cover (map (\<lambda>m. hdr_ext si (msgh t ! m)) (concat (Q[qp := A @ B])) @ hdr_ext si (msgh s ! mp) # E) u
        = cover (map (\<lambda>m. hdr_ext si (msgh s ! m)) (concat Q) @ E) u" for u
      using eq by (intro cover_mset) (simp add: same)
    with g t(3) show ?thesis by (simp add: segs_ok_def units_ok_def del: cover_append cover_Cons)
  qed
  ultimately show ?thesis by (simp add: store_ok_def)
qed

end
