(* ===== verification/Message_Invariant.thy ===== *)
theory Message_Invariant
  imports Message_Lists
begin

text \<open>
  The invariant \<open>msg_core\<close> of the message queues with a list of copies in progress, the abstract
  queues \<open>msg_abs\<close> (per identifier the types and texts in order, or nothing when it is not in use),
  the steps that leave both alone (\<open>quiet\<close>), \<open>msgfree\<close>, and the search for a message: \<open>rcv_find\<close>
  returns the message that \<open>chosen\<close> specifies.
\<close>

section \<open>Removing a message\<close>

definition msg_conf :: "msginfo \<Rightarrow> bool" where
  "msg_conf si \<longleftrightarrow> 3 \<le> msgmapsz si \<and> 0 < msgmni si \<and> 0 < msgssz si \<and> 0 < msgtql si \<and> msgseg si < 4294967295"

lemma btoq_pos: "msg_conf si \<Longrightarrow> 0 < n \<Longrightarrow> 0 < btoq si n"
  by (simp add: btoq_def msg_conf_def div_greater_zero_iff)

lemma set_mode_simps [simp]:
  "msg_first (set_mode f d) = msg_first d" "msg_last (set_mode f d) = msg_last d" "msg_qnum (set_mode f d) = msg_qnum d"
  "msg_cbytes (set_mode f d) = msg_cbytes d" "msg_qbytes (set_mode f d) = msg_qbytes d"
  "ip_mode (msg_perm (set_mode f d)) = f (ip_mode (msg_perm d))" "ip_seq (msg_perm (set_mode f d)) = ip_seq (msg_perm d)"
  by (simp_all add: set_mode_def)

lemma msgfp_free_simps [simp]:
  "msgque (msgfp_free mp s) = msgque s" "msgmap (msgfp_free mp s) = msgmap s" "msgtext (msgfp_free mp s) = msgtext s"
  "msglock (msgfp_free mp s) = msglock s"
  by (simp_all add: msgfp_free_def Let_def)

lemma msgh_free: "msgh (msgfp_free mp s) = (msgh s)[mp := (msgh s ! mp)\<lparr>msg_next := msgfp s\<rparr>]"
  by (simp add: msgfp_free_def Let_def upd_mp_def)

lemma msgunlock_simps [simp]:
  "msgque (msgunlock qp s) = msgque s" "msgmap (msgunlock qp s) = msgmap s" "msgtext (msgunlock qp s) = msgtext s"
  "msgh (msgunlock qp s) = msgh s" "msgfp (msgunlock qp s) = msgfp s" "msglock (msgunlock qp s) = (msglock s)[qp := False]"
  "msg_woken (msgunlock qp s) = LockChan qp # msg_woken s"
  by (simp_all add: msgunlock_def)

text \<open>\<open>pmp\<close> is the header before \<open>mp\<close>.\<close>

definition before :: "nat list \<Rightarrow> nat option" where
  "before A = (if A = [] then None else Some (last A))"

text \<open>The state of \<open>msgfree\<close> when the header is off the queue and the senders are awake.\<close>

definition msg_unlinked :: "nat \<Rightarrow> nat option \<Rightarrow> nat \<Rightarrow> msg_state \<Rightarrow> msg_state" where
  "msg_unlinked qp pmp mp s =
     (let next = msg_next (msgh s ! mp);
          s1 = (case pmp of
                  None \<Rightarrow> upd_qp qp (\<lambda>d. d\<lparr>msg_first := next\<rparr>) s
                | Some p \<Rightarrow> upd_mp p (\<lambda>h. h\<lparr>msg_next := next\<rparr>) s);
          s2 = upd_qp qp (\<lambda>d. d\<lparr>msg_last := (if next = None then pmp else msg_last d),
                                 msg_qnum := u32 (msg_qnum d - 1)\<rparr>) s1 in
      if has_mode MSG_WWAIT qp s2
      then wake (SndChan qp) (upd_qp qp (set_mode (\<lambda>m. m AND NOT MSG_WWAIT)) s2) else s2)"

lemma msgfree_parts:
  "msgfree si qp pmp mp s =
     (let s3 = msg_unlinked qp pmp mp s in
      msgfp_free mp (if msg_ts (msgh s3 ! mp) \<noteq> 0
        then map_free (btoq si (msg_ts (msgh s3 ! mp))) (msg_spot (msgh s3 ! mp) + 1) s3 else s3))"
  by (simp add: msgfree_def msg_unlinked_def Let_def)

lemma unlinked_simps:
  "msgh (msg_unlinked qp pmp mp s) = (case pmp of None \<Rightarrow> msgh s
     | Some p \<Rightarrow> (msgh s)[p := (msgh s ! p)\<lparr>msg_next := msg_next (msgh s ! mp)\<rparr>])"
  "msgfp (msg_unlinked qp pmp mp s) = msgfp s" "msgmap (msg_unlinked qp pmp mp s) = msgmap s"
  "msglock (msg_unlinked qp pmp mp s) = msglock s" "msgtext (msg_unlinked qp pmp mp s) = msgtext s"
  "length (msgque (msg_unlinked qp pmp mp s)) = length (msgque s)"
  "i \<noteq> qp \<Longrightarrow> msgque (msg_unlinked qp pmp mp s) ! i = msgque s ! i"
  by (auto simp: msg_unlinked_def Let_def upd_qp_def upd_mp_def split: option.split)

lemma unlinked_queue:
  assumes "qp < length (msgque s)"
  shows "msg_first (msgque (msg_unlinked qp pmp mp s) ! qp) = (if pmp = None then msg_next (msgh s ! mp) else msg_first (msgque s ! qp))"
    "msg_last (msgque (msg_unlinked qp pmp mp s) ! qp) = (if msg_next (msgh s ! mp) = None then pmp else msg_last (msgque s ! qp))"
    "msg_qnum (msgque (msg_unlinked qp pmp mp s) ! qp) = u32 (msg_qnum (msgque s ! qp) - 1)"
    "msg_cbytes (msgque (msg_unlinked qp pmp mp s) ! qp) = msg_cbytes (msgque s ! qp)"
  using assms by (auto simp: msg_unlinked_def Let_def upd_qp_nth split: option.split)

lemma msgfree_store:
  assumes st: "store_ok si s fl Q H E" and si: "msg_conf si" and qp: "qp < msgmni si"
    and q: "Q ! qp = A @ mp # B" and pmp: "pmp = before A"
  shows "store_ok si (msgfree si qp pmp mp s) (mp # fl) (Q[qp := A @ B]) H E"
proof -
  let ?t = "msg_unlinked qp pmp mp s" and ?ts = "msg_ts (msgh s ! mp)" and ?a = "msg_spot (msgh s ! mp) + 1"
  have lq: "qp < length (msgque s)" using st qp by (simp add: store_ok_def lists_ok_def)
  have u: "store_ok si ?t fl (Q[qp := A @ B]) (mp # H) (hdr_ext si (msgh s ! mp) # E)"
    by (rule store_unlink [where qp = qp, OF st qp q])
      (simp_all add: unlinked_simps unlinked_queue [OF lq] pmp before_def)
  have mp: "msg_ts (msgh ?t ! mp) = ?ts" "msg_spot (msgh ?t ! mp) = msg_spot (msgh s ! mp)"
    by (cases pmp; cases "the pmp < length (msgh s)"; cases "the pmp = mp";
        simp add: unlinked_simps list_update_beyond)+
  show ?thesis
  proof (cases "?ts = 0")
    case True
    then have "store_ok si ?t fl (Q[qp := A @ B]) (mp # H) E"
      using u by (simp add: hdr_ext_def store_ok_def segs_ok_def units_ok_def)
    from store_push [OF this] show ?thesis using True mp by (simp add: msgfree_parts Let_def)
  next
    case False
    then have "store_ok si ?t fl (Q[qp := A @ B]) (mp # H) ((?a, btoq si ?ts) # E)"
      using u by (simp add: hdr_ext_def)
    from store_push [OF store_release [OF this btoq_pos [OF si]]] False si show ?thesis
      by (simp add: msgfree_parts Let_def mp msg_conf_def)
  qed
qed

lemma msgfree_frame:
  "msglock (msgfree si qp pmp mp s) = msglock s" "msgtext (msgfree si qp pmp mp s) = msgtext s"
  "length (msgque (msgfree si qp pmp mp s)) = length (msgque s)"
  "i \<noteq> qp \<Longrightarrow> msgque (msgfree si qp pmp mp s) ! i = msgque s ! i"
  by (simp_all add: msgfree_parts Let_def unlinked_simps)

lemma msgfree_queue:
  "qp < length (msgque s) \<Longrightarrow> msg_cbytes (msgque (msgfree si qp pmp mp s) ! qp) = msg_cbytes (msgque s ! qp)"
  by (simp add: msgfree_parts Let_def unlinked_queue)

text \<open>What a header says does not change, only where it leads.\<close>

definition hdr_data :: "msg \<Rightarrow> int \<times> nat \<times> nat" where
  "hdr_data h = (msg_type h, msg_ts h, msg_spot h)"

lemma hdr_data_relink [simp]: "hdr_data (h[x := (h ! x)\<lparr>msg_next := v\<rparr>] ! m) = hdr_data (h ! m)"
  by (cases "x < length h"; cases "m = x") (simp_all add: hdr_data_def list_update_beyond)

lemma hdr_data_fields: "hdr_data h = hdr_data h' \<Longrightarrow> msg_type h = msg_type h' \<and> msg_ts h = msg_ts h' \<and> msg_spot h = msg_spot h'"
  by (simp add: hdr_data_def)

lemma msgfree_data: "hdr_data (msgh (msgfree si qp pmp mp s) ! m) = hdr_data (msgh s ! m)"
  by (simp add: msgfree_parts Let_def msgh_free unlinked_simps split: option.split)

section \<open>What a call does not touch\<close>

definition quiet :: "msg_state \<Rightarrow> msg_state \<Rightarrow> bool" where
  "quiet s t \<longleftrightarrow> msgh t = msgh s \<and> msgfp t = msgfp s \<and> msgtext t = msgtext s
     \<and> free_units (msgmap t) = free_units (msgmap s) \<and> rmap_ok (msgmap t) = rmap_ok (msgmap s)
     \<and> length (msgque t) = length (msgque s)
     \<and> (\<forall>i < length (msgque s). msg_first (msgque t ! i) = msg_first (msgque s ! i)
         \<and> msg_last (msgque t ! i) = msg_last (msgque s ! i) \<and> msg_qnum (msgque t ! i) = msg_qnum (msgque s ! i)
         \<and> msg_cbytes (msgque t ! i) = msg_cbytes (msgque s ! i) \<and> has_mode IPC_ALLOC i t = has_mode IPC_ALLOC i s)"

lemma quiet_refl [simp]: "quiet s s"
  by (simp add: quiet_def)

lemma quiet_trans: "quiet a b \<Longrightarrow> quiet b c \<Longrightarrow> quiet a c"
  by (simp add: quiet_def)

lemma quiet_lock [simp]: "quiet s (t\<lparr>msglock := l\<rparr>) = quiet s t" "quiet (s\<lparr>msglock := l\<rparr>) t = quiet s t"
  by (simp_all add: quiet_def has_mode_def)

lemma quiet_wake [simp]: "quiet s (wake ch t) = quiet s t"
  by (simp add: quiet_def has_mode_def)

lemma quiet_unlock [simp]: "quiet s (msgunlock qp t) = quiet s t"
  by (simp add: msgunlock_def)

lemma quiet_upd:
  assumes "\<And>d. d = msgque s ! qp \<Longrightarrow> msg_first (f d) = msg_first d \<and> msg_last (f d) = msg_last d \<and> msg_qnum (f d) = msg_qnum d
      \<and> msg_cbytes (f d) = msg_cbytes d
      \<and> (ip_mode (msg_perm (f d)) AND IPC_ALLOC \<noteq> 0) = (ip_mode (msg_perm d) AND IPC_ALLOC \<noteq> 0)"
  shows "quiet s (upd_qp qp f s)"
  using assms by (auto simp: quiet_def has_mode_def upd_qp_nth)

lemma mode_bits:
  "((m OR MSG_RWAIT) AND IPC_ALLOC \<noteq> 0) = (m AND IPC_ALLOC \<noteq> 0)"
  "((m OR MSG_WWAIT) AND IPC_ALLOC \<noteq> 0) = (m AND IPC_ALLOC \<noteq> 0)"
  "((m AND NOT MSG_RWAIT) AND IPC_ALLOC \<noteq> 0) = (m AND IPC_ALLOC \<noteq> 0)"
  "((m AND NOT MSG_WWAIT) AND IPC_ALLOC \<noteq> 0) = (m AND IPC_ALLOC \<noteq> 0)"
  "(((m AND NOT PERM_MASK) OR (n AND PERM_MASK)) AND IPC_ALLOC \<noteq> 0) = (m AND IPC_ALLOC \<noteq> (0 :: bits))"
proof -
  have a: "(x AND IPC_ALLOC \<noteq> 0) = bit x 15" for x :: bits
    using and_exp_eq_0_iff_not_bit [of x 15] by (simp add: IPC_ALLOC_def)
  have c: "bit MSG_RWAIT 15 = False" "bit MSG_WWAIT 15 = False" "bit PERM_MASK 15 = False"
    by (simp_all add: MSG_RWAIT_def MSG_WWAIT_def PERM_MASK_def)
  show "((m OR MSG_RWAIT) AND IPC_ALLOC \<noteq> 0) = (m AND IPC_ALLOC \<noteq> 0)"
    "((m OR MSG_WWAIT) AND IPC_ALLOC \<noteq> 0) = (m AND IPC_ALLOC \<noteq> 0)"
    "((m AND NOT MSG_RWAIT) AND IPC_ALLOC \<noteq> 0) = (m AND IPC_ALLOC \<noteq> 0)"
    "((m AND NOT MSG_WWAIT) AND IPC_ALLOC \<noteq> 0) = (m AND IPC_ALLOC \<noteq> 0)"
    "(((m AND NOT PERM_MASK) OR (n AND PERM_MASK)) AND IPC_ALLOC \<noteq> 0) = (m AND IPC_ALLOC \<noteq> (0 :: bits))"
    unfolding a by (simp_all add: bit_or_iff bit_and_iff bit_not_iff c)
qed

lemmas mode_bits_simps [simp] = mode_bits [simplified not_not, THEN arg_cong [of _ _ Not], simplified not_not]

lemma flag_bits [simp]:
  "((m OR MSG_RWAIT) AND MSG_WWAIT = 0) = (m AND MSG_WWAIT = (0 :: bits))"
  "((m OR MSG_WWAIT) AND MSG_RWAIT = 0) = (m AND MSG_RWAIT = (0 :: bits))"
  "((m OR MSG_RWAIT) AND MSG_RWAIT = 0) = False" "((m OR MSG_WWAIT) AND MSG_WWAIT = 0) = False"
  "((m AND NOT MSG_RWAIT) AND MSG_WWAIT = 0) = (m AND MSG_WWAIT = 0)"
  "((m AND NOT MSG_WWAIT) AND MSG_RWAIT = 0) = (m AND MSG_RWAIT = 0)"
  "((m AND NOT MSG_RWAIT) AND MSG_RWAIT = 0) = True"
  "(((m AND NOT PERM_MASK) OR (n AND PERM_MASK)) AND MSG_RWAIT = 0) = (m AND MSG_RWAIT = 0)"
  "(((m AND NOT PERM_MASK) OR (n AND PERM_MASK)) AND MSG_WWAIT = 0) = (m AND MSG_WWAIT = 0)"
proof -
  have r: "(x AND MSG_RWAIT = 0) = (\<not> bit x 9)" for x :: bits
    using and_exp_eq_0_iff_not_bit [of x 9] by (simp add: MSG_RWAIT_def)
  have w: "(x AND MSG_WWAIT = 0) = (\<not> bit x 10)" for x :: bits
    using and_exp_eq_0_iff_not_bit [of x 10] by (simp add: MSG_WWAIT_def)
  have c: "bit MSG_RWAIT 9 = True" "bit MSG_WWAIT 9 = False" "bit MSG_RWAIT 10 = False" "bit MSG_WWAIT 10 = True"
    "bit PERM_MASK 9 = False" "bit PERM_MASK 10 = False"
    by (simp_all add: MSG_RWAIT_def MSG_WWAIT_def PERM_MASK_def)
  show "((m OR MSG_RWAIT) AND MSG_WWAIT = 0) = (m AND MSG_WWAIT = (0 :: bits))"
    "((m OR MSG_WWAIT) AND MSG_RWAIT = 0) = (m AND MSG_RWAIT = (0 :: bits))"
    "((m OR MSG_RWAIT) AND MSG_RWAIT = 0) = False" "((m OR MSG_WWAIT) AND MSG_WWAIT = 0) = False"
    "((m AND NOT MSG_RWAIT) AND MSG_WWAIT = 0) = (m AND MSG_WWAIT = 0)"
    "((m AND NOT MSG_WWAIT) AND MSG_RWAIT = 0) = (m AND MSG_RWAIT = 0)"
    "((m AND NOT MSG_RWAIT) AND MSG_RWAIT = 0) = True"
    "(((m AND NOT PERM_MASK) OR (n AND PERM_MASK)) AND MSG_RWAIT = 0) = (m AND MSG_RWAIT = 0)"
    "(((m AND NOT PERM_MASK) OR (n AND PERM_MASK)) AND MSG_WWAIT = 0) = (m AND MSG_WWAIT = 0)"
    unfolding r w by (simp_all add: bit_or_iff bit_and_iff bit_not_iff c)
qed

lemma flags_nonzero [simp]: "MSG_RWAIT \<noteq> 0" "MSG_WWAIT \<noteq> 0"
  by (simp_all add: MSG_RWAIT_def MSG_WWAIT_def)

lemma quiet_mode [simp]:
  "quiet s (upd_qp qp (set_mode (\<lambda>m. m OR MSG_RWAIT)) s)" "quiet s (upd_qp qp (set_mode (\<lambda>m. m OR MSG_WWAIT)) s)"
  "quiet s (upd_qp qp (set_mode (\<lambda>m. m AND NOT MSG_WWAIT)) s)" "quiet s (upd_qp qp (set_mode (\<lambda>m. m AND NOT MSG_RWAIT)) s)"
  by (intro quiet_upd; simp add: mode_bits)+

section \<open>The invariant\<close>

text \<open>
  Which message a receive of type \<open>t\<close> takes from the types of a queue: the first one, the
  first of type \<open>t\<close>, or the first of the lowest type up to \<open>-t\<close>.
\<close>

definition eligible :: "int \<Rightarrow> int \<Rightarrow> bool" where
  "eligible t x \<longleftrightarrow> t = 0 \<or> (if 0 < t then x = t else x \<le> s32 (- t))"

definition chosen :: "int \<Rightarrow> int list \<Rightarrow> int \<Rightarrow> int list \<Rightarrow> bool" where
  "chosen t xs x ys \<longleftrightarrow> eligible t x \<and> (if 0 \<le> t then (\<forall>y \<in> set xs. \<not> eligible t y)
     else (\<forall>y \<in> set xs. x < y) \<and> (\<forall>y \<in> set ys. x \<le> y))"

definition types :: "msg list \<Rightarrow> nat list \<Rightarrow> int list" where
  "types h xs = map (\<lambda>m. msg_type (h ! m)) xs"

definition cp_hdrs :: "msg_copy \<Rightarrow> nat list" where
  "cp_hdrs cp = (case cp of SndCopy a qp mp spot ty \<Rightarrow> [mp] | RcvCopy a qp pmp mp sz \<Rightarrow> [])"

definition cp_exts :: "msginfo \<Rightarrow> msg_copy \<Rightarrow> (nat \<times> nat) list" where
  "cp_exts si cp = (case cp of
      SndCopy a qp mp spot ty \<Rightarrow> if snd_cnt a = 0 then [] else [(spot, btoq si (snd_cnt a))]
    | RcvCopy a qp pmp mp sz \<Rightarrow> [])"

definition rcv_size :: "msgrcv_args \<Rightarrow> nat \<Rightarrow> nat \<Rightarrow> bool" where
  "rcv_size a ts sz \<longleftrightarrow> (if u32 (mr_msgsz a) < int ts then mr_msgflg a AND MSG_NOERROR \<noteq> 0 \<and> sz = nat (u32 (mr_msgsz a)) else sz = ts)"

definition cp_ok :: "msg_state \<Rightarrow> nat list list \<Rightarrow> msg_copy \<Rightarrow> bool" where
  "cp_ok s Q cp \<longleftrightarrow> (case cp of
      SndCopy a qp mp spot ty \<Rightarrow> True
    | RcvCopy a qp pmp mp sz \<Rightarrow> \<exists>A B. Q ! qp = A @ mp # B \<and> pmp = before A
        \<and> chosen (mr_msgtyp a) (types (msgh s) A) (msg_type (msgh s ! mp)) (types (msgh s) B) \<and> rcv_size a (msg_ts (msgh s ! mp)) sz)"

definition msg_core :: "msginfo \<Rightarrow> msg_state \<Rightarrow> nat list \<Rightarrow> nat list list \<Rightarrow> msg_copy list \<Rightarrow> bool" where
  "msg_core si s fl Q C \<longleftrightarrow> store_ok si s fl Q (concat (map cp_hdrs C)) (concat (map (cp_exts si) C))
     \<and> (\<forall>i < msgmni si. msg_cbytes (msgque s ! i) = u32 (\<Sum>m\<leftarrow>Q ! i. int (msg_ts (msgh s ! m)))
          \<and> (has_mode IPC_ALLOC i s \<or> Q ! i = []))
     \<and> (\<forall>cp \<in> set C. cp_qp cp < msgmni si \<and> has_mode IPC_ALLOC (cp_qp cp) s \<and> cp_ok s Q cp)"

definition lock_ok :: "msginfo \<Rightarrow> msg_state \<Rightarrow> msg_copy list \<Rightarrow> bool" where
  "lock_ok si s C \<longleftrightarrow> length (msglock s) = msgmni si
     \<and> (\<forall>i < msgmni si. length (filter (\<lambda>cp. cp_qp cp = i) C) = of_bool (msglock s ! i))"

lemma core_lists: "msg_core si s fl Q C \<Longrightarrow> length (msgque s) = msgmni si \<and> length Q = msgmni si \<and> length (msgh s) = msgtql si"
  by (simp add: msg_core_def store_ok_def lists_ok_def)

lemma core_path:
  "msg_core si s fl Q C \<Longrightarrow> i < msgmni si \<Longrightarrow> path (msgh s) (msg_first (msgque s ! i)) (Q ! i)"
  by (simp add: msg_core_def store_ok_def lists_ok_def)

lemma core_quiet: "quiet s t \<Longrightarrow> msg_core si s fl Q C \<Longrightarrow> msg_core si t fl Q C"
proof -
  assume q: "quiet s t" and c: "msg_core si s fl Q C"
  have n: "length (msgque s) = msgmni si" using core_lists [OF c] by simp
  have h: "msgh t = msgh s" and m: "\<And>i. i < msgmni si \<Longrightarrow> has_mode IPC_ALLOC i t = has_mode IPC_ALLOC i s"
    "\<And>i. i < msgmni si \<Longrightarrow> msg_cbytes (msgque t ! i) = msg_cbytes (msgque s ! i)"
    using q n by (simp_all add: quiet_def)
  have "store_ok si t fl Q H E = store_ok si s fl Q H E" for H E
    using q by (intro store_cong) (simp_all add: quiet_def)
  moreover have "cp_ok t Q cp = cp_ok s Q cp" for cp unfolding cp_ok_def h by (rule refl)
  ultimately show ?thesis using c unfolding msg_core_def h by (simp add: m)
qed

lemma length_le_headers:
  assumes "msg_core si s fl Q C" and "i < msgmni si"
  shows "length (Q ! i) \<le> msgtql si" "distinct (Q ! i)" "m \<in> set (Q ! i) \<Longrightarrow> m < msgtql si"
proof -
  have o: "owned si fl Q (concat (map cp_hdrs C))" using assms(1) by (simp add: msg_core_def store_ok_def)
  have i: "i < length Q" using core_lists [OF assms(1)] assms(2) by simp
  show lt: "m < msgtql si" if "m \<in> set (Q ! i)" for m
    using owned_range [OF o, of m] in_concat [OF i that] by simp
  show d: "distinct (Q ! i)" using owned_distinct [OF o] i by (auto simp: distinct_concat_iff)
  have "card (set (Q ! i)) \<le> card {..< msgtql si}" using lt by (intro card_mono) auto
  then show "length (Q ! i) \<le> msgtql si" using d by (simp add: distinct_card)
qed

section \<open>The abstract queues\<close>

text \<open>\<open>None\<close> an identifier not in use, otherwise the messages with their type and text.\<close>

type_synonym mqueue = "(int \<times> byte list) list"

definition msg_entry :: "msginfo \<Rightarrow> msg_state \<Rightarrow> nat \<Rightarrow> int \<times> byte list" where
  "msg_entry si s m = (let h = msgh s ! m in (msg_type h, text_bytes si (msgtext s) (msg_spot h) (msg_ts h)))"

definition msg_abs :: "msginfo \<Rightarrow> msg_state \<Rightarrow> mqueue option list" where
  "msg_abs si s = map (\<lambda>i. if has_mode IPC_ALLOC i s
     then Some (map (msg_entry si s) (chain (msgtql si) (msgh s) (msg_first (msgque s ! i)))) else None) [0 ..< msgmni si]"

lemma abs_core:
  "msg_core si s fl Q C \<Longrightarrow>
   msg_abs si s = map (\<lambda>i. if has_mode IPC_ALLOC i s then Some (map (msg_entry si s) (Q ! i)) else None) [0 ..< msgmni si]"
  unfolding msg_abs_def by (intro map_cong refl) (simp add: path_chain [OF core_path length_le_headers(1)])

lemma abs_quiet: "quiet s t \<Longrightarrow> length (msgque s) = msgmni si \<Longrightarrow> msg_abs si t = msg_abs si s"
  by (auto simp: msg_abs_def quiet_def msg_entry_def Let_def)

section \<open>Finding a message\<close>

definition found :: "msg list \<Rightarrow> int \<Rightarrow> nat list \<Rightarrow> nat option \<times> nat option \<Rightarrow> bool" where
  "found h t xs r \<longleftrightarrow> (case r of
      (p, None) \<Rightarrow> (\<forall>x \<in> set xs. \<not> eligible t (msg_type (h ! x)))
    | (p, Some m) \<Rightarrow> (\<exists>A B. xs = A @ m # B \<and> p = before A \<and> chosen t (types h A) (msg_type (h ! m)) (types h B)))"

lemma found_None: "found h t xs (p, None) \<longleftrightarrow> (\<forall>x \<in> set xs. \<not> eligible t (msg_type (h ! x)))"
  by (simp add: found_def)

lemma found_Some:
  "found h t xs (p, Some m) \<longleftrightarrow> (\<exists>A B. xs = A @ m # B \<and> p = before A \<and> chosen t (types h A) (msg_type (h ! m)) (types h B))"
  by (simp add: found_def)

lemma types_simps [simp]:
  "types h [] = []" "types h (x # xs) = msg_type (h ! x) # types h xs" "types h (xs @ ys) = types h xs @ types h ys"
  "set (types h xs) = (\<lambda>m. msg_type (h ! m)) ` set xs"
  by (simp_all add: types_def)

text \<open>One turn of the search for the lowest type.\<close>

lemma found_next:
  assumes f: "found h t A best" and t: "t < 0"
  shows "found h t (A @ [x]) (if msg_type (h ! x) \<le> s32 (- t)
      \<and> \<not> (case snd best of None \<Rightarrow> False | Some b \<Rightarrow> msg_type (h ! b) \<le> msg_type (h ! x)) then (before A, Some x) else best)"
proof -
  obtain p b where best: "best = (p, b)" by (cases best)
  show ?thesis
  proof (cases b)
    case None
    have no: "\<forall>y \<in> set A. \<not> eligible t (msg_type (h ! y))" using f by (simp add: best None found_None)
    show ?thesis
    proof (cases "eligible t (msg_type (h ! x))")
      case True
      have "chosen t (types h A) (msg_type (h ! x)) (types h [])"
        using True no t by (auto simp: chosen_def eligible_def)
      then have "found h t (A @ [x]) (before A, Some x)" unfolding found_Some by blast
      then show ?thesis using True t by (simp add: best None eligible_def)
    next
      case False
      then have "found h t (A @ [x]) best" using no by (auto simp: best None found_None)
      then show ?thesis using False t by (simp add: best None eligible_def)
    qed
  next
    case (Some m)
    from f obtain A1 A2 where A: "A = A1 @ m # A2" and p: "p = before A1"
      and ch: "chosen t (types h A1) (msg_type (h ! m)) (types h A2)"
      by (auto simp: best Some found_Some)
    show ?thesis
    proof (cases "msg_type (h ! m) \<le> msg_type (h ! x)")
      case True
      then have "chosen t (types h A1) (msg_type (h ! m)) (types h (A2 @ [x]))"
        using ch t by (auto simp: chosen_def)
      moreover have "A @ [x] = A1 @ m # (A2 @ [x])" using A by simp
      ultimately have "found h t (A @ [x]) best" unfolding best Some found_Some using p by blast
      then show ?thesis using True by (simp add: best Some)
    next
      case False
      then have e: "msg_type (h ! x) \<le> s32 (- t)" using ch t by (simp add: chosen_def eligible_def)
      have "chosen t (types h A) (msg_type (h ! x)) (types h [])"
        using ch False t A e by (auto simp: chosen_def eligible_def)
      then have "found h t (A @ [x]) (before A, Some x)" unfolding found_Some by blast
      then show ?thesis using False e by (simp add: best Some)
    qed
  qed
qed

lemma rcv_scan_spec:
  assumes "path h mp xs" and "length xs \<le> n" and "t \<noteq> 0"
    and "found h t A best" and "0 < t \<Longrightarrow> snd best = None"
  shows "found h t (A @ xs) (rcv_scan n h t (before A) mp best)"
  using assms
proof (induction xs arbitrary: n A mp best)
  case Nil
  then show ?case by (cases n) simp_all
next
  case (Cons x xs)
  obtain k where n: "n = Suc k" using Cons.prems(2) by (cases n) auto
  have mp: "mp = Some x" "path h (msg_next (h ! x)) xs" "length xs \<le> k" using Cons.prems(1,2) n by simp_all
  have bx: "before (A @ [x]) = Some x" by (simp add: before_def)
  note IH = Cons.IH [of "msg_next (h ! x)" k "A @ [x]", OF mp(2,3) Cons.prems(3), unfolded bx append_assoc append_Cons append_Nil]
  from Cons.prems(3) consider "0 < t" | "t < 0" by linarith
  then show ?case
  proof cases
    case 1
    have no: "\<forall>y \<in> set A. \<not> eligible t (msg_type (h ! y))" and b: "snd best = None"
      using Cons.prems(4,5) 1 by (cases best; simp add: found_None)+
    show ?thesis
    proof (cases "t = msg_type (h ! x)")
      case True
      have "chosen t (types h A) (msg_type (h ! x)) (types h xs)"
        using no True 1 by (simp add: chosen_def eligible_def)
      then have "found h t (A @ x # xs) (before A, Some x)" unfolding found_Some by blast
      then show ?thesis using n mp True 1 by simp
    next
      case False
      have "found h t (A @ [x]) best" using no b False 1 by (cases best) (auto simp: found_None eligible_def)
      from IH [OF this b] show ?thesis using n mp False 1 by simp
    qed
  next
    case 2
    from IH [OF found_next [OF Cons.prems(4) 2]] 2 show ?thesis using n mp by simp
  qed
qed

lemma rcv_find_spec:
  assumes c: "msg_core si s fl Q C" and qp: "qp < msgmni si"
  shows "found (msgh s) t (Q ! qp) (rcv_find si t qp s)"
proof (cases "t = 0")
  case True
  have p: "path (msgh s) (msg_first (msgque s ! qp)) (Q ! qp)" by (rule core_path [OF c qp])
  show ?thesis
  proof (cases "Q ! qp")
    case Nil
    with p True show ?thesis by (simp add: rcv_find_def found_def)
  next
    case (Cons m B)
    with p True have "rcv_find si t qp s = (None, Some m)" by (simp add: rcv_find_def)
    moreover have "Q ! qp = [] @ m # B" "None = before []" "chosen t (types (msgh s) []) (msg_type (msgh s ! m)) (types (msgh s) B)"
      using Cons True by (simp_all add: before_def chosen_def eligible_def types_def)
    ultimately show ?thesis unfolding found_def by (simp only: prod.case option.case) blast
  qed
next
  case False
  have "rcv_find si t qp s = rcv_scan (msgtql si) (msgh s) t None (msg_first (msgque s ! qp)) (None, None)"
    using False by (simp add: rcv_find_def)
  moreover have "None = before []" by (simp add: before_def)
  ultimately show ?thesis
    using rcv_scan_spec [OF core_path [OF c qp] length_le_headers(1) [OF c qp] False, of "[]" "(None, None)"]
    by (simp add: found_None)
qed

end
