(* ===== verification/Message_Steps.thy ===== *)
theory Message_Steps
  imports Message_Invariant
begin

text \<open>
  The abstract steps of the queues, and the parts of \<open>msg.c\<close> against them: removing and making a
  queue, finding a message, the end of the copy of a received message, and the start of a send.
  \<open>msg_goes\<close> says that a step keeps the invariant and is the given abstract step.
\<close>

section \<open>Abstract steps\<close>

datatype mq_event = Keep | Create nat | Destroy nat | Sent nat "int \<times> byte list" | Taken nat int "int \<times> byte list"

fun mq_next :: "mq_event \<Rightarrow> mqueue option list \<Rightarrow> mqueue option list \<Rightarrow> bool" where
  "mq_next Keep M M' \<longleftrightarrow> M' = M"
| "mq_next (Create i) M M' \<longleftrightarrow> i < length M \<and> M ! i = None \<and> M' = M[i := Some []]"
| "mq_next (Destroy i) M M' \<longleftrightarrow> i < length M \<and> M ! i \<noteq> None \<and> M' = M[i := None]"
| "mq_next (Sent i x) M M' \<longleftrightarrow> i < length M \<and> (\<exists>q. M ! i = Some q \<and> M' = M[i := Some (q @ [x])])"
| "mq_next (Taken i t x) M M' \<longleftrightarrow> i < length M \<and> (\<exists>A B. M ! i = Some (A @ x # B)
     \<and> chosen t (map fst A) (fst x) (map fst B) \<and> M' = M[i := Some (A @ B)])"

text \<open>What the step of a call answers.\<close>

definition answers :: "mq_event \<Rightarrow> msg_out option \<Rightarrow> bool" where
  "answers e out \<longleftrightarrow> (case e of
      Keep \<Rightarrow> (\<forall>ty bs. out \<noteq> Some (Ret (Ok (MMsg ty bs))))
    | Create i \<Rightarrow> (\<exists>ident. out = Some (Ret (Ok (MVal ident))))
    | Destroy i \<Rightarrow> out = Some (Ret (Ok (MVal 0)))
    | Sent i x \<Rightarrow> out = Some (Ret (Ok (MVal 0)))
    | Taken i t x \<Rightarrow> (\<exists>n. out = Some (Ret (Ok (MMsg (fst x) (take n (snd x)))))))"

section \<open>Calls that leave the messages alone\<close>

definition out_copies :: "msg_out \<Rightarrow> msg_copy list" where
  "out_copies out = (case out of Copying cp \<Rightarrow> [cp] | _ \<Rightarrow> [])"

lemma out_copies_simps [simp]: "out_copies (Ret r) = []" "out_copies (Sleep ch k) = []" "out_copies (Copying cp) = [cp]"
  by (simp_all add: out_copies_def)

definition msg_calm :: "msg_state \<Rightarrow> msg_out \<Rightarrow> msg_state \<Rightarrow> bool" where
  "msg_calm s out t \<longleftrightarrow> out_copies out = [] \<and> quiet s t \<and> msglock t = msglock s"

abbreviation locked :: "nat \<Rightarrow> msg_state \<Rightarrow> msg_state" where
  "locked qp s \<equiv> s\<lparr>msglock := (msglock s)[qp := True]\<rparr>"

lemma unlock_restore: "\<not> l ! i \<Longrightarrow> l[i := False] = l"
  by (metis list_update_id)

lemma leave_calm:
  assumes "quiet s t" and "msglock t = (msglock s)[qp := True]" and "\<not> msglock s ! qp"
  shows "leave qp r t = (out, s') \<Longrightarrow> msg_calm s out s'" and "doze qp ch k t = (out, s') \<Longrightarrow> msg_calm s out s'"
  using assms by (auto simp: leave_def doze_def msg_calm_def unlock_restore)

lemma msgconv_cases:
  assumes "msgconv si ident s = (r, t)" and "msg_conf si"
  obtains "r = ConvErr" "quiet s t" "msglock t = msglock s"
  | q where "r = ConvWait q" "t = s" "q < msgmni si" "msglock s ! q"
  | qp where "r = ConvOk qp" "t = locked qp s" "qp < msgmni si" "\<not> msglock s ! qp" "has_mode IPC_ALLOC qp s" "0 \<le> ident"
      "qp = nat (ident mod int (msgmni si))" "ident div int (msgmni si) = ip_seq (msg_perm (msgque s ! qp))"
proof -
  let ?qp = "nat (ident mod int (msgmni si))"
  have lt: "?qp < msgmni si" using assms(2) by (simp add: msg_conf_def nat_less_iff)
  show thesis
    using assms(1) lt that by (auto simp: msgconv_def Let_def unlock_restore split: if_splits)
qed

lemma relock_cases:
  assumes "relock si ident qp k go s = (out, t)" and "msg_conf si"
  obtains "msg_calm s out t" | "qp < msgmni si" "\<not> msglock s ! qp" "has_mode IPC_ALLOC qp s" "go (locked qp s) = (out, t)"
proof -
  obtain r s1 where conv: "msgconv si ident s = (r, s1)" by (cases "msgconv si ident s")
  from conv assms(2) show thesis
  proof (cases rule: msgconv_cases)
    case 1
    then show thesis using assms(1) conv that(1) by (auto simp: relock_def msg_calm_def)
  next
    case (2 q)
    then show thesis using assms(1) conv that(1) by (auto simp: relock_def msg_calm_def)
  next
    case (3 qp1)
    show thesis
    proof (cases "qp1 = qp")
      case True
      then show thesis using 3 assms(1) conv that(2) by (auto simp: relock_def)
    next
      case False
      then have "leave qp1 (Err EIDRM) (locked qp1 s) = (out, t)" using 3(1,2) assms(1) conv by (simp add: relock_def)
      from leave_calm(1) [OF _ _ 3(4) this] show thesis by (intro that(1)) simp
    qed
  qed
qed

section \<open>The invariant under the steps\<close>

definition msg_inv :: "msginfo \<Rightarrow> msg_state \<Rightarrow> msg_copy list \<Rightarrow> bool" where
  "msg_inv si s C \<longleftrightarrow> (\<exists>fl Q. msg_core si s fl Q C) \<and> lock_ok si s C"

text \<open>A step to \<open>t\<close> with the copies \<open>C'\<close>: the invariant again, and an abstract step.\<close>

definition msg_goes :: "msginfo \<Rightarrow> msg_state \<Rightarrow> mq_event \<Rightarrow> msg_state \<Rightarrow> msg_copy list \<Rightarrow> bool" where
  "msg_goes si s e t C' \<longleftrightarrow> msg_inv si t C' \<and> mq_next e (msg_abs si s) (msg_abs si t)"

lemma msg_invI: "msg_core si s fl Q C \<Longrightarrow> lock_ok si s C \<Longrightarrow> msg_inv si s C"
  by (auto simp: msg_inv_def)

lemma inv_len: "msg_inv si s C \<Longrightarrow> length (msgque s) = msgmni si \<and> length (msglock s) = msgmni si \<and> length (msgh s) = msgtql si"
  by (auto simp: msg_inv_def lock_ok_def dest: core_lists)

lemma goes_calm: "msg_inv si s C \<Longrightarrow> msg_calm s out t \<Longrightarrow> msg_goes si s Keep t (out_copies out @ C)"
proof -
  assume inv: "msg_inv si s C" and msg_calm: "msg_calm s out t"
  from inv obtain fl Q where c: "msg_core si s fl Q C" and l: "lock_ok si s C" by (auto simp: msg_inv_def)
  from msg_calm have q: "quiet s t" and e: "msglock t = msglock s" "out_copies out = []" by (simp_all add: msg_calm_def)
  have "lock_ok si t C" using l e by (simp add: lock_ok_def)
  then have "msg_inv si t C" using core_quiet [OF q c] by (auto simp: msg_inv_def)
  then show ?thesis using abs_quiet [OF q] core_lists [OF c] e by (simp add: msg_goes_def)
qed

lemma lock_free: "lock_ok si s C \<Longrightarrow> i < msgmni si \<Longrightarrow> \<not> msglock s ! i \<Longrightarrow> cp \<in> set C \<Longrightarrow> cp_qp cp \<noteq> i"
  unfolding lock_ok_def by (metis (mono_tags, lifting) filter_empty_conv length_0_conv of_bool_eq(1))

lemma lock_ok_cong: "lock_ok si s C \<Longrightarrow> msglock t = msglock s \<Longrightarrow> lock_ok si t C"
  by (simp add: lock_ok_def)

lemma lock_take:
  "lock_ok si s C \<Longrightarrow> cp_qp cp = i \<Longrightarrow> i < msgmni si \<Longrightarrow> \<not> msglock s ! i \<Longrightarrow> msglock t = (msglock s)[i := True] \<Longrightarrow> lock_ok si t (cp # C)"
  by (auto simp: lock_ok_def nth_list_update)

lemma lock_drop:
  "lock_ok si s (cp # C) \<Longrightarrow> cp_qp cp = i \<Longrightarrow> i < msgmni si \<Longrightarrow> msglock t = (msglock s)[i := False] \<Longrightarrow> lock_ok si t C"
  unfolding lock_ok_def
proof (elim conjE, intro conjI allI impI)
  assume cp: "cp_qp cp = i" and i: "i < msgmni si" and t: "msglock t = (msglock s)[i := False]"
    and len: "length (msglock s) = msgmni si"
    and all: "\<forall>i<msgmni si. length (filter (\<lambda>cp. cp_qp cp = i) (cp # C)) = of_bool (msglock s ! i)"
  show "length (msglock t) = msgmni si" using t len by simp
  fix j assume j: "j < msgmni si"
  show "length (filter (\<lambda>cp. cp_qp cp = j) C) = of_bool (msglock t ! j)"
    using all [rule_format, OF j] cp t len j i by (cases "j = i"; cases "msglock s ! j") (auto split: if_splits)
qed

lemma lock_one:
  assumes "lock_ok si s (cp # C)" and "cp_qp cp = i" and "i < msgmni si" and "cp' \<in> set C"
  shows "cp_qp cp' \<noteq> i"
proof -
  have "length (filter (\<lambda>cp. cp_qp cp = i) (cp # C)) = of_bool (msglock s ! i)"
    using assms(1,3) unfolding lock_ok_def by blast
  then have "Suc (length (filter (\<lambda>cp. cp_qp cp = i) C)) \<le> 1" using assms(2) by (cases "msglock s ! i") simp_all
  then have "filter (\<lambda>cp. cp_qp cp = i) C = []" by simp
  with assms(4) show ?thesis by (auto simp only: filter_empty_conv)
qed

text \<open>A change of one queue that no copy works on.\<close>

lemma core_change:
  assumes c: "msg_core si s fl Q C" and cps: "set C' \<subseteq> set C" "\<And>cp. cp \<in> set C' \<Longrightarrow> cp_qp cp \<noteq> qp"
    and st: "store_ok si t fl' (Q[qp := q]) (concat (map cp_hdrs C')) (concat (map (cp_exts si) C'))"
    and qp: "qp < msgmni si"
    and data: "\<And>m. m \<in> set (concat Q) \<Longrightarrow> hdr_data (msgh t ! m) = hdr_data (msgh s ! m)"
    and oth: "\<And>i. i < msgmni si \<Longrightarrow> i \<noteq> qp \<Longrightarrow> msg_cbytes (msgque t ! i) = msg_cbytes (msgque s ! i)
        \<and> has_mode IPC_ALLOC i t = has_mode IPC_ALLOC i s"
    and new: "msg_cbytes (msgque t ! qp) = u32 (\<Sum>m\<leftarrow>q. int (msg_ts (msgh t ! m)))" "has_mode IPC_ALLOC qp t \<or> q = []"
  shows "msg_core si t fl' (Q[qp := q]) C'"
proof -
  have lq: "length Q = msgmni si" using core_lists [OF c] by simp
  have ts: "msg_ts (msgh t ! m) = msg_ts (msgh s ! m)" "msg_type (msgh t ! m) = msg_type (msgh s ! m)" if "m \<in> set (concat Q)" for m
    using hdr_data_fields [OF data [OF that]] by auto
  have per: "msg_cbytes (msgque t ! i) = u32 (\<Sum>m\<leftarrow>Q[qp := q] ! i. int (msg_ts (msgh t ! m)))
      \<and> (has_mode IPC_ALLOC i t \<or> Q[qp := q] ! i = [])" if i: "i < msgmni si" for i
  proof (cases "i = qp")
    case True
    then show ?thesis using new lq qp by simp
  next
    case False
    have "map (\<lambda>m. int (msg_ts (msgh t ! m))) (Q ! i) = map (\<lambda>m. int (msg_ts (msgh s ! m))) (Q ! i)"
      using ts(1) in_concat [of i Q] i lq by (intro map_cong refl) simp
    moreover have "msg_cbytes (msgque s ! i) = u32 (\<Sum>m\<leftarrow>Q ! i. int (msg_ts (msgh s ! m))) \<and> (has_mode IPC_ALLOC i s \<or> Q ! i = [])"
      using c i by (simp add: msg_core_def)
    ultimately show ?thesis using oth [OF i False] False by (simp only: nth_list_update_neq not_sym)
  qed
  have copies: "cp_qp cp < msgmni si \<and> has_mode IPC_ALLOC (cp_qp cp) t \<and> cp_ok t (Q[qp := q]) cp" if "cp \<in> set C'" for cp
  proof -
    have ne: "cp_qp cp \<noteq> qp" using cps(2) that .
    have old: "cp_qp cp < msgmni si" "has_mode IPC_ALLOC (cp_qp cp) s" "cp_ok s Q cp"
      using c cps(1) that by (auto simp: msg_core_def)
    have ty: "types (msgh t) xs = types (msgh s) xs" if "set xs \<subseteq> set (concat Q)" for xs
      using ts(2) that unfolding types_def by (intro map_cong refl) blast
    have "cp_ok t (Q[qp := q]) cp"
    proof (cases cp)
      case (RcvCopy a r pmp mp sz)
      with old(3) obtain A B where AB: "Q ! r = A @ mp # B" "pmp = before A"
        "chosen (mr_msgtyp a) (types (msgh s) A) (msg_type (msgh s ! mp)) (types (msgh s) B)" "rcv_size a (msg_ts (msgh s ! mp)) sz"
        by (auto simp: cp_ok_def)
      have sub: "x \<in> set (concat Q)" if "x \<in> set (A @ mp # B)" for x
        using AB(1) in_concat [of r Q x] that old(1) lq RcvCopy by simp
      have "Q[qp := q] ! r = A @ mp # B" using AB(1) ne RcvCopy by simp
      moreover have "types (msgh t) A = types (msgh s) A" "types (msgh t) B = types (msgh s) B" using sub by (auto intro!: ty)
      moreover have "msg_type (msgh t ! mp) = msg_type (msgh s ! mp)" "msg_ts (msgh t ! mp) = msg_ts (msgh s ! mp)"
        using ts sub by simp_all
      ultimately show ?thesis using AB unfolding RcvCopy cp_ok_def msg_copy.case
        by (intro exI [of _ A] exI [of _ B] conjI) simp_all
    qed (simp add: cp_ok_def)
    then show ?thesis using old oth [OF old(1) ne] by simp
  qed
  show ?thesis unfolding msg_core_def using st per copies by simp
qed

text \<open>What such a change is for the abstract queues.\<close>

lemma entry_data:
  "hdr_data (msgh t ! m) = hdr_data (msgh s ! m) \<Longrightarrow> msgtext t = msgtext s \<Longrightarrow> msg_entry si t m = msg_entry si s m"
  using hdr_data_fields [of "msgh t ! m" "msgh s ! m"] by (simp add: msg_entry_def Let_def)

lemma abs_change:
  assumes c: "msg_core si s fl Q C" and c': "msg_core si t fl' (Q[qp := q]) C'" and qp: "qp < msgmni si"
    and same: "\<And>m. m \<in> set (concat Q) \<Longrightarrow> msg_entry si t m = msg_entry si s m"
    and oth: "\<And>i. i < msgmni si \<Longrightarrow> i \<noteq> qp \<Longrightarrow> has_mode IPC_ALLOC i t = has_mode IPC_ALLOC i s"
  shows "msg_abs si t = (msg_abs si s)[qp := (if has_mode IPC_ALLOC qp t then Some (map (msg_entry si t) q) else None)]"
proof (rule nth_equalityI)
  fix i assume "i < length (msg_abs si t)"
  then have i: "i < msgmni si" by (simp add: msg_abs_def)
  have lq: "length Q = msgmni si" using core_lists [OF c] by simp
  have "map (msg_entry si t) (Q ! i) = map (msg_entry si s) (Q ! i)"
    using same in_concat [of i Q] i lq by (intro map_cong refl) simp
  then show "msg_abs si t ! i = (msg_abs si s)[qp := (if has_mode IPC_ALLOC qp t then Some (map (msg_entry si t) q) else None)] ! i"
    using i lq oth [OF i] by (cases "i = qp") (simp_all add: abs_core [OF c] abs_core [OF c'])
qed (simp add: msg_abs_def)

lemma abs_nth: "msg_core si s fl Q C \<Longrightarrow> i < msgmni si \<Longrightarrow>
  msg_abs si s ! i = (if has_mode IPC_ALLOC i s then Some (map (msg_entry si s) (Q ! i)) else None)"
  by (simp add: abs_core)

section \<open>Removing a queue\<close>

lemma rmid_msgs_store:
  assumes "store_ok si s fl Q H E" and "msg_conf si" and "qp < msgmni si" and "length (Q ! qp) \<le> n"
  shows "\<exists>fl'. store_ok si (rmid_msgs n si qp s) fl' (Q[qp := []]) H E"
  using assms
proof (induction n arbitrary: s fl Q)
  case 0
  moreover have "Q[qp := []] = Q" using 0(4) by (metis length_0_conv le_zero_eq list_update_id)
  ultimately show ?case by auto
next
  case (Suc n)
  have p: "path (msgh s) (msg_first (msgque s ! qp)) (Q ! qp)" and lq: "qp < length Q"
    using Suc.prems(1,3) by (auto simp: store_ok_def lists_ok_def)
  show ?case
  proof (cases "Q ! qp")
    case Nil
    moreover have "Q[qp := []] = Q" using Nil by (metis list_update_id)
    ultimately show ?thesis using p Suc.prems(1) by auto
  next
    case (Cons m B)
    have "store_ok si (msgfree si qp None m s) (m # fl) (Q[qp := [] @ B]) H E"
      by (rule msgfree_store [OF Suc.prems(1-3)]) (simp_all add: Cons before_def)
    from Suc.IH [OF this Suc.prems(2,3)] Suc.prems(4) Cons lq p show ?thesis by simp
  qed
qed

lemma rmid_msgs_frame:
  "msglock (rmid_msgs n si qp s) = msglock s \<and> msgtext (rmid_msgs n si qp s) = msgtext s
   \<and> length (msgque (rmid_msgs n si qp s)) = length (msgque s)
   \<and> (i \<noteq> qp \<longrightarrow> msgque (rmid_msgs n si qp s) ! i = msgque s ! i)
   \<and> hdr_data (msgh (rmid_msgs n si qp s) ! m) = hdr_data (msgh s ! m)"
  by (induction n arbitrary: s) (auto simp: msgfree_frame msgfree_data split: option.split)

lemma rmid_store:
  assumes st: "store_ok si s fl Q H E" and si: "msg_conf si" and qp: "qp < msgmni si" and le: "length (Q ! qp) \<le> msgtql si"
  shows "\<exists>fl'. store_ok si (msgctl_rmid si old_cmd ident qp s) fl' (Q[qp := []]) H E"
proof -
  from rmid_msgs_store [OF st si qp le] obtain fl'
    where t: "store_ok si (rmid_msgs (msgtql si) si qp s) fl' (Q[qp := []]) H E" by blast
  have "store_ok si (msgctl_rmid si old_cmd ident qp s) fl' (Q[qp := []]) H E
      = store_ok si (rmid_msgs (msgtql si) si qp s) fl' (Q[qp := []]) H E"
    by (rule store_cong) (simp_all add: msgctl_rmid_def Let_def upd_qp_nth)
  with t show ?thesis by blast
qed

lemma rmid_frame:
  "msglock (msgctl_rmid si old_cmd ident qp s) = msglock s" "msgtext (msgctl_rmid si old_cmd ident qp s) = msgtext s"
  "length (msgque (msgctl_rmid si old_cmd ident qp s)) = length (msgque s)"
  "i \<noteq> qp \<Longrightarrow> msgque (msgctl_rmid si old_cmd ident qp s) ! i = msgque s ! i"
  "hdr_data (msgh (msgctl_rmid si old_cmd ident qp s) ! m) = hdr_data (msgh s ! m)"
  using rmid_msgs_frame [of "msgtql si" si qp s i m]
  by (simp_all add: msgctl_rmid_def Let_def) (simp add: upd_qp_def)

lemma rmid_queue:
  assumes "qp < length (msgque s)"
  shows "\<not> has_mode IPC_ALLOC qp (msgctl_rmid si old_cmd ident qp s)" "msg_cbytes (msgque (msgctl_rmid si old_cmd ident qp s) ! qp) = 0"
  using assms rmid_msgs_frame [of "msgtql si" si qp s]
  by (simp_all add: msgctl_rmid_def Let_def upd_qp_nth has_mode_def)

lemma rmid_goes:
  assumes inv: "msg_inv si s C" and si: "msg_conf si" and qp: "qp < msgmni si" and free: "\<not> msglock s ! qp"
    and al: "has_mode IPC_ALLOC qp s"
  shows "msg_goes si s (Destroy qp) (msgunlock qp (msgctl_rmid si old_cmd ident qp (locked qp s))) C"
proof -
  let ?s = "locked qp s" and ?t = "msgunlock qp (msgctl_rmid si old_cmd ident qp (locked qp s))"
  from inv obtain fl Q where c: "msg_core si s fl Q C" and l: "lock_ok si s C" by (auto simp: msg_inv_def)
  have lq: "length (msgque s) = msgmni si" "length Q = msgmni si" using core_lists [OF c] by simp_all
  have "msg_core si ?s fl Q C" using c by (rule core_quiet [rotated]) simp
  then have "store_ok si ?s fl Q (concat (map cp_hdrs C)) (concat (map (cp_exts si) C))" by (simp add: msg_core_def)
  from rmid_store [OF this si qp length_le_headers(1) [OF c qp]] obtain fl'
    where t: "store_ok si (msgctl_rmid si old_cmd ident qp ?s) fl' (Q[qp := []]) (concat (map cp_hdrs C)) (concat (map (cp_exts si) C))"
    by blast
  have t': "store_ok si ?t fl' (Q[qp := []]) (concat (map cp_hdrs C)) (concat (map (cp_exts si) C))"
    using t by (subst store_cong [where s = "msgctl_rmid si old_cmd ident qp ?s"]) simp_all
  have c': "msg_core si ?t fl' (Q[qp := []]) C"
    by (rule core_change [OF c subset_refl _ t' qp])
      (use lock_free [OF l qp free] qp lq in \<open>auto simp: rmid_frame rmid_queue has_mode_def u32_def\<close>)
  have "lock_ok si ?t C" using l free by (auto intro!: lock_ok_cong [OF l] simp: rmid_frame unlock_restore)
  moreover have "msg_abs si ?t = (msg_abs si s)[qp := (if has_mode IPC_ALLOC qp ?t then Some (map (msg_entry si ?t) []) else None)]"
    by (rule abs_change [OF c c' qp]) (auto intro!: entry_data simp: rmid_frame has_mode_def)
  moreover have "\<not> has_mode IPC_ALLOC qp ?t" using rmid_queue(1) [of qp ?s] qp lq by (simp add: has_mode_def)
  ultimately show ?thesis using c' qp lq al abs_nth [OF c qp]
    by (auto simp: msg_goes_def msg_inv_def msg_abs_def)
qed

section \<open>Making a queue\<close>

lemma alloc_mode: "ipc_alloc (msg_perm (msgque s ! i)) = has_mode IPC_ALLOC i s"
  by (simp add: ipc_alloc_def has_mode_def)

text \<open>The entry \<open>msgget\<close> leaves in a new slot.\<close>

definition new_msqid :: "msginfo \<Rightarrow> proc_ctx \<Rightarrow> msgget_args \<Rightarrow> msqid_ds \<Rightarrow> msqid_ds" where
  "new_msqid si c a d = d\<lparr>msg_perm := ipc_init_perm (u_cred c) (mg_key a) (mg_msgflg a) (msg_perm d),
     msg_first := None, msg_last := None, msg_qnum := 0, msg_qbytes := u32 (msgmnb si), msg_lspid := 0, msg_lrpid := 0,
     msg_stime := 0, msg_rtime := 0, msg_ctime := hrestime c\<rparr>"

lemma msgget_cases:
  assumes "msgget si c a s = (r, t)"
  obtains "t = s"
  | qp where "qp < length (msgque s)" "\<not> has_mode IPC_ALLOC qp s"
      "t = upd_qp qp (new_msqid si c a) s" "r = Ok (ipc_id (msgmni si) (ip_seq (msg_perm (msgque s ! qp))) qp)"
proof (cases "ipcget (p_sec c) (u_cred c) (mg_key a) (mg_msgflg a) (msg_perms s)")
  case (Inl e)
  with assms that(1) show thesis by (simp add: msgget_def)
next
  case (Inr x)
  obtain qp created base' where get: "ipcget (p_sec c) (u_cred c) (mg_key a) (mg_msgflg a) (msg_perms s) = Ok (qp, created, base')"
    using Inr by (metis surj_pair)
  show thesis
  proof (cases created)
    case False
    with get have "ipcget (p_sec c) (u_cred c) (mg_key a) (mg_msgflg a) (msg_perms s) = Ok (qp, False, base')" by simp
    from ipcget_old [OF this] have b: "base' = msg_perms s" "qp < length (msg_perms s)" by simp_all
    then have "upd_qp qp (\<lambda>d. d\<lparr>msg_perm := base' ! qp\<rparr>) s = s"
      by (simp add: msg_perms_def upd_qp_def)
    with assms get False that(1) show thesis by (simp add: msgget_def Let_def)
  next
    case True
    with get have "ipcget (p_sec c) (u_cred c) (mg_key a) (mg_msgflg a) (msg_perms s) = Ok (qp, True, base')" by simp
    from ipcget_new [OF this] have u: "unused_at (msg_perms s) qp"
      and b: "base' = (msg_perms s)[qp := ipc_init_perm (u_cred c) (mg_key a) (mg_msgflg a) (msg_perms s ! qp)]" by simp_all
    have lt: "qp < length (msgque s)" using u by (simp add: unused_at_def msg_perms_def)
    have "t = upd_qp qp (new_msqid si c a) s"
      using assms get True lt by (auto simp: msgget_def Let_def b msg_perms_def upd_qp_def new_msqid_def)
    moreover have "r = Ok (ipc_id (msgmni si) (ip_seq (msg_perm (msgque s ! qp))) qp)"
      using assms get True lt by (auto simp: msgget_def Let_def b msg_perms_def upd_qp_def ipc_init_perm_def)
    moreover have "\<not> has_mode IPC_ALLOC qp s" using u lt by (simp add: unused_at_def msg_perms_def alloc_mode)
    ultimately show thesis using that(2) lt by blast
  qed
qed

lemma msgget_goes:
  assumes inv: "msg_inv si s C" and get: "msgget si c a s = (r, t)"
  shows "\<exists>e. msg_goes si s e t C \<and> (e = Keep \<or> (\<exists>qp ident. e = Create qp \<and> r = Ok ident))"
  using get
proof (cases rule: msgget_cases)
  case 1
  then have "msg_goes si s Keep t C" using inv by (simp add: msg_goes_def)
  then show ?thesis by blast
next
  case (2 qp)
  from inv obtain fl Q where cr: "msg_core si s fl Q C" and l: "lock_ok si s C" by (auto simp: msg_inv_def)
  have lq: "length (msgque s) = msgmni si" "length Q = msgmni si" using core_lists [OF cr] by simp_all
  have qp: "qp < msgmni si" using 2(1) lq by simp
  have e: "Q ! qp = []" and cb: "msg_cbytes (msgque s ! qp) = 0"
    using cr qp 2(2) by (auto simp: msg_core_def u32_def)
  then have Q: "Q[qp := []] = Q" by (metis list_update_id)
  have new: "has_mode IPC_ALLOC qp t"
    using 2(1,3) ipc_alloc_init [of "u_cred c" "mg_key a" "mg_msgflg a" "msg_perm (msgque s ! qp)"]
    by (simp add: has_mode_def upd_qp_nth new_msqid_def ipc_alloc_def)
  have ne: "cp_qp cp \<noteq> qp" if "cp \<in> set C" for cp using cr 2(2) that by (auto simp: msg_core_def)
  have other: "i \<noteq> qp \<Longrightarrow> msgque t ! i = msgque s ! i" for i using 2(3) by (simp add: upd_qp_def)
  have st: "store_ok si s fl Q (concat (map cp_hdrs C)) (concat (map (cp_exts si) C))" using cr by (simp add: msg_core_def)
  have "store_ok si t fl (Q[qp := []]) (concat (map cp_hdrs C)) (concat (map (cp_exts si) C))"
  proof -
    have "lists_ok si s fl Q" using st by (simp add: store_ok_def)
    then have "lists_ok si t fl Q"
      using e qp 2(1,3) by (auto simp: lists_ok_def upd_qp_nth new_msqid_def u32_def)
    moreover have "segs_ok si t Q E = segs_ok si s Q E" for E using 2(3) by (simp add: segs_ok_def)
    ultimately show ?thesis using st unfolding Q store_ok_def by simp
  qed
  note st' = this
  have c': "msg_core si t fl (Q[qp := []]) C"
    by (rule core_change [OF cr subset_refl ne st' qp])
      (use 2(1,3) new cb other in \<open>auto simp: has_mode_def upd_qp_nth new_msqid_def u32_def\<close>)
  have "lock_ok si t C" using l 2(3) by (simp add: lock_ok_def)
  moreover have "msg_abs si t = (msg_abs si s)[qp := (if has_mode IPC_ALLOC qp t then Some (map (msg_entry si t) []) else None)]"
    by (rule abs_change [OF cr c' qp]) (use 2(3) other in \<open>auto simp: msg_entry_def has_mode_def\<close>)
  ultimately have "msg_goes si s (Create qp) t C" using c' new qp 2(2) abs_nth [OF cr qp]
    by (auto simp: msg_goes_def msg_inv_def msg_abs_def)
  then show ?thesis using 2(4) by blast
qed

section \<open>Receiving\<close>

lemma rcv_find_goes:
  assumes inv: "msg_inv si s C" and si: "msg_conf si" and run: "msgrcv_find si a qp s = (out, t)"
  shows "msg_goes si s Keep t (out_copies out @ C)"
  using run [unfolded msgrcv_find_def] si
proof (cases rule: relock_cases)
  case 1
  with inv show ?thesis by (rule goes_calm)
next
  case 2
  let ?s = "locked qp s"
  from inv obtain fl Q where c: "msg_core si s fl Q C" and l: "lock_ok si s C" by (auto simp: msg_inv_def)
  have cs: "msg_core si ?s fl Q C" using c by (rule core_quiet [rotated]) simp
  obtain p b where pb: "rcv_find si (mr_msgtyp a) qp ?s = (p, b)" by (metis surj_pair)
  show ?thesis
  proof (cases b)
    case None
    have n: "if mr_msgflg a AND IPC_NOWAIT \<noteq> 0 then leave qp (Err ENOMSG) ?s = (out, t)
      else doze qp (RcvChan qp) (KRcvFind a qp) (upd_qp qp (set_mode (\<lambda>m. m OR MSG_RWAIT)) ?s) = (out, t)"
      using 2(4) pb None by (simp split: if_splits)
    have "msg_calm s out t"
    proof (cases "mr_msgflg a AND IPC_NOWAIT \<noteq> 0")
      case True
      with n show ?thesis by (simp only: if_True) (rule leave_calm(1) [OF _ _ 2(2)]; simp)
    next
      case False
      have "quiet s (upd_qp qp (set_mode (\<lambda>m. m OR MSG_RWAIT)) ?s)" by (rule quiet_trans [where b = ?s]) simp_all
      from leave_calm(2) [OF this _ 2(2)] False n show ?thesis by simp
    qed
    with inv show ?thesis by (rule goes_calm)
  next
    case (Some mp)
    show ?thesis
    proof (cases "u32 (mr_msgsz a) < int (msg_ts (msgh s ! mp)) \<and> mr_msgflg a AND MSG_NOERROR = 0")
      case True
      then have "leave qp (Err E2BIG) ?s = (out, t)" using 2(4) pb Some by (simp add: Let_def)
      from leave_calm(1) [OF _ _ 2(2) this] have "msg_calm s out t" by simp
      with inv show ?thesis by (rule goes_calm)
    next
      case False
      let ?sz = "if u32 (mr_msgsz a) < int (msg_ts (msgh s ! mp)) then nat (u32 (mr_msgsz a)) else msg_ts (msgh s ! mp)"
      let ?cp = "RcvCopy a qp p mp ?sz"
      have out: "out = Copying ?cp" "t = ?s" using 2(4) pb Some False by (auto simp: Let_def)
      have "found (msgh s) (mr_msgtyp a) (Q ! qp) (p, Some mp)"
        using rcv_find_spec [OF cs 2(1), of "mr_msgtyp a"] pb Some by simp
      then have "cp_ok s Q ?cp" using False by (auto simp: found_Some cp_ok_def rcv_size_def)
      then have "msg_core si s fl Q (?cp # C)"
        using c 2(1,3) by (simp add: msg_core_def cp_hdrs_def cp_exts_def)
      then have "msg_core si t fl Q (?cp # C)" unfolding out by (rule core_quiet [rotated]) simp
      moreover have "lock_ok si t (?cp # C)" using lock_take [OF l _ 2(1,2), of ?cp t] out by simp
      moreover have "msg_abs si t = msg_abs si s" unfolding out
        by (rule abs_quiet) (use core_lists [OF c] in simp_all)
      ultimately show ?thesis using out by (simp add: msg_goes_def msg_invI)
    qed
  qed
qed

lemma store_hdrs: "msg_core si s fl Q C \<Longrightarrow> store_ok si s fl Q (concat (map cp_hdrs C)) (concat (map (cp_exts si) C))"
  by (simp add: msg_core_def)

text \<open>The copy of a message being received has ended.\<close>

lemma rcv_copied_goes:
  assumes inv: "msg_inv si s (RcvCopy a qp pmp mp sz # C)" and si: "msg_conf si"
    and run: "msgrcv_copied si c qp pmp mp sz out0 out1 s = (out, t)"
  shows "(msg_goes si s Keep t C \<and> out = Ret (Err EFAULT))
    \<or> (\<exists>txt. msg_goes si s (Taken qp (mr_msgtyp a) (msg_type (msgh s ! mp), txt)) t C
         \<and> out = Ret (Ok (MMsg (msg_type (msgh s ! mp)) (take sz txt))) \<and> rcv_size a (length txt) sz)"
proof -
  let ?cp = "RcvCopy a qp pmp mp sz"
  from inv obtain fl Q where cr: "msg_core si s fl Q (?cp # C)" and l: "lock_ok si s (?cp # C)" by (auto simp: msg_inv_def)
  have qp: "qp < msgmni si" and al: "has_mode IPC_ALLOC qp s" and ok: "cp_ok s Q ?cp" using cr by (auto simp: msg_core_def)
  have cr1: "msg_core si s fl Q C" using cr by (simp add: msg_core_def cp_hdrs_def cp_exts_def)
  have lq: "length (msgque s) = msgmni si" "length Q = msgmni si" using core_lists [OF cr] by simp_all
  show ?thesis
  proof (cases "\<not> out0 \<or> sz \<noteq> 0 \<and> \<not> out1")
    case True
    then have "out = Ret (Err EFAULT)" and t: "t = msgunlock qp s" using run by (auto simp: msgrcv_copied_def leave_def)
    moreover have "msg_core si t fl Q C" unfolding t by (rule core_quiet [OF _ cr1]) simp
    moreover have "lock_ok si t C" by (rule lock_drop [OF l _ qp]) (simp_all add: t)
    moreover have "msg_abs si t = msg_abs si s" unfolding t by (rule abs_quiet) (simp_all add: lq)
    ultimately show ?thesis by (auto simp: msg_goes_def msg_inv_def)
  next
    case False
    from ok obtain A B where q: "Q ! qp = A @ mp # B" and pmp: "pmp = before A"
      and ch: "chosen (mr_msgtyp a) (types (msgh s) A) (msg_type (msgh s ! mp)) (types (msgh s) B)"
      and sz: "rcv_size a (msg_ts (msgh s ! mp)) sz"
      by (auto simp: cp_ok_def)
    let ?h = "msgh s ! mp"
    let ?f = "\<lambda>d. d\<lparr>msg_cbytes := u32 (msg_cbytes d - int (msg_ts ?h)), msg_lrpid := p_pid c, msg_rtime := hrestime c\<rparr>"
    let ?s1 = "upd_qp qp ?f s"
    let ?txt = "text_bytes si (msgtext s) (msg_spot ?h) (msg_ts ?h)"
    have t: "t = msgunlock qp (msgfree si qp pmp mp ?s1)"
      and out: "out = Ret (Ok (MMsg (msg_type ?h) (text_bytes si (msgtext s) (msg_spot ?h) sz)))"
      using run False by (auto simp: msgrcv_copied_def leave_def Let_def)
    have "store_ok si ?s1 fl Q (concat (map cp_hdrs C)) (concat (map (cp_exts si) C))"
      using store_hdrs [OF cr1] by (subst store_cong [where s = s]) (simp_all add: upd_qp_nth)
    from msgfree_store [OF this si qp q pmp]
    have st: "store_ok si t (mp # fl) (Q[qp := A @ B]) (concat (map cp_hdrs C)) (concat (map (cp_exts si) C))"
      unfolding t by (subst store_cong [where s = "msgfree si qp pmp mp ?s1"]) simp_all
    have data: "hdr_data (msgh t ! m) = hdr_data (msgh s ! m)" for m by (simp add: t msgfree_data)
    have ts: "msg_ts (msgh t ! m) = msg_ts (msgh s ! m)" for m using hdr_data_fields [OF data] by simp
    have other: "i \<noteq> qp \<Longrightarrow> msgque t ! i = msgque s ! i" for i by (simp add: t msgfree_frame) (simp add: upd_qp_def)
    have al': "has_mode IPC_ALLOC qp t"
      using al qp lq by (simp add: t msgfree_parts Let_def msg_unlinked_def has_mode_def upd_qp_nth mode_bits split: option.split)
    have cb: "msg_cbytes (msgque t ! qp) = u32 (msg_cbytes (msgque s ! qp) - int (msg_ts ?h))"
      using qp lq by (simp add: t msgfree_queue upd_qp_nth)
    have "msg_cbytes (msgque s ! qp) = u32 ((\<Sum>m\<leftarrow>A @ B. int (msg_ts (msgh s ! m))) + int (msg_ts ?h))"
      using cr1 qp q by (simp add: msg_core_def algebra_simps)
    then have cb': "msg_cbytes (msgque t ! qp) = u32 (\<Sum>m\<leftarrow>A @ B. int (msg_ts (msgh t ! m)))"
      unfolding cb by (simp add: u32_plus ts)
    have one: "cp_qp cp \<noteq> qp" if "cp \<in> set C" for cp
      using lock_one [OF l _ qp that] by simp
    have oth: "msg_cbytes (msgque t ! i) = msg_cbytes (msgque s ! i) \<and> has_mode IPC_ALLOC i t = has_mode IPC_ALLOC i s" if "i \<noteq> qp" for i
      using other [OF that] by (simp add: has_mode_def)
    have c': "msg_core si t (mp # fl) (Q[qp := A @ B]) C"
      by (rule core_change [OF cr1 subset_refl one st qp data oth cb' disjI1 [OF al']])
    have "lock_ok si t C" by (rule lock_drop [OF l _ qp]) (simp_all add: t msgfree_frame)
    note lk = this
    have same_txt: "msgtext t = msgtext s" by (simp add: t msgfree_frame)
    have "msg_abs si t = (msg_abs si s)[qp := (if has_mode IPC_ALLOC qp t then Some (map (msg_entry si t) (A @ B)) else None)]"
      by (rule abs_change [OF cr1 c' qp entry_data [OF data same_txt]]) (use oth in blast)
    moreover have "msg_entry si t = msg_entry si s" by (rule ext) (rule entry_data [OF data same_txt])
    ultimately have "msg_abs si t = (msg_abs si s)[qp := Some (map (msg_entry si s) (A @ B))]"
      using al' by simp
    moreover have "msg_abs si s ! qp = Some (map (msg_entry si s) A @ (msg_type ?h, ?txt) # map (msg_entry si s) B)"
      using abs_nth [OF cr1 qp] al q by (simp add: msg_entry_def Let_def)
    moreover have "map fst (map (msg_entry si s) X) = types (msgh s) X" for X
      by (simp add: types_def msg_entry_def Let_def)
    ultimately have "mq_next (Taken qp (mr_msgtyp a) (msg_type ?h, ?txt)) (msg_abs si s) (msg_abs si t)"
      using ch qp unfolding mq_next.simps
      by (intro conjI exI [of _ "map (msg_entry si s) A"] exI [of _ "map (msg_entry si s) B"])
        (simp_all only: fst_conv map_append, simp_all add: msg_abs_def)
    moreover have "length ?txt = msg_ts ?h" by (simp add: text_bytes_def)
    moreover have "sz \<le> msg_ts ?h" using sz by (auto simp: rcv_size_def split: if_splits)
    then have "text_bytes si (msgtext s) (msg_spot ?h) sz = take sz ?txt" by (simp add: text_bytes_def take_map)
    moreover have "msg_inv si t C" using c' lk by (rule msg_invI)
    ultimately show ?thesis using out sz unfolding msg_goes_def
      by (intro disjI2 exI [of _ ?txt] conjI) (simp_all only:)
  qed
qed

section \<open>Sending\<close>

lemma mapwant_irrelevant [simp]:
  "free_units (m\<lparr>mapwant := w\<rparr>) = free_units m" "rmap_ok (m\<lparr>mapwant := w\<rparr>) = rmap_ok m"
  by (simp_all add: free_units_def rmap_ok_def)

lemma msgfp_put_back:
  assumes "msgfp s = Some mp"
  shows "quiet s (msgfp_free mp (s\<lparr>msgfp := msg_next (msgh s ! mp)\<rparr>))"
    "quiet s (msgfp_free mp (s\<lparr>msgfp := msg_next (msgh s ! mp), msgmap := (msgmap s)\<lparr>mapwant := w\<rparr>\<rparr>))"
proof -
  have fp: "msgfp (msgfp_free x y) = Some x" for x y by (simp add: msgfp_free_def Let_def)
  show "quiet s (msgfp_free mp (s\<lparr>msgfp := msg_next (msgh s ! mp)\<rparr>))"
    "quiet s (msgfp_free mp (s\<lparr>msgfp := msg_next (msgh s ! mp), msgmap := (msgmap s)\<lparr>mapwant := w\<rparr>\<rparr>))"
    using assms by (simp_all add: quiet_def has_mode_def fp msgh_free)
qed

lemma msgsnd_res_cases:
  assumes run: "msgsnd_res si a qp ty s = (out, t)" and si: "msg_conf si" and ok: "rmap_ok (msgmap s)"
  obtains "msg_calm s out t"
  | mp spot m where "qp < msgmni si" "\<not> msglock s ! qp" "has_mode IPC_ALLOC qp s" "msgfp s = Some mp"
      "out = Copying (SndCopy a qp mp spot ty)"
      "t = (locked qp s)\<lparr>msgfp := msg_next (msgh s ! mp), msgmap := m\<rparr>"
      "if snd_cnt a = 0 then spot = 0 \<and> m = msgmap s else rmalloc (msgmap s) (btoq si (snd_cnt a)) = (spot, m) \<and> 0 < spot"
      "u32 (int (snd_cnt a) + msg_cbytes (msgque s ! qp)) \<le> msg_qbytes (msgque s ! qp)"
  using run [unfolded msgsnd_res_def] si
proof (cases rule: relock_cases)
  case 1
  with that(1) show thesis .
next
  case 2
  let ?s = "locked qp s"
  let ?nowait = "ms_msgflg a AND IPC_NOWAIT \<noteq> 0"
  have lv: "msg_calm s out t" if "leave qp (Err e) u = (out, t)" "quiet s u" "msglock u = (msglock s)[qp := True]" for u e
    using leave_calm(1) [OF that(2,3) 2(2) that(1)] .
  have dz: "msg_calm s out t" if "doze qp ch k u = (out, t)" "quiet s u" "msglock u = (msglock s)[qp := True]" for u ch k
    using leave_calm(2) [OF that(2,3) 2(2) that(1)] .
  note go = 2(4) [unfolded Let_def]
  show thesis
  proof (cases "u32 (int (snd_cnt a) + msg_cbytes (msgque s ! qp)) > msg_qbytes (msgque s ! qp)")
    case True
    have "quiet s (upd_qp qp (set_mode (\<lambda>m. m OR MSG_WWAIT)) ?s)" by (rule quiet_trans [where b = ?s]) simp_all
    from dz [OF _ this] lv [where u = ?s] go True show thesis by (intro that(1)) (simp split: if_splits)
  next
    case room: False
    show thesis
    proof (cases "msgfp s")
      case None
      from dz [where u = ?s] lv [where u = ?s] go room None show thesis by (intro that(1)) (simp split: if_splits)
    next
      case (Some mp)
      let ?s1 = "?s\<lparr>msgfp := msg_next (msgh s ! mp)\<rparr>"
      show thesis
      proof (cases "snd_cnt a = 0")
        case True
        then show thesis using that(2) [of mp 0 "msgmap s"] 2(1-3) go room Some by simp
      next
        case cnt: False
        obtain spot m where al: "rmalloc (msgmap s) (btoq si (snd_cnt a)) = (spot, m)" by (metis surj_pair)
        show thesis
        proof (cases "spot = 0")
          case True
          have m: "m = msgmap s" using rm.alloc_fails [OF ok] al True by simp
          have fp: "msgfp ?s = Some mp" using Some by simp
          have q1: "quiet s (msgfp_free mp ?s1)" using msgfp_put_back(1) [OF fp] by simp
          have q2: "quiet s (msgfp_free mp (?s1\<lparr>msgmap := m\<lparr>mapwant := w\<rparr>\<rparr>))" for w
            using msgfp_put_back(2) [OF fp, of w] by (simp add: m)
          from dz [OF _ q2] lv [OF _ q1] go room Some cnt al True show thesis by (intro that(1)) (simp split: if_splits)
        next
          case False
          then show thesis using that(2) [of mp spot m] 2(1-3) go room Some cnt al by simp
        qed
      qed
    qed
  qed
qed

lemma snd_res_goes:
  assumes inv: "msg_inv si s C" and si: "msg_conf si" and run: "msgsnd_res si a qp ty s = (out, t)"
  shows "msg_goes si s Keep t (out_copies out @ C)"
proof -
  from inv obtain fl Q where c: "msg_core si s fl Q C" and l: "lock_ok si s C" by (auto simp: msg_inv_def)
  note st = store_hdrs [OF c]
  have ok: "rmap_ok (msgmap s)" using st by (simp add: store_ok_def segs_ok_def)
  from run si ok show ?thesis
  proof (cases rule: msgsnd_res_cases)
    case 1
    with inv show ?thesis by (rule goes_calm)
  next
    case (2 mp spot m)
    let ?cp = "SndCopy a qp mp spot ty" and ?E = "concat (map (cp_exts si) C)" and ?H = "concat (map cp_hdrs C)"
    from store_pop [OF st 2(4)] obtain fl'
      where p: "store_ok si (s\<lparr>msgfp := msg_next (msgh s ! mp)\<rparr>) fl' Q (mp # ?H) ?E" by blast
    have "store_ok si (s\<lparr>msgfp := msg_next (msgh s ! mp), msgmap := m\<rparr>) fl' Q (mp # ?H) (cp_exts si ?cp @ ?E)"
    proof (cases "snd_cnt a = 0")
      case True
      then show ?thesis using p 2(7) by (simp add: cp_exts_def store_ok_def lists_ok_def segs_ok_def)
    next
      case False
      then show ?thesis using store_alloc [OF p, of "btoq si (snd_cnt a)" spot m] 2(7) by (simp add: cp_exts_def)
    qed
    then have "store_ok si t fl' Q (mp # ?H) (cp_exts si ?cp @ ?E)"
      unfolding 2(6) by (subst store_cong [where s = "s\<lparr>msgfp := msg_next (msgh s ! mp), msgmap := m\<rparr>"]) simp_all
    moreover have th: "msgh t = msgh s" "msgque t = msgque s" by (simp_all add: 2(6))
    then have "cp_ok t Q cp = cp_ok s Q cp" "has_mode b i t = has_mode b i s" for cp b i
      by (simp_all only: cp_ok_def has_mode_def)
    moreover have "cp_ok s Q ?cp" by (simp add: cp_ok_def)
    ultimately have "msg_core si t fl' Q (?cp # C)"
      using c 2(1,3) th by (simp add: msg_core_def cp_hdrs_def)
    moreover have "lock_ok si t (?cp # C)" by (rule lock_take [OF l _ 2(1,2)]) (simp_all add: 2(6))
    moreover have "msg_abs si t = msg_abs si s" by (simp add: msg_abs_def 2(6) has_mode_def msg_entry_def)
    ultimately show ?thesis by (simp add: msg_goes_def 2(5) msg_invI)
  qed
qed

end
