(* ===== verification/Message_Send.thy ===== *)
theory Message_Send
  imports Message_Steps
begin

text \<open>
  The end of a send: the text lands in units nobody else owns, so that no other message changes,
  and the message becomes the last of its queue.
\<close>

text \<open>The bytes of a segment lie in its units.\<close>

lemma btoq_covers: "msg_conf si \<Longrightarrow> n \<le> msgssz si * btoq si n"
proof -
  assume si: "msg_conf si"
  have "n + msgssz si - 1 < msgssz si * btoq si n + msgssz si"
    using si dividend_less_times_div [of "msgssz si" "n + msgssz si - 1"] by (simp add: btoq_def msg_conf_def)
  then show ?thesis by simp
qed

lemma byte_unit:
  assumes si: "msg_conf si" and x: "msgssz si * b \<le> x" "x < msgssz si * b + n"
  shows "Suc (x div msgssz si) \<in> ext (Suc b, btoq si n)"
proof -
  have pos: "0 < msgssz si" using si by (simp add: msg_conf_def)
  have "b \<le> x div msgssz si" using x(1) pos by (simp add: less_eq_div_iff_mult_less_eq mult.commute)
  moreover have "x < msgssz si * (b + btoq si n)" using x(2) btoq_covers [OF si, of n] by (simp add: distrib_left)
  then have "x div msgssz si < b + btoq si n" using pos by (simp add: div_less_iff_less_mult mult.commute)
  ultimately show ?thesis by (simp add: ext_def)
qed

lemma bytes_apart:
  assumes st: "store_ok si s fl Q H ((spot, btoq si cnt) # E)" and si: "msg_conf si" and spot: "0 < spot"
    and m: "m \<in> set (concat Q)" and i: "i < msg_ts (msgh s ! m)"
    and x: "msgssz si * msg_spot (msgh s ! m) + i = x"
  shows "\<not> (msgssz si * (spot - 1) \<le> x \<and> x < msgssz si * (spot - 1) + cnt)"
proof
  assume "msgssz si * (spot - 1) \<le> x \<and> x < msgssz si * (spot - 1) + cnt"
  with spot have u: "Suc (x div msgssz si) \<in> ext (spot, btoq si cnt)"
    using byte_unit [OF si, of "spot - 1" x cnt] by simp
  have "Suc (x div msgssz si) \<in> ext (hdr_ext si (msgh s ! m))"
    using byte_unit [OF si, of "msg_spot (msgh s ! m)" x "msg_ts (msgh s ! m)"] x i by (simp add: hdr_ext_def)
  then have "0 < cover (map (\<lambda>m. hdr_ext si (msgh s ! m)) (concat Q)) (Suc (x div msgssz si))"
    using m by (intro cover_pos [of "hdr_ext si (msgh s ! m)"]) (simp_all del: set_concat)
  moreover have "units_ok (map (\<lambda>m. hdr_ext si (msgh s ! m)) (concat Q) @ (spot, btoq si cnt) # E)
      (free_units (msgmap s)) {1 ..< 1 + msgseg si}"
    using st by (simp add: store_ok_def segs_ok_def)
  ultimately show False using units_ok_disjoint(3) u by (metis less_irrefl)
qed

text \<open>The state after the text has arrived and the message is on the queue.\<close>

definition put_text :: "msginfo \<Rightarrow> nat \<Rightarrow> nat \<Rightarrow> (nat \<Rightarrow> byte) \<Rightarrow> (nat \<Rightarrow> byte) \<Rightarrow> nat \<Rightarrow> byte" where
  "put_text si spot cnt f txt = (\<lambda>x. if msgssz si * (spot - 1) \<le> x \<and> x < msgssz si * (spot - 1) + cnt
     then f (x - msgssz si * (spot - 1)) else txt x)"

lemma put_text_read: "0 < spot \<Longrightarrow> text_bytes si (put_text si spot cnt f txt) (spot - 1) cnt = map f [0 ..< cnt]"
  by (simp add: text_bytes_def put_text_def)

lemma entry_put:
  assumes "store_ok si s fl Q H ((spot, btoq si cnt) # E)" and "msg_conf si" and "0 < spot" and "m \<in> set (concat Q)"
  shows "text_bytes si (put_text si spot cnt f (msgtext s)) (msg_spot (msgh s ! m)) (msg_ts (msgh s ! m))
    = text_bytes si (msgtext s) (msg_spot (msgh s ! m)) (msg_ts (msgh s ! m))"
  unfolding text_bytes_def
proof (rule map_cong [OF refl])
  fix i assume "i \<in> set [0 ..< msg_ts (msgh s ! m)]"
  then have "i < msg_ts (msgh s ! m)" by simp
  from bytes_apart [OF assms this refl]
  show "put_text si spot cnt f (msgtext s) (msgssz si * msg_spot (msgh s ! m) + i)
      = msgtext s (msgssz si * msg_spot (msgh s ! m) + i)" unfolding put_text_def by (rule if_not_P)
qed

definition new_msg :: "nat \<Rightarrow> nat \<Rightarrow> int \<Rightarrow> msg" where
  "new_msg cnt spot ty = \<lparr>msg_next = None, msg_type = ty, msg_ts = cnt,
     msg_spot = (if cnt \<noteq> 0 then spot - 1 else 4294967295)\<rparr>"

lemma sent_state:
  assumes run: "msgsnd_copied si c qp mp cnt spot ty usr s = (out, t)" and ok: "cnt = 0 \<or> usr \<noteq> None"
    and qp: "qp < length (msgque s)" and lt: "mp < length (msgh s)"
    and l: "msg_last (msgque s ! qp) \<noteq> Some mp"
  shows "out = Ret (Ok (MVal 0))" "msglock t = (msglock s)[qp := False]" "msgfp t = msgfp s" "msgmap t = msgmap s"
    "length (msgque t) = length (msgque s)" "\<And>i. i \<noteq> qp \<Longrightarrow> msgque t ! i = msgque s ! i"
    "msgtext t = (if cnt = 0 then msgtext s else put_text si spot cnt (the usr) (msgtext s))"
    "msgh t = (case msg_last (msgque s ! qp) of None \<Rightarrow> (msgh s)[mp := new_msg cnt spot ty]
       | Some l \<Rightarrow> (msgh s)[mp := new_msg cnt spot ty, l := (msgh s ! l)\<lparr>msg_next := Some mp\<rparr>])"
    "msg_first (msgque t ! qp) = (if msg_last (msgque s ! qp) = None then Some mp else msg_first (msgque s ! qp))"
    "msg_last (msgque t ! qp) = Some mp" "msg_qnum (msgque t ! qp) = u32 (msg_qnum (msgque s ! qp) + 1)"
    "msg_cbytes (msgque t ! qp) = u32 (msg_cbytes (msgque s ! qp) + int cnt)"
    "has_mode IPC_ALLOC qp t = has_mode IPC_ALLOC qp s" "\<not> has_mode MSG_RWAIT qp t"
proof -
  have no: "\<not> (cnt \<noteq> 0 \<and> usr = None)" using ok by simp
  define f where "f = (\<lambda>d :: msqid_ds. d\<lparr>msg_qnum := u32 (msg_qnum d + 1), msg_cbytes := u32 (msg_cbytes d + int cnt),
     msg_lspid := p_pid c, msg_stime := hrestime c\<rparr>)"
  define s1 where "s1 = (if cnt \<noteq> 0 then s\<lparr>msgtext := put_text si spot cnt (the usr) (msgtext s)\<rparr> else s)"
  define s3 where "s3 = upd_mp mp (\<lambda>_. new_msg cnt spot ty) (upd_qp qp f s1)"
  define s4 where "s4 = (case msg_last (msgque s3 ! qp) of
      None \<Rightarrow> upd_qp qp (\<lambda>d. d\<lparr>msg_first := Some mp, msg_last := Some mp\<rparr>) s3
    | Some l \<Rightarrow> upd_qp qp (\<lambda>d. d\<lparr>msg_last := Some mp\<rparr>) (upd_mp l (\<lambda>h. h\<lparr>msg_next := Some mp\<rparr>) s3))"
  have run': "(Ret (Ok (MVal 0)), msgunlock qp (if has_mode MSG_RWAIT qp s4
      then wake (RcvChan qp) (upd_qp qp (set_mode (\<lambda>m. m AND NOT MSG_RWAIT)) s4) else s4)) = (out, t)"
    using run unfolding msgsnd_copied_def if_not_P [OF no] leave_def Let_def s4_def s3_def s1_def f_def put_text_def new_msg_def .
  then have t: "t = msgunlock qp (if has_mode MSG_RWAIT qp s4
      then wake (RcvChan qp) (upd_qp qp (set_mode (\<lambda>m. m AND NOT MSG_RWAIT)) s4) else s4)" and out: "out = Ret (Ok (MVal 0))"
    by simp_all
  have s1: "msgque s1 = msgque s" "msgh s1 = msgh s" "msgfp s1 = msgfp s" "msgmap s1 = msgmap s" "msglock s1 = msglock s"
    "msgtext s1 = (if cnt = 0 then msgtext s else put_text si spot cnt (the usr) (msgtext s))"
    by (simp_all add: s1_def)
  have s3: "msgque s3 = (msgque s)[qp := f (msgque s ! qp)]" "msgh s3 = (msgh s)[mp := new_msg cnt spot ty]"
    by (simp_all add: s3_def upd_qp_def upd_mp_def s1)
  have ml: "msg_last (msgque s3 ! qp) = msg_last (msgque s ! qp)" using qp by (simp add: s3 f_def)
  have s4: "msgfp s4 = msgfp s" "msgmap s4 = msgmap s" "msglock s4 = msglock s" "msgtext s4 = msgtext s1"
    "length (msgque s4) = length (msgque s)"
    by (auto simp: s4_def s3_def s1 split: option.split)
  have q4: "i < length (msgque s) \<Longrightarrow> msgque s4 ! i = (if i \<noteq> qp then msgque s ! i
      else if msg_last (msgque s ! qp) = None then (f (msgque s ! qp))\<lparr>msg_first := Some mp, msg_last := Some mp\<rparr>
      else (f (msgque s ! qp))\<lparr>msg_last := Some mp\<rparr>)" for i
    unfolding s4_def ml by (auto simp: upd_qp_nth s3 split: option.split)
  have h4: "msgh s4 = (case msg_last (msgque s ! qp) of None \<Rightarrow> (msgh s)[mp := new_msg cnt spot ty]
       | Some l \<Rightarrow> (msgh s)[mp := new_msg cnt spot ty, l := (msgh s ! l)\<lparr>msg_next := Some mp\<rparr>])"
  proof (cases "msg_last (msgque s ! qp)")
    case None
    then show ?thesis unfolding s4_def ml by (simp add: s3)
  next
    case (Some k)
    have "mp \<noteq> k" using l Some by simp
    then show ?thesis unfolding s4_def ml Some by (simp add: s3 upd_mp_def)
  qed
  show "out = Ret (Ok (MVal 0))" by (rule out)
  show "msglock t = (msglock s)[qp := False]" "msgfp t = msgfp s" "msgmap t = msgmap s"
    "length (msgque t) = length (msgque s)"
    "msgtext t = (if cnt = 0 then msgtext s else put_text si spot cnt (the usr) (msgtext s))"
    by (simp_all add: t s4 s1)
  show "msgque t ! i = msgque s ! i" if "i \<noteq> qp" for i
  proof (cases "i < length (msgque s)")
    case True
    then show ?thesis using that by (simp add: t upd_qp_nth s4 q4)
  next
    case False
    then show ?thesis using that by (simp add: t upd_qp_def s4_def s3 upd_mp_def split: option.split)
  qed
  show "msgh t = (case msg_last (msgque s ! qp) of None \<Rightarrow> (msgh s)[mp := new_msg cnt spot ty]
       | Some l \<Rightarrow> (msgh s)[mp := new_msg cnt spot ty, l := (msgh s ! l)\<lparr>msg_next := Some mp\<rparr>])"
    unfolding h4 [symmetric] by (simp add: t)
  show "msg_first (msgque t ! qp) = (if msg_last (msgque s ! qp) = None then Some mp else msg_first (msgque s ! qp))"
    "msg_last (msgque t ! qp) = Some mp" "msg_qnum (msgque t ! qp) = u32 (msg_qnum (msgque s ! qp) + 1)"
    "msg_cbytes (msgque t ! qp) = u32 (msg_cbytes (msgque s ! qp) + int cnt)"
    using qp by (simp_all add: t upd_qp_nth s4 q4 f_def)
  show "has_mode IPC_ALLOC qp t = has_mode IPC_ALLOC qp s"
    using qp by (simp add: t upd_qp_nth s4 q4 f_def has_mode_def mode_bits)
  show "\<not> has_mode MSG_RWAIT qp t"
    using qp by (simp add: t upd_qp_nth s4 has_mode_def)
qed

text \<open>The copy of a message being sent has ended.\<close>

lemma snd_copied_goes:
  assumes inv: "msg_inv si s (SndCopy a qp mp spot ty # C)" and si: "msg_conf si"
    and run: "msgsnd_copied si c qp mp (snd_cnt a) spot ty usr s = (out, t)"
  shows "(msg_goes si s Keep t C \<and> out = Ret (Err EFAULT) \<and> snd_cnt a \<noteq> 0 \<and> usr = None)
    \<or> (msg_goes si s (Sent qp (ty, map (the usr) [0 ..< snd_cnt a])) t C \<and> out = Ret (Ok (MVal 0))
       \<and> (snd_cnt a = 0 \<or> usr \<noteq> None) \<and> \<not> has_mode MSG_RWAIT qp t)"
proof -
  let ?cp = "SndCopy a qp mp spot ty" and ?n = "snd_cnt a"
  let ?H = "concat (map cp_hdrs C)" and ?E = "concat (map (cp_exts si) C)"
  from inv obtain fl Q where cr: "msg_core si s fl Q (?cp # C)" and l: "lock_ok si s (?cp # C)" by (auto simp: msg_inv_def)
  have qp: "qp < msgmni si" and al: "has_mode IPC_ALLOC qp s" using cr by (auto simp: msg_core_def)
  have st: "store_ok si s fl Q (mp # ?H) (cp_exts si ?cp @ ?E)" using store_hdrs [OF cr] by (simp add: cp_hdrs_def)
  have lq: "length (msgque s) = msgmni si" "length Q = msgmni si" "length (msgh s) = msgtql si" using core_lists [OF cr] by simp_all
  have o: "owned si fl Q (mp # ?H)" using st by (simp add: store_ok_def)
  have fresh: "m \<noteq> mp" if "m \<in> set (concat Q)" for m using owned_distinct [OF o] that by (auto simp del: set_concat)
  have one: "cp_qp cp \<noteq> qp" if "cp \<in> set C" for cp using lock_one [OF l _ qp that] by simp
  have lk: "lock_ok si u C" if "msglock u = (msglock s)[qp := False]" for u by (rule lock_drop [OF l _ qp that]) simp
  have sub: "set C \<subseteq> set (?cp # C)" by auto
  have bytes: "msg_cbytes (msgque s ! qp) = u32 (\<Sum>m\<leftarrow>Q ! qp. int (msg_ts (msgh s ! m)))" using cr qp by (simp add: msg_core_def)
  show ?thesis
  proof (cases "?n \<noteq> 0 \<and> usr = None")
    case True
    then have out: "out = Ret (Err EFAULT)" and t: "t = msgunlock qp (msgfp_free mp (map_free (btoq si ?n) spot s))"
      using run by (auto simp: msgsnd_copied_def leave_def)
    have "store_ok si s fl Q (mp # ?H) ((spot, btoq si ?n) # ?E)" using st True by (simp add: cp_exts_def)
    from store_push [OF store_release [OF this btoq_pos [OF si]]] True si
    have st': "store_ok si (msgfp_free mp (map_free (btoq si ?n) spot s)) (mp # fl) Q ?H ?E" by (simp add: msg_conf_def)
    have st': "store_ok si t (mp # fl) (Q[qp := Q ! qp]) ?H ?E"
      unfolding t list_update_id by (subst store_cong [where s = "msgfp_free mp (map_free (btoq si ?n) spot s)"]) (simp_all add: st')
    have tq: "msgque t = msgque s" by (simp add: t)
    have data: "hdr_data (msgh t ! m) = hdr_data (msgh s ! m)" for m by (simp add: t msgh_free)
    have c': "msg_core si t (mp # fl) (Q[qp := Q ! qp]) C"
      by (rule core_change [OF cr sub one st' qp data])
        (use hdr_data_fields [OF data] bytes al in \<open>simp_all add: tq has_mode_def\<close>)
    have m: "has_mode IPC_ALLOC i t = has_mode IPC_ALLOC i s" for i by (simp add: has_mode_def tq)
    have "msg_abs si t = (msg_abs si s)[qp := (if has_mode IPC_ALLOC qp t then Some (map (msg_entry si t) (Q ! qp)) else None)]"
      by (rule abs_change [OF cr c' qp entry_data [OF data] m]) (simp add: t)
    moreover have "map (msg_entry si t) (Q ! qp) = map (msg_entry si s) (Q ! qp)"
      by (intro map_cong refl entry_data [OF data]) (simp add: t)
    ultimately have "msg_abs si t = (msg_abs si s)[qp := msg_abs si s ! qp]" by (simp only: m abs_nth [OF cr qp])
    moreover have "msg_inv si t C" by (rule msg_invI [OF c' lk]) (simp add: t)
    ultimately show ?thesis using out True by (simp add: msg_goes_def)
  next
    case False
    then have ok: "?n = 0 \<or> usr \<noteq> None" by (cases usr) simp_all
    have last: "msg_last (msgque s ! qp) = (if Q ! qp = [] then None else Some (last (Q ! qp)))"
      using st qp by (simp add: store_ok_def lists_ok_def)
    have lm: "Q ! qp \<noteq> [] \<Longrightarrow> last (Q ! qp) \<in> set (concat Q)" using in_concat [of qp Q] qp lq by simp
    have nl: "msg_last (msgque s ! qp) \<noteq> Some mp" using last fresh [OF lm] by auto
    have mlt: "mp < length (msgh s)" using store_range [OF st] by simp
    have qlt: "qp < length (msgque s)" using qp lq by simp
    note S = sent_state [OF run ok qlt mlt nl]
    let ?h = "new_msg ?n spot ty"
    have spot: "0 < spot" if "?n \<noteq> 0"
    proof -
      have "units_ok (map (\<lambda>m. hdr_ext si (msgh s ! m)) (concat Q) @ (spot, btoq si ?n) # ?E) (free_units (msgmap s)) {1 ..< 1 + msgseg si}"
        using st that by (simp add: store_ok_def segs_ok_def cp_exts_def)
      from units_ok_bound [OF this btoq_pos [OF si]] that show ?thesis by simp
    qed
    have ext: "store_ok si s fl Q (mp # ?H) (hdr_ext si ?h # ?E)"
    proof (cases "?n = 0")
      case True
      then show ?thesis using st by (simp add: cp_exts_def hdr_ext_def new_msg_def store_ok_def segs_ok_def units_ok_def)
    next
      case False
      then show ?thesis using st spot by (simp add: cp_exts_def hdr_ext_def new_msg_def)
    qed
    have st': "store_ok si t fl (Q[qp := Q ! qp @ [mp]]) ?H ?E"
      by (rule store_link [OF ext qp]) (simp_all add: S last new_msg_def)
    have data: "hdr_data (msgh t ! m) = hdr_data (if m = mp then ?h else msgh s ! m)" for m
    proof (cases "Q ! qp = []")
      case True
      then show ?thesis using mlt by (simp add: S(8) last)
    next
      case False
      have ne: "mp \<noteq> last (Q ! qp)" using fresh [OF lm [OF False]] by simp
      have "msgh t = (let g = (msgh s)[mp := ?h] in g[last (Q ! qp) := (g ! last (Q ! qp))\<lparr>msg_next := Some mp\<rparr>])"
        using False ne by (simp add: S(8) last)
      then show ?thesis using mlt by (simp add: Let_def)
    qed
    have new: "msg_ts (msgh t ! mp) = ?n" "msg_type (msgh t ! mp) = ty" "msg_spot (msgh t ! mp) = msg_spot ?h"
      using data [of mp] by (simp_all add: hdr_data_def new_msg_def)
    have old: "hdr_data (msgh t ! m) = hdr_data (msgh s ! m)" if "m \<in> set (concat Q)" for m
      using data [of m] fresh [OF that] by simp
    have ts: "(\<Sum>m\<leftarrow>Q ! qp. int (msg_ts (msgh t ! m))) = (\<Sum>m\<leftarrow>Q ! qp. int (msg_ts (msgh s ! m)))"
      using hdr_data_fields [OF old] in_concat [of qp Q] qp lq by (intro arg_cong [where f = sum_list] map_cong refl) simp
    have cb: "msg_cbytes (msgque t ! qp) = u32 (\<Sum>m\<leftarrow>Q ! qp @ [mp]. int (msg_ts (msgh t ! m)))"
      using bytes ts by (simp add: S(12) u32_plus new)
    have c': "msg_core si t fl (Q[qp := Q ! qp @ [mp]]) C"
      by (rule core_change [OF cr sub one st' qp old _ cb]) (simp_all add: S al has_mode_def, use S(13) al in \<open>simp add: has_mode_def\<close>)
    have kept: "msg_entry si t m = msg_entry si s m" if "m \<in> set (concat Q)" for m
    proof (cases "?n = 0")
      case True
      then show ?thesis using entry_data [OF old [OF that]] S(7) by simp
    next
      case False
      have "store_ok si s fl Q (mp # ?H) ((spot, btoq si ?n) # ?E)" using st False by (simp add: cp_exts_def)
      from entry_put [OF this si spot [OF False] that] hdr_data_fields [OF old [OF that]] S(7) False
      show ?thesis by (simp add: msg_entry_def Let_def)
    qed
    have "text_bytes si (msgtext t) (msg_spot ?h) ?n = map (the usr) [0 ..< ?n]"
    proof (cases "?n = 0")
      case True
      then show ?thesis by (simp add: text_bytes_def)
    next
      case False
      then show ?thesis using put_text_read [OF spot [OF False]] S(7) by (simp add: new_msg_def)
    qed
    then have e: "msg_entry si t mp = (ty, map (the usr) [0 ..< ?n])" by (simp add: msg_entry_def Let_def new)
    have "msg_abs si t = (msg_abs si s)[qp := (if has_mode IPC_ALLOC qp t then Some (map (msg_entry si t) (Q ! qp @ [mp])) else None)]"
      by (rule abs_change [OF cr c' qp kept]) (simp_all add: has_mode_def S(6))
    moreover have "map (msg_entry si t) (Q ! qp) = map (msg_entry si s) (Q ! qp)"
      using kept in_concat [of qp Q] qp lq by (intro map_cong refl) simp
    ultimately have "msg_abs si t = (msg_abs si s)[qp := Some (map (msg_entry si s) (Q ! qp) @ [(ty, map (the usr) [0 ..< ?n])])]"
      by (simp only: S(13) al if_True map_append list.map e)
    then have "mq_next (Sent qp (ty, map (the usr) [0 ..< ?n])) (msg_abs si s) (msg_abs si t)"
      using abs_nth [OF cr qp] al qp by (simp add: msg_abs_def)
    then show ?thesis using msg_invI [OF c' lk [OF S(2)]] S(1,14) ok by (simp add: msg_goes_def)
  qed
qed

end
