(* ===== verification/Message_Calls.thy ===== *)
theory Message_Calls
  imports Message_Send
begin

text \<open>
  Every call of \<open>msgsys\<close>, run from its start or from where it slept, keeps the invariant and is an
  abstract step; only the end of a copy hands a message over.
\<close>

section \<open>Every step keeps the invariant\<close>

lemma goes_trans: "msg_calm s (Ret r) u \<Longrightarrow> msg_inv si s C \<Longrightarrow> msg_goes si u e t C' \<Longrightarrow> msg_goes si s e t C'"
  using goes_calm [of si s C "Ret r" u] by (simp add: msg_goes_def)

lemma reopen: "\<not> msglock s ! qp \<Longrightarrow> msg_calm s (Ret r) (msgunlock qp (locked qp s))"
  by (simp add: msg_calm_def unlock_restore)

lemma reopen_inv: "msg_inv si s C \<Longrightarrow> \<not> msglock s ! qp \<Longrightarrow> msg_inv si (msgunlock qp (locked qp s)) C"
  using goes_calm [OF _ reopen, of si s C] by (simp add: msg_goes_def)

lemma rcv_goes:
  assumes inv: "msg_inv si s C" and si: "msg_conf si" and run: "msgrcv si c a s = (out, t)"
  shows "msg_goes si s Keep t (out_copies out @ C)"
proof -
  obtain r s1 where conv: "msgconv si (mr_msqid a) s = (r, s1)" by (cases "msgconv si (mr_msqid a) s")
  note run' = run [unfolded msgrcv_def conv prod.case]
  from conv si show ?thesis
  proof (cases rule: msgconv_cases)
    case 1
    with run' show ?thesis by (intro goes_calm [OF inv]) (auto simp: msg_calm_def)
  next
    case (2 q)
    with run' show ?thesis by (intro goes_calm [OF inv]) (auto simp: msg_calm_def)
  next
    case (3 qp)
    have lv: "msg_goes si s Keep t (out_copies out @ C)" if "leave qp (Err e) (locked qp s) = (out, t)" for e
      by (rule goes_calm [OF inv leave_calm(1) [OF _ _ 3(4) that]]) simp_all
    have go: "msg_goes si s Keep t (out_copies out @ C)" if "msgrcv_find si a qp (msgunlock qp (locked qp s)) = (out, t)"
      by (rule goes_trans [OF reopen [OF 3(4)] inv rcv_find_goes [OF reopen_inv [OF inv 3(4)] si that]])
    from run' 3(1,2) lv go show ?thesis by (auto simp: Let_def split: sum.splits if_splits)
  qed
qed

lemma snd_goes:
  assumes inv: "msg_inv si s C" and si: "msg_conf si" and run: "msgsnd si c a s = (out, t)"
  shows "msg_goes si s Keep t (out_copies out @ C)"
proof -
  obtain r s1 where conv: "msgconv si (ms_msqid a) s = (r, s1)" by (cases "msgconv si (ms_msqid a) s")
  note run' = run [unfolded msgsnd_def conv prod.case]
  from conv si show ?thesis
  proof (cases rule: msgconv_cases)
    case 1
    with run' show ?thesis by (intro goes_calm [OF inv]) (auto simp: msg_calm_def)
  next
    case (2 q)
    with run' show ?thesis by (intro goes_calm [OF inv]) (auto simp: msg_calm_def)
  next
    case (3 qp)
    have lv: "msg_goes si s Keep t (out_copies out @ C)" if "leave qp (Err e) (locked qp s) = (out, t)" for e
      by (rule goes_calm [OF inv leave_calm(1) [OF _ _ 3(4) that]]) simp_all
    have go: "msg_goes si s Keep t (out_copies out @ C)" if "msgsnd_res si a qp ty (msgunlock qp (locked qp s)) = (out, t)" for ty
      by (rule goes_trans [OF reopen [OF 3(4)] inv snd_res_goes [OF reopen_inv [OF inv 3(4)] si that]])
    from run' 3(1,2) lv go show ?thesis by (auto simp: Let_def split: sum.splits if_splits option.splits)
  qed
qed

lemma snd_intr_goes:
  assumes inv: "msg_inv si s C" and si: "msg_conf si" and run: "msgsnd_intr si a q0 full s = (out, t)"
  shows "msg_goes si s Keep t (out_copies out @ C)"
proof -
  obtain r s1 where conv: "msgconv si (ms_msqid a) s = (r, s1)" by (cases "msgconv si (ms_msqid a) s")
  note run' = run [unfolded msgsnd_intr_def conv prod.case]
  from conv si show ?thesis
  proof (cases rule: msgconv_cases)
    case 1
    with run' show ?thesis by (intro goes_calm [OF inv]) (auto simp: msg_calm_def)
  next
    case (2 q)
    with run' show ?thesis by (intro goes_calm [OF inv]) (auto simp: msg_calm_def)
  next
    case (3 qp)
    have lv: "msg_goes si s Keep t (out_copies out @ C)"
      if "leave qp (Err e) u = (out, t)" "quiet s u" "msglock u = msglock (locked qp s)" for e u
      using leave_calm(1) [OF that(2) _ 3(4) that(1)] that(3) by (intro goes_calm [OF inv]) simp
    have "quiet s (wake (SndChan qp) (upd_qp qp (set_mode (\<lambda>m. m AND NOT MSG_WWAIT)) (locked qp s)))"
      by simp (rule quiet_trans [where b = "locked qp s"], simp_all)
    from run' 3(1,2) lv [OF _ this] lv [where u = "locked qp s"] show ?thesis by (auto split: if_splits)
  qed
qed

lemma set_quiet:
  assumes "msgctl_set c old_cmd ds qp s = (r, t)"
  shows "quiet s t \<and> msglock t = msglock s"
proof -
  have "quiet s (upd_qp qp (\<lambda>d. d\<lparr>msg_perm := (msg_perm d)\<lparr>ip_uid := uid, ip_gid := gid,
      ip_mode := (ip_mode (msg_perm d) AND NOT PERM_MASK) OR (mode AND PERM_MASK)\<rparr>,
      msg_qbytes := qbytes, msg_ctime := hrestime c\<rparr>) s)" for uid gid mode qbytes
    by (rule quiet_upd) simp
  with assms show ?thesis by (auto simp: msgctl_set_def split: option.splits if_splits)
qed

lemma ctl_goes:
  assumes inv: "msg_inv si s C" and si: "msg_conf si" and run: "msgctl si c a s = (out, t)"
  shows "\<exists>e. msg_goes si s e t (out_copies out @ C) \<and> (e = Keep \<or> (\<exists>qp. e = Destroy qp \<and> out = Ret (Ok (MVal 0))))"
proof -
  obtain r s1 where conv: "msgconv si (mc_msgid a) s = (r, s1)" by (cases "msgconv si (mc_msgid a) s")
  note run' = run [unfolded msgctl_def conv prod.case]
  from conv si show ?thesis
  proof (cases rule: msgconv_cases)
    case 1
    with run' show ?thesis by (intro exI [of _ Keep] conjI goes_calm [OF inv]) (auto simp: msg_calm_def)
  next
    case (2 q)
    with run' show ?thesis by (intro exI [of _ Keep] conjI goes_calm [OF inv]) (auto simp: msg_calm_def)
  next
    case (3 qp)
    have lv: "\<exists>e. msg_goes si s e t (out_copies out @ C) \<and> (e = Keep \<or> (\<exists>qp. e = Destroy qp \<and> out = Ret (Ok (MVal 0))))"
      if "leave qp r u = (out, t)" "quiet s u" "msglock u = msglock (locked qp s)" for r u
      using leave_calm(1) [OF that(2) _ 3(4) that(1)] that(3) by (intro exI [of _ Keep] conjI goes_calm [OF inv]) simp_all
    note lv1 = lv [where u = "locked qp s"]
    note run'' = run' [unfolded 3(1,2) conv_out.case Let_def]
    show ?thesis
    proof (cases "mc_cmd a")
      case (MsgRmid old_cmd)
      have g: "msg_goes si s (Destroy qp) (msgunlock qp (msgctl_rmid si old_cmd (mc_msgid a) qp (locked qp s))) C"
        by (rule rmid_goes [OF inv si 3(3,4,5)])
      from run'' MsgRmid lv1 g show ?thesis by (auto simp: leave_def split: sum.splits)
    next
      case (MsgSet old_cmd)
      obtain r2 s2 where set: "msgctl_set c old_cmd (mc_set a) qp (locked qp s) = (r2, s2)" by (metis surj_pair)
      from set_quiet [OF this] have "quiet s s2" "msglock s2 = msglock (locked qp s)" by simp_all
      from run'' MsgSet lv1 lv [OF _ this] set show ?thesis by (auto split: sum.splits)
    next
      case (MsgStat old_cmd)
      from run'' MsgStat lv1 show ?thesis by (auto split: sum.splits)
    next
      case MsgBad
      from run'' MsgBad lv1 show ?thesis by auto
    qed
  qed
qed

lemma run_goes:
  assumes inv: "msg_inv si s C" and si: "msg_conf si" and run: "msg_run si c k s = (out, t)"
  shows "\<exists>e. msg_goes si s e t (out_copies out @ C) \<and> (e = Keep \<or> (\<exists>qp. e = Create qp \<and> (\<exists>ident. out = Ret (Ok (MVal ident))) \<or> e = Destroy qp \<and> out = Ret (Ok (MVal 0))))"
proof (cases k)
  case (KCtl a)
  with ctl_goes [OF inv si, of c a out t] run show ?thesis by (auto simp: msg_run_def)
next
  case (KGet a)
  obtain r s1 where "msgget si c a s = (r, s1)" by (metis surj_pair)
  with msgget_goes [OF inv this] run KGet show ?thesis by (auto simp: msg_run_def)
next
  case KBad
  with goes_calm [OF inv, of out t] run show ?thesis by (auto simp: msg_run_def msg_calm_def)
next
  case (KRcv a)
  with rcv_goes [OF inv si, of c a out t] run show ?thesis by (auto simp: msg_run_def)
next
  case (KRcvFind a qp)
  with rcv_find_goes [OF inv si, of a qp out t] run show ?thesis by (auto simp: msg_run_def)
next
  case (KSnd a)
  with snd_goes [OF inv si, of c a out t] run show ?thesis by (auto simp: msg_run_def)
next
  case (KSndRes a qp ty)
  with snd_res_goes [OF inv si, of a qp ty out t] run show ?thesis by (auto simp: msg_run_def)
next
  case (KSndIntr a qp full)
  with snd_intr_goes [OF inv si, of a qp full out t] run show ?thesis by (auto simp: msg_run_def)
qed

text \<open>Only the end of a copy hands a message over.\<close>

lemma relock_no_msg:
  assumes "\<And>u. fst (go u) \<noteq> Ret (Ok (MMsg ty bs))"
  shows "fst (relock si ident qp k go s) \<noteq> Ret (Ok (MMsg ty bs))"
  using assms by (auto simp: relock_def leave_def split: prod.split conv_out.split)

lemma run_no_msg: "fst (msg_run si c k s) \<noteq> Ret (Ok (MMsg ty bs))"
proof -
  have find: "fst (msgrcv_find si a qp u) \<noteq> Ret (Ok (MMsg ty bs))" for a qp u
    unfolding msgrcv_find_def by (rule relock_no_msg) (auto simp: leave_def doze_def Let_def split: prod.split option.split)
  have res: "fst (msgsnd_res si a qp ty' u) \<noteq> Ret (Ok (MMsg ty bs))" for a qp ty' u
    unfolding msgsnd_res_def by (rule relock_no_msg) (auto simp: leave_def doze_def Let_def split: prod.split option.split)
  have get: "map_sum id MVal r \<noteq> Ok (MMsg ty bs)" for r :: "int res" by (cases r) simp_all
  show ?thesis
    by (auto simp: get msg_run_def msgctl_def msgctl_set_def msgctl_stat_def msgrcv_def msgsnd_def msgsnd_intr_def find res leave_def Let_def
        split: msg_kont.split prod.split conv_out.split msg_cmd.split sum.split option.split)
qed

end
