(* ===== verification/Message_Sleep.thy ===== *)
theory Message_Sleep
  imports Message_Calls
begin

text \<open>
  The conditions under which processes sleep on the channels of \<open>msg.c\<close>: \<open>keeps\<close> says that a step
  wakes a channel or leaves its condition, and \<open>sleeps_ok\<close> what is true of a sleeper.
\<close>

section \<open>What a sleeper awaits for\<close>

text \<open>
  The condition under which a process sleeps on a channel; \<open>keeps s t\<close>: a step from \<open>s\<close> to \<open>t\<close>
  wakes the channel or leaves the condition as it is.
\<close>

fun awaits :: "msg_chan \<Rightarrow> msg_state \<Rightarrow> bool" where
  "awaits (LockChan q) s \<longleftrightarrow> msglock s ! q"
| "awaits HdrChan s \<longleftrightarrow> msgfp s = None"
| "awaits (RcvChan q) s \<longleftrightarrow> has_mode MSG_RWAIT q s \<and> has_mode IPC_ALLOC q s"
| "awaits (SndChan q) s \<longleftrightarrow> has_mode MSG_WWAIT q s \<and> has_mode IPC_ALLOC q s"
| "awaits MapChan s \<longleftrightarrow> True"

definition keeps :: "msg_state \<Rightarrow> msg_state \<Rightarrow> bool" where
  "keeps s t \<longleftrightarrow> set (msg_woken s) \<subseteq> set (msg_woken t)
     \<and> (\<forall>ch. awaits ch s \<longrightarrow> ch \<in> set (msg_woken t) \<or> awaits ch t)"

lemma keeps_refl [simp]: "keeps s s"
  by (simp add: keeps_def)

lemma keeps_trans [trans]: "keeps a b \<Longrightarrow> keeps b c \<Longrightarrow> keeps a c"
  unfolding keeps_def by (meson subset_iff)

lemma keepsI:
  assumes "set (msg_woken s) \<subseteq> set (msg_woken t)"
    and "\<And>q. msglock s ! q \<Longrightarrow> LockChan q \<in> set (msg_woken t) \<or> msglock t ! q"
    and "msgfp s = None \<Longrightarrow> HdrChan \<in> set (msg_woken t) \<or> msgfp t = None"
    and "\<And>q. has_mode MSG_RWAIT q s \<Longrightarrow> has_mode IPC_ALLOC q s \<Longrightarrow> RcvChan q \<in> set (msg_woken t) \<or> has_mode MSG_RWAIT q t \<and> has_mode IPC_ALLOC q t"
    and "\<And>q. has_mode MSG_WWAIT q s \<Longrightarrow> has_mode IPC_ALLOC q s \<Longrightarrow> SndChan q \<in> set (msg_woken t) \<or> has_mode MSG_WWAIT q t \<and> has_mode IPC_ALLOC q t"
  shows "keeps s t"
  unfolding keeps_def
proof (intro conjI allI impI)
  fix ch assume "awaits ch s"
  then show "ch \<in> set (msg_woken t) \<or> awaits ch t" using assms(2-5) by (cases ch) auto
qed (rule assms(1))

lemma has_mode_upd:
  "has_mode b i (upd_qp qp f s) = (if i = qp \<and> qp < length (msgque s)
     then ip_mode (msg_perm (f (msgque s ! qp))) AND b \<noteq> 0 else has_mode b i s)"
  by (cases "qp < length (msgque s)") (auto simp: has_mode_def upd_qp_def list_update_beyond)

lemma has_mode_frame [simp]:
  "has_mode b i (wake ch s) = has_mode b i s" "has_mode b i (s\<lparr>msglock := l\<rparr>) = has_mode b i s"
  "has_mode b i (s\<lparr>msgfp := p\<rparr>) = has_mode b i s" "has_mode b i (s\<lparr>msgmap := m\<rparr>) = has_mode b i s"
  "has_mode b i (s\<lparr>msgtext := x\<rparr>) = has_mode b i s" "has_mode b i (upd_mp mp g s) = has_mode b i s"
  "has_mode b i (msgunlock qp s) = has_mode b i s" "has_mode b i (msgfp_free mp s) = has_mode b i s"
  "has_mode b i (map_free n a s) = has_mode b i s"
  "has_mode b i (s\<lparr>msg_woken := w\<rparr>) = has_mode b i s"
  by (simp_all add: has_mode_def)

text \<open>The primitives.\<close>

lemma keeps_upd:
  assumes "\<And>b. b \<in> {MSG_RWAIT, MSG_WWAIT, IPC_ALLOC} \<Longrightarrow> ip_mode (msg_perm (msgque s ! qp)) AND b \<noteq> 0 \<Longrightarrow>
      ip_mode (msg_perm (f (msgque s ! qp))) AND b \<noteq> 0"
  shows "keeps s (upd_qp qp f s)"
proof -
  have k: "has_mode b q (upd_qp qp f s)" if "b \<in> {MSG_RWAIT, MSG_WWAIT, IPC_ALLOC}" "has_mode b q s" for b q
    using assms [OF that(1)] that(2) by (cases "q = qp"; simp add: has_mode_upd) (simp_all add: has_mode_def)
  then show ?thesis by (intro keepsI) (auto intro: k)
qed

lemma keeps_unlock [simp]: "keeps s (msgunlock qp s)"
  by (intro keepsI) (auto simp: nth_list_update_neq)

lemma keeps_lock [simp]: "keeps s (locked qp s)"
  by (intro keepsI) (auto simp: nth_list_update split: if_splits, metis list_update_beyond not_le_imp_less nth_list_update)

lemma keeps_woken [simp]: "keeps s (wake ch s)"
  by (intro keepsI) auto

lemma keeps_mp [simp]: "keeps s (upd_mp mp f s)" "keeps s (s\<lparr>msgmap := m\<rparr>)" "keeps s (s\<lparr>msgtext := x\<rparr>)"
  by (intro keepsI; simp)+

lemma keeps_free [simp]: "keeps s (msgfp_free mp s)"
  by (intro keepsI) (auto simp: msgfp_free_def Let_def)

lemma keeps_map_free [simp]: "keeps s (map_free n a s)"
  by (auto simp: map_free_def intro!: keepsI split: prod.split rm_out.split bool.split)

lemma keeps_wake_senders [simp]:
  "keeps s (wake (SndChan qp) (upd_qp qp (set_mode (\<lambda>m. m AND NOT MSG_WWAIT)) s))"
proof -
  let ?t = "upd_qp qp (set_mode (\<lambda>m. m AND NOT MSG_WWAIT)) s"
  have k: "has_mode MSG_RWAIT q ?t = has_mode MSG_RWAIT q s" "has_mode IPC_ALLOC q ?t = has_mode IPC_ALLOC q s" for q
    by (simp_all add: has_mode_upd) (simp_all add: has_mode_def)
  have w: "q = qp \<or> has_mode MSG_WWAIT q ?t = has_mode MSG_WWAIT q s" for q by (simp add: has_mode_upd)
  show ?thesis
  proof (rule keepsI)
    fix q assume "has_mode MSG_WWAIT q s" "has_mode IPC_ALLOC q s"
    then show "SndChan q \<in> set (msg_woken (wake (SndChan qp) ?t)) \<or> has_mode MSG_WWAIT q (wake (SndChan qp) ?t) \<and> has_mode IPC_ALLOC q (wake (SndChan qp) ?t)"
      using w [of q] by (auto simp: k)
  qed (auto simp: k)
qed

lemma keeps_wake_receivers [simp]:
  "keeps s (wake (RcvChan qp) (upd_qp qp (set_mode (\<lambda>m. m AND NOT MSG_RWAIT)) s))"
proof -
  let ?t = "upd_qp qp (set_mode (\<lambda>m. m AND NOT MSG_RWAIT)) s"
  have k: "has_mode MSG_WWAIT q ?t = has_mode MSG_WWAIT q s" "has_mode IPC_ALLOC q ?t = has_mode IPC_ALLOC q s" for q
    by (simp_all add: has_mode_upd) (simp_all add: has_mode_def)
  have w: "q = qp \<or> has_mode MSG_RWAIT q ?t = has_mode MSG_RWAIT q s" for q by (simp add: has_mode_upd)
  show ?thesis
  proof (rule keepsI)
    fix q assume "has_mode MSG_RWAIT q s" "has_mode IPC_ALLOC q s"
    then show "RcvChan q \<in> set (msg_woken (wake (RcvChan qp) ?t)) \<or> has_mode MSG_RWAIT q (wake (RcvChan qp) ?t) \<and> has_mode IPC_ALLOC q (wake (RcvChan qp) ?t)"
      using w [of q] by (auto simp: k)
  qed (auto simp: k)
qed

lemma keeps_msgfree [simp]: "keeps s (msgfree si qp pmp mp s)"
proof -
  let ?next = "msg_next (msgh s ! mp)"
  let ?s1 = "case pmp of None \<Rightarrow> upd_qp qp (\<lambda>d. d\<lparr>msg_first := ?next\<rparr>) s | Some p \<Rightarrow> upd_mp p (\<lambda>h. h\<lparr>msg_next := ?next\<rparr>) s"
  let ?s2 = "upd_qp qp (\<lambda>d. d\<lparr>msg_last := (if ?next = None then pmp else msg_last d), msg_qnum := u32 (msg_qnum d - 1)\<rparr>) ?s1"
  have "keeps s ?s1" by (cases pmp) (simp_all add: keeps_upd)
  also have "keeps ?s1 ?s2" by (rule keeps_upd) simp
  also have "keeps ?s2 (msg_unlinked qp pmp mp s)" by (simp add: msg_unlinked_def Let_def)
  also have "keeps (msg_unlinked qp pmp mp s) (msgfree si qp pmp mp s)"
    unfolding msgfree_parts Let_def by (rule keeps_trans [OF _ keeps_free]) simp
  finally show ?thesis .
qed

lemma keeps_rmid_msgs: "keeps s (rmid_msgs n si qp s)"
  by (induction n arbitrary: s) (auto split: option.split intro: keeps_trans [OF keeps_msgfree])

lemma keeps_rmid: "keeps s (msgctl_rmid si old_cmd ident qp s)"
proof -
  let ?s1 = "upd_qp qp (\<lambda>d. d\<lparr>msg_cbytes := 0,
     msg_perm := (msg_perm d)\<lparr>ip_seq := ipc_next_seq (msgmni si) old_cmd ident (ip_seq (msg_perm d))\<rparr>\<rparr>) (rmid_msgs (msgtql si) si qp s)"
  have "keeps s (rmid_msgs (msgtql si) si qp s)" by (rule keeps_rmid_msgs)
  also have "keeps \<dots> ?s1" by (rule keeps_upd) simp
  also have "keeps ?s1 (msgctl_rmid si old_cmd ident qp s)"
    unfolding msgctl_rmid_def Let_def by (intro keepsI) (auto simp: has_mode_upd)
  finally show ?thesis .
qed

lemma keeps_set_flag:
  "keeps s (upd_qp qp (set_mode (\<lambda>m. m OR MSG_RWAIT)) s)" "keeps s (upd_qp qp (set_mode (\<lambda>m. m OR MSG_WWAIT)) s)"
  by (rule keeps_upd; auto)+

text \<open>One more primitive after a step that keeps the conditions.\<close>

lemma keeps_more:
  assumes "keeps s u"
  shows "keeps s (msgunlock qp u)" "keeps s (locked qp u)" "keeps s (wake ch u)" "keeps s (upd_mp mp g u)"
    "keeps s (u\<lparr>msgmap := m\<rparr>)" "keeps s (u\<lparr>msgtext := x\<rparr>)" "keeps s (msgfp_free mp u)" "keeps s (map_free n a u)"
    "keeps s (wake (SndChan qp) (upd_qp qp (set_mode (\<lambda>m. m AND NOT MSG_WWAIT)) u))"
    "keeps s (wake (RcvChan qp) (upd_qp qp (set_mode (\<lambda>m. m AND NOT MSG_RWAIT)) u))"
    "keeps s (msgfree si qp pmp mp u)" "keeps s (msgctl_rmid si old_cmd ident qp u)"
    "keeps s (upd_qp qp (set_mode (\<lambda>m. m OR MSG_RWAIT)) u)" "keeps s (upd_qp qp (set_mode (\<lambda>m. m OR MSG_WWAIT)) u)"
  using assms by (auto intro: keeps_trans keeps_rmid keeps_set_flag)

lemma keeps_leave:
  "keeps s u \<Longrightarrow> keeps s (snd (leave qp r u))" "keeps s u \<Longrightarrow> keeps s (snd (doze qp ch k u))"
  by (simp_all add: leave_def doze_def keeps_more)

lemma keeps_pop:
  "msgfp u = Some mp \<Longrightarrow> keeps u (u\<lparr>msgfp := p\<rparr>)" "msgfp u = Some mp \<Longrightarrow> keeps u (u\<lparr>msgfp := p, msgmap := m\<rparr>)"
  by (intro keepsI; simp)+

lemma keeps_conv: "keeps s (snd (msgconv si ident s))"
  by (auto simp: msgconv_def Let_def intro: keeps_more)

lemma keeps_relock:
  assumes "\<And>u. keeps u (snd (go u))"
  shows "keeps s (snd (relock si ident qp k go s))"
proof -
  obtain r u where conv: "msgconv si ident s = (r, u)" by (metis surj_pair)
  with keeps_conv [of s si ident] have u: "keeps s u" by simp
  then show ?thesis using assms [of u] conv
    by (auto simp: relock_def split: conv_out.split intro: keeps_leave keeps_trans)
qed

lemma keeps_rcv_find: "keeps s (snd (msgrcv_find si a qp s))"
  unfolding msgrcv_find_def
  by (rule keeps_relock) (auto simp: Let_def split: prod.split option.split intro!: keeps_leave keeps_more)

lemma keeps_snd_res: "keeps s (snd (msgsnd_res si a qp ty s))"
  unfolding msgsnd_res_def
  by (rule keeps_relock) (auto simp: Let_def keeps_pop split: prod.split option.split intro!: keeps_leave keeps_more(7,13,14))

lemma keeps_rcv: "keeps s (snd (msgrcv si c a s))"
proof -
  obtain r u where conv: "msgconv si (mr_msqid a) s = (r, u)" by (metis surj_pair)
  with keeps_conv [of s si "mr_msqid a"] have u: "keeps s u" by simp
  then show ?thesis using conv
    by (auto simp: msgrcv_def Let_def split: conv_out.split sum.split
        intro: keeps_leave keeps_trans [OF keeps_more(1) keeps_rcv_find])
qed

lemma keeps_snd: "keeps s (snd (msgsnd si c a s))"
proof -
  obtain r u where conv: "msgconv si (ms_msqid a) s = (r, u)" by (metis surj_pair)
  with keeps_conv [of s si "ms_msqid a"] have u: "keeps s u" by simp
  then show ?thesis using conv
    by (auto simp: msgsnd_def Let_def split: conv_out.split sum.split option.split
        intro: keeps_leave keeps_trans [OF keeps_more(1) keeps_snd_res])
qed

lemma keeps_snd_intr: "keeps s (snd (msgsnd_intr si a qp full s))"
proof -
  obtain r u where conv: "msgconv si (ms_msqid a) s = (r, u)" by (metis surj_pair)
  with keeps_conv [of s si "ms_msqid a"] have u: "keeps s u" by simp
  then show ?thesis using conv
    by (auto simp: msgsnd_intr_def Let_def split: conv_out.split intro: keeps_leave keeps_more)
qed

lemma keeps_set: "keeps s (snd (msgctl_set c old_cmd ds qp s))"
  by (auto simp: msgctl_set_def split: option.split intro!: keeps_upd)

lemma keeps_ctl: "keeps s (snd (msgctl si c a s))"
proof -
  obtain r u where conv: "msgconv si (mc_msgid a) s = (r, u)" by (metis surj_pair)
  with keeps_conv [of s si "mc_msgid a"] have u: "keeps s u" by simp
  have set: "keeps s v" if "msgctl_set c old_cmd ds qp u = (r2, v)" for old_cmd ds qp r2 v
    using keeps_trans [OF u keeps_set [of u c old_cmd ds qp]] that by simp
  show ?thesis using conv u
    by (auto simp: msgctl_def Let_def split: conv_out.split sum.split msg_cmd.split prod.split
        intro!: keeps_leave intro: keeps_more set)
qed

lemma keeps_get: "keeps s (snd (msgget si c a s))"
proof -
  obtain r t where get: "msgget si c a s = (r, t)" by (metis surj_pair)
  then show ?thesis
  proof (cases rule: msgget_cases)
    case (2 qp)
    have "keeps s (upd_qp qp (new_msqid si c a) s)"
      using 2(2) by (intro keepsI) (auto simp: has_mode_upd)
    then show ?thesis using get 2 by simp
  qed (simp add: get)
qed

lemma keeps_run: "keeps s (snd (msg_run si c k s))"
  using keeps_get [of s si c]
  by (auto simp: msg_run_def keeps_ctl keeps_rcv keeps_rcv_find keeps_snd keeps_snd_res keeps_snd_intr
      split: msg_kont.split prod.split) (metis snd_conv)

lemma keeps_same_mode:
  assumes "keeps s u" and "\<And>d. ip_mode (msg_perm (f d)) = ip_mode (msg_perm d)"
  shows "keeps s (upd_qp qp f u)"
  by (rule keeps_trans [OF assms(1) keeps_upd]) (simp add: assms(2))

lemma keeps_copied: "keeps s (snd (msg_copied si c cp u s))"
  by (cases cp)
    (auto simp: msg_copied_def msgrcv_copied_def msgsnd_copied_def Let_def split: option.split
      intro!: keeps_leave keeps_more keeps_same_mode)

section \<open>Who sleeps, and for what\<close>

text \<open>A sleeping receiver finds no message of its type on the queue.\<close>

definition none_for :: "mqueue option list \<Rightarrow> nat \<Rightarrow> int \<Rightarrow> bool" where
  "none_for M q t \<longleftrightarrow> (case M ! q of None \<Rightarrow> False | Some xs \<Rightarrow> \<forall>x \<in> set xs. \<not> eligible t (fst x))"

definition sleeps_ok :: "msginfo \<Rightarrow> msg_state \<Rightarrow> msg_chan \<Rightarrow> msg_kont \<Rightarrow> bool" where
  "sleeps_ok si s ch k \<longleftrightarrow> awaits ch s \<and> (case ch of
      RcvChan q \<Rightarrow> (case k of KRcvFind a qp \<Rightarrow> qp = q \<and> q < msgmni si \<and> none_for (msg_abs si s) q (mr_msgtyp a) | _ \<Rightarrow> False)
    | SndChan q \<Rightarrow> q < msgmni si | LockChan q \<Rightarrow> q < msgmni si | _ \<Rightarrow> True)"

lemma relock_sleep:
  assumes "relock si ident qp k go s = (Sleep ch k', t)" and "msg_conf si"
  obtains q where "ch = LockChan q" "t = s" "q < msgmni si" "msglock s ! q"
  | "qp < msgmni si" "\<not> msglock s ! qp" "has_mode IPC_ALLOC qp s" "go (locked qp s) = (Sleep ch k', t)"
proof -
  obtain r s1 where conv: "msgconv si ident s = (r, s1)" by (cases "msgconv si ident s")
  from conv assms(2) show thesis
  proof (cases rule: msgconv_cases)
    case (2 q)
    with assms(1) conv that(1) show thesis by (auto simp: relock_def)
  next
    case (3 q)
    with assms(1) conv that(2) show thesis by (cases "q = qp") (auto simp: relock_def leave_def)
  qed (use assms(1) conv in \<open>auto simp: relock_def\<close>)
qed

lemma locked_sleep: "q < msgmni si \<Longrightarrow> msglock s ! q \<Longrightarrow> sleeps_ok si s (LockChan q) k"
  by (simp add: sleeps_ok_def)

lemma rcv_find_sleep:
  assumes inv: "msg_inv si s C" and si: "msg_conf si" and run: "msgrcv_find si a qp s = (Sleep ch k, t)"
  shows "sleeps_ok si t ch k"
  using run [unfolded msgrcv_find_def] si
proof (cases rule: relock_sleep)
  case (1 q)
  then show ?thesis by (simp add: locked_sleep)
next
  case 2
  let ?s = "locked qp s"
  from inv obtain fl Q where c: "msg_core si s fl Q C" by (auto simp: msg_inv_def)
  have cs: "msg_core si ?s fl Q C" using c by (rule core_quiet [rotated]) simp
  have lq: "length (msgque s) = msgmni si" using core_lists [OF c] by simp
  obtain p b where pb: "rcv_find si (mr_msgtyp a) qp ?s = (p, b)" by (metis surj_pair)
  have b: "b = None" and ch: "ch = RcvChan qp" "k = KRcvFind a qp"
    and t: "t = msgunlock qp (upd_qp qp (set_mode (\<lambda>m. m OR MSG_RWAIT)) ?s)"
    using 2(4) pb by (auto simp: leave_def doze_def Let_def split: if_splits option.splits)
  have "quiet s t" unfolding t by simp (rule quiet_trans [where b = ?s], simp_all)
  then have "msg_abs si t = msg_abs si s" by (rule abs_quiet) (rule lq)
  moreover have "\<forall>x \<in> set (Q ! qp). \<not> eligible (mr_msgtyp a) (msg_type (msgh s ! x))"
    using rcv_find_spec [OF cs 2(1), of "mr_msgtyp a"] pb b by (simp add: found_None)
  then have "none_for (msg_abs si s) qp (mr_msgtyp a)"
    using abs_nth [OF c 2(1)] 2(3) by (auto simp: none_for_def msg_entry_def Let_def)
  ultimately show ?thesis using 2(1,3) lq by (simp add: sleeps_ok_def ch t has_mode_upd)
      (simp add: has_mode_def)
qed

lemma snd_res_sleep:
  assumes len: "length (msgque s) = msgmni si" and si: "msg_conf si" and run: "msgsnd_res si a qp ty s = (Sleep ch k, t)"
  shows "sleeps_ok si t ch k"
  using run [unfolded msgsnd_res_def] si
proof (cases rule: relock_sleep)
  case (1 q)
  then show ?thesis by (simp add: locked_sleep)
next
  case 2
  have "ch = SndChan qp \<and> t = msgunlock qp (upd_qp qp (set_mode (\<lambda>m. m OR MSG_WWAIT)) (locked qp s))
      \<or> ch = HdrChan \<and> msgfp t = None \<or> ch = MapChan"
    using 2(4) by (auto simp: leave_def doze_def Let_def split: if_splits option.splits prod.splits)
  moreover have "ip_mode (msg_perm (msgque s ! qp)) AND IPC_ALLOC \<noteq> 0" using 2(3) by (simp add: has_mode_def)
  ultimately show ?thesis using 2(1) len by (auto simp: sleeps_ok_def has_mode_upd)
qed

lemma run_sleep:
  assumes inv: "msg_inv si s C" and si: "msg_conf si" and run: "msg_run si c k0 s = (Sleep ch k, t)"
  shows "sleeps_ok si t ch k"
proof -
  have len: "length (msgque s) = msgmni si" using inv_len [OF inv] by simp
  have conv: "sleeps_ok si t ch k \<or> (\<exists>qp. \<not> msglock s ! qp \<and> r = ConvOk qp \<and> u = locked qp s) \<or> r = ConvErr"
    if "msgconv si ident s = (r, u)" "\<And>q. r = ConvWait q \<Longrightarrow> ch = LockChan q \<and> t = u" for ident r u
    using that(1) si by (cases rule: msgconv_cases) (use that(2) in \<open>auto simp: locked_sleep\<close>)
  have lv: "leave qp e u \<noteq> (Sleep ch k, t)" for qp e u by (simp add: leave_def)
  show ?thesis
  proof (cases k0)
    case (KCtl a)
    obtain r u where cv: "msgconv si (mc_msgid a) s = (r, u)" by (metis surj_pair)
    from conv [OF cv] run KCtl cv lv show ?thesis
      by (auto simp: msg_run_def msgctl_def Let_def split: conv_out.splits msg_cmd.splits sum.splits prod.splits)
  next
    case (KRcv a)
    obtain r u where cv: "msgconv si (mr_msqid a) s = (r, u)" by (metis surj_pair)
    from conv [OF cv] run KRcv cv lv rcv_find_sleep [OF reopen_inv [OF inv] si, of _ a _ ch k t] show ?thesis
      by (auto simp: msg_run_def msgrcv_def Let_def split: conv_out.splits sum.splits if_splits)
  next
    case (KSnd a)
    obtain r u where cv: "msgconv si (ms_msqid a) s = (r, u)" by (metis surj_pair)
    have res: "sleeps_ok si t ch k" if "msgsnd_res si a qp ty (msgunlock qp (locked qp s)) = (Sleep ch k, t)" for qp ty
      by (rule snd_res_sleep [OF _ si that]) (simp add: len)
    from conv [OF cv] run KSnd cv lv res show ?thesis
      by (auto simp: msg_run_def msgsnd_def Let_def split: conv_out.splits sum.splits if_splits option.splits)
  next
    case (KSndIntr a qp full)
    obtain r u where cv: "msgconv si (ms_msqid a) s = (r, u)" by (metis surj_pair)
    from conv [OF cv] run KSndIntr cv lv show ?thesis
      by (auto simp: msg_run_def msgsnd_intr_def Let_def split: conv_out.splits if_splits)
  qed (use run rcv_find_sleep [OF inv si] snd_res_sleep [OF len si] in \<open>auto simp: msg_run_def split: prod.splits\<close>)
qed

end
