(* ===== verification/Message_System.thy ===== *)
theory Message_System
  imports Message_Sleep
begin

text \<open>
  The message queues as a system of processes: the step relation \<open>msg_step\<close>, the reachable states,
  and the invariant \<open>sys_ok\<close> of processes, locks, queues and sleepers.
\<close>

section \<open>The system\<close>

datatype msg_pstate = Idle | Ready msg_kont | Asleep msg_chan msg_kont | InCopy msg_copy

record msg_sys =
  mst :: msg_state
  procs :: "msg_pstate list"

definition msg_after :: "msg_out \<Rightarrow> msg_pstate" where
  "msg_after out = (case out of Ret r \<Rightarrow> Idle | Sleep ch k \<Rightarrow> Asleep ch k | Copying cp \<Rightarrow> InCopy cp)"

definition wake_up :: "msg_chan list \<Rightarrow> msg_pstate \<Rightarrow> msg_pstate" where
  "wake_up w p = (case p of Asleep ch k \<Rightarrow> if ch \<in> set w then Ready k else p | _ \<Rightarrow> p)"

text \<open>Process \<open>p\<close> has run to \<open>out\<close> and left the state \<open>t\<close>; the channels it woke are served.\<close>

definition msg_settle :: "nat \<Rightarrow> msg_out \<times> msg_state \<Rightarrow> msg_sys \<Rightarrow> msg_sys" where
  "msg_settle p r ms = \<lparr>mst = (snd r)\<lparr>msg_woken := []\<rparr>,
     procs = (map (wake_up (msg_woken (snd r))) (procs ms))[p := msg_after (fst r)]\<rparr>"

text \<open>
  A process starts a call, goes on where it was woken, ends a copy, or is interrupted in its
  sleep.  The third argument is what the step came to, \<open>None\<close> for an interrupt.
\<close>

inductive msg_step :: "msginfo \<Rightarrow> msg_sys \<Rightarrow> nat \<Rightarrow> msg_out option \<Rightarrow> msg_sys \<Rightarrow> bool" for si where
  call: "p < length (procs ms) \<Longrightarrow> procs ms ! p = Idle \<Longrightarrow> msg_run si c (msgsys uap) (mst ms) = (out, t) \<Longrightarrow>
    msg_step si ms p (Some out) (msg_settle p (out, t) ms)"
| go_on: "p < length (procs ms) \<Longrightarrow> procs ms ! p = Ready k \<Longrightarrow> msg_run si c k (mst ms) = (out, t) \<Longrightarrow>
    msg_step si ms p (Some out) (msg_settle p (out, t) ms)"
| copied: "p < length (procs ms) \<Longrightarrow> procs ms ! p = InCopy cp \<Longrightarrow> msg_copied si c cp u (mst ms) = (out, t) \<Longrightarrow>
    msg_step si ms p (Some out) (msg_settle p (out, t) ms)"
| sig_return: "p < length (procs ms) \<Longrightarrow> procs ms ! p = Asleep ch k \<Longrightarrow> msg_signal ch k = SigReturn r \<Longrightarrow>
    msg_step si ms p None (ms\<lparr>procs := (procs ms)[p := Idle]\<rparr>)"
| sig_go_on: "p < length (procs ms) \<Longrightarrow> procs ms ! p = Asleep ch k \<Longrightarrow> msg_signal ch k = SigGoOn k' \<Longrightarrow>
    msg_step si ms p None (ms\<lparr>procs := (procs ms)[p := Ready k']\<rparr>)"

inductive msg_reach :: "msginfo \<Rightarrow> msg_sys \<Rightarrow> bool" for si where
  boot: "msg_conf si \<Longrightarrow> msg_reach si \<lparr>mst = msginit si pool, procs = replicate n Idle\<rparr>"
| step: "msg_reach si ms \<Longrightarrow> msg_step si ms p out ms' \<Longrightarrow> msg_reach si ms'"

inductive_cases msg_stepE: "msg_step si ms p out ms'"

definition copies :: "msg_pstate list \<Rightarrow> msg_copy list" where
  "copies ps = concat (map (\<lambda>p. case p of InCopy cp \<Rightarrow> [cp] | _ \<Rightarrow> []) ps)"

definition sys_ok :: "msginfo \<Rightarrow> msg_sys \<Rightarrow> bool" where
  "sys_ok si ms \<longleftrightarrow> msg_conf si \<and> msg_inv si (mst ms) (copies (procs ms)) \<and> msg_woken (mst ms) = []
     \<and> (\<forall>ch k. Asleep ch k \<in> set (procs ms) \<longrightarrow> sleeps_ok si (mst ms) ch k)"

section \<open>The invariant of the system\<close>

lemma mset_concat_map: "mset (concat (map f C)) = sum_mset (image_mset (\<lambda>x. mset (f x)) (mset C))"
  by (induction C) simp_all

lemma inv_perm:
  assumes "mset C = mset C'" and "msg_inv si s C"
  shows "msg_inv si s C'"
proof -
  from assms(2) obtain fl Q where c: "msg_core si s fl Q C" and l: "lock_ok si s C" by (auto simp: msg_inv_def)
  have h: "mset (concat (map cp_hdrs C')) = mset (concat (map cp_hdrs C))"
    "mset (concat (map (cp_exts si) C')) = mset (concat (map (cp_exts si) C))"
    unfolding mset_concat_map assms(1) by simp_all
  have set: "set C' = set C" using mset_eq_setD [OF assms(1)] by simp
  have "store_ok si s fl Q (concat (map cp_hdrs C')) (concat (map (cp_exts si) C'))"
  proof -
    have st: "store_ok si s fl Q (concat (map cp_hdrs C)) (concat (map (cp_exts si) C))" using c by (rule store_hdrs)
    have "units_ok (map (\<lambda>m. hdr_ext si (msgh s ! m)) (concat Q) @ concat (map (cp_exts si) C')) (free_units (msgmap s)) {1 ..< 1 + msgseg si}"
    proof (rule units_ok_permute)
      show "units_ok (map (\<lambda>m. hdr_ext si (msgh s ! m)) (concat Q) @ concat (map (cp_exts si) C)) (free_units (msgmap s)) {1 ..< 1 + msgseg si}"
        using st by (simp add: store_ok_def segs_ok_def)
    qed (intro cover_mset, use h(2) in \<open>simp del: mset_concat\<close>)
    then show ?thesis using st h(1) by (simp add: store_ok_def owned_def segs_ok_def del: mset_concat)
  qed
  then have "msg_core si s fl Q C'" using c set by (simp add: msg_core_def)
  moreover have "lock_ok si s C'"
  proof -
    have "length (filter P C') = length (filter P C)" for P
      using assms(1) by (metis mset_filter size_mset)
    then show ?thesis using l by (simp add: lock_ok_def)
  qed
  ultimately show ?thesis by (rule msg_invI)
qed

definition copy_of :: "msg_pstate \<Rightarrow> msg_copy list" where
  "copy_of p = (case p of InCopy cp \<Rightarrow> [cp] | _ \<Rightarrow> [])"

lemma copies_alt: "copies ps = concat (map copy_of ps)"
  by (simp add: copies_def copy_of_def [abs_def])

lemma copies_update:
  assumes "p < length ps"
  shows "mset (copies (ps[p := x])) + mset (copy_of (ps ! p)) = mset (copies ps) + mset (copy_of x)"
  using concat_update [of p "map copy_of ps" "copy_of x"] assms by (simp add: copies_alt map_update)

lemma copies_wake: "copies (map (wake_up w) ps) = copies ps"
proof -
  have "copy_of (wake_up w p) = copy_of p" for p by (cases p) (simp_all add: copy_of_def wake_up_def)
  then show ?thesis by (simp add: copies_alt comp_def)
qed

lemma copy_of_after: "copy_of (msg_after out) = out_copies out"
  by (cases out) (simp_all add: copy_of_def msg_after_def)

text \<open>A sleeper that is not woken still has its reason.\<close>

lemma abs_None: "q < msgmni si \<Longrightarrow> msg_abs si s ! q = None \<longleftrightarrow> \<not> has_mode IPC_ALLOC q s"
  by (simp add: msg_abs_def)

lemma sleeps_kept:
  assumes sl: "sleeps_ok si s ch k" and kp: "keeps s t" and awake: "ch \<notin> set (msg_woken t)"
    and ev: "mq_next e (msg_abs si s) (msg_abs si t)"
    and sent: "\<And>q x. e = Sent q x \<Longrightarrow> \<not> has_mode MSG_RWAIT q t"
  shows "sleeps_ok si t ch k"
proof -
  have w: "awaits ch t" using sl kp awake by (auto simp: sleeps_ok_def keeps_def)
  show ?thesis
  proof (cases ch)
    case (RcvChan q)
    with sl obtain a where k: "k = KRcvFind a q" and q: "q < msgmni si" and no: "none_for (msg_abs si s) q (mr_msgtyp a)"
      by (auto simp: sleeps_ok_def split: msg_kont.splits)
    have al: "msg_abs si t ! q \<noteq> None" using w RcvChan q by (simp add: abs_None)
    have len: "length (msg_abs si s) = msgmni si" by (simp add: msg_abs_def)
    have "none_for (msg_abs si t) q (mr_msgtyp a)"
    proof (cases e)
      case Keep
      with ev no show ?thesis by simp
    next
      case (Create i)
      with ev no len q show ?thesis by (cases "i = q") (auto simp: none_for_def)
    next
      case (Destroy i)
      with ev no len q al show ?thesis by (cases "i = q") (auto simp: none_for_def)
    next
      case (Sent i x)
      with ev no len q w RcvChan sent show ?thesis by (cases "i = q") (auto simp: none_for_def)
    next
      case (Taken i ty x)
      with ev no len q show ?thesis by (cases "i = q") (auto simp: none_for_def)
    qed
    with w k q RcvChan show ?thesis by (simp add: sleeps_ok_def)
  qed (use w sl in \<open>simp_all add: sleeps_ok_def\<close>)
qed

lemma settle_ok:
  assumes ok: "sys_ok si ms" and p: "p < length (procs ms)"
    and g: "msg_goes si (mst ms) e t C'" and C': "mset C' + mset (copy_of (procs ms ! p)) = mset (copies (procs ms)) + mset (out_copies out)"
    and kp: "keeps (mst ms) t" and sent: "\<And>q x. e = Sent q x \<Longrightarrow> \<not> has_mode MSG_RWAIT q t"
    and sl: "\<And>ch k. out = Sleep ch k \<Longrightarrow> sleeps_ok si t ch k"
  shows "sys_ok si (msg_settle p (out, t) ms) \<and> mq_next e (msg_abs si (mst ms)) (msg_abs si (mst (msg_settle p (out, t) ms)))"
proof -
  let ?t = "t\<lparr>msg_woken := []\<rparr>" and ?ps = "map (wake_up (msg_woken t)) (procs ms)"
  have fr: "quiet t ?t" "msglock ?t = msglock t" by (simp_all add: quiet_def has_mode_def)
  have inv: "msg_inv si t C'" and ev: "mq_next e (msg_abs si (mst ms)) (msg_abs si t)" using g by (simp_all add: msg_goes_def)
  have ab: "msg_abs si ?t = msg_abs si t" by (rule abs_quiet [OF fr(1)]) (use inv_len [OF inv] in simp)
  have inv': "msg_inv si ?t C'" using goes_calm [OF inv, of "Ret undefined" ?t] fr by (simp add: msg_calm_def msg_goes_def)
  have "copy_of (?ps ! p) = copy_of (procs ms ! p)"
    using p by (cases "procs ms ! p") (simp_all add: copy_of_def wake_up_def)
  then have "mset (copies (?ps[p := msg_after out])) = mset C'"
    using copies_update [of p ?ps "msg_after out"] p C' by (simp add: copies_wake copy_of_after) (metis add_right_cancel)
  then have "msg_inv si ?t (copies (?ps[p := msg_after out]))" using inv_perm [OF _ inv'] by simp
  moreover have sleep_t: "sleeps_ok si ?t ch k = sleeps_ok si t ch k" for ch k
    by (cases ch; cases k) (simp_all add: sleeps_ok_def ab)
  have "sleeps_ok si ?t ch k" if "Asleep ch k \<in> set (?ps[p := msg_after out])" for ch k
  proof -
    from set_update_subset_insert that have "Asleep ch k = msg_after out \<or> Asleep ch k \<in> set ?ps" by fast
    then show ?thesis
    proof
      assume "Asleep ch k = msg_after out"
      then have "out = Sleep ch k" by (cases out) (simp_all add: msg_after_def)
      from sl [OF this] show ?thesis by (simp add: sleep_t)
    next
      assume "Asleep ch k \<in> set ?ps"
      then obtain x where x: "x \<in> set (procs ms)" "Asleep ch k = wake_up (msg_woken t) x" by auto
      have "x = Asleep ch k \<and> ch \<notin> set (msg_woken t)"
        using x(2) by (cases x) (simp_all add: wake_up_def split: if_splits)
      then have xx: "x = Asleep ch k" "ch \<notin> set (msg_woken t)" by simp_all
      with x(1) ok have "sleeps_ok si (mst ms) ch k" by (simp add: sys_ok_def)
      from sleeps_kept [OF this kp xx(2) ev sent] show ?thesis by (simp add: sleep_t)
    qed
  qed
  ultimately show ?thesis using ok ev by (simp add: sys_ok_def msg_settle_def ab)
qed

lemma copied_goes:
  assumes inv: "msg_inv si s (cp # C)" and si: "msg_conf si" and run: "msg_copied si c cp u s = (out, t)"
  shows "\<exists>e. msg_goes si s e t C \<and> answers e (Some out) \<and> (\<forall>q x. e = Sent q x \<longrightarrow> \<not> has_mode MSG_RWAIT q t)
    \<and> out_copies out = [] \<and> (\<forall>ch k. out \<noteq> Sleep ch k)"
proof (cases cp)
  case (RcvCopy a qp pmp mp sz)
  have run': "msgrcv_copied si c qp pmp mp sz (uc_out0 u) (uc_out1 u) s = (out, t)" using run RcvCopy by (simp add: msg_copied_def)
  from rcv_copied_goes [OF inv [unfolded RcvCopy] si run'] show ?thesis
  proof (elim disjE exE conjE)
    fix bs assume "msg_goes si s (Taken qp (mr_msgtyp a) (msg_type (msgh s ! mp), bs)) t C"
      "out = Ret (Ok (MMsg (msg_type (msgh s ! mp)) (take sz bs)))"
    then show ?thesis by (intro exI [of _ "Taken qp (mr_msgtyp a) (msg_type (msgh s ! mp), bs)"]) (auto simp: answers_def)
  qed (intro exI [of _ Keep], simp add: answers_def)
next
  case (SndCopy a qp mp spot ty)
  have run': "msgsnd_copied si c qp mp (snd_cnt a) spot ty (uc_text u) s = (out, t)" using run SndCopy by (simp add: msg_copied_def)
  from snd_copied_goes [OF inv [unfolded SndCopy] si run'] consider
      "msg_goes si s Keep t C" "out = Ret (Err EFAULT)"
    | "msg_goes si s (Sent qp (ty, map (the (uc_text u)) [0 ..< snd_cnt a])) t C" "out = Ret (Ok (MVal 0))" "\<not> has_mode MSG_RWAIT qp t"
    by blast
  then show ?thesis
  proof cases
    case 1
    then show ?thesis by (intro exI [of _ Keep]) (simp add: answers_def)
  next
    case 2
    then show ?thesis by (intro exI [of _ "Sent qp (ty, map (the (uc_text u)) [0 ..< snd_cnt a])"]) (auto simp: answers_def)
  qed
qed

lemma run_settles:
  assumes ok: "sys_ok si ms" and p: "p < length (procs ms)" and idle: "copy_of (procs ms ! p) = []"
    and run: "msg_run si c k (mst ms) = (out, t)"
  shows "sys_ok si (msg_settle p (out, t) ms)
    \<and> (\<exists>e. mq_next e (msg_abs si (mst ms)) (msg_abs si (mst (msg_settle p (out, t) ms))) \<and> answers e (Some out))"
proof -
  from ok have inv: "msg_inv si (mst ms) (copies (procs ms))" and si: "msg_conf si" by (simp_all add: sys_ok_def)
  from run_goes [OF inv si run] obtain e where g: "msg_goes si (mst ms) e t (out_copies out @ copies (procs ms))"
    and e: "e = Keep \<or> (\<exists>qp. e = Create qp \<and> (\<exists>ident. out = Ret (Ok (MVal ident))) \<or> e = Destroy qp \<and> out = Ret (Ok (MVal 0)))" by blast
  have kp: "keeps (mst ms) t" using keeps_run [of "mst ms" si c k] run by simp
  have sl: "sleeps_ok si t ch k'" if "out = Sleep ch k'" for ch k' using run_sleep [OF inv si] run that by simp
  have sent: "e = Sent q x \<Longrightarrow> \<not> has_mode MSG_RWAIT q t" for q x using e by auto
  have "answers e (Some out)" using e run_no_msg [of si c k "mst ms"] run by (auto simp: answers_def)
  moreover have "mset (out_copies out @ copies (procs ms)) + mset (copy_of (procs ms ! p)) = mset (copies (procs ms)) + mset (out_copies out)"
    using idle by simp
  from settle_ok [OF ok p g this kp] sent sl
  have "sys_ok si (msg_settle p (out, t) ms) \<and> mq_next e (msg_abs si (mst ms)) (msg_abs si (mst (msg_settle p (out, t) ms)))" by blast
  ultimately show ?thesis by blast
qed

lemma signal_ok:
  assumes "sys_ok si ms" and "p < length (procs ms)" and "procs ms ! p = Asleep ch k" and "copy_of x = []" and "\<forall>ch k. x \<noteq> Asleep ch k"
  shows "sys_ok si (ms\<lparr>procs := (procs ms)[p := x]\<rparr>)"
proof -
  have "mset (copies (procs ms)) = mset (copies ((procs ms)[p := x]))"
    using copies_update [OF assms(2), of x] assms(3,4) by (simp add: copy_of_def)
  from inv_perm [OF this] have "msg_inv si (mst ms) (copies ((procs ms)[p := x]))" using assms(1) by (simp add: sys_ok_def)
  moreover have "Asleep ch' k' \<in> set (procs ms)" if "Asleep ch' k' \<in> set ((procs ms)[p := x])" for ch' k'
    using set_update_subset_insert [of "procs ms" p x] that assms(5) by fastforce
  ultimately show ?thesis using assms(1) by (simp add: sys_ok_def)
qed

lemma msg_step_ok:
  assumes step: "msg_step si ms p out ms'" and ok: "sys_ok si ms"
  shows "sys_ok si ms' \<and> (\<exists>e. mq_next e (msg_abs si (mst ms)) (msg_abs si (mst ms')) \<and> answers e out)"
  using step
proof cases
  case (call c uap out t)
  then show ?thesis using run_settles [OF ok call(3) _ call(5)] by (simp add: copy_of_def)
next
  case (go_on k c out t)
  then show ?thesis using run_settles [OF ok go_on(3) _ go_on(5)] by (simp add: copy_of_def)
next
  case (copied cp c u out t)
  let ?C = "copies ((procs ms)[p := Idle])"
  from ok have inv: "msg_inv si (mst ms) (copies (procs ms))" and si: "msg_conf si" by (simp_all add: sys_ok_def)
  have C: "mset (copies (procs ms)) = mset (cp # ?C)"
    using copies_update [OF copied(3), of Idle] copied(4) by (simp add: copy_of_def)
  from copied_goes [OF inv_perm [OF C inv] si copied(5)] obtain e where g: "msg_goes si (mst ms) e t ?C" and an: "answers e (Some out)"
    and sent: "\<And>q x. e = Sent q x \<Longrightarrow> \<not> has_mode MSG_RWAIT q t" and oc: "out_copies out = []" and sl: "\<And>ch k. out \<noteq> Sleep ch k"
    by blast
  have kp: "keeps (mst ms) t" using keeps_copied [of "mst ms" si c cp u] copied(5) by simp
  have c: "mset ?C + mset (copy_of (procs ms ! p)) = mset (copies (procs ms)) + mset (out_copies out)"
    using C oc copied(4) by (simp add: copy_of_def)
  from settle_ok [OF ok copied(3) g c kp] sent sl have "sys_ok si (msg_settle p (out, t) ms)
      \<and> mq_next e (msg_abs si (mst ms)) (msg_abs si (mst (msg_settle p (out, t) ms)))" by blast
  with an copied(1,2) show ?thesis by blast
next
  case (sig_return ch k r)
  then show ?thesis using signal_ok [OF ok, of p ch k Idle]
    by (intro conjI exI [of _ Keep]) (simp_all add: copy_of_def answers_def)
next
  case (sig_go_on ch k k')
  then show ?thesis using signal_ok [OF ok, of p ch k "Ready k'"]
    by (intro conjI exI [of _ Keep]) (simp_all add: copy_of_def answers_def)
qed

end
