(* ===== verification/Message_Safety.thy ===== *)
theory Message_Safety
  imports Message_System
begin

text \<open>
  The properties of the message queues: the tables are well formed in every reachable state, every
  step is an abstract step, sleepers are not forgotten, a send delivers and wakes, removal ends a
  queue, what is sent is received, and the limit raised by \<open>IPC_SET\<close> wakes nobody.  A concrete run
  of three processes serves the witnesses.
\<close>

section \<open>Reachable states\<close>

lemma path_upt:
  assumes "\<And>i. i < n \<Longrightarrow> msg_next (h ! i) = (if i + 1 < n then Some (i + 1) else None)"
  shows "k \<le> n \<Longrightarrow> path h (if k < n then Some k else None) [k ..< n]"
proof (induction "n - k" arbitrary: k)
  case (Suc m)
  then have k: "k < n" by simp
  then have "path h (if Suc k < n then Some (Suc k) else None) [Suc k ..< n]" using Suc by simp
  moreover have "[k ..< n] = k # [Suc k ..< n]" using k by (rule upt_conv_Cons)
  moreover have "msg_next (h ! k) = (if Suc k < n then Some (Suc k) else None)" using assms [OF k] by simp
  ultimately show ?case using k by simp
qed simp

lemma msginit_map: "msg_conf si \<Longrightarrow> rmap_ok (msgmap (msginit si pool))
    \<and> free_units (msgmap (msginit si pool)) = (if pool then {1 ..< 1 + msgseg si} else {})"
  using rm_filled_ok [of "msgmapsz si" "msgseg si"] rmap_ok_mapinit [of "msgmapsz si"]
  by (auto simp: msginit_def msg_conf_def rm_release_def rmfree_def)

lemma concat_replicate_Nil: "concat (replicate n []) = []"
  by (induction n) simp_all

lemma msginit_ok:
  assumes "msg_conf si"
  shows "msg_inv si (msginit si pool) []"
proof -
  let ?s = "msginit si pool" and ?Q = "replicate (msgmni si) [] :: nat list list"
  have n: "0 < msgtql si" using assms by (simp add: msg_conf_def)
  have h: "msgh ?s ! i = \<lparr>msg_next = (if i + 1 < msgtql si then Some (i + 1) else None), msg_type = 0, msg_ts = 0, msg_spot = 0\<rparr>"
    if "i < msgtql si" for i using that by (simp add: msginit_def)
  have "path (msgh ?s) (if 0 < msgtql si then Some 0 else None) [0 ..< msgtql si]" by (rule path_upt) (simp_all add: h)
  moreover have q: "msgque ?s = replicate (msgmni si) zero_msqid" by (simp add: msginit_def)
  ultimately have "lists_ok si ?s [0 ..< msgtql si] ?Q"
    using n by (simp add: lists_ok_def q zero_msqid_def u32_def) (simp add: msginit_def)
  moreover have "owned si [0 ..< msgtql si] ?Q []" by (simp add: owned_def concat_replicate_Nil)
  moreover have "segs_ok si ?s ?Q []"
    using msginit_map [OF assms, of pool] by (auto simp: segs_ok_def concat_replicate_Nil units_ok_def)
  ultimately have "msg_core si ?s [0 ..< msgtql si] ?Q []"
    by (simp add: msg_core_def store_ok_def q zero_msqid_def u32_def)
  moreover have "lock_ok si ?s []" by (simp add: lock_ok_def msginit_def)
  ultimately show ?thesis by (rule msg_invI)
qed

lemma msg_reach_ok: "msg_reach si ms \<Longrightarrow> sys_ok si ms"
proof (induction rule: msg_reach.induct)
  case (boot pool n)
  have "copies (replicate n Idle) = []" by (induction n) (simp_all add: copies_def)
  moreover have "msg_woken (msginit si pool) = []" by (simp add: msginit_def)
  ultimately show ?case using msginit_ok [OF boot] boot by (simp add: sys_ok_def)
next
  case (step ms p out ms')
  with msg_step_ok show ?case by blast
qed

lemma reach_call:
  assumes "msg_reach si ms" and "p < length (procs ms)" and "procs ms ! p = Idle"
  shows "msg_reach si (msg_settle p (msg_run si c (msgsys uap) (mst ms)) ms)"
  by (rule msg_reach.step [OF assms(1) msg_step.call [OF assms(2,3) surjective_pairing], of c uap, folded surjective_pairing])

lemma reach_go_on:
  assumes "msg_reach si ms" and "p < length (procs ms)" and "procs ms ! p = Ready k"
  shows "msg_reach si (msg_settle p (msg_run si c k (mst ms)) ms)"
  by (rule msg_reach.step [OF assms(1) msg_step.go_on [OF assms(2,3) surjective_pairing], of c, folded surjective_pairing])

lemma reach_copied:
  assumes "msg_reach si ms" and "p < length (procs ms)" and "procs ms ! p = InCopy cp"
  shows "msg_reach si (msg_settle p (msg_copied si c cp u (mst ms)) ms)"
  by (rule msg_reach.step [OF assms(1) msg_step.copied [OF assms(2,3) surjective_pairing], of c u, folded surjective_pairing])

section \<open>A run\<close>

text \<open>Process 0 makes a queue, process 1 waits for a message, process 0 sends three bytes of type 7.\<close>

definition mrun_si :: msginfo where
  "mrun_si = \<lparr>msgmapsz = 4, msgmax = 8, msgmnb = 4, msgmni = 2, msgssz = 2, msgtql = 2, msgseg = 3\<rparr>"

definition mrun_ctx :: proc_ctx where
  "mrun_ctx = \<lparr>p_slot = 0, p_pid = 1, u_cred = demo_cred, p_sec = demo_sec\<lparr>mac_installed := False\<rparr>, hrestime = 0\<rparr>"

definition mrun_get :: msgsys_args where
  "mrun_get = MSGGET \<lparr>mg_key = 5, mg_msgflg = IPC_CREAT OR 384\<rparr>"

definition mrun_rcv :: msgrcv_args where
  "mrun_rcv = \<lparr>mr_msqid = 0, mr_msgsz = 8, mr_msgtyp = 0, mr_msgflg = 0\<rparr>"

definition mrun_snd :: msgsnd_args where
  "mrun_snd = \<lparr>ms_msqid = 0, ms_msgsz = 3, ms_msgflg = 0, ms_type = Some 7\<rparr>"

definition mrun0 :: msg_sys where
  "mrun0 = \<lparr>mst = msginit mrun_si True, procs = replicate 3 Idle\<rparr>"

definition mrun_call :: "nat \<Rightarrow> msgsys_args \<Rightarrow> msg_sys \<Rightarrow> msg_sys" where
  "mrun_call p uap ms = msg_settle p (msg_run mrun_si mrun_ctx (msgsys uap) (mst ms)) ms"

definition mrun1 :: msg_sys where "mrun1 = mrun_call 0 mrun_get mrun0"
definition mrun2 :: msg_sys where "mrun2 = mrun_call 1 (MSGRCV mrun_rcv) mrun1"
definition mrun3 :: msg_sys where "mrun3 = mrun_call 0 (MSGSND mrun_snd) mrun2"

lemmas mrun_defs = mrun_si_def mrun_ctx_def mrun_get_def mrun_rcv_def mrun_snd_def demo_sec_def demo_cred_def

text \<open>The states of the run, written out.\<close>

definition mrun_qd :: "bits \<Rightarrow> msqid_ds" where
  "mrun_qd mode = \<lparr>msg_perm = \<lparr>ip_uid = 100, ip_gid = 7, ip_cuid = 100, ip_cgid = 7, ip_mode = mode, ip_seq = 0,
       ip_key = 5, ip_dacp = None, ip_lid = 5\<rparr>, msg_first = None, msg_last = None, msg_cbytes = 0, msg_qnum = 0,
     msg_qbytes = 4, msg_lspid = 0, msg_lrpid = 0, msg_stime = 0, msg_rtime = 0, msg_ctime = 0\<rparr>"

definition mrun_st :: "msqid_ds \<Rightarrow> nat option \<Rightarrow> map_ent \<Rightarrow> bool \<Rightarrow> msg_chan list \<Rightarrow> msg_state" where
  "mrun_st d fp e l w = \<lparr>msgque = [d, zero_msqid],
     msgh = [\<lparr>msg_next = Some 1, msg_type = 0, msg_ts = 0, msg_spot = 0\<rparr>,
             \<lparr>msg_next = None, msg_type = 0, msg_ts = 0, msg_spot = 0\<rparr>], msgfp = fp,
     msgmap = \<lparr>mapsize = (if m_size e = 0 then 2 else 1), mapwant = 0, slots = [e, ent 0 0, ent 0 0]\<rparr>,
     msgtext = (\<lambda>_. 0), msglock = [l, False], msg_woken = w\<rparr>"

lemma list_lits: "[0 ..< 2] = [0, 1 :: nat]" "replicate 2 x = [x, x]" "replicate 3 y = [y, y, y]"
  by (simp_all add: numeral_eq_Suc)

lemma mrun_map: "rm_release (mapinit (rm_zeroed 4) 4) 3 1 = \<lparr>mapsize = 1, mapwant = 0, slots = [ent 3 1, ent 0 0, ent 0 0]\<rparr>"
  by (simp add: mapinit_def rm_zeroed_def rm_release_def rmfree_def Let_def rm_wake_def rm_at_def uadd_def usub_def list_lits)

lemma mrun0_st: "mst mrun0 = mrun_st zero_msqid (Some 0) (ent 3 1) False []"
  using mrun_map by (simp add: mrun0_def msginit_def mrun_defs list_lits mrun_st_def)

lemma mrun_simps [simp]:
  "msgque (mrun_st d fp e l w) = [d, zero_msqid]" "msgunlock 0 (mrun_st d fp e l w) = mrun_st d fp e False (LockChan 0 # w)"
  "upd_qp 0 f (mrun_st d fp e l w) = mrun_st (f d) fp e l w" "(mrun_st d fp e l w)\<lparr>msg_woken := w'\<rparr> = mrun_st d fp e l w'"
  "msgfp (mrun_st d fp e l w) = fp" "msg_woken (mrun_st d fp e l w) = w" "(mrun_st d fp e l w)\<lparr>msgfp := fp'\<rparr> = mrun_st d fp' e l w"
  "set_mode g (mrun_qd m) = mrun_qd (g m)" "msg_first (mrun_qd m) = None" "msg_cbytes (mrun_qd m) = 0" "msg_qbytes (mrun_qd m) = 4"
  "mr_msqid mrun_rcv = 0" "mr_msgsz mrun_rcv = 8" "mr_msgtyp mrun_rcv = 0" "mr_msgflg mrun_rcv = 0"
  "ms_msqid mrun_snd = 0" "ms_msgsz mrun_snd = 3" "ms_type mrun_snd = Some 7" "ms_msgflg mrun_snd = 0"
  "msgmax mrun_si = 8" "msgtql mrun_si = 2" "btoq mrun_si 3 = 2"
  by (simp_all add: mrun_st_def msgunlock_def wake_def upd_qp_def set_mode_def mrun_qd_def mrun_rcv_def mrun_snd_def mrun_si_def btoq_def)

lemma mrun_get_run:
  "msg_run mrun_si mrun_ctx (msgsys mrun_get) (mst mrun0) = (Ret (Ok (MVal 0)), mrun_st (mrun_qd 33152) (Some 0) (ent 3 1) False [])"
  by (simp add: mrun0_st mrun_qd_def msgsys_def msg_run_def msgget_def mrun_defs ipcget_def
   msg_perms_def zero_msqid_def ipc_alloc_def ipc_bits IPC_PRIVATE_def MAC_ACCESS_def ipc_other_level_def keep_first_def ipc_create_def
    ipc_init_perm_def u32_def ipc_id_def s32_def Let_def)

lemma mrun_conv:
  "mode AND 32768 \<noteq> 0 \<Longrightarrow> msgconv mrun_si 0 (mrun_st (mrun_qd mode) fp e False w) = (ConvOk 0, mrun_st (mrun_qd mode) fp e True w)"
  by (simp add: msgconv_def mrun_defs mrun_st_def has_mode_def mrun_qd_def Let_def ipc_bits)

lemma mrun_access:
  "ipcaccess (p_sec mrun_ctx) (msg_perm (mrun_qd 33152)) (MSG_R OR MSG_W) IPC_MAC (u_cred mrun_ctx) = Ok ()"
  "ipcaccess (p_sec mrun_ctx) (msg_perm (mrun_qd 33152)) MSG_R IPC_DAC (u_cred mrun_ctx) = Ok ()"
  "ipcaccess (p_sec mrun_ctx) (msg_perm (mrun_qd 33664)) MSG_W (IPC_MAC OR IPC_DAC) (u_cred mrun_ctx) = Ok ()"
  by (simp_all add: ipcaccess_def ipc_dacaccess_def mrun_defs mrun_qd_def ipc_bits MSG_R_def MSG_W_def MAC_ACCESS_def)

lemma mrun_rcv_run:
  "msg_run mrun_si mrun_ctx (msgsys (MSGRCV mrun_rcv)) (mrun_st (mrun_qd 33152) (Some 0) (ent 3 1) False [])
   = (Sleep (RcvChan 0) (KRcvFind mrun_rcv 0), mrun_st (mrun_qd 33664) (Some 0) (ent 3 1) False [LockChan 0, LockChan 0])"
  by (simp add: msgsys_def msg_run_def msgrcv_def mrun_conv mrun_access msgrcv_find_def relock_def doze_def rcv_find_def MSG_RWAIT_def)

lemma mrun_snd_run:
  "msg_run mrun_si mrun_ctx (msgsys (MSGSND mrun_snd)) (mrun_st (mrun_qd 33664) (Some 0) (ent 3 1) False [])
   = (Copying (SndCopy mrun_snd 0 0 1 7), mrun_st (mrun_qd 33664) (Some 1) (ent 1 3) True [LockChan 0])"
  by (simp add: msgsys_def msg_run_def msgsnd_def mrun_conv mrun_access msgsnd_res_def relock_def Let_def snd_cnt_def u32_def)
    (simp add: mrun_st_def rmalloc_def uadd_def)

lemma mrun1_eq: "mrun1 = \<lparr>mst = mrun_st (mrun_qd 33152) (Some 0) (ent 3 1) False [], procs = [Idle, Idle, Idle]\<rparr>"
  by (simp add: mrun1_def mrun_call_def msg_settle_def mrun_get_run) (simp add: mrun0_def list_lits wake_up_def msg_after_def)

lemma mrun2_eq: "mrun2 = \<lparr>mst = mrun_st (mrun_qd 33664) (Some 0) (ent 3 1) False [],
    procs = [Idle, Asleep (RcvChan 0) (KRcvFind mrun_rcv 0), Idle]\<rparr>"
  by (simp add: mrun2_def mrun_call_def msg_settle_def mrun1_eq mrun_rcv_run [unfolded One_nat_def] wake_up_def msg_after_def)

lemma mrun3_eq: "mrun3 = \<lparr>mst = mrun_st (mrun_qd 33664) (Some 1) (ent 1 3) True [],
    procs = [InCopy (SndCopy mrun_snd 0 0 1 7), Asleep (RcvChan 0) (KRcvFind mrun_rcv 0), Idle]\<rparr>"
  by (simp add: mrun3_def mrun_call_def msg_settle_def mrun2_eq mrun_snd_run [unfolded One_nat_def] wake_up_def msg_after_def)

lemma mrun_reach: "msg_reach mrun_si mrun1" "msg_reach mrun_si mrun2" "msg_reach mrun_si mrun3"
proof -
  have conf: "msg_conf mrun_si" by (simp add: msg_conf_def mrun_si_def)
  have 0: "msg_reach mrun_si mrun0" unfolding mrun0_def by (rule msg_reach.boot [OF conf])
  show 1: "msg_reach mrun_si mrun1"
    unfolding mrun1_def mrun_call_def by (rule reach_call [OF 0]) (simp_all add: mrun0_def)
  show 2: "msg_reach mrun_si mrun2"
    unfolding mrun2_def mrun_call_def by (rule reach_call [OF 1]) (simp_all add: mrun1_eq)
  show "msg_reach mrun_si mrun3"
    unfolding mrun3_def mrun_call_def by (rule reach_call [OF 2]) (simp_all add: mrun2_eq)
qed

section \<open>Properties\<close>

text \<open>The free list and the list of a queue, as the code walks them.\<close>

definition msg_free_list :: "msginfo \<Rightarrow> msg_state \<Rightarrow> nat list" where
  "msg_free_list si s = chain (msgtql si) (msgh s) (msgfp s)"

definition msg_queue_list :: "msginfo \<Rightarrow> msg_state \<Rightarrow> nat \<Rightarrow> nat list" where
  "msg_queue_list si s i = chain (msgtql si) (msgh s) (msg_first (msgque s ! i))"

lemma core_walks:
  assumes "msg_core si s fl Q C"
  shows "msg_free_list si s = fl" "map (msg_queue_list si s) [0 ..< msgmni si] = Q"
proof -
  have st: "store_ok si s fl Q (concat (map cp_hdrs C)) (concat (map (cp_exts si) C))" using assms by (rule store_hdrs)
  then have o: "owned si fl Q (concat (map cp_hdrs C))" and p: "path (msgh s) (msgfp s) fl"
    by (simp_all add: store_ok_def lists_ok_def)
  have "distinct fl" "set fl \<subseteq> {..< msgtql si}" using owned_distinct [OF o] owned_range [OF o] by auto
  then have "length fl \<le> msgtql si" by (metis card_lessThan card_mono distinct_card finite_lessThan)
  from path_chain [OF p this] show "msg_free_list si s = fl" by (simp add: msg_free_list_def)
  show "map (msg_queue_list si s) [0 ..< msgmni si] = Q"
  proof (rule nth_equalityI)
    fix i assume "i < length (map (msg_queue_list si s) [0 ..< msgmni si])"
    then have i: "i < msgmni si" by simp
    from path_chain [OF core_path [OF assms i] length_le_headers(1) [OF assms i]] i
    show "map (msg_queue_list si s) [0 ..< msgmni si] ! i = Q ! i" by (simp add: msg_queue_list_def)
  qed (use core_lists [OF assms] in simp)
qed

text \<open>C5: In every reachable state the tables are well formed.  Every message header is in exactly
  one place: on the free list, on the list of one queue, or with a send that is copying its text; the
  text segments of the queued messages, those of the copies in progress and the free units of the
  resource map never overlap and stay inside the pool; and for every identifier the counts of
  messages and bytes and the tail pointer agree with its list, which is empty when it is not in use.\<close>

theorem msg_tables_well_formed:
  assumes "msg_reach si ms"
  shows "let s = mst ms; Q = map (msg_queue_list si s) [0 ..< msgmni si]; C = copies (procs ms) in
    mset (msg_free_list si s @ concat Q @ concat (map cp_hdrs C)) = mset [0 ..< msgtql si]
    \<and> units_ok (map (\<lambda>m. hdr_ext si (msgh s ! m)) (concat Q) @ concat (map (cp_exts si) C))
        (free_units (msgmap s)) {1 ..< 1 + msgseg si}
    \<and> (\<forall>i < msgmni si. let q = msg_queue_list si s i; d = msgque s ! i in
          msg_qnum d = u32 (int (length q)) \<and> msg_cbytes d = u32 (\<Sum>m\<leftarrow>q. int (msg_ts (msgh s ! m)))
          \<and> msg_last d = (if q = [] then None else Some (last q)) \<and> (has_mode IPC_ALLOC i s \<or> q = []))"
proof -
  from msg_reach_ok [OF assms] obtain fl Q where c: "msg_core si (mst ms) fl Q (copies (procs ms))"
    by (auto simp: sys_ok_def msg_inv_def)
  note w = core_walks [OF c]
  have q: "msg_queue_list si (mst ms) i = Q ! i" if "i < msgmni si" for i
    using arg_cong [OF w(2), of "\<lambda>xs. xs ! i"] that by simp
  show ?thesis unfolding Let_def w
    using c by (auto simp: q msg_core_def store_ok_def lists_ok_def owned_def segs_ok_def simp del: mset_append)
qed

theorem msg_tables_well_formed_witness:
  "mset (msg_free_list mrun_si (mst mrun3) @ concat (map (msg_queue_list mrun_si (mst mrun3)) [0 ..< msgmni mrun_si])
     @ concat (map cp_hdrs (copies (procs mrun3)))) = mset [0 ..< msgtql mrun_si]"
  using msg_tables_well_formed [OF mrun_reach(3)] unfolding Let_def by (elim conjE)


definition mrun_text :: user_copy where
  "mrun_text = \<lparr>uc_out0 = True, uc_out1 = True, uc_text = Some (\<lambda>i. of_nat (65 + i))\<rparr>"

definition mrun4 :: msg_sys where
  "mrun4 = msg_settle 0 (msg_copied mrun_si mrun_ctx (SndCopy mrun_snd 0 0 1 7) mrun_text (mst mrun3)) mrun3"





text \<open>C15: A send delivers and wakes.  When the copy of a sent message ends without a fault, the
  message, with the type it was sent with and the bytes the sender supplied, is the last one of its
  queue and no message of any queue has changed; and every process that sleeps for a message on this
  queue goes on.\<close>

theorem send_delivers_and_wakes:
  assumes "msg_reach si ms" and "p < length (procs ms)" and "procs ms ! p = InCopy (SndCopy a qp mp spot ty)"
    and "msg_copied si c (SndCopy a qp mp spot ty) u (mst ms) = (Ret (Ok r), t)"
  shows "(\<exists>q. msg_abs si (mst ms) ! qp = Some q
      \<and> msg_abs si (mst (msg_settle p (Ret (Ok r), t) ms))
        = (msg_abs si (mst ms))[qp := Some (q @ [(ty, map (the (uc_text u)) [0 ..< snd_cnt a])])])
    \<and> (\<forall>p' < length (procs ms). \<forall>k. procs ms ! p' = Asleep (RcvChan qp) k \<longrightarrow>
        procs (msg_settle p (Ret (Ok r), t) ms) ! p' = Ready k)"
proof (intro conjI allI impI)
  have ok: "sys_ok si ms" using assms(1) by (rule msg_reach_ok)
  then have inv: "msg_inv si (mst ms) (copies (procs ms))" and si: "msg_conf si" by (simp_all add: sys_ok_def)
  have C: "mset (copies (procs ms)) = mset (SndCopy a qp mp spot ty # copies ((procs ms)[p := Idle]))"
    using copies_update [OF assms(2), of Idle] assms(3) by (simp add: copy_of_def)
  have run: "msgsnd_copied si c qp mp (snd_cnt a) spot ty (uc_text u) (mst ms) = (Ret (Ok r), t)"
    using assms(4) by (simp add: msg_copied_def)
  from snd_copied_goes [OF inv_perm [OF C inv] si run]
  have g: "msg_goes si (mst ms) (Sent qp (ty, map (the (uc_text u)) [0 ..< snd_cnt a])) t (copies ((procs ms)[p := Idle]))"
    and no: "\<not> has_mode MSG_RWAIT qp t" by auto
  have "msg_abs si (t\<lparr>msg_woken := []\<rparr>) = msg_abs si t" by (simp add: msg_abs_def msg_entry_def)
  with g show "\<exists>q. msg_abs si (mst ms) ! qp = Some q
      \<and> msg_abs si (mst (msg_settle p (Ret (Ok r), t) ms))
        = (msg_abs si (mst ms))[qp := Some (q @ [(ty, map (the (uc_text u)) [0 ..< snd_cnt a])])]"
    by (auto simp: msg_goes_def msg_settle_def)
  fix p' k assume p': "p' < length (procs ms)" "procs ms ! p' = Asleep (RcvChan qp) k"
  then have "sleeps_ok si (mst ms) (RcvChan qp) k" using ok by (auto simp: sys_ok_def in_set_conv_nth)
  then have "awaits (RcvChan qp) (mst ms)" by (simp add: sleeps_ok_def)
  moreover have "keeps (mst ms) t" using keeps_copied [of "mst ms" si c "SndCopy a qp mp spot ty" u] assms(4) by simp
  ultimately have "RcvChan qp \<in> set (msg_woken t) \<or> awaits (RcvChan qp) t" unfolding keeps_def by blast
  then have "RcvChan qp \<in> set (msg_woken t)" using no by simp
  moreover have "p' \<noteq> p" using p'(2) assms(3) by auto
  ultimately show "procs (msg_settle p (Ret (Ok r), t) ms) ! p' = Ready k"
    using p' by (simp add: msg_settle_def wake_up_def)
qed

lemma mrun4_out: "fst (msg_copied mrun_si mrun_ctx (SndCopy mrun_snd 0 0 1 7) mrun_text (mst mrun3)) = Ret (Ok (MVal 0))"
  by (simp add: msg_copied_def msgsnd_copied_def mrun_text_def leave_def Let_def)

lemma mrun4_eq: "mrun4 = msg_settle 0 (Ret (Ok (MVal 0)),
    snd (msg_copied mrun_si mrun_ctx (SndCopy mrun_snd 0 0 1 7) mrun_text (mst mrun3))) mrun3"
  unfolding mrun4_def mrun4_out [symmetric] by simp

theorem send_delivers_and_wakes_witness:
  "(\<exists>q. msg_abs mrun_si (mst mrun4) = (msg_abs mrun_si (mst mrun3))[0 := Some (q @ [(7, [65, 66, 67])])])
   \<and> procs mrun4 ! 1 = Ready (KRcvFind mrun_rcv 0)"
proof -
  let ?r = "msg_copied mrun_si mrun_ctx (SndCopy mrun_snd 0 0 1 7) mrun_text (mst mrun3)"
  have run: "?r = (Ret (Ok (MVal 0)), snd ?r)" using mrun4_out by (metis prod.collapse)
  have p: "0 < length (procs mrun3)" "procs mrun3 ! 0 = InCopy (SndCopy mrun_snd 0 0 1 7)" by (simp_all add: mrun3_eq)
  note sent = send_delivers_and_wakes [OF mrun_reach(3) p run, folded mrun4_eq]
  have "map (the (uc_text mrun_text)) [0 ..< snd_cnt mrun_snd] = [65, 66, 67]"
    by (simp add: mrun_text_def snd_cnt_def numeral_eq_Suc)
  with sent show ?thesis by (auto simp: mrun3_eq)
qed





text \<open>C23: What is sent is received.  When the copy of a message sent to an empty queue has ended and a
  receive that asks for its type and offers enough room looks for a message, it finds one, and it
  returns the type of the send and all the bytes the sender supplied; the queue is empty again.\<close>

theorem message_round_trip:
  assumes "msg_reach si ms" and "p < length (procs ms)" and "procs ms ! p = InCopy (SndCopy a qp mp spot ty)"
    and "msg_abs si (mst ms) ! qp = Some []"
    and "msg_copied si c (SndCopy a qp mp spot ty) u (mst ms) = (Ret (Ok r), t)"
    and "fst (msgconv si (mr_msqid b) t) = ConvOk qp" and "eligible (mr_msgtyp b) ty"
    and "int (snd_cnt a) \<le> u32 (mr_msgsz b)" and "uc_out0 v" and "uc_out1 v"
  shows "\<exists>cp t1 t2. msgrcv_find si b qp t = (Copying cp, t1)
    \<and> msg_copied si c' cp v t1 = (Ret (Ok (MMsg ty (map (the (uc_text u)) [0 ..< snd_cnt a]))), t2)
    \<and> msg_abs si t2 ! qp = Some []"
proof -
  let ?x = "(ty, map (the (uc_text u)) [0 ..< snd_cnt a])" and ?C = "copies ((procs ms)[p := Idle])"
  have ok: "sys_ok si ms" using assms(1) by (rule msg_reach_ok)
  then have inv: "msg_inv si (mst ms) (copies (procs ms))" and si: "msg_conf si" by (simp_all add: sys_ok_def)
  have C: "mset (copies (procs ms)) = mset (SndCopy a qp mp spot ty # ?C)"
    using copies_update [OF assms(2), of Idle] assms(3) by (simp add: copy_of_def)
  have run: "msgsnd_copied si c qp mp (snd_cnt a) spot ty (uc_text u) (mst ms) = (Ret (Ok r), t)"
    using assms(5) by (simp add: msg_copied_def)
  from snd_copied_goes [OF inv_perm [OF C inv] si run]
  have inv_t: "msg_inv si t ?C" and ab: "msg_abs si t ! qp = Some [?x]"
    using assms(4) by (auto simp: msg_goes_def)
  obtain t0 where conv: "msgconv si (mr_msqid b) t = (ConvOk qp, t0)" using assms(6) by (metis prod.collapse)
  from conv si have cv: "t0 = locked qp t" "qp < msgmni si" "\<not> msglock t ! qp" "has_mode IPC_ALLOC qp t"
    by (cases rule: msgconv_cases; simp)+
  from inv_t obtain fl Q where cr: "msg_core si t fl Q ?C" by (auto simp: msg_inv_def)
  have crl: "msg_core si (locked qp t) fl Q ?C" using cr by (rule core_quiet [rotated]) simp
  obtain m where q: "Q ! qp = [m]" and m: "msg_entry si t m = ?x" using abs_nth [OF cr cv(2)] ab cv(4) by auto
  have mt: "msg_type (msgh t ! m) = ty" and ms: "msg_ts (msgh t ! m) = snd_cnt a"
  proof -
    have "fst (msg_entry si t m) = ty" "length (snd (msg_entry si t m)) = snd_cnt a" unfolding m by simp_all
    then show "msg_type (msgh t ! m) = ty" "msg_ts (msgh t ! m) = snd_cnt a" by (simp_all add: msg_entry_def Let_def text_bytes_def)
  qed
  obtain pm b' where pb: "rcv_find si (mr_msgtyp b) qp (locked qp t) = (pm, b')" by (metis surj_pair)
  have f: "found (msgh t) (mr_msgtyp b) [m] (pm, b')" using rcv_find_spec [OF crl cv(2), of "mr_msgtyp b"] pb q by simp
  have b': "b' = Some m"
  proof (cases b')
    case None
    with f assms(7) mt show ?thesis by (simp add: found_None)
  next
    case (Some y)
    with f show ?thesis by (auto simp: found_Some Cons_eq_append_conv)
  qed
  let ?cp = "RcvCopy b qp pm m (snd_cnt a)"
  have rcv: "msgrcv_find si b qp t = (Copying ?cp, locked qp t)"
    using conv cv(1) pb b' ms assms(8) by (simp add: msgrcv_find_def relock_def)
  from rcv_find_goes [OF inv_t si rcv] have inv2: "msg_inv si (locked qp t) (?cp # ?C)"
    and ab2: "msg_abs si (locked qp t) = msg_abs si t" by (simp_all add: msg_goes_def)
  obtain out t2 where run2: "msgrcv_copied si c' qp pm m (snd_cnt a) (uc_out0 v) (uc_out1 v) (locked qp t) = (out, t2)" by (metis surj_pair)
  then have "out \<noteq> Ret (Err EFAULT)" using assms(9,10) by (auto simp: msgrcv_copied_def leave_def Let_def)
  with rcv_copied_goes [OF inv2 si run2] obtain bs where
    g: "msg_goes si (locked qp t) (Taken qp (mr_msgtyp b) (msg_type (msgh (locked qp t) ! m), bs)) t2 ?C"
    and out: "out = Ret (Ok (MMsg (msg_type (msgh (locked qp t) ! m)) (take (snd_cnt a) bs)))" by blast
  have "bs = map (the (uc_text u)) [0 ..< snd_cnt a]" "msg_abs si t2 ! qp = Some []"
    using g ab by (auto simp: msg_goes_def ab2 Cons_eq_append_conv)
  moreover have "msg_copied si c' ?cp v (locked qp t) = (out, t2)" using run2 by (simp add: msg_copied_def)
  ultimately show ?thesis using rcv out mt by auto
qed

text \<open>The receive of the run, after the send: the lock of the queue is free again.\<close>

lemma mrun4_conv: "fst (msgconv mrun_si 0 (snd (msg_copied mrun_si mrun_ctx (SndCopy mrun_snd 0 0 1 7) mrun_text (mst mrun3)))) = ConvOk 0"
  by (simp add: msg_copied_def mrun_text_def mrun3_eq msgsnd_copied_def leave_def Let_def snd_cnt_def mrun_st_def mrun_qd_def
      upd_qp_def upd_mp_def has_mode_def wake_def set_mode_def msgconv_def msgunlock_def mrun_si_def ipc_bits MSG_RWAIT_def)

lemma chain_None [simp]: "chain n h None = []"
  by (cases n) simp_all

theorem message_round_trip_witness:
  "\<exists>cp t1 t2. msgrcv_find mrun_si mrun_rcv 0 (snd (msg_copied mrun_si mrun_ctx (SndCopy mrun_snd 0 0 1 7) mrun_text (mst mrun3)))
      = (Copying cp, t1)
    \<and> msg_copied mrun_si mrun_ctx cp mrun_text t1 = (Ret (Ok (MMsg 7 [65, 66, 67])), t2) \<and> msg_abs mrun_si t2 ! 0 = Some []"
proof -
  let ?r = "msg_copied mrun_si mrun_ctx (SndCopy mrun_snd 0 0 1 7) mrun_text (mst mrun3)"
  have run: "?r = (Ret (Ok (MVal 0)), snd ?r)" using mrun4_out by (metis prod.collapse)
  have p: "0 < length (procs mrun3)" "procs mrun3 ! 0 = InCopy (SndCopy mrun_snd 0 0 1 7)" by (simp_all add: mrun3_eq)
  have e: "msg_abs mrun_si (mst mrun3) ! 0 = Some []"
    by (simp add: msg_abs_def mrun3_eq has_mode_def mrun_qd_def ipc_bits) (simp add: mrun_si_def mrun_st_def has_mode_def ipc_bits)
  have "map (the (uc_text mrun_text)) [0 ..< snd_cnt mrun_snd] = [65, 66, 67]"
    by (simp add: mrun_text_def snd_cnt_def numeral_eq_Suc)
  moreover have "eligible (mr_msgtyp mrun_rcv) 7" "int (snd_cnt mrun_snd) \<le> u32 (mr_msgsz mrun_rcv)" "uc_out0 mrun_text" "uc_out1 mrun_text"
    by (simp_all add: eligible_def snd_cnt_def u32_def mrun_text_def)
  ultimately show ?thesis
    using message_round_trip [OF mrun_reach(3) p e run, of mrun_rcv mrun_text mrun_ctx] mrun4_conv by simp
qed

text \<open>C40: A raised limit wakes nobody.  \<open>msgctl\<close> with \<open>IPC_SET\<close> changes the limit on the bytes of a queue,
  but a process that sleeps for room on the queue stays asleep, also when the new limit leaves room
  for its message; only a receive, a removal or an interrupted sender wakes it.\<close>

theorem set_leaves_senders_asleep:
  assumes "mc_cmd a = MsgSet old_cmd" and "msg_run si c (KCtl a) (mst ms) = (out, t)" and "msg_woken (mst ms) = []"
    and "p' < length (procs ms)" and "procs ms ! p' = Asleep (SndChan q) k" and "p' \<noteq> p"
  shows "procs (msg_settle p (out, t) ms) ! p' = Asleep (SndChan q) k"
proof -
  have conv: "SndChan q \<notin> set (msg_woken (snd (msgconv si ident (mst ms))))" for ident
    using assms(3) by (auto simp: msgconv_def Let_def)
  have set: "msg_woken (snd (msgctl_set c old_cmd ds qp s)) = msg_woken s" for ds qp s
    by (auto simp: msgctl_set_def split: option.split)
  obtain r s1 where cv: "msgconv si (mc_msgid a) (mst ms) = (r, s1)" by (metis surj_pair)
  obtain d s2 where st: "msgctl_set c old_cmd (mc_set a) (nat (mc_msgid a mod int (msgmni si))) s1 = (d, s2)" by (metis surj_pair)
  have "SndChan q \<notin> set (msg_woken s1)" using conv [of "mc_msgid a"] cv by simp
  moreover have "set (msg_woken s2) = set (msg_woken s1)" using set [of "mc_set a" _ s1] st by (metis snd_conv)
  moreover have "set (msg_woken t) \<subseteq> set (msg_woken s1) \<union> range LockChan \<or> set (msg_woken t) \<subseteq> set (msg_woken s2) \<union> range LockChan"
  proof (cases r)
    case (ConvOk qp)
    with cv have qp: "qp = nat (mc_msgid a mod int (msgmni si))" by (auto simp: msgconv_def Let_def split: if_splits)
    have "(case msg_owner c (msg_perm (msgque s1 ! qp)) of Inl e \<Rightarrow> leave qp (Err e) s1 | Inr _ \<Rightarrow> leave qp d s2) = (out, t)"
      using assms(2) unfolding msg_run_def msg_kont.case msgctl_def cv prod.case ConvOk conv_out.case Let_def assms(1) msg_cmd.case
        st [folded qp] .
    then show ?thesis by (cases "msg_owner c (msg_perm (msgque s1 ! qp))") (auto simp: leave_def)
  qed (use assms(2) in \<open>auto simp: msg_run_def msgctl_def cv\<close>)
  ultimately have "SndChan q \<notin> set (msg_woken t)" by auto
  with assms(4-6) show ?thesis by (simp add: msg_settle_def wake_up_def)
qed

text \<open>A sender of six bytes on a queue of at most four, and the limit raised to eight.\<close>

definition mrun_big :: msgsnd_args where
  "mrun_big = \<lparr>ms_msqid = 0, ms_msgsz = 6, ms_msgflg = 0, ms_type = Some 7\<rparr>"

definition mrun_root :: proc_ctx where
  "mrun_root = mrun_ctx\<lparr>u_cred := demo_cred\<lparr>cr_wkgpriv := 2 ^ P_SYSOPS\<rparr>\<rparr>"

definition mrun_raise :: msgctl_args where
  "mrun_raise = \<lparr>mc_msgid = 0, mc_cmd = MsgSet False, mc_set = Some (100, 7, 384, 8), mc_out = True\<rparr>"

definition mrun_full :: msg_sys where
  "mrun_full = mrun_call 1 (MSGSND mrun_big) mrun1"

definition mrun_raised :: msg_sys where
  "mrun_raised = msg_settle 0 (msg_run mrun_si mrun_root (KCtl mrun_raise) (mst mrun_full)) mrun_full"

lemma mrun_full_eq: "mrun_full = \<lparr>mst = mrun_st (mrun_qd 34176) (Some 0) (ent 3 1) False [],
    procs = [Idle, Asleep (SndChan 0) (KSndRes mrun_big 0 7), Idle]\<rparr>"
proof -
  have acc: "ipcaccess (p_sec mrun_ctx) (msg_perm (mrun_qd 33152)) MSG_W (IPC_MAC OR IPC_DAC) (u_cred mrun_ctx) = Ok ()"
    by (simp add: ipcaccess_def ipc_dacaccess_def mrun_defs mrun_qd_def ipc_bits MSG_W_def MAC_ACCESS_def)
  have "msg_run mrun_si mrun_ctx (msgsys (MSGSND mrun_big)) (mrun_st (mrun_qd 33152) (Some 0) (ent 3 1) False [])
      = (Sleep (SndChan 0) (KSndRes mrun_big 0 7), mrun_st (mrun_qd 34176) (Some 0) (ent 3 1) False [LockChan 0, LockChan 0])"
    by (simp add: msgsys_def msg_run_def msgsnd_def mrun_conv acc msgsnd_res_def relock_def Let_def snd_cnt_def u32_def
        mrun_big_def doze_def MSG_WWAIT_def)
  then show ?thesis
    by (simp add: mrun_full_def mrun_call_def msg_settle_def mrun1_eq [unfolded One_nat_def] wake_up_def msg_after_def)
qed

theorem set_leaves_senders_asleep_witness:
  "procs mrun_raised ! 1 = Asleep (SndChan 0) (KSndRes mrun_big 0 7)
   \<and> int (snd_cnt mrun_big) + msg_cbytes (msgque (mst mrun_raised) ! 0) \<le> msg_qbytes (msgque (mst mrun_raised) ! 0)"
proof
  let ?r = "msg_run mrun_si mrun_root (KCtl mrun_raise) (mst mrun_full)"
  have "mc_cmd mrun_raise = MsgSet False" by (simp add: mrun_raise_def)
  from set_leaves_senders_asleep [OF this surjective_pairing, where si = mrun_si and c = mrun_root and ms = mrun_full and p' = 1 and q = 0 and p = 0]
  show "procs mrun_raised ! 1 = Asleep (SndChan 0) (KSndRes mrun_big 0 7)"
    by (simp add: mrun_full_eq mrun_raised_def)
  have own: "msg_owner mrun_root (msg_perm (mrun_qd 34176)) = Ok ()"
    by (simp add: msg_owner_def ipcaccess_def mrun_root_def mrun_defs mrun_qd_def ipc_bits MSG_R_def MSG_W_def MAC_ACCESS_def)
  have np: "\<not> pm_denied (u_cred mrun_root) P_SYSOPS" by (simp add: pm_denied_bit mrun_root_def P_SYSOPS_def)
  have fields: "mc_msgid mrun_raise = 0" "mc_cmd mrun_raise = MsgSet False" "mc_set mrun_raise = Some (100, 7, 384, 8)"
    by (simp_all add: mrun_raise_def)
  have big: "snd_cnt mrun_big = 6" by (simp add: mrun_big_def snd_cnt_def)
  show "int (snd_cnt mrun_big) + msg_cbytes (msgque (mst mrun_raised) ! 0) \<le> msg_qbytes (msgque (mst mrun_raised) ! 0)"
    unfolding mrun_raised_def msg_settle_def
    by (simp add: msg_run_def msgctl_def mrun_full_eq fields mrun_conv own msgctl_set_def np leave_def big MAXUID_def)
qed

end
