(* ===== verification/Stream_Queues.thy ===== *)
theory Stream_Queues
  imports Kernel_Prelude
begin

text \<open>
  STREAMS queues (\<open>io/stream.c\<close>, and \<open>setqback\<close> and the service loop of \<open>io/strsubr.c\<close>): the
  messages of a queue in priority order, the flow control of the normal band and of every
  priority band, the search for the queue to back-enable, and the list of queues whose service
  procedures are to run.

  A queue is known by its number; the read queue and the write queue of a module are
  neighbours, as the queue pairs the kernel allocates.  The doubly linked message list is a
  list, and a message is known by the address \<open>m_addr\<close> of its first block; \<open>NULL\<close> is \<open>None\<close>.  The
  list of band structures is a list, band \<open>n\<close> its element \<open>n - 1\<close>.  The bytes of a message are
  those between the read and the write pointers of its blocks, \<open>m_spans\<close>.  Counts and water
  marks are 32-bit unsigned, \<open>q_blocked\<close> is 8-bit.

  How many band structures can still be allocated is \<open>band_mem\<close>.  The result \<open>None\<close> is a call
  that does not return: it follows a null pointer, or the search for a queue with a service
  procedure goes round for ever.  Interrupt masking is left out: every operation runs whole.
\<close>

section \<open>Data\<close>

record mblk =
  m_addr :: nat
  m_type :: nat
  b_band :: nat
  msgnoget :: bool
  m_spans :: "(int \<times> int) list"

record qband =
  qb_count :: int
  qb_first :: "nat option"
  qb_last :: "nat option"
  qb_hiwat :: int
  qb_lowat :: int
  qb_full :: bool
  qb_wantw :: bool
  qb_back :: bool

record queue =
  q_srvp :: bool
  q_msgs :: "mblk list"
  q_next :: "nat option"
  q_count :: int
  q_minpsz :: int
  q_maxpsz :: int
  q_hiwat :: int
  q_lowat :: int
  q_bandp :: "qband list"
  q_nband :: nat
  q_blocked :: int
  qenab :: bool
  qwantr :: bool
  qwantw :: bool
  qfull :: bool
  qreadr :: bool
  qnoenb :: bool
  qback :: bool
  q_oflag :: int    \<comment> \<open>the flag bits these routines do not use\<close>

record strsys =
  queues :: "nat \<Rightarrow> queue"
  runq :: "nat list"
  qsched :: bool
  band_mem :: nat
  str_freed :: "mblk list"

definition upd_q :: "nat \<Rightarrow> (queue \<Rightarrow> queue) \<Rightarrow> strsys \<Rightarrow> strsys" where
  "upd_q q f s = s\<lparr>queues := (queues s)(q := f (queues s q))\<rparr>"

definition u8 :: "int \<Rightarrow> int" where
  "u8 x = x mod 256"

definition QPCTL :: nat where "QPCTL = 128"
definition QNORM :: nat where "QNORM = 0"

definition queclass :: "mblk \<Rightarrow> nat" where
  "queclass m = (if m_type m \<ge> QPCTL then QPCTL else QNORM)"

text \<open>\<open>M_DATA\<close>, \<open>M_PROTO\<close>, \<open>M_PCPROTO\<close>, \<open>M_DELAY\<close>.\<close>

definition datamsg :: "nat \<Rightarrow> bool" where
  "datamsg t \<longleftrightarrow> t = 0 \<or> t = 1 \<or> t = 131 \<or> t = 12"

definition canenable :: "queue \<Rightarrow> bool" where
  "canenable q \<longleftrightarrow> \<not> qnoenb q"

definition count_add :: "int \<Rightarrow> mblk \<Rightarrow> int" where
  "count_add c m = fold (\<lambda>(r, w) c. u32 (c + (w - r))) (m_spans m) c"

definition count_sub :: "int \<Rightarrow> mblk \<Rightarrow> int" where
  "count_sub c m = fold (\<lambda>(r, w) c. u32 (c - (w - r))) (m_spans m) c"

definition freemsg :: "mblk \<Rightarrow> strsys \<Rightarrow> strsys" where
  "freemsg m s = s\<lparr>str_freed := m # str_freed s\<rparr>"

section \<open>Scheduling and back-enabling\<close>

definition OTHERQ :: "strsys \<Rightarrow> nat \<Rightarrow> nat" where
  "OTHERQ s q = (if qreadr (queues s q) then q + 1 else q - 1)"

definition backq :: "strsys \<Rightarrow> nat \<Rightarrow> nat option" where
  "backq s q = map_option (OTHERQ s) (q_next (queues s (OTHERQ s q)))"

definition qenable :: "nat \<Rightarrow> strsys \<Rightarrow> strsys" where
  "qenable q s =
     (if \<not> q_srvp (queues s q) then s
      else if qenab (queues s q) then s
      else (upd_q q (\<lambda>x. x\<lparr>qenab := True\<rparr>) s)\<lparr>runq := runq s @ [q], qsched := True\<rparr>)"

text \<open>Band structures for the bands the queue does not have yet.\<close>

definition new_band :: "queue \<Rightarrow> qband" where
  "new_band q = \<lparr>qb_count = 0, qb_first = None, qb_last = None, qb_hiwat = q_hiwat q,
     qb_lowat = q_lowat q, qb_full = False, qb_wantw = False, qb_back = False\<rparr>"

primrec grow_bands :: "nat \<Rightarrow> queue \<Rightarrow> nat \<Rightarrow> bool \<times> queue \<times> nat" where
  "grow_bands 0 q mem = (True, q, mem)"
| "grow_bands (Suc n) q mem =
     (if mem = 0 then (False, q, mem)
      else grow_bands n (q\<lparr>q_bandp := q_bandp q @ [new_band q], q_nband := q_nband q + 1\<rparr>) (mem - 1))"

definition have_band :: "nat \<Rightarrow> nat \<Rightarrow> strsys \<Rightarrow> bool \<times> strsys" where
  "have_band q pri s =
     (case grow_bands (pri - q_nband (queues s q)) (queues s q) (band_mem s) of
        (ok, x, mem) \<Rightarrow> (ok, s\<lparr>queues := (queues s)(q := x), band_mem := mem\<rparr>))"

definition upd_band :: "nat \<Rightarrow> (qband \<Rightarrow> qband) \<Rightarrow> queue \<Rightarrow> queue" where
  "upd_band pri f q = q\<lparr>q_bandp := (q_bandp q)[pri - 1 := f (q_bandp q ! (pri - 1))]\<rparr>"

definition setqback :: "nat \<Rightarrow> nat \<Rightarrow> strsys \<Rightarrow> strsys" where
  "setqback q pri s =
     (if pri \<noteq> 0 then
        (case have_band q pri s of
           (False, s1) \<Rightarrow> s1
         | (True, s1) \<Rightarrow> upd_q q (upd_band pri (\<lambda>b. b\<lparr>qb_back := True\<rparr>)) s1)
      else upd_q q (\<lambda>x. x\<lparr>qback := True\<rparr>) s)"

text \<open>The nearest back queue with a service procedure, or none.\<close>

partial_function (option) back_srv :: "strsys \<Rightarrow> nat option \<Rightarrow> nat option option" where
  "back_srv s nq =
     (case nq of
        None \<Rightarrow> Some None
      | Some q \<Rightarrow> if q_srvp (queues s q) then Some (Some q) else back_srv s (backq s q))"

declare back_srv.simps [code]

definition back_enable :: "nat \<Rightarrow> nat \<Rightarrow> bool \<Rightarrow> strsys \<Rightarrow> strsys option" where
  "back_enable q band wantw s =
     (case back_srv s (backq s q) of
        None \<Rightarrow> None
      | Some nq \<Rightarrow>
          let wake = (\<lambda>pri s. case nq of None \<Rightarrow> s | Some n \<Rightarrow> setqback n pri (qenable n s));
              s1 = (if wantw
                    then wake band
                           (upd_q q (\<lambda>x. if band \<noteq> 0 then upd_band band (\<lambda>b. b\<lparr>qb_wantw := False\<rparr>) x
                                         else x\<lparr>qwantw := False\<rparr>) s)
                    else s);
              x = queues s1 q in
          Some (if qwantw x \<and> q_blocked x = 0 \<and> \<not> qfull x \<and> nq \<noteq> None then wake 0 s1 else s1))"

section \<open>Counting messages in and out\<close>

definition count_in :: "mblk \<Rightarrow> queue \<Rightarrow> queue" where
  "count_in m q =
     (if b_band m \<noteq> 0 then
        let b = q_bandp q ! (b_band m - 1);
            c = count_add (qb_count b) m;
            fills = (c \<ge> qb_hiwat b \<and> \<not> qb_full b) in
        (upd_band (b_band m) (\<lambda>b. b\<lparr>qb_count := c, qb_full := qb_full b \<or> fills\<rparr>) q)
          \<lparr>q_blocked := (if fills then u8 (q_blocked q + 1) else q_blocked q)\<rparr>
      else
        let c = count_add (q_count q) m in
        q\<lparr>q_count := c, qfull := qfull q \<or> c \<ge> q_hiwat q\<rparr>)"

text \<open>Counting out also says whether the queue has fallen to its low water mark.\<close>

definition count_out :: "mblk \<Rightarrow> queue \<Rightarrow> queue \<times> bool" where
  "count_out m q =
     (if b_band m \<noteq> 0 then
        let b = q_bandp q ! (b_band m - 1);
            c = count_sub (qb_count b) m;
            clears = (c < qb_hiwat b \<and> qb_full b) in
        ((upd_band (b_band m) (\<lambda>b. b\<lparr>qb_count := c, qb_full := qb_full b \<and> \<not> clears\<rparr>) q)
           \<lparr>q_blocked := (if clears then u8 (q_blocked q - 1) else q_blocked q)\<rparr>,
         c \<le> qb_lowat b)
      else
        let c = count_sub (q_count q) m in
        (q\<lparr>q_count := c, qfull := qfull q \<and> \<not> c < q_hiwat q\<rparr>, c \<le> q_lowat q))"

definition want_write :: "nat \<Rightarrow> queue \<Rightarrow> bool" where
  "want_write pri q = (if pri \<noteq> 0 then qb_wantw (q_bandp q ! (pri - 1)) else qwantw q)"

section \<open>Taking messages off\<close>

fun msg_at :: "nat \<Rightarrow> mblk list \<Rightarrow> mblk option" where
  "msg_at a [] = None"
| "msg_at a (m # ms) = (if m_addr m = a then Some m else msg_at a ms)"

fun msg_unlink :: "nat \<Rightarrow> mblk list \<Rightarrow> mblk list" where
  "msg_unlink a [] = []"
| "msg_unlink a (m # ms) = (if m_addr m = a then ms else m # msg_unlink a ms)"

fun msg_next :: "nat \<Rightarrow> mblk list \<Rightarrow> mblk option" where
  "msg_next a [] = None"
| "msg_next a (m # ms) = (if m_addr m = a then (case ms of [] \<Rightarrow> None | n # _ \<Rightarrow> Some n) else msg_next a ms)"

definition msg_prev :: "nat \<Rightarrow> mblk list \<Rightarrow> mblk option" where
  "msg_prev a ms = msg_next a (rev ms)"

definition same_band :: "nat \<Rightarrow> mblk option \<Rightarrow> nat option" where
  "same_band pri m = (case m of Some n \<Rightarrow> if b_band n = pri then Some (m_addr n) else None | None \<Rightarrow> None)"

definition rmvq :: "nat \<Rightarrow> mblk \<Rightarrow> strsys \<Rightarrow> strsys option" where
  "rmvq q m s =
     (let x = queues s q; a = m_addr m; ms = q_msgs x;
          x1 = (if b_band m \<noteq> 0 then
                  upd_band (b_band m) (\<lambda>b. b\<lparr>
                    qb_first := (if qb_first b = Some a then same_band (b_band m) (msg_next a ms) else qb_first b),
                    qb_last := (if qb_last b = Some a then same_band (b_band m) (msg_prev a ms) else qb_last b)\<rparr>) x
                else x);
          r = count_out m (x1\<lparr>q_msgs := msg_unlink a ms\<rparr>);
          s1 = s\<lparr>queues := (queues s)(q := fst r)\<rparr> in
      if snd r then back_enable q (b_band m) (want_write (b_band m) x) s1 else Some s1)"

definition getq :: "nat \<Rightarrow> strsys \<Rightarrow> (mblk option \<times> strsys) option" where
  "getq q s =
     (let x = queues s q in
      case q_msgs x of
        [] \<Rightarrow>
          map_option (\<lambda>s'. (None, s')) (back_enable q 0 (qwantw x) (upd_q q (\<lambda>x. x\<lparr>qwantr := True\<rparr>) s))
      | m # ms \<Rightarrow>
          if msgnoget m then
            (case dropWhile msgnoget (m # ms) of
               [] \<Rightarrow> Some (None, s)
             | n # _ \<Rightarrow> map_option (\<lambda>s'. (Some n, s')) (rmvq q n s))
          else
            let x1 = (if b_band m \<noteq> 0 then
                        upd_band (b_band m) (\<lambda>b.
                          if qb_first b = qb_last b then b\<lparr>qb_first := None, qb_last := None\<rparr>
                          else b\<lparr>qb_first := (case ms of [] \<Rightarrow> None | n # _ \<Rightarrow> Some (m_addr n))\<rparr>) x
                      else x);
                r = count_out m (x1\<lparr>q_msgs := ms\<rparr>);
                s1 = s\<lparr>queues := (queues s)(q := (fst r)\<lparr>qwantr := False\<rparr>)\<rparr> in
            map_option (\<lambda>s'. (Some m, s'))
              (if snd r then back_enable q (b_band m) (want_write (b_band m) x) s1 else Some s1))"

section \<open>Putting messages on\<close>

fun msg_insert_after :: "nat \<Rightarrow> mblk \<Rightarrow> mblk list \<Rightarrow> mblk list" where
  "msg_insert_after a new [] = []"
| "msg_insert_after a new (m # ms) =
     (if m_addr m = a then m # new # ms else m # msg_insert_after a new ms)"

fun msg_insert_before :: "nat \<Rightarrow> mblk \<Rightarrow> mblk list \<Rightarrow> mblk list" where
  "msg_insert_before a new [] = []"
| "msg_insert_before a new (m # ms) =
     (if m_addr m = a then new # m # ms else m # msg_insert_before a new ms)"

text \<open>Before the first message that fails the test; running off the list follows a null pointer.\<close>

definition insert_at :: "(mblk \<Rightarrow> bool) \<Rightarrow> mblk \<Rightarrow> mblk list \<Rightarrow> mblk list option" where
  "insert_at p new ms =
     (if dropWhile p ms = [] then None else Some (takeWhile p ms @ new # dropWhile p ms))"

definition insert_at2 :: "(mblk \<Rightarrow> bool) \<Rightarrow> (mblk \<Rightarrow> bool) \<Rightarrow> mblk \<Rightarrow> mblk list \<Rightarrow> mblk list option" where
  "insert_at2 p r new ms = map_option (\<lambda>ms'. takeWhile p ms @ ms') (insert_at r new (dropWhile p ms))"

definition high_band0 :: "mblk \<Rightarrow> mblk" where
  "high_band0 m = (if queclass m = QPCTL then m\<lparr>b_band := 0\<rparr> else m)"

text \<open>Where \<open>putq\<close> links the message; \<open>b\<close> is its band structure.\<close>

definition putq_link :: "mblk \<Rightarrow> queue \<Rightarrow> queue option" where
  "putq_link m x =
     (let ms = q_msgs x; pri = b_band m; a = Some (m_addr m); mcls = queclass m; b = q_bandp x ! (pri - 1) in
      if ms = [] then
        Some ((if pri \<noteq> 0 then upd_band pri (\<lambda>b. b\<lparr>qb_first := a, qb_last := a\<rparr>) x else x)\<lparr>q_msgs := [m]\<rparr>)
      else if pri = 0 then
        (if mcls \<le> queclass (last ms) then Some (x\<lparr>q_msgs := ms @ [m]\<rparr>)
         else map_option (\<lambda>ms'. x\<lparr>q_msgs := ms'\<rparr>) (insert_at (\<lambda>t. queclass t \<ge> mcls) m ms))
      else
        (case qb_first b of
           Some _ \<Rightarrow>
             (case qb_last b of
                None \<Rightarrow> None
              | Some l \<Rightarrow> Some (upd_band pri (\<lambda>b. b\<lparr>qb_last := a\<rparr>) (x\<lparr>q_msgs := msg_insert_after l m ms\<rparr>)))
         | None \<Rightarrow>
             map_option (\<lambda>ms'. upd_band pri (\<lambda>b. b\<lparr>qb_first := a, qb_last := a\<rparr>) (x\<lparr>q_msgs := ms'\<rparr>))
               (if mcls < queclass (last ms) \<or> pri \<le> b_band (last ms) then Some (ms @ [m])
                else insert_at2 (\<lambda>t. m_type t \<ge> QPCTL) (\<lambda>t. b_band t \<ge> pri) m ms)))"

text \<open>The end of \<open>putq\<close>, \<open>putbq\<close>: the service procedure is to run.\<close>

definition put_enable :: "nat \<Rightarrow> mblk \<Rightarrow> strsys \<Rightarrow> strsys" where
  "put_enable q m s =
     (if queclass m > QNORM \<or> canenable (queues s q) \<and> qwantr (queues s q) then qenable q s else s)"

definition put_with ::
  "(mblk \<Rightarrow> queue \<Rightarrow> queue option) \<Rightarrow> nat \<Rightarrow> mblk \<Rightarrow> strsys \<Rightarrow> (bool \<times> strsys) option" where
  "put_with link q bp s =
     (let m = high_band0 bp in
      case have_band q (b_band m) s of
        (False, s1) \<Rightarrow> Some (False, s1)
      | (True, s1) \<Rightarrow>
          (case link m (queues s1 q) of
             None \<Rightarrow> None
           | Some x \<Rightarrow> Some (True, put_enable q m (s1\<lparr>queues := (queues s1)(q := count_in m x)\<rparr>))))"

definition putq :: "nat \<Rightarrow> mblk \<Rightarrow> strsys \<Rightarrow> (bool \<times> strsys) option" where
  "putq = put_with putq_link"

definition putbq_link :: "mblk \<Rightarrow> queue \<Rightarrow> queue option" where
  "putbq_link m x =
     (let ms = q_msgs x; pri = b_band m; a = Some (m_addr m); mcls = queclass m; b = q_bandp x ! (pri - 1);
          low = (mcls < queclass (last ms) \<or> pri < b_band (last ms));
          here = insert_at2 (\<lambda>t. m_type t \<ge> QPCTL) (\<lambda>t. b_band t > pri) m ms in
      if ms = [] \<or> mcls = QPCTL then
        Some ((if pri \<noteq> 0 then upd_band pri (\<lambda>b. b\<lparr>qb_first := a, qb_last := a\<rparr>) x else x)\<lparr>q_msgs := m # ms\<rparr>)
      else if pri \<noteq> 0 then
        (case qb_first b of
           Some f \<Rightarrow> Some (upd_band pri (\<lambda>b. b\<lparr>qb_first := a\<rparr>) (x\<lparr>q_msgs := msg_insert_before f m ms\<rparr>))
         | None \<Rightarrow>
             map_option (\<lambda>ms'. upd_band pri (\<lambda>b. b\<lparr>qb_first := a, qb_last := a\<rparr>) (x\<lparr>q_msgs := ms'\<rparr>))
               (if low then Some (ms @ [m]) else here))
      else map_option (\<lambda>ms'. x\<lparr>q_msgs := ms'\<rparr>) (if low then Some (ms @ [m]) else here))"

definition putbq :: "nat \<Rightarrow> mblk \<Rightarrow> strsys \<Rightarrow> (bool \<times> strsys) option" where
  "putbq = put_with putbq_link"

section \<open>Inserting before a given message\<close>

definition insq_badord :: "mblk \<Rightarrow> nat option \<Rightarrow> mblk list \<Rightarrow> bool" where
  "insq_badord m emp ms =
     (case emp of
        Some e \<Rightarrow>
          (let em = the (msg_at e ms); pm = msg_prev e ms in
           queclass m = QPCTL \<and> (case pm of Some p \<Rightarrow> m_type p < QPCTL | None \<Rightarrow> False)
           \<or> queclass m = QNORM \<and> b_band m < b_band em
           \<or> (case pm of Some p \<Rightarrow> m_type p < QPCTL \<and> b_band p < b_band m | None \<Rightarrow> False))
      | None \<Rightarrow> ms \<noteq> [] \<and> queclass m = QNORM \<and> b_band m > b_band (last ms))"

definition insq_band :: "mblk \<Rightarrow> nat option \<Rightarrow> mblk list \<Rightarrow> qband \<Rightarrow> qband" where
  "insq_band m emp ms b =
     (let a = Some (m_addr m) in
      if qb_first b = None then b\<lparr>qb_first := a, qb_last := a\<rparr>
      else if qb_first b = emp then b\<lparr>qb_first := a\<rparr>
      else case emp of
             Some e \<Rightarrow> if b_band (the (msg_at e ms)) \<noteq> b_band m then b\<lparr>qb_last := a\<rparr> else b
           | None \<Rightarrow> b)"

definition insq :: "nat \<Rightarrow> nat option \<Rightarrow> mblk \<Rightarrow> strsys \<Rightarrow> bool \<times> strsys" where
  "insq q emp mp s =
     (let m = high_band0 mp; ms = q_msgs (queues s q) in
      if insq_badord m emp ms then (False, s)
      else
        case have_band q (b_band m) s of
          (False, s1) \<Rightarrow> (False, s1)
        | (True, s1) \<Rightarrow>
            let x = queues s1 q;
                ms' = (case emp of Some e \<Rightarrow> msg_insert_before e m ms | None \<Rightarrow> ms @ [m]);
                x1 = (if b_band m \<noteq> 0 then upd_band (b_band m) (insq_band m emp ms) x else x);
                s2 = s1\<lparr>queues := (queues s1)(q := count_in m (x1\<lparr>q_msgs := ms'\<rparr>))\<rparr> in
            (True, if canenable (queues s2 q) \<and> qwantr (queues s2 q) then qenable q s2 else s2))"

section \<open>Flushing\<close>

definition empty_q :: "queue \<Rightarrow> queue" where
  "empty_q x = x\<lparr>q_msgs := [], q_count := 0,
     q_bandp := map (\<lambda>b. b\<lparr>qb_first := None, qb_last := None, qb_count := 0, qb_full := False\<rparr>) (q_bandp x),
     q_blocked := 0, qfull := False\<rparr>"

text \<open>Every message is freed or put back.\<close>

fun flush_msgs :: "(mblk \<Rightarrow> bool) \<Rightarrow> nat \<Rightarrow> mblk list \<Rightarrow> strsys \<Rightarrow> strsys option" where
  "flush_msgs gone q [] s = Some s"
| "flush_msgs gone q (m # ms) s =
     (if gone m then flush_msgs gone q ms (freemsg m s)
      else case putq q m s of None \<Rightarrow> None | Some (_, s') \<Rightarrow> flush_msgs gone q ms s')"

definition wants_back :: "qband \<Rightarrow> bool" where
  "wants_back b \<longleftrightarrow> qb_wantw b \<and> qb_count b \<le> qb_lowat b"

definition flush_wants :: "queue \<Rightarrow> bool list" where
  "flush_wants x = (qwantw x \<and> q_count x \<le> q_lowat x) # map wants_back (q_bandp x)"

definition clear_wants :: "queue \<Rightarrow> queue" where
  "clear_wants x = x\<lparr>q_bandp := map (\<lambda>b. if wants_back b then b\<lparr>qb_wantw := False\<rparr> else b) (q_bandp x),
     qwantw := (qwantw x \<and> \<not> q_count x \<le> q_lowat x)\<rparr>"

text \<open>The bands \<open>i < bpri\<close> that were waited for; \<open>bpri\<close> is an \<open>unsigned char\<close>.\<close>

definition setqbacks :: "nat \<Rightarrow> bool list \<Rightarrow> strsys \<Rightarrow> strsys" where
  "setqbacks nq qbf s =
     fold (\<lambda>i s. if qbf ! i then setqback nq i s else s) [0 ..< length qbf mod 256] s"

definition flushq :: "nat \<Rightarrow> bool \<Rightarrow> strsys \<Rightarrow> strsys option" where
  "flushq q flag s =
     (case flush_msgs (\<lambda>m. flag \<or> datamsg (m_type m)) q (q_msgs (queues s q)) (upd_q q empty_q s) of
        None \<Rightarrow> None
      | Some s1 \<Rightarrow>
          let qbf = flush_wants (queues s1 q);
              s2 = upd_q q clear_wants s1 in
          if True \<in> set qbf then
            (case back_srv s2 (backq s2 q) of
               None \<Rightarrow> None
             | Some None \<Rightarrow> Some s2
             | Some (Some nq) \<Rightarrow> Some (setqbacks nq qbf (qenable nq s2)))
          else Some s2)"

text \<open>The messages that \<open>flushband\<close> looks at are those from the first to the last of the band.\<close>

fun flush_band_msgs :: "(mblk \<Rightarrow> bool) \<Rightarrow> nat \<Rightarrow> mblk list \<Rightarrow> strsys \<Rightarrow> strsys option" where
  "flush_band_msgs gone q [] s = Some s"
| "flush_band_msgs gone q (m # ms) s =
     (if gone m then
        (case rmvq q m s of None \<Rightarrow> None | Some s' \<Rightarrow> flush_band_msgs gone q ms (freemsg m s'))
      else flush_band_msgs gone q ms s)"

fun band_run :: "nat option \<Rightarrow> mblk list \<Rightarrow> mblk list option" where
  "band_run l [] = (if l = None then Some [] else None)"
| "band_run l (m # ms) = (if l = Some (m_addr m) then Some [m] else map_option (Cons m) (band_run l ms))"

definition flushband :: "nat \<Rightarrow> nat \<Rightarrow> bool \<Rightarrow> strsys \<Rightarrow> strsys option" where
  "flushband q pri flag s =
     (let x = queues s q in
      if pri > q_nband x then Some s
      else if pri = 0 then
        (case flush_msgs (\<lambda>m. b_band m = 0 \<and> m_type m < QPCTL \<and> (flag \<or> datamsg (m_type m)))
                q (q_msgs x) (upd_q q empty_q s) of
           None \<Rightarrow> None
         | Some s1 \<Rightarrow>
             let x1 = queues s1 q in
             if qwantw x1 \<and> q_count x1 \<le> q_lowat x1 then
               let s2 = upd_q q (\<lambda>x. x\<lparr>qwantw := False\<rparr>) s1 in
               case back_srv s2 (backq s2 q) of
                 None \<Rightarrow> None
               | Some None \<Rightarrow> Some s2
               | Some (Some nq) \<Rightarrow> Some (setqback nq pri (qenable nq s2))
             else Some s1)
      else
        let b = q_bandp x ! (pri - 1) in
        case qb_first b of
          None \<Rightarrow> Some s
        | Some f \<Rightarrow>
            (case (let ms = dropWhile (\<lambda>m. m_addr m \<noteq> f) (q_msgs x) in
                   if qb_last b = Some f then Some (take 2 ms) else band_run (qb_last b) ms) of
               None \<Rightarrow> None
             | Some run \<Rightarrow>
                 flush_band_msgs (\<lambda>m. b_band m = pri \<and> (flag \<or> datamsg (m_type m))) q run s))"

section \<open>Flow control and the rest of the interface\<close>

text \<open>The queue forward from here that has a service procedure, or the last.\<close>

partial_function (option) fwd_srv :: "strsys \<Rightarrow> nat \<Rightarrow> nat option" where
  "fwd_srv s q =
     (case q_next (queues s q) of
        Some n \<Rightarrow> if \<not> q_srvp (queues s q) then fwd_srv s n else Some q
      | None \<Rightarrow> Some q)"

declare fwd_srv.simps [code]

definition canput :: "nat option \<Rightarrow> strsys \<Rightarrow> (bool \<times> strsys) option" where
  "canput q s =
     (case q of
        None \<Rightarrow> Some (False, s)
      | Some q0 \<Rightarrow>
          (case fwd_srv s q0 of
             None \<Rightarrow> None
           | Some n \<Rightarrow>
               if qfull (queues s n) \<or> q_blocked (queues s n) \<noteq> 0
               then Some (False, upd_q n (\<lambda>x. x\<lparr>qwantw := True\<rparr>) s)
               else Some (True, s)))"

definition bcanput :: "nat option \<Rightarrow> nat \<Rightarrow> strsys \<Rightarrow> (bool \<times> strsys) option" where
  "bcanput q pri s =
     (case q of
        None \<Rightarrow> Some (False, s)
      | Some q0 \<Rightarrow>
          (case fwd_srv s q0 of
             None \<Rightarrow> None
           | Some n \<Rightarrow>
               let x = queues s n in
               if pri = 0 then
                 (if qfull x then Some (False, upd_q n (\<lambda>x. x\<lparr>qwantw := True\<rparr>) s) else Some (True, s))
               else if pri > q_nband x then Some (True, s)
               else if qb_full (q_bandp x ! (pri - 1))
               then Some (False, upd_q n (upd_band pri (\<lambda>b. b\<lparr>qb_wantw := True\<rparr>)) s)
               else Some (True, s)))"

definition qsize :: "nat \<Rightarrow> strsys \<Rightarrow> nat" where
  "qsize q s = length (q_msgs (queues s q))"

definition noenable :: "nat \<Rightarrow> strsys \<Rightarrow> strsys" where
  "noenable q = upd_q q (\<lambda>x. x\<lparr>qnoenb := True\<rparr>)"

definition enableok :: "nat \<Rightarrow> strsys \<Rightarrow> strsys" where
  "enableok q = upd_q q (\<lambda>x. x\<lparr>qnoenb := False\<rparr>)"

text \<open>One turn of the service loop of \<open>queuerun\<close>; the service procedure is an argument.\<close>

definition queuerun_one :: "(nat \<Rightarrow> strsys \<Rightarrow> strsys option) \<Rightarrow> strsys \<Rightarrow> strsys option" where
  "queuerun_one srv s =
     (case runq s of
        [] \<Rightarrow> Some s
      | q # rest \<Rightarrow>
          let s1 = upd_q q (\<lambda>x. x\<lparr>qenab := False\<rparr>) (s\<lparr>runq := rest\<rparr>) in
          if q_srvp (queues s1 q) then
            map_option (upd_q q (\<lambda>x. x\<lparr>qback := False,
                q_bandp := map (\<lambda>b. b\<lparr>qb_back := False\<rparr>) (q_bandp x)\<rparr>)) (srv q s1)
          else Some s1)"

datatype qfields = QHIWAT | QLOWAT | QMAXPSZ | QMINPSZ | QCOUNT | QFIRST | QLAST | QFLAG | QBAD

datatype qval = QNum int | QPtr "nat option"

definition strqset :: "nat \<Rightarrow> qfields \<Rightarrow> nat \<Rightarrow> int \<Rightarrow> strsys \<Rightarrow> errno option \<times> strsys" where
  "strqset q what pri val s =
     (if what = QBAD then (Some EINVAL, s)
      else
        case (if pri \<noteq> 0 then have_band q pri s else (True, s)) of
          (False, s1) \<Rightarrow> (Some EAGAIN, s1)
        | (True, s1) \<Rightarrow>
            (case what of
               QHIWAT \<Rightarrow> (None, if pri \<noteq> 0 then upd_q q (upd_band pri (\<lambda>b. b\<lparr>qb_hiwat := u32 val\<rparr>)) s1
                                else upd_q q (\<lambda>x. x\<lparr>q_hiwat := u32 val\<rparr>) s1)
             | QLOWAT \<Rightarrow> (None, if pri \<noteq> 0 then upd_q q (upd_band pri (\<lambda>b. b\<lparr>qb_lowat := u32 val\<rparr>)) s1
                                else upd_q q (\<lambda>x. x\<lparr>q_lowat := u32 val\<rparr>) s1)
             | QMAXPSZ \<Rightarrow> if pri \<noteq> 0 then (Some EINVAL, s1) else (None, upd_q q (\<lambda>x. x\<lparr>q_maxpsz := val\<rparr>) s1)
             | QMINPSZ \<Rightarrow> if pri \<noteq> 0 then (Some EINVAL, s1) else (None, upd_q q (\<lambda>x. x\<lparr>q_minpsz := val\<rparr>) s1)
             | _ \<Rightarrow> (Some EPERM, s1)))"

definition q_flags :: "queue \<Rightarrow> int" where
  "q_flags x = of_bool (qenab x) + 2 * of_bool (qwantr x) + 4 * of_bool (qwantw x) + 8 * of_bool (qfull x)
     + 16 * of_bool (qreadr x) + 64 * of_bool (qnoenb x) + 256 * of_bool (qback x) + q_oflag x"

definition qb_flags :: "qband \<Rightarrow> int" where
  "qb_flags b = of_bool (qb_full b) + 2 * of_bool (qb_wantw b) + 4 * of_bool (qb_back b)"

definition strqget :: "nat \<Rightarrow> qfields \<Rightarrow> nat \<Rightarrow> strsys \<Rightarrow> qval res \<times> strsys" where
  "strqget q what pri s =
     (if what = QBAD then (Err EINVAL, s)
      else
        case (if pri \<noteq> 0 then have_band q pri s else (True, s)) of
          (False, s1) \<Rightarrow> (Err EAGAIN, s1)
        | (True, s1) \<Rightarrow>
            let x = queues s1 q; b = q_bandp x ! (pri - 1); ms = q_msgs x in
            (case what of
               QHIWAT \<Rightarrow> Ok (QNum (if pri \<noteq> 0 then qb_hiwat b else q_hiwat x))
             | QLOWAT \<Rightarrow> Ok (QNum (if pri \<noteq> 0 then qb_lowat b else q_lowat x))
             | QMAXPSZ \<Rightarrow> if pri \<noteq> 0 then Err EINVAL else Ok (QNum (q_maxpsz x))
             | QMINPSZ \<Rightarrow> if pri \<noteq> 0 then Err EINVAL else Ok (QNum (q_minpsz x))
             | QCOUNT \<Rightarrow> Ok (QNum (if pri \<noteq> 0 then qb_count b else q_count x))
             | QFIRST \<Rightarrow> Ok (QPtr (if pri \<noteq> 0 then qb_first b else if ms = [] then None else Some (m_addr (hd ms))))
             | QLAST \<Rightarrow> Ok (QPtr (if pri \<noteq> 0 then qb_last b else if ms = [] then None else Some (m_addr (last ms))))
             | _ \<Rightarrow> Ok (QNum (if pri \<noteq> 0 then qb_flags b else q_flags x)), s1))"

end
