(* ===== verification/Stream_Queue_Order.thy ===== *)
theory Stream_Queue_Order
  imports Stream_Queues
begin

text \<open>
  The order of a queue: messages by falling priority, messages of one priority in the order they
  were put on, and the band structures pointing at the first and the last message of their
  band.  The scans and pointer manipulations of \<open>putq\<close> and \<open>putbq\<close> insert the message behind all,
  or ahead of all, messages of its priority.
\<close>

section \<open>Order\<close>

text \<open>Priority of a message: high priority above every band.\<close>

definition mkey :: "mblk \<Rightarrow> nat" where
  "mkey m = (if m_type m \<ge> QPCTL then 256 else b_band m)"

definition msg_ok :: "nat \<Rightarrow> mblk \<Rightarrow> bool" where
  "msg_ok nband m \<longleftrightarrow> b_band m \<le> nband \<and> b_band m \<le> 255 \<and> (m_type m \<ge> QPCTL \<longrightarrow> b_band m = 0)"

definition prio_sorted :: "mblk list \<Rightarrow> bool" where
  "prio_sorted ms \<longleftrightarrow> sorted_wrt (\<lambda>m n. mkey n \<le> mkey m) ms"

definition put_behind :: "mblk \<Rightarrow> mblk list \<Rightarrow> mblk list" where
  "put_behind m ms = takeWhile (\<lambda>t. mkey m \<le> mkey t) ms @ m # dropWhile (\<lambda>t. mkey m \<le> mkey t) ms"

definition put_ahead :: "mblk \<Rightarrow> mblk list \<Rightarrow> mblk list" where
  "put_ahead m ms = takeWhile (\<lambda>t. mkey m < mkey t) ms @ m # dropWhile (\<lambda>t. mkey m < mkey t) ms"

lemma split_while:
  assumes "\<forall>a \<in> set A. P a" and "\<forall>b \<in> set B. \<not> P b"
  shows "takeWhile P (A @ B) = A" "dropWhile P (A @ B) = B"
proof -
  have "takeWhile P B = []" "dropWhile P B = B" using assms(2) by (cases B; simp)+
  with assms(1) show "takeWhile P (A @ B) = A" "dropWhile P (A @ B) = B" by simp_all
qed

lemma prio_sorted_append:
  "prio_sorted (A @ B) \<longleftrightarrow> prio_sorted A \<and> prio_sorted B \<and> (\<forall>a \<in> set A. \<forall>b \<in> set B. mkey b \<le> mkey a)"
  by (simp add: prio_sorted_def sorted_wrt_append)

lemma prio_sorted_Cons:
  "prio_sorted (m # B) \<longleftrightarrow> prio_sorted B \<and> (\<forall>b \<in> set B. mkey b \<le> mkey m)"
  by (auto simp: prio_sorted_def)

lemmas prio_simps = prio_sorted_append prio_sorted_Cons

lemma prio_sorted_last: "prio_sorted ms \<Longrightarrow> t \<in> set ms \<Longrightarrow> mkey (last ms) \<le> mkey t"
  by (cases ms rule: rev_cases) (auto simp: prio_simps)

text \<open>In a sorted queue a test on the priority that holds of a prefix splits it there.\<close>

lemma sorted_split:
  assumes "prio_sorted ms"
  shows "\<forall>a \<in> set (takeWhile (\<lambda>t. k \<le> mkey t) ms). k \<le> mkey a" "\<forall>b \<in> set (dropWhile (\<lambda>t. k \<le> mkey t) ms). mkey b < k"
proof -
  show "\<forall>a \<in> set (takeWhile (\<lambda>t. k \<le> mkey t) ms). k \<le> mkey a" by (auto dest: set_takeWhileD)
  show "\<forall>b \<in> set (dropWhile (\<lambda>t. k \<le> mkey t) ms). mkey b < k"
    using assms
    by (induction ms) (auto simp: prio_simps not_le)
qed

section \<open>Pointers to the ends of a band\<close>

definition first_of :: "nat \<Rightarrow> mblk list \<Rightarrow> nat option" where
  "first_of i ms = map_option m_addr (find (\<lambda>m. b_band m = i) ms)"

definition last_of :: "nat \<Rightarrow> mblk list \<Rightarrow> nat option" where
  "last_of i ms = first_of i (rev ms)"

lemma first_of_simps [simp]:
  "first_of i [] = None"
  "first_of i (m # ms) = (if b_band m = i then Some (m_addr m) else first_of i ms)"
  by (simp_all add: first_of_def)

lemma first_of_append: "first_of i (A @ B) = (case first_of i A of None \<Rightarrow> first_of i B | Some a \<Rightarrow> Some a)"
  by (induction A) auto

lemma last_of_simps [simp]:
  "last_of i [] = None"
  "last_of i (m # ms) = (case last_of i ms of None \<Rightarrow> if b_band m = i then Some (m_addr m) else None | Some a \<Rightarrow> Some a)"
  by (simp_all add: last_of_def first_of_append split: option.split)

lemma last_of_append: "last_of i (A @ B) = (case last_of i B of None \<Rightarrow> last_of i A | Some a \<Rightarrow> Some a)"
  by (simp add: last_of_def first_of_append split: option.split)

lemma first_of_None: "first_of i ms = None \<longleftrightarrow> (\<forall>m \<in> set ms. b_band m \<noteq> i)"
  by (induction ms) auto

lemma last_of_None: "last_of i ms = None \<longleftrightarrow> (\<forall>m \<in> set ms. b_band m \<noteq> i)"
  by (simp add: last_of_def first_of_None)

lemma first_of_Some:
  "first_of i ms = Some a \<Longrightarrow> \<exists>A m B. ms = A @ m # B \<and> m_addr m = a \<and> b_band m = i \<and> (\<forall>t \<in> set A. b_band t \<noteq> i)"
proof (induction ms)
  case (Cons m ms)
  show ?case
  proof (cases "b_band m = i")
    case True
    with Cons.prems show ?thesis by (intro exI [of _ "[]"] exI [of _ m] exI [of _ ms]) simp
  next
    case False
    with Cons obtain A t B where "ms = A @ t # B" "m_addr t = a" "b_band t = i" "\<forall>u \<in> set A. b_band u \<noteq> i"
      by auto
    with False show ?thesis by (intro exI [of _ "m # A"] exI [of _ t] exI [of _ B]) simp
  qed
qed simp

lemma last_of_Some:
  assumes "last_of i ms = Some a"
  shows "\<exists>A m B. ms = A @ m # B \<and> m_addr m = a \<and> b_band m = i \<and> (\<forall>t \<in> set B. b_band t \<noteq> i)"
proof -
  from assms obtain A m B where "rev ms = A @ m # B" "m_addr m = a" "b_band m = i" "\<forall>t \<in> set A. b_band t \<noteq> i"
    unfolding last_of_def using first_of_Some by blast
  then have "ms = rev B @ m # rev A" by (metis append.assoc append_Cons append_Nil rev.simps(2) rev_append rev_rev_ident)
  with \<open>m_addr m = a\<close> \<open>b_band m = i\<close> \<open>\<forall>t \<in> set A. b_band t \<noteq> i\<close> show ?thesis
    by (intro exI [of _ "rev B"] exI [of _ m] exI [of _ "rev A"]) simp
qed

definition ptrs_ok :: "queue \<Rightarrow> bool" where
  "ptrs_ok x \<longleftrightarrow> (\<forall>i. 1 \<le> i \<and> i \<le> q_nband x \<longrightarrow>
     qb_first (q_bandp x ! (i - 1)) = first_of i (q_msgs x) \<and> qb_last (q_bandp x ! (i - 1)) = last_of i (q_msgs x))"

definition order_ok :: "queue \<Rightarrow> bool" where
  "order_ok x \<longleftrightarrow> prio_sorted (q_msgs x) \<and> distinct (map m_addr (q_msgs x))
     \<and> (\<forall>m \<in> set (q_msgs x). msg_ok (q_nband x) m) \<and> length (q_bandp x) = q_nband x \<and> ptrs_ok x"

lemma upd_band_simps [simp]:
  "q_msgs (upd_band pri f x) = q_msgs x" "q_nband (upd_band pri f x) = q_nband x"
  "length (q_bandp (upd_band pri f x)) = length (q_bandp x)"
  "q_count (upd_band pri f x) = q_count x" "q_hiwat (upd_band pri f x) = q_hiwat x"
  "q_lowat (upd_band pri f x) = q_lowat x" "q_blocked (upd_band pri f x) = q_blocked x"
  "qfull (upd_band pri f x) = qfull x" "qwantw (upd_band pri f x) = qwantw x"
  "qwantr (upd_band pri f x) = qwantr x" "qenab (upd_band pri f x) = qenab x"
  "q_srvp (upd_band pri f x) = q_srvp x" "q_next (upd_band pri f x) = q_next x"
  "qreadr (upd_band pri f x) = qreadr x" "qnoenb (upd_band pri f x) = qnoenb x"
  by (simp_all add: upd_band_def)

lemma upd_band_nth:
  "1 \<le> i \<Longrightarrow> i \<le> length (q_bandp x) \<Longrightarrow> 1 \<le> pri \<Longrightarrow>
   q_bandp (upd_band pri f x) ! (i - 1) = (if i = pri then f (q_bandp x ! (i - 1)) else q_bandp x ! (i - 1))"
  by (cases i; cases pri) (auto simp: upd_band_def nth_list_update)

text \<open>Band structures that differ in the two pointers only.\<close>

definition same_flow :: "qband \<Rightarrow> qband \<Rightarrow> bool" where
  "same_flow b b' \<longleftrightarrow> qb_count b' = qb_count b \<and> qb_hiwat b' = qb_hiwat b \<and> qb_lowat b' = qb_lowat b
     \<and> qb_full b' = qb_full b \<and> qb_wantw b' = qb_wantw b \<and> qb_back b' = qb_back b"

lemma same_flow_refl [simp]: "same_flow b b"
  by (simp add: same_flow_def)

text \<open>Linking a message in between two parts of the queue.\<close>

definition links :: "mblk \<Rightarrow> mblk list \<Rightarrow> mblk list \<Rightarrow> queue \<Rightarrow> queue \<Rightarrow> bool" where
  "links m A B x x' \<longleftrightarrow> q_msgs x = A @ B \<and> (\<exists>bs. x' = x\<lparr>q_msgs := A @ m # B, q_bandp := bs\<rparr>
     \<and> length bs = length (q_bandp x)
     \<and> (\<forall>j < length bs. same_flow (q_bandp x ! j) (bs ! j))) \<and> order_ok x'"

definition linked :: "mblk \<Rightarrow> mblk list \<Rightarrow> mblk list \<Rightarrow> queue \<Rightarrow> queue" where
  "linked m A B x =
     (if b_band m \<noteq> 0 then upd_band (b_band m) (\<lambda>b. b\<lparr>qb_first := first_of (b_band m) (A @ m # B),
        qb_last := last_of (b_band m) (A @ m # B)\<rparr>) x else x)\<lparr>q_msgs := A @ m # B\<rparr>"

lemma order_link:
  assumes ok: "order_ok x" and ms: "q_msgs x = A @ B"
    and m: "msg_ok (q_nband x) m" "m_addr m \<notin> m_addr ` set (q_msgs x)"
    and key: "\<forall>a \<in> set A. mkey m \<le> mkey a" "\<forall>b \<in> set B. mkey b \<le> mkey m"
  shows "links m A B x (linked m A B x)"
proof -
  define x' where "x' = linked m A B x"
  note x' = x'_def [unfolded linked_def]
  let ?bs = "q_bandp x'"
  have len: "length (q_bandp x) = q_nband x" using ok by (simp add: order_ok_def)
  have shape: "x' = x\<lparr>q_msgs := A @ m # B, q_bandp := ?bs\<rparr>" "length ?bs = length (q_bandp x)"
    by (auto simp: x' upd_band_def)
  have fl: "same_flow (q_bandp x ! j) (?bs ! j)" if "j < length ?bs" for j
    using that shape(2) by (cases "j = b_band m - 1") (auto simp: x' upd_band_def same_flow_def nth_list_update)
  have ptr: "ptrs_ok x'"
    unfolding ptrs_ok_def
  proof (intro allI impI)
    fix i assume i: "1 \<le> i \<and> i \<le> q_nband x'"
    then have i': "1 \<le> i" "i \<le> length (q_bandp x)" "i \<le> q_nband x" using len by (simp_all add: x' split: if_splits)
    have old: "qb_first (q_bandp x ! (i - 1)) = first_of i (A @ B)" "qb_last (q_bandp x ! (i - 1)) = last_of i (A @ B)"
      using ok i' by (simp_all add: order_ok_def ptrs_ok_def ms)
    show "qb_first (q_bandp x' ! (i - 1)) = first_of i (q_msgs x') \<and> qb_last (q_bandp x' ! (i - 1)) = last_of i (q_msgs x')"
    proof (cases "i = b_band m")
      case True
      with i' upd_band_nth [of i x "b_band m"] show ?thesis by (simp add: x')
    next
      case False
      then have "first_of i (A @ m # B) = first_of i (A @ B)" "last_of i (A @ m # B) = last_of i (A @ B)"
        by (simp_all add: first_of_append last_of_append split: option.split)
      moreover have "q_bandp x' ! (i - 1) = q_bandp x ! (i - 1)"
        using False i' upd_band_nth [of i x "b_band m"] by (auto simp: x')
      ultimately show ?thesis using old by (simp add: x')
    qed
  qed
  have "prio_sorted (A @ m # B)" using ok key by (auto simp: order_ok_def ms prio_simps)
  moreover have "distinct (map m_addr (A @ m # B))" using ok m(2) by (auto simp: order_ok_def ms)
  ultimately have "order_ok x'" using ok m(1) ptr shape(2) by (auto simp: order_ok_def ms x')
  with ms shape fl have "links m A B x x'" unfolding links_def by blast
  then show ?thesis by (simp add: x'_def)
qed


lemma upd_band_link:
  "f (q_bandp x ! (pri - 1)) = g (q_bandp x ! (pri - 1)) \<Longrightarrow>
   upd_band pri f (x\<lparr>q_msgs := ms\<rparr>) = (upd_band pri g x)\<lparr>q_msgs := ms\<rparr>"
  "f (q_bandp x ! (pri - 1)) = g (q_bandp x ! (pri - 1)) \<Longrightarrow>
   (upd_band pri f x)\<lparr>q_msgs := ms\<rparr> = (upd_band pri g x)\<lparr>q_msgs := ms\<rparr>"
  by (simp_all add: upd_band_def)

lemma msg_insert_after_place:
  "m_addr t \<notin> m_addr ` set A \<Longrightarrow> msg_insert_after (m_addr t) new (A @ t # B) = A @ t # new # B"
  by (induction A) auto

lemma msg_insert_before_place:
  "m_addr t \<notin> m_addr ` set A \<Longrightarrow> msg_insert_before (m_addr t) new (A @ t # B) = A @ new # t # B"
  by (induction A) auto

lemma ptrs_at:
  "order_ok x \<Longrightarrow> msg_ok (q_nband x) m \<Longrightarrow> b_band m \<noteq> 0 \<Longrightarrow>
   qb_first (q_bandp x ! (b_band m - 1)) = first_of (b_band m) (q_msgs x)
   \<and> qb_last (q_bandp x ! (b_band m - 1)) = last_of (b_band m) (q_msgs x)"
  by (simp add: order_ok_def ptrs_ok_def msg_ok_def)

lemma queclass_high: "queclass m = QPCTL \<longleftrightarrow> QPCTL \<le> m_type m"
  by (simp add: queclass_def QPCTL_def QNORM_def)

lemma mkey_norm: "m_type m < QPCTL \<Longrightarrow> mkey m = b_band m"
  by (simp add: mkey_def)

lemma mkey_high: "\<not> m_type m < QPCTL \<Longrightarrow> mkey m = 256"
  by (simp add: mkey_def)

lemma mkey_band:
  "order_ok x \<Longrightarrow> t \<in> set (q_msgs x) \<Longrightarrow> b_band t \<noteq> 0 \<Longrightarrow> mkey t = b_band t"
  by (auto simp: order_ok_def msg_ok_def mkey_def)

lemma order_ok_mid: "order_ok x \<Longrightarrow> q_msgs x = A @ t # B \<Longrightarrow> m_addr t \<notin> m_addr ` set A"
  by (simp add: order_ok_def)

text \<open>The two scans of \<open>putq\<close> and \<open>putbq\<close> over high priority messages and then over bands.\<close>

lemma two_scans:
  assumes sorted: "prio_sorted ms" and band: "\<forall>t \<in> set ms. b_band t \<le> 255" and k: "k \<le> 256"
    and r: "\<And>t. t \<in> set ms \<Longrightarrow> m_type t < QPCTL \<Longrightarrow> r t \<longleftrightarrow> k \<le> b_band t"
    and stop: "\<exists>t \<in> set ms. mkey t < k"
  shows "insert_at2 (\<lambda>t. m_type t \<ge> QPCTL) r m ms
    = Some (takeWhile (\<lambda>t. k \<le> mkey t) ms @ m # dropWhile (\<lambda>t. k \<le> mkey t) ms)"
proof -
  let ?p = "\<lambda>t. m_type t \<ge> QPCTL" and ?A = "takeWhile (\<lambda>t. m_type t \<ge> QPCTL) ms"
    and ?R = "dropWhile (\<lambda>t. m_type t \<ge> QPCTL) ms"
  have low: "m_type t < QPCTL" if "t \<in> set ?R" for t
  proof -
    have "?R \<noteq> []" using that by (metis empty_iff list.set(1))
    then obtain h R' where R: "?R = h # R'" by (meson neq_Nil_conv)
    then have h: "m_type h < QPCTL" using hd_dropWhile [of ?p ms] by simp
    have "prio_sorted ?R" using sorted by (metis prio_sorted_append takeWhile_dropWhile_id)
    with R that have "mkey t \<le> mkey h" by (auto simp: prio_simps)
    moreover have "h \<in> set ms" using R by (metis list.set_intros(1) set_dropWhileD)
    ultimately show ?thesis using h band by (auto simp: mkey_def split: if_splits)
  qed
  have rk: "r t \<longleftrightarrow> k \<le> mkey t" if "t \<in> set ?R" for t
    using r [of t] low [OF that] that by (auto simp: mkey_norm dest: set_dropWhileD)
  have high: "k \<le> mkey t" if "t \<in> set ?A" for t
    using k that by (auto simp: mkey_def dest: set_takeWhileD)
  have tw: "takeWhile r ?R = takeWhile (\<lambda>t. k \<le> mkey t) ?R" "dropWhile r ?R = dropWhile (\<lambda>t. k \<le> mkey t) ?R"
    using rk by (simp_all cong: takeWhile_cong dropWhile_cong)
  have ms: "takeWhile (\<lambda>t. k \<le> mkey t) ms = ?A @ takeWhile r ?R" "dropWhile (\<lambda>t. k \<le> mkey t) ms = dropWhile r ?R"
    using high takeWhile_append2 [of ?A "\<lambda>t. k \<le> mkey t" ?R] dropWhile_append2 [of ?A "\<lambda>t. k \<le> mkey t" ?R]
    by (simp_all add: tw)
  have "dropWhile r ?R \<noteq> []"
  proof
    assume "dropWhile r ?R = []"
    then have "takeWhile (\<lambda>t. k \<le> mkey t) ms = ms" using ms by (metis append_Nil2 takeWhile_dropWhile_id)
    with stop show False by (metis not_le set_takeWhileD)
  qed
  then show ?thesis by (simp add: insert_at2_def insert_at_def ms)
qed

lemma prio_last_ge: "prio_sorted ms \<Longrightarrow> ms = A @ B \<Longrightarrow> \<forall>b \<in> set B. mkey b < k \<Longrightarrow> ms \<noteq> [] \<Longrightarrow>
   k \<le> mkey (last ms) \<Longrightarrow> B = []"
  by (metis last_appendR last_in_set not_le)

lemma putq_link_ok:
  assumes ok: "order_ok x" and m: "msg_ok (q_nband x) m" and ms: "q_msgs x = A @ B"
    and A: "\<forall>a \<in> set A. mkey m \<le> mkey a" and B: "\<forall>b \<in> set B. mkey b < mkey m"
  shows "putq_link m x = Some (linked m A B x)"
proof -
  let ?ms = "q_msgs x" and ?pri = "b_band m" and ?b = "q_bandp x ! (b_band m - 1)"
  have sorted: "prio_sorted ?ms" and msgs: "\<And>t. t \<in> set ?ms \<Longrightarrow> msg_ok (q_nband x) t" using ok by (auto simp: order_ok_def)
  have "\<forall>b \<in> set B. \<not> mkey m \<le> mkey b" using B by auto
  note AB = split_while [OF A this]
  note tail = prio_last_ge [OF sorted ms B]
  have ne: "?ms \<noteq> []" if "B \<noteq> []" using that ms by simp
  show ?thesis
  proof (cases "?ms = []")
    case True
    with ms show ?thesis by (simp add: putq_link_def linked_def Let_def)
  next
    case ne: False
    have last: "last ?ms \<in> set ?ms" using ne by simp
    show ?thesis
    proof (cases "?pri = 0")
      case True
      show ?thesis
      proof (cases "queclass m \<le> queclass (last ?ms)")
        case le: True
        then have "mkey m \<le> mkey (last ?ms)"
          using True by (auto simp: queclass_def mkey_def QPCTL_def QNORM_def split: if_splits)
        then have "B = []" by (rule tail [OF ne])
        with ne ms le True show ?thesis by (simp add: putq_link_def linked_def Let_def)
      next
        case False
        then have high: "m_type m \<ge> QPCTL" "m_type (last ?ms) < QPCTL"
          by (auto simp: queclass_def QPCTL_def QNORM_def split: if_splits)
        then have "mkey (last ?ms) < mkey m" using msgs [OF last] by (simp add: mkey_def msg_ok_def)
        then have "B \<noteq> []" using A ms ne by (metis append_Nil2 last_in_set not_le)
        have test: "(queclass m \<le> queclass t) \<longleftrightarrow> mkey m \<le> mkey t" if "t \<in> set ?ms" for t
          using high(1) msgs [OF that] by (auto simp: queclass_def mkey_def msg_ok_def QPCTL_def QNORM_def)
        have "\<forall>a \<in> set A. queclass m \<le> queclass a" "\<forall>b \<in> set B. \<not> queclass m \<le> queclass b"
          using A B test ms by (auto simp: not_le)
        note sw = split_while [OF this, folded ms]
        with False True ne \<open>B \<noteq> []\<close> sw show ?thesis
          by (simp add: putq_link_def linked_def insert_at_def Let_def)
      qed
    next
      case pri: False
      then have norm: "m_type m < QPCTL" "mkey m = ?pri" "?pri \<le> 255"
        using m by (auto simp: msg_ok_def mkey_def not_le)
      then have cls: "queclass m = 0" by (simp add: queclass_def QNORM_def)
      note ptr = ptrs_at [OF ok m pri]
      show ?thesis
      proof (cases "first_of ?pri ?ms")
        case None
        then have absent: "\<forall>t \<in> set ?ms. b_band t \<noteq> ?pri" by (simp add: first_of_None)
        then have ends: "first_of ?pri (A @ m # B) = Some (m_addr m)" "last_of ?pri (A @ m # B) = Some (m_addr m)"
          using ms first_of_None [of ?pri A] last_of_None [of ?pri B]
          by (simp_all add: first_of_append last_of_append)
        have put: "(if queclass m < queclass (last ?ms) \<or> ?pri \<le> b_band (last ?ms) then Some (?ms @ [m])
            else insert_at2 (\<lambda>t. m_type t \<ge> QPCTL) (\<lambda>t. b_band t \<ge> ?pri) m ?ms) = Some (A @ m # B)"
        proof (cases "queclass m < queclass (last ?ms) \<or> ?pri \<le> b_band (last ?ms)")
          case True
          then have "mkey m \<le> mkey (last ?ms)"
            using norm by (auto simp: queclass_def mkey_def QNORM_def split: if_splits)
          then have "B = []" by (rule tail [OF ne])
          with ms True show ?thesis by simp
        next
          case False
          then have "mkey (last ?ms) < mkey m"
            using norm by (auto simp: queclass_def mkey_def QNORM_def QPCTL_def split: if_splits)
          with last have stop: "\<exists>t \<in> set ?ms. mkey t < mkey m" by blast
          have "insert_at2 (\<lambda>t. m_type t \<ge> QPCTL) (\<lambda>t. b_band t \<ge> ?pri) m ?ms = Some (A @ m # B)"
            using two_scans [OF sorted _ _ _ stop, of "\<lambda>t. b_band t \<ge> ?pri" m] msgs norm
            by (simp add: msg_ok_def AB [folded ms, unfolded norm(2)])
          with False show ?thesis by simp
        qed
        show ?thesis
          using None ptr pri ne put upd_band_link(1) [where pri = ?pri and x = x]
          by (simp add: putq_link_def linked_def ends Let_def)
      next
        case (Some f)
        then have "last_of ?pri ?ms \<noteq> None"
          using first_of_None [of ?pri ?ms] last_of_None [of ?pri ?ms] by simp
        then obtain l where l: "last_of ?pri ?ms = Some l" by blast
        then obtain P t R where t: "?ms = P @ t # R" "m_addr t = l" "b_band t = ?pri" "\<forall>u \<in> set R. b_band u \<noteq> ?pri"
          using last_of_Some by blast
        have tk: "mkey t = ?pri" using mkey_band [OF ok, of t] t pri by simp
        have "\<forall>u \<in> set R. mkey u < ?pri"
        proof
          fix u assume u: "u \<in> set R"
          then have "mkey u \<le> ?pri" "u \<in> set ?ms" using sorted tk by (auto simp: t prio_simps)
          with u t(4) norm(3) show "mkey u < ?pri" by (auto simp: mkey_def le_less split: if_splits)
        qed
        moreover have "\<forall>u \<in> set (P @ [t]). ?pri \<le> mkey u" using sorted tk by (auto simp: t prio_simps)
        ultimately have AR: "A = P @ [t]" "B = R"
          using split_while [of "P @ [t]" "\<lambda>u. ?pri \<le> mkey u" R] AB by (simp_all add: norm(2) ms [symmetric] t(1) not_le)
        have P: "m_addr t \<notin> m_addr ` set P" using order_ok_mid [OF ok t(1)] .
        have ends: "first_of ?pri (A @ m # B) = Some f" "last_of ?pri (A @ m # B) = Some (m_addr m)"
          using Some t(3) last_of_None [of ?pri R] t(4)
          by (auto simp: AR t(1) first_of_append last_of_append split: option.splits)
        have same: "?b\<lparr>qb_last := Some (m_addr m)\<rparr>
            = ?b\<lparr>qb_first := first_of ?pri (A @ m # B), qb_last := last_of ?pri (A @ m # B)\<rparr>"
          using ptr Some ends by (cases ?b) simp
        have "putq_link m x = Some (upd_band ?pri (\<lambda>b. b\<lparr>qb_last := Some (m_addr m)\<rparr>) (x\<lparr>q_msgs := A @ m # B\<rparr>))"
          using Some l ptr pri ne msg_insert_after_place [OF P, of m R] t(2)
          by (simp add: putq_link_def Let_def t(1) AR)
        with pri same show ?thesis by (simp add: linked_def upd_band_def)
      qed
    qed
  qed
qed


lemma putbq_link_ok:
  assumes ok: "order_ok x" and m: "msg_ok (q_nband x) m" and ms: "q_msgs x = A @ B"
    and A: "\<forall>a \<in> set A. mkey m < mkey a" and B: "\<forall>b \<in> set B. mkey b \<le> mkey m"
  shows "putbq_link m x = Some (linked m A B x)"
proof -
  let ?ms = "q_msgs x" and ?pri = "b_band m" and ?b = "q_bandp x ! (b_band m - 1)"
  have sorted: "prio_sorted ?ms" and msgs: "\<And>t. t \<in> set ?ms \<Longrightarrow> msg_ok (q_nband x) t" using ok by (auto simp: order_ok_def)
  have A': "\<forall>a \<in> set A. Suc (mkey m) \<le> mkey a" and B': "\<forall>b \<in> set B. mkey b < Suc (mkey m)" using A B by auto
  have "\<forall>b \<in> set B. \<not> Suc (mkey m) \<le> mkey b" using B by auto
  note AB = split_while [OF A' this]
  note tail = prio_last_ge [OF sorted ms B']
  show ?thesis
  proof (cases "?ms = [] \<or> queclass m = QPCTL")
    case True
    have bound: "mkey t \<le> 256" if "t \<in> set ?ms" for t using msgs [OF that] by (auto simp: mkey_def msg_ok_def)
    have high: "mkey m = 256" if "queclass m = QPCTL"
      using that by (simp add: queclass_high mkey_def)
    have "A = []"
    proof (rule ccontr)
      assume "A \<noteq> []"
      then have "hd A \<in> set A" "hd A \<in> set ?ms" "?ms \<noteq> []" by (simp_all add: ms)
      with A bound [of "hd A"] True high have "mkey m < mkey (hd A)" "mkey (hd A) \<le> 256" "mkey m = 256" by auto
      then show False by simp
    qed
    moreover have "?pri = 0" if "queclass m = QPCTL"
      using that m by (simp add: queclass_high msg_ok_def)
    ultimately show ?thesis using True ms by (auto simp: putbq_link_def linked_def Let_def)
  next
    case False
    then have ne: "?ms \<noteq> []" and norm: "m_type m < QPCTL" by (auto simp: queclass_def split: if_splits)
    then have last: "last ?ms \<in> set ?ms" and cls: "queclass m = 0" and key: "mkey m = ?pri" "?pri \<le> 255"
      using m by (auto simp: queclass_def QNORM_def mkey_def msg_ok_def)
    let ?here = "insert_at2 (\<lambda>t. m_type t \<ge> QPCTL) (\<lambda>t. b_band t > ?pri) m ?ms"
    have put: "(if queclass m < queclass (last ?ms) \<or> ?pri < b_band (last ?ms) then Some (?ms @ [m]) else ?here)
      = Some (A @ m # B)"
    proof (cases "queclass m < queclass (last ?ms) \<or> ?pri < b_band (last ?ms)")
      case True
      then have "Suc (mkey m) \<le> mkey (last ?ms)"
        using norm key by (auto simp: queclass_def mkey_def QNORM_def split: if_splits)
      then have "B = []" by (rule tail [OF ne])
      with ms True show ?thesis by simp
    next
      case False
      then have "mkey (last ?ms) < Suc (mkey m)"
        using norm key by (auto simp: queclass_def mkey_def QNORM_def QPCTL_def split: if_splits)
      with last have stop: "\<exists>t \<in> set ?ms. mkey t < Suc (mkey m)" by blast
      have "?here = Some (A @ m # B)"
        using two_scans [OF sorted _ _ _ stop, of "\<lambda>t. b_band t > ?pri" m] msgs key
        by (simp add: msg_ok_def AB [folded ms, unfolded key(1)] Suc_le_eq [symmetric])
      with False show ?thesis by simp
    qed
    have mcls: "queclass m \<noteq> QPCTL" using False by simp
    show ?thesis
    proof (cases "?pri = 0")
      case True
      have "putbq_link m x = map_option (\<lambda>ms'. x\<lparr>q_msgs := ms'\<rparr>)
          (if queclass m < queclass (last ?ms) \<or> ?pri < b_band (last ?ms) then Some (?ms @ [m]) else ?here)"
        using True ne mcls by (simp add: putbq_link_def Let_def)
      also have "\<dots> = Some (x\<lparr>q_msgs := A @ m # B\<rparr>)" unfolding put by simp
      finally show ?thesis using True by (simp add: linked_def)
    next
      case pri: False
      note ptr = ptrs_at [OF ok m pri]
      show ?thesis
      proof (cases "first_of ?pri ?ms")
        case None
        then have absent: "\<forall>t \<in> set ?ms. b_band t \<noteq> ?pri" by (simp add: first_of_None)
        then have ends: "first_of ?pri (A @ m # B) = Some (m_addr m)" "last_of ?pri (A @ m # B) = Some (m_addr m)"
          using ms first_of_None [of ?pri A] last_of_None [of ?pri B]
          by (simp_all add: first_of_append last_of_append)
        show ?thesis
          using None ptr pri ne mcls put upd_band_link(1) [where pri = ?pri and x = x]
          by (simp add: putbq_link_def linked_def ends Let_def)
      next
        case (Some f)
        then obtain P t R where t: "?ms = P @ t # R" "m_addr t = f" "b_band t = ?pri" "\<forall>u \<in> set P. b_band u \<noteq> ?pri"
          using first_of_Some by blast
        then obtain l where l: "last_of ?pri ?ms = Some l" using last_of_None [of ?pri ?ms] by (cases "last_of ?pri ?ms") auto
        have tk: "mkey t = ?pri" using mkey_band [OF ok, of t] t pri by simp
        have "\<forall>u \<in> set P. Suc ?pri \<le> mkey u"
        proof
          fix u assume u: "u \<in> set P"
          then have "?pri \<le> mkey u" "u \<in> set ?ms" using sorted tk by (auto simp: t prio_simps)
          with u t(4) key(2) show "Suc ?pri \<le> mkey u" by (auto simp: mkey_def le_less split: if_splits)
        qed
        moreover have "\<forall>u \<in> set (t # R). \<not> Suc ?pri \<le> mkey u" using sorted tk by (auto simp: t prio_simps)
        ultimately have AR: "A = P" "B = t # R"
          using split_while [of P "\<lambda>u. Suc ?pri \<le> mkey u" "t # R"] AB by (simp_all add: key(1) ms [symmetric] t(1))
        have P: "m_addr t \<notin> m_addr ` set P" using order_ok_mid [OF ok t(1)] .
        have fP: "first_of ?pri P = None" using t(4) by (simp add: first_of_None)
        have ends: "first_of ?pri (A @ m # B) = Some (m_addr m)" "last_of ?pri (A @ m # B) = Some l"
          using fP l t(3) by (auto simp: AR t(1) first_of_append last_of_append split: option.splits)
        have same: "?b\<lparr>qb_first := Some (m_addr m)\<rparr>
            = ?b\<lparr>qb_first := first_of ?pri (A @ m # B), qb_last := last_of ?pri (A @ m # B)\<rparr>"
          using ptr l ends by (cases ?b) simp
        have "putbq_link m x = Some (upd_band ?pri (\<lambda>b. b\<lparr>qb_first := Some (m_addr m)\<rparr>) (x\<lparr>q_msgs := A @ m # B\<rparr>))"
          using Some ptr pri ne mcls msg_insert_before_place [OF P, of m R] t(2)
          by (simp add: putbq_link_def Let_def t(1) AR)
        with pri same show ?thesis by (simp add: linked_def upd_band_def)
      qed
    qed
  qed
qed

end
