(* ===== verification/Stream_Queue_Flow.thy ===== *)
theory Stream_Queue_Flow
  imports Stream_Queue_Order
begin

text \<open>
  Flow control: the counts of a queue are the bytes of its messages, band by band, a band is
  full exactly when its count has reached the high water mark, and the number of full bands is
  the one the queue keeps.  Counting a message in or out keeps this.
\<close>

section \<open>Counts and flow control\<close>

definition msg_bytes :: "mblk \<Rightarrow> int" where
  "msg_bytes m = sum_list (map (\<lambda>(r, w). w - r) (m_spans m))"

definition band_bytes :: "nat \<Rightarrow> mblk list \<Rightarrow> int" where
  "band_bytes i ms = sum_list (map msg_bytes (filter (\<lambda>m. b_band m = i) ms))"

definition spans_ok :: "mblk \<Rightarrow> bool" where
  "spans_ok m \<longleftrightarrow> (\<forall>(r, w) \<in> set (m_spans m). r \<le> w)"

lemma band_bytes_simps [simp]:
  "band_bytes i [] = 0"
  "band_bytes i (m # ms) = (if b_band m = i then msg_bytes m else 0) + band_bytes i ms"
  "band_bytes i (A @ B) = band_bytes i A + band_bytes i B"
  by (simp_all add: band_bytes_def)

lemma msg_bytes_nonneg: "spans_ok m \<Longrightarrow> 0 \<le> msg_bytes m"
  unfolding msg_bytes_def spans_ok_def by (rule sum_list_nonneg) auto

lemma band_bytes_nonneg: "\<forall>m \<in> set ms. spans_ok m \<Longrightarrow> 0 \<le> band_bytes i ms"
  by (induction ms) (auto simp: msg_bytes_nonneg)

lemma u32_u32: "u32 (u32 x + y) = u32 (x + y)" "u32 (u32 x - y) = u32 (x - y)"
  by (simp_all add: u32_def mod_simps)

lemma u32_u32_diff: "u32 (u32 x + y - z) = u32 (x + y - z)"
  using u32_u32(1) [of x "y - z"] by (simp add: algebra_simps)

lemma fold_wrap:
  "fold (\<lambda>(r, w) c. u32 (c + (w - r))) sp (u32 k) = u32 (k + sum_list (map (\<lambda>(r, w). w - r) sp))"
  "fold (\<lambda>(r, w) c. u32 (c - (w - r))) sp (u32 k) = u32 (k - sum_list (map (\<lambda>(r, w). w - r) sp))"
proof (induction sp arbitrary: k)
  case (Cons e sp)
  {
    case 1
    show ?case using Cons(1) [of "k + (snd e - fst e)"] by (simp add: case_prod_unfold u32_u32_diff algebra_simps)
  next
    case 2
    show ?case using Cons(2) [of "k - (snd e - fst e)"] by (simp add: case_prod_unfold u32_u32_diff algebra_simps)
  }
qed simp_all

lemma count_add_exact: "0 \<le> c \<Longrightarrow> c + msg_bytes m < 4294967296 \<Longrightarrow> 0 \<le> msg_bytes m \<Longrightarrow> count_add c m = c + msg_bytes m"
  using fold_wrap(1) [of "m_spans m" c] by (simp add: count_add_def msg_bytes_def u32_id)

lemma count_sub_exact: "c < 4294967296 \<Longrightarrow> msg_bytes m \<le> c \<Longrightarrow> 0 \<le> msg_bytes m \<Longrightarrow> count_sub c m = c - msg_bytes m"
  using fold_wrap(2) [of "m_spans m" c] by (simp add: count_sub_def msg_bytes_def u32_id)

definition band_flow :: "nat \<Rightarrow> mblk list \<Rightarrow> qband \<Rightarrow> bool" where
  "band_flow i ms b \<longleftrightarrow> qb_count b = band_bytes i ms \<and> (qb_full b \<longleftrightarrow> qb_hiwat b \<le> qb_count b) \<and> 0 < qb_hiwat b"

definition bands_flow :: "mblk list \<Rightarrow> qband list \<Rightarrow> bool" where
  "bands_flow ms bs \<longleftrightarrow> (\<forall>j < length bs. band_flow (j + 1) ms (bs ! j))"

definition q_flow :: "mblk list \<Rightarrow> queue \<Rightarrow> bool" where
  "q_flow ms x \<longleftrightarrow> q_count x = band_bytes 0 ms \<and> (qfull x \<longleftrightarrow> q_hiwat x \<le> q_count x) \<and> 0 < q_hiwat x
     \<and> bands_flow ms (q_bandp x) \<and> q_blocked x = int (length (filter qb_full (q_bandp x)))
     \<and> length (q_bandp x) \<le> 255
     \<and> (\<forall>m \<in> set ms. spans_ok m) \<and> (\<forall>i. band_bytes i ms < 4294967296)"

definition q_ok :: "queue \<Rightarrow> bool" where
  "q_ok x \<longleftrightarrow> order_ok x \<and> q_flow (q_msgs x) x"

lemma filter_update:
  "j < length xs \<Longrightarrow> length (filter P (xs[j := v])) + of_bool (P (xs ! j)) = length (filter P xs) + of_bool (P v)"
proof (induction xs arbitrary: j)
  case (Cons x xs)
  then show ?case by (cases j) auto
qed simp

lemma bands_flow_update:
  assumes "bands_flow ms bs" and "\<And>i. i \<noteq> j + 1 \<Longrightarrow> band_bytes i ms' = band_bytes i ms"
    and "j < length bs \<Longrightarrow> band_flow (j + 1) ms' b"
  shows "bands_flow ms' (bs[j := b])"
  unfolding bands_flow_def
proof (intro allI impI)
  fix k assume "k < length (bs[j := b])"
  with assms show "band_flow (k + 1) ms' (bs[j := b] ! k)"
    by (cases "k = j") (auto simp: bands_flow_def band_flow_def)
qed

lemma q_flow_linked: "q_flow ms x \<Longrightarrow> q_flow ms (linked m A B x)"
proof -
  assume flow: "q_flow ms x"
  let ?g = "\<lambda>b. b\<lparr>qb_first := first_of (b_band m) (A @ m # B), qb_last := last_of (b_band m) (A @ m # B)\<rparr>"
  let ?bs = "(q_bandp x)[b_band m - 1 := ?g (q_bandp x ! (b_band m - 1))]"
  have b: "bands_flow ms (q_bandp x)" using flow by (simp add: q_flow_def)
  then have "bands_flow ms ?bs"
    by (rule bands_flow_update) (use b in \<open>simp_all add: bands_flow_def band_flow_def\<close>)
  moreover have "length (filter qb_full ?bs) = length (filter qb_full (q_bandp x))"
    using filter_update [of "b_band m - 1" "q_bandp x" qb_full "?g (q_bandp x ! (b_band m - 1))"]
    by (cases "b_band m - 1 < length (q_bandp x)") (auto simp: list_update_beyond)
  ultimately show ?thesis using flow by (simp add: q_flow_def linked_def upd_band_def)
qed

lemma q_flow_count_in:
  assumes flow: "q_flow (A @ B) x" and band: "b_band m \<le> length (q_bandp x)" and m: "spans_ok m"
    and room: "band_bytes (b_band m) (A @ B) + msg_bytes m < 4294967296"
  shows "q_flow (A @ m # B) (count_in m x)"
proof -
  have nonneg: "0 \<le> msg_bytes m" "0 \<le> band_bytes i (A @ B)" for i
    using msg_bytes_nonneg [OF m] band_bytes_nonneg [of "A @ B"] flow by (auto simp: q_flow_def)
  have bytes: "band_bytes i (A @ m # B) = band_bytes i (A @ B) + (if b_band m = i then msg_bytes m else 0)" for i
    by simp
  have rest: "\<forall>t \<in> set (A @ m # B). spans_ok t" "\<forall>i. band_bytes i (A @ m # B) < 4294967296"
    using flow m room unfolding bytes by (auto simp: q_flow_def)
  show ?thesis
  proof (cases "b_band m = 0")
    case True
    have "count_add (q_count x) m = band_bytes 0 (A @ m # B)"
      using flow nonneg(1) nonneg(2) [of 0] room True by (simp add: q_flow_def count_add_exact)
    moreover have "bands_flow (A @ m # B) (q_bandp x)"
      using flow True by (simp add: q_flow_def bands_flow_def band_flow_def)
    moreover have "q_count x \<le> band_bytes 0 (A @ m # B)" using flow nonneg(1) by (simp add: q_flow_def)
    ultimately show ?thesis using flow rest True by (auto simp: q_flow_def count_in_def Let_def)
  next
    case False
    let ?j = "b_band m - 1"
    let ?b = "q_bandp x ! ?j"
    have j: "?j < length (q_bandp x)" "?j + 1 = b_band m" using False band by auto
    have old: "band_flow (b_band m) (A @ B) ?b" using flow j by (auto simp: q_flow_def bands_flow_def)
    let ?c = "count_add (qb_count ?b) m"
    have c: "?c = band_bytes (b_band m) (A @ m # B)" "qb_count ?b \<le> ?c"
      using old nonneg room by (auto simp: band_flow_def count_add_exact)
    let ?fills = "?c \<ge> qb_hiwat ?b \<and> \<not> qb_full ?b"
    let ?b' = "?b\<lparr>qb_count := ?c, qb_full := qb_full ?b \<or> ?fills\<rparr>"
    have "band_flow (?j + 1) (A @ m # B) ?b'" using old c j by (auto simp: band_flow_def)
    then have bands: "bands_flow (A @ m # B) ((q_bandp x)[?j := ?b'])"
      using flow j by (intro bands_flow_update [where ms = "A @ B"]) (auto simp: q_flow_def)
    have cnt: "int (length (filter qb_full ((q_bandp x)[?j := ?b'])))
        = (if ?fills then q_blocked x + 1 else q_blocked x)"
      using filter_update [OF j(1), of qb_full ?b'] flow by (auto simp: q_flow_def split: if_splits)
    have "length (filter qb_full ((q_bandp x)[?j := ?b'])) \<le> length ((q_bandp x)[?j := ?b'])"
      by (rule length_filter_le)
    then have "int (length (filter qb_full ((q_bandp x)[?j := ?b']))) \<le> 255"
      using flow by (simp add: q_flow_def)
    then have "(if ?fills then u8 (q_blocked x + 1) else q_blocked x)
        = int (length (filter qb_full ((q_bandp x)[?j := ?b'])))"
      unfolding cnt using flow by (auto simp: u8_def q_flow_def)
    with bands flow rest False show ?thesis
      by (simp add: q_flow_def count_in_def upd_band_def Let_def)
  qed
qed

lemma q_flow_count_out:
  assumes flow: "q_flow (A @ m # B) x" and band: "b_band m \<le> length (q_bandp x)"
  shows "q_flow (A @ B) (fst (count_out m x))"
proof -
  have m: "spans_ok m" and AB: "\<forall>t \<in> set (A @ B). spans_ok t" using flow by (auto simp: q_flow_def)
  have nonneg: "0 \<le> msg_bytes m" "0 \<le> band_bytes i (A @ B)" for i
    using msg_bytes_nonneg [OF m] band_bytes_nonneg [OF AB] by auto
  have bytes: "band_bytes i (A @ m # B) = band_bytes i (A @ B) + (if b_band m = i then msg_bytes m else 0)" for i
    by simp
  have small: "band_bytes i (A @ m # B) < 4294967296" for i using flow by (simp add: q_flow_def)
  have rest: "\<forall>i. band_bytes i (A @ B) < 4294967296"
  proof
    fix i show "band_bytes i (A @ B) < 4294967296" using small [of i] nonneg(1) unfolding bytes by (auto split: if_splits)
  qed
  show ?thesis
  proof (cases "b_band m = 0")
    case True
    have "count_sub (q_count x) m = band_bytes 0 (A @ B)"
      using flow nonneg(1) nonneg(2) [of 0] small [of 0] True by (simp add: q_flow_def count_sub_exact)
    moreover have "bands_flow (A @ B) (q_bandp x)"
      using flow True by (simp add: q_flow_def bands_flow_def band_flow_def)
    moreover have "band_bytes 0 (A @ B) \<le> q_count x" using flow nonneg(1) by (simp add: q_flow_def)
    ultimately show ?thesis using flow rest AB True by (auto simp: q_flow_def count_out_def Let_def)
  next
    case False
    let ?j = "b_band m - 1"
    let ?b = "q_bandp x ! ?j"
    have j: "?j < length (q_bandp x)" "?j + 1 = b_band m" using False band by auto
    have old: "band_flow (b_band m) (A @ m # B) ?b" using flow j by (auto simp: q_flow_def bands_flow_def)
    let ?c = "count_sub (qb_count ?b) m"
    have c: "?c = band_bytes (b_band m) (A @ B)" "?c \<le> qb_count ?b"
      using old nonneg(1) nonneg(2) [of "b_band m"] small [of "b_band m"] by (auto simp: band_flow_def count_sub_exact)
    let ?clears = "?c < qb_hiwat ?b \<and> qb_full ?b"
    let ?b' = "?b\<lparr>qb_count := ?c, qb_full := qb_full ?b \<and> \<not> ?clears\<rparr>"
    have "band_flow (?j + 1) (A @ B) ?b'" using old c j by (auto simp: band_flow_def)
    then have bands: "bands_flow (A @ B) ((q_bandp x)[?j := ?b'])"
      using flow j by (intro bands_flow_update [where ms = "A @ m # B"]) (auto simp: q_flow_def)
    have cnt: "int (length (filter qb_full ((q_bandp x)[?j := ?b'])))
        = (if ?clears then q_blocked x - 1 else q_blocked x)"
    proof -
      note fu = filter_update [OF j(1), of qb_full ?b']
      have blk: "q_blocked x = int (length (filter qb_full (q_bandp x)))" using flow by (simp add: q_flow_def)
      show ?thesis by (cases "qb_full ?b"; cases "?c < qb_hiwat ?b") (use fu in \<open>simp_all add: blk\<close>)
    qed
    have "q_blocked x = int (length (filter qb_full (q_bandp x)))" "length (q_bandp x) \<le> 255"
      using flow by (simp_all add: q_flow_def)
    with length_filter_le [of qb_full "q_bandp x"] have "q_blocked x \<le> 255" by linarith
    moreover have "0 \<le> (if ?clears then q_blocked x - 1 else q_blocked x)" unfolding cnt [symmetric] by simp
    ultimately have "(if ?clears then u8 (q_blocked x - 1) else q_blocked x)
        = int (length (filter qb_full ((q_bandp x)[?j := ?b'])))"
      unfolding cnt by (auto simp: u8_def split: if_splits)
    with bands flow rest AB False show ?thesis
      by (simp add: q_flow_def count_out_def upd_band_def Let_def)
  qed
qed

end
