(* ===== verification/Stream_Queue_System.thy ===== *)
theory Stream_Queue_System
  imports Stream_Queue_Flow
begin

text \<open>
  The queues as a system: the invariant \<open>str_ok\<close> (every queue in order with right counts, the run
  list holding exactly the queues marked as enabled, and every search for a service procedure
  ending), and that allocating band structures, enabling, back-enabling and putting messages
  keep it.
\<close>

section \<open>The routes of the streams\<close>

text \<open>Steps that leave the plumbing and the run list alone.\<close>

definition same_route :: "strsys \<Rightarrow> strsys \<Rightarrow> bool" where
  "same_route s s' \<longleftrightarrow> (\<forall>v. q_srvp (queues s' v) = q_srvp (queues s v)
     \<and> q_next (queues s' v) = q_next (queues s v) \<and> qreadr (queues s' v) = qreadr (queues s v))"

definition calm :: "strsys \<Rightarrow> strsys \<Rightarrow> bool" where
  "calm s s' \<longleftrightarrow> same_route s s' \<and> runq s' = runq s
     \<and> (\<forall>v. qenab (queues s' v) = qenab (queues s v))"

lemma same_route_refl [simp]: "same_route s s"
  by (simp add: same_route_def)

lemma same_route_trans: "same_route a b \<Longrightarrow> same_route b c \<Longrightarrow> same_route a c"
  by (simp add: same_route_def)

lemma backq_route: "same_route s s' \<Longrightarrow> backq s' q = backq s q"
proof -
  assume "same_route s s'"
  then have "OTHERQ s' = OTHERQ s" by (simp add: OTHERQ_def same_route_def fun_eq_iff)
  with \<open>same_route s s'\<close> show ?thesis by (simp add: backq_def same_route_def)
qed

lemma back_srv_route:
  assumes "same_route s s'" and "back_srv s nq = Some r"
  shows "back_srv s' nq = Some r"
proof -
  have "s0 = s \<longrightarrow> back_srv s' nq = Some r" if "back_srv s0 nq = Some r" for s0
  proof (rule back_srv.raw_induct [where P = "\<lambda>s0 nq r. s0 = s \<longrightarrow> back_srv s' nq = Some r", OF _ that])
    fix f s0 nq r
    assume IH: "\<And>s0 nq r. f s0 nq = Some r \<Longrightarrow> s0 = s \<longrightarrow> back_srv s' nq = Some r"
      and step: "(case nq of None \<Rightarrow> Some None
        | Some q \<Rightarrow> if q_srvp (queues s0 q) then Some (Some q) else f s0 (backq s0 q)) = Some r"
    show "s0 = s \<longrightarrow> back_srv s' nq = Some r"
    proof
      assume s0: "s0 = s"
      show "back_srv s' nq = Some r"
      proof (cases nq)
        case None
        with step show ?thesis by (subst back_srv.simps) simp
      next
        case (Some q)
        have same: "q_srvp (queues s' q) = q_srvp (queues s q)" using assms(1) by (simp add: same_route_def)
        show ?thesis
        proof (cases "q_srvp (queues s q)")
          case True
          with step Some s0 have r: "r = Some q" by simp
          show ?thesis unfolding Some r by (subst back_srv.simps) (simp add: same True)
        next
          case False
          with step Some s0 have "f s (backq s q) = Some r" by simp
          from IH [OF this] have "back_srv s' (backq s' q) = Some r" by (simp add: backq_route [OF assms(1)])
          with False Some same show ?thesis by (subst back_srv.simps) simp
        qed
      qed
    qed
  qed
  with assms(2) show ?thesis by blast
qed

lemma fwd_srv_route:
  assumes "same_route s s'" and "fwd_srv s q = Some r"
  shows "fwd_srv s' q = Some r"
proof -
  have "s0 = s \<longrightarrow> fwd_srv s' q = Some r" if "fwd_srv s0 q = Some r" for s0
  proof (rule fwd_srv.raw_induct [where P = "\<lambda>s0 q r. s0 = s \<longrightarrow> fwd_srv s' q = Some r", OF _ that])
    fix f s0 q r
    assume IH: "\<And>s0 q r. f s0 q = Some r \<Longrightarrow> s0 = s \<longrightarrow> fwd_srv s' q = Some r"
      and step: "(case q_next (queues s0 q) of
        None \<Rightarrow> Some q | Some n \<Rightarrow> if \<not> q_srvp (queues s0 q) then f s0 n else Some q) = Some r"
    have same: "q_srvp (queues s' q) = q_srvp (queues s q)" "q_next (queues s' q) = q_next (queues s q)"
      using assms(1) by (simp_all add: same_route_def)
    show "s0 = s \<longrightarrow> fwd_srv s' q = Some r"
    proof
      assume s0: "s0 = s"
      show "fwd_srv s' q = Some r"
      proof (cases "q_next (queues s q)")
        case None
        with step same s0 show ?thesis by (subst fwd_srv.simps) simp
      next
        case (Some n)
        with step same s0 IH [of s n r] show ?thesis by (subst fwd_srv.simps) (auto split: if_splits)
      qed
    qed
  qed
  with assms(2) show ?thesis by blast
qed

text \<open>Every search for a queue with a service procedure ends.\<close>

definition routes_end :: "strsys \<Rightarrow> bool" where
  "routes_end s \<longleftrightarrow> (\<forall>q. \<exists>r. back_srv s (backq s q) = Some r) \<and> (\<forall>q. \<exists>r. fwd_srv s q = Some r)"

lemma routes_end_route: "routes_end s \<Longrightarrow> same_route s s' \<Longrightarrow> routes_end s'"
  unfolding routes_end_def by (metis back_srv_route backq_route fwd_srv_route)

section \<open>The invariant of the whole\<close>

definition run_ok :: "strsys \<Rightarrow> bool" where
  "run_ok s \<longleftrightarrow> distinct (runq s) \<and> (\<forall>q. qenab (queues s q) \<longleftrightarrow> q \<in> set (runq s))"

definition str_ok :: "strsys \<Rightarrow> bool" where
  "str_ok s \<longleftrightarrow> (\<forall>q. q_ok (queues s q)) \<and> run_ok s \<and> routes_end s"

definition same_msgs :: "strsys \<Rightarrow> strsys \<Rightarrow> bool" where
  "same_msgs s s' \<longleftrightarrow> (\<forall>q. q_msgs (queues s' q) = q_msgs (queues s q))"

lemma same_msgs_trans: "same_msgs a b \<Longrightarrow> same_msgs b c \<Longrightarrow> same_msgs a c"
  by (simp add: same_msgs_def)

lemma same_msgs_refl [simp]: "same_msgs s s"
  by (simp add: same_msgs_def)

lemma str_ok_calm: "str_ok s \<Longrightarrow> calm s s' \<Longrightarrow> (\<And>q. q_ok (queues s' q)) \<Longrightarrow> str_ok s'"
  using routes_end_route [of s s'] by (auto simp: str_ok_def calm_def run_ok_def)

lemma calm_upd_q:
  "(\<And>x. q_srvp (f x) = q_srvp x \<and> q_next (f x) = q_next x \<and> qreadr (f x) = qreadr x \<and> qenab (f x) = qenab x) \<Longrightarrow>
   calm s (upd_q q f s)"
  by (simp add: calm_def same_route_def upd_q_def)

lemma queues_upd_q [simp]: "queues (upd_q q f s) v = (if v = q then f (queues s q) else queues s v)"
  by (simp add: upd_q_def)

lemma other_upd_q [simp]: "runq (upd_q q f s) = runq s" "band_mem (upd_q q f s) = band_mem s"
  "str_freed (upd_q q f s) = str_freed s"
  by (simp_all add: upd_q_def)

text \<open>Updates of a band that leave its pointers and its flow control state.\<close>

lemma q_ok_upd_band:
  assumes "q_ok x" and "\<And>b. qb_count (f b) = qb_count b \<and> qb_hiwat (f b) = qb_hiwat b \<and> qb_full (f b) = qb_full b
      \<and> qb_first (f b) = qb_first b \<and> qb_last (f b) = qb_last b"
  shows "q_ok (upd_band pri f x)"
proof -
  let ?bs = "(q_bandp x)[pri - 1 := f (q_bandp x ! (pri - 1))]"
  have nth: "P (?bs ! j)" if "j < length (q_bandp x)" "P (q_bandp x ! j)" "\<And>b. P b \<Longrightarrow> P (f b)" for j P
    using that by (cases "j = pri - 1") auto
  have cnt: "length (filter qb_full ?bs) = length (filter qb_full (q_bandp x))"
    using filter_update [of "pri - 1" "q_bandp x" qb_full "f (q_bandp x ! (pri - 1))"] assms(2)
    by (cases "pri - 1 < length (q_bandp x)") (auto simp: list_update_beyond)
  have "bands_flow (q_msgs x) ?bs"
    unfolding bands_flow_def
  proof (intro allI impI)
    fix j assume j: "j < length ?bs"
    then have old: "band_flow (j + 1) (q_msgs x) (q_bandp x ! j)"
      using assms(1) by (simp add: q_ok_def q_flow_def bands_flow_def)
    show "band_flow (j + 1) (q_msgs x) (?bs ! j)"
      by (rule nth) (use j old assms(2) in \<open>simp_all add: band_flow_def\<close>)
  qed
  moreover have "ptrs_ok (upd_band pri f x)"
    unfolding ptrs_ok_def
  proof (intro allI impI)
    fix i assume i: "1 \<le> i \<and> i \<le> q_nband (upd_band pri f x)"
    then have "i - 1 < length (q_bandp x)" using assms(1) by (auto simp: q_ok_def order_ok_def)
    moreover have "qb_first (q_bandp x ! (i - 1)) = first_of i (q_msgs x) \<and> qb_last (q_bandp x ! (i - 1)) = last_of i (q_msgs x)"
      using i assms(1) by (simp add: q_ok_def order_ok_def ptrs_ok_def)
    ultimately show "qb_first (q_bandp (upd_band pri f x) ! (i - 1)) = first_of i (q_msgs (upd_band pri f x))
        \<and> qb_last (q_bandp (upd_band pri f x) ! (i - 1)) = last_of i (q_msgs (upd_band pri f x))"
      using nth [of "i - 1" "\<lambda>b. qb_first b = first_of i (q_msgs x) \<and> qb_last b = last_of i (q_msgs x)"] assms(2)
      by (simp add: upd_band_def)
  qed
  ultimately show ?thesis
    using assms(1) cnt by (simp add: q_ok_def order_ok_def q_flow_def) (simp add: upd_band_def)
qed

lemma q_ok_flags [simp]:
  "q_ok (x\<lparr>qenab := b\<rparr>) = q_ok x" "q_ok (x\<lparr>qback := b\<rparr>) = q_ok x" "q_ok (x\<lparr>qwantw := b\<rparr>) = q_ok x"
  "q_ok (x\<lparr>qwantr := b\<rparr>) = q_ok x" "q_ok (x\<lparr>qnoenb := b\<rparr>) = q_ok x"
  by (simp_all add: q_ok_def order_ok_def ptrs_ok_def q_flow_def)

lemma grow_ok:
  "q_ok x \<Longrightarrow> q_nband x + n \<le> 255 \<Longrightarrow> grow_bands n x mem = (ok, x', mem') \<Longrightarrow>
   q_ok x' \<and> q_msgs x' = q_msgs x \<and> q_srvp x' = q_srvp x \<and> q_next x' = q_next x \<and> qreadr x' = qreadr x
   \<and> qenab x' = qenab x \<and> qwantw x' = qwantw x \<and> qwantr x' = qwantr x \<and> qnoenb x' = qnoenb x
   \<and> qfull x' = qfull x \<and> q_blocked x' = q_blocked x \<and> q_count x' = q_count x
   \<and> q_hiwat x' = q_hiwat x \<and> q_lowat x' = q_lowat x
   \<and> (ok \<longrightarrow> q_nband x' = q_nband x + n) \<and> (\<exists>bs. q_bandp x' = q_bandp x @ bs)
   \<and> (n \<le> mem \<longrightarrow> ok) \<and> (ok \<longrightarrow> mem' = mem - n \<and> n \<le> mem)"
proof (induction n arbitrary: x mem)
  case (Suc n)
  show ?case
  proof (cases "mem = 0")
    case True
    with Suc.prems show ?thesis by auto
  next
    case False
    let ?x = "x\<lparr>q_bandp := q_bandp x @ [new_band x], q_nband := q_nband x + 1\<rparr>"
    have len: "length (q_bandp x) = q_nband x" using Suc.prems(1) by (simp add: q_ok_def order_ok_def)
    have none: "first_of (Suc (q_nband x)) (q_msgs x) = None" "last_of (Suc (q_nband x)) (q_msgs x) = None"
      and zero: "band_bytes (Suc (q_nband x)) (q_msgs x) = 0"
    proof -
      have b: "\<forall>m \<in> set (q_msgs x). b_band m \<le> q_nband x" using Suc.prems(1) by (simp add: q_ok_def order_ok_def msg_ok_def)
      then show "first_of (Suc (q_nband x)) (q_msgs x) = None" "last_of (Suc (q_nband x)) (q_msgs x) = None"
        by (fastforce simp: first_of_None last_of_None)+
      from b have "filter (\<lambda>m. b_band m = Suc (q_nband x)) (q_msgs x) = []" by (fastforce simp: filter_empty_conv)
      then show "band_bytes (Suc (q_nband x)) (q_msgs x) = 0" by (simp add: band_bytes_def)
    qed
    have "order_ok ?x"
      using Suc.prems(1) none len
      by (auto simp: q_ok_def order_ok_def ptrs_ok_def msg_ok_def new_band_def nth_append le_Suc_eq)
    moreover have "q_flow (q_msgs x) ?x"
      using Suc.prems(1,2) zero len
      by (auto simp: q_ok_def q_flow_def bands_flow_def band_flow_def new_band_def nth_append less_Suc_eq)
    ultimately have ok': "q_ok ?x" by (simp add: q_ok_def)
    have run: "grow_bands n ?x (mem - 1) = (ok, x', mem')" using Suc.prems(3) False by simp
    have "q_nband ?x + n \<le> 255" using Suc.prems(2) by simp
    from Suc.IH [OF ok' this run] show ?thesis using False by auto
  qed
qed auto


lemma have_band_ok:
  assumes ok: "q_ok (queues s q)" and pri: "pri \<le> 255" and run: "have_band q pri s = (b, s')"
  shows "q_ok (queues s' q)" "\<forall>v. v \<noteq> q \<longrightarrow> queues s' v = queues s v" "same_msgs s s'" "calm s s'"
    "b \<Longrightarrow> pri \<le> q_nband (queues s' q)" "pri - q_nband (queues s q) \<le> band_mem s \<Longrightarrow> b"
    "qwantr (queues s' q) = qwantr (queues s q)" "qnoenb (queues s' q) = qnoenb (queues s q)"
    "qwantw (queues s' q) = qwantw (queues s q)" "qfull (queues s' q) = qfull (queues s q)"
    "q_blocked (queues s' q) = q_blocked (queues s q)"
    "\<exists>bs. q_bandp (queues s' q) = q_bandp (queues s q) @ bs" "str_freed s' = str_freed s"
proof -
  obtain x' mem' where grow: "grow_bands (pri - q_nband (queues s q)) (queues s q) (band_mem s) = (b, x', mem')"
    and s': "s' = s\<lparr>queues := (queues s)(q := x'), band_mem := mem'\<rparr>"
    using run by (auto simp: have_band_def split: prod.splits)
  have "q_nband (queues s q) \<le> 255" using ok by (simp add: q_ok_def order_ok_def q_flow_def)
  then have "q_nband (queues s q) + (pri - q_nband (queues s q)) \<le> 255" using pri by simp
  note g = grow_ok [OF ok this grow]
  show "q_ok (queues s' q)" "\<forall>v. v \<noteq> q \<longrightarrow> queues s' v = queues s v" "same_msgs s s'" "calm s s'"
    "b \<Longrightarrow> pri \<le> q_nband (queues s' q)" "pri - q_nband (queues s q) \<le> band_mem s \<Longrightarrow> b"
    "qwantr (queues s' q) = qwantr (queues s q)" "qnoenb (queues s' q) = qnoenb (queues s q)"
    "qwantw (queues s' q) = qwantw (queues s q)" "qfull (queues s' q) = qfull (queues s q)"
    "q_blocked (queues s' q) = q_blocked (queues s q)"
    "\<exists>bs. q_bandp (queues s' q) = q_bandp (queues s q) @ bs" "str_freed s' = str_freed s"
    using g by (auto simp: s' same_msgs_def calm_def same_route_def)
qed

lemma str_okD: "str_ok s \<Longrightarrow> q_ok (queues s q)"
  by (simp add: str_ok_def)

lemma str_ok_upd_q:
  assumes "str_ok s" and "q_ok (f (queues s q))"
    and "\<And>x. q_srvp (f x) = q_srvp x \<and> q_next (f x) = q_next x \<and> qreadr (f x) = qreadr x \<and> qenab (f x) = qenab x"
  shows "str_ok (upd_q q f s)"
  by (rule str_ok_calm [OF assms(1) calm_upd_q [OF assms(3)]]) (use assms(1,2) in \<open>simp add: str_okD\<close>)

text \<open>What back-enabling changes: flags of the queue enabled, and who is to run.\<close>

definition enables :: "strsys \<Rightarrow> strsys \<Rightarrow> bool" where
  "enables s s' \<longleftrightarrow> str_ok s' \<and> same_msgs s s' \<and> same_route s s' \<and> set (runq s) \<subseteq> set (runq s')
     \<and> str_freed s' = str_freed s
     \<and> (\<forall>v. qfull (queues s' v) = qfull (queues s v) \<and> q_blocked (queues s' v) = q_blocked (queues s v)
            \<and> q_nband (queues s v) \<le> q_nband (queues s' v))"

lemma enables_trans: "enables a b \<Longrightarrow> enables b c \<Longrightarrow> enables a c"
  unfolding enables_def by (metis same_msgs_trans same_route_trans subset_trans order_trans)

lemma setqback_ok:
  assumes "str_ok s" and "pri \<le> 255"
  shows "enables s (setqback q pri s)" "runq (setqback q pri s) = runq s"
proof -
  have "enables s (setqback q pri s) \<and> runq (setqback q pri s) = runq s"
  proof (cases "pri = 0")
    case True
    have "str_ok (upd_q q (\<lambda>x. x\<lparr>qback := True\<rparr>) s)"
      by (rule str_ok_upd_q [OF assms(1)]) (use assms(1) in \<open>simp_all add: str_okD\<close>)
    with True show ?thesis by (simp add: setqback_def enables_def same_msgs_def same_route_def)
  next
    case False
    obtain b s1 where hb: "have_band q pri s = (b, s1)" by (metis surj_pair)
    note h = have_band_ok [OF str_okD [OF assms(1)] assms(2) hb]
    have q1: "q_ok (queues s1 v)" for v using h(1,2) assms(1) by (cases "v = q") (simp_all add: str_okD)
    have ok1: "str_ok s1" by (rule str_ok_calm [OF assms(1) h(4) q1])
    have "q_nband (queues s q) \<le> q_nband (queues s1 q)"
      using h(1,12) str_okD [OF assms(1), of q] by (auto simp: q_ok_def order_ok_def)
    then have "qfull (queues s1 v) = qfull (queues s v) \<and> q_blocked (queues s1 v) = q_blocked (queues s v)
        \<and> q_nband (queues s v) \<le> q_nband (queues s1 v)" for v
      using h(2,10,11) by (cases "v = q") simp_all
    with ok1 have en1: "enables s s1" "runq s1 = runq s" using h(3,4,13) by (simp_all add: enables_def calm_def)
    show ?thesis
    proof (cases b)
      case True
      let ?s = "upd_q q (upd_band pri (\<lambda>b. b\<lparr>qb_back := True\<rparr>)) s1"
      have "str_ok ?s" by (rule str_ok_upd_q [OF ok1]) (simp_all add: q_ok_upd_band q1)
      then have "enables s1 ?s" by (simp add: enables_def same_msgs_def same_route_def)
      with en1 False True hb show ?thesis by (auto simp: setqback_def intro: enables_trans)
    qed (use False hb en1 in \<open>simp add: setqback_def\<close>)
  qed
  then show "enables s (setqback q pri s)" "runq (setqback q pri s) = runq s" by simp_all
qed

lemma qenable_ok:
  assumes "str_ok s"
  shows "enables s (qenable q s)" "q_srvp (queues s q) \<Longrightarrow> q \<in> set (runq (qenable q s))"
proof -
  have run: "run_ok s" using assms by (simp add: str_ok_def)
  let ?s = "(upd_q q (\<lambda>x. x\<lparr>qenab := True\<rparr>) s)\<lparr>runq := runq s @ [q], qsched := True\<rparr>"
  have "enables s ?s" if "\<not> qenab (queues s q)"
  proof -
    have "run_ok ?s" using run that by (auto simp: run_ok_def)
    moreover have "same_route s ?s" by (simp add: same_route_def)
    moreover from this have "routes_end ?s" using assms routes_end_route by (auto simp: str_ok_def)
    ultimately show ?thesis using assms by (auto simp: enables_def str_ok_def same_msgs_def)
  qed
  then show "enables s (qenable q s)" using assms by (auto simp: qenable_def enables_def)
  show "q_srvp (queues s q) \<Longrightarrow> q \<in> set (runq (qenable q s))"
    using run by (auto simp: qenable_def run_ok_def)
qed

lemma back_srv_srvp:
  "back_srv s nq = Some (Some n) \<Longrightarrow> q_srvp (queues s n)"
proof -
  assume "back_srv s nq = Some (Some n)"
  have "r = Some n \<longrightarrow> q_srvp (queues s n)" if "back_srv s nq = Some r" for s nq r
    by (rule back_srv.raw_induct [where P = "\<lambda>s nq r. r = Some n \<longrightarrow> q_srvp (queues s n)", OF _ that])
       (auto split: option.splits if_splits)
  with \<open>back_srv s nq = Some (Some n)\<close> show ?thesis by blast
qed

text \<open>A waiting writer of a band that has room again: its back queue is put on the run list.\<close>

lemma back_enable_ok:
  assumes ok: "str_ok s" and band: "band \<le> 255"
  shows "\<exists>s'. back_enable q band wantw s = Some s' \<and> enables s s'
    \<and> (\<forall>n. wantw \<or> qwantw (queues s q) \<and> q_blocked (queues s q) = 0 \<and> \<not> qfull (queues s q) \<longrightarrow>
           back_srv s (backq s q) = Some (Some n) \<longrightarrow> n \<in> set (runq s'))"
proof -
  obtain nq where nq: "back_srv s (backq s q) = Some nq" using ok unfolding str_ok_def routes_end_def by blast
  let ?wake = "\<lambda>pri s. case nq of None \<Rightarrow> s | Some n \<Rightarrow> setqback n pri (qenable n s)"
  let ?f = "\<lambda>x. if band \<noteq> 0 then upd_band band (\<lambda>b. b\<lparr>qb_wantw := False\<rparr>) x else x\<lparr>qwantw := False\<rparr>"
  have wake: "enables t (?wake pri t) \<and> (\<forall>n. nq = Some n \<longrightarrow> q_srvp (queues t n) \<longrightarrow> n \<in> set (runq (?wake pri t)))"
    if t: "str_ok t" "pri \<le> 255" for pri t
  proof (cases nq)
    case (Some n)
    have "enables t (qenable n t)" by (rule qenable_ok(1) [OF t(1)])
    moreover from this have "str_ok (qenable n t)" by (simp add: enables_def)
    from setqback_ok [OF this t(2)] have "enables (qenable n t) (setqback n pri (qenable n t))"
      "runq (setqback n pri (qenable n t)) = runq (qenable n t)" .
    ultimately show ?thesis using Some qenable_ok(2) [OF t(1)] by (auto intro: enables_trans)
  qed (use t in \<open>simp add: enables_def\<close>)
  have f: "enables s (upd_q q ?f s)"
  proof -
    have "q_ok (?f (queues s q))" using str_okD [OF ok] by (simp add: q_ok_upd_band)
    then have "str_ok (upd_q q ?f s)" by (intro str_ok_upd_q [OF ok]) auto
    then show ?thesis by (auto simp: enables_def same_msgs_def same_route_def)
  qed
  define s1 where "s1 = (if wantw then ?wake band (upd_q q ?f s) else s)"
  have okf: "str_ok (upd_q q ?f s)" using f by (simp add: enables_def)
  have srv: "q_srvp (queues (upd_q q ?f s) n)" if "nq = Some n" for n
    using back_srv_srvp [OF nq [unfolded that]] by (auto simp: upd_band_simps)
  have s1: "enables s s1 \<and> (\<forall>n. wantw \<longrightarrow> nq = Some n \<longrightarrow> n \<in> set (runq s1))"
  proof (cases wantw)
    case True
    with wake [OF okf band] f srv show ?thesis by (auto simp: s1_def intro: enables_trans)
  qed (use ok in \<open>simp add: s1_def enables_def\<close>)
  then have "str_ok s1" by (simp add: enables_def)
  from wake [OF this, of 0] have w: "enables s1 (?wake 0 s1)" by simp
  let ?c = "qwantw (queues s1 q) \<and> q_blocked (queues s1 q) = 0 \<and> \<not> qfull (queues s1 q) \<and> nq \<noteq> None"
  have run: "back_enable q band wantw s = Some (if ?c then ?wake 0 s1 else s1)"
    unfolding back_enable_def nq option.case Let_def s1_def by (rule refl)
  have en: "enables s (if ?c then ?wake 0 s1 else s1)" using s1 w by (auto intro: enables_trans)
  have on: "n \<in> set (runq (if ?c then ?wake 0 s1 else s1))"
    if c: "wantw \<or> qwantw (queues s q) \<and> q_blocked (queues s q) = 0 \<and> \<not> qfull (queues s q)" and n: "nq = Some n" for n
  proof (cases wantw)
    case True
    then show ?thesis using s1 w n by (auto simp: enables_def)
  next
    case False
    then have "s1 = s" by (simp add: s1_def)
    moreover have "q_srvp (queues s n)" using back_srv_srvp [OF nq [unfolded n]] .
    ultimately show ?thesis using c False n wake [OF ok, of 0] by simp
  qed
  show ?thesis
  proof (intro exI conjI allI impI)
    show "back_enable q band wantw s = Some (if ?c then ?wake 0 s1 else s1)" by (rule run)
    show "enables s (if ?c then ?wake 0 s1 else s1)" by (rule en)
    show "n \<in> set (runq (if ?c then ?wake 0 s1 else s1))"
      if "wantw \<or> qwantw (queues s q) \<and> q_blocked (queues s q) = 0 \<and> \<not> qfull (queues s q)"
        "back_srv s (backq s q) = Some (Some n)" for n
      using that(2) nq by (intro on [OF that(1)]) simp
  qed
qed


section \<open>Putting a message on\<close>

lemma high_band0_ok: "b_band m \<le> 255 \<Longrightarrow> b_band (high_band0 m) \<le> nband \<Longrightarrow> msg_ok nband (high_band0 m)"
  by (auto simp: msg_ok_def high_band0_def queclass_high)

lemma high_band0_simps [simp]:
  "m_addr (high_band0 m) = m_addr m" "m_type (high_band0 m) = m_type m" "m_spans (high_band0 m) = m_spans m"
  "queclass (high_band0 m) = queclass m" "spans_ok (high_band0 m) = spans_ok m"
  by (simp_all add: high_band0_def queclass_def spans_ok_def)

text \<open>\<open>link\<close> puts the message between the two parts \<open>place\<close> says.\<close>

definition links_at :: "(mblk \<Rightarrow> queue \<Rightarrow> queue option) \<Rightarrow> (mblk \<Rightarrow> mblk list \<Rightarrow> mblk list \<times> mblk list) \<Rightarrow> bool" where
  "links_at link place \<longleftrightarrow> (\<forall>m x. order_ok x \<longrightarrow> msg_ok (q_nband x) m \<longrightarrow>
     (case place m (q_msgs x) of (A, B) \<Rightarrow> q_msgs x = A @ B \<and> link m x = Some (linked m A B x)
        \<and> (\<forall>a \<in> set A. mkey m \<le> mkey a) \<and> (\<forall>b \<in> set B. mkey b \<le> mkey m)))"

lemma links_atD:
  "links_at link place \<Longrightarrow> order_ok x \<Longrightarrow> msg_ok (q_nband x) m \<Longrightarrow> place m (q_msgs x) = (A, B) \<Longrightarrow>
   q_msgs x = A @ B \<and> link m x = Some (linked m A B x)
     \<and> (\<forall>a \<in> set A. mkey m \<le> mkey a) \<and> (\<forall>b \<in> set B. mkey b \<le> mkey m)"
  unfolding links_at_def by fastforce

definition behind :: "mblk \<Rightarrow> mblk list \<Rightarrow> mblk list \<times> mblk list" where
  "behind m ms = (takeWhile (\<lambda>t. mkey m \<le> mkey t) ms, dropWhile (\<lambda>t. mkey m \<le> mkey t) ms)"

definition ahead :: "mblk \<Rightarrow> mblk list \<Rightarrow> mblk list \<times> mblk list" where
  "ahead m ms = (takeWhile (\<lambda>t. mkey m < mkey t) ms, dropWhile (\<lambda>t. mkey m < mkey t) ms)"

lemma links_behind: "links_at putq_link behind"
  unfolding links_at_def behind_def prod.case
proof (intro allI impI)
  fix m :: mblk and x assume ok: "order_ok x" "msg_ok (q_nband x) m"
  then have "prio_sorted (q_msgs x)" by (simp add: order_ok_def)
  note parts = sorted_split [OF this, of "mkey m"]
  with putq_link_ok [OF ok, of "takeWhile (\<lambda>t. mkey m \<le> mkey t) (q_msgs x)"]
  show "q_msgs x = takeWhile (\<lambda>t. mkey m \<le> mkey t) (q_msgs x) @ dropWhile (\<lambda>t. mkey m \<le> mkey t) (q_msgs x)
    \<and> putq_link m x = Some (linked m (takeWhile (\<lambda>t. mkey m \<le> mkey t) (q_msgs x)) (dropWhile (\<lambda>t. mkey m \<le> mkey t) (q_msgs x)) x)
    \<and> (\<forall>a \<in> set (takeWhile (\<lambda>t. mkey m \<le> mkey t) (q_msgs x)). mkey m \<le> mkey a)
    \<and> (\<forall>b \<in> set (dropWhile (\<lambda>t. mkey m \<le> mkey t) (q_msgs x)). mkey b \<le> mkey m)"
    by (auto intro: less_imp_le)
qed

lemma links_ahead: "links_at putbq_link ahead"
  unfolding links_at_def ahead_def prod.case
proof (intro allI impI)
  fix m :: mblk and x assume ok: "order_ok x" "msg_ok (q_nband x) m"
  then have "prio_sorted (q_msgs x)" by (simp add: order_ok_def)
  note parts = sorted_split [OF this, of "Suc (mkey m)", unfolded Suc_le_eq less_Suc_eq_le]
  with putbq_link_ok [OF ok, of "takeWhile (\<lambda>t. mkey m < mkey t) (q_msgs x)"]
  show "q_msgs x = takeWhile (\<lambda>t. mkey m < mkey t) (q_msgs x) @ dropWhile (\<lambda>t. mkey m < mkey t) (q_msgs x)
    \<and> putbq_link m x = Some (linked m (takeWhile (\<lambda>t. mkey m < mkey t) (q_msgs x)) (dropWhile (\<lambda>t. mkey m < mkey t) (q_msgs x)) x)
    \<and> (\<forall>a \<in> set (takeWhile (\<lambda>t. mkey m < mkey t) (q_msgs x)). mkey m \<le> mkey a)
    \<and> (\<forall>b \<in> set (dropWhile (\<lambda>t. mkey m < mkey t) (q_msgs x)). mkey b \<le> mkey m)"
    by (auto intro: less_imp_le)
qed

text \<open>A message that may be put on a queue.\<close>

definition fits :: "strsys \<Rightarrow> nat \<Rightarrow> mblk \<Rightarrow> bool" where
  "fits s q bp \<longleftrightarrow> b_band bp \<le> 255 \<and> spans_ok bp \<and> m_addr bp \<notin> m_addr ` set (q_msgs (queues s q))
     \<and> band_bytes (b_band (high_band0 bp)) (q_msgs (queues s q)) + msg_bytes bp < 4294967296"

lemma count_in_frame [simp]:
  "q_msgs (count_in m x) = q_msgs x" "q_srvp (count_in m x) = q_srvp x" "q_next (count_in m x) = q_next x"
  "qreadr (count_in m x) = qreadr x" "qenab (count_in m x) = qenab x" "q_nband (count_in m x) = q_nband x"
  "length (q_bandp (count_in m x)) = length (q_bandp x)" "qwantr (count_in m x) = qwantr x"
  "qnoenb (count_in m x) = qnoenb x" "qwantw (count_in m x) = qwantw x"
  by (simp_all add: count_in_def Let_def)

lemma linked_frame [simp]:
  "q_msgs (linked m A B x) = A @ m # B" "q_srvp (linked m A B x) = q_srvp x" "q_next (linked m A B x) = q_next x"
  "qreadr (linked m A B x) = qreadr x" "qenab (linked m A B x) = qenab x" "q_nband (linked m A B x) = q_nband x"
  "length (q_bandp (linked m A B x)) = length (q_bandp x)" "qwantr (linked m A B x) = qwantr x"
  "qnoenb (linked m A B x) = qnoenb x" "qwantw (linked m A B x) = qwantw x"
  by (simp_all add: linked_def)

lemma ptrs_ok_count_in: "ptrs_ok x \<Longrightarrow> length (q_bandp x) = q_nband x \<Longrightarrow> ptrs_ok (count_in m x)"
proof -
  assume ok: "ptrs_ok x" "length (q_bandp x) = q_nband x"
  have "qb_first (q_bandp (count_in m x) ! j) = qb_first (q_bandp x ! j)
    \<and> qb_last (q_bandp (count_in m x) ! j) = qb_last (q_bandp x ! j)" if "j < length (q_bandp x)" for j
    using that by (cases "j = b_band m - 1") (auto simp: count_in_def upd_band_def Let_def)
  note same = this
  show ?thesis
    unfolding ptrs_ok_def
  proof (intro allI impI)
    fix i assume i: "1 \<le> i \<and> i \<le> q_nband (count_in m x)"
    then have "i - 1 < length (q_bandp x)" "1 \<le> i" "i \<le> q_nband x" using ok(2) by auto
    with same [of "i - 1"] ok(1) show "qb_first (q_bandp (count_in m x) ! (i - 1)) = first_of i (q_msgs (count_in m x))
        \<and> qb_last (q_bandp (count_in m x) ! (i - 1)) = last_of i (q_msgs (count_in m x))"
      by (simp add: ptrs_ok_def)
  qed
qed

lemma q_ok_put:
  assumes ok: "q_ok x" and ms: "q_msgs x = A @ B" and m: "msg_ok (q_nband x) m" "spans_ok m"
    and fresh: "m_addr m \<notin> m_addr ` set (q_msgs x)"
    and key: "\<forall>a \<in> set A. mkey m \<le> mkey a" "\<forall>b \<in> set B. mkey b \<le> mkey m"
    and room: "band_bytes (b_band m) (q_msgs x) + msg_bytes m < 4294967296"
  shows "q_ok (count_in m (linked m A B x))"
proof -
  have ord: "order_ok x" and flow: "q_flow (A @ B) x" using ok ms by (simp_all add: q_ok_def)
  have len: "length (q_bandp x) = q_nband x" using ord by (simp add: order_ok_def)
  have "order_ok (linked m A B x)" using order_link [OF ord ms m(1) fresh key] by (simp add: links_def)
  then have "order_ok (count_in m (linked m A B x))"
    using ptrs_ok_count_in [of "linked m A B x" m] by (simp add: order_ok_def)
  moreover have "q_flow (A @ m # B) (count_in m (linked m A B x))"
    using q_flow_count_in [OF q_flow_linked [OF flow], of m] m len room by (simp add: msg_ok_def ms)
  ultimately show ?thesis by (simp add: q_ok_def)
qed

lemma put_with_ok:
  assumes ok: "str_ok s" and link: "links_at link place" and fits: "fits s q bp"
    and place: "place (high_band0 bp) (q_msgs (queues s q)) = (A, B)"
  shows "(\<exists>s'. put_with link q bp s = Some (True, s') \<and> str_ok s'
        \<and> q_msgs (queues s' q) = A @ high_band0 bp # B
        \<and> (\<forall>v. v \<noteq> q \<longrightarrow> q_msgs (queues s' v) = q_msgs (queues s v)) \<and> str_freed s' = str_freed s
        \<and> same_route s s' \<and> set (runq s) \<subseteq> set (runq s')
        \<and> (q_srvp (queues s q) \<and> (queclass bp > QNORM \<or> canenable (queues s q) \<and> qwantr (queues s q))
             \<longrightarrow> q \<in> set (runq s')))
    \<or> (band_mem s < b_band (high_band0 bp) - q_nband (queues s q)
        \<and> (\<exists>s'. put_with link q bp s = Some (False, s') \<and> str_ok s' \<and> same_msgs s s' \<and> str_freed s' = str_freed s))"
proof -
  let ?m = "high_band0 bp"
  have pri: "b_band ?m \<le> 255" using fits by (auto simp: fits_def high_band0_def)
  obtain b s1 where hb: "have_band q (b_band ?m) s = (b, s1)" by (metis surj_pair)
  note h = have_band_ok [OF str_okD [OF ok] pri hb]
  have q1: "q_ok (queues s1 v)" for v using h(1,2) ok by (cases "v = q") (simp_all add: str_okD)
  have ok1: "str_ok s1" by (rule str_ok_calm [OF ok h(4) q1])
  show ?thesis
  proof (cases b)
    case False
    with h(6) have "band_mem s < b_band ?m - q_nband (queues s q)" by (simp add: not_le [symmetric]) blast
    with False hb h(3,13) ok1 show ?thesis by (simp add: put_with_def Let_def)
  next
    case True
    let ?x = "queues s1 q"
    have msgs: "q_msgs (queues s1 v) = q_msgs (queues s v)" for v using h(3) by (simp add: same_msgs_def)
    have m: "msg_ok (q_nband ?x) ?m" using True h(5) fits by (intro high_band0_ok) (simp_all add: fits_def)
    have "order_ok ?x" using q1 by (simp add: q_ok_def)
    moreover have "place ?m (q_msgs ?x) = (A, B)" using place by (simp add: msgs)
    ultimately have lk: "q_msgs ?x = A @ B" "link ?m ?x = Some (linked ?m A B ?x)"
      "\<forall>a \<in> set A. mkey ?m \<le> mkey a" "\<forall>b \<in> set B. mkey b \<le> mkey ?m"
      using links_atD [OF link _ m, of A B] by blast+
    let ?y = "count_in ?m (linked ?m A B ?x)"
    have "q_ok ?y"
      using fits lk m by (intro q_ok_put [OF q1]) (auto simp: fits_def msgs msg_bytes_def)
    let ?s = "s1\<lparr>queues := (queues s1)(q := ?y)\<rparr>"
    have "calm s1 ?s" by (simp add: calm_def same_route_def)
    then have ok2: "str_ok ?s" using \<open>q_ok ?y\<close> q1 by (intro str_ok_calm [OF ok1]) auto
    have run: "put_with link q bp s = Some (True, put_enable q ?m ?s)"
      using hb True lk(2) by (simp add: put_with_def Let_def)
    have en: "enables ?s (put_enable q ?m ?s)"
      using qenable_ok(1) [OF ok2, of q] ok2 by (simp add: put_enable_def) (simp add: enables_def)
    have route: "same_route s s1" "runq s1 = runq s" using h(4) by (simp_all add: calm_def)
    have srv: "q_srvp ?x = q_srvp (queues s q)" using route by (simp add: same_route_def)
    define s' where "s' = put_enable q ?m ?s"
    note en = en [folded s'_def] and run = run [folded s'_def]
    have "q \<in> set (runq s')"
      if "q_srvp (queues s q)" "queclass bp > QNORM \<or> canenable (queues s q) \<and> qwantr (queues s q)"
      using that qenable_ok(2) [OF ok2, of q] h(7,8) srv by (auto simp: s'_def put_enable_def canenable_def)
    moreover have "same_route s s'"
    proof -
      have "same_route s1 ?s" "same_route ?s s'" using \<open>calm s1 ?s\<close> en by (simp_all only: enables_def calm_def)
      then show ?thesis by (rule same_route_trans [OF same_route_trans [OF route(1)]])
    qed
    moreover have "str_freed s' = str_freed s" "set (runq s) \<subseteq> set (runq s')" "str_ok s'"
      using en h(13) route(2) by (auto simp: enables_def)
    moreover have "q_msgs (queues s' v) = q_msgs (queues ?s v)" for v using en by (simp add: enables_def same_msgs_def)
    then have "q_msgs (queues s' q) = A @ ?m # B" "\<forall>v. v \<noteq> q \<longrightarrow> q_msgs (queues s' v) = q_msgs (queues s v)"
      by (simp_all add: msgs)
    ultimately show ?thesis using run by blast
  qed
qed

end
