(* ===== verification/Stream_Queue_Remove.thy ===== *)
theory Stream_Queue_Remove
  imports Stream_Queue_System
begin

text \<open>
  Taking messages off a queue: the band pointers that \<open>rmvq\<close> and \<open>getq\<close> compute are those of the
  shorter queue, the counts follow, the invariant is kept, and a writer that waits for the band
  is woken when the low water mark is reached.
\<close>

section \<open>Unlinking\<close>

definition unlinked :: "mblk \<Rightarrow> mblk list \<Rightarrow> mblk list \<Rightarrow> queue \<Rightarrow> queue" where
  "unlinked m A B x =
     (if b_band m \<noteq> 0 then upd_band (b_band m) (\<lambda>b. b\<lparr>qb_first := first_of (b_band m) (A @ B),
        qb_last := last_of (b_band m) (A @ B)\<rparr>) x else x)\<lparr>q_msgs := A @ B\<rparr>"

lemma unlinked_frame [simp]:
  "q_msgs (unlinked m A B x) = A @ B" "q_srvp (unlinked m A B x) = q_srvp x" "q_next (unlinked m A B x) = q_next x"
  "qreadr (unlinked m A B x) = qreadr x" "qenab (unlinked m A B x) = qenab x" "q_nband (unlinked m A B x) = q_nband x"
  "length (q_bandp (unlinked m A B x)) = length (q_bandp x)" "qwantr (unlinked m A B x) = qwantr x"
  "qnoenb (unlinked m A B x) = qnoenb x" "qwantw (unlinked m A B x) = qwantw x"
  by (simp_all add: unlinked_def)

lemma count_out_frame [simp]:
  "q_msgs (fst (count_out m x)) = q_msgs x" "q_srvp (fst (count_out m x)) = q_srvp x" "q_next (fst (count_out m x)) = q_next x"
  "qreadr (fst (count_out m x)) = qreadr x" "qenab (fst (count_out m x)) = qenab x" "q_nband (fst (count_out m x)) = q_nband x"
  "length (q_bandp (fst (count_out m x))) = length (q_bandp x)" "qwantr (fst (count_out m x)) = qwantr x"
  "qnoenb (fst (count_out m x)) = qnoenb x" "qwantw (fst (count_out m x)) = qwantw x"
  by (simp_all add: count_out_def Let_def)

lemma order_unlink:
  assumes ok: "order_ok x" and ms: "q_msgs x = A @ m # B"
  shows "order_ok (unlinked m A B x)"
proof -
  have len: "length (q_bandp x) = q_nband x" using ok by (simp add: order_ok_def)
  have "ptrs_ok (unlinked m A B x)"
    unfolding ptrs_ok_def
  proof (intro allI impI)
    fix i assume i: "1 \<le> i \<and> i \<le> q_nband (unlinked m A B x)"
    then have i': "1 \<le> i" "i \<le> length (q_bandp x)" using len by simp_all
    have old: "qb_first (q_bandp x ! (i - 1)) = first_of i (A @ m # B)" "qb_last (q_bandp x ! (i - 1)) = last_of i (A @ m # B)"
      using ok i by (simp_all add: order_ok_def ptrs_ok_def ms)
    show "qb_first (q_bandp (unlinked m A B x) ! (i - 1)) = first_of i (q_msgs (unlinked m A B x))
        \<and> qb_last (q_bandp (unlinked m A B x) ! (i - 1)) = last_of i (q_msgs (unlinked m A B x))"
    proof (cases "i = b_band m")
      case True
      with i' upd_band_nth [of i x "b_band m"] show ?thesis by (simp add: unlinked_def)
    next
      case False
      have "q_bandp (unlinked m A B x) ! (i - 1) = q_bandp x ! (i - 1)"
        using False i' upd_band_nth [of i x "b_band m"] by (simp add: unlinked_def)
      then show ?thesis using old False by (simp add: first_of_append last_of_append split: option.splits)
    qed
  qed
  then show ?thesis using ok by (auto simp: order_ok_def ms prio_simps)
qed

lemma q_flow_unlinked: "q_flow ms x \<Longrightarrow> q_flow ms (unlinked m A B x)"
proof -
  assume flow: "q_flow ms x"
  let ?g = "\<lambda>b. b\<lparr>qb_first := first_of (b_band m) (A @ B), qb_last := last_of (b_band m) (A @ B)\<rparr>"
  let ?bs = "(q_bandp x)[b_band m - 1 := ?g (q_bandp x ! (b_band m - 1))]"
  have b: "bands_flow ms (q_bandp x)" using flow by (simp add: q_flow_def)
  then have "bands_flow ms ?bs"
    by (rule bands_flow_update) (use b in \<open>simp_all add: bands_flow_def band_flow_def\<close>)
  moreover have "length (filter qb_full ?bs) = length (filter qb_full (q_bandp x))"
    using filter_update [of "b_band m - 1" "q_bandp x" qb_full "?g (q_bandp x ! (b_band m - 1))"]
    by (cases "b_band m - 1 < length (q_bandp x)") (auto simp: list_update_beyond)
  ultimately show ?thesis using flow by (simp add: q_flow_def unlinked_def upd_band_def)
qed

lemma ptrs_ok_count_out: "ptrs_ok x \<Longrightarrow> length (q_bandp x) = q_nband x \<Longrightarrow> ptrs_ok (fst (count_out m x))"
proof -
  assume ok: "ptrs_ok x" "length (q_bandp x) = q_nband x"
  have same: "qb_first (q_bandp (fst (count_out m x)) ! j) = qb_first (q_bandp x ! j)
    \<and> qb_last (q_bandp (fst (count_out m x)) ! j) = qb_last (q_bandp x ! j)" if "j < length (q_bandp x)" for j
    using that by (cases "j = b_band m - 1") (auto simp: count_out_def upd_band_def Let_def)
  show ?thesis
    unfolding ptrs_ok_def
  proof (intro allI impI)
    fix i assume i: "1 \<le> i \<and> i \<le> q_nband (fst (count_out m x))"
    then have "i - 1 < length (q_bandp x)" "1 \<le> i" "i \<le> q_nband x" using ok(2) by auto
    with same [of "i - 1"] ok(1) show "qb_first (q_bandp (fst (count_out m x)) ! (i - 1)) = first_of i (q_msgs (fst (count_out m x)))
        \<and> qb_last (q_bandp (fst (count_out m x)) ! (i - 1)) = last_of i (q_msgs (fst (count_out m x)))"
      by (simp add: ptrs_ok_def)
  qed
qed

lemma q_ok_take:
  assumes ok: "q_ok x" and ms: "q_msgs x = A @ m # B"
  shows "q_ok (fst (count_out m (unlinked m A B x)))"
proof -
  have ord: "order_ok x" and flow: "q_flow (A @ m # B) x" using ok ms by (simp_all add: q_ok_def)
  have len: "length (q_bandp x) = q_nband x" "b_band m \<le> length (q_bandp x)"
    using ord by (auto simp: order_ok_def ms msg_ok_def)
  have "order_ok (fst (count_out m (unlinked m A B x)))"
    using order_unlink [OF ord ms] ptrs_ok_count_out [of "unlinked m A B x" m] by (simp add: order_ok_def)
  moreover have "q_flow (A @ B) (fst (count_out m (unlinked m A B x)))"
    using q_flow_count_out [OF q_flow_unlinked [OF flow]] len by simp
  ultimately show ?thesis by (simp add: q_ok_def)
qed

section \<open>The pointers the code computes\<close>

lemma msg_next_place: "m_addr m \<notin> m_addr ` set A \<Longrightarrow>
  msg_next (m_addr m) (A @ m # B) = (case B of [] \<Rightarrow> None | n # _ \<Rightarrow> Some n)"
  by (induction A) auto

lemma msg_unlink_place: "m_addr m \<notin> m_addr ` set A \<Longrightarrow> msg_unlink (m_addr m) (A @ m # B) = A @ B"
  by (induction A) auto

lemma msg_at_place: "m_addr m \<notin> m_addr ` set A \<Longrightarrow> msg_at (m_addr m) (A @ m # B) = Some m"
  by (induction A) auto

text \<open>In a sorted queue the messages of a band are neighbours.\<close>

lemma band_below:
  assumes "order_ok x" "q_msgs x = A @ m # n # B" "b_band m = i" "i \<noteq> 0" "b_band n \<noteq> i"
  shows "\<forall>t \<in> set (n # B). b_band t \<noteq> i"
proof -
  have ok: "\<forall>t \<in> set (q_msgs x). msg_ok (q_nband x) t" "prio_sorted (q_msgs x)" using assms(1) by (simp_all add: order_ok_def)
  have "mkey m = i" "i \<le> 255" using ok(1) assms(2-4) by (auto simp: mkey_def msg_ok_def)
  moreover have "mkey n \<le> mkey m" "\<forall>t \<in> set B. mkey t \<le> mkey n" using ok(2) by (auto simp: assms(2) prio_simps)
  moreover have "mkey n \<noteq> i" using assms(5) \<open>i \<le> 255\<close> by (auto simp: mkey_def)
  ultimately have "\<forall>t \<in> set (n # B). mkey t < i" by auto
  moreover have "\<forall>t \<in> set (n # B). b_band t \<le> mkey t" using ok(1) assms(2) by (auto simp: mkey_def msg_ok_def)
  ultimately show ?thesis by fastforce
qed

lemma band_above:
  assumes "order_ok x" "q_msgs x = A @ n # m # B" "b_band m = i" "i \<noteq> 0" "b_band n \<noteq> i"
  shows "\<forall>t \<in> set (A @ [n]). b_band t \<noteq> i"
proof -
  have ok: "\<forall>t \<in> set (q_msgs x). msg_ok (q_nband x) t" "prio_sorted (q_msgs x)" using assms(1) by (simp_all add: order_ok_def)
  have "mkey m = i" "i \<le> 255" using ok(1) assms(2-4) by (auto simp: mkey_def msg_ok_def)
  moreover have "mkey m \<le> mkey n" "\<forall>t \<in> set A. mkey n \<le> mkey t" using ok(2) by (auto simp: assms(2) prio_simps)
  moreover have "mkey n \<noteq> i" using assms(5) \<open>i \<le> 255\<close> by (auto simp: mkey_def)
  ultimately have "\<forall>t \<in> set (A @ [n]). i < mkey t" by auto
  moreover have "\<forall>t \<in> set (A @ [n]). b_band t = 0 \<or> b_band t = mkey t" using ok(1) assms(2) by (auto simp: mkey_def msg_ok_def)
  ultimately show ?thesis using assms(4) by fastforce
qed

lemma first_after:
  assumes ok: "order_ok x" and ms: "q_msgs x = A @ m # B" and i: "b_band m = i" "i \<noteq> 0"
  shows "(if first_of i (A @ m # B) = Some (m_addr m) then same_band i (msg_next (m_addr m) (A @ m # B))
          else first_of i (A @ m # B)) = first_of i (A @ B)"
proof (cases "first_of i A")
  case None
  have nA: "m_addr m \<notin> m_addr ` set A" using order_ok_mid [OF ok ms] .
  show ?thesis
  proof (cases B)
    case (Cons n B')
    show ?thesis
    proof (cases "b_band n = i")
      case False
      from band_below [OF ok ms [unfolded Cons] i False] have "first_of i B = None" unfolding Cons first_of_None .
      with None i nA Cons False show ?thesis by (simp add: first_of_append msg_next_place same_band_def)
    qed (use None i nA Cons in \<open>simp add: first_of_append msg_next_place same_band_def\<close>)
  qed (use None i nA in \<open>simp add: first_of_append msg_next_place same_band_def\<close>)
next
  case (Some a)
  then obtain P t Q where "A = P @ t # Q" "m_addr t = a" using first_of_Some by blast
  then have "a \<noteq> m_addr m" using order_ok_mid [OF ok ms] by auto
  with Some show ?thesis by (simp add: first_of_append)
qed

lemma last_after:
  assumes ok: "order_ok x" and ms: "q_msgs x = A @ m # B" and i: "b_band m = i" "i \<noteq> 0"
  shows "(if last_of i (A @ m # B) = Some (m_addr m) then same_band i (msg_prev (m_addr m) (A @ m # B))
          else last_of i (A @ m # B)) = last_of i (A @ B)"
proof (cases "last_of i B")
  case None
  have "distinct (map m_addr (A @ m # B))" using ok by (simp add: order_ok_def ms)
  then have nB: "m_addr m \<notin> m_addr ` set (rev B)" by auto
  have prev: "msg_prev (m_addr m) (A @ m # B) = (case rev A of [] \<Rightarrow> None | n # _ \<Rightarrow> Some n)"
    unfolding msg_prev_def using msg_next_place [OF nB, of "rev A"] by simp
  show ?thesis
  proof (cases A rule: rev_cases)
    case (snoc A' n)
    show ?thesis
    proof (cases "b_band n = i")
      case False
      have "q_msgs x = A' @ n # m # B" using ms snoc by simp
      from band_above [OF ok this i False] have "last_of i A = None" unfolding snoc last_of_None .
      with None i snoc False prev [unfolded snoc] show ?thesis by (simp add: last_of_append same_band_def)
    qed (use None i snoc prev [unfolded snoc] in \<open>simp add: last_of_append same_band_def\<close>)
  next
    case Nil
    with None i prev [unfolded Nil] show ?thesis by (simp add: same_band_def)
  qed
next
  case (Some a)
  then obtain P t Q where "B = P @ t # Q" "m_addr t = a" using last_of_Some by blast
  then have "a \<noteq> m_addr m" using ok by (auto simp: order_ok_def ms)
  with Some show ?thesis by (simp add: last_of_append)
qed

section \<open>Removing a message\<close>

lemma rmvq_unlinks:
  assumes ok: "order_ok x" and ms: "q_msgs x = A @ m # B" and x: "queues s q = x"
  shows "rmvq q m s = (let r = count_out m (unlinked m A B x); s1 = s\<lparr>queues := (queues s)(q := fst r)\<rparr> in
      if snd r then back_enable q (b_band m) (want_write (b_band m) x) s1 else Some s1)"
proof -
  have nA: "m_addr m \<notin> m_addr ` set A" using order_ok_mid [OF ok ms] .
  have msgs: "msg_unlink (m_addr m) (q_msgs x) = A @ B" unfolding ms by (rule msg_unlink_place [OF nA])
  show ?thesis
  proof (cases "b_band m = 0")
    case True
    then show ?thesis unfolding rmvq_def x Let_def msgs by (simp add: unlinked_def)
  next
    case pri: False
    let ?b = "q_bandp x ! (b_band m - 1)"
    have "msg_ok (q_nband x) m" using ok by (simp add: order_ok_def ms)
    note ptr = ptrs_at [OF ok this pri, unfolded ms]
    let ?f = "\<lambda>b. b\<lparr>qb_first := (if qb_first b = Some (m_addr m) then same_band (b_band m) (msg_next (m_addr m) (q_msgs x)) else qb_first b),
       qb_last := (if qb_last b = Some (m_addr m) then same_band (b_band m) (msg_prev (m_addr m) (q_msgs x)) else qb_last b)\<rparr>"
    let ?g = "\<lambda>b. b\<lparr>qb_first := first_of (b_band m) (A @ B), qb_last := last_of (b_band m) (A @ B)\<rparr>"
    have "?f ?b = ?g ?b"
      using ptr unfolding ms by (simp only: first_after [OF ok ms refl pri] last_after [OF ok ms refl pri])
    from upd_band_link(2) [where f = ?f and g = ?g, OF this]
    have "(upd_band (b_band m) ?f x)\<lparr>q_msgs := A @ B\<rparr> = unlinked m A B x"
      unfolding unlinked_def by (simp only: pri not_False_eq_True if_True)
    with pri show ?thesis unfolding rmvq_def x Let_def msgs by simp
  qed
qed

definition band_lowat :: "nat \<Rightarrow> queue \<Rightarrow> int" where
  "band_lowat i x = (if i = 0 then q_lowat x else qb_lowat (q_bandp x ! (i - 1)))"

lemma count_out_low:
  assumes ok: "q_ok x" and ms: "q_msgs x = A @ m # B"
  shows "snd (count_out m (unlinked m A B x)) \<longleftrightarrow> band_bytes (b_band m) (A @ B) \<le> band_lowat (b_band m) x"
proof -
  have flow: "q_flow (A @ m # B) x" and ord: "order_ok x" using ok ms by (simp_all add: q_ok_def)
  then have m: "b_band m \<le> length (q_bandp x)" "spans_ok m" by (auto simp: order_ok_def ms msg_ok_def q_flow_def)
  have small: "band_bytes (b_band m) (A @ m # B) < 4294967296" using flow unfolding q_flow_def by blast
  have "0 \<le> msg_bytes m" "0 \<le> band_bytes (b_band m) (A @ B)"
    using msg_bytes_nonneg [OF m(2)] band_bytes_nonneg [of "A @ B"] flow by (auto simp: q_flow_def)
  then have sub: "count_sub (band_bytes (b_band m) (A @ m # B)) m = band_bytes (b_band m) (A @ B)"
    using small by (subst count_sub_exact) simp_all
  show ?thesis
  proof (cases "b_band m = 0")
    case True
    with flow sub show ?thesis by (simp add: q_flow_def count_out_def Let_def band_lowat_def unlinked_def)
  next
    case False
    then have j: "b_band m - 1 < length (q_bandp x)" using m by simp
    then have "qb_count (q_bandp x ! (b_band m - 1)) = band_bytes (b_band m) (A @ m # B)"
      using flow False by (auto simp: q_flow_def bands_flow_def band_flow_def)
    with False j sub show ?thesis
      by (simp add: count_out_def Let_def band_lowat_def unlinked_def upd_band_def)
  qed
qed

text \<open>What taking a message off leaves, and whom it wakes.\<close>

definition taken :: "nat \<Rightarrow> mblk \<Rightarrow> mblk list \<Rightarrow> strsys \<Rightarrow> strsys \<Rightarrow> bool" where
  "taken q m ms s s' \<longleftrightarrow> str_ok s' \<and> q_msgs (queues s' q) = ms
     \<and> (\<forall>v. v \<noteq> q \<longrightarrow> q_msgs (queues s' v) = q_msgs (queues s v)) \<and> str_freed s' = str_freed s
     \<and> same_route s s' \<and> set (runq s) \<subseteq> set (runq s') \<and> q_nband (queues s q) \<le> q_nband (queues s' q)
     \<and> (\<forall>n. band_bytes (b_band m) ms \<le> band_lowat (b_band m) (queues s q)
          \<and> (want_write (b_band m) (queues s q)
             \<or> qwantw (queues s q) \<and> q_blocked (queues s' q) = 0 \<and> \<not> qfull (queues s' q))
          \<and> back_srv s (backq s q) = Some (Some n) \<longrightarrow> n \<in> set (runq s'))"

lemma taken_back_enable:
  assumes ok: "str_ok s" and ms: "q_msgs (queues s q) = A @ m # B"
    and y: "q_ok y" "q_msgs y = A @ B" "q_srvp y = q_srvp (queues s q)" "q_next y = q_next (queues s q)"
      "qreadr y = qreadr (queues s q)" "qenab y = qenab (queues s q)" "qwantw y = qwantw (queues s q)"
      "q_nband y = q_nband (queues s q)"
    and low: "low \<longleftrightarrow> band_bytes (b_band m) (A @ B) \<le> band_lowat (b_band m) (queues s q)"
  shows "\<exists>s'. (if low then back_enable q (b_band m) (want_write (b_band m) (queues s q)) (s\<lparr>queues := (queues s)(q := y)\<rparr>)
      else Some (s\<lparr>queues := (queues s)(q := y)\<rparr>)) = Some s' \<and> taken q m (A @ B) s s'"
proof -
  let ?s1 = "s\<lparr>queues := (queues s)(q := y)\<rparr>"
  have calm: "calm s ?s1" using y by (simp add: calm_def same_route_def)
  then have route: "same_route s ?s1" by (simp add: calm_def)
  have ok1: "str_ok ?s1" by (rule str_ok_calm [OF ok calm]) (use y(1) ok in \<open>auto simp: str_okD\<close>)
  have pri: "b_band m \<le> 255"
    using str_okD [OF ok, of q] by (auto simp: q_ok_def order_ok_def ms msg_ok_def)
  show ?thesis
  proof (cases low)
    case True
    from back_enable_ok [OF ok1 pri, of q "want_write (b_band m) (queues s q)"] obtain s' where
      run: "back_enable q (b_band m) (want_write (b_band m) (queues s q)) ?s1 = Some s'" and en: "enables ?s1 s'"
      and wake: "\<And>n. want_write (b_band m) (queues s q)
           \<or> qwantw (queues ?s1 q) \<and> q_blocked (queues ?s1 q) = 0 \<and> \<not> qfull (queues ?s1 q) \<Longrightarrow>
         back_srv ?s1 (backq ?s1 q) = Some (Some n) \<Longrightarrow> n \<in> set (runq s')"
      by blast
    have srch: "back_srv ?s1 (backq ?s1 q) = Some (Some n)" if "back_srv s (backq s q) = Some (Some n)" for n
      using back_srv_route [OF route that] by (simp add: backq_route [OF route])
    have flags: "q_blocked (queues s' q) = q_blocked y" "qfull (queues s' q) = qfull y"
      using en by (simp_all add: enables_def)
    have "taken q m (A @ B) s s'"
      unfolding taken_def
    proof (intro conjI allI impI)
      show "str_ok s'" "str_freed s' = str_freed s" "set (runq s) \<subseteq> set (runq s')" using en by (simp_all add: enables_def)
      show "q_nband (queues s q) \<le> q_nband (queues s' q)" 
        using en y(8) by (simp add: enables_def) (metis order_refl)
      show "q_msgs (queues s' q) = A @ B" using en y(2) by (simp add: enables_def same_msgs_def)
      show "q_msgs (queues s' v) = q_msgs (queues s v)" if "v \<noteq> q" for v
        using en that by (simp add: enables_def same_msgs_def)
      show "same_route s s'" by (rule same_route_trans [OF route]) (use en in \<open>simp add: enables_def\<close>)
      show "n \<in> set (runq s')"
        if n: "band_bytes (b_band m) (A @ B) \<le> band_lowat (b_band m) (queues s q)
          \<and> (want_write (b_band m) (queues s q)
             \<or> qwantw (queues s q) \<and> q_blocked (queues s' q) = 0 \<and> \<not> qfull (queues s' q))
          \<and> back_srv s (backq s q) = Some (Some n)" for n
        by (rule wake) (use n y(7) flags srch in auto)
    qed
    with True run show ?thesis by simp
  next
    case False
    have "taken q m (A @ B) s ?s1" using False low ok1 y(2,8) route by (simp add: taken_def)
    with False show ?thesis by simp
  qed
qed

lemma rmvq_ok:
  assumes ok: "str_ok s" and ms: "q_msgs (queues s q) = A @ m # B"
  shows "\<exists>s'. rmvq q m s = Some s' \<and> taken q m (A @ B) s s'"
proof -
  let ?y = "fst (count_out m (unlinked m A B (queues s q)))"
  have q: "q_ok (queues s q)" using ok by (rule str_okD)
  then have ord: "order_ok (queues s q)" by (simp add: q_ok_def)
  have y: "q_ok ?y" by (rule q_ok_take [OF q ms])
  have run: "rmvq q m s = (if snd (count_out m (unlinked m A B (queues s q)))
      then back_enable q (b_band m) (want_write (b_band m) (queues s q)) (s\<lparr>queues := (queues s)(q := ?y)\<rparr>)
      else Some (s\<lparr>queues := (queues s)(q := ?y)\<rparr>))"
    using rmvq_unlinks [OF ord ms refl] by (simp add: Let_def)
  show ?thesis unfolding run by (rule taken_back_enable [OF ok ms y]) (simp_all add: count_out_low [OF q ms])
qed

text \<open>The head of the queue: what \<open>getq\<close> does without \<open>rmvq\<close>.\<close>

lemma getq_head_ptrs:
  assumes ok: "order_ok x" and ms: "q_msgs x = m # B" and pri: "b_band m \<noteq> 0"
    and b: "b = q_bandp x ! (b_band m - 1)"
  shows "(if qb_first b = qb_last b then b\<lparr>qb_first := None, qb_last := None\<rparr>
      else b\<lparr>qb_first := (case B of [] \<Rightarrow> None | n # _ \<Rightarrow> Some (m_addr n))\<rparr>)
    = b\<lparr>qb_first := first_of (b_band m) B, qb_last := last_of (b_band m) B\<rparr>"
proof -
  have "msg_ok (q_nband x) m" using ok by (simp add: order_ok_def ms)
  note ptr = ptrs_at [OF ok this pri, folded b, unfolded ms]
  show ?thesis
  proof (cases "last_of (b_band m) B")
    case None
    then have "first_of (b_band m) B = None" by (simp add: last_of_None first_of_None)
    with None ptr show ?thesis by simp
  next
    case (Some a)
    then obtain P t Q where B: "B = P @ t # Q" "m_addr t = a" "b_band t = b_band m" using last_of_Some by blast
    then have "a \<noteq> m_addr m" using ok by (auto simp: order_ok_def ms)
    moreover obtain n B' where n: "B = n # B'" using B(1) by (metis list.distinct(1) append_is_Nil_conv neq_Nil_conv)
    have "b_band n = b_band m"
    proof (rule ccontr)
      assume "b_band n \<noteq> b_band m"
      with band_below [OF ok, of "[]" m n B'] ms n pri have "\<forall>u \<in> set B. b_band u \<noteq> b_band m" by simp
      with B show False by auto
    qed
    ultimately show ?thesis using ptr Some n by (cases b) simp
  qed
qed

lemma getq_head_ok:
  assumes ok: "str_ok s" and ms: "q_msgs (queues s q) = m # B" and get: "\<not> msgnoget m"
  shows "\<exists>s'. getq q s = Some (Some m, s') \<and> taken q m B s s'"
proof -
  let ?x = "queues s q"
  let ?y = "(fst (count_out m (unlinked m [] B ?x)))\<lparr>qwantr := False\<rparr>"
  have q: "q_ok ?x" using ok by (rule str_okD)
  then have ord: "order_ok ?x" by (simp add: q_ok_def)
  have ms': "q_msgs ?x = [] @ m # B" using ms by simp
  have y: "q_ok ?y" using q_ok_take [OF q ms'] by simp
  let ?f = "\<lambda>b. if qb_first b = qb_last b then b\<lparr>qb_first := None, qb_last := None\<rparr>
      else b\<lparr>qb_first := (case B of [] \<Rightarrow> None | n # _ \<Rightarrow> Some (m_addr n))\<rparr>"
  let ?g = "\<lambda>b. b\<lparr>qb_first := first_of (b_band m) B, qb_last := last_of (b_band m) B\<rparr>"
  have eq: "(if b_band m \<noteq> 0 then upd_band (b_band m) ?f ?x else ?x)\<lparr>q_msgs := B\<rparr> = unlinked m [] B ?x"
    using getq_head_ptrs [OF ord ms _ refl] upd_band_link(2) [of ?f ?x "b_band m" ?g B] by (simp add: unlinked_def)
  have run: "getq q s = map_option (\<lambda>s'. (Some m, s')) (if snd (count_out m (unlinked m [] B ?x))
      then back_enable q (b_band m) (want_write (b_band m) ?x) (s\<lparr>queues := (queues s)(q := ?y)\<rparr>)
      else Some (s\<lparr>queues := (queues s)(q := ?y)\<rparr>))"
    unfolding getq_def Let_def ms list.case eq using get by simp
  have "\<exists>s'. (if snd (count_out m (unlinked m [] B ?x))
      then back_enable q (b_band m) (want_write (b_band m) ?x) (s\<lparr>queues := (queues s)(q := ?y)\<rparr>)
      else Some (s\<lparr>queues := (queues s)(q := ?y)\<rparr>)) = Some s' \<and> taken q m ([] @ B) s s'"
    by (rule taken_back_enable [OF ok ms' y]) (simp_all add: count_out_low [OF q ms'])
  then show ?thesis using run by auto
qed

end
