(* ===== verification/Stream_Queue_Flush.thy ===== *)
theory Stream_Queue_Flush
  imports Stream_Queue_Remove
begin

text \<open>
  Flushing: the messages that stay do so in their order, the others are freed, and a writer that
  waits for a band with room again is woken.
\<close>

section \<open>Emptying a queue and filling it again\<close>

lemma q_ok_empty: "q_ok x \<Longrightarrow> q_ok (empty_q x)"
proof -
  assume ok: "q_ok x"
  then have len: "length (q_bandp x) = q_nband x" by (simp add: q_ok_def order_ok_def)
  have hi: "\<And>j. j < length (q_bandp x) \<Longrightarrow> 0 < qb_hiwat (q_bandp x ! j)" "0 < q_hiwat x" "length (q_bandp x) \<le> 255"
    using ok by (auto simp: q_ok_def q_flow_def bands_flow_def band_flow_def)
  have "filter qb_full (q_bandp (empty_q x)) = []" by (simp add: empty_q_def filter_empty_conv)
  moreover have "ptrs_ok (empty_q x)"
    unfolding ptrs_ok_def
  proof (intro allI impI)
    fix i assume "1 \<le> i \<and> i \<le> q_nband (empty_q x)"
    then have "i - 1 < length (q_bandp x)" using len by (auto simp: empty_q_def)
    then show "qb_first (q_bandp (empty_q x) ! (i - 1)) = first_of i (q_msgs (empty_q x))
        \<and> qb_last (q_bandp (empty_q x) ! (i - 1)) = last_of i (q_msgs (empty_q x))"
      by (simp add: empty_q_def)
  qed
  ultimately show ?thesis using len hi
    by (simp add: q_ok_def order_ok_def q_flow_def bands_flow_def band_flow_def prio_sorted_def empty_q_def not_le)
qed

lemma prio_sorted_filter: "prio_sorted ms \<Longrightarrow> prio_sorted (filter P ms)"
  unfolding prio_sorted_def by (rule sorted_wrt_filter)

lemma band_bytes_filter:
  assumes "\<forall>m \<in> set ms. spans_ok m"
  shows "band_bytes i (filter P ms) \<le> band_bytes i ms"
  using assms by (induction ms) (auto dest: msg_bytes_nonneg)

lemma have_band_enough: "pri \<le> q_nband (queues s q) \<Longrightarrow> have_band q pri s = (True, s)"
  by (simp add: have_band_def)

lemma behind_all:
  assumes "\<forall>t \<in> set ms. mkey m \<le> mkey t"
  shows "behind m ms = (ms, [])"
  using assms by (simp add: behind_def)

text \<open>Messages that may follow those of the queue.\<close>

definition refill :: "nat \<Rightarrow> mblk list \<Rightarrow> strsys \<Rightarrow> bool" where
  "refill q ms s \<longleftrightarrow> prio_sorted (q_msgs (queues s q) @ ms) \<and> distinct (map m_addr (q_msgs (queues s q) @ ms))
     \<and> (\<forall>m \<in> set ms. msg_ok (q_nband (queues s q)) m \<and> spans_ok m)
     \<and> (\<forall>i. band_bytes i (q_msgs (queues s q) @ ms) < 4294967296)"

lemma high_band0_id: "msg_ok n m \<Longrightarrow> high_band0 m = m"
  by (cases m) (auto simp: high_band0_def msg_ok_def queclass_high)

lemma qenable_nband [simp]: "q_nband (queues (qenable p s) v) = q_nband (queues s v)"
  by (simp add: qenable_def)

lemma putq_nband:
  assumes ok: "order_ok (queues s q)" and m: "msg_ok (q_nband (queues s q)) m" and run: "putq q m s = Some (b, s')"
  shows "q_nband (queues s' v) = q_nband (queues s v)"
proof -
  obtain A B where "putq_link m (queues s q) = Some (linked m A B (queues s q))"
    using links_atD [OF links_behind ok m] by (metis surj_pair)
  moreover have "have_band q (b_band m) s = (True, s)" using m by (simp add: have_band_enough msg_ok_def)
  ultimately show ?thesis
    using run by (auto simp: putq_def put_with_def high_band0_id [OF m] put_enable_def Let_def)
qed

lemma refill_put:
  assumes ok: "str_ok s" and fill: "refill q (m # ms) s"
  shows "\<exists>s'. putq q m s = Some (True, s') \<and> str_ok s' \<and> q_msgs (queues s' q) = q_msgs (queues s q) @ [m]
     \<and> (\<forall>v. v \<noteq> q \<longrightarrow> q_msgs (queues s' v) = q_msgs (queues s v)) \<and> str_freed s' = str_freed s
     \<and> same_route s s' \<and> set (runq s) \<subseteq> set (runq s') \<and> refill q ms s'"
proof -
  let ?x = "queues s q"
  have ord: "order_ok ?x" using str_okD [OF ok] by (simp add: q_ok_def)
  have m: "msg_ok (q_nband ?x) m" "spans_ok m" using fill by (simp_all add: refill_def)
  have sp: "\<forall>t \<in> set (q_msgs ?x @ ms). spans_ok t"
    using fill str_okD [OF ok, of q] by (auto simp: refill_def q_ok_def q_flow_def)
  have "\<forall>t \<in> set (q_msgs ?x). mkey m \<le> mkey t" using fill by (auto simp: refill_def prio_simps)
  note place = behind_all [OF this]
  have "band_bytes (b_band m) (q_msgs ?x) + msg_bytes m < 4294967296"
  proof -
    have "band_bytes (b_band m) (q_msgs ?x @ m # ms) < 4294967296" using fill unfolding refill_def by blast
    moreover have "0 \<le> band_bytes (b_band m) ms" using sp by (intro band_bytes_nonneg) auto
    ultimately show ?thesis by simp
  qed
  then have "fits s q m" using fill m by (auto simp: fits_def refill_def msg_ok_def high_band0_id [OF m(1)])
  from put_with_ok [OF ok links_behind this, unfolded high_band0_id [OF m(1)], OF place]
  obtain s' where s': "putq q m s = Some (True, s')" "str_ok s'" "q_msgs (queues s' q) = q_msgs ?x @ [m]"
      "\<forall>v. v \<noteq> q \<longrightarrow> q_msgs (queues s' v) = q_msgs (queues s v)" "str_freed s' = str_freed s"
      "same_route s s'" "set (runq s) \<subseteq> set (runq s')"
    using m(1) unfolding putq_def msg_ok_def by auto
  moreover have "refill q ms s'"
    using fill s'(3) putq_nband [OF ord m(1) s'(1), of q] by (simp add: refill_def)
  ultimately show ?thesis by blast
qed

text \<open>Messages go or are put back, in order.\<close>

definition flushed :: "nat \<Rightarrow> mblk list \<Rightarrow> mblk list \<Rightarrow> strsys \<Rightarrow> strsys \<Rightarrow> bool" where
  "flushed q ms freed s s' \<longleftrightarrow> str_ok s' \<and> q_msgs (queues s' q) = ms
     \<and> (\<forall>v. v \<noteq> q \<longrightarrow> q_msgs (queues s' v) = q_msgs (queues s v)) \<and> str_freed s' = rev freed @ str_freed s
     \<and> same_route s s' \<and> set (runq s) \<subseteq> set (runq s')"

lemma refill_skip: "refill q (m # ms) s \<Longrightarrow> \<forall>t \<in> set (q_msgs (queues s q)). spans_ok t \<Longrightarrow> refill q ms (freemsg m s)"
proof -
  assume fill: "refill q (m # ms) s" and sp: "\<forall>t \<in> set (q_msgs (queues s q)). spans_ok t"
  have "0 \<le> msg_bytes m" using fill by (simp add: refill_def msg_bytes_nonneg)
  have "band_bytes i (q_msgs (queues s q) @ ms) < 4294967296" for i
  proof -
    have "band_bytes i (q_msgs (queues s q) @ m # ms) < 4294967296" using fill unfolding refill_def by blast
    with \<open>0 \<le> msg_bytes m\<close> show ?thesis by (cases "b_band m = i") simp_all
  qed
  with fill show ?thesis by (auto simp: refill_def freemsg_def prio_simps)
qed

lemma str_ok_freemsg: "str_ok s \<Longrightarrow> str_ok (freemsg m s)"
  by (rule str_ok_calm [of s]) (auto simp: freemsg_def calm_def same_route_def str_okD)

lemma flush_msgs_ok:
  "str_ok s \<Longrightarrow> refill q ms s \<Longrightarrow>
   \<exists>s'. flush_msgs gone q ms s = Some s'
     \<and> flushed q (q_msgs (queues s q) @ filter (\<lambda>m. \<not> gone m) ms) (filter gone ms) s s'"
proof (induction ms arbitrary: s)
  case (Cons m ms)
  show ?case
  proof (cases "gone m")
    case True
    have "\<forall>t \<in> set (q_msgs (queues s q)). spans_ok t" using str_okD [OF Cons.prems(1), of q] by (simp add: q_ok_def q_flow_def)
    from Cons.IH [OF str_ok_freemsg [OF Cons.prems(1)] refill_skip [OF Cons.prems(2) this]] True
    show ?thesis by (auto simp: flushed_def freemsg_def same_route_def)
  next
    case False
    from refill_put [OF Cons.prems] obtain s1 where s1: "putq q m s = Some (True, s1)" "str_ok s1"
        "q_msgs (queues s1 q) = q_msgs (queues s q) @ [m]"
        "\<forall>v. v \<noteq> q \<longrightarrow> q_msgs (queues s1 v) = q_msgs (queues s v)" "str_freed s1 = str_freed s"
        "same_route s s1" "set (runq s) \<subseteq> set (runq s1)" "refill q ms s1"
      by blast
    from Cons.IH [OF s1(2,8)] obtain s2 where "flush_msgs gone q ms s1 = Some s2"
      and f: "flushed q (q_msgs (queues s1 q) @ filter (\<lambda>m. \<not> gone m) ms) (filter gone ms) s1 s2"
      by blast
    moreover have "same_route s s2" using f by (auto simp: flushed_def intro: same_route_trans [OF s1(6)])
    ultimately show ?thesis using False s1 by (auto simp: flushed_def)
  qed
qed (simp add: flushed_def)

lemma flush_all_ok:
  assumes ok: "str_ok s"
  shows "\<exists>s'. flush_msgs gone q (q_msgs (queues s q)) (upd_q q empty_q s) = Some s'
     \<and> flushed q (filter (\<lambda>m. \<not> gone m) (q_msgs (queues s q))) (filter gone (q_msgs (queues s q))) s s'"
proof -
  let ?s = "upd_q q empty_q s" and ?ms = "q_msgs (queues s q)"
  have q: "q_ok (queues s q)" using ok by (rule str_okD)
  have ok1: "str_ok ?s" by (rule str_ok_upd_q [OF ok]) (rule q_ok_empty [OF q], simp add: empty_q_def)
  have fill: "refill q ?ms ?s" using q by (auto simp: refill_def q_ok_def order_ok_def q_flow_def empty_q_def)
  have route: "same_route s ?s" by (simp add: same_route_def empty_q_def)
  have e: "q_msgs (queues ?s q) = []" by (simp add: empty_q_def)
  from flush_msgs_ok [OF ok1 fill, of gone, unfolded e append_Nil] obtain s' where
    "flush_msgs gone q ?ms ?s = Some s'" and f: "flushed q (filter (\<lambda>m. \<not> gone m) ?ms) (filter gone ?ms) ?s s'"
    by blast
  moreover have "same_route s s'" using f by (auto simp: flushed_def intro: same_route_trans [OF route])
  ultimately show ?thesis by (auto simp: flushed_def)
qed

section \<open>Waking the writers\<close>

definition marks :: "queue \<Rightarrow> bool \<times> int \<times> (bool \<times> int) list" where
  "marks x = (qwantw x, q_lowat x, map (\<lambda>b. (qb_wantw b, qb_lowat b)) (q_bandp x))"

lemma map_upd_band:
  assumes "\<And>b. f (g b) = f b"
  shows "map f (q_bandp (upd_band pri g x)) = map f (q_bandp x)"
proof (rule nth_equalityI)
  fix j assume "j < length (map f (q_bandp (upd_band pri g x)))"
  then show "map f (q_bandp (upd_band pri g x)) ! j = map f (q_bandp x) ! j"
    using assms by (cases "j = pri - 1") (auto simp: upd_band_def)
qed simp

lemma marks_count_in [simp]: "marks (count_in m x) = marks x"
  by (simp add: marks_def count_in_def Let_def map_upd_band)

lemma marks_linked [simp]: "marks (linked m A B x) = marks x"
  by (simp add: marks_def linked_def map_upd_band)

lemma marks_qenable [simp]: "marks (queues (qenable p s) v) = marks (queues s v)"
  by (simp add: qenable_def marks_def)

lemma marks_empty_q [simp]: "marks (empty_q x) = marks x"
  by (simp add: marks_def empty_q_def)

lemma putq_marks:
  assumes ok: "order_ok (queues s q)" and m: "msg_ok (q_nband (queues s q)) m" and run: "putq q m s = Some (b, s')"
  shows "marks (queues s' v) = marks (queues s v)"
proof -
  obtain A B where "putq_link m (queues s q) = Some (linked m A B (queues s q))"
    using links_atD [OF links_behind ok m] by (metis surj_pair)
  moreover have "have_band q (b_band m) s = (True, s)" using m by (simp add: have_band_enough msg_ok_def)
  ultimately show ?thesis
    using run by (auto simp: putq_def put_with_def high_band0_id [OF m] put_enable_def Let_def)
qed

lemma flush_msgs_marks:
  "str_ok s \<Longrightarrow> refill q ms s \<Longrightarrow> flush_msgs gone q ms s = Some s' \<Longrightarrow> marks (queues s' q) = marks (queues s q)"
proof (induction ms arbitrary: s)
  case (Cons m ms)
  show ?case
  proof (cases "gone m")
    case True
    have "\<forall>t \<in> set (q_msgs (queues s q)). spans_ok t" using str_okD [OF Cons.prems(1), of q] by (simp add: q_ok_def q_flow_def)
    from Cons.IH [OF str_ok_freemsg [OF Cons.prems(1)] refill_skip [OF Cons.prems(2) this]] True Cons.prems(3)
    show ?thesis by (simp add: freemsg_def)
  next
    case False
    have ord: "order_ok (queues s q)" using str_okD [OF Cons.prems(1)] by (simp add: q_ok_def)
    have m: "msg_ok (q_nband (queues s q)) m" using Cons.prems(2) by (simp add: refill_def)
    from refill_put [OF Cons.prems(1,2)] obtain s1 where s1: "putq q m s = Some (True, s1)" "str_ok s1" "refill q ms s1"
      by blast
    with Cons.IH [OF s1(2,3)] False Cons.prems(3) putq_marks [OF ord m s1(1)] show ?thesis by simp
  qed
qed simp

lemma flush_all_marks:
  assumes ok: "str_ok s" and run: "flush_msgs gone q (q_msgs (queues s q)) (upd_q q empty_q s) = Some s'"
  shows "marks (queues s' q) = marks (queues s q)"
proof -
  let ?s = "upd_q q empty_q s" and ?ms = "q_msgs (queues s q)"
  have q: "q_ok (queues s q)" using ok by (rule str_okD)
  have ok1: "str_ok ?s" by (rule str_ok_upd_q [OF ok]) (rule q_ok_empty [OF q], simp add: empty_q_def)
  have fill: "refill q ?ms ?s" using q by (auto simp: refill_def q_ok_def order_ok_def q_flow_def empty_q_def)
  from flush_msgs_marks [OF ok1 fill run] show ?thesis by simp
qed

text \<open>A writer waits for the band, and there is room for it.\<close>

definition room_for :: "nat \<Rightarrow> mblk list \<Rightarrow> queue \<Rightarrow> bool" where
  "room_for i ms x \<longleftrightarrow> i \<le> length (q_bandp x) \<and> want_write i x \<and> band_bytes i ms \<le> band_lowat i x"

lemma room_for_marks:
  assumes "marks y = marks x"
  shows "room_for i ms y \<longleftrightarrow> room_for i ms x"
proof -
  from assms have m: "qwantw y = qwantw x" "q_lowat y = q_lowat x"
      "map (\<lambda>b. (qb_wantw b, qb_lowat b)) (q_bandp y) = map (\<lambda>b. (qb_wantw b, qb_lowat b)) (q_bandp x)"
    by (simp_all add: marks_def)
  from m(3) have len: "length (q_bandp y) = length (q_bandp x)" by (rule map_eq_imp_length_eq)
  have nth: "(qb_wantw (q_bandp y ! j), qb_lowat (q_bandp y ! j)) = (qb_wantw (q_bandp x ! j), qb_lowat (q_bandp x ! j))"
    if "j < length (q_bandp x)" for j
    using arg_cong [OF m(3), of "\<lambda>l. l ! j"] that len by simp
  show ?thesis
  proof (cases "i = 0")
    case False
    then show ?thesis using nth [of "i - 1"] len by (auto simp: room_for_def want_write_def band_lowat_def)
  qed (use m len in \<open>simp add: room_for_def want_write_def band_lowat_def\<close>)
qed

lemma flush_wants_room:
  assumes "q_ok x"
  shows "True \<in> set (flush_wants x) \<longleftrightarrow> (\<exists>i. room_for i (q_msgs x) x)"
proof -
  have cnt: "q_count x = band_bytes 0 (q_msgs x)"
    "\<And>j. j < length (q_bandp x) \<Longrightarrow> qb_count (q_bandp x ! j) = band_bytes (j + 1) (q_msgs x)"
    using assms by (auto simp: q_ok_def q_flow_def bands_flow_def band_flow_def)
  have band: "wants_back (q_bandp x ! j) \<longleftrightarrow> room_for (j + 1) (q_msgs x) x" if "j < length (q_bandp x)" for j
    using that cnt(2) [OF that] by (simp add: wants_back_def room_for_def want_write_def band_lowat_def)
  have zero: "(qwantw x \<and> q_count x \<le> q_lowat x) \<longleftrightarrow> room_for 0 (q_msgs x) x"
    by (simp add: room_for_def want_write_def band_lowat_def cnt(1))
  have "True \<in> set (flush_wants x) \<longleftrightarrow> room_for 0 (q_msgs x) x \<or> (\<exists>j < length (q_bandp x). wants_back (q_bandp x ! j))"
    by (auto simp: flush_wants_def zero in_set_conv_nth image_iff) (metis nth_mem)
  also have "\<dots> \<longleftrightarrow> (\<exists>i. room_for i (q_msgs x) x)"
  proof -
    have "i = 0 \<or> (\<exists>j < length (q_bandp x). i = j + 1)" if "room_for i (q_msgs x) x" for i
      using that by (cases i) (auto simp: room_for_def)
    then show ?thesis using band by blast
  qed
  finally show ?thesis .
qed

lemma q_ok_map_bands:
  assumes ok: "q_ok x" and f: "\<And>b. qb_count (f b) = qb_count b \<and> qb_hiwat (f b) = qb_hiwat b \<and> qb_full (f b) = qb_full b
      \<and> qb_first (f b) = qb_first b \<and> qb_last (f b) = qb_last b"
  shows "q_ok (x\<lparr>q_bandp := map f (q_bandp x)\<rparr>)"
proof -
  have len: "length (q_bandp x) = q_nband x" using ok by (simp add: q_ok_def order_ok_def)
  have cnt: "length (filter qb_full (map f (q_bandp x))) = length (filter qb_full (q_bandp x))"
    using f by (simp add: filter_map comp_def)
  have "ptrs_ok (x\<lparr>q_bandp := map f (q_bandp x)\<rparr>)"
    unfolding ptrs_ok_def
  proof (intro allI impI)
    fix i assume i: "1 \<le> i \<and> i \<le> q_nband (x\<lparr>q_bandp := map f (q_bandp x)\<rparr>)"
    then have "i - 1 < length (q_bandp x)" using len by auto
    then show "qb_first (q_bandp (x\<lparr>q_bandp := map f (q_bandp x)\<rparr>) ! (i - 1)) = first_of i (q_msgs (x\<lparr>q_bandp := map f (q_bandp x)\<rparr>))
        \<and> qb_last (q_bandp (x\<lparr>q_bandp := map f (q_bandp x)\<rparr>) ! (i - 1)) = last_of i (q_msgs (x\<lparr>q_bandp := map f (q_bandp x)\<rparr>))"
      using ok i f by (simp add: q_ok_def order_ok_def ptrs_ok_def)
  qed
  moreover have "bands_flow (q_msgs x) (map f (q_bandp x))"
    using ok f by (simp add: q_ok_def q_flow_def bands_flow_def band_flow_def)
  ultimately show ?thesis using ok cnt by (simp add: q_ok_def order_ok_def q_flow_def)
qed

lemma q_ok_clear_wants: "q_ok x \<Longrightarrow> q_ok (clear_wants x)"
  unfolding clear_wants_def q_ok_flags by (rule q_ok_map_bands) auto

lemma enables_refl: "str_ok s \<Longrightarrow> enables s s"
  by (simp add: enables_def)

lemma setqbacks_ok:
  assumes "str_ok s"
  shows "enables s (setqbacks n qbf s)" "runq (setqbacks n qbf s) = runq s"
proof -
  have *: "\<forall>i \<in> set bs. i \<le> 255 \<Longrightarrow> str_ok s \<Longrightarrow>
    enables s (fold (\<lambda>i s. if qbf ! i then setqback n i s else s) bs s)
    \<and> runq (fold (\<lambda>i s. if qbf ! i then setqback n i s else s) bs s) = runq s" for bs s
  proof (induction bs arbitrary: s)
    case (Cons i bs)
    define s1 where "s1 = (if qbf ! i then setqback n i s else s)"
    have s1: "enables s s1" "runq s1 = runq s" "str_ok s1"
      using setqback_ok [OF Cons.prems(2), of i n] Cons.prems by (auto simp: s1_def enables_refl enables_def)
    with Cons.IH [OF _ s1(3)] Cons.prems(1) show ?case by (auto simp: s1_def [symmetric] intro: enables_trans)
  qed (simp add: enables_refl)
  have "\<forall>i \<in> set [0 ..< length qbf mod 256]. i \<le> 255" using mod_less_divisor [of 256 "length qbf"] by auto
  from * [OF this assms] show "enables s (setqbacks n qbf s)" "runq (setqbacks n qbf s) = runq s"
    unfolding setqbacks_def by simp_all
qed

section \<open>What the flushes do\<close>

lemma flushed_enables: "flushed q ms fr s s1 \<Longrightarrow> enables s1 s' \<Longrightarrow> flushed q ms fr s s'"
  unfolding flushed_def enables_def by (auto simp: same_msgs_def intro: same_route_trans)

lemma room_for_frame:
  "marks y = marks x \<Longrightarrow> q_msgs y = ms \<Longrightarrow> (\<exists>i. room_for i (q_msgs y) y) \<longleftrightarrow> (\<exists>i. room_for i ms x)"
  using room_for_marks [of y x] by auto

lemma back_srv_same:
  "same_route s s' \<Longrightarrow> back_srv s (backq s q) = Some r \<Longrightarrow> back_srv s' (backq s' q) = Some r"
  using back_srv_route [of s s'] by (simp add: backq_route)

lemma clear_wants_frame [simp]:
  "q_msgs (clear_wants x) = q_msgs x" "q_srvp (clear_wants x) = q_srvp x" "q_next (clear_wants x) = q_next x"
  "qreadr (clear_wants x) = qreadr x" "qenab (clear_wants x) = qenab x" "qfull (clear_wants x) = qfull x"
  "q_blocked (clear_wants x) = q_blocked x" "q_nband (clear_wants x) = q_nband x"
  by (simp_all add: clear_wants_def)

lemma enables_upd_q:
  assumes ok: "str_ok s" and q: "q_ok (f (queues s q))"
    and f: "\<And>x. q_srvp (f x) = q_srvp x \<and> q_next (f x) = q_next x \<and> qreadr (f x) = qreadr x \<and> qenab (f x) = qenab x"
    and g: "\<And>x. q_msgs (f x) = q_msgs x \<and> qfull (f x) = qfull x \<and> q_blocked (f x) = q_blocked x \<and> q_nband (f x) = q_nband x"
  shows "enables s (upd_q q f s)"
  using str_ok_upd_q [of s f q, OF ok q f] f g by (simp add: enables_def same_msgs_def same_route_def)

lemma flushq_ok:
  assumes ok: "str_ok s"
  defines "gone \<equiv> \<lambda>flag m. flag \<or> datamsg (m_type m)"
  shows "\<exists>s'. flushq q flag s = Some s'
    \<and> flushed q (filter (\<lambda>m. \<not> gone flag m) (q_msgs (queues s q))) (filter (gone flag) (q_msgs (queues s q))) s s'
    \<and> (\<forall>n i. room_for i (filter (\<lambda>m. \<not> gone flag m) (q_msgs (queues s q))) (queues s q)
         \<and> back_srv s (backq s q) = Some (Some n) \<longrightarrow> n \<in> set (runq s'))"
proof -
  let ?kept = "filter (\<lambda>m. \<not> gone flag m) (q_msgs (queues s q))" and ?fr = "filter (gone flag) (q_msgs (queues s q))"
  obtain s1 where run1: "flush_msgs (gone flag) q (q_msgs (queues s q)) (upd_q q empty_q s) = Some s1"
    and f1: "flushed q ?kept ?fr s s1"
    using flush_all_ok [OF ok, of "gone flag" q] by blast
  have mk: "marks (queues s1 q) = marks (queues s q)" by (rule flush_all_marks [OF ok run1])
  have ok1: "str_ok s1" and m1: "q_msgs (queues s1 q) = ?kept" and r1: "same_route s s1" using f1 by (simp_all add: flushed_def)
  have want: "True \<in> set (flush_wants (queues s1 q)) \<longleftrightarrow> (\<exists>i. room_for i ?kept (queues s q))"
    using flush_wants_room [OF str_okD [OF ok1]] room_for_frame [OF mk m1] by simp
  let ?s2 = "upd_q q clear_wants s1"
  have e2: "enables s1 ?s2"
    by (rule enables_upd_q [OF ok1]) (rule q_ok_clear_wants [OF str_okD [OF ok1]], simp_all)
  then have ok2: "str_ok ?s2" and r2: "same_route s ?s2" using r1 by (auto simp: enables_def intro: same_route_trans)
  have run: "flushq q flag s = (if True \<in> set (flush_wants (queues s1 q)) then
            (case back_srv ?s2 (backq ?s2 q) of
               None \<Rightarrow> None
             | Some None \<Rightarrow> Some ?s2
             | Some (Some nq) \<Rightarrow> Some (setqbacks nq (flush_wants (queues s1 q)) (qenable nq ?s2)))
          else Some ?s2)"
    using run1 by (simp add: flushq_def gone_def Let_def)
  obtain r where r: "back_srv s (backq s q) = Some r" using ok unfolding str_ok_def routes_end_def by blast
  note srch = back_srv_same [OF r2 r]
  show ?thesis
  proof (cases "(\<exists>i. room_for i ?kept (queues s q)) \<and> r \<noteq> None")
    case True
    then obtain n where n: "r = Some n" by blast
    let ?s3 = "qenable n ?s2"
    have e3: "enables ?s2 ?s3" "n \<in> set (runq ?s3)"
      using qenable_ok [OF ok2, of n] back_srv_srvp [OF srch [unfolded n]] by simp_all
    then have ok3: "str_ok ?s3" by (simp add: enables_def)
    note e4 = setqbacks_ok [OF ok3, of n "flush_wants (queues s1 q)"]
    have "flushq q flag s = Some (setqbacks n (flush_wants (queues s1 q)) ?s3)"
      unfolding run want srch n using True by simp
    moreover have "flushed q ?kept ?fr s (setqbacks n (flush_wants (queues s1 q)) ?s3)"
      by (intro flushed_enables [OF f1] enables_trans [OF e2] enables_trans [OF e3(1)] e4(1))
    ultimately show ?thesis using e3(2) e4(2) r n by auto
  next
    case False
    have "flushq q flag s = Some ?s2" unfolding run want srch using False by (cases r) simp_all
    moreover have "flushed q ?kept ?fr s ?s2" by (rule flushed_enables [OF f1 e2])
    ultimately show ?thesis using False r by auto
  qed
qed

lemma flushband0_ok:
  assumes ok: "str_ok s"
  defines "gone \<equiv> \<lambda>flag m. b_band m = 0 \<and> m_type m < QPCTL \<and> (flag \<or> datamsg (m_type m))"
  shows "\<exists>s'. flushband q 0 flag s = Some s'
    \<and> flushed q (filter (\<lambda>m. \<not> gone flag m) (q_msgs (queues s q))) (filter (gone flag) (q_msgs (queues s q))) s s'
    \<and> (\<forall>n. room_for 0 (filter (\<lambda>m. \<not> gone flag m) (q_msgs (queues s q))) (queues s q)
         \<and> back_srv s (backq s q) = Some (Some n) \<longrightarrow> n \<in> set (runq s'))"
proof -
  let ?kept = "filter (\<lambda>m. \<not> gone flag m) (q_msgs (queues s q))" and ?fr = "filter (gone flag) (q_msgs (queues s q))"
  obtain s1 where run1: "flush_msgs (gone flag) q (q_msgs (queues s q)) (upd_q q empty_q s) = Some s1"
    and f1: "flushed q ?kept ?fr s s1"
    using flush_all_ok [OF ok, of "gone flag" q] by blast
  have mk: "marks (queues s1 q) = marks (queues s q)" by (rule flush_all_marks [OF ok run1])
  have ok1: "str_ok s1" and m1: "q_msgs (queues s1 q) = ?kept" and r1: "same_route s s1" using f1 by (simp_all add: flushed_def)
  have "q_count (queues s1 q) = band_bytes 0 ?kept" using str_okD [OF ok1, of q] m1 by (simp add: q_ok_def q_flow_def)
  then have want: "qwantw (queues s1 q) \<and> q_count (queues s1 q) \<le> q_lowat (queues s1 q)
      \<longleftrightarrow> room_for 0 ?kept (queues s q)"
    using mk by (simp add: room_for_def want_write_def band_lowat_def marks_def)
  let ?s2 = "upd_q q (\<lambda>x. x\<lparr>qwantw := False\<rparr>) s1"
  have e2: "enables s1 ?s2"
    by (rule enables_upd_q [OF ok1]) (simp_all add: str_okD [OF ok1])
  then have ok2: "str_ok ?s2" and r2: "same_route s ?s2" using r1 by (auto simp: enables_def intro: same_route_trans)
  have run: "flushband q 0 flag s = (if qwantw (queues s1 q) \<and> q_count (queues s1 q) \<le> q_lowat (queues s1 q) then
            (case back_srv ?s2 (backq ?s2 q) of
               None \<Rightarrow> None
             | Some None \<Rightarrow> Some ?s2
             | Some (Some nq) \<Rightarrow> Some (setqback nq 0 (qenable nq ?s2)))
          else Some s1)"
    using run1 by (simp add: flushband_def gone_def Let_def)
  obtain r where r: "back_srv s (backq s q) = Some r" using ok unfolding str_ok_def routes_end_def by blast
  note srch = back_srv_same [OF r2 r]
  show ?thesis
  proof (cases "room_for 0 ?kept (queues s q)")
    case room: True
    show ?thesis
    proof (cases r)
      case None
      have "flushband q 0 flag s = Some ?s2" unfolding run want srch None using room by simp
      moreover have "flushed q ?kept ?fr s ?s2" by (rule flushed_enables [OF f1 e2])
      ultimately show ?thesis using r None by auto
    next
      case (Some n)
      let ?s3 = "qenable n ?s2"
      have e3: "enables ?s2 ?s3" "n \<in> set (runq ?s3)"
        using qenable_ok [OF ok2, of n] back_srv_srvp [OF srch [unfolded Some]] by simp_all
      then have ok3: "str_ok ?s3" by (simp add: enables_def)
      note e4 = setqback_ok [OF ok3, of 0 n]
      have "flushband q 0 flag s = Some (setqback n 0 ?s3)" unfolding run want srch Some using room by simp
      moreover have "flushed q ?kept ?fr s (setqback n 0 ?s3)"
        by (intro flushed_enables [OF f1] enables_trans [OF e2] enables_trans [OF e3(1)] e4(1)) simp
      ultimately show ?thesis using e3(2) e4(2) r Some by auto
    qed
  next
    case False
    have "flushband q 0 flag s = Some s1" unfolding run want using False by simp
    with f1 False show ?thesis by auto
  qed
qed

text \<open>A band other than the normal one is a run of neighbours.\<close>

lemma band_block:
  assumes ok: "order_ok x" and i: "i \<noteq> 0" and f: "first_of i (q_msgs x) = Some f"
  obtains P t S B where "q_msgs x = P @ (t # S) @ B" "m_addr t = f" "\<forall>u \<in> set P. b_band u \<noteq> i"
    "\<forall>u \<in> set (t # S). b_band u = i" "\<forall>u \<in> set B. b_band u \<noteq> i"
proof -
  from first_of_Some [OF f] obtain P t R where
    ms: "q_msgs x = P @ t # R" "m_addr t = f" "b_band t = i" "\<forall>u \<in> set P. b_band u \<noteq> i"
    by blast
  define S where "S = takeWhile (\<lambda>u. b_band u = i) R"
  define B where "B = dropWhile (\<lambda>u. b_band u = i) R"
  have R: "R = S @ B" by (simp add: S_def B_def)
  have S: "\<forall>u \<in> set (t # S). b_band u = i" using ms(3) by (auto simp: S_def dest: set_takeWhileD)
  have "\<forall>u \<in> set B. b_band u \<noteq> i"
  proof (cases B)
    case (Cons n B')
    then have n: "b_band n \<noteq> i" using hd_dropWhile [of "\<lambda>u. b_band u = i" R] by (simp add: B_def)
    have "q_msgs x = (P @ butlast (t # S)) @ last (t # S) # n # B'"
      using ms(1) R Cons by (simp add: append_assoc [symmetric] del: append_assoc) (cases S rule: rev_cases; simp)
    from band_below [OF ok this _ i n] S Cons show ?thesis by (metis last_in_set list.distinct(1))
  qed simp
  with that [of P t S B] ms S R show ?thesis by simp
qed

lemma band_run_block:
  "distinct (map m_addr (R @ B)) \<Longrightarrow> R \<noteq> [] \<Longrightarrow> band_run (Some (m_addr (last R))) (R @ B) = Some R"
proof (induction R)
  case (Cons m R)
  show ?case
  proof (cases "R = []")
    case False
    then have "m_addr (last R) \<in> m_addr ` set R" by (intro imageI last_in_set)
    then have "m_addr (last R) \<noteq> m_addr m" using Cons.prems(1) by auto
    with False Cons show ?thesis by simp
  qed simp
qed simp

lemma last_of_block:
  "R \<noteq> [] \<Longrightarrow> \<forall>u \<in> set R. b_band u = i \<Longrightarrow> \<forall>u \<in> set B. b_band u \<noteq> i \<Longrightarrow> last_of i (A @ R @ B) = Some (m_addr (last R))"
proof -
  assume R: "R \<noteq> []" "\<forall>u \<in> set R. b_band u = i" and B: "\<forall>u \<in> set B. b_band u \<noteq> i"
  have "last_of i B = None" using B by (simp add: last_of_None)
  moreover have "last_of i R = Some (m_addr (last R))" using R by (cases R rule: rev_cases) (simp_all add: last_of_append)
  ultimately show ?thesis by (simp add: last_of_append)
qed

lemma flush_band_msgs_ok:
  "str_ok s \<Longrightarrow> q_msgs (queues s q) = A @ R @ B \<Longrightarrow>
   \<exists>s'. flush_band_msgs gone q R s = Some s'
     \<and> flushed q (A @ filter (\<lambda>m. \<not> gone m) R @ B) (filter gone R) s s'"
proof (induction R arbitrary: s A)
  case (Cons m R)
  show ?case
  proof (cases "gone m")
    case True
    have "q_msgs (queues s q) = A @ m # R @ B" using Cons.prems(2) by simp
    from rmvq_ok [OF Cons.prems(1) this] obtain s1 where run: "rmvq q m s = Some s1" and t: "taken q m (A @ R @ B) s s1"
      by blast
    let ?s = "freemsg m s1"
    have ok: "str_ok ?s" using t by (intro str_ok_freemsg) (simp add: taken_def)
    have "q_msgs (queues ?s q) = A @ R @ B" using t by (simp add: taken_def freemsg_def)
    from Cons.IH [OF ok this] obtain s2 where "flush_band_msgs gone q R ?s = Some s2"
      and f: "flushed q (A @ filter (\<lambda>m. \<not> gone m) R @ B) (filter gone R) ?s s2"
      by blast
    moreover have "same_route s ?s" using t by (simp add: taken_def freemsg_def same_route_def)
    then have "same_route s s2" using f by (auto simp: flushed_def intro: same_route_trans)
    ultimately show ?thesis using True run t by (auto simp: flushed_def taken_def freemsg_def)
  next
    case False
    have "q_msgs (queues s q) = (A @ [m]) @ R @ B" using Cons.prems(2) by simp
    from Cons.IH [OF Cons.prems(1) this] False show ?thesis by simp
  qed
qed (simp add: flushed_def)

lemma flushband_ok:
  assumes ok: "str_ok s" and i: "pri \<noteq> 0"
  defines "gone \<equiv> \<lambda>flag m. b_band m = pri \<and> (flag \<or> datamsg (m_type m))"
  shows "\<exists>s'. flushband q pri flag s = Some s'
    \<and> flushed q (filter (\<lambda>m. \<not> gone flag m) (q_msgs (queues s q))) (filter (gone flag) (q_msgs (queues s q))) s s'"
proof -
  let ?x = "queues s q" and ?b = "q_bandp (queues s q) ! (pri - 1)"
  have ord: "order_ok ?x" using str_okD [OF ok] by (simp add: q_ok_def)
  have none: ?thesis if "\<forall>u \<in> set (q_msgs ?x). b_band u \<noteq> pri" "flushband q pri flag s = Some s"
    using that ok by (auto simp: flushed_def gone_def filter_empty_conv filter_id_conv)
  show ?thesis
  proof (cases "pri > q_nband ?x")
    case True
    then have "\<forall>u \<in> set (q_msgs ?x). b_band u \<noteq> pri" using ord by (auto simp: order_ok_def msg_ok_def)
    with True show ?thesis by (intro none) (simp_all add: flushband_def Let_def)
  next
    case False
    then have ptr: "qb_first ?b = first_of pri (q_msgs ?x)" "qb_last ?b = last_of pri (q_msgs ?x)"
      using ord i by (simp_all add: order_ok_def ptrs_ok_def)
    show ?thesis
    proof (cases "first_of pri (q_msgs ?x)")
      case None
      have "flushband q pri flag s = Some s" using False i ptr(1) None by (simp add: flushband_def Let_def)
      with None show ?thesis by (intro none) (simp_all add: first_of_None)
    next
      case (Some f)
      obtain P t S B where ms: "q_msgs ?x = P @ (t # S) @ B" "m_addr t = f" "\<forall>u \<in> set P. b_band u \<noteq> pri"
          "\<forall>u \<in> set (t # S). b_band u = pri" "\<forall>u \<in> set B. b_band u \<noteq> pri"
        by (rule band_block [OF ord i Some])
      have dist: "distinct (map m_addr (P @ (t # S) @ B))" using ord by (simp add: order_ok_def ms(1))
      have "f \<notin> m_addr ` set P" using dist ms(2) by auto
      then have "\<forall>u \<in> set P. m_addr u \<noteq> f" by (metis imageI)
      then have dw: "dropWhile (\<lambda>m. m_addr m \<noteq> f) (q_msgs ?x) = (t # S) @ B"
        using ms(1,2) by (simp add: dropWhile_append3)
      have last: "qb_last ?b = Some (m_addr (last (t # S)))"
        unfolding ptr(2) ms(1) by (rule last_of_block) (use ms in simp_all)
      have P: "filter (\<lambda>m. \<not> gone flag m) P = P" "filter (gone flag) P = []" and B: "filter (\<lambda>m. \<not> gone flag m) B = B" "filter (gone flag) B = []"
        using ms(3,5) by (auto simp: gone_def filter_id_conv filter_empty_conv)
      obtain R C where R: "(if qb_last ?b = Some f then Some (take 2 ((t # S) @ B)) else band_run (qb_last ?b) ((t # S) @ B)) = Some R"
        and C: "(t # S) @ B = R @ C"
        and same: "filter (\<lambda>m. \<not> gone flag m) R @ C = filter (\<lambda>m. \<not> gone flag m) (t # S) @ B"
          "filter (gone flag) R = filter (gone flag) (t # S)"
      proof (cases "qb_last ?b = Some f")
        case True
        have "S = []"
        proof (rule ccontr)
          assume "S \<noteq> []"
          then have "m_addr (last S) \<in> m_addr ` set S" by (intro imageI last_in_set)
          then have "m_addr (last S) \<noteq> m_addr t" using dist by auto
          with True last \<open>S \<noteq> []\<close> ms(2) show False by simp
        qed
        moreover have "take 2 (t # B) = t # take 1 B" by (cases B) simp_all
        moreover have "filter (\<lambda>m. \<not> gone flag m) (take 1 B) = take 1 B" "filter (gone flag) (take 1 B) = []"
          using ms(5) by (cases B; simp add: gone_def)+
        ultimately show thesis using True by (intro that [of "t # take 1 B" "drop 1 B"]) (simp_all add: numeral_2_eq_2)
      next
        case False
        have "band_run (qb_last ?b) ((t # S) @ B) = Some (t # S)"
          unfolding last by (rule band_run_block) (use dist in simp_all)
        with False show thesis by (intro that [of "t # S" B]) simp_all
      qed
      have "q_msgs (queues s q) = P @ R @ C" using ms(1) C by simp
      from flush_band_msgs_ok [OF ok this, of "gone flag"] obtain s' where
        run: "flush_band_msgs (gone flag) q R s = Some s'"
        and f: "flushed q (P @ filter (\<lambda>m. \<not> gone flag m) R @ C) (filter (gone flag) R) s s'"
        by blast
      have first: "qb_first ?b = Some f" using ptr(1) Some by simp
      have "flushband q pri flag s = Some s'"
        unfolding flushband_def Let_def first option.case dw R run [unfolded gone_def]
        using False i by simp
      moreover have "P @ filter (\<lambda>m. \<not> gone flag m) R @ C = filter (\<lambda>m. \<not> gone flag m) (q_msgs ?x)"
        "filter (gone flag) R = filter (gone flag) (q_msgs ?x)"
        unfolding same ms(1) using P B by simp_all
      ultimately show ?thesis using f by simp
    qed
  qed
qed

end
