(* ===== verification/Stream_Queue_Safety.thy ===== *)
theory Stream_Queue_Safety
  imports Stream_Queue_Flush
begin

text \<open>
  The steps that queues go through, as a relation closed under service procedures, and the
  properties of the STREAMS queues: the place of a message, what is taken off, flow control and
  the waking of writers, flushing, and the invariant of every reachable state.
\<close>

section \<open>Asking for room\<close>

lemma fwd_srv_ends: "str_ok s \<Longrightarrow> \<exists>n. fwd_srv s q = Some n"
  by (simp add: str_ok_def routes_end_def)

text \<open>Room in the normal band, and in every other band.\<close>

definition has_room :: "queue \<Rightarrow> bool" where
  "has_room x \<longleftrightarrow> band_bytes 0 (q_msgs x) < q_hiwat x
     \<and> (\<forall>b \<in> {1 .. q_nband x}. band_bytes b (q_msgs x) < qb_hiwat (q_bandp x ! (b - 1)))"

lemma blocked_iff:
  assumes "q_ok x"
  shows "(qfull x \<or> q_blocked x \<noteq> 0) \<longleftrightarrow> \<not> has_room x"
proof -
  have len: "length (q_bandp x) = q_nband x" using assms by (simp add: q_ok_def order_ok_def)
  have full: "qb_full (q_bandp x ! j) \<longleftrightarrow> qb_hiwat (q_bandp x ! j) \<le> band_bytes (j + 1) (q_msgs x)"
    if "j < length (q_bandp x)" for j
    using assms that by (auto simp: q_ok_def q_flow_def bands_flow_def band_flow_def)
  have "q_blocked x = 0 \<longleftrightarrow> (\<forall>j < length (q_bandp x). \<not> qb_full (q_bandp x ! j))"
  proof -
    have "q_blocked x = int (length (filter qb_full (q_bandp x)))" using assms by (simp add: q_ok_def q_flow_def)
    then have "q_blocked x = 0 \<longleftrightarrow> (\<forall>b \<in> set (q_bandp x). \<not> qb_full b)" by (simp add: filter_empty_conv)
    then show ?thesis by (simp add: all_set_conv_all_nth)
  qed
  also have "\<dots> \<longleftrightarrow> (\<forall>b \<in> {1 .. q_nband x}. band_bytes b (q_msgs x) < qb_hiwat (q_bandp x ! (b - 1)))"
  proof (intro iffI ballI allI impI)
    fix b assume "\<forall>j < length (q_bandp x). \<not> qb_full (q_bandp x ! j)" and "b \<in> {1 .. q_nband x}"
    moreover from this len have "b - 1 < length (q_bandp x)" by auto
    ultimately show "band_bytes b (q_msgs x) < qb_hiwat (q_bandp x ! (b - 1))" using full [of "b - 1"] by auto
  next
    fix j assume a: "\<forall>b \<in> {1 .. q_nband x}. band_bytes b (q_msgs x) < qb_hiwat (q_bandp x ! (b - 1))" "j < length (q_bandp x)"
    then show "\<not> qb_full (q_bandp x ! j)" using full [of j] len bspec [OF a(1), of "j + 1"] by auto
  qed
  finally show ?thesis using assms by (auto simp: has_room_def q_ok_def q_flow_def)
qed





section \<open>Everything that happens to the queues\<close>






section \<open>A stream to look at\<close>

definition idle_queue :: "bool \<Rightarrow> nat option \<Rightarrow> queue" where
  "idle_queue rd next = \<lparr>q_srvp = True, q_msgs = [], q_next = next, q_count = 0, q_minpsz = 0, q_maxpsz = 1024,
     q_hiwat = 10, q_lowat = 4, q_bandp = [], q_nband = 0, q_blocked = 0, qenab = False, qwantr = False,
     qwantw = False, qfull = False, qreadr = rd, qnoenb = False, qback = False, q_oflag = 0\<rparr>"

text \<open>Two modules: 0 and 1 are the queues of the upper one, 2 and 3 those of the lower one.\<close>

definition idle_streams :: strsys where
  "idle_streams = \<lparr>queues = (\<lambda>q. idle_queue (even q) (if q = 1 then Some 3 else if q = 2 then Some 0 else None)),
     runq = [], qsched = False, band_mem = 4, str_freed = []\<rparr>"

definition demo :: "mblk list \<Rightarrow> int \<Rightarrow> qband list \<Rightarrow> strsys" where
  "demo ms c bs = upd_q 3 (\<lambda>x. x\<lparr>q_msgs := ms, q_count := c, qfull := (10 \<le> c), q_bandp := bs,
     q_nband := length bs, q_blocked := int (length (filter qb_full bs))\<rparr>) idle_streams"

definition demo_msg :: "nat \<Rightarrow> nat \<Rightarrow> nat \<Rightarrow> int \<Rightarrow> mblk" where
  "demo_msg a ty band n = \<lparr>m_addr = a, m_type = ty, b_band = band, msgnoget = False, m_spans = [(0, n)]\<rparr>"

definition demo_band :: "nat option \<Rightarrow> nat option \<Rightarrow> int \<Rightarrow> qband" where
  "demo_band f l c = \<lparr>qb_count = c, qb_first = f, qb_last = l, qb_hiwat = 10, qb_lowat = 4,
     qb_full = (10 \<le> c), qb_wantw = False, qb_back = False\<rparr>"

lemma routes_end_srvp: "(\<And>q. q_srvp (queues s q)) \<Longrightarrow> routes_end s"
proof -
  assume srvp: "\<And>q. q_srvp (queues s q)"
  have "\<exists>r. back_srv s nq = Some r" for nq
    by (subst back_srv.simps) (simp add: srvp split: option.split)
  moreover have "\<exists>r. fwd_srv s q = Some r" for q
    by (subst fwd_srv.simps) (simp add: srvp split: option.split)
  ultimately show ?thesis by (simp add: routes_end_def)
qed

lemma demo_ok:
  assumes "q_ok (queues (demo ms c bs) 3)"
  shows "str_ok (demo ms c bs)"
proof -
  have "q_ok (idle_queue rd next)" for rd "next"
    by (simp add: idle_queue_def q_ok_def order_ok_def ptrs_ok_def q_flow_def bands_flow_def prio_sorted_def)
  then have "q_ok (queues (demo ms c bs) q)" for q
    using assms by (cases "q = 3") (simp_all add: demo_def idle_streams_def)
  moreover have "run_ok (demo ms c bs)" by (simp add: run_ok_def demo_def idle_streams_def idle_queue_def)
  moreover have "routes_end (demo ms c bs)"
    by (rule routes_end_srvp) (simp add: demo_def idle_streams_def idle_queue_def)
  ultimately show ?thesis by (simp add: str_ok_def)
qed


lemma demo_fwd: "fwd_srv (demo ms c bs) 3 = Some 3"
  by (subst fwd_srv.simps) (simp add: demo_def idle_streams_def idle_queue_def)

lemmas demo_simps = demo_def idle_streams_def idle_queue_def demo_msg_def demo_band_def

text \<open>Eight bytes of data and four of control; and the same behind six bytes in band 1.\<close>

abbreviation "demo_two \<equiv> demo [demo_msg 2 0 0 8, demo_msg 3 14 0 4] 12 []"
abbreviation "demo_three \<equiv> demo [demo_msg 1 0 1 6, demo_msg 2 0 0 8, demo_msg 3 14 0 4] 12 [demo_band (Some 1) (Some 1) 6]"

lemma q_ok_demo: "q_ok (queues demo_two 3)" "q_ok (queues demo_three 3)"
  by (auto simp: demo_simps q_ok_def order_ok_def ptrs_ok_def msg_ok_def QPCTL_def mkey_def prio_sorted_def q_flow_def
      bands_flow_def band_flow_def msg_bytes_def spans_ok_def le_Suc_eq)

section \<open>Properties\<close>

lemma grow_bands_iff: "fst (grow_bands n x mem) \<longleftrightarrow> n \<le> mem"
  by (induction n arbitrary: x mem) auto

lemma have_band_iff: "fst (have_band q pri s) \<longleftrightarrow> pri - q_nband (queues s q) \<le> band_mem s"
  using grow_bands_iff [of "pri - q_nband (queues s q)" "queues s q" "band_mem s"]
  by (cases "grow_bands (pri - q_nband (queues s q)) (queues s q) (band_mem s)") (simp add: have_band_def)

definition band_room :: "strsys \<Rightarrow> nat \<Rightarrow> mblk \<Rightarrow> bool" where
  "band_room s q bp \<longleftrightarrow> b_band (high_band0 bp) - q_nband (queues s q) \<le> band_mem s"

definition to_serve :: "strsys \<Rightarrow> nat \<Rightarrow> mblk \<Rightarrow> bool" where
  "to_serve s q bp \<longleftrightarrow> q_srvp (queues s q) \<and> (queclass bp > QNORM \<or> canenable (queues s q) \<and> qwantr (queues s q))"

lemma put_with_result:
  assumes ok: "str_ok s" and link: "links_at link place" and fits: "fits s q bp"
    and place: "place (high_band0 bp) (q_msgs (queues s q)) = (A, B)"
  shows "\<exists>s'. put_with link q bp s = Some (band_room s q bp, s')
    \<and> q_msgs (queues s' q) = (if band_room s q bp then A @ high_band0 bp # B else q_msgs (queues s q))
    \<and> (\<forall>v. v \<noteq> q \<longrightarrow> q_msgs (queues s' v) = q_msgs (queues s v))
    \<and> (band_room s q bp \<and> to_serve s q bp \<longrightarrow> q \<in> set (runq s'))"
proof -
  have fst: "b \<longleftrightarrow> band_room s q bp" if "put_with link q bp s = Some (b, s')" for b s'
    using that have_band_iff [of q "b_band (high_band0 bp)" s]
    by (auto simp: put_with_def Let_def band_room_def split: prod.splits bool.splits option.splits)
  from put_with_ok [OF ok link fits place] show ?thesis
  proof (elim disjE exE conjE)
    fix s' assume run: "put_with link q bp s = Some (True, s')" and s': "q_msgs (queues s' q) = A @ high_band0 bp # B"
      "\<forall>v. v \<noteq> q \<longrightarrow> q_msgs (queues s' v) = q_msgs (queues s v)"
      "q_srvp (queues s q) \<and> (QNORM < queclass bp \<or> canenable (queues s q) \<and> qwantr (queues s q)) \<longrightarrow> q \<in> set (runq s')"
    from fst [OF run] run s' show ?thesis by (intro exI [of _ s']) (simp add: to_serve_def)
  next
    fix s' assume run: "put_with link q bp s = Some (False, s')" and "same_msgs s s'"
    with fst [OF run] show ?thesis by (intro exI [of _ s']) (simp add: same_msgs_def)
  qed
qed

lemma put_with_nband:
  assumes ok: "order_ok (queues s q)" and m: "msg_ok (q_nband (queues s q)) m" and link: "links_at link place"
    and run: "put_with link q m s = Some (b, s')"
  shows "q_nband (queues s' v) = q_nband (queues s v)"
proof -
  obtain A B where "link m (queues s q) = Some (linked m A B (queues s q))"
    using links_atD [OF link ok m] by (metis surj_pair)
  moreover have "have_band q (b_band m) s = (True, s)" using m by (simp add: have_band_enough msg_ok_def)
  ultimately show ?thesis
    using run by (auto simp: put_with_def high_band0_id [OF m] put_enable_def Let_def)
qed

text \<open>C18: \<open>putq\<close> and \<open>putbq\<close> return, and succeed exactly when the band structures the message
  needs can be had.  Then \<open>putq\<close> has put the message behind all those of its priority and above,
  \<open>putbq\<close> ahead of all those of its priority and below, a high priority message counting as one of
  band 0; no other queue has changed, and a queue whose service procedure must look at the
  message is on the run list.  Without band structures no queue has changed.\<close>

theorem put_places_by_priority:
  assumes "str_ok s" and "fits s q bp"
  shows "(\<exists>s'. putq q bp s = Some (band_room s q bp, s')
      \<and> q_msgs (queues s' q) = (if band_room s q bp then put_behind (high_band0 bp) (q_msgs (queues s q))
                                else q_msgs (queues s q))
      \<and> (\<forall>v. v \<noteq> q \<longrightarrow> q_msgs (queues s' v) = q_msgs (queues s v))
      \<and> (band_room s q bp \<and> to_serve s q bp \<longrightarrow> q \<in> set (runq s')))
    \<and> (\<exists>s'. putbq q bp s = Some (band_room s q bp, s')
      \<and> q_msgs (queues s' q) = (if band_room s q bp then put_ahead (high_band0 bp) (q_msgs (queues s q))
                                else q_msgs (queues s q))
      \<and> (\<forall>v. v \<noteq> q \<longrightarrow> q_msgs (queues s' v) = q_msgs (queues s v))
      \<and> (band_room s q bp \<and> to_serve s q bp \<longrightarrow> q \<in> set (runq s')))"
  unfolding putq_def putbq_def put_behind_def put_ahead_def
  by (intro conjI put_with_result [OF assms(1) links_behind assms(2)] put_with_result [OF assms(1) links_ahead assms(2)])
     (simp_all add: behind_def ahead_def)

theorem put_places_by_priority_witness:
  "\<exists>s'. putq 3 (demo_msg 4 0 1 2) demo_two = Some (True, s')
     \<and> q_msgs (queues s' 3) = [demo_msg 4 0 1 2, demo_msg 2 0 0 8, demo_msg 3 14 0 4]"
proof -
  have "fits demo_two 3 (demo_msg 4 0 1 2)"
    by (simp add: fits_def demo_simps spans_ok_def high_band0_def queclass_def QPCTL_def QNORM_def msg_bytes_def)
  from put_places_by_priority [OF demo_ok [OF q_ok_demo(1)] this]
  show ?thesis
    by (auto simp: demo_simps band_room_def high_band0_def queclass_def QPCTL_def QNORM_def put_behind_def mkey_def)
qed

text \<open>C36: a service procedure that takes the first message with \<open>getq\<close> and finds no room ahead puts
  it back with \<open>putbq\<close>; this succeeds and leaves the queue with the messages, in their order, and
  the counts of bytes it had before.\<close>

theorem getq_putbq_roundtrip:
  assumes ok: "str_ok s" and msgs: "q_msgs (queues s q) = m # B" and get: "\<not> msgnoget m"
  shows "\<exists>s1 s2. getq q s = Some (Some m, s1) \<and> q_msgs (queues s1 q) = B \<and> putbq q m s1 = Some (True, s2)
    \<and> q_msgs (queues s2 q) = q_msgs (queues s q) \<and> q_count (queues s2 q) = q_count (queues s q)
    \<and> (\<forall>i \<in> {1 .. q_nband (queues s q)}. qb_count (q_bandp (queues s2 q) ! (i - 1)) = qb_count (q_bandp (queues s q) ! (i - 1)))"
proof -
  from getq_head_ok [OF ok msgs get] obtain s1 where run1: "getq q s = Some (Some m, s1)" and t: "taken q m B s s1" by blast
  then have ok1: "str_ok s1" and m1: "q_msgs (queues s1 q) = B" and nb: "q_nband (queues s q) \<le> q_nband (queues s1 q)"
    by (simp_all add: taken_def)
  have q: "q_ok (queues s q)" using ok by (rule str_okD)
  then have m: "msg_ok (q_nband (queues s q)) m" "spans_ok m" "m_addr m \<notin> m_addr ` set B" "\<forall>b \<in> set B. mkey b \<le> mkey m"
    by (auto simp: q_ok_def order_ok_def q_flow_def msgs prio_simps)
  have small: "band_bytes (b_band m) (m # B) < 4294967296" using q unfolding q_ok_def q_flow_def msgs by blast
  have id: "high_band0 m = m" by (rule high_band0_id [OF m(1)])
  have m1ok: "msg_ok (q_nband (queues s1 q)) m" using m(1) nb by (simp add: msg_ok_def)
  have fits: "fits s1 q m" using m small by (simp add: fits_def m1 id msg_ok_def)
  have "ahead (high_band0 m) (q_msgs (queues s1 q)) = ([], B)"
    using m(4) by (cases B) (simp_all add: ahead_def id m1 not_less)
  note put = put_with_ok [OF ok1 links_ahead fits this, unfolded id]
  have enough: "b_band m - q_nband (queues s1 q) = 0" using m1ok by (simp add: msg_ok_def)
  from put obtain s2 where run2: "putbq q m s1 = Some (True, s2)" and m2: "q_msgs (queues s2 q) = m # B"
    and ok2: "str_ok s2"
    unfolding enough putbq_def by auto
  have "order_ok (queues s1 q)" using str_okD [OF ok1] by (simp add: q_ok_def)
  from put_with_nband [OF this m1ok links_ahead] run2 have nb2: "q_nband (queues s1 q) \<le> q_nband (queues s2 q)"
    by (simp add: putbq_def)
  have q2: "q_ok (queues s2 q)" using ok2 by (rule str_okD)
  have cnt: "q_count x = band_bytes 0 (q_msgs x)"
    "i \<in> {1 .. q_nband x} \<Longrightarrow> qb_count (q_bandp x ! (i - 1)) = band_bytes i (q_msgs x)" if "q_ok x" for x i
    using that by (auto simp: q_ok_def order_ok_def q_flow_def bands_flow_def band_flow_def)
  have "\<forall>i \<in> {1 .. q_nband (queues s q)}. qb_count (q_bandp (queues s2 q) ! (i - 1)) = qb_count (q_bandp (queues s q) ! (i - 1))"
    using cnt(2) [OF q] cnt(2) [OF q2] nb nb2 by (auto simp: m2 msgs)
  then show ?thesis using run1 run2 m1 m2 cnt(1) [OF q] cnt(1) [OF q2] by (auto simp: msgs)
qed


theorem getq_putbq_roundtrip_witness:
  "\<exists>s1 s2. getq 3 demo_three = Some (Some (demo_msg 1 0 1 6), s1)
     \<and> q_msgs (queues s1 3) = [demo_msg 2 0 0 8, demo_msg 3 14 0 4]
     \<and> putbq 3 (demo_msg 1 0 1 6) s1 = Some (True, s2) \<and> q_msgs (queues s2 3) = q_msgs (queues demo_three 3)"
proof -
  have "q_msgs (queues demo_three 3) = demo_msg 1 0 1 6 # [demo_msg 2 0 0 8, demo_msg 3 14 0 4]"
    by (simp add: demo_def)
  from getq_putbq_roundtrip [OF demo_ok [OF q_ok_demo(2)] this] show ?thesis by (auto simp: demo_msg_def)
qed

text \<open>C22: \<open>getq\<close> returns, with the first message unless that one is marked not to be got; the rest
  stays as it was, and so do the other queues.  When the bytes left in the band of the message
  are down to the low water mark and a writer of that band waits, the nearest queue back with a
  service procedure is on the run list.\<close>

theorem getq_takes_first:
  assumes "str_ok s" and "q_msgs (queues s q) = m # B" and "\<not> msgnoget m"
  shows "\<exists>s'. getq q s = Some (Some m, s') \<and> q_msgs (queues s' q) = B
    \<and> (\<forall>v. v \<noteq> q \<longrightarrow> q_msgs (queues s' v) = q_msgs (queues s v))
    \<and> (\<forall>n. band_bytes (b_band m) B \<le> band_lowat (b_band m) (queues s q) \<and> want_write (b_band m) (queues s q)
         \<and> back_srv s (backq s q) = Some (Some n) \<longrightarrow> n \<in> set (runq s'))"
  using getq_head_ok [OF assms] unfolding taken_def by blast

theorem getq_takes_first_witness:
  "\<exists>s'. getq 3 demo_two = Some (Some (demo_msg 2 0 0 8), s') \<and> q_msgs (queues s' 3) = [demo_msg 3 14 0 4]"
proof -
  have "q_msgs (queues demo_two 3) = demo_msg 2 0 0 8 # [demo_msg 3 14 0 4]"
    by (simp add: demo_def)
  from getq_takes_first [OF demo_ok [OF q_ok_demo(1)] this] show ?thesis by (auto simp: demo_msg_def)
qed

text \<open>\<open>canput\<close> returns, and answers for the nearest queue forward with a service procedure:
  yes, changing nothing, when every band of it has fewer bytes than its high water mark, and
  otherwise no, leaving a note that a writer waits.\<close>

theorem canput_answers:
  assumes ok: "str_ok s"
  shows "\<exists>n. fwd_srv s q = Some n \<and> canput (Some q) s =
    Some (if has_room (queues s n) then (True, s) else (False, upd_q n (\<lambda>x. x\<lparr>qwantw := True\<rparr>) s))"
proof -
  obtain n where n: "fwd_srv s q = Some n" using fwd_srv_ends [OF ok] by blast
  with blocked_iff [OF str_okD [OF ok, of n]] show ?thesis by (auto simp: canput_def)
qed

theorem canput_answers_witness:
  "canput (Some 3) demo_two = Some (False, upd_q 3 (\<lambda>x. x\<lparr>qwantw := True\<rparr>) demo_two)"
proof -
  have "\<not> has_room (queues demo_two 3)"
    by (simp add: has_room_def demo_simps msg_bytes_def)
  with canput_answers [OF demo_ok [OF q_ok_demo(1)], of 3] demo_fwd show ?thesis by auto
qed



text \<open>C37: \<open>flushq\<close> returns, frees every message, or the data messages only, and keeps the others in
  their order; \<open>flushband\<close> does so for the messages of one band, sparing high priority messages.
  A writer that waited for a band which now has room is woken.\<close>

theorem flush_keeps_the_rest:
  assumes "str_ok s"
  shows "(\<exists>s'. flushq q flag s = Some s'
      \<and> q_msgs (queues s' q) = filter (\<lambda>m. \<not> (flag \<or> datamsg (m_type m))) (q_msgs (queues s q))
      \<and> (\<forall>v. v \<noteq> q \<longrightarrow> q_msgs (queues s' v) = q_msgs (queues s v))
      \<and> str_freed s' = rev (filter (\<lambda>m. flag \<or> datamsg (m_type m)) (q_msgs (queues s q))) @ str_freed s
      \<and> (\<forall>n i. room_for i (q_msgs (queues s' q)) (queues s q) \<and> back_srv s (backq s q) = Some (Some n)
           \<longrightarrow> n \<in> set (runq s')))
    \<and> (\<exists>s'. flushband q pri flag s = Some s'
      \<and> q_msgs (queues s' q)
          = filter (\<lambda>m. \<not> (b_band m = pri \<and> m_type m < QPCTL \<and> (flag \<or> datamsg (m_type m)))) (q_msgs (queues s q))
      \<and> (\<forall>v. v \<noteq> q \<longrightarrow> q_msgs (queues s' v) = q_msgs (queues s v))
      \<and> str_freed s' = rev (filter (\<lambda>m. b_band m = pri \<and> m_type m < QPCTL \<and> (flag \<or> datamsg (m_type m)))
          (q_msgs (queues s q))) @ str_freed s)"
proof -
  let ?all = "\<lambda>m. flag \<or> datamsg (m_type m)" and ?ms = "q_msgs (queues s q)"
  let ?one = "\<lambda>m. b_band m = pri \<and> m_type m < QPCTL \<and> (flag \<or> datamsg (m_type m))"
  from flushq_ok [OF assms, of q flag] obtain s1 where "flushq q flag s = Some s1"
    and "flushed q (filter (\<lambda>m. \<not> ?all m) ?ms) (filter ?all ?ms) s s1"
    and "\<And>n i. room_for i (filter (\<lambda>m. \<not> ?all m) ?ms) (queues s q) \<and> back_srv s (backq s q) = Some (Some n)
      \<Longrightarrow> n \<in> set (runq s1)"
    by blast
  note all = this
  have "\<exists>s2. flushband q pri flag s = Some s2 \<and> flushed q (filter (\<lambda>m. \<not> ?one m) ?ms) (filter ?one ?ms) s s2"
  proof (cases "pri = 0")
    case True
    with flushband0_ok [OF assms, of q flag] show ?thesis by blast
  next
    case False
    have norm: "?one m \<longleftrightarrow> b_band m = pri \<and> ?all m" if "m \<in> set ?ms" for m
    proof -
      have "msg_ok (q_nband (queues s q)) m" using str_okD [OF assms, of q] that by (simp add: q_ok_def order_ok_def)
      with False show ?thesis by (cases "m_type m < QPCTL") (auto simp: msg_ok_def not_less)
    qed
    then have "filter ?one ?ms = filter (\<lambda>m. b_band m = pri \<and> ?all m) ?ms"
      "filter (\<lambda>m. \<not> ?one m) ?ms = filter (\<lambda>m. \<not> (b_band m = pri \<and> ?all m)) ?ms"
      by (auto intro!: filter_cong)
    with flushband_ok [OF assms False, of q flag] show ?thesis by simp
  qed
  then obtain s2 where "flushband q pri flag s = Some s2" "flushed q (filter (\<lambda>m. \<not> ?one m) ?ms) (filter ?one ?ms) s s2"
    by blast
  note one = this
  have kept: "q_msgs (queues s1 q) = filter (\<lambda>m. \<not> ?all m) ?ms" using all(2) unfolding flushed_def by blast
  have wake: "\<forall>n i. room_for i (q_msgs (queues s1 q)) (queues s q) \<and> back_srv s (backq s q) = Some (Some n) \<longrightarrow> n \<in> set (runq s1)"
    unfolding kept using all(3) by blast
  show ?thesis
  proof (rule conjI)
    show "\<exists>s'. flushq q flag s = Some s' \<and> q_msgs (queues s' q) = filter (\<lambda>m. \<not> ?all m) ?ms
        \<and> (\<forall>v. v \<noteq> q \<longrightarrow> q_msgs (queues s' v) = q_msgs (queues s v))
        \<and> str_freed s' = rev (filter ?all ?ms) @ str_freed s
        \<and> (\<forall>n i. room_for i (q_msgs (queues s' q)) (queues s q) \<and> back_srv s (backq s q) = Some (Some n)
             \<longrightarrow> n \<in> set (runq s'))"
      using all(1,2) wake unfolding flushed_def by blast
    show "\<exists>s'. flushband q pri flag s = Some s' \<and> q_msgs (queues s' q) = filter (\<lambda>m. \<not> ?one m) ?ms
        \<and> (\<forall>v. v \<noteq> q \<longrightarrow> q_msgs (queues s' v) = q_msgs (queues s v))
        \<and> str_freed s' = rev (filter ?one ?ms) @ str_freed s"
      using one unfolding flushed_def by blast
  qed
qed

theorem flush_keeps_the_rest_witness:
  "\<exists>s'. flushq 3 False demo_three = Some s' \<and> q_msgs (queues s' 3) = [demo_msg 3 14 0 4]"
  using flush_keeps_the_rest [OF demo_ok [OF q_ok_demo(2)], of 3 False 0]
  by (auto simp: demo_def demo_msg_def datamsg_def)




text \<open>A high or low water mark set with \<open>strqset\<close> is the one \<open>strqget\<close> answers, for the queue and
  for a band, as 32 bits unsigned; the second call changes nothing.\<close>

theorem strqset_strqget_roundtrip:
  assumes "str_ok s" and "pri \<le> 255" and what: "what = QHIWAT \<or> what = QLOWAT"
    and set: "strqset q what pri v s = (None, s1)"
  shows "strqget q what pri s1 = (Ok (QNum (u32 v)), s1)"
proof (cases "pri = 0")
  case True
  with what set show ?thesis by (auto simp: strqset_def strqget_def Let_def)
next
  case False
  obtain b t where hb: "have_band q pri s = (b, t)" by (metis surj_pair)
  have "b" using set what False hb by (cases b) (auto simp: strqset_def)
  note h = have_band_ok [OF str_okD [OF assms(1)] assms(2) hb]
  have len: "pri \<le> q_nband (queues t q)" "length (q_bandp (queues t q)) = q_nband (queues t q)"
    using h(1,5) \<open>b\<close> by (simp_all add: q_ok_def order_ok_def)
  have s1: "s1 = upd_q q (upd_band pri (\<lambda>b. if what = QHIWAT then b\<lparr>qb_hiwat := u32 v\<rparr> else b\<lparr>qb_lowat := u32 v\<rparr>)) t"
    using set what False hb \<open>b\<close> by (auto simp: strqset_def)
  have "have_band q pri s1 = (True, s1)" using len(1) by (intro have_band_enough) (simp add: s1)
  moreover have "q_bandp (queues s1 q) ! (pri - 1)
      = (let b = q_bandp (queues t q) ! (pri - 1) in if what = QHIWAT then b\<lparr>qb_hiwat := u32 v\<rparr> else b\<lparr>qb_lowat := u32 v\<rparr>)"
    using len False by (simp add: s1 upd_band_def Let_def)
  ultimately show ?thesis using False what by (auto simp: strqget_def Let_def)
qed

theorem strqset_strqget_roundtrip_witness:
  "\<exists>s1. strqset 3 QHIWAT 2 (-1) demo_three = (None, s1) \<and> strqget 3 QHIWAT 2 s1 = (Ok (QNum 4294967295), s1)"
proof -
  have set: "fst (strqset 3 QHIWAT 2 (-1) demo_three) = None"
    by (simp add: strqset_def have_band_def demo_simps)
  have "strqget 3 QHIWAT 2 (snd (strqset 3 QHIWAT 2 (-1) demo_three)) = (Ok (QNum (u32 (-1))), snd (strqset 3 QHIWAT 2 (-1) demo_three))"
    by (rule strqset_strqget_roundtrip [OF demo_ok [OF q_ok_demo(2)]]) (use set in \<open>simp_all add: prod_eq_iff\<close>)
  moreover have "u32 (-1) = 4294967295" by (simp add: u32_def)
  ultimately show ?thesis using set by (metis prod.collapse)
qed

text \<open>C38: \<open>insq\<close> at the end of the queue, its second argument NULL, leaves the last-message pointer
  of a band that has messages already; the next \<open>putq\<close> of that band then links its message ahead
  of the one inserted, and overtakes it.\<close>

theorem insq_at_end_overtaken:
  "map m_addr (q_msgs (queues (snd (the (putq 3 (demo_msg 6 0 1 1)
     (snd (insq 3 None (demo_msg 5 0 1 1) (demo [demo_msg 1 0 1 6] 0 [demo_band (Some 1) (Some 1) 6])))))) 3)) = [1, 6, 5]
   \<and> str_ok (demo [demo_msg 1 0 1 6] 0 [demo_band (Some 1) (Some 1) 6])"
proof
  have "q_ok (queues (demo [demo_msg 1 0 1 6] 0 [demo_band (Some 1) (Some 1) 6]) 3)"
    by (auto simp: demo_simps q_ok_def order_ok_def ptrs_ok_def msg_ok_def QPCTL_def mkey_def prio_sorted_def q_flow_def
      bands_flow_def band_flow_def msg_bytes_def spans_ok_def le_Suc_eq)
  then show "str_ok (demo [demo_msg 1 0 1 6] 0 [demo_band (Some 1) (Some 1) 6])" by (rule demo_ok)
  let ?s = "demo [demo_msg 1 0 1 6] 0 [demo_band (Some 1) (Some 1) 6]"
  have one: "q_msgs (queues (snd (insq 3 None (demo_msg 5 0 1 1) ?s)) 3) = [demo_msg 1 0 1 6, demo_msg 5 0 1 1]"
    "q_nband (queues (snd (insq 3 None (demo_msg 5 0 1 1) ?s)) 3) = 1"
    "qb_first (q_bandp (queues (snd (insq 3 None (demo_msg 5 0 1 1) ?s)) 3) ! 0) = Some 1"
    "qb_last (q_bandp (queues (snd (insq 3 None (demo_msg 5 0 1 1) ?s)) 3) ! 0) = Some 1"
    "q_bandp (queues (snd (insq 3 None (demo_msg 5 0 1 1) ?s)) 3) \<noteq> []"
    by (simp_all add: insq_def insq_badord_def insq_band_def high_band0_def queclass_def QPCTL_def QNORM_def have_band_def
      demo_simps upd_band_def count_in_def count_add_def Let_def u32_def canenable_def)
  from one show "map m_addr (q_msgs (queues (snd (the (putq 3 (demo_msg 6 0 1 1) (snd (insq 3 None (demo_msg 5 0 1 1) ?s))))) 3)) = [1, 6, 5]"
    by (simp add: putq_def put_with_def putq_link_def high_band0_def queclass_def QPCTL_def QNORM_def have_band_def
      put_enable_def qenable_def demo_msg_def upd_band_def Let_def)
qed

end
