(* ===== verification/Bitmaps.thy ===== *)
theory Bitmaps
  imports Kernel_Prelude
begin

text \<open>
  Bitmaps of the kernel (\<open>util/bitmap.h\<close>, \<open>util/bitmap.c\<close>): vectors of 32-bit words.  The searches
  are proved equal to what they look for: \<open>bt_availbit\<close> the least bit that is off,
  \<open>bt_gethighbit\<close> the greatest that is on, \<open>bt_range\<close> the next run of bits that are on.
\<close>

unbundle bit_operations_syntax

type_synonym ulong = "32 word"

definition BT_NBIPUL :: nat where "BT_NBIPUL = 32"
definition BT_ULSHIFT :: nat where "BT_ULSHIFT = 5"
definition BT_ULMASK :: nat where "BT_ULMASK = 31"

section \<open>The macros\<close>

definition BT_WIM :: "ulong list \<Rightarrow> nat \<Rightarrow> ulong" where
  "BT_WIM bitmap i = bitmap ! drop_bit BT_ULSHIFT i"

definition BT_BIW :: "nat \<Rightarrow> ulong" where
  "BT_BIW i = push_bit (i AND BT_ULMASK) 1"

definition BT_TEST :: "ulong list \<Rightarrow> nat \<Rightarrow> bool" where
  "BT_TEST bitmap i \<longleftrightarrow> BT_WIM bitmap i AND BT_BIW i \<noteq> 0"

definition BT_SET :: "ulong list \<Rightarrow> nat \<Rightarrow> ulong list" where
  "BT_SET bitmap i = bitmap[drop_bit BT_ULSHIFT i := BT_WIM bitmap i OR BT_BIW i]"

definition BT_CLEAR :: "ulong list \<Rightarrow> nat \<Rightarrow> ulong list" where
  "BT_CLEAR bitmap i = bitmap[drop_bit BT_ULSHIFT i := BT_WIM bitmap i AND NOT (BT_BIW i)]"

section \<open>The searches\<close>

text \<open>The first word with a bit off, from \<open>wx\<close> on; a word index is a short, as is the result.\<close>

function avail_word :: "ulong list \<Rightarrow> int \<Rightarrow> int \<Rightarrow> int" where
  "avail_word bitmap maxword wx =
     (if wx \<le> maxword then
        if bitmap ! nat wx \<noteq> -1 then wx else avail_word bitmap maxword (wx + 1)
      else wx)"
  by pat_completeness auto
termination by (relation "measure (\<lambda>(b, m, w). nat (m + 1 - w))") auto

function avail_bit :: "ulong \<Rightarrow> int \<Rightarrow> int \<Rightarrow> ulong \<Rightarrow> int option" where
  "avail_bit word maxbit bx bt =
     (if bx \<le> maxbit then
        if word AND bt = 0 then Some bx else avail_bit word maxbit (bx + 1) (push_bit 1 bt)
      else None)"
  by pat_completeness auto
termination by (relation "measure (\<lambda>(w, m, b, t). nat (m + 1 - b))") auto

definition bt_availbit :: "ulong list \<Rightarrow> nat \<Rightarrow> int" where
  "bt_availbit bitmap nbits =
     (let nbits = nat (u32 (int nbits - 1));
          maxword = s16 (int (drop_bit BT_ULSHIFT nbits));
          wx = avail_word bitmap maxword 0 in
      if wx \<le> maxword then
        let maxbit = (if wx = maxword then int (nbits AND BT_ULMASK) else int BT_NBIPUL - 1) in
        case avail_bit (bitmap ! nat wx) maxbit 0 1 of
          Some bx \<Rightarrow> s16 (push_bit BT_ULSHIFT wx OR bx)
        | None \<Rightarrow> -1
      else -1)"

text \<open>The binary search for the highest bit of a word.\<close>

definition high_bit :: "ulong \<Rightarrow> nat" where
  "high_bit word =
     (if word AND 0xffff0000 \<noteq> 0 then
        if word AND 0xff000000 \<noteq> 0 then
          if word AND 0xf0000000 \<noteq> 0 then
            if word AND 0xc0000000 \<noteq> 0 then
              if word AND 0x80000000 \<noteq> 0 then 31 else 30
            else if word AND 0x20000000 \<noteq> 0 then 29 else 28
          else if word AND 0x0c000000 \<noteq> 0 then
            if word AND 0x08000000 \<noteq> 0 then 27 else 26
          else if word AND 0x02000000 \<noteq> 0 then 25 else 24
        else if word AND 0x00f00000 \<noteq> 0 then
          if word AND 0x00c00000 \<noteq> 0 then
            if word AND 0x00800000 \<noteq> 0 then 23 else 22
          else if word AND 0x00200000 \<noteq> 0 then 21 else 20
        else if word AND 0x000c0000 \<noteq> 0 then
          if word AND 0x00080000 \<noteq> 0 then 19 else 18
        else if word AND 0x00020000 \<noteq> 0 then 17 else 16
      else if word AND 0x0000ff00 \<noteq> 0 then
        if word AND 0x0000f000 \<noteq> 0 then
          if word AND 0x0000c000 \<noteq> 0 then
            if word AND 0x00008000 \<noteq> 0 then 15 else 14
          else if word AND 0x00002000 \<noteq> 0 then 13 else 12
        else if word AND 0x00000c00 \<noteq> 0 then
          if word AND 0x00000800 \<noteq> 0 then 11 else 10
        else if word AND 0x00000200 \<noteq> 0 then 9 else 8
      else if word AND 0x000000f0 \<noteq> 0 then
        if word AND 0x000000c0 \<noteq> 0 then
          if word AND 0x00000080 \<noteq> 0 then 7 else 6
        else if word AND 0x00000020 \<noteq> 0 then 5 else 4
      else if word AND 0x0000000c \<noteq> 0 then
        if word AND 0x00000008 \<noteq> 0 then 3 else 2
      else if word AND 0x00000002 \<noteq> 0 then 1 else 0)"

fun bt_gethighbit :: "ulong list \<Rightarrow> nat \<Rightarrow> int" where
  "bt_gethighbit mapp wx =
     (if mapp ! wx = 0 then (case wx of 0 \<Rightarrow> -1 | Suc w \<Rightarrow> bt_gethighbit mapp w)
      else int (push_bit BT_ULSHIFT wx OR high_bit (mapp ! wx)))"

text \<open>\<open>bt_range\<close> returns the new \<open>pos1\<close> and \<open>pos2\<close>, \<open>None\<close> for 0.\<close>

function skip_bits :: "bool \<Rightarrow> ulong list \<Rightarrow> nat \<Rightarrow> nat \<Rightarrow> nat" where
  "skip_bits on bitmap nbits inx =
     (if inx < nbits \<and> BT_TEST bitmap inx = on then skip_bits on bitmap nbits (inx + 1) else inx)"
  by pat_completeness auto
termination by (relation "measure (\<lambda>(on, b, n, i). n - i)") auto

definition bt_range :: "ulong list \<Rightarrow> nat \<Rightarrow> nat \<Rightarrow> (nat \<times> int) option" where
  "bt_range bitmap pos1 nbits =
     (let inx = skip_bits False bitmap nbits pos1 in
      if inx = nbits then None
      else let end1 = skip_bits True bitmap nbits inx in Some (inx, u32 (int end1 - 1)))"

declare avail_word.simps [simp del] avail_bit.simps [simp del] skip_bits.simps [simp del]
  bt_gethighbit.simps [simp del]

section \<open>Bits\<close>

lemma shift_div [simp]: "drop_bit BT_ULSHIFT (i::nat) = i div 32"
  by (simp add: BT_ULSHIFT_def drop_bit_eq_div)

lemma mask_mod [simp]: "(i::nat) AND BT_ULMASK = i mod 32"
proof -
  have "BT_ULMASK = mask 5" by (simp add: BT_ULMASK_def mask_eq_exp_minus_1)
  then have "i AND BT_ULMASK = take_bit 5 i" by (metis take_bit_eq_mask)
  then show ?thesis by (simp add: take_bit_eq_mod)
qed

lemma bit_BIW: "bit (BT_BIW i) n \<longleftrightarrow> n = i mod 32"
proof -
  have "i mod 32 < 32" by simp
  then show ?thesis by (auto simp: BT_BIW_def bit_simps)
qed

lemma BT_TEST_bit: "BT_TEST bitmap i \<longleftrightarrow> bit (bitmap ! (i div 32)) (i mod 32)"
proof -
  have "BT_BIW i = push_bit (i mod 32) 1" by (simp add: BT_BIW_def)
  then show ?thesis by (simp add: BT_TEST_def BT_WIM_def and_exp_eq_0_iff_not_bit)
qed

lemma BT_TEST_at: "b < 32 \<Longrightarrow> BT_TEST m (32 * w + b) \<longleftrightarrow> bit (m ! w) b"
  by (simp add: BT_TEST_bit)

lemma BT_TEST_SET: "i div 32 < length m \<Longrightarrow> BT_TEST (BT_SET m i) j \<longleftrightarrow> j = i \<or> BT_TEST m j"
  by (cases "j div 32 = i div 32")
    (auto simp: BT_TEST_bit BT_SET_def BT_WIM_def bit_or_iff bit_BIW, metis div_mult_mod_eq)

lemma BT_TEST_CLEAR: "i div 32 < length m \<Longrightarrow> BT_TEST (BT_CLEAR m i) j \<longleftrightarrow> j \<noteq> i \<and> BT_TEST m j"
  by (cases "j div 32 = i div 32")
    (auto simp: BT_TEST_bit BT_CLEAR_def BT_WIM_def bit_and_iff bit_not_iff bit_BIW, metis div_mult_mod_eq)

lemma length_BT [simp]: "length (BT_SET m i) = length m" "length (BT_CLEAR m i) = length m"
  by (simp_all add: BT_SET_def BT_CLEAR_def)

lemma small_bits: "b < 32 \<Longrightarrow> bit (b::nat) n \<Longrightarrow> n < 5"
  using take_bit_nat_eq_self [of b 5] bit_take_bit_iff [of 5 b n] by simp

text \<open>Put a word number and a bit number together.\<close>

lemma word_bit_index: "b < 32 \<Longrightarrow> push_bit BT_ULSHIFT w OR b = 32 * w + (b::nat)"
proof -
  assume b: "b < 32"
  have "bit b n \<Longrightarrow> n < 5" for n using b by (rule small_bits)
  then have "push_bit 5 w AND b = 0" by (intro bit_eqI) (auto simp: bit_and_iff bit_push_bit_iff dest: leD)
  then have "push_bit 5 w OR b = push_bit 5 w + b" by (simp add: disjunctive_add_eq_or)
  then show ?thesis by (simp add: BT_ULSHIFT_def push_bit_eq_mult)
qed


section \<open>The highest bit\<close>

text \<open>A test against a mask of the bits from \<open>a\<close> to \<open>b - 1\<close> is a comparison once the bits from \<open>b\<close>
on are known to be off.\<close>

lemma test_range:
  fixes w :: ulong
  assumes "uint w < 2 ^ b" "a \<le> b"
  shows "w AND (2 ^ (b - a) - 1) * 2 ^ a = 0 \<longleftrightarrow> uint w < 2 ^ a"
proof -
  have "w AND push_bit a (mask (b - a)) = (w AND mask b) AND NOT (mask a)"
    using assms(2) by (simp add: push_bit_mask_eq and.assoc)
  also have "w AND mask b = w" using assms(1) by (simp add: mask_eq_iff)
  also have "w AND NOT (mask a) = 0 \<longleftrightarrow> w AND mask a = w"
    by (auto simp: bit_eq_iff bit_simps)
  finally show ?thesis using mask_eq_iff [of w a] by (simp add: push_bit_eq_mult mask_eq_exp_minus_1)
qed

lemmas high_bit_tests =
  test_range [of _ 32 16, simplified] test_range [of _ 32 24, simplified]
  test_range [of _ 32 28, simplified] test_range [of _ 32 30, simplified]
  test_range [of _ 32 31, simplified] test_range [of _ 30 29, simplified]
  test_range [of _ 28 26, simplified] test_range [of _ 28 27, simplified]
  test_range [of _ 26 25, simplified] test_range [of _ 24 20, simplified]
  test_range [of _ 24 22, simplified] test_range [of _ 24 23, simplified]
  test_range [of _ 22 21, simplified] test_range [of _ 20 18, simplified]
  test_range [of _ 20 19, simplified] test_range [of _ 18 17, simplified]
  test_range [of _ 16 8, simplified] test_range [of _ 16 12, simplified]
  test_range [of _ 16 14, simplified] test_range [of _ 16 15, simplified]
  test_range [of _ 14 13, simplified] test_range [of _ 12 10, simplified]
  test_range [of _ 12 11, simplified] test_range [of _ 10 9, simplified]
  test_range [of _ 8 4, simplified] test_range [of _ 8 6, simplified]
  test_range [of _ 8 7, simplified] test_range [of _ 6 5, simplified]
  test_range [of _ 4 2, simplified] test_range [of _ 4 3, simplified]
  test_range [of _ 2 1, simplified]

lemma high_bit_bounds:
  assumes "word \<noteq> 0" shows "2 ^ high_bit word \<le> uint word" "uint word < 2 * 2 ^ high_bit word"
proof -
  have pos: "1 \<le> uint word" using assms by (metis int_one_le_iff_zero_less uint_0_iff uint_ge_0 less_le)
  have lim: "uint word < 4294967296" using uint_lt2p [of word] by simp
  have "2 ^ high_bit word \<le> uint word \<and> uint word < 2 * 2 ^ high_bit word"
    unfolding high_bit_def using pos lim
    by (simp add: high_bit_tests not_less split: if_split)
  then show "2 ^ high_bit word \<le> uint word" "uint word < 2 * 2 ^ high_bit word" by simp_all
qed

lemma high_bit_greatest:
  assumes "word \<noteq> 0"
  shows "bit word (high_bit word)" "bit word n \<Longrightarrow> n \<le> high_bit word" "high_bit word < 32"
proof -
  have "uint word div 2 ^ high_bit word = 1"
    using high_bit_bounds [OF assms] by (intro int_div_pos_eq [where r = "uint word - 2 ^ high_bit word"]) auto
  then show "bit word (high_bit word)" by (metis bit_iff_odd bit_uint_iff odd_one)
  then show "high_bit word < 32" by (auto dest: bit_imp_le_length)
  show "n \<le> high_bit word" if "bit word n"
  proof (rule ccontr)
    assume "\<not> n \<le> high_bit word"
    then have "(2::int) ^ Suc (high_bit word) \<le> 2 ^ n" by (intro power_increasing) auto
    then have "uint word < 2 ^ n" using high_bit_bounds [OF assms] by simp
    then have "\<not> bit (uint word) n" by (simp add: bit_iff_odd)
    then show False using that by (metis bit_uint_iff bit_imp_le_length)
  qed
qed

text \<open>The greatest bit that is on in the words up to \<open>wx\<close>.\<close>

lemma bt_gethighbit_greatest:
  assumes "BT_TEST m i" "i < 32 * (wx + 1)" "\<And>j. BT_TEST m j \<Longrightarrow> j < 32 * (wx + 1) \<Longrightarrow> j \<le> i"
  shows "bt_gethighbit m wx = int i"
  using assms
proof (induction wx)
  case 0
  then have i: "i div 32 = 0" "i mod 32 = i" by auto
  with 0 have on: "bit (m ! 0) i" by (simp add: BT_TEST_bit)
  then have nz: "m ! 0 \<noteq> 0" by auto
  have "BT_TEST m (high_bit (m ! 0))" using high_bit_greatest [OF nz] by (simp add: BT_TEST_bit)
  then have "high_bit (m ! 0) \<le> i" using 0 high_bit_greatest(3) [OF nz] by simp
  moreover have "i \<le> high_bit (m ! 0)" using high_bit_greatest(2) [OF nz on] .
  ultimately show ?case using nz by (subst bt_gethighbit.simps) simp
next
  case (Suc w)
  show ?case
  proof (cases "m ! Suc w = 0")
    case True
    have below: "j < 32 * (w + 1)" if "BT_TEST m j" "j < 32 * (Suc w + 1)" for j
    proof (rule ccontr)
      assume "\<not> j < 32 * (w + 1)"
      then have "j div 32 = Suc w" using that(2) by (intro div_nat_eqI) auto
      then show False using that(1) True by (simp add: BT_TEST_bit)
    qed
    have "bt_gethighbit m w = int i" using Suc below by auto
    then show ?thesis using True by (subst bt_gethighbit.simps) simp
  next
    case nz: False
    let ?h = "32 * Suc w + high_bit (m ! Suc w)"
    have "BT_TEST m ?h" by (rule BT_TEST_at [THEN iffD2]) (fact high_bit_greatest [OF nz])+
    then have le: "?h \<le> i" using Suc.prems(3) [of ?h] high_bit_greatest(3) [OF nz] by simp
    then have "i div 32 = Suc w" using Suc.prems(2) by (intro div_nat_eqI) auto
    then have "bit (m ! Suc w) (i mod 32)" "i = 32 * Suc w + i mod 32"
      using Suc.prems(1) mult_div_mod_eq [of 32 i] by (simp_all only: BT_TEST_bit)
    then have "i \<le> ?h" using high_bit_greatest(2) [OF nz, of "i mod 32"] by linarith
    then have "i = ?h" using le by simp
    then show ?thesis using nz high_bit_greatest(3) [OF nz]
      by (subst bt_gethighbit.simps) (simp add: word_bit_index)
  qed
qed

lemma bt_gethighbit_none:
  "(\<And>j. j < 32 * (wx + 1) \<Longrightarrow> \<not> BT_TEST m j) \<Longrightarrow> bt_gethighbit m wx = -1"
proof (induction wx)
  case 0
  have "m ! 0 = 0"
  proof (rule ccontr)
    assume "m ! 0 \<noteq> 0"
    then show False using high_bit_greatest [of "m ! 0"] 0 [of "high_bit (m ! 0)"] by (simp add: BT_TEST_bit)
  qed
  then show ?case by (subst bt_gethighbit.simps) simp
next
  case (Suc w)
  have "m ! Suc w = 0"
  proof (rule ccontr)
    assume "m ! Suc w \<noteq> 0"
    then show False
      using high_bit_greatest(1,3) [of "m ! Suc w"] Suc.prems [of "32 * Suc w + high_bit (m ! Suc w)"]
        BT_TEST_at [of "high_bit (m ! Suc w)" m "Suc w"] by simp
  qed
  then show ?case using Suc by (subst bt_gethighbit.simps) simp
qed

section \<open>Free bits and runs\<close>

lemma skip_bits_spec:
  assumes "pos \<le> n"
  shows "pos \<le> skip_bits on m n pos" "skip_bits on m n pos \<le> n"
    "\<And>i. pos \<le> i \<Longrightarrow> i < skip_bits on m n pos \<Longrightarrow> BT_TEST m i = on"
    "skip_bits on m n pos < n \<Longrightarrow> BT_TEST m (skip_bits on m n pos) \<noteq> on"
proof -
  have "pos \<le> n \<Longrightarrow> pos \<le> skip_bits on m n pos \<and> skip_bits on m n pos \<le> n
      \<and> (\<forall>i. pos \<le> i \<and> i < skip_bits on m n pos \<longrightarrow> BT_TEST m i = on)
      \<and> (skip_bits on m n pos < n \<longrightarrow> BT_TEST m (skip_bits on m n pos) \<noteq> on)"
  proof (induction on m n pos rule: skip_bits.induct)
    case (1 on m n pos)
    show ?case
    proof (cases "pos < n \<and> BT_TEST m pos = on")
      case True
      then have e: "skip_bits on m n pos = skip_bits on m n (pos + 1)" by (subst skip_bits.simps) simp
      have "BT_TEST m i = on" if "pos \<le> i" "i < skip_bits on m n pos" for i
        using 1 True that e by (cases "i = pos") (auto simp: Suc_le_eq)
      then show ?thesis using 1 True e by (auto simp: Suc_le_eq)
    next
      case False
      then have "skip_bits on m n pos = pos" by (subst skip_bits.simps) (simp only: if_False)
      then show ?thesis using False 1 by auto
    qed
  qed
  then show "pos \<le> skip_bits on m n pos" "skip_bits on m n pos \<le> n"
    "\<And>i. pos \<le> i \<Longrightarrow> i < skip_bits on m n pos \<Longrightarrow> BT_TEST m i = on"
    "skip_bits on m n pos < n \<Longrightarrow> BT_TEST m (skip_bits on m n pos) \<noteq> on"
    using assms by auto
qed

text \<open>\<open>bt_range\<close> gives the first run of bits on at or after \<open>pos1\<close>, whole, and fails when there is none.\<close>

lemma bt_range_run:
  assumes "pos1 \<le> nbits" "nbits < 4294967296"
  shows "case bt_range m pos1 nbits of
      None \<Rightarrow> \<forall>i. pos1 \<le> i \<and> i < nbits \<longrightarrow> \<not> BT_TEST m i
    | Some (p1, p2) \<Rightarrow> pos1 \<le> p1 \<and> int p1 \<le> p2 \<and> p2 < int nbits
        \<and> (\<forall>i. pos1 \<le> i \<and> i < p1 \<longrightarrow> \<not> BT_TEST m i) \<and> (\<forall>i. p1 \<le> i \<and> int i \<le> p2 \<longrightarrow> BT_TEST m i)
        \<and> (p2 + 1 < int nbits \<longrightarrow> \<not> BT_TEST m (nat (p2 + 1)))"
proof -
  define p where "p = skip_bits False m nbits pos1"
  note p = skip_bits_spec [OF assms(1), where on = False and m = m, folded p_def]
  show ?thesis
  proof (cases "p = nbits")
    case True
    then show ?thesis using p by (auto simp: bt_range_def p_def [symmetric])
  next
    case False
    then have lt: "p < nbits" using p by simp
    define e where "e = skip_bits True m nbits p"
    note e = skip_bits_spec [OF less_imp_le [OF lt], where on = True and m = m, folded e_def]
    have "e = skip_bits True m nbits (p + 1)"
      using p(4) lt unfolding e_def by (subst skip_bits.simps) simp
    then have pe: "p < e" using skip_bits_spec(1) [where pos = "p + 1" and n = nbits and on = True and m = m] lt by simp
    then have "u32 (int e - 1) = int (e - 1)" using e assms by (simp add: u32_def)
    then have r: "bt_range m pos1 nbits = Some (p, int (e - 1))"
      using False by (simp add: bt_range_def p_def [symmetric] e_def [symmetric])
    have n: "nat (int (e - 1) + 1) = e" using pe by simp
    show ?thesis unfolding r using p e pe lt n by (auto simp: nat_less_iff)
  qed
qed

lemma avail_word_spec:
  assumes "0 \<le> wx" "wx \<le> mw + 1"
  shows "wx \<le> avail_word m mw wx" "avail_word m mw wx \<le> mw + 1"
    "\<And>i. wx \<le> int i \<Longrightarrow> int i < avail_word m mw wx \<Longrightarrow> m ! i = -1"
    "avail_word m mw wx \<le> mw \<Longrightarrow> m ! nat (avail_word m mw wx) \<noteq> -1"
proof -
  have "0 \<le> wx \<Longrightarrow> wx \<le> mw + 1 \<Longrightarrow> wx \<le> avail_word m mw wx \<and> avail_word m mw wx \<le> mw + 1
      \<and> (\<forall>i. wx \<le> int i \<and> int i < avail_word m mw wx \<longrightarrow> m ! i = -1)
      \<and> (avail_word m mw wx \<le> mw \<longrightarrow> m ! nat (avail_word m mw wx) \<noteq> -1)"
  proof (induction m mw wx rule: avail_word.induct)
    case (1 m mw wx)
    show ?case
    proof (cases "wx \<le> mw \<and> m ! nat wx = -1")
      case True
      then have e: "avail_word m mw wx = avail_word m mw (wx + 1)" by (subst avail_word.simps) simp
      have "m ! i = -1" if "wx \<le> int i" "int i < avail_word m mw wx" for i
        using 1 True that e by (cases "int i = wx") (auto simp: zless_iff_Suc_zadd)
      then show ?thesis using 1 True e by auto
    next
      case False
      then have "avail_word m mw wx = wx" by (subst avail_word.simps) auto
      then show ?thesis using False 1 by auto
    qed
  qed
  then show "wx \<le> avail_word m mw wx" "avail_word m mw wx \<le> mw + 1"
    "\<And>i. wx \<le> int i \<Longrightarrow> int i < avail_word m mw wx \<Longrightarrow> m ! i = -1"
    "avail_word m mw wx \<le> mw \<Longrightarrow> m ! nat (avail_word m mw wx) \<noteq> -1"
    using assms by auto
qed

lemma avail_bit_spec:
  "case avail_bit w mb (int bx) (push_bit bx 1) of
      None \<Rightarrow> \<forall>i. bx \<le> i \<and> int i \<le> mb \<longrightarrow> bit w i
    | Some r \<Rightarrow> \<exists>b. r = int b \<and> bx \<le> b \<and> r \<le> mb \<and> \<not> bit w b \<and> (\<forall>i. bx \<le> i \<and> i < b \<longrightarrow> bit w i)"
proof (induction "nat (mb + 1 - int bx)" arbitrary: bx)
  case 0
  then show ?case by (subst avail_bit.simps) auto
next
  case (Suc n)
  then have le: "int bx \<le> mb" by simp
  show ?case
  proof (cases "bit w bx")
    case False
    then show ?thesis using le by (subst avail_bit.simps) (auto simp: and_exp_eq_0_iff_not_bit)
  next
    case True
    then have e: "avail_bit w mb (int bx) (push_bit bx 1) = avail_bit w mb (int (Suc bx)) (push_bit (Suc bx) 1)"
      using le by (subst avail_bit.simps) (simp add: and_exp_eq_0_iff_not_bit add.commute mult.commute)
    have "n = nat (mb + 1 - int (Suc bx))" using Suc.hyps(2) by simp
    note ih = Suc.hyps(1) [OF this]
    have step: "(\<forall>i. bx \<le> i \<and> P i \<longrightarrow> bit w i) \<longleftrightarrow> (\<forall>i. Suc bx \<le> i \<and> P i \<longrightarrow> bit w i)" for P
      using True by (metis Suc_leI le_neq_implies_less Suc_leD)
    show ?thesis unfolding e step using ih by (auto split: option.splits)
  qed
qed

text \<open>\<open>bt_availbit\<close> gives the least bit that is off.\<close>

lemma bt_availbit_least:
  assumes n: "0 < nbits" "nbits \<le> 32768"
  shows "(\<exists>i < nbits. bt_availbit m nbits = int i \<and> \<not> BT_TEST m i \<and> (\<forall>j < i. BT_TEST m j))
    \<or> bt_availbit m nbits = -1 \<and> (\<forall>j < nbits. BT_TEST m j)"
proof -
  define mw where "mw = (nbits - 1) div 32"
  define wx where "wx = nat (avail_word m (int mw) 0)"
  define mb where "mb = (if int wx = int mw then int ((nbits - 1) mod 32) else int BT_NBIPUL - 1)"
  have nb: "nat (u32 (int nbits - 1)) = nbits - 1" using n by (simp add: u32_def)
  have "mw < 1024" using n by (simp add: mw_def less_mult_imp_div_less)
  then have mws: "s16 (int ((nbits - 1) div 32)) = int mw" by (simp add: s16_def mw_def)
  have wx: "avail_word m (int mw) 0 = int wx" "int wx \<le> int mw + 1" "\<And>i. i < wx \<Longrightarrow> m ! i = -1"
    "wx \<le> mw \<Longrightarrow> m ! wx \<noteq> -1"
    using avail_word_spec [where wx = 0 and mw = "int mw" and m = m] by (auto simp: wx_def)
  have ones: "BT_TEST m j" if "j div 32 < wx" for j
    using wx(3) [OF that] by (simp add: BT_TEST_bit)
  have def: "bt_availbit m nbits = (if wx \<le> mw then case avail_bit (m ! wx) mb 0 1 of
      Some bx \<Rightarrow> s16 (push_bit BT_ULSHIFT (int wx) OR bx) | None \<Rightarrow> -1 else -1)"
    unfolding bt_availbit_def nb Let_def shift_div mask_mod mws wx(1) mb_def by simp
  show ?thesis
  proof (cases "wx \<le> mw")
    case False
    have "j div 32 < wx" if "j < nbits" for j
    proof -
      have "j div 32 \<le> mw" unfolding mw_def by (rule div_le_mono) (use that in simp)
      then show ?thesis using False by simp
    qed
    then show ?thesis using False ones by (simp add: def)
  next
    case le: True
    have mb: "mb \<le> 31" "wx = mw \<Longrightarrow> mb = int ((nbits - 1) mod 32)" by (auto simp: mb_def BT_NBIPUL_def)
    have split: "nbits - 1 = 32 * mw + (nbits - 1) mod 32" by (simp add: mw_def)
    show ?thesis
    proof (cases "avail_bit (m ! wx) mb 0 1")
      case (Some r)
      then obtain b where b: "r = int b" "int b \<le> mb" "\<not> bit (m ! wx) b" "\<forall>i < b. bit (m ! wx) i"
        using avail_bit_spec [where w = "m ! wx" and mb = mb and bx = 0] by auto
      let ?i = "32 * wx + b"
      have b32: "b < 32" using b(2) mb(1) by linarith
      have lt: "?i < nbits"
      proof (cases "wx = mw")
        case True
        then have "b \<le> (nbits - 1) mod 32" using b(2) mb(2) by simp
        then have "?i \<le> 32 * mw + (nbits - 1) mod 32" using True by simp
        then show ?thesis using split n by linarith
      next
        case False
        then have "32 * wx + 32 \<le> 32 * mw" using le by simp
        then show ?thesis using split b32 n by linarith
      qed
      have "push_bit BT_ULSHIFT (int wx) OR int b = int (push_bit BT_ULSHIFT wx OR b)"
        by (simp add: of_nat_or_eq of_nat_push_bit)
      also have "\<dots> = int ?i" using b32 by (simp add: word_bit_index)
      finally have res: "bt_availbit m nbits = int ?i"
        using le Some b(1) lt n by (simp add: def s16_def)
      have "BT_TEST m j" if "j < ?i" for j
      proof (cases "j div 32 < wx")
        case False
        moreover have "j div 32 \<le> wx" using that b32 div_le_mono [of j ?i 32] by simp
        ultimately have w: "j div 32 = wx" by simp
        then have "j = 32 * wx + j mod 32" using mult_div_mod_eq [of 32 j] by simp
        then have "j mod 32 < b" using that by linarith
        then show ?thesis using b(4) w by (simp add: BT_TEST_bit)
      qed (rule ones)
      moreover have "\<not> BT_TEST m ?i" using b(3) b32 by (simp add: BT_TEST_at)
      ultimately show ?thesis using lt res by blast
    next
      case None
      then have on: "bit (m ! wx) i" if "int i \<le> mb" for i
        using avail_bit_spec [where w = "m ! wx" and mb = mb and bx = 0] that by auto
      have "wx = mw"
      proof (rule ccontr)
        assume "wx \<noteq> mw"
        then have "bit (m ! wx) i" if "i < 32" for i using on [of i] that by (simp add: mb_def BT_NBIPUL_def)
        then have "m ! wx = -1" by (intro bit_word_eqI) simp
        then show False using wx(4) le by simp
      qed
      have "BT_TEST m j" if "j < nbits" for j
      proof (cases "j div 32 < wx")
        case False
        have "j div 32 \<le> mw" unfolding mw_def by (rule div_le_mono) (use that in simp)
        then have w: "j div 32 = wx" using False \<open>wx = mw\<close> by simp
        then have "j = 32 * mw + j mod 32" using mult_div_mod_eq [of 32 j] \<open>wx = mw\<close> by simp
        then have "j mod 32 \<le> (nbits - 1) mod 32" using that split by linarith
        then show ?thesis using on [of "j mod 32"] mb(2) \<open>wx = mw\<close> w by (simp add: BT_TEST_bit)
      qed (rule ones)
      then show ?thesis using None by (simp add: def)
    qed
  qed
qed

end
