(* ===== verification/Sched_State.thy ===== *)
theory Sched_State
  imports Ipc_Perm Bitmaps "HOL-Library.Monad_Syntax"
begin

text \<open>
  The state of process scheduling (\<open>proc/proc.h\<close>, \<open>proc/disp.h\<close>, \<open>proc/class/ts.h\<close>, \<open>rt.h\<close>).

  The process table holds every process created; a process is known by its index, \<open>NULL\<close> is
  \<open>None\<close>.  The dispatcher queues and the sleep queues are singly linked through \<open>p_link\<close>.  The class
  specific structure of a process is part of its entry: the pointers \<open>ts_procp\<close>, \<open>ts_pstatp\<close>,
  \<open>ts_pprip\<close>, \<open>ts_pflagp\<close> (and \<open>rt_\<close>) lead back to the entry it is in.  The lists of the
  structures of a class are lists of process indices, in list order.

  A pointer that is only used as the address of a sleep channel is an integer.
\<close>

unbundle bit_operations_syntax

section \<open>Constants\<close>

definition SSYS :: bits where "SSYS = 0x1"
definition STRC :: bits where "STRC = 0x2"
definition SNWAKE :: bits where "SNWAKE = 0x8"
definition SLOAD :: bits where "SLOAD = 0x10"
definition SLOCK :: bits where "SLOCK = 0x20"
definition SPRWAKE :: bits where "SPRWAKE = 0x4"
definition SPRSTOP :: bits where "SPRSTOP = 0x100"
definition SPROCIO :: bits where "SPROCIO = 0x400"
definition SULOAD :: bits where "SULOAD = 0x2000"
definition SNOSTOP :: bits where "SNOSTOP = 0x8000"
definition SASLEEP :: bits where "SASLEEP = 0x20000"
definition SUSWAP :: bits where "SUSWAP = 0x40000"
definition SJCTL :: bits where "SJCTL = 0x1000000"
definition SNOWAIT :: bits where "SNOWAIT = 0x2000000"
definition SSWLOCKS :: bits where "SSWLOCKS = 0x10000000"
definition SXSTART :: bits where "SXSTART = 0x20000000"
definition SPSTART :: bits where "SPSTART = 0x40000000"

definition PR_SIGNALLED :: int where "PR_SIGNALLED = 2"

text \<open>The \<open>disp\<close> argument of \<open>sleep\<close>.\<close>

definition PMASK :: bits where "PMASK = 0x7F"     \<comment> \<open>0177\<close>
definition PCATCH :: bits where "PCATCH = 0x100"  \<comment> \<open>0400\<close>
definition PNOSTOP :: bits where "PNOSTOP = 0x200" \<comment> \<open>01000\<close>
definition PZERO :: int where "PZERO = 25"
definition NZERO :: int where "NZERO = 20"

definition dpri :: "bits \<Rightarrow> int" where
  "dpri dsp = uint (dsp AND PMASK)"

definition TSKPRI :: "8 word" where "TSKPRI = 0x01"
definition TSBACKQ :: "8 word" where "TSBACKQ = 0x02"
definition TSFORK :: "8 word" where "TSFORK = 0x04"
definition TS_SLEEPWAIT :: int where "TS_SLEEPWAIT = 4"
definition TS_SLEEPMAX :: int where "TS_SLEEPMAX = 60"
definition TS_NOCHANGE :: int where "TS_NOCHANGE = -32768"

definition RTRAN :: "16 word" where "RTRAN = 0x0001"
definition RTBACKQ :: "16 word" where "RTBACKQ = 0x0002"
definition RT_NOCHANGE :: int where "RT_NOCHANGE = -1"
definition RT_TQINF :: int where "RT_TQINF = -2"
definition RT_TQDEF :: int where "RT_TQDEF = -3"

definition NSLEEPQ :: nat where "NSLEEPQ = 64"

section \<open>Processes\<close>

datatype pstat = SSLEEP | SRUN | SZOMB | SSTOP | SIDL | SONPROC | SXBRK

record tsproc =
  ts_timeleft :: int
  ts_cpupri :: int
  ts_uprilim :: int
  ts_upri :: int
  ts_umdpri :: int
  ts_nice :: int
  ts_flags :: "8 word"
  ts_dispwait :: int
  ts_sleepwait :: int

record rtproc =
  rt_pquantum :: int
  rt_timeleft :: int
  rt_pri :: int
  rt_flags :: "16 word"

text \<open>What \<open>p_clproc\<close> points to; its class is also that of \<open>p_clfuncs\<close>.\<close>

datatype clproc = SysClass | TsClass tsproc | RtClass rtproc

record proc =
  p_stat :: pstat
  p_flag :: bits
  p_pri :: int
  p_wchan :: int          \<comment> \<open>0 is \<open>NULL\<close>\<close>
  p_link :: "nat option"
  p_clproc :: clproc
  p_cred :: cred
  p_addr :: int           \<comment> \<open>address of the entry, a sleep channel\<close>
  p_parent :: int         \<comment> \<open>address of the parent's entry\<close>
  p_trace :: int          \<comment> \<open>address of the \<open>/proc\<close> vnode, 0 is \<open>NULL\<close>\<close>
  p_whystop :: int
  p_whatstop :: int
  p_wcode :: int
  p_wdata :: int
  p_inoutage :: int
  p_slptime :: int
  p_swrss :: int
  p_as :: "int option"    \<comment> \<open>\<open>a_rss\<close> of the address space, if any\<close>

section \<open>The scheduler\<close>

record dispq =
  dq_first :: "nat option"
  dq_last :: "nat option"
  dq_sruncnt :: int

record slpq =
  sq_first :: "nat option"
  sq_last :: "nat option"

record tsdpent =
  ts_globpri :: int
  ts_quantum :: int
  ts_tqexp :: int
  ts_slpret :: int
  ts_maxwait :: int
  ts_lwait :: int

record rtdpent =
  rt_globpri :: int
  rt_quantum :: int

record sched =
  proctab :: "proc list"
  dispqs :: "dispq list"
  dqactmap :: "ulong list"
  srunprocs :: int
  nglobpris :: nat
  maxrunpri :: int
  curproc :: nat
  old_curproc :: nat
  oldproc :: "nat option"
  curpri :: int
  runrun :: int
  kprunrun :: int
  npwakecnt :: int
  idleswtch :: int
  slpqs :: "slpq list"
  runin :: int
  runout :: int
  ts_dptbl :: "tsdpent list"
  rt_dptbl :: "rtdpent list"
  ts_plist :: "nat list"
  rt_plist :: "nat list"

text \<open>The configuration; \<open>sc_names\<close> are the names of the class table.\<close>

record sched_conf =
  v_maxsyspri :: int
  ts_kmdpris :: "int list"
  ts_maxupri :: int
  ts_maxumdpri :: int
  ts_maxkmdpri :: int
  rt_maxpri :: int
  proc_sched :: nat
  runin_chan :: int       \<comment> \<open>address of \<open>runin\<close>\<close>
  runout_chan :: int      \<comment> \<open>address of \<open>runout\<close>\<close>
  trace_off :: int        \<comment> \<open>offset of \<open>p_trace\<close> in a process entry\<close>
  sc_sec :: sec_env

definition upd_proc :: "nat \<Rightarrow> (proc \<Rightarrow> proc) \<Rightarrow> sched \<Rightarrow> sched" where
  "upd_proc p f s = s\<lparr>proctab := (proctab s)[p := f (proctab s ! p)]\<rparr>"

definition set_link :: "nat \<Rightarrow> nat option \<Rightarrow> sched \<Rightarrow> sched" where
  "set_link p l = upd_proc p (\<lambda>x. x\<lparr>p_link := l\<rparr>)"

definition set_stat :: "nat \<Rightarrow> pstat \<Rightarrow> sched \<Rightarrow> sched" where
  "set_stat p st = upd_proc p (\<lambda>x. x\<lparr>p_stat := st\<rparr>)"

definition set_pri :: "nat \<Rightarrow> int \<Rightarrow> sched \<Rightarrow> sched" where
  "set_pri p n = upd_proc p (\<lambda>x. x\<lparr>p_pri := n\<rparr>)"

definition set_flag :: "nat \<Rightarrow> (bits \<Rightarrow> bits) \<Rightarrow> sched \<Rightarrow> sched" where
  "set_flag p f = upd_proc p (\<lambda>x. x\<lparr>p_flag := f (p_flag x)\<rparr>)"

abbreviation pr :: "sched \<Rightarrow> nat \<Rightarrow> proc" where
  "pr s p \<equiv> proctab s ! p"

text \<open>Loaded and not held by \<open>/proc\<close>, or a system process: can be given the processor.\<close>

definition schedulable :: "proc \<Rightarrow> bool" where
  "schedulable x \<longleftrightarrow> p_flag x AND (SLOAD OR SPROCIO) = SLOAD \<or> p_flag x AND SSYS \<noteq> 0"

end
