(* ===== verification/Disp_Queues.thy ===== *)
theory Disp_Queues
  imports Sched_State
begin

text \<open>
  The dispatcher queues (\<open>proc/disp.c\<close>): one queue of runnable processes per global priority, the
  count of the processes on it that can be given the processor, the bitmap of the queues whose
  count is not 0, and the switch to another process.

  The result \<open>None\<close> is a search through \<open>p_link\<close> that does not return: it goes round in a circle, or
  follows a null pointer.  Interrupt levels are left out: every operation runs whole.
\<close>

section \<open>Boot\<close>

text \<open>\<open>maxglobpri\<close> is the greatest priority a class reports.\<close>

definition dispinit :: "int list \<Rightarrow> sched \<Rightarrow> sched" where
  "dispinit cl_maxglobpri s =
     (let maxglobpri = foldl (\<lambda>m c. if m < c then c else m) (-1) cl_maxglobpri;
          n = nat (maxglobpri + 1) in
      s\<lparr>nglobpris := n,
        dispqs := replicate n \<lparr>dq_first = None, dq_last = None, dq_sruncnt = 0\<rparr>,
        dqactmap := replicate (n div BT_NBIPUL + 1) 0,
        srunprocs := 0, maxrunpri := -1\<rparr>)"

section \<open>The counts\<close>

definition dq_sruninc :: "int \<Rightarrow> sched \<Rightarrow> sched" where
  "dq_sruninc pri s =
     (let i = nat pri;
          s = s\<lparr>srunprocs := srunprocs s + 1\<rparr>;
          s = s\<lparr>dispqs := (dispqs s)[i := (dispqs s ! i)\<lparr>dq_sruncnt := dq_sruncnt (dispqs s ! i) + 1\<rparr>]\<rparr> in
      if dq_sruncnt (dispqs s ! i) = 1 then
        let s = s\<lparr>dqactmap := BT_SET (dqactmap s) i\<rparr> in
        if pri > maxrunpri s then s\<lparr>maxrunpri := pri\<rparr> else s
      else s)"

definition dq_srundec :: "int \<Rightarrow> sched \<Rightarrow> sched" where
  "dq_srundec pri s =
     (let i = nat pri;
          s = s\<lparr>srunprocs := srunprocs s - 1\<rparr>;
          s = s\<lparr>dispqs := (dispqs s)[i := (dispqs s ! i)\<lparr>dq_sruncnt := dq_sruncnt (dispqs s ! i) - 1\<rparr>]\<rparr> in
      if dq_sruncnt (dispqs s ! i) = 0 then
        let s = s\<lparr>dqactmap := BT_CLEAR (dqactmap s) i\<rparr> in
        if srunprocs s = 0 then s\<lparr>maxrunpri := -1\<rparr>
        else if pri = maxrunpri s then
          s\<lparr>maxrunpri := bt_gethighbit (dqactmap s) (drop_bit BT_ULSHIFT (nat (maxrunpri s)))\<rparr>
        else s
      else s)"

section \<open>On and off a queue\<close>

definition setbackdq :: "nat \<Rightarrow> sched \<Rightarrow> sched" where
  "setbackdq pp s =
     (let ppri = p_pri (pr s pp); i = nat ppri; dq = dispqs s ! i; s = set_link pp None s;
          s = (case dq_last dq of
                 None \<Rightarrow> s\<lparr>dispqs := (dispqs s)[i := dq\<lparr>dq_first := Some pp, dq_last := Some pp\<rparr>]\<rparr>
               | Some l \<Rightarrow> (set_link l (Some pp) s)\<lparr>dispqs := (dispqs s)[i := dq\<lparr>dq_last := Some pp\<rparr>]\<rparr>) in
      if schedulable (pr s pp) then dq_sruninc ppri s else s)"

definition setfrontdq :: "nat \<Rightarrow> sched \<Rightarrow> sched" where
  "setfrontdq pp s =
     (let ppri = p_pri (pr s pp); i = nat ppri; dq = dispqs s ! i;
          s = (case dq_first dq of
                 None \<Rightarrow> (set_link pp None s)\<lparr>dispqs := (dispqs s)[i := dq\<lparr>dq_first := Some pp, dq_last := Some pp\<rparr>]\<rparr>
               | Some f \<Rightarrow> (set_link pp (Some f) s)\<lparr>dispqs := (dispqs s)[i := dq\<lparr>dq_first := Some pp\<rparr>]\<rparr>) in
      if schedulable (pr s pp) then dq_sruninc ppri s else s)"

text \<open>Look for a process on a queue, with \<open>prp\<close> and \<open>rp\<close>, the process before the next one, and the
next one; it is found behind another one, or at the front.\<close>

datatype dq_found = NotFound | FoundAfter "nat option"

partial_function (option) dq_search :: "sched \<Rightarrow> nat \<Rightarrow> nat option \<times> nat option \<Rightarrow> dq_found option" where
  "dq_search s pp w =
     (case snd w of
        None \<Rightarrow> Some NotFound
      | Some r \<Rightarrow> if r = pp then Some (FoundAfter (fst w)) else dq_search s pp (Some r, p_link (pr s r)))"

text \<open>Take a process off its queue, given the process before it.\<close>

definition dq_unlink :: "nat \<Rightarrow> nat \<Rightarrow> nat option \<Rightarrow> sched \<Rightarrow> sched" where
  "dq_unlink i rp prp s =
     (let dq = dispqs s ! i; nxt = p_link (pr s rp) in
      case prp of
        None \<Rightarrow> s\<lparr>dispqs := (dispqs s)[i := dq\<lparr>dq_first := nxt, dq_last := (if nxt = None then None else dq_last dq)\<rparr>]\<rparr>
      | Some p \<Rightarrow> (set_link p nxt s)\<lparr>dispqs := (dispqs s)[i := dq\<lparr>dq_last := (if nxt = None then Some p else dq_last dq)\<rparr>]\<rparr>)"

definition dispdeq :: "nat \<Rightarrow> sched \<Rightarrow> (bool \<times> sched) option" where
  "dispdeq pp s =
     (let ppri = p_pri (pr s pp); i = nat ppri in
      do {
        found \<leftarrow> dq_search s pp (None, dq_first (dispqs s ! i));
        (case found of
           NotFound \<Rightarrow> Some (False, s)
         | FoundAfter prp \<Rightarrow>
             let s = dq_unlink i pp prp s in
             Some (True, if schedulable (pr s pp) then dq_srundec ppri s else s))
      })"

section \<open>The switch\<close>

text \<open>What happens to the process that gives up the processor.\<close>

definition pswtch_leave :: "sched \<Rightarrow> sched" where
  "pswtch_leave s =
     (let s = s\<lparr>old_curproc := curproc s\<rparr>; pp = curproc s in
      case p_stat (pr s pp) of
        SZOMB \<Rightarrow> s\<lparr>oldproc := Some pp\<rparr>
      | SONPROC \<Rightarrow> set_stat pp SRUN s
      | _ \<Rightarrow> s)"

text \<open>Nothing to run: the processor idles until an interrupt.\<close>

definition pswtch_idle :: "sched_conf \<Rightarrow> sched \<Rightarrow> sched" where
  "pswtch_idle c s = s\<lparr>curpri := 0, curproc := proc_sched c, idleswtch := idleswtch s + 1\<rparr>"

partial_function (option) pswtch_scan :: "sched \<Rightarrow> nat option \<Rightarrow> nat option \<Rightarrow> (nat option \<times> nat) option" where
  "pswtch_scan s rp pp =
     (case pp of
        None \<Rightarrow> None
      | Some p \<Rightarrow> if \<not> schedulable (pr s p) then pswtch_scan s (Some p) (p_link (pr s p)) else Some (rp, p))"

definition pswtch_count :: "nat \<Rightarrow> sched \<Rightarrow> sched" where
  "pswtch_count i s =
     (let s = s\<lparr>srunprocs := srunprocs s - 1\<rparr>;
          s = s\<lparr>dispqs := (dispqs s)[i := (dispqs s ! i)\<lparr>dq_sruncnt := dq_sruncnt (dispqs s ! i) - 1\<rparr>]\<rparr> in
      if dq_sruncnt (dispqs s ! i) = 0 then
        let maxrunword = drop_bit BT_ULSHIFT (nat (maxrunpri s));
            s = s\<lparr>dqactmap := BT_CLEAR (dqactmap s) (nat (maxrunpri s))\<rparr> in
        if srunprocs s = 0 then s\<lparr>maxrunpri := -1\<rparr>
        else s\<lparr>maxrunpri := bt_gethighbit (dqactmap s) maxrunword\<rparr>
      else s)"

definition pswtch_run :: "nat \<Rightarrow> sched \<Rightarrow> sched" where
  "pswtch_run pp s = (let s = set_stat pp SONPROC s in s\<lparr>curpri := p_pri (pr s pp), curproc := pp\<rparr>)"

definition pswtch_pick :: "sched \<Rightarrow> sched option" where
  "pswtch_pick s =
     (let s = s\<lparr>runrun := 0, kprunrun := 0, npwakecnt := 0\<rparr>; i = nat (maxrunpri s) in
      do {
        (rp, pp) \<leftarrow> pswtch_scan s None (dq_first (dispqs s ! i));
        Some (pswtch_run pp (pswtch_count i (dq_unlink i pp rp s)))
      })"

definition pswtch :: "sched_conf \<Rightarrow> sched \<Rightarrow> sched option" where
  "pswtch c s =
     (let s = pswtch_leave s in
      if maxrunpri s = -1 then Some (pswtch_idle c s) else pswtch_pick s)"

text \<open>An interrupt ends the idling.\<close>

definition pswtch_resume :: "sched_conf \<Rightarrow> sched \<Rightarrow> sched option" where
  "pswtch_resume c s =
     (let s = s\<lparr>idleswtch := 0\<rparr> in
      if maxrunpri s = -1 then Some (pswtch_idle c s) else pswtch_pick s)"

end
