(* ===== verification/Disp_Links.thy ===== *)
theory Disp_Links
  imports Disp_Queues
begin

text \<open>
  The queues of processes as lists.  \<open>qrep\<close> relates the first and the last process of a queue to
  the list of its processes through \<open>p_link\<close>; \<open>links_ok\<close> holds the lists of all dispatcher queues and
  all sleep queues, which share the link field and so must be disjoint.  \<open>counts_ok\<close> ties the counts,
  the bitmap and \<open>maxrunpri\<close> together.
\<close>

section \<open>One queue\<close>

fun chained :: "(nat \<Rightarrow> nat option) \<Rightarrow> nat option \<Rightarrow> nat list \<Rightarrow> bool" where
  "chained f p [] \<longleftrightarrow> p = None"
| "chained f p (x # xs) \<longleftrightarrow> p = Some x \<and> chained f (f x) xs"

definition lastp :: "nat list \<Rightarrow> nat option" where
  "lastp xs = (if xs = [] then None else Some (last xs))"

definition qrep :: "(nat \<Rightarrow> nat option) \<Rightarrow> nat option \<Rightarrow> nat option \<Rightarrow> nat list \<Rightarrow> bool" where
  "qrep f a b xs \<longleftrightarrow> chained f a xs \<and> b = lastp xs"

lemma lastp_simps [simp]: "lastp [] = None" "lastp (xs @ [x]) = Some x" "lastp (x # xs) = Some (last (x # xs))"
  by (simp_all add: lastp_def)

lemma chained_upd [simp]: "x \<notin> set xs \<Longrightarrow> chained (f(x := v)) p xs = chained f p xs"
  by (induction xs arbitrary: p) auto

lemma chained_append: "chained f p (xs @ y # ys) \<longleftrightarrow> chained (f(last xs := None)) p xs \<and> chained f (Some y) (y # ys) \<and> f (last xs) = Some y"
  if "xs \<noteq> []" "distinct (xs @ y # ys)"
  using that
proof (induction xs arbitrary: p)
  case (Cons x xs)
  then show ?case by (cases "xs = []") auto
qed simp

lemma chained_next: "chained f p (xs @ y # ys) \<Longrightarrow> chained f (f y) ys"
  by (induction xs arbitrary: p) auto

lemma chained_unique: "chained f p xs \<Longrightarrow> chained f p ys \<Longrightarrow> xs = ys"
proof (induction xs arbitrary: p ys)
  case Nil
  then show ?case by (cases ys) auto
next
  case (Cons x xs)
  then show ?case by (cases ys) auto
qed

lemma chained_head: "chained f p xs \<Longrightarrow> p = (case xs of [] \<Rightarrow> None | x # _ \<Rightarrow> Some x)"
  by (cases xs) auto

lemma qrep_upd [simp]: "x \<notin> set xs \<Longrightarrow> qrep (f(x := v)) a b xs = qrep f a b xs"
  by (simp add: qrep_def)

lemma qrep_empty: "qrep f a b xs \<Longrightarrow> (a = None \<longleftrightarrow> xs = []) \<and> (b = None \<longleftrightarrow> xs = [])"
  by (cases xs) (auto simp: qrep_def)

lemma qrep_single: "qrep (f(p := None)) (Some p) (Some p) [p]"
  by (simp add: qrep_def)

lemma qrep_snoc:
  assumes "qrep f a (Some l) xs" "distinct xs" "p \<notin> set xs"
  shows "qrep (f(p := None, l := Some p)) a (Some p) (xs @ [p])"
proof -
  have l: "xs \<noteq> []" "l = last xs" using assms(1) by (auto simp: qrep_def lastp_def split: if_splits)
  have "chained f a xs \<Longrightarrow> xs \<noteq> [] \<Longrightarrow> distinct xs \<Longrightarrow> p \<notin> set xs \<Longrightarrow>
      chained (f(p := None, last xs := Some p)) a (xs @ [p])"
  proof (induction xs arbitrary: a)
    case (Cons x xs)
    then show ?case
    proof (cases "xs = []")
      case False
      then have "last xs \<in> set xs" by simp
      then have "x \<noteq> last xs" "x \<noteq> p" using Cons.prems by auto
      then show ?thesis using Cons False by auto
    qed auto
  qed simp
  then show ?thesis using assms l by (simp add: qrep_def)
qed

lemma qrep_cons: "qrep f (Some a) b xs \<Longrightarrow> p \<notin> set xs \<Longrightarrow> qrep (f(p := Some a)) (Some p) b (p # xs)"
  by (cases xs) (auto simp: qrep_def)

lemma qrep_unlink_head:
  assumes "qrep f a b (p # B)" shows "qrep f (f p) (if f p = None then None else b) B"
proof -
  have "chained f (f p) B" "b = Some (last (p # B))" using assms by (auto simp: qrep_def)
  then show ?thesis by (cases B) (auto simp: qrep_def)
qed

lemma qrep_unlink_mid:
  assumes q: "qrep f a b (A @ p # B)" and d: "distinct (A @ p # B)" and A: "A \<noteq> []"
  shows "qrep (f(last A := f p)) a (if f p = None then Some (last A) else b) (A @ B)"
proof -
  have l: "chained (f(last A := None)) a A" "chained f (f p) B"
    using q d A chained_append [of A p B f a] by (auto simp: qrep_def)
  have la: "last A \<in> set A" using A by simp
  show ?thesis
  proof (cases B)
    case Nil
    then show ?thesis using l q d A by (auto simp: qrep_def lastp_def fun_upd_idem)
  next
    case (Cons y ys)
    then have fp: "f p = Some y" using l by simp
    have ni: "last A \<notin> set B" using d la by auto
    have "distinct (A @ y # ys)" using d Cons by auto
    moreover have "chained (f(last A := Some y)) (Some y) (y # ys)" using l(2) Cons ni by simp
    ultimately have "chained (f(last A := Some y)) a (A @ y # ys)"
      using A l(1) by (subst chained_append) auto
    then show ?thesis using Cons fp q by (simp add: qrep_def lastp_def)
  qed
qed

section \<open>All queues\<close>

datatype qid = Dq nat | Sq nat

definition nxt :: "sched \<Rightarrow> nat \<Rightarrow> nat option" where
  "nxt s x = p_link (pr s x)"

fun firstq :: "sched \<Rightarrow> qid \<Rightarrow> nat option" where
  "firstq s (Dq i) = dq_first (dispqs s ! i)"
| "firstq s (Sq i) = sq_first (slpqs s ! i)"

fun lastq :: "sched \<Rightarrow> qid \<Rightarrow> nat option" where
  "lastq s (Dq i) = dq_last (dispqs s ! i)"
| "lastq s (Sq i) = sq_last (slpqs s ! i)"

fun qvalid :: "sched \<Rightarrow> qid \<Rightarrow> bool" where
  "qvalid s (Dq i) \<longleftrightarrow> i < length (dispqs s)"
| "qvalid s (Sq i) \<longleftrightarrow> i < length (slpqs s)"

definition queued :: "(qid \<Rightarrow> nat list) \<Rightarrow> nat \<Rightarrow> bool" where
  "queued Q x \<longleftrightarrow> (\<exists>k. x \<in> set (Q k))"

definition links_ok :: "(qid \<Rightarrow> nat list) \<Rightarrow> sched \<Rightarrow> bool" where
  "links_ok Q s \<longleftrightarrow> (\<forall>k. qvalid s k \<longrightarrow> qrep (nxt s) (firstq s k) (lastq s k) (Q k))
     \<and> (\<forall>k. \<not> qvalid s k \<longrightarrow> Q k = []) \<and> (\<forall>k. distinct (Q k))
     \<and> (\<forall>k l. k \<noteq> l \<longrightarrow> set (Q k) \<inter> set (Q l) = {})
     \<and> (\<forall>k. \<forall>x \<in> set (Q k). x < length (proctab s))"

lemma links_okD:
  assumes "links_ok Q s"
  shows "qvalid s k \<Longrightarrow> qrep (nxt s) (firstq s k) (lastq s k) (Q k)" "\<not> qvalid s k \<Longrightarrow> Q k = []"
    "distinct (Q k)" "k \<noteq> l \<Longrightarrow> x \<in> set (Q k) \<Longrightarrow> x \<notin> set (Q l)" "x \<in> set (Q k) \<Longrightarrow> x < length (proctab s)"
    "x \<in> set (Q k) \<Longrightarrow> qvalid s k"
proof -
  show "k \<noteq> l \<Longrightarrow> x \<in> set (Q k) \<Longrightarrow> x \<notin> set (Q l)" using assms unfolding links_ok_def by blast
  show "x \<in> set (Q k) \<Longrightarrow> qvalid s k" using assms unfolding links_ok_def by (metis empty_iff empty_set)
qed (use assms in \<open>simp_all add: links_ok_def\<close>)

text \<open>Changes of a process other than of its link.\<close>

lemma upd_proc_simps [simp]:
  "length (proctab (upd_proc p f s)) = length (proctab s)" "dispqs (upd_proc p f s) = dispqs s"
  "slpqs (upd_proc p f s) = slpqs s" "dqactmap (upd_proc p f s) = dqactmap s" "srunprocs (upd_proc p f s) = srunprocs s"
  "nglobpris (upd_proc p f s) = nglobpris s" "maxrunpri (upd_proc p f s) = maxrunpri s" "curproc (upd_proc p f s) = curproc s"
  "old_curproc (upd_proc p f s) = old_curproc s" "oldproc (upd_proc p f s) = oldproc s" "curpri (upd_proc p f s) = curpri s"
  "runrun (upd_proc p f s) = runrun s" "kprunrun (upd_proc p f s) = kprunrun s" "npwakecnt (upd_proc p f s) = npwakecnt s"
  "idleswtch (upd_proc p f s) = idleswtch s" "runin (upd_proc p f s) = runin s" "runout (upd_proc p f s) = runout s"
  "ts_dptbl (upd_proc p f s) = ts_dptbl s" "rt_dptbl (upd_proc p f s) = rt_dptbl s"
  "ts_plist (upd_proc p f s) = ts_plist s" "rt_plist (upd_proc p f s) = rt_plist s"
  by (simp_all add: upd_proc_def)

lemma pr_upd: "p < length (proctab s) \<Longrightarrow> pr (upd_proc p f s) q = (if q = p then f (pr s p) else pr s q)"
  by (simp add: upd_proc_def)

lemma nxt_set_link: "p < length (proctab s) \<Longrightarrow> nxt (set_link p l s) = (nxt s)(p := l)"
  by (auto simp: nxt_def set_link_def pr_upd)

lemma firstq_upd [simp]: "firstq (upd_proc p f s) k = firstq s k" "lastq (upd_proc p f s) k = lastq s k"
  "qvalid (upd_proc p f s) k = qvalid s k"
  by (cases k; simp)+

lemma links_ok_cong:
  assumes "links_ok Q s" "\<And>x. queued Q x \<Longrightarrow> nxt t x = nxt s x" "\<And>k. firstq t k = firstq s k" "\<And>k. lastq t k = lastq s k"
    "\<And>k. qvalid t k = qvalid s k" "length (proctab s) \<le> length (proctab t)"
  shows "links_ok Q t"
proof -
  have "chained (nxt t) a xs = chained (nxt s) a xs" if "\<And>x. x \<in> set xs \<Longrightarrow> queued Q x" for a xs
    using that by (induction xs arbitrary: a) (auto simp: assms(2))
  then have "qrep (nxt t) a b (Q k) = qrep (nxt s) a b (Q k)" for a b k
    unfolding qrep_def by (metis queued_def)
  moreover have "x < length (proctab t)" if "x \<in> set (Q k)" for x k
    using links_okD(5) [OF assms(1) that] assms(6) by simp
  ultimately show ?thesis using assms(1,3-5) unfolding links_ok_def by auto
qed

section \<open>The counts\<close>

definition counts_ok :: "(nat \<Rightarrow> nat) \<Rightarrow> sched \<Rightarrow> bool" where
  "counts_ok cnt s \<longleftrightarrow> length (dispqs s) = nglobpris s \<and> length (dqactmap s) = nglobpris s div 32 + 1
     \<and> (\<forall>i < nglobpris s. dq_sruncnt (dispqs s ! i) = int (cnt i)) \<and> (\<forall>i \<ge> nglobpris s. cnt i = 0)
     \<and> srunprocs s = int (\<Sum>i < nglobpris s. cnt i)
     \<and> (\<forall>i. i div 32 < length (dqactmap s) \<longrightarrow> (BT_TEST (dqactmap s) i \<longleftrightarrow> 0 < cnt i))
     \<and> (maxrunpri s = -1 \<and> (\<forall>i. cnt i = 0)
        \<or> (\<exists>m. maxrunpri s = int m \<and> 0 < cnt m \<and> (\<forall>i. 0 < cnt i \<longrightarrow> i \<le> m)))"

definition runcnt :: "(qid \<Rightarrow> nat list) \<Rightarrow> sched \<Rightarrow> nat \<Rightarrow> nat" where
  "runcnt Q s i = length (filter (\<lambda>x. schedulable (pr s x)) (Q (Dq i)))"

lemma counts_okD:
  assumes "counts_ok cnt s"
  shows "length (dispqs s) = nglobpris s" "length (dqactmap s) = nglobpris s div 32 + 1"
    "i < nglobpris s \<Longrightarrow> dq_sruncnt (dispqs s ! i) = int (cnt i)" "0 < cnt i \<Longrightarrow> i < nglobpris s"
    "srunprocs s = int (\<Sum>i < nglobpris s. cnt i)"
    "i div 32 < length (dqactmap s) \<Longrightarrow> BT_TEST (dqactmap s) i \<longleftrightarrow> 0 < cnt i"
  using assms by (auto simp: counts_ok_def not_less [symmetric])

lemma counts_top:
  assumes "counts_ok cnt s"
  obtains (Nothing) "maxrunpri s = -1" "\<And>i. cnt i = 0"
    | (Top) m where "maxrunpri s = int m" "0 < cnt m" "\<And>i. 0 < cnt i \<Longrightarrow> i \<le> m"
  using assms unfolding counts_ok_def by blast

lemma counts_okI:
  assumes "length (dispqs s) = nglobpris s" "length (dqactmap s) = nglobpris s div 32 + 1"
    "\<forall>i < nglobpris s. dq_sruncnt (dispqs s ! i) = int (cnt i)" "\<And>i. nglobpris s \<le> i \<Longrightarrow> cnt i = 0"
    "srunprocs s = int (\<Sum>i < nglobpris s. cnt i)"
    "\<And>i. i div 32 < length (dqactmap s) \<Longrightarrow> BT_TEST (dqactmap s) i \<longleftrightarrow> 0 < cnt i"
    "maxrunpri s = -1 \<and> (\<forall>i. cnt i = 0)
        \<or> (\<exists>m. maxrunpri s = int m \<and> 0 < cnt m \<and> (\<forall>i. 0 < cnt i \<longrightarrow> i \<le> m))"
  shows "counts_ok cnt s"
  unfolding counts_ok_def using assms by blast

lemma word_in_map: "counts_ok cnt s \<Longrightarrow> i < nglobpris s \<Longrightarrow> i div 32 < length (dqactmap s)"
  using div_le_mono [of i "nglobpris s" 32] by (simp add: counts_ok_def)

lemma sum_upd:
  fixes n :: nat
  assumes "i < n"
  shows "(\<Sum>j < n. (cnt(i := v)) j) + cnt i = (\<Sum>j < n. cnt j) + (v::nat)"
proof -
  have "(\<Sum>j < n. (cnt(i := v)) j) = v + (\<Sum>j \<in> {..<n} - {i}. cnt j)"
    using assms sum.remove [of "{..<n}" i "cnt(i := v)", OF finite_lessThan] by simp
  moreover have "(\<Sum>j < n. cnt j) = cnt i + (\<Sum>j \<in> {..<n} - {i}. cnt j)"
    using assms sum.remove [of "{..<n}" i cnt, OF finite_lessThan] by simp
  ultimately show ?thesis by simp
qed

lemma dq_sruninc_frame [simp]:
  "proctab (dq_sruninc pri s) = proctab s" "slpqs (dq_sruninc pri s) = slpqs s" "nglobpris (dq_sruninc pri s) = nglobpris s"
  "curproc (dq_sruninc pri s) = curproc s" "old_curproc (dq_sruninc pri s) = old_curproc s" "oldproc (dq_sruninc pri s) = oldproc s"
  "curpri (dq_sruninc pri s) = curpri s" "runrun (dq_sruninc pri s) = runrun s" "kprunrun (dq_sruninc pri s) = kprunrun s"
  "npwakecnt (dq_sruninc pri s) = npwakecnt s" "idleswtch (dq_sruninc pri s) = idleswtch s" "runin (dq_sruninc pri s) = runin s"
  "runout (dq_sruninc pri s) = runout s" "ts_dptbl (dq_sruninc pri s) = ts_dptbl s" "rt_dptbl (dq_sruninc pri s) = rt_dptbl s"
  "ts_plist (dq_sruninc pri s) = ts_plist s" "rt_plist (dq_sruninc pri s) = rt_plist s"
  by (simp_all add: dq_sruninc_def Let_def)

lemma dq_srundec_frame [simp]:
  "proctab (dq_srundec pri s) = proctab s" "slpqs (dq_srundec pri s) = slpqs s" "nglobpris (dq_srundec pri s) = nglobpris s"
  "curproc (dq_srundec pri s) = curproc s" "old_curproc (dq_srundec pri s) = old_curproc s" "oldproc (dq_srundec pri s) = oldproc s"
  "curpri (dq_srundec pri s) = curpri s" "runrun (dq_srundec pri s) = runrun s" "kprunrun (dq_srundec pri s) = kprunrun s"
  "npwakecnt (dq_srundec pri s) = npwakecnt s" "idleswtch (dq_srundec pri s) = idleswtch s" "runin (dq_srundec pri s) = runin s"
  "runout (dq_srundec pri s) = runout s" "ts_dptbl (dq_srundec pri s) = ts_dptbl s" "rt_dptbl (dq_srundec pri s) = rt_dptbl s"
  "ts_plist (dq_srundec pri s) = ts_plist s" "rt_plist (dq_srundec pri s) = rt_plist s"
  by (simp_all add: dq_srundec_def Let_def)

lemma sruninc_dispqs: "dispqs (dq_sruninc pri s)
    = (dispqs s)[nat pri := (dispqs s ! nat pri)\<lparr>dq_sruncnt := dq_sruncnt (dispqs s ! nat pri) + 1\<rparr>]"
  by (simp add: dq_sruninc_def Let_def)

lemma srundec_dispqs: "dispqs (dq_srundec pri s)
    = (dispqs s)[nat pri := (dispqs s ! nat pri)\<lparr>dq_sruncnt := dq_sruncnt (dispqs s ! nat pri) - 1\<rparr>]"
  by (simp add: dq_srundec_def Let_def)

lemma counts_sruninc:
  assumes ok: "counts_ok cnt s" and i: "i < nglobpris s"
  shows "counts_ok (cnt(i := cnt i + 1)) (dq_sruninc (int i) s)"
proof -
  note c = counts_okD [OF ok]
  let ?t = "dq_sruninc (int i) s" and ?c = "cnt(i := cnt i + 1)"
  have l: "i < length (dispqs s)" using c i by simp
  have n1: "dq_sruncnt (dispqs s ! i) + 1 = 1 \<longleftrightarrow> cnt i = 0" using c(3) [OF i] by simp
  have map: "dqactmap ?t = (if cnt i = 0 then BT_SET (dqactmap s) i else dqactmap s)"
    using l n1 by (simp add: dq_sruninc_def Let_def)
  have max: "maxrunpri ?t = (if cnt i = 0 \<and> maxrunpri s < int i then int i else maxrunpri s)"
    using l n1 by (simp add: dq_sruninc_def Let_def)
  have bits: "BT_TEST (dqactmap ?t) j \<longleftrightarrow> 0 < ?c j" if "j div 32 < length (dqactmap s)" for j
    using c(6) [OF that] c(6) [OF word_in_map [OF ok i]] word_in_map [OF ok i] by (simp add: map BT_TEST_SET)
  have sum: "srunprocs ?t = int (\<Sum>j < nglobpris s. ?c j)"
    using c(5) sum_upd [OF i, of cnt "cnt i + 1"] by (simp add: dq_sruninc_def Let_def)
  have cnts: "\<forall>j < nglobpris s. dq_sruncnt (dispqs ?t ! j) = int (?c j)"
    using c(3) l by (simp add: sruninc_dispqs nth_list_update_if)
  have top: "maxrunpri ?t = -1 \<and> (\<forall>j. ?c j = 0) \<or> (\<exists>m. maxrunpri ?t = int m \<and> 0 < ?c m \<and> (\<forall>j. 0 < ?c j \<longrightarrow> j \<le> m))"
    using ok
  proof (cases rule: counts_top)
    case Nothing
    then have "maxrunpri ?t = int i" "\<forall>j. 0 < ?c j \<longrightarrow> j \<le> i" by (simp_all add: max)
    then show ?thesis by auto
  next
    case (Top m)
    show ?thesis
    proof (cases "m < i")
      case True
      then have "cnt i = 0" using Top(3) [of i] by auto
      then have "maxrunpri ?t = int i" "\<forall>j. 0 < ?c j \<longrightarrow> j \<le> i"
        using True Top by (auto simp: max intro: order_trans less_imp_le)
      then show ?thesis by auto
    next
      case False
      then have "maxrunpri ?t = int m" "0 < ?c m" "\<forall>j. 0 < ?c j \<longrightarrow> j \<le> m" using Top by (auto simp: max)
      then show ?thesis by blast
    qed
  qed
  have out: "?c j = 0" if "nglobpris s \<le> j" for j using c(4) [of j] that i by (cases "cnt j = 0") auto
  have len: "length (dqactmap ?t) = length (dqactmap s)" by (simp add: map)
  show ?thesis
    by (rule counts_okI, unfold dq_sruninc_frame len)
      (use c(1,2) out bits sum cnts top in \<open>simp_all only: sruninc_dispqs length_list_update\<close>)
qed

lemma counts_srundec:
  assumes ok: "counts_ok cnt s" and pos: "0 < cnt i"
  shows "counts_ok (cnt(i := cnt i - 1)) (dq_srundec (int i) s)"
proof -
  note c = counts_okD [OF ok]
  let ?t = "dq_srundec (int i) s" and ?c = "cnt(i := cnt i - 1)"
  have i: "i < nglobpris s" using c(4) [OF pos] .
  have l: "i < length (dispqs s)" using c i by simp
  have n1: "dq_sruncnt (dispqs s ! i) - 1 = 0 \<longleftrightarrow> cnt i = 1" using c(3) [OF i] by simp
  have map: "dqactmap ?t = (if cnt i = 1 then BT_CLEAR (dqactmap s) i else dqactmap s)"
    using l n1 by (simp add: dq_srundec_def Let_def)
  have max: "maxrunpri ?t = (if cnt i = 1 then if srunprocs s - 1 = 0 then -1
      else if int i = maxrunpri s then bt_gethighbit (BT_CLEAR (dqactmap s) i) (i div 32) else maxrunpri s
      else maxrunpri s)"
    using l n1 nat_int [of i] by (auto simp: dq_srundec_def Let_def simp del: nat_int)
  have bits: "BT_TEST (dqactmap ?t) j \<longleftrightarrow> 0 < ?c j" if "j div 32 < length (dqactmap s)" for j
    using c(6) [OF that] c(6) [OF word_in_map [OF ok i]] word_in_map [OF ok i] pos by (auto simp: map BT_TEST_CLEAR)
  have "(\<Sum>j < nglobpris s. ?c j) + 1 = (\<Sum>j < nglobpris s. cnt j)"
    using sum_upd [OF i, of cnt "cnt i - 1"] pos by linarith
  then have sum': "srunprocs s - 1 = int (\<Sum>j < nglobpris s. ?c j)" using c(5) by linarith
  then have sum: "srunprocs ?t = int (\<Sum>j < nglobpris s. ?c j)" by (simp add: dq_srundec_def Let_def)
  have cnts: "\<forall>j < nglobpris s. dq_sruncnt (dispqs ?t ! j) = int (?c j)"
    using c(3) l pos by (auto simp: srundec_dispqs nth_list_update_if)
  have out: "?c j = 0" if "nglobpris s \<le> j" for j using c(4) [of j] that by (cases "cnt j = 0") auto
  have top: "maxrunpri ?t = -1 \<and> (\<forall>j. ?c j = 0) \<or> (\<exists>m. maxrunpri ?t = int m \<and> 0 < ?c m \<and> (\<forall>j. 0 < ?c j \<longrightarrow> j \<le> m))"
  proof (cases "\<forall>j. ?c j = 0")
    case True
    then have "srunprocs s - 1 = 0" using sum' by simp
    moreover have "cnt i = 1" using spec [OF True, of i] pos by simp
    ultimately show ?thesis using True by (simp add: max)
  next
    case False
    then obtain j where j: "0 < ?c j" by auto
    then have "j < nglobpris s" using out [of j] by (cases "j < nglobpris s") auto
    then have "?c j \<le> (\<Sum>j < nglobpris s. ?c j)" by (intro member_le_sum) auto
    then have ne: "srunprocs s - 1 \<noteq> 0" using j sum' by linarith
    obtain m where m: "maxrunpri s = int m" "0 < cnt m" "\<And>j. 0 < cnt j \<Longrightarrow> j \<le> m"
      using ok pos by (cases rule: counts_top) auto
    have le: "j \<le> m" if "0 < ?c j" for j using m(3) [of j] that pos by (auto split: if_splits)
    show ?thesis
    proof (cases "cnt i = 1 \<and> i = m")
      case False
      then have "maxrunpri ?t = int m" "0 < ?c m" using ne m pos by (auto simp: max)
      then show ?thesis using le by blast
    next
      case True
      define D where "D = {j. 0 < ?c j}"
      define k where "k = Max D"
      have fin: "finite D" using le by (intro finite_subset [of D "{..m}"]) (auto simp: D_def)
      have ne': "D \<noteq> {}" using j unfolding D_def by blast
      have "k \<in> D" "\<And>j. j \<in> D \<Longrightarrow> j \<le> k"
        unfolding k_def by (fact Max_in [OF fin ne'], rule Max_ge [OF fin])
      then have k: "0 < ?c k" "\<And>j. 0 < ?c j \<Longrightarrow> j \<le> k" by (simp_all only: D_def mem_Collect_eq)
      have w: "x < 32 * (i div 32 + 1)" if "x \<le> m" for x
        using that True dividend_less_times_div [of 32 i] by simp
      have inmap: "x div 32 < length (dqactmap s)" if "x < 32 * (i div 32 + 1)" for x
      proof -
        have "x div 32 \<le> i div 32" using that by (simp add: less_mult_imp_div_less less_Suc_eq_le [symmetric])
        then show ?thesis using word_in_map [OF ok i] by simp
      qed
      have cleared: "dqactmap ?t = BT_CLEAR (dqactmap s) i"
        unfolding map by (rule if_P) (rule conjunct1 [OF True])
      have test: "BT_TEST (BT_CLEAR (dqactmap s) i) x \<longleftrightarrow> 0 < ?c x" if "x < 32 * (i div 32 + 1)" for x
        using bits [OF inmap [OF that]] unfolding cleared .
      have "bt_gethighbit (BT_CLEAR (dqactmap s) i) (i div 32) = int k"
        by (rule bt_gethighbit_greatest) (use k le w test in \<open>auto simp del: fun_upd_apply\<close>)
      moreover have "cnt i = 1" "int i = maxrunpri s" using True m(1) by auto
      ultimately have "maxrunpri ?t = int k" unfolding max using ne by (simp only: if_True if_False refl)
      then show ?thesis using k by blast
    qed
  qed
  have len: "length (dqactmap ?t) = length (dqactmap s)" by (simp add: map)
  show ?thesis
    by (rule counts_okI, unfold dq_srundec_frame len)
      (use c(1,2) out bits sum cnts top in \<open>simp_all only: srundec_dispqs length_list_update\<close>)
qed

end
