(* ===== verification/Disp_Moves.thy ===== *)
theory Disp_Moves
  imports Disp_Links
begin

text \<open>
  The operations of the dispatcher against the lists of the queues: \<open>setbackdq\<close> and \<open>setfrontdq\<close>
  put a process at an end of the queue of its priority, \<open>dispdeq\<close> takes it off and always
  returns, and the switch takes the first process that can run off the highest queue that has
  one.  All keep \<open>disp_ok\<close>.
\<close>

section \<open>What the operations leave alone\<close>

definition bare :: "proc \<Rightarrow> proc" where
  "bare x = x\<lparr>p_link := None\<rparr>"

definition disp_rest :: "sched \<Rightarrow> sched" where
  "disp_rest s = s\<lparr>proctab := map bare (proctab s), dispqs := [], dqactmap := [], srunprocs := 0, maxrunpri := 0\<rparr>"

definition same_procs :: "sched \<Rightarrow> sched \<Rightarrow> bool" where
  "same_procs s t \<longleftrightarrow> map bare (proctab t) = map bare (proctab s)"

definition disp_same :: "sched \<Rightarrow> sched \<Rightarrow> bool" where
  "disp_same s t \<longleftrightarrow> disp_rest t = disp_rest s"

lemma bare_eqD:
  assumes "bare x = bare y"
  shows "p_stat x = p_stat y" "p_flag x = p_flag y" "p_pri x = p_pri y" "p_wchan x = p_wchan y" "p_clproc x = p_clproc y"
    "p_cred x = p_cred y" "schedulable x = schedulable y"
  using arg_cong [OF assms, of p_stat] arg_cong [OF assms, of p_flag] arg_cong [OF assms, of p_pri]
    arg_cong [OF assms, of p_wchan] arg_cong [OF assms, of p_clproc] arg_cong [OF assms, of p_cred]
  by (simp_all add: bare_def schedulable_def)

lemma same_procs_bare: "same_procs s t \<Longrightarrow> x < length (proctab s) \<Longrightarrow> bare (pr t x) = bare (pr s x)"
  unfolding same_procs_def by (metis length_map nth_map)

lemma same_procs_len: "same_procs s t \<Longrightarrow> length (proctab t) = length (proctab s)"
  unfolding same_procs_def by (metis length_map)

lemma same_procsD:
  assumes "same_procs s t" "x < length (proctab s)"
  shows "p_stat (pr t x) = p_stat (pr s x)" "p_flag (pr t x) = p_flag (pr s x)" "p_pri (pr t x) = p_pri (pr s x)"
    "p_wchan (pr t x) = p_wchan (pr s x)" "p_clproc (pr t x) = p_clproc (pr s x)" "p_cred (pr t x) = p_cred (pr s x)"
    "schedulable (pr t x) = schedulable (pr s x)"
  using bare_eqD [OF same_procs_bare [OF assms]] by simp_all

lemma disp_sameD:
  assumes "disp_same s t"
  shows "same_procs s t" "slpqs t = slpqs s" "nglobpris t = nglobpris s" "curproc t = curproc s" "old_curproc t = old_curproc s"
    "oldproc t = oldproc s" "curpri t = curpri s" "runrun t = runrun s" "kprunrun t = kprunrun s" "npwakecnt t = npwakecnt s"
    "idleswtch t = idleswtch s" "runin t = runin s" "runout t = runout s" "ts_dptbl t = ts_dptbl s" "rt_dptbl t = rt_dptbl s"
    "ts_plist t = ts_plist s" "rt_plist t = rt_plist s"
proof -
  note e = assms [unfolded disp_same_def]
  show "same_procs s t" using arg_cong [OF e, of proctab] by (simp add: same_procs_def disp_rest_def)
  show "slpqs t = slpqs s" using arg_cong [OF e, of slpqs] by (simp add: disp_rest_def)
  show "nglobpris t = nglobpris s" using arg_cong [OF e, of nglobpris] by (simp add: disp_rest_def)
  show "curproc t = curproc s" using arg_cong [OF e, of curproc] by (simp add: disp_rest_def)
  show "old_curproc t = old_curproc s" using arg_cong [OF e, of old_curproc] by (simp add: disp_rest_def)
  show "oldproc t = oldproc s" using arg_cong [OF e, of oldproc] by (simp add: disp_rest_def)
  show "curpri t = curpri s" using arg_cong [OF e, of curpri] by (simp add: disp_rest_def)
  show "runrun t = runrun s" using arg_cong [OF e, of runrun] by (simp add: disp_rest_def)
  show "kprunrun t = kprunrun s" using arg_cong [OF e, of kprunrun] by (simp add: disp_rest_def)
  show "npwakecnt t = npwakecnt s" using arg_cong [OF e, of npwakecnt] by (simp add: disp_rest_def)
  show "idleswtch t = idleswtch s" using arg_cong [OF e, of idleswtch] by (simp add: disp_rest_def)
  show "runin t = runin s" using arg_cong [OF e, of runin] by (simp add: disp_rest_def)
  show "runout t = runout s" using arg_cong [OF e, of runout] by (simp add: disp_rest_def)
  show "ts_dptbl t = ts_dptbl s" using arg_cong [OF e, of ts_dptbl] by (simp add: disp_rest_def)
  show "rt_dptbl t = rt_dptbl s" using arg_cong [OF e, of rt_dptbl] by (simp add: disp_rest_def)
  show "ts_plist t = ts_plist s" using arg_cong [OF e, of ts_plist] by (simp add: disp_rest_def)
  show "rt_plist t = rt_plist s" using arg_cong [OF e, of rt_plist] by (simp add: disp_rest_def)
qed

lemma disp_sameI:
  assumes "same_procs s t" "slpqs t = slpqs s" "nglobpris t = nglobpris s" "curproc t = curproc s" "old_curproc t = old_curproc s"
    "oldproc t = oldproc s" "curpri t = curpri s" "runrun t = runrun s" "kprunrun t = kprunrun s" "npwakecnt t = npwakecnt s"
    "idleswtch t = idleswtch s" "runin t = runin s" "runout t = runout s" "ts_dptbl t = ts_dptbl s" "rt_dptbl t = rt_dptbl s"
    "ts_plist t = ts_plist s" "rt_plist t = rt_plist s"
  shows "disp_same s t"
  unfolding disp_same_def by (rule sched.equality) (use assms in \<open>simp_all add: disp_rest_def same_procs_def\<close>)

lemma same_procs_refl [simp]: "same_procs s s"
  by (simp add: same_procs_def)

lemma disp_same_refl [simp]: "disp_same s s"
  by (simp add: disp_same_def)

lemma disp_same_trans: "disp_same s t \<Longrightarrow> disp_same t u \<Longrightarrow> disp_same s u"
  by (simp add: disp_same_def)

lemma bare_link: "map bare (ps[p := (ps ! p)\<lparr>p_link := l\<rparr>]) = map bare ps"
  by (cases "p < length ps") (auto simp: map_update bare_def list_update_id intro!: nth_equalityI simp: nth_list_update)

lemma disp_same_inc: "disp_same s (dq_sruninc pri s)" "disp_same s (dq_srundec pri s)"
  by (simp_all add: disp_same_def disp_rest_def dq_sruninc_def dq_srundec_def Let_def)

lemma disp_same_link: "disp_same s ((set_link p l s)\<lparr>dispqs := d\<rparr>)" "disp_same s (set_link p l s)" "disp_same s (s\<lparr>dispqs := d\<rparr>)"
  by (simp_all add: disp_same_def disp_rest_def set_link_def upd_proc_def bare_link)

section \<open>One queue changes\<close>

lemma links_ok_upd:
  assumes ok: "links_ok Q s" and other: "\<And>l. l \<noteq> k \<Longrightarrow> firstq t l = firstq s l \<and> lastq t l = lastq s l"
    and valid: "\<And>l. qvalid t l = qvalid s l" "qvalid s k" and len: "length (proctab t) = length (proctab s)"
    and nx: "\<And>x l. l \<noteq> k \<Longrightarrow> x \<in> set (Q l) \<Longrightarrow> nxt t x = nxt s x"
    and new: "qrep (nxt t) (firstq t k) (lastq t k) xs" "distinct xs"
    and fresh: "\<And>x. x \<in> set xs \<Longrightarrow> x < length (proctab s)" "\<And>x l. x \<in> set xs \<Longrightarrow> l \<noteq> k \<Longrightarrow> x \<notin> set (Q l)"
  shows "links_ok (Q(k := xs)) t"
proof -
  note okD = links_okD [OF ok]
  have keep: "chained (nxt t) a ys = chained (nxt s) a ys" if "l \<noteq> k" "set ys \<subseteq> set (Q l)" for a ys l
    using that by (induction ys arbitrary: a) (auto simp: nx)
  have "qrep (nxt t) (firstq t l) (lastq t l) ((Q(k := xs)) l)" if "qvalid t l" for l
    using that okD(1) [of l] valid other [of l] new keep [of l "Q l"] by (cases "l = k") (auto simp: qrep_def)
  moreover have "set ((Q(k := xs)) l) \<inter> set ((Q(k := xs)) l') = {}" if "l \<noteq> l'" for l l'
    using that fresh(2) okD(4) [of l l'] by (auto split: if_splits)
  ultimately show ?thesis
    unfolding links_ok_def using valid okD len new(2) fresh(1) by auto
qed

definition disp_ok :: "(qid \<Rightarrow> nat list) \<Rightarrow> sched \<Rightarrow> bool" where
  "disp_ok Q s \<longleftrightarrow> links_ok Q s \<and> counts_ok (runcnt Q s) s \<and> (\<forall>i. \<forall>x \<in> set (Q (Dq i)). p_pri (pr s x) = int i)"

lemma disp_okD:
  assumes "disp_ok Q s"
  shows "links_ok Q s" "counts_ok (runcnt Q s) s" "x \<in> set (Q (Dq i)) \<Longrightarrow> p_pri (pr s x) = int i"
    "qvalid s (Dq i) \<longleftrightarrow> i < nglobpris s"
  using assms counts_okD(1) [of "runcnt Q s" s] by (auto simp: disp_ok_def)

lemma runcnt_cong:
  assumes "links_ok Q s" "same_procs s t" shows "runcnt Q t = runcnt Q s"
proof
  fix i
  have "filter (\<lambda>x. schedulable (pr t x)) (Q (Dq i)) = filter (\<lambda>x. schedulable (pr s x)) (Q (Dq i))"
    using links_okD(5) [OF assms(1)] same_procsD(7) [OF assms(2)] by (intro filter_cong) auto
  then show "runcnt Q t i = runcnt Q s i" by (simp add: runcnt_def)
qed

text \<open>\<open>setbackdq\<close> and \<open>setfrontdq\<close> before the counts.\<close>

definition link_back :: "nat \<Rightarrow> nat \<Rightarrow> sched \<Rightarrow> sched" where
  "link_back i pp s =
     (let dq = dispqs s ! i; s = set_link pp None s in
      case dq_last dq of
        None \<Rightarrow> s\<lparr>dispqs := (dispqs s)[i := dq\<lparr>dq_first := Some pp, dq_last := Some pp\<rparr>]\<rparr>
      | Some l \<Rightarrow> (set_link l (Some pp) s)\<lparr>dispqs := (dispqs s)[i := dq\<lparr>dq_last := Some pp\<rparr>]\<rparr>)"

definition link_front :: "nat \<Rightarrow> nat \<Rightarrow> sched \<Rightarrow> sched" where
  "link_front i pp s =
     (let dq = dispqs s ! i in
      case dq_first dq of
        None \<Rightarrow> (set_link pp None s)\<lparr>dispqs := (dispqs s)[i := dq\<lparr>dq_first := Some pp, dq_last := Some pp\<rparr>]\<rparr>
      | Some f \<Rightarrow> (set_link pp (Some f) s)\<lparr>dispqs := (dispqs s)[i := dq\<lparr>dq_first := Some pp\<rparr>]\<rparr>)"

lemma setbackdq_split: "setbackdq p s = (let t = link_back (nat (p_pri (pr s p))) p s in
    if schedulable (pr t p) then dq_sruninc (p_pri (pr s p)) t else t)"
  by (simp add: setbackdq_def link_back_def Let_def)

lemma setfrontdq_split: "setfrontdq p s = (let t = link_front (nat (p_pri (pr s p))) p s in
    if schedulable (pr t p) then dq_sruninc (p_pri (pr s p)) t else t)"
  by (simp add: setfrontdq_def link_front_def Let_def)

lemma link_back_same: "disp_same s (link_back i p s)" "disp_same s (link_front i p s)"
  unfolding link_back_def link_front_def Let_def
  by (auto split: option.split intro: disp_same_link disp_same_trans [OF disp_same_link(2) disp_same_link(1)])

lemma nxt_dispqs [simp]: "nxt (s\<lparr>dispqs := d\<rparr>) = nxt s" "nxt (s\<lparr>slpqs := e\<rparr>) = nxt s"
  by (auto simp: nxt_def)

lemma firstq_dispqs:
  "dispqs s = d \<Longrightarrow> i < length d \<Longrightarrow> firstq (s\<lparr>dispqs := d[i := dq]\<rparr>) k = (if k = Dq i then dq_first dq else firstq s k)"
  "dispqs s = d \<Longrightarrow> i < length d \<Longrightarrow> lastq (s\<lparr>dispqs := d[i := dq]\<rparr>) k = (if k = Dq i then dq_last dq else lastq s k)"
  "dispqs s = d \<Longrightarrow> qvalid (s\<lparr>dispqs := d[i := dq]\<rparr>) k = qvalid s k"
  by (cases k; simp add: nth_list_update)+

lemma nth_upd_field: "g v = g (xs ! n) \<Longrightarrow> g (xs[n := v] ! i) = g (xs ! i)"
  by (cases "n < length xs"; cases "i = n") (simp_all add: not_less list_update_beyond)

lemma set_link_simps [simp]: "firstq (set_link p l s) k = firstq s k" "lastq (set_link p l s) k = lastq s k"
  "qvalid (set_link p l s) k = qvalid s k" "dispqs (set_link p l s) = dispqs s" "length (proctab (set_link p l s)) = length (proctab s)"
  by (simp_all add: set_link_def)

lemma link_back_ok:
  assumes ok: "links_ok Q s" and p: "p < length (proctab s)" "\<not> queued Q p" and i: "i < length (dispqs s)"
  shows "links_ok (Q(Dq i := Q (Dq i) @ [p])) (link_back i p s)"
proof -
  note D = links_okD [OF ok]
  have q: "qrep (nxt s) (dq_first (dispqs s ! i)) (dq_last (dispqs s ! i)) (Q (Dq i))" using D(1) [of "Dq i"] i by simp
  have new: "p \<notin> set (Q l)" for l using p(2) by (auto simp: queued_def)
  show ?thesis
  proof (cases "dq_last (dispqs s ! i)")
    case None
    then have e: "Q (Dq i) = []" using q qrep_empty by metis
    show ?thesis unfolding link_back_def Let_def None option.case
      by (rule links_ok_upd [OF ok])
        (use i p new in \<open>auto simp: firstq_dispqs e nxt_set_link qrep_single\<close>)
  next
    case (Some l)
    have l: "l \<in> set (Q (Dq i))" using q Some by (auto simp: qrep_def lastp_def split: if_splits)
    then have ll: "l < length (proctab s)" using D(5) by blast
    have qn: "qrep ((nxt s)(p := None, l := Some p)) (dq_first (dispqs s ! i)) (Some p) (Q (Dq i) @ [p])"
      using q Some D(3) new by (intro qrep_snoc) auto
    show ?thesis unfolding link_back_def Let_def Some option.case
    proof (rule links_ok_upd [OF ok])
      fix x m assume "m \<noteq> Dq i" "x \<in> set (Q m)"
      then have "x \<noteq> l" "x \<noteq> p" using D(4) [of m "Dq i" x] l new [of m] by auto
      then show "nxt (set_link l (Some p) (set_link p None s)
          \<lparr>dispqs := (dispqs (set_link p None s))[i := (dispqs s ! i)\<lparr>dq_last := Some p\<rparr>]\<rparr>) x = nxt s x"
        using p ll by (simp add: nxt_set_link)
    qed (use i p ll new D(3,4,5) qn in \<open>auto simp: firstq_dispqs nxt_set_link\<close>)
  qed
qed

lemma link_front_ok:
  assumes ok: "links_ok Q s" and p: "p < length (proctab s)" "\<not> queued Q p" and i: "i < length (dispqs s)"
  shows "links_ok (Q(Dq i := p # Q (Dq i))) (link_front i p s)"
proof -
  note D = links_okD [OF ok]
  have q: "qrep (nxt s) (dq_first (dispqs s ! i)) (dq_last (dispqs s ! i)) (Q (Dq i))" using D(1) [of "Dq i"] i by simp
  have new: "p \<notin> set (Q l)" for l using p(2) by (auto simp: queued_def)
  show ?thesis
  proof (cases "dq_first (dispqs s ! i)")
    case None
    then have e: "Q (Dq i) = []" using q qrep_empty by metis
    show ?thesis unfolding link_front_def Let_def None option.case
      by (rule links_ok_upd [OF ok])
        (use i p new in \<open>auto simp: firstq_dispqs e nxt_set_link qrep_single\<close>)
  next
    case (Some f)
    have qn: "qrep ((nxt s)(p := Some f)) (Some p) (dq_last (dispqs s ! i)) (p # Q (Dq i))"
      using q Some new by (intro qrep_cons) auto
    show ?thesis unfolding link_front_def Let_def Some option.case
      by (rule links_ok_upd [OF ok])
        (use i p new D(3,4,5) qn in \<open>auto simp: firstq_dispqs nxt_set_link\<close>)
  qed
qed

text \<open>The counts follow.\<close>

lemma links_same_heads:
  assumes "links_ok Q s" "proctab t = proctab s" "slpqs t = slpqs s"
    "\<And>i. dq_first (dispqs t ! i) = dq_first (dispqs s ! i) \<and> dq_last (dispqs t ! i) = dq_last (dispqs s ! i)"
    "length (dispqs t) = length (dispqs s)"
  shows "links_ok Q t"
proof (rule links_ok_cong [OF assms(1)])
  show "firstq t k = firstq s k" for k using assms by (cases k) auto
  show "lastq t k = lastq s k" for k using assms by (cases k) auto
  show "qvalid t k = qvalid s k" for k using assms by (cases k) auto
qed (use assms in \<open>simp_all add: nxt_def\<close>)

lemma links_sruninc [simp]: "links_ok Q s \<Longrightarrow> links_ok Q (dq_sruninc pri s)" "links_ok Q s \<Longrightarrow> links_ok Q (dq_srundec pri s)"
  by (erule links_same_heads; simp add: sruninc_dispqs srundec_dispqs nth_upd_field [where g = dq_first]
      nth_upd_field [where g = dq_last])+

lemma counts_cong:
  assumes "counts_ok cnt s" "length (dispqs t) = length (dispqs s)" "\<And>i. dq_sruncnt (dispqs t ! i) = dq_sruncnt (dispqs s ! i)"
    "nglobpris t = nglobpris s" "dqactmap t = dqactmap s" "srunprocs t = srunprocs s" "maxrunpri t = maxrunpri s"
  shows "counts_ok cnt t"
  using assms by (simp add: counts_ok_def)

lemma counts_link_back: "counts_ok cnt s \<Longrightarrow> counts_ok cnt (link_back i p s)"
  "counts_ok cnt s \<Longrightarrow> counts_ok cnt (link_front i p s)" "counts_ok cnt s \<Longrightarrow> counts_ok cnt (dq_unlink i p prp s)"
  unfolding link_back_def link_front_def dq_unlink_def Let_def
  by (erule counts_cong; simp add: nth_upd_field [where g = dq_sruncnt] set_link_def split: option.split)+

lemma put_counts:
  assumes ok: "disp_ok Q s" and p: "p < length (proctab s)" and i: "i < nglobpris s" and pri: "p_pri (pr s p) = int i"
    and t: "links_ok (Q(Dq i := xs)) t" "disp_same s t" "counts_ok (runcnt Q s) t"
    and xs: "xs = Q (Dq i) @ [p] \<or> xs = p # Q (Dq i)"
  shows "disp_ok (Q(Dq i := xs)) (if schedulable (pr t p) then dq_sruninc (int i) t else t)"
proof -
  let ?Q = "Q(Dq i := xs)" and ?u = "if schedulable (pr t p) then dq_sruninc (int i) t else t"
  have same: "same_procs s ?u" using disp_sameD(1) [OF disp_same_trans [OF t(2) disp_same_inc(1)]] disp_sameD(1) [OF t(2)] by simp
  have sch: "schedulable (pr t p) = schedulable (pr s p)" using same_procsD(7) [OF disp_sameD(1) [OF t(2)] p] .
  have proc: "pr ?u x = pr t x" for x by simp
  have cnt: "runcnt ?Q ?u = (if schedulable (pr t p) then (runcnt Q s)(i := runcnt Q s i + 1) else runcnt Q s)"
  proof
    fix j
    have "runcnt Q t j = runcnt Q s j" using runcnt_cong [OF disp_okD(1) [OF ok] disp_sameD(1) [OF t(2)]] by simp
    moreover have "runcnt ?Q ?u = runcnt ?Q t" by (simp add: runcnt_def fun_eq_iff)
    ultimately show "runcnt ?Q ?u j = (if schedulable (pr t p) then (runcnt Q s)(i := runcnt Q s i + 1) else runcnt Q s) j"
      using xs by (auto simp: runcnt_def)
  qed
  have "p_pri (pr ?u x) = int j" if "x \<in> set (?Q (Dq j))" for x j
  proof -
    have "x < length (proctab s)" using that xs p links_okD(5) [OF disp_okD(1) [OF ok]] by (auto split: if_splits)
    then have "p_pri (pr ?u x) = p_pri (pr s x)" using same_procsD(3) [OF same] by blast
    then show ?thesis using that xs pri disp_okD(3) [OF ok] by (auto split: if_splits)
  qed
  moreover have "counts_ok (runcnt ?Q ?u) ?u"
    unfolding cnt using t(3) counts_sruninc [OF t(3), of i] i disp_sameD(3) [OF t(2)] by simp
  ultimately show ?thesis using t(1) by (simp add: disp_ok_def del: fun_upd_apply)
qed

lemma setbackdq_ok:
  assumes ok: "disp_ok Q s" and p: "p < length (proctab s)" "\<not> queued Q p" and pri: "p_pri (pr s p) = int i" "i < nglobpris s"
  shows "disp_ok (Q(Dq i := Q (Dq i) @ [p])) (setbackdq p s)" "disp_same s (setbackdq p s)"
proof -
  have i: "i < length (dispqs s)" using counts_okD(1) [OF disp_okD(2) [OF ok]] pri by simp
  show "disp_ok (Q(Dq i := Q (Dq i) @ [p])) (setbackdq p s)"
    unfolding setbackdq_split pri(1) Let_def nat_int
    by (rule put_counts [OF ok p(1) pri(2,1) link_back_ok [OF disp_okD(1) [OF ok] p i]
          link_back_same(1) counts_link_back(1) [OF disp_okD(2) [OF ok]]]) simp
  show "disp_same s (setbackdq p s)"
    using link_back_same(1) disp_same_trans [OF link_back_same(1) disp_same_inc(1)]
    by (simp add: setbackdq_split Let_def)
qed

lemma setfrontdq_ok:
  assumes ok: "disp_ok Q s" and p: "p < length (proctab s)" "\<not> queued Q p" and pri: "p_pri (pr s p) = int i" "i < nglobpris s"
  shows "disp_ok (Q(Dq i := p # Q (Dq i))) (setfrontdq p s)" "disp_same s (setfrontdq p s)"
proof -
  have i: "i < length (dispqs s)" using counts_okD(1) [OF disp_okD(2) [OF ok]] pri by simp
  show "disp_ok (Q(Dq i := p # Q (Dq i))) (setfrontdq p s)"
    unfolding setfrontdq_split pri(1) Let_def nat_int
    by (rule put_counts [OF ok p(1) pri(2,1) link_front_ok [OF disp_okD(1) [OF ok] p i]
          link_back_same(2) counts_link_back(2) [OF disp_okD(2) [OF ok]]]) simp
  show "disp_same s (setfrontdq p s)"
    using link_back_same(2) disp_same_trans [OF link_back_same(2) disp_same_inc(1)]
    by (simp add: setfrontdq_split Let_def)
qed

section \<open>Off a queue\<close>

lemma dq_search_walk:
  "chained (nxt s) rp xs \<Longrightarrow> distinct xs \<Longrightarrow>
     dq_search s pp (prp, rp) = Some (if pp \<in> set xs
       then FoundAfter (case takeWhile (\<lambda>x. x \<noteq> pp) xs of [] \<Rightarrow> prp | y # ys \<Rightarrow> Some (last (y # ys))) else NotFound)"
proof (induction xs arbitrary: prp rp)
  case Nil
  then show ?case by (subst dq_search.simps) simp
next
  case (Cons x xs)
  then have e: "rp = Some x" "chained (nxt s) (nxt s x) xs" by auto
  show ?case
  proof (cases "x = pp")
    case True
    then show ?thesis using e by (subst dq_search.simps) simp
  next
    case False
    then have "dq_search s pp (prp, rp) = dq_search s pp (Some x, nxt s x)"
      using e(1) by (subst dq_search.simps) (simp add: nxt_def)
    also have "\<dots> = Some (if pp \<in> set xs
       then FoundAfter (case takeWhile (\<lambda>x. x \<noteq> pp) xs of [] \<Rightarrow> Some x | y # ys \<Rightarrow> Some (last (y # ys))) else NotFound)"
      using Cons e by simp
    finally show ?thesis using False by (auto split: list.split)
  qed
qed

lemma dq_search_found:
  assumes "chained (nxt s) rp (A @ p # B)" "distinct (A @ p # B)"
  shows "dq_search s p (None, rp) = Some (FoundAfter (lastp A))"
proof -
  have "takeWhile (\<lambda>x. x \<noteq> p) (A @ p # B) = A @ takeWhile (\<lambda>x. x \<noteq> p) (p # B)"
    by (rule takeWhile_append2) (use assms(2) in auto)
  then have "takeWhile (\<lambda>x. x \<noteq> p) (A @ p # B) = A" by simp
  then show ?thesis using dq_search_walk [OF assms, of p None] by (cases A) (simp_all add: lastp_def)
qed

lemma dq_unlink_ok:
  assumes ok: "links_ok Q s" and i: "i < length (dispqs s)" and q: "Q (Dq i) = A @ p # B"
  shows "links_ok (Q(Dq i := A @ B)) (dq_unlink i p (lastp A) s)"
proof -
  note D = links_okD [OF ok]
  have r: "qrep (nxt s) (dq_first (dispqs s ! i)) (dq_last (dispqs s ! i)) (A @ p # B)"
    using D(1) [of "Dq i"] i q by simp
  have d: "distinct (A @ p # B)" using D(3) [of "Dq i"] q by simp
  have in_i: "x \<in> set (A @ B) \<Longrightarrow> x \<in> set (Q (Dq i))" for x using q by auto
  have lt: "\<And>x. x \<in> set (A @ B) \<Longrightarrow> x < length (proctab s)" using D(5) in_i by blast
  have apart: "x \<notin> set (Q l)" if "x \<in> set (A @ B)" "l \<noteq> Dq i" for x l
    using D(4) [of "Dq i" l x] in_i [OF that(1)] that(2) by simp
  have nx: "p_link (pr s p) = nxt s p" by (simp add: nxt_def)
  show ?thesis
  proof (cases "A = []")
    case True
    have n: "qrep (nxt s) (nxt s p) (if nxt s p = None then None else dq_last (dispqs s ! i)) B"
      using r True by (intro qrep_unlink_head) simp
    show ?thesis unfolding dq_unlink_def Let_def nx
      by (rule links_ok_upd [OF ok]) (use n i d lt apart True in \<open>auto simp: firstq_dispqs\<close>)
  next
    case False
    have n: "qrep ((nxt s)(last A := nxt s p)) (dq_first (dispqs s ! i))
        (if nxt s p = None then Some (last A) else dq_last (dispqs s ! i)) (A @ B)"
      using r d False by (rule qrep_unlink_mid)
    have la: "last A \<in> set (A @ B)" using False by simp
    have e: "dq_unlink i p (lastp A) s = (set_link (last A) (nxt s p) s)\<lparr>dispqs := (dispqs s)[i := (dispqs s ! i)\<lparr>dq_last :=
        (if nxt s p = None then Some (last A) else dq_last (dispqs s ! i))\<rparr>]\<rparr>"
      using False by (simp add: dq_unlink_def lastp_def Let_def nx)
    show ?thesis unfolding e
    proof (rule links_ok_upd [OF ok])
      fix x l assume "l \<noteq> Dq i" "x \<in> set (Q l)"
      then have "x \<noteq> last A" using apart [OF la] by auto
      then show "nxt (set_link (last A) (nxt s p) s\<lparr>dispqs := (dispqs s)[i := (dispqs s ! i)\<lparr>dq_last :=
        (if nxt s p = None then Some (last A) else dq_last (dispqs s ! i))\<rparr>]\<rparr>) x = nxt s x"
        using lt [OF la] by (simp add: nxt_set_link)
    qed (use n i d lt lt [OF la] apart in \<open>auto simp: firstq_dispqs nxt_set_link\<close>)
  qed
qed

lemma dq_unlink_same: "disp_same s (dq_unlink i p prp s)"
  unfolding dq_unlink_def Let_def by (auto split: option.split intro: disp_same_link)

lemma take_counts:
  assumes ok: "disp_ok Q s" and i: "i < nglobpris s" and q: "Q (Dq i) = A @ p # B"
    and t: "t = dq_unlink i p (lastp A) s"
  shows "disp_ok (Q(Dq i := A @ B)) (if schedulable (pr t p) then dq_srundec (int i) t else t)"
    "links_ok (Q(Dq i := A @ B)) t" "schedulable (pr t p) = schedulable (pr s p)" "counts_ok (runcnt Q s) t"
proof -
  let ?Q = "Q(Dq i := A @ B)" and ?u = "if schedulable (pr t p) then dq_srundec (int i) t else t"
  note D = disp_okD [OF ok]
  have li: "i < length (dispqs s)" using counts_okD(1) [OF D(2)] i by simp
  have same: "disp_same s t" by (simp add: t dq_unlink_same)
  have p: "p < length (proctab s)" using links_okD(5) [OF D(1), of p "Dq i"] q by simp
  show sch: "schedulable (pr t p) = schedulable (pr s p)" using same_procsD(7) [OF disp_sameD(1) [OF same] p] .
  show lt: "links_ok ?Q t" unfolding t using D(1) li q by (rule dq_unlink_ok)
  show ct: "counts_ok (runcnt Q s) t" unfolding t using D(2) by (rule counts_link_back(3))
  have cnt: "runcnt ?Q ?u = (if schedulable (pr t p) then (runcnt Q s)(i := runcnt Q s i - 1) else runcnt Q s)"
  proof
    fix j
    have "runcnt Q t j = runcnt Q s j" using runcnt_cong [OF D(1) disp_sameD(1) [OF same]] by simp
    moreover have "runcnt ?Q ?u = runcnt ?Q t" by (simp add: runcnt_def fun_eq_iff)
    ultimately show "runcnt ?Q ?u j = (if schedulable (pr t p) then (runcnt Q s)(i := runcnt Q s i - 1) else runcnt Q s) j"
      using q by (auto simp: runcnt_def)
  qed
  have pos: "schedulable (pr t p) \<Longrightarrow> 0 < runcnt Q s i" using q sch by (simp add: runcnt_def)
  have "p_pri (pr ?u x) = int j" if "x \<in> set (?Q (Dq j))" for x j
  proof -
    have x: "x \<in> set (Q (Dq j))" using that q by (auto split: if_splits)
    then have "x < length (proctab s)" using links_okD(5) [OF D(1)] by blast
    then have "p_pri (pr t x) = p_pri (pr s x)" using same_procsD(3) [OF disp_sameD(1) [OF same]] by blast
    then show ?thesis using D(3) [OF x] by simp
  qed
  moreover have "counts_ok (runcnt ?Q ?u) ?u" unfolding cnt using ct counts_srundec [OF ct pos] by simp
  ultimately show "disp_ok ?Q ?u" using lt by (simp add: disp_ok_def del: fun_upd_apply)
qed

text \<open>\<open>dispdeq\<close> always returns, and takes the process off if it is on the queue of its priority.\<close>

lemma dispdeq_off:
  assumes ok: "disp_ok Q s" and pri: "p_pri (pr s p) = int i" "i < nglobpris s" and off: "p \<notin> set (Q (Dq i))"
  shows "dispdeq p s = Some (False, s)"
proof -
  have "qvalid s (Dq i)" using disp_okD(4) [OF ok] pri by simp
  then have l: "chained (nxt s) (dq_first (dispqs s ! i)) (Q (Dq i))"
    using links_okD(1) [OF disp_okD(1) [OF ok], of "Dq i"] by (simp add: qrep_def)
  have "dq_search s p (None, dq_first (dispqs s ! i)) = Some NotFound"
    using dq_search_walk [OF l links_okD(3) [OF disp_okD(1) [OF ok]], of p None] off by simp
  then show ?thesis by (simp add: dispdeq_def Let_def pri)
qed

lemma dispdeq_on:
  assumes ok: "disp_ok Q s" and on: "Q (Dq i) = A @ p # B"
  shows "\<exists>t. dispdeq p s = Some (True, t) \<and> disp_ok (Q(Dq i := A @ B)) t \<and> disp_same s t"
proof -
  note D = disp_okD [OF ok]
  have v: "qvalid s (Dq i)" using links_okD(6) [OF D(1), of p "Dq i"] on by simp
  then have i: "i < nglobpris s" using D(4) by simp
  have pri: "p_pri (pr s p) = int i" using D(3) [of p i] on by simp
  have l: "chained (nxt s) (dq_first (dispqs s ! i)) (A @ p # B)"
    using links_okD(1) [OF D(1) v] on by (simp add: qrep_def)
  have d: "distinct (A @ p # B)" using links_okD(3) [OF D(1), of "Dq i"] on by simp
  define t where "t = dq_unlink i p (lastp A) s"
  define u where "u = (if schedulable (pr t p) then dq_srundec (int i) t else t)"
  have "dispdeq p s = Some (True, u)"
    using dq_search_found [OF l d] by (simp add: dispdeq_def Let_def pri t_def u_def)
  moreover have "disp_ok (Q(Dq i := A @ B)) u" unfolding u_def by (rule take_counts(1) [OF ok i on t_def])
  moreover have "disp_same s u"
    using disp_same_trans [OF dq_unlink_same disp_same_inc(2)] dq_unlink_same unfolding u_def t_def by auto
  ultimately show ?thesis by blast
qed

section \<open>Changes beside the queues\<close>

lemma disp_ok_cong:
  assumes ok: "disp_ok Q s" and len: "length (proctab s) \<le> length (proctab t)"
    and eq: "dispqs t = dispqs s" "slpqs t = slpqs s" "dqactmap t = dqactmap s" "srunprocs t = srunprocs s"
      "nglobpris t = nglobpris s" "maxrunpri t = maxrunpri s"
    and pr: "\<And>x. queued Q x \<Longrightarrow> nxt t x = nxt s x" "\<And>i x. x \<in> set (Q (Dq i)) \<Longrightarrow> p_pri (pr t x) = p_pri (pr s x)"
      "\<And>i x. x \<in> set (Q (Dq i)) \<Longrightarrow> schedulable (pr t x) = schedulable (pr s x)"
  shows "disp_ok Q t"
proof -
  have h: "firstq t k = firstq s k" "lastq t k = lastq s k" "qvalid t k = qvalid s k" for k
    using eq by (cases k; simp)+
  have "links_ok Q t" by (rule links_ok_cong [OF disp_okD(1) [OF ok] pr(1)]) (use h len in auto)
  moreover have "filter (\<lambda>x. schedulable (pr t x)) (Q (Dq i)) = filter (\<lambda>x. schedulable (pr s x)) (Q (Dq i))" for i
    using pr(3) by (intro filter_cong) auto
  then have "runcnt Q t = runcnt Q s" by (simp add: runcnt_def fun_eq_iff)
  moreover have "counts_ok (runcnt Q s) t" using disp_okD(2) [OF ok] eq by (simp add: counts_ok_def)
  ultimately show ?thesis using disp_okD(3) [OF ok] pr(2) by (simp add: disp_ok_def)
qed

lemma disp_ok_proc:
  assumes ok: "disp_ok Q s" and p: "p < length (proctab s)" "p_link (f (pr s p)) = p_link (pr s p)"
    and q: "\<And>i. p \<in> set (Q (Dq i)) \<Longrightarrow> p_pri (f (pr s p)) = p_pri (pr s p) \<and> schedulable (f (pr s p)) = schedulable (pr s p)"
  shows "disp_ok Q (upd_proc p f s)"
  by (rule disp_ok_cong [OF ok]) (use p q in \<open>auto simp: pr_upd nxt_def\<close>)

lemma disp_ok_stat: "disp_ok Q s \<Longrightarrow> p < length (proctab s) \<Longrightarrow> disp_ok Q (set_stat p st s)"
  unfolding set_stat_def by (erule disp_ok_proc) (auto simp: schedulable_def)

section \<open>The switch\<close>

lemma pswtch_scan_first:
  "chained (nxt s) rp xs \<Longrightarrow> xs = A @ p # B \<Longrightarrow> \<forall>a \<in> set A. \<not> schedulable (pr s a) \<Longrightarrow> schedulable (pr s p) \<Longrightarrow>
     pswtch_scan s prp rp = Some (case A of [] \<Rightarrow> prp | a # as \<Rightarrow> Some (last A), p)"
proof (induction A arbitrary: prp rp xs)
  case Nil
  then show ?case by (subst pswtch_scan.simps) simp
next
  case (Cons a A)
  then have e: "rp = Some a" "chained (nxt s) (nxt s a) (A @ p # B)" by auto
  have "pswtch_scan s prp rp = pswtch_scan s (Some a) (nxt s a)"
    using Cons.prems e(1) by (subst pswtch_scan.simps) (simp add: nxt_def)
  also have "\<dots> = Some (case A of [] \<Rightarrow> Some a | a # as \<Rightarrow> Some (last A), p)" using Cons e by simp
  finally show ?case by (auto split: list.split)
qed

lemma pswtch_count_dec: "maxrunpri s = int m \<Longrightarrow> pswtch_count m s = dq_srundec (int m) s"
  by (simp add: pswtch_count_def dq_srundec_def Let_def)

text \<open>The process the switch gives the processor to: the first of the highest queue that can run.\<close>

lemma pswtch_pick_ok:
  assumes ok: "disp_ok Q s" and m: "maxrunpri s = int m"
  shows "\<exists>A p B t. Q (Dq m) = A @ p # B \<and> (\<forall>a \<in> set A. \<not> schedulable (pr s a)) \<and> schedulable (pr s p)
    \<and> (\<forall>i x. x \<in> set (Q (Dq i)) \<and> schedulable (pr s x) \<longrightarrow> i \<le> m)
    \<and> pswtch_pick s = Some (set_stat p SONPROC t\<lparr>curpri := int m, curproc := p, runrun := 0, kprunrun := 0, npwakecnt := 0\<rparr>)
    \<and> disp_ok (Q(Dq m := A @ B)) t \<and> disp_same s t"
proof -
  note D = disp_okD [OF ok]
  from D(2) m have top: "0 < runcnt Q s m" "\<And>i. 0 < runcnt Q s i \<Longrightarrow> i \<le> m" by (cases rule: counts_top; simp)+
  then obtain x where "x \<in> set (Q (Dq m))" "schedulable (pr s x)" by (auto simp: runcnt_def filter_empty_conv)
  then obtain A p B where q: "Q (Dq m) = A @ p # B" "\<forall>a \<in> set A. \<not> schedulable (pr s a)" "schedulable (pr s p)"
    using split_list_first_prop [of "Q (Dq m)" "\<lambda>x. schedulable (pr s x)"] by blast
  have v: "qvalid s (Dq m)" using links_okD(6) [OF D(1), of p "Dq m"] q by simp
  then have i: "m < nglobpris s" using D(4) by simp
  have high: "i \<le> m" if "x \<in> set (Q (Dq i))" "schedulable (pr s x)" for i x
    using top(2) [of i] that by (auto simp: runcnt_def filter_empty_conv)
  define z where "z = s\<lparr>runrun := 0, kprunrun := 0, npwakecnt := 0\<rparr>"
  have zf: "proctab z = proctab s" "dispqs z = dispqs s" "maxrunpri z = int m" "nglobpris z = nglobpris s" by (simp_all add: z_def m)
  have okz: "disp_ok Q z" by (rule disp_ok_cong [OF ok]) (simp_all add: z_def nxt_def)
  have l: "chained (nxt z) (dq_first (dispqs z ! m)) (A @ p # B)"
    using links_okD(1) [OF disp_okD(1) [OF okz], of "Dq m"] v q zf by (simp add: qrep_def)
  have scan: "pswtch_scan z None (dq_first (dispqs z ! m)) = Some (lastp A, p)"
    using pswtch_scan_first [OF l refl, of None] q zf by (cases A) (simp_all add: lastp_def)
  define t where "t = dq_unlink m p (lastp A) z"
  have iz: "m < nglobpris z" using i zf by simp
  note tc = take_counts [OF okz iz q(1) t_def]
  have st: "schedulable (pr t p)" using tc(3) q(3) zf by simp
  have tm: "maxrunpri t = int m" using zf by (simp add: t_def dq_unlink_def Let_def set_link_def split: option.split)
  define u where "u = dq_srundec (int m) t"
  have ok_u: "disp_ok (Q(Dq m := A @ B)) u" using tc(1) st by (simp add: u_def)
  have same: "disp_same z u" unfolding u_def t_def by (rule disp_same_trans [OF dq_unlink_same disp_same_inc(2)])
  have p: "p < length (proctab s)" using links_okD(5) [OF D(1), of p "Dq m"] q by simp
  have pu: "p < length (proctab u)" "p_pri (pr u p) = int m"
    using p same_procs_len [OF disp_sameD(1) [OF same]] same_procsD(3) [OF disp_sameD(1) [OF same], of p] D(3) [of p m] q zf by auto
  have "pswtch_pick s = Some (pswtch_run p u)"
    unfolding pswtch_pick_def Let_def z_def [symmetric]
    by (simp add: zf(3) scan t_def [symmetric] pswtch_count_dec [OF tm] u_def)
  then have pick: "pswtch_pick s = Some (set_stat p SONPROC u\<lparr>curpri := int m, curproc := p\<rparr>)"
    using pu by (simp add: pswtch_run_def set_stat_def pr_upd Let_def)
  define w where "w = u\<lparr>runrun := runrun s, kprunrun := kprunrun s, npwakecnt := npwakecnt s\<rparr>"
  have "set_stat p SONPROC u\<lparr>curpri := int m, curproc := p\<rparr>
      = set_stat p SONPROC w\<lparr>curpri := int m, curproc := p, runrun := 0, kprunrun := 0, npwakecnt := 0\<rparr>"
    using disp_sameD(8,9,10) [OF same] by (simp add: w_def set_stat_def upd_proc_def z_def)
  moreover have "disp_ok (Q(Dq m := A @ B)) w" by (rule disp_ok_cong [OF ok_u]) (simp_all add: w_def nxt_def)
  moreover have "disp_same s w"
    by (rule disp_sameI) (use disp_sameD [OF same] in \<open>simp_all add: w_def z_def same_procs_def\<close>)
  ultimately show ?thesis using q high pick by (intro exI [of _ A] exI [of _ p] exI [of _ B] exI [of _ w]) auto
qed

end
