(* ===== verification/Sched_Classes.thy ===== *)
theory Sched_Classes
  imports Disp_Queues
begin

text \<open>
  The scheduling classes of the kernel proper: system (\<open>proc/class/sysclass.c\<close>), time-sharing
  (\<open>proc/class/ts.c\<close>) and real-time (\<open>proc/class/rt.c\<close>), and the calls through the class
  functions of a process (\<open>proc/class.h\<close>).

  A function of a class is applied to a process of that class.  The counters \<open>runrun\<close>, \<open>kprunrun\<close>
  and \<open>npwakecnt\<close> are kept as integers: they are reset at every switch.
\<close>

unbundle bit_operations_syntax

section \<open>The structures of the classes\<close>

definition ts_none :: tsproc where
  "ts_none = \<lparr>ts_timeleft = 0, ts_cpupri = 0, ts_uprilim = 0, ts_upri = 0, ts_umdpri = 0, ts_nice = 0,
     ts_flags = 0, ts_dispwait = 0, ts_sleepwait = 0\<rparr>"

definition rt_none :: rtproc where
  "rt_none = \<lparr>rt_pquantum = 0, rt_timeleft = 0, rt_pri = 0, rt_flags = 0\<rparr>"

definition tsof :: "proc \<Rightarrow> tsproc" where
  "tsof x = (case p_clproc x of TsClass t \<Rightarrow> t | _ \<Rightarrow> ts_none)"

definition rtof :: "proc \<Rightarrow> rtproc" where
  "rtof x = (case p_clproc x of RtClass r \<Rightarrow> r | _ \<Rightarrow> rt_none)"

definition is_ts :: "clproc \<Rightarrow> bool" where "is_ts k \<longleftrightarrow> (case k of TsClass _ \<Rightarrow> True | _ \<Rightarrow> False)"
definition is_rt :: "clproc \<Rightarrow> bool" where "is_rt k \<longleftrightarrow> (case k of RtClass _ \<Rightarrow> True | _ \<Rightarrow> False)"
definition is_sys :: "clproc \<Rightarrow> bool" where "is_sys k \<longleftrightarrow> k = SysClass"

definition upd_ts :: "nat \<Rightarrow> (tsproc \<Rightarrow> tsproc) \<Rightarrow> sched \<Rightarrow> sched" where
  "upd_ts p f = upd_proc p (\<lambda>x. x\<lparr>p_clproc := (case p_clproc x of TsClass t \<Rightarrow> TsClass (f t) | k \<Rightarrow> k)\<rparr>)"

definition upd_rt :: "nat \<Rightarrow> (rtproc \<Rightarrow> rtproc) \<Rightarrow> sched \<Rightarrow> sched" where
  "upd_rt p f = upd_proc p (\<lambda>x. x\<lparr>p_clproc := (case p_clproc x of RtClass r \<Rightarrow> RtClass (f r) | k \<Rightarrow> k)\<rparr>)"

definition bump_runrun :: "sched \<Rightarrow> sched" where
  "bump_runrun s = s\<lparr>runrun := runrun s + 1\<rparr>"

definition bump_both :: "sched \<Rightarrow> sched" where
  "bump_both s = s\<lparr>runrun := runrun s + 1, kprunrun := kprunrun s + 1\<rparr>"

section \<open>The system class\<close>

definition sys_preempt :: "nat \<Rightarrow> sched \<Rightarrow> sched" where "sys_preempt = setfrontdq"
definition sys_setrun :: "nat \<Rightarrow> sched \<Rightarrow> sched" where "sys_setrun = setbackdq"
definition sys_wakeup :: "nat \<Rightarrow> sched \<Rightarrow> sched" where "sys_wakeup = setbackdq"
definition sys_forkret :: "nat \<Rightarrow> sched \<Rightarrow> sched" where "sys_forkret = setbackdq"

definition sys_sleep :: "sched_conf \<Rightarrow> nat \<Rightarrow> bits \<Rightarrow> sched \<Rightarrow> sched" where
  "sys_sleep c p dsp s = set_pri p (v_maxsyspri c - dpri dsp) s"

section \<open>The time-sharing class\<close>

definition TS_NEWUMDPRI :: "sched_conf \<Rightarrow> tsproc \<Rightarrow> tsproc" where
  "TS_NEWUMDPRI c t =
     (let u = s16 (ts_cpupri t + ts_upri t) in
      t\<lparr>ts_umdpri := (if u > ts_maxumdpri c then ts_maxumdpri c else if u < 0 then 0 else u)\<rparr>)"

definition tsmedumdpri :: "sched_conf \<Rightarrow> int" where
  "tsmedumdpri c = ts_maxumdpri c div 2"

definition tsent :: "sched \<Rightarrow> int \<Rightarrow> tsdpent" where
  "tsent s i = ts_dptbl s ! nat i"

text \<open>The entry of the dispatcher parameter table for the user mode priority of a process.\<close>

definition tsumd :: "sched \<Rightarrow> nat \<Rightarrow> tsdpent" where
  "tsumd s p = tsent s (ts_umdpri (tsof (pr s p)))"

text \<open>A process gets the time quantum of its user mode priority.\<close>

definition ts_quantum_in :: "nat \<Rightarrow> sched \<Rightarrow> sched" where
  "ts_quantum_in p s = (let q = ts_quantum (tsumd s p) in upd_ts p (\<lambda>t. t\<lparr>ts_timeleft := q\<rparr>) s)"

definition ts_preempt :: "nat \<Rightarrow> sched \<Rightarrow> sched" where
  "ts_preempt p s =
     (let fl = ts_flags (tsof (pr s p)) AND (TSBACKQ OR TSKPRI OR TSFORK) in
      if fl = TSBACKQ then
        setbackdq p (upd_ts p (\<lambda>t. t\<lparr>ts_dispwait := 0, ts_flags := ts_flags t AND NOT TSBACKQ\<rparr>) (ts_quantum_in p s))
      else if fl = TSBACKQ OR TSKPRI then
        setbackdq p (upd_ts p (\<lambda>t. t\<lparr>ts_flags := ts_flags t AND NOT TSBACKQ\<rparr>) s)
      else if fl = TSBACKQ OR TSFORK then
        setbackdq p (upd_ts p (\<lambda>t. t\<lparr>ts_dispwait := 0, ts_flags := ts_flags t AND NOT (TSBACKQ OR TSFORK)\<rparr>) s)
      else setfrontdq p s)"

definition ts_setrun :: "nat \<Rightarrow> sched \<Rightarrow> sched" where
  "ts_setrun p s =
     (let s = (if ts_flags (tsof (pr s p)) AND TSKPRI = 0
               then upd_ts p (\<lambda>t. t\<lparr>ts_dispwait := 0\<rparr>) (ts_quantum_in p s) else s) in
      setbackdq p (upd_ts p (\<lambda>t. t\<lparr>ts_flags := ts_flags t AND NOT (TSBACKQ OR TSFORK)\<rparr>) s))"

definition ts_sleep :: "sched_conf \<Rightarrow> nat \<Rightarrow> bits \<Rightarrow> sched \<Rightarrow> sched" where
  "ts_sleep c p dsp s =
     set_pri p (ts_kmdpris c ! nat (ts_maxkmdpri c - dpri dsp))
       (upd_ts p (\<lambda>t. t\<lparr>ts_flags := ts_flags t OR TSKPRI\<rparr>) s)"

definition ts_wakeup :: "nat \<Rightarrow> sched \<Rightarrow> sched" where
  "ts_wakeup p s = setbackdq p (upd_ts p (\<lambda>t. t\<lparr>ts_flags := ts_flags t AND NOT (TSBACKQ OR TSFORK)\<rparr>) s)"

text \<open>
  A process gets the global priority of its user mode priority, which its place on the queues
  follows: taken off its queue before and put at the back of the new one, or marked to be.
\<close>

definition ts_requeue :: "bool \<Rightarrow> nat \<Rightarrow> sched \<Rightarrow> sched" where
  "ts_requeue wasonq p s =
     (if wasonq then setbackdq p (ts_quantum_in p s)
      else upd_ts p (\<lambda>t. t\<lparr>ts_flags := ts_flags t OR TSBACKQ\<rparr>) s)"

definition ts_tick :: "sched_conf \<Rightarrow> nat \<Rightarrow> sched \<Rightarrow> sched option" where
  "ts_tick c p s =
     (if ts_flags (tsof (pr s p)) AND TSKPRI \<noteq> 0 then Some s
      else
        let s = upd_ts p (\<lambda>t. t\<lparr>ts_timeleft := s32 (ts_timeleft t - 1)\<rparr>) s in
        if ts_timeleft (tsof (pr s p)) = 0 then
          do {
            (wasonq, s) \<leftarrow> dispdeq p s;
            let s = upd_ts p (\<lambda>t. TS_NEWUMDPRI c (t\<lparr>ts_cpupri := ts_tqexp (tsent s (ts_cpupri t)), ts_sleepwait := 0\<rparr>)) s;
            let g = ts_globpri (tsumd s p);
            let s = upd_ts p (\<lambda>t. t\<lparr>ts_dispwait := 0\<rparr>) (set_pri p g (s\<lparr>curpri := g\<rparr>));
            Some (bump_runrun (ts_requeue wasonq p s))
          }
        else Some s)"

definition ts_trapret :: "sched_conf \<Rightarrow> nat \<Rightarrow> sched \<Rightarrow> sched" where
  "ts_trapret c p s =
     (if ts_flags (tsof (pr s p)) AND TSKPRI = 0 then s
      else
        let s = (if ts_sleepwait (tsof (pr s p)) > TS_SLEEPWAIT then
                   let s = upd_ts p (\<lambda>t. t\<lparr>ts_cpupri := ts_slpret (tsent s (ts_cpupri t))\<rparr>) s;
                       s = ts_quantum_in p s in
                   upd_ts p (\<lambda>t. t\<lparr>ts_sleepwait := (if ts_sleepwait t > TS_SLEEPMAX then TS_SLEEPMAX div 2
                                                     else ts_sleepwait t div 2)\<rparr>) s
                 else s);
            s = upd_ts p (\<lambda>t. let t = TS_NEWUMDPRI c t in t\<lparr>ts_flags := ts_flags t AND NOT TSKPRI\<rparr>) s;
            g = ts_globpri (tsumd s p);
            s = upd_ts p (\<lambda>t. t\<lparr>ts_dispwait := 0\<rparr>) (set_pri p g (s\<lparr>curpri := g\<rparr>)) in
        if npwakecnt s = 0 then
          if curpri s < maxrunpri s then bump_runrun s
          else if curpri s = maxrunpri s \<and> ts_umdpri (tsof (pr s p)) = ts_maxumdpri c then
            bump_runrun (upd_ts p (\<lambda>t. t\<lparr>ts_flags := ts_flags t OR TSBACKQ\<rparr>) s)
          else s
        else s)"

text \<open>The step of \<open>ts_update\<close> for one process of the list.\<close>

definition ts_update_one :: "sched_conf \<Rightarrow> nat \<Rightarrow> sched \<Rightarrow> sched option" where
  "ts_update_one c p s =
     (if ts_flags (tsof (pr s p)) AND TSKPRI \<noteq> 0 then
        Some (if p_stat (pr s p) = SSLEEP then upd_ts p (\<lambda>t. t\<lparr>ts_sleepwait := s32 (ts_sleepwait t + 8)\<rparr>) s else s)
      else if p_stat (pr s p) \<noteq> SRUN \<and> p_stat (pr s p) \<noteq> SONPROC \<or> p_flag (pr s p) AND SPROCIO \<noteq> 0 then Some s
      else
        let s = upd_ts p (\<lambda>t. t\<lparr>ts_dispwait := s16 (ts_dispwait t + 1)\<rparr>) s in
        if ts_dispwait (tsof (pr s p)) \<le> ts_maxwait (tsumd s p) then Some s
        else
          let s = upd_ts p (\<lambda>t. (TS_NEWUMDPRI c (t\<lparr>ts_cpupri := ts_lwait (tsent s (ts_cpupri t))\<rparr>))\<lparr>ts_dispwait := 0\<rparr>) s in
          do {
            (wasonq, s) \<leftarrow> dispdeq p s;
            let g = ts_globpri (tsumd s p);
            let s = set_pri p g (if p = curproc s then s\<lparr>curpri := g\<rparr> else s);
            Some (ts_requeue wasonq p s)
          })"

fun ts_update_list :: "sched_conf \<Rightarrow> nat list \<Rightarrow> sched \<Rightarrow> sched option" where
  "ts_update_list c [] s = Some s"
| "ts_update_list c (p # ps) s = do { s \<leftarrow> ts_update_one c p s; ts_update_list c ps s }"

definition ts_update :: "sched_conf \<Rightarrow> sched \<Rightarrow> sched option" where
  "ts_update c s = do { s \<leftarrow> ts_update_list c (ts_plist s) s; Some (bump_runrun s) }"

text \<open>Fork: the structure of the child, whose process is \<open>cp\<close>; the child runs first.\<close>

definition ts_fork :: "nat \<Rightarrow> nat \<Rightarrow> sched \<Rightarrow> sched" where
  "ts_fork pp cp s =
     (let t = tsof (pr s pp);
          ct = t\<lparr>ts_timeleft := ts_quantum (tsent s (ts_umdpri t)), ts_sleepwait := 0, ts_dispwait := 0,
                 ts_flags := ts_flags t AND NOT TSBACKQ\<rparr> in
      (upd_proc cp (\<lambda>x. x\<lparr>p_clproc := TsClass ct\<rparr>) s)\<lparr>ts_plist := cp # ts_plist s\<rparr>)"

definition ts_forkret :: "nat \<Rightarrow> nat option \<Rightarrow> sched \<Rightarrow> sched" where
  "ts_forkret cp pp s =
     (let s = setbackdq cp s in
      case pp of
        None \<Rightarrow> s
      | Some p \<Rightarrow> bump_runrun (upd_ts p (\<lambda>t. t\<lparr>ts_flags := ts_flags t OR (TSBACKQ OR TSFORK)\<rparr>) s))"

definition ts_exitclass :: "nat \<Rightarrow> sched \<Rightarrow> sched" where
  "ts_exitclass p s = s\<lparr>ts_plist := remove1 p (ts_plist s)\<rparr>"

section \<open>The real-time class\<close>

definition rt_preempt :: "nat \<Rightarrow> sched \<Rightarrow> sched" where
  "rt_preempt p s =
     (let s = (if p = curproc s then upd_rt p (\<lambda>r. r\<lparr>rt_flags := rt_flags r OR RTRAN\<rparr>) s else s) in
      if rt_flags (rtof (pr s p)) AND RTBACKQ \<noteq> 0 then
        setbackdq p (upd_rt p (\<lambda>r. r\<lparr>rt_timeleft := rt_pquantum r, rt_flags := rt_flags r AND NOT RTBACKQ\<rparr>) s)
      else setfrontdq p s)"

definition rt_wakeup :: "nat \<Rightarrow> sched \<Rightarrow> sched" where
  "rt_wakeup p s =
     (let s = setbackdq p (upd_rt p (\<lambda>r. r\<lparr>rt_timeleft := rt_pquantum r, rt_flags := rt_flags r AND NOT RTBACKQ\<rparr>) s) in
      if p_pri (pr s p) > curpri s then bump_both s else s)"

definition rt_setrun :: "nat \<Rightarrow> sched \<Rightarrow> sched" where
  "rt_setrun p s =
     (let s = setbackdq p (upd_rt p (\<lambda>r. r\<lparr>rt_timeleft := rt_pquantum r, rt_flags := rt_flags r AND NOT RTBACKQ\<rparr>) s) in
      if p_pri (pr s p) > curpri s then bump_both s else s)"

definition rt_sleep :: "nat \<Rightarrow> sched \<Rightarrow> sched" where
  "rt_sleep p s = upd_rt p (\<lambda>r. r\<lparr>rt_flags := rt_flags r OR RTRAN\<rparr>) s"

definition rt_stop :: "nat \<Rightarrow> sched \<Rightarrow> sched" where
  "rt_stop p s = (if p = curproc s then upd_rt p (\<lambda>r. r\<lparr>rt_flags := rt_flags r OR RTRAN\<rparr>) s else s)"

definition rt_tick :: "nat \<Rightarrow> sched \<Rightarrow> sched" where
  "rt_tick p s =
     (if rt_pquantum (rtof (pr s p)) \<noteq> RT_TQINF then
        let s = upd_rt p (\<lambda>r. r\<lparr>rt_timeleft := s32 (rt_timeleft r - 1)\<rparr>) s in
        if rt_timeleft (rtof (pr s p)) = 0
        then bump_both (upd_rt p (\<lambda>r. r\<lparr>rt_flags := rt_flags r OR RTBACKQ\<rparr>) s) else s
      else s)"

definition rt_fork :: "nat \<Rightarrow> nat \<Rightarrow> sched \<Rightarrow> sched" where
  "rt_fork pp cp s =
     (let r = rtof (pr s pp);
          cr = r\<lparr>rt_timeleft := rt_pquantum r, rt_flags := rt_flags r AND NOT RTBACKQ\<rparr> in
      (upd_proc cp (\<lambda>x. x\<lparr>p_clproc := RtClass cr\<rparr>) s)\<lparr>rt_plist := cp # rt_plist s\<rparr>)"

definition rt_forkret :: "nat \<Rightarrow> sched \<Rightarrow> sched" where "rt_forkret = setbackdq"

definition rt_exitclass :: "nat \<Rightarrow> sched \<Rightarrow> sched" where
  "rt_exitclass p s = s\<lparr>rt_plist := remove1 p (rt_plist s)\<rparr>"

section \<open>Calls through the class of a process\<close>

definition CL_PREEMPT :: "nat \<Rightarrow> sched \<Rightarrow> sched" where
  "CL_PREEMPT p s = (case p_clproc (pr s p) of
     SysClass \<Rightarrow> sys_preempt p s | TsClass _ \<Rightarrow> ts_preempt p s | RtClass _ \<Rightarrow> rt_preempt p s)"

definition CL_SETRUN :: "nat \<Rightarrow> sched \<Rightarrow> sched" where
  "CL_SETRUN p s = (case p_clproc (pr s p) of
     SysClass \<Rightarrow> sys_setrun p s | TsClass _ \<Rightarrow> ts_setrun p s | RtClass _ \<Rightarrow> rt_setrun p s)"

definition CL_WAKEUP :: "nat \<Rightarrow> sched \<Rightarrow> sched" where
  "CL_WAKEUP p s = (case p_clproc (pr s p) of
     SysClass \<Rightarrow> sys_wakeup p s | TsClass _ \<Rightarrow> ts_wakeup p s | RtClass _ \<Rightarrow> rt_wakeup p s)"

definition CL_SLEEP :: "sched_conf \<Rightarrow> nat \<Rightarrow> bits \<Rightarrow> sched \<Rightarrow> sched" where
  "CL_SLEEP c p dsp s = (case p_clproc (pr s p) of
     SysClass \<Rightarrow> sys_sleep c p dsp s | TsClass _ \<Rightarrow> ts_sleep c p dsp s | RtClass _ \<Rightarrow> rt_sleep p s)"

definition CL_STOP :: "nat \<Rightarrow> sched \<Rightarrow> sched" where
  "CL_STOP p s = (case p_clproc (pr s p) of RtClass _ \<Rightarrow> rt_stop p s | _ \<Rightarrow> s)"

definition CL_TICK :: "sched_conf \<Rightarrow> nat \<Rightarrow> sched \<Rightarrow> sched option" where
  "CL_TICK c p s = (case p_clproc (pr s p) of
     SysClass \<Rightarrow> Some s | TsClass _ \<Rightarrow> ts_tick c p s | RtClass _ \<Rightarrow> Some (rt_tick p s))"

definition CL_TRAPRET :: "sched_conf \<Rightarrow> nat \<Rightarrow> sched \<Rightarrow> sched" where
  "CL_TRAPRET c p s = (case p_clproc (pr s p) of TsClass _ \<Rightarrow> ts_trapret c p s | _ \<Rightarrow> s)"

definition CL_FORK :: "nat \<Rightarrow> nat \<Rightarrow> sched \<Rightarrow> sched" where
  "CL_FORK pp cp s = (case p_clproc (pr s pp) of
     SysClass \<Rightarrow> upd_proc cp (\<lambda>x. x\<lparr>p_clproc := SysClass\<rparr>) s
   | TsClass _ \<Rightarrow> ts_fork pp cp s | RtClass _ \<Rightarrow> rt_fork pp cp s)"

definition CL_FORKRET :: "nat \<Rightarrow> nat option \<Rightarrow> sched \<Rightarrow> sched" where
  "CL_FORKRET cp pp s = (case p_clproc (pr s cp) of
     SysClass \<Rightarrow> sys_forkret cp s | TsClass _ \<Rightarrow> ts_forkret cp pp s | RtClass _ \<Rightarrow> rt_forkret cp s)"

definition CL_EXITCLASS :: "nat \<Rightarrow> sched \<Rightarrow> sched" where
  "CL_EXITCLASS p s = (case p_clproc (pr s p) of
     SysClass \<Rightarrow> s | TsClass _ \<Rightarrow> ts_exitclass p s | RtClass _ \<Rightarrow> rt_exitclass p s)"

end
