(* ===== verification/Sched_Sleep.thy ===== *)
theory Sched_Sleep
  imports Sched_Classes
begin

text \<open>
  Going to sleep and waking up (\<open>proc/slp.c\<close>), being stopped (\<open>stop\<close> of \<open>proc/sig.c\<close>, as far as the
  queues are concerned), and the hook of \<open>/proc\<close> (\<open>prawake\<close> of \<open>fs/procfs/prsubr.c\<close>).

  \<open>sleep\<close> gives up the processor in the middle; it is cut there, and where it looks for signals,
  because the process can be stopped while it does.  What \<open>ISSIG\<close> answers is an argument.  The
  result \<open>None\<close> is a search that does not return.  Left out: the covert channel limiter.
\<close>

unbundle bit_operations_syntax

definition sqhash :: "int \<Rightarrow> nat" where
  "sqhash chan = nat (drop_bit 3 chan AND (int NSLEEPQ - 1))"

section \<open>Waking\<close>

text \<open>A preemption, or the swapping in, of a process that has become runnable; the flag says that
the swapper is to be set running.\<close>

definition arrange :: "bool \<Rightarrow> nat \<Rightarrow> bool \<Rightarrow> sched \<Rightarrow> bool \<times> sched" where
  "arrange prmpt pp runsched s =
     (if p_flag (pr s pp) AND SLOAD = 0 then (if runout s > 0 then True else runsched, s)
      else (runsched, if p_pri (pr s pp) > curpri s \<and> prmpt then s\<lparr>runrun := 1\<rparr> else s))"

text \<open>A process that slept becomes runnable.\<close>

definition wake_proc :: "bool \<Rightarrow> nat \<Rightarrow> bool \<Rightarrow> sched \<Rightarrow> bool \<times> sched" where
  "wake_proc prmpt pp runsched s =
     (let s = set_stat pp SRUN s;
          s = (if \<not> prmpt then s\<lparr>npwakecnt := npwakecnt s + 1\<rparr> else s) in
      arrange prmpt pp runsched (CL_WAKEUP pp s))"

text \<open>\<open>*plinkp\<close>: the link of the process before, or the head of the queue.\<close>

definition get_plink :: "nat \<Rightarrow> nat option \<Rightarrow> sched \<Rightarrow> nat option" where
  "get_plink i rp s = (case rp of None \<Rightarrow> sq_first (slpqs s ! i) | Some r \<Rightarrow> p_link (pr s r))"

definition set_plink :: "nat \<Rightarrow> nat option \<Rightarrow> nat option \<Rightarrow> sched \<Rightarrow> sched" where
  "set_plink i rp v s = (case rp of
     None \<Rightarrow> s\<lparr>slpqs := (slpqs s)[i := (slpqs s ! i)\<lparr>sq_first := v\<rparr>]\<rparr>
   | Some r \<Rightarrow> set_link r v s)"

definition set_sqlast :: "nat \<Rightarrow> nat option \<Rightarrow> sched \<Rightarrow> sched" where
  "set_sqlast i v s = s\<lparr>slpqs := (slpqs s)[i := (slpqs s ! i)\<lparr>sq_last := v\<rparr>]\<rparr>"

definition clear_wchan :: "nat \<Rightarrow> sched \<Rightarrow> sched" where
  "clear_wchan p = upd_proc p (\<lambda>x. x\<lparr>p_wchan := 0\<rparr>)"

text \<open>The loop of \<open>wakeprocs\<close>, at the process before the next one, with \<open>runsched\<close>.\<close>

partial_function (option) wake_loop ::
    "int \<Rightarrow> bool \<Rightarrow> nat option \<times> bool \<times> sched \<Rightarrow> (bool \<times> sched) option" where
  "wake_loop chan prmpt w =
     (let i = sqhash chan; rp = fst w; runsched = fst (snd w); s = snd (snd w) in
      case get_plink i rp s of
        None \<Rightarrow> Some (runsched, set_sqlast i rp s)
      | Some pp \<Rightarrow>
          if p_wchan (pr s pp) = chan then
            let s = set_plink i rp (p_link (pr s pp)) (clear_wchan pp s) in
            wake_loop chan prmpt (rp, if p_stat (pr s pp) = SSLEEP then wake_proc prmpt pp runsched s else (runsched, s))
          else wake_loop chan prmpt (Some pp, runsched, s))"

text \<open>The loop of \<open>wake_oneproc\<close>.\<close>

partial_function (option) wake_one_loop ::
    "int \<Rightarrow> bool \<Rightarrow> nat option \<times> bool \<times> sched \<Rightarrow> (bool \<times> sched) option" where
  "wake_one_loop chan prmpt w =
     (let i = sqhash chan; rp = fst w; runsched = fst (snd w); s = snd (snd w) in
      case get_plink i rp s of
        None \<Rightarrow> Some (runsched, s)
      | Some pp \<Rightarrow>
          if p_wchan (pr s pp) = chan then
            let nxt = p_link (pr s pp);
                s = set_plink i rp nxt (clear_wchan pp s);
                s = (if nxt = None then set_sqlast i rp s else s) in
            if p_stat (pr s pp) = SSLEEP then Some (wake_proc prmpt pp runsched s)
            else wake_one_loop chan prmpt (rp, runsched, s)
          else wake_one_loop chan prmpt (Some pp, runsched, s))"

section \<open>Off a sleep queue\<close>

text \<open>The search does not look for the end of the queue.\<close>

partial_function (option) sq_search :: "sched \<Rightarrow> nat \<Rightarrow> nat option \<times> nat option \<Rightarrow> nat option option" where
  "sq_search s pp w =
     (case snd w of
        None \<Rightarrow> None
      | Some r \<Rightarrow> if r = pp then Some (fst w) else sq_search s pp (Some r, p_link (pr s r)))"

definition unsleep :: "nat \<Rightarrow> sched \<Rightarrow> sched option" where
  "unsleep pp s =
     (if p_wchan (pr s pp) \<noteq> 0 then
        let i = sqhash (p_wchan (pr s pp)) in
        do {
          prp \<leftarrow> sq_search s pp (None, sq_first (slpqs s ! i));
          let l = p_link (pr s pp);
          let s = set_plink i prp l s;
          let s = (if l = None then set_sqlast i prp s else s);
          Some (clear_wchan pp s)
        }
      else Some s)"

section \<open>Setting a process running\<close>

text \<open>
  \<open>setrun\<close> and \<open>wakeprocs\<close> call each other for the parent of a traced process and for the swapper.
  Each reset of \<open>runout\<close> ends the recursion: the first argument bounds its depth, and \<open>setrun_n\<close> of 4 is
  enough.
\<close>

fun setrun_n :: "nat \<Rightarrow> sched_conf \<Rightarrow> nat \<Rightarrow> sched \<Rightarrow> sched option"
  and wakeprocs_n :: "nat \<Rightarrow> sched_conf \<Rightarrow> int \<Rightarrow> bool \<Rightarrow> sched \<Rightarrow> sched option"
where
  "setrun_n 0 c pp s = None"
| "setrun_n (Suc n) c pp s =
     (if p_stat (pr s pp) = SRUN then Some s
      else do {
        s \<leftarrow> (if p_stat (pr s pp) = SSLEEP \<or> p_stat (pr s pp) = SSTOP then unsleep pp s else Some s);
        if p_stat (pr s pp) = SSTOP \<and> p_flag (pr s pp) AND (SXSTART OR SPSTART) \<noteq> SXSTART OR SPSTART then
          (if p_flag (pr s pp) AND SPSTART \<noteq> 0 \<and> p_whystop (pr s pp) = PR_SIGNALLED
           then wakeprocs_n n c (p_parent (pr s pp)) True s
           else Some s)
        else
          let s = (if p_stat (pr s pp) = SSTOP then upd_proc pp (\<lambda>x. x\<lparr>p_wcode := 0, p_wdata := 0\<rparr>) s else s);
              s = upd_proc pp (\<lambda>x. x\<lparr>p_stat := SRUN, p_whystop := 0, p_whatstop := 0\<rparr>) s;
              s = CL_SETRUN pp s in
          if p_flag (pr s pp) AND SLOAD = 0 then
            (if runout s > 0 then setrun_n n c (proc_sched c) (s\<lparr>runout := 0\<rparr>) else Some s)
          else Some (if p_pri (pr s pp) > curpri s then s\<lparr>runrun := 1\<rparr> else s)
      })"
| "wakeprocs_n 0 c chan prmpt s = None"
| "wakeprocs_n (Suc n) c chan prmpt s =
     do {
       (runsched, s) \<leftarrow> wake_loop chan prmpt (None, False, s);
       if runsched then setrun_n n c (proc_sched c) (s\<lparr>runout := 0\<rparr>) else Some s
     }"

definition setrun :: "sched_conf \<Rightarrow> nat \<Rightarrow> sched \<Rightarrow> sched option" where
  "setrun = setrun_n 4"

definition wakeprocs :: "sched_conf \<Rightarrow> int \<Rightarrow> bool \<Rightarrow> sched \<Rightarrow> sched option" where
  "wakeprocs = wakeprocs_n 4"

definition wakeup :: "sched_conf \<Rightarrow> int \<Rightarrow> sched \<Rightarrow> sched option" where
  "wakeup c chan s = wakeprocs c chan True s"

definition wake_oneproc :: "sched_conf \<Rightarrow> int \<Rightarrow> bool \<Rightarrow> sched \<Rightarrow> sched option" where
  "wake_oneproc c chan prmpt s =
     do {
       (runsched, s) \<leftarrow> wake_one_loop chan prmpt (None, False, s);
       if runsched then setrun c (proc_sched c) (s\<lparr>runout := 0\<rparr>) else Some s
     }"

definition wakeup_one :: "sched_conf \<Rightarrow> int \<Rightarrow> sched \<Rightarrow> sched option" where
  "wakeup_one c chan s = wake_oneproc c chan True s"

section \<open>Going to sleep\<close>

definition prawake :: "sched_conf \<Rightarrow> nat \<Rightarrow> sched \<Rightarrow> sched option" where
  "prawake c p s =
     (if p_flag (pr s p) AND SPRWAKE \<noteq> 0 then
        do {
          s \<leftarrow> wakeprocs c (p_addr (pr s p) + trace_off c) True (set_flag p (\<lambda>f. f AND NOT SPRWAKE) s);
          Some (s\<lparr>runrun := 1\<rparr>)
        }
      else Some s)"

definition sleep_enqueue :: "int \<Rightarrow> nat \<Rightarrow> sched \<Rightarrow> sched" where
  "sleep_enqueue chan pp s =
     (let s = upd_proc pp (\<lambda>x. x\<lparr>p_stat := SSLEEP, p_wchan := chan\<rparr>) s; i = sqhash chan; sq = slpqs s ! i;
          s = (if sq_first sq = None
               then s\<lparr>slpqs := (slpqs s)[i := sq\<lparr>sq_first := Some pp, sq_last := Some pp\<rparr>]\<rparr>
               else (set_link (the (sq_last sq)) (Some pp) s)\<lparr>slpqs := (slpqs s)[i := sq\<lparr>sq_last := Some pp\<rparr>]\<rparr>) in
      set_link pp None s)"

text \<open>What a call of \<open>sleep\<close> comes to: it looks for a signal next, has given up the processor, or
returns, 1 or a jump out of the system call for a signal.\<close>

datatype sleep_out = LooksForSignal | GaveUp | Returned int | Jumped

definition sleep :: "sched_conf \<Rightarrow> bool \<Rightarrow> int \<Rightarrow> bits \<Rightarrow> sched \<Rightarrow> (sleep_out \<times> sched) option" where
  "sleep c panicstr chan dsp s =
     (let pp = curproc s in
      if panicstr then Some (Returned 0, s)
      else
        let s = sleep_enqueue chan pp s in
        if dpri dsp > PZERO then
          Some (LooksForSignal, set_flag pp (\<lambda>f. (let f = f AND NOT (SNWAKE OR SNOSTOP);
              f = (if dsp AND PNOSTOP \<noteq> 0 then f OR SNOSTOP else f) in f OR SASLEEP)) s)
        else do {
          s \<leftarrow> pswtch c (CL_SLEEP c pp dsp (set_flag pp (\<lambda>f. f OR SNWAKE) s));
          Some (GaveUp, s)
        })"

definition sleep_end :: "sched_conf \<Rightarrow> bits \<Rightarrow> bool \<Rightarrow> sched \<Rightarrow> (sleep_out \<times> sched) option" where
  "sleep_end c dsp psig s =
     (let pp = curproc s;
          s = set_flag pp (\<lambda>f. f AND NOT (if psig then SNOSTOP OR SASLEEP else SNWAKE OR SNOSTOP OR SASLEEP)) s in
      do {
        s \<leftarrow> (if p_trace (pr s pp) \<noteq> 0 then prawake c pp s else Some s);
        Some (if \<not> psig then Returned 0 else if dsp AND PCATCH \<noteq> 0 then Returned 1 else Jumped, s)
      })"

text \<open>\<open>ISSIG\<close> has answered.\<close>

definition sleep_checked :: "sched_conf \<Rightarrow> bits \<Rightarrow> bool \<Rightarrow> sched \<Rightarrow> (sleep_out \<times> sched) option" where
  "sleep_checked c dsp sig s =
     (let pp = curproc s in
      if sig then
        do {
          s \<leftarrow> (if p_stat (pr s pp) = SSLEEP then do { s \<leftarrow> unsleep pp s; Some (set_stat pp SONPROC s) } else Some s);
          sleep_end c dsp True s
        }
      else if p_wchan (pr s pp) = 0 then sleep_end c dsp False s
      else do {
        s \<leftarrow> (if runin s \<noteq> 0 then wakeprocs c (runin_chan c) True (s\<lparr>runin := 0\<rparr>) else Some s);
        s \<leftarrow> pswtch c (CL_SLEEP c pp dsp (set_flag pp (\<lambda>f. f AND NOT SASLEEP) s));
        Some (GaveUp, s)
      })"

text \<open>The process has the processor again, after a sleep at interruptible or other priority.\<close>

definition sleep_woken :: "sched_conf \<Rightarrow> bits \<Rightarrow> bool \<Rightarrow> sched \<Rightarrow> (sleep_out \<times> sched) option" where
  "sleep_woken c dsp sig s =
     (if dpri dsp > PZERO then sleep_end c dsp sig (set_flag (curproc s) (\<lambda>f. f OR SASLEEP) s)
      else sleep_end c dsp False s)"

section \<open>Being stopped\<close>

text \<open>The first part of \<open>stop\<close>, for a process without a pending \<open>SIGKILL\<close> that is not leaving through
\<open>ptrace\<close>.\<close>

definition stop :: "nat \<Rightarrow> int \<Rightarrow> int \<Rightarrow> sched \<Rightarrow> sched option" where
  "stop p why what s =
     do {
       (wasonq, s) \<leftarrow> dispdeq p s;
       let s = set_flag p (\<lambda>f. f AND NOT (SPSTART OR SXSTART)) (set_stat p SSTOP s);
       let s = upd_proc p (\<lambda>x. x\<lparr>p_whystop := u16 why, p_whatstop := u16 what\<rparr>) s;
       Some (CL_STOP p s)
     }"

section \<open>The swapper\<close>

definition PSWP :: bits where "PSWP = 0"

text \<open>The swapper waits for a process to swap in, or for a second (\<open>mem/sched.c\<close>).\<close>

definition sched_wait :: "sched_conf \<Rightarrow> sched \<Rightarrow> (sleep_out \<times> sched) option" where
  "sched_wait c s = sleep c False (runout_chan c) PSWP (s\<lparr>runout := runout s + 1\<rparr>)"

definition sched_delay :: "sched_conf \<Rightarrow> sched \<Rightarrow> (sleep_out \<times> sched) option" where
  "sched_delay c s = sleep c False (runin_chan c) PSWP (s\<lparr>runin := runin s + 1\<rparr>)"

text \<open>Once a second (\<open>svc/clock.c\<close>); \<open>low\<close> is that memory is short or queues wait.\<close>

definition clock_swapper :: "sched_conf \<Rightarrow> bool \<Rightarrow> sched \<Rightarrow> sched option" where
  "clock_swapper c low s =
     do {
       s \<leftarrow> (if runin s \<noteq> 0 then setrun c (proc_sched c) (s\<lparr>runin := 0\<rparr>) else Some s);
       (if low \<and> runout s \<noteq> 0 then setrun c (proc_sched c) (s\<lparr>runout := 0\<rparr>) else Some s)
     }"

text \<open>The last part of \<open>vmmeter\<close> (\<open>mem/vm_meter.c\<close>).\<close>

definition vmmeter_swapper :: "sched_conf \<Rightarrow> bool \<Rightarrow> sched \<Rightarrow> sched option" where
  "vmmeter_swapper c low s =
     (if low \<and> runout s \<noteq> 0 then
        do {
          s \<leftarrow> wakeprocs c (runin_chan c) True (s\<lparr>runout := 0, runin := 0\<rparr>);
          wakeprocs c (runout_chan c) True s
        }
      else Some s)"

text \<open>A process is swapped in; a process is chosen to be swapped out, and stays after all.\<close>

definition swapped_in :: "nat \<Rightarrow> sched \<Rightarrow> sched" where
  "swapped_in p s =
     (let s = upd_proc p (\<lambda>x. x\<lparr>p_flag := p_flag x OR SLOAD, p_inoutage := 0\<rparr>) s in
      if p_stat (pr s p) = SRUN \<and> p_flag (pr s p) AND SPROCIO = 0 then dq_sruninc (p_pri (pr s p)) s else s)"

definition swap_out :: "nat \<Rightarrow> bool \<Rightarrow> sched \<Rightarrow> sched" where
  "swap_out p unloadok s =
     (if p_flag (pr s p) AND (SLOAD OR SSYS OR SLOCK OR SUSWAP OR SPROCIO OR SSWLOCKS) = SLOAD then
        let s = (if unloadok
                 then set_flag p (\<lambda>f. f AND NOT SLOAD)
                   (if p_stat (pr s p) = SRUN then dq_srundec (p_pri (pr s p)) s else s)
                 else s) in
        upd_proc p (\<lambda>x. x\<lparr>p_swrss := (case p_as x of Some rss \<Rightarrow> rss div 2 | None \<Rightarrow> 0)\<rparr>) s
      else s)"

definition swap_out_undone :: "nat \<Rightarrow> sched \<Rightarrow> sched" where
  "swap_out_undone p s =
     (let s = set_flag p (\<lambda>f. f OR SLOAD) s in
      if p_stat (pr s p) = SRUN \<and> p_flag (pr s p) AND SPROCIO = 0 then dq_sruninc (p_pri (pr s p)) s else s)"

section \<open>Held by /proc\<close>

text \<open>\<open>prlock\<close> and \<open>prunlock\<close> once they have the lock, for another process than the current one.\<close>

definition prlock_hold :: "nat \<Rightarrow> sched \<Rightarrow> sched" where
  "prlock_hold p s =
     (if p \<noteq> curproc s then
        let s = set_flag p (\<lambda>f. f OR SPROCIO) s in
        if p_stat (pr s p) = SRUN \<and> p_flag (pr s p) AND (SLOAD OR SSYS) = SLOAD then dq_srundec (p_pri (pr s p)) s else s
      else s)"

definition prunlock_free :: "nat \<Rightarrow> sched \<Rightarrow> sched" where
  "prunlock_free p s =
     (if p_flag (pr s p) AND SPROCIO \<noteq> 0 then
        let s = set_flag p (\<lambda>f. f AND NOT SPROCIO) s in
        if p_stat (pr s p) = SRUN \<and> p_flag (pr s p) AND (SLOAD OR SSYS) = SLOAD then
          let s = dq_sruninc (p_pri (pr s p)) s in
          if p_pri (pr s p) > curpri s then bump_runrun s else s
        else s
      else s)"

section \<open>Birth and death\<close>

text \<open>\<open>preempt\<close>; \<open>again\<close> is that a work-around for the 80386 sends the process back to user mode.\<close>

definition preempt :: "sched_conf \<Rightarrow> bool \<Rightarrow> sched \<Rightarrow> sched option" where
  "preempt c again s =
     (if again then Some (s\<lparr>runrun := 0, kprunrun := 0, npwakecnt := 0\<rparr>)
      else pswtch c (CL_PREEMPT (curproc s) s))"

definition SVFORK :: bits where "SVFORK = 0x4000000"
definition SPROCTR :: bits where "SPROCTR = 0x200"
definition SPRFORK :: bits where "SPRFORK = 0x800"

text \<open>
  \<open>newproc\<close>, for a process other than the first: the entry of the child, made by the current process, and
  its start, when \<open>procdup\<close> has given it an address space.  The new entry goes to the end of the process table.
\<close>

definition child_entry :: "proc \<Rightarrow> int \<Rightarrow> bool \<Rightarrow> bool \<Rightarrow> proc" where
  "child_entry x addr sysproc vfork =
     (let fl = SLOAD OR (p_flag x AND (SJCTL OR SNOWAIT));
          fl = (if sysproc then fl OR (SSYS OR SLOCK) else fl);
          fl = (if vfork then fl OR SVFORK else fl);
          fl = (if p_flag x AND (SPROCTR OR SPRFORK) = SPROCTR OR SPRFORK \<and> \<not> sysproc then fl OR (SPROCTR OR SPRFORK) else fl) in
      \<lparr>p_stat = SIDL, p_flag = fl, p_pri = p_pri x, p_wchan = 0, p_link = None, p_clproc = SysClass, p_cred = p_cred x,
       p_addr = addr, p_parent = p_addr x, p_trace = 0, p_whystop = 0, p_whatstop = 0, p_wcode = 0, p_wdata = 0,
       p_inoutage = 0, p_slptime = 0, p_swrss = 0, p_as = None\<rparr>)"

definition newproc :: "int \<Rightarrow> bool \<Rightarrow> bool \<Rightarrow> sched \<Rightarrow> sched" where
  "newproc addr sysproc vfork s =
     CL_FORK (curproc s) (length (proctab s)) (s\<lparr>proctab := proctab s @ [child_entry (pr s (curproc s)) addr sysproc vfork]\<rparr>)"

definition newproc_started :: "nat \<Rightarrow> int option \<Rightarrow> sched \<Rightarrow> sched" where
  "newproc_started cp as s =
     CL_FORKRET cp (Some (curproc s)) (upd_proc cp (\<lambda>x. x\<lparr>p_as := as, p_stat := SRUN\<rparr>) s)"

text \<open>The wake-ups of \<open>sigcld\<close>; the signal to the parent follows.\<close>

definition CLD_EXITED :: int where "CLD_EXITED = 1"
definition CLD_KILLED :: int where "CLD_KILLED = 2"
definition CLD_DUMPED :: int where "CLD_DUMPED = 3"
definition CLD_TRAPPED :: int where "CLD_TRAPPED = 4"
definition CLD_STOPPED :: int where "CLD_STOPPED = 5"
definition CLD_CONTINUED :: int where "CLD_CONTINUED = 6"

definition sigcld_wakes :: "sched_conf \<Rightarrow> nat \<Rightarrow> sched \<Rightarrow> sched option" where
  "sigcld_wakes c cp s =
     (if p_wcode (pr s cp) \<in> {CLD_EXITED, CLD_KILLED, CLD_DUMPED, CLD_STOPPED, CLD_CONTINUED} then
        do {
          s \<leftarrow> wakeprocs c (p_addr (pr s cp)) True s;
          wakeprocs c (p_parent (pr s cp)) True s
        }
      else Some s)"

text \<open>The end of \<open>exit\<close>.\<close>

definition exit_sched :: "sched_conf \<Rightarrow> int \<Rightarrow> int \<Rightarrow> sched \<Rightarrow> sched option" where
  "exit_sched c why what s =
     (let p = curproc s;
          s = upd_proc p (\<lambda>x. x\<lparr>p_stat := SZOMB, p_wcode := signed_take_bit 7 why, p_wdata := what\<rparr>) s in
      do {
        s \<leftarrow> (if p_trace (pr s p) \<noteq> 0 then wakeprocs c (p_trace (pr s p)) True s else Some s);
        s \<leftarrow> sigcld_wakes c p s;
        pswtch c (CL_EXITCLASS p s)
      })"

section \<open>The rest of stop\<close>

definition PR_REQUESTED :: int where "PR_REQUESTED = 1"
definition PR_JOBCONTROL :: int where "PR_JOBCONTROL = 5"

text \<open>What \<open>stop\<close> tells the parent and the debugger; \<open>held\<close> is that the signal is in \<open>p_sigmask\<close>.\<close>

definition stop_debugger :: "sched_conf \<Rightarrow> nat \<Rightarrow> int \<Rightarrow> sched \<Rightarrow> sched option" where
  "stop_debugger c p why s =
     (let s = (if why \<noteq> PR_SIGNALLED then set_flag p (\<lambda>f. f OR SXSTART) s else s);
          s = set_flag p (\<lambda>f. f AND NOT SPRSTOP) s in
      if p_trace (pr s p) \<noteq> 0 then wakeprocs c (p_trace (pr s p)) True s else Some s)"

definition stop_notify :: "sched_conf \<Rightarrow> nat \<Rightarrow> int \<Rightarrow> int \<Rightarrow> bool \<Rightarrow> bool \<Rightarrow> sched \<Rightarrow> sched option" where
  "stop_notify c p why what firststop held s =
     (if why = PR_JOBCONTROL then
        sigcld_wakes c p (upd_proc p (\<lambda>x. x\<lparr>p_flag := p_flag x OR SPSTART, p_wcode := CLD_STOPPED, p_wdata := what\<rparr>) s)
      else if why = PR_SIGNALLED then
        if p_flag (pr s p) AND STRC \<noteq> 0 then
          do {
            let s = upd_proc p (\<lambda>x. x\<lparr>p_wcode := CLD_TRAPPED, p_wdata := what\<rparr>) s;
            s \<leftarrow> wakeprocs c (p_parent (pr s p)) True s;
            s \<leftarrow> wakeprocs c (p_addr (pr s p)) True s;
            (if \<not> firststop \<or> \<not> held then Some (set_flag p (\<lambda>f. f OR SPSTART) s) else stop_debugger c p why s)
          }
        else stop_debugger c p why (set_flag p (\<lambda>f. f OR SXSTART) s)
      else stop_debugger c p why s)"

text \<open>The current process stops and gives up the processor, as in \<open>issig\<close>.\<close>

definition stop_and_switch :: "sched_conf \<Rightarrow> int \<Rightarrow> int \<Rightarrow> bool \<Rightarrow> bool \<Rightarrow> sched \<Rightarrow> sched option" where
  "stop_and_switch c why what firststop held s =
     (let p = curproc s in
      do {
        s \<leftarrow> stop p why what s;
        s \<leftarrow> stop_notify c p why what firststop held s;
        pswtch c s
      })"

text \<open>A debugger stops a process that sleeps at an interruptible priority (\<open>PIOCSTOP\<close>).\<close>

definition stop_sleeper :: "sched_conf \<Rightarrow> nat \<Rightarrow> bool \<Rightarrow> bool \<Rightarrow> sched \<Rightarrow> sched option" where
  "stop_sleeper c p firststop held s =
     (if p_stat (pr s p) = SSLEEP \<and> p_flag (pr s p) AND (SNWAKE OR SNOSTOP) = 0 then
        do {
          s \<leftarrow> stop p PR_REQUESTED 0 s;
          s \<leftarrow> stop_notify c p PR_REQUESTED 0 firststop held s;
          Some (set_flag p (\<lambda>f. f OR SASLEEP) s)
        }
      else if p_stat (pr s p) \<noteq> SSTOP \<or> p_flag (pr s p) AND SPSTART \<noteq> 0
        then Some (set_flag p (\<lambda>f. f OR SPRSTOP) s)
      else Some s)"

end
