(* ===== verification/Sched_Core.thy ===== *)
theory Sched_Core
  imports Disp_Moves Sched_Sleep
begin

text \<open>
  What holds of the scheduler in the middle of its operations (\<open>core\<close>), what an operation on one
  process leaves alone (\<open>only\<close>), and the interface of a scheduling class towards the rest of the
  kernel, the locale \<open>sched_class\<close>, with its interpretations on the three classes and on the calls
  through the class functions of a process.
\<close>

section \<open>The configuration and the processes\<close>

definition conf_ok :: "sched_conf \<Rightarrow> sched \<Rightarrow> bool" where
  "conf_ok c s \<longleftrightarrow> 0 \<le> ts_maxumdpri c \<and> ts_maxumdpri c < 16384 \<and> 0 < ts_maxupri c \<and> ts_maxupri c < 16384
     \<and> length (ts_dptbl s) = nat (ts_maxumdpri c) + 1
     \<and> (\<forall>e \<in> set (ts_dptbl s). 0 \<le> ts_globpri e \<and> ts_globpri e < int (nglobpris s) \<and> 0 < ts_quantum e
          \<and> 0 \<le> ts_tqexp e \<and> ts_tqexp e \<le> ts_maxumdpri c \<and> 0 \<le> ts_slpret e \<and> ts_slpret e \<le> ts_maxumdpri c
          \<and> 0 \<le> ts_lwait e \<and> ts_lwait e \<le> ts_maxumdpri c)
     \<and> 39 \<le> ts_maxkmdpri c \<and> length (ts_kmdpris c) = nat (ts_maxkmdpri c) + 1
     \<and> (\<forall>g \<in> set (ts_kmdpris c). 0 \<le> g \<and> g < int (nglobpris s))
     \<and> 39 \<le> v_maxsyspri c \<and> v_maxsyspri c < int (nglobpris s)
     \<and> 0 \<le> rt_maxpri c \<and> length (rt_dptbl s) = nat (rt_maxpri c) + 1
     \<and> (\<forall>e \<in> set (rt_dptbl s). 0 \<le> rt_globpri e \<and> rt_globpri e < int (nglobpris s))
     \<and> proc_sched c < length (proctab s)"

definition ts_ok :: "sched_conf \<Rightarrow> tsproc \<Rightarrow> bool" where
  "ts_ok c t \<longleftrightarrow> 0 \<le> ts_cpupri t \<and> ts_cpupri t \<le> ts_maxumdpri c \<and> 0 \<le> ts_umdpri t \<and> ts_umdpri t \<le> ts_maxumdpri c
     \<and> - ts_maxupri c \<le> ts_upri t \<and> ts_upri t \<le> ts_uprilim t \<and> ts_uprilim t \<le> ts_maxupri c"

definition class_ok :: "sched_conf \<Rightarrow> clproc \<Rightarrow> bool" where
  "class_ok c k \<longleftrightarrow> (case k of SysClass \<Rightarrow> True | TsClass t \<Rightarrow> ts_ok c t
     | RtClass r \<Rightarrow> 0 \<le> rt_pri r \<and> rt_pri r \<le> rt_maxpri c)"

definition proc_ok :: "sched_conf \<Rightarrow> sched \<Rightarrow> nat \<Rightarrow> bool" where
  "proc_ok c s x \<longleftrightarrow> 0 \<le> p_pri (pr s x) \<and> p_pri (pr s x) < int (nglobpris s) \<and> class_ok c (p_clproc (pr s x))"

definition core :: "sched_conf \<Rightarrow> (qid \<Rightarrow> nat list) \<Rightarrow> sched \<Rightarrow> bool" where
  "core c Q s \<longleftrightarrow> conf_ok c s \<and> disp_ok Q s \<and> length (slpqs s) = NSLEEPQ \<and> (\<forall>x < length (proctab s). proc_ok c s x)"

text \<open>What the class functions leave alone beside the process they are called for.\<close>

definition same_rest :: "sched \<Rightarrow> sched \<Rightarrow> bool" where
  "same_rest s t \<longleftrightarrow> length (proctab t) = length (proctab s) \<and> nglobpris t = nglobpris s \<and> curproc t = curproc s
     \<and> old_curproc t = old_curproc s \<and> oldproc t = oldproc s \<and> idleswtch t = idleswtch s
     \<and> runin t = runin s \<and> runout t = runout s \<and> length (slpqs t) = length (slpqs s) \<and> ts_dptbl t = ts_dptbl s
     \<and> rt_dptbl t = rt_dptbl s \<and> ts_plist t = ts_plist s \<and> rt_plist t = rt_plist s"

definition only :: "nat set \<Rightarrow> sched \<Rightarrow> sched \<Rightarrow> bool" where
  "only P s t \<longleftrightarrow> same_rest s t \<and> (\<forall>x < length (proctab s). x \<notin> P \<longrightarrow> bare (pr t x) = bare (pr s x))"

text \<open>The class structure and the link apart, a process is as before.\<close>

definition coarse :: "proc \<Rightarrow> proc" where
  "coarse x = (bare x)\<lparr>p_clproc := SysClass\<rparr>"

definition same_run :: "proc \<Rightarrow> proc \<Rightarrow> bool" where
  "same_run x y \<longleftrightarrow> coarse y = coarse x"

lemma same_rest_refl [simp]: "same_rest s s"
  by (simp add: same_rest_def)

lemma same_rest_trans: "same_rest s t \<Longrightarrow> same_rest t u \<Longrightarrow> same_rest s u"
  by (simp add: same_rest_def)

lemma only_refl [simp]: "only P s s"
  by (simp add: only_def)

lemma only_trans: "only P s t \<Longrightarrow> only P t u \<Longrightarrow> only P s u"
  unfolding only_def by (auto dest: same_rest_trans simp: same_rest_def)

lemma only_mono: "only P s t \<Longrightarrow> P \<subseteq> P' \<Longrightarrow> only P' s t"
  unfolding only_def by blast

lemma same_run_refl [simp]: "same_run x x"
  by (simp add: same_run_def)

lemma same_run_trans: "same_run x y \<Longrightarrow> same_run y z \<Longrightarrow> same_run x z"
  by (simp add: same_run_def)

lemma same_run_bare: "bare y = bare x \<Longrightarrow> same_run x y"
  by (simp add: same_run_def coarse_def)

lemma same_runD:
  assumes "same_run x y"
  shows "p_stat y = p_stat x" "p_flag y = p_flag x" "p_pri y = p_pri x" "p_wchan y = p_wchan x" "schedulable y = schedulable x"
  using arg_cong [OF assms [unfolded same_run_def], of p_stat] arg_cong [OF assms [unfolded same_run_def], of p_flag]
    arg_cong [OF assms [unfolded same_run_def], of p_pri] arg_cong [OF assms [unfolded same_run_def], of p_wchan]
  by (simp_all add: coarse_def bare_def schedulable_def)

section \<open>Changes of one process\<close>

lemma coreD:
  assumes "core c Q s"
  shows "conf_ok c s" "disp_ok Q s" "length (slpqs s) = NSLEEPQ" "x < length (proctab s) \<Longrightarrow> proc_ok c s x"
  using assms by (simp_all add: core_def)

lemma core_pri:
  assumes "core c Q s" "x < length (proctab s)"
  obtains i where "p_pri (pr s x) = int i" "i < nglobpris s" "nat (p_pri (pr s x)) = i"
proof -
  have "0 \<le> p_pri (pr s x)" "p_pri (pr s x) < int (nglobpris s)" using coreD(4) [OF assms] by (simp_all add: proc_ok_def)
  then show ?thesis using that [of "nat (p_pri (pr s x))"] by simp
qed

lemma conf_ok_cong:
  assumes "conf_ok c s" "ts_dptbl t = ts_dptbl s" "rt_dptbl t = rt_dptbl s" "nglobpris t = nglobpris s"
    "length (proctab s) \<le> length (proctab t)"
  shows "conf_ok c t"
proof -
  have "proc_sched c < length (proctab t)" using assms(1,5) unfolding conf_ok_def by linarith
  then show ?thesis using assms(1) unfolding conf_ok_def assms(2-4) by blast
qed

lemma core_proc:
  assumes ok: "core c Q s" and p: "p < length (proctab s)" "p_link (f (pr s p)) = p_link (pr s p)"
    and q: "\<And>i. p \<in> set (Q (Dq i)) \<Longrightarrow> p_pri (f (pr s p)) = p_pri (pr s p) \<and> schedulable (f (pr s p)) = schedulable (pr s p)"
    and pri: "0 \<le> p_pri (f (pr s p))" "p_pri (f (pr s p)) < int (nglobpris s)" "class_ok c (p_clproc (f (pr s p)))"
  shows "core c Q (upd_proc p f s)"
  unfolding core_def
proof (intro conjI allI impI)
  show "disp_ok Q (upd_proc p f s)" using coreD(2) [OF ok] p q by (rule disp_ok_proc)
  show "conf_ok c (upd_proc p f s)" by (rule conf_ok_cong [OF coreD(1) [OF ok]]) simp_all
  show "length (slpqs (upd_proc p f s)) = NSLEEPQ" using coreD(3) [OF ok] by simp
  fix x assume "x < length (proctab (upd_proc p f s))"
  then show "proc_ok c (upd_proc p f s) x" using coreD(4) [OF ok, of x] pri p(1) by (auto simp: proc_ok_def pr_upd)
qed

lemma only_proc: "only {p} s (upd_proc p f s)"
  by (cases "p < length (proctab s)") (auto simp: only_def same_rest_def pr_upd upd_proc_def)

lemma core_ts:
  assumes ok: "core c Q s" and p: "p < length (proctab s)" and f: "\<And>t. ts_ok c t \<Longrightarrow> ts_ok c (f t)"
  shows "core c Q (upd_ts p f s)"
  unfolding upd_ts_def
  by (rule core_proc [OF ok p])
    (use coreD(4) [OF ok p] f in \<open>auto simp: proc_ok_def class_ok_def schedulable_def split: clproc.splits\<close>)

lemma core_rt:
  assumes ok: "core c Q s" and p: "p < length (proctab s)" and f: "\<And>r. rt_pri (f r) = rt_pri r"
  shows "core c Q (upd_rt p f s)"
  unfolding upd_rt_def
  by (rule core_proc [OF ok p])
    (use coreD(4) [OF ok p] f in \<open>auto simp: proc_ok_def class_ok_def schedulable_def split: clproc.splits\<close>)

lemma upd_class_keeps [simp]: "same_run (pr s x) (pr (upd_ts p f s) x)" "same_run (pr s x) (pr (upd_rt p g s) x)"
proof -
  have k: "same_run (pr s x) (pr (upd_proc p (\<lambda>y. y\<lparr>p_clproc := k y\<rparr>) s) x)" for k
  proof (cases "p < length (proctab s)")
    case True
    then show ?thesis by (simp add: pr_upd same_run_def coarse_def bare_def)
  qed (simp add: upd_proc_def list_update_beyond)
  show "same_run (pr s x) (pr (upd_ts p f s) x)" unfolding upd_ts_def by (rule k)
  show "same_run (pr s x) (pr (upd_rt p g s) x)" unfolding upd_rt_def by (rule k)
qed

lemma upd_class_only [simp]: "only {p} s (upd_ts p f s)" "only {p} s (upd_rt p g s)"
  by (simp_all add: upd_ts_def upd_rt_def only_proc)

lemma upd_class_pr:
  "p < length (proctab s) \<Longrightarrow> p_clproc (pr (upd_ts p f s) p) = (case p_clproc (pr s p) of TsClass t \<Rightarrow> TsClass (f t) | k \<Rightarrow> k)"
  "p < length (proctab s) \<Longrightarrow> p_clproc (pr (upd_rt p g s) p) = (case p_clproc (pr s p) of RtClass r \<Rightarrow> RtClass (g r) | k \<Rightarrow> k)"
  by (simp_all add: upd_ts_def upd_rt_def pr_upd)

lemma upd_class_simps [simp]:
  "length (proctab (upd_ts p f s)) = length (proctab s)" "length (proctab (upd_rt p g s)) = length (proctab s)"
  "curproc (upd_ts p f s) = curproc s" "curproc (upd_rt p g s) = curproc s" "nglobpris (upd_ts p f s) = nglobpris s"
  "ts_dptbl (upd_ts p f s) = ts_dptbl s" "ts_dptbl (upd_rt p g s) = ts_dptbl s"
  "curpri (upd_ts p f s) = curpri s" "curpri (upd_rt p g s) = curpri s"
  by (simp_all add: upd_ts_def upd_rt_def)

lemma core_globals:
  assumes "core c Q s" "proctab t = proctab s" "dispqs t = dispqs s" "slpqs t = slpqs s" "dqactmap t = dqactmap s"
    "srunprocs t = srunprocs s" "nglobpris t = nglobpris s" "maxrunpri t = maxrunpri s" "ts_dptbl t = ts_dptbl s" "rt_dptbl t = rt_dptbl s"
  shows "core c Q t"
  unfolding core_def
proof (intro conjI allI impI)
  show "disp_ok Q t" by (rule disp_ok_cong [OF coreD(2) [OF assms(1)]]) (use assms in \<open>simp_all add: nxt_def\<close>)
  show "conf_ok c t" by (rule conf_ok_cong [OF coreD(1) [OF assms(1)]]) (use assms in simp_all)
  show "length (slpqs t) = NSLEEPQ" using coreD(3) [OF assms(1)] assms by simp
  show "proc_ok c t x" if "x < length (proctab t)" for x
    using coreD(4) [OF assms(1), of x] that assms by (simp add: proc_ok_def)
qed

lemma core_disp_same:
  assumes ok: "core c Q s" and t: "disp_ok Q' t" "disp_same s t"
  shows "core c Q' t" "only {} s t"
proof -
  note D = disp_sameD [OF t(2)]
  have len: "length (proctab t) = length (proctab s)" using same_procs_len [OF D(1)] .
  show "only {} s t" unfolding only_def same_rest_def using D len same_procs_bare [OF D(1)] by simp
  show "core c Q' t"
    unfolding core_def
  proof (intro conjI allI impI)
    show "conf_ok c t" by (rule conf_ok_cong [OF coreD(1) [OF ok]]) (use D len in simp_all)
    show "length (slpqs t) = NSLEEPQ" using coreD(3) [OF ok] D by simp
    show "proc_ok c t x" if "x < length (proctab t)" for x
      using coreD(4) [OF ok, of x] that len same_procsD [OF D(1), of x] D(3) by (simp add: proc_ok_def)
  qed (fact t(1))
qed

section \<open>Onto a dispatcher queue\<close>

definition onto_back :: "(qid \<Rightarrow> nat list) \<Rightarrow> sched \<Rightarrow> nat \<Rightarrow> qid \<Rightarrow> nat list" where
  "onto_back Q s p = (let k = Dq (nat (p_pri (pr s p))) in Q(k := Q k @ [p]))"

definition onto_front :: "(qid \<Rightarrow> nat list) \<Rightarrow> sched \<Rightarrow> nat \<Rightarrow> qid \<Rightarrow> nat list" where
  "onto_front Q s p = (let k = Dq (nat (p_pri (pr s p))) in Q(k := p # Q k))"

definition put_back :: "sched_conf \<Rightarrow> nat \<Rightarrow> (qid \<Rightarrow> nat list) \<Rightarrow> sched \<Rightarrow> sched \<Rightarrow> bool" where
  "put_back c p Q s t \<longleftrightarrow> core c (onto_back Q s p) t \<and> only {p} s t \<and> same_run (pr s p) (pr t p)"

definition put_front :: "sched_conf \<Rightarrow> nat \<Rightarrow> (qid \<Rightarrow> nat list) \<Rightarrow> sched \<Rightarrow> sched \<Rightarrow> bool" where
  "put_front c p Q s t \<longleftrightarrow> core c (onto_front Q s p) t \<and> only {p} s t \<and> same_run (pr s p) (pr t p)"

text \<open>A change of the class structure that leaves the queues alone.\<close>

definition retuned :: "sched_conf \<Rightarrow> nat \<Rightarrow> (qid \<Rightarrow> nat list) \<Rightarrow> sched \<Rightarrow> sched \<Rightarrow> bool" where
  "retuned c p Q s t \<longleftrightarrow> core c Q t \<and> only {p} s t \<and> same_run (pr s p) (pr t p)"

lemma retuned_refl: "core c Q s \<Longrightarrow> retuned c p Q s s"
  by (simp add: retuned_def)

lemma retuned_trans: "retuned c p Q s t \<Longrightarrow> retuned c p Q t u \<Longrightarrow> retuned c p Q s u"
  unfolding retuned_def by (auto intro: only_trans same_run_trans)

lemma retuned_ts: "core c Q s \<Longrightarrow> p < length (proctab s) \<Longrightarrow> (\<And>t. ts_ok c t \<Longrightarrow> ts_ok c (f t)) \<Longrightarrow> retuned c p Q s (upd_ts p f s)"
  unfolding retuned_def by (simp add: core_ts)

lemma retuned_rt: "core c Q s \<Longrightarrow> p < length (proctab s) \<Longrightarrow> (\<And>r. rt_pri (f r) = rt_pri r) \<Longrightarrow> retuned c p Q s (upd_rt p f s)"
  unfolding retuned_def by (simp add: core_rt)

lemma retuned_len: "retuned c p Q s t \<Longrightarrow> length (proctab t) = length (proctab s)"
  by (simp add: retuned_def only_def same_rest_def)

lemma retuned_put: "retuned c p Q s t \<Longrightarrow> put_back c p Q t u \<Longrightarrow> put_back c p Q s u"
  "retuned c p Q s t \<Longrightarrow> put_front c p Q t u \<Longrightarrow> put_front c p Q s u"
  unfolding retuned_def put_back_def put_front_def onto_back_def onto_front_def
  by (auto intro: only_trans same_run_trans simp: same_runD(3))

lemma setbackdq_put:
  assumes "core c Q s" "p < length (proctab s)" "\<not> queued Q p"
  shows "put_back c p Q s (setbackdq p s)"
proof -
  obtain i where i: "p_pri (pr s p) = int i" "i < nglobpris s" "nat (p_pri (pr s p)) = i" using assms(1,2) by (rule core_pri)
  note s = setbackdq_ok [OF coreD(2) [OF assms(1)] assms(2,3) i(1,2)]
  have "same_run (pr s p) (pr (setbackdq p s) p)"
    using same_procs_bare [OF disp_sameD(1) [OF s(2)] assms(2)] by (rule same_run_bare)
  then show ?thesis unfolding put_back_def onto_back_def Let_def i(3)
    using core_disp_same [OF assms(1) s] only_mono by blast
qed

lemma setfrontdq_put:
  assumes "core c Q s" "p < length (proctab s)" "\<not> queued Q p"
  shows "put_front c p Q s (setfrontdq p s)"
proof -
  obtain i where i: "p_pri (pr s p) = int i" "i < nglobpris s" "nat (p_pri (pr s p)) = i" using assms(1,2) by (rule core_pri)
  note s = setfrontdq_ok [OF coreD(2) [OF assms(1)] assms(2,3) i(1,2)]
  have "same_run (pr s p) (pr (setfrontdq p s) p)"
    using same_procs_bare [OF disp_sameD(1) [OF s(2)] assms(2)] by (rule same_run_bare)
  then show ?thesis unfolding put_front_def onto_front_def Let_def i(3)
    using core_disp_same [OF assms(1) s] only_mono by blast
qed

lemma put_after: "retuned c p Q s t \<Longrightarrow> p < length (proctab s) \<Longrightarrow> \<not> queued Q p \<Longrightarrow> put_back c p Q s (setbackdq p t)"
  "retuned c p Q s t \<Longrightarrow> p < length (proctab s) \<Longrightarrow> \<not> queued Q p \<Longrightarrow> put_front c p Q s (setfrontdq p t)"
  using retuned_put [of c p Q s t] setbackdq_put [of c Q t p] setfrontdq_put [of c Q t p] retuned_len [of c p Q s t]
  by (auto simp: retuned_def)

lemma core_bump: "core c Q s \<Longrightarrow> core c Q (bump_runrun s)" "core c Q s \<Longrightarrow> core c Q (bump_both s)"
  by (erule core_globals; simp add: bump_runrun_def bump_both_def)+

lemma bump_simps [simp]:
  "proctab (bump_runrun s) = proctab s" "proctab (bump_both s) = proctab s" "only P s (bump_runrun t) = only P s t"
  "only P s (bump_both t) = only P s t"
  by (simp_all add: bump_runrun_def bump_both_def only_def same_rest_def)

lemma put_bump: "put_back c p Q s t \<Longrightarrow> put_back c p Q s (bump_runrun t)" "put_back c p Q s t \<Longrightarrow> put_back c p Q s (bump_both t)"
  by (simp_all add: put_back_def core_bump)

section \<open>The interface of a scheduling class\<close>

text \<open>
  What the rest of the kernel relies on.  A process that becomes runnable goes to the back of the
  queue of its priority; a process that is preempted goes to one of the ends; a process
  that goes to sleep, is ticked or returns to user mode stays where it is.  In all of them other
  processes are left alone.
\<close>

locale sched_class =
  fixes mine :: "clproc \<Rightarrow> bool"
    and cl_setrun cl_wakeup cl_preempt cl_stop :: "nat \<Rightarrow> sched \<Rightarrow> sched"
    and cl_sleep :: "sched_conf \<Rightarrow> nat \<Rightarrow> bits \<Rightarrow> sched \<Rightarrow> sched"
  assumes setrun_back: "core c Q s \<Longrightarrow> p < length (proctab s) \<Longrightarrow> mine (p_clproc (pr s p)) \<Longrightarrow> \<not> queued Q p
      \<Longrightarrow> put_back c p Q s (cl_setrun p s)"
    and wakeup_back: "core c Q s \<Longrightarrow> p < length (proctab s) \<Longrightarrow> mine (p_clproc (pr s p)) \<Longrightarrow> \<not> queued Q p
      \<Longrightarrow> put_back c p Q s (cl_wakeup p s)"
    and preempt_ends: "core c Q s \<Longrightarrow> p < length (proctab s) \<Longrightarrow> mine (p_clproc (pr s p)) \<Longrightarrow> \<not> queued Q p
      \<Longrightarrow> put_back c p Q s (cl_preempt p s) \<or> put_front c p Q s (cl_preempt p s)"
    and stop_stays: "core c Q s \<Longrightarrow> p < length (proctab s) \<Longrightarrow> mine (p_clproc (pr s p)) \<Longrightarrow> retuned c p Q s (cl_stop p s)"
    and sleep_stays: "core c Q s \<Longrightarrow> p < length (proctab s) \<Longrightarrow> mine (p_clproc (pr s p)) \<Longrightarrow> \<forall>i. p \<notin> set (Q (Dq i))
      \<Longrightarrow> dpri dsp \<le> 39 \<Longrightarrow> core c Q (cl_sleep c p dsp s) \<and> only {p} s (cl_sleep c p dsp s)
        \<and> same_run ((pr s p)\<lparr>p_pri := p_pri (pr (cl_sleep c p dsp s) p)\<rparr>) (pr (cl_sleep c p dsp s) p)"

lemma core_set_pri:
  assumes "core c Q s" "p < length (proctab s)" "\<forall>i. p \<notin> set (Q (Dq i))" "0 \<le> g" "g < int (nglobpris s)"
  shows "core c Q (set_pri p g s)"
  unfolding set_pri_def by (rule core_proc [OF assms(1,2)]) (use assms coreD(4) [OF assms(1,2)] in \<open>auto simp: proc_ok_def\<close>)

lemma set_pri_only [simp]: "only {p} s (set_pri p g s)"
  by (simp add: set_pri_def only_proc)

interpretation sys: sched_class is_sys sys_setrun sys_wakeup sys_preempt "\<lambda>p s. s" sys_sleep
proof unfold_locales
  fix c Q s p dsp
  assume a: "core c Q s" "p < length (proctab s)" "\<forall>i. p \<notin> set (Q (Dq i))" "dpri dsp \<le> 39"
  have "0 \<le> dpri dsp" by (simp add: dpri_def)
  then have "core c Q (sys_sleep c p dsp s)"
    unfolding sys_sleep_def using a coreD(1) [OF a(1)] by (intro core_set_pri) (auto simp: conf_ok_def)
  then show "core c Q (sys_sleep c p dsp s) \<and> only {p} s (sys_sleep c p dsp s)
        \<and> same_run ((pr s p)\<lparr>p_pri := p_pri (pr (sys_sleep c p dsp s) p)\<rparr>) (pr (sys_sleep c p dsp s) p)"
    using a(2) by (simp add: sys_sleep_def set_pri_def pr_upd only_proc)
qed (simp_all add: sys_setrun_def sys_wakeup_def sys_preempt_def setbackdq_put setfrontdq_put retuned_refl)

lemma ts_ok_fields [simp]:
  "ts_ok c (t\<lparr>ts_timeleft := q\<rparr>) = ts_ok c t" "ts_ok c (t\<lparr>ts_dispwait := d\<rparr>) = ts_ok c t"
  "ts_ok c (t\<lparr>ts_flags := f\<rparr>) = ts_ok c t" "ts_ok c (t\<lparr>ts_sleepwait := w\<rparr>) = ts_ok c t" "ts_ok c (t\<lparr>ts_nice := n\<rparr>) = ts_ok c t"
  by (simp_all add: ts_ok_def)

lemma retuned_quantum: "core c Q s \<Longrightarrow> p < length (proctab s) \<Longrightarrow> retuned c p Q s (ts_quantum_in p s)"
  unfolding ts_quantum_in_def Let_def by (rule retuned_ts) simp_all

lemma retuned_then_ts:
  "retuned c p Q s t \<Longrightarrow> p < length (proctab s) \<Longrightarrow> (\<And>x. ts_ok c x \<Longrightarrow> ts_ok c (f x)) \<Longrightarrow> retuned c p Q s (upd_ts p f t)"
  using retuned_trans [of c p Q s t] retuned_ts [of c Q t p f] retuned_len [of c p Q s t] by (auto simp: retuned_def)

lemma kmdpri_ok: "conf_ok c s \<Longrightarrow> 0 \<le> d \<Longrightarrow> d \<le> 39 \<Longrightarrow> 0 \<le> ts_kmdpris c ! nat (ts_maxkmdpri c - d)
    \<and> ts_kmdpris c ! nat (ts_maxkmdpri c - d) < int (nglobpris s)"
proof -
  assume a: "conf_ok c s" "0 \<le> d" "d \<le> 39"
  then have "39 \<le> ts_maxkmdpri c" "length (ts_kmdpris c) = nat (ts_maxkmdpri c) + 1"
    "\<forall>g \<in> set (ts_kmdpris c). 0 \<le> g \<and> g < int (nglobpris s)" by (simp_all add: conf_ok_def)
  moreover from this a have "nat (ts_maxkmdpri c - d) < length (ts_kmdpris c)" by (simp add: nat_less_iff)
  ultimately show ?thesis using nth_mem by blast
qed

interpretation ts: sched_class is_ts ts_setrun ts_wakeup ts_preempt "\<lambda>p s. s" ts_sleep
proof unfold_locales
  fix c Q s p assume a: "core c Q s" "p < length (proctab s)" "\<not> queued Q p"
  show "put_back c p Q s (ts_wakeup p s)"
    unfolding ts_wakeup_def by (rule put_after(1) [OF retuned_ts [OF a(1,2)] a(2,3)]) simp
  have q: "retuned c p Q s (if ts_flags (tsof (pr s p)) AND TSKPRI = 0
               then upd_ts p (\<lambda>t. t\<lparr>ts_dispwait := 0\<rparr>) (ts_quantum_in p s) else s)"
    using retuned_then_ts [OF retuned_quantum [OF a(1,2)] a(2)] retuned_refl [OF a(1)] by simp
  show "put_back c p Q s (ts_setrun p s)"
    unfolding ts_setrun_def Let_def by (rule put_after(1) [OF retuned_then_ts [OF q a(2)] a(2,3)]) simp
  show "put_back c p Q s (ts_preempt p s) \<or> put_front c p Q s (ts_preempt p s)"
    using put_after(1) [OF retuned_then_ts [OF retuned_quantum [OF a(1,2)] a(2)] a(2,3)]
      put_after(1) [OF retuned_ts [OF a(1,2)] a(2,3)] setfrontdq_put [OF a]
    unfolding ts_preempt_def Let_def by simp
next
  fix c Q s p dsp
  assume a: "core c Q s" "p < length (proctab s)" "\<forall>i. p \<notin> set (Q (Dq i))" "dpri dsp \<le> 39"
  let ?g = "ts_kmdpris c ! nat (ts_maxkmdpri c - dpri dsp)" and ?t = "upd_ts p (\<lambda>t. t\<lparr>ts_flags := ts_flags t OR TSKPRI\<rparr>) s"
  have "0 \<le> dpri dsp" by (simp add: dpri_def)
  then have g: "0 \<le> ?g" "?g < int (nglobpris s)" using kmdpri_ok [OF coreD(1) [OF a(1)]] a(4) by auto
  have t: "retuned c p Q s ?t" by (rule retuned_ts [OF a(1,2)]) simp
  have "core c Q (ts_sleep c p dsp s)"
    unfolding ts_sleep_def using t a g by (intro core_set_pri) (auto simp: retuned_def)
  moreover have "only {p} s (ts_sleep c p dsp s)"
    unfolding ts_sleep_def by (rule only_trans [OF upd_class_only(1) set_pri_only])
  ultimately show "core c Q (ts_sleep c p dsp s) \<and> only {p} s (ts_sleep c p dsp s)
        \<and> same_run ((pr s p)\<lparr>p_pri := p_pri (pr (ts_sleep c p dsp s) p)\<rparr>) (pr (ts_sleep c p dsp s) p)"
    using a(2) by (simp add: ts_sleep_def set_pri_def pr_upd upd_ts_def same_run_def coarse_def bare_def)
qed (simp add: retuned_refl)

lemma retuned_then_rt:
  "retuned c p Q s t \<Longrightarrow> p < length (proctab s) \<Longrightarrow> (\<And>r. rt_pri (f r) = rt_pri r) \<Longrightarrow> retuned c p Q s (upd_rt p f t)"
  using retuned_trans [of c p Q s t] retuned_rt [of c Q t p f] retuned_len [of c p Q s t] by (auto simp: retuned_def)

lemma if_elim_ok: "P x \<Longrightarrow> P y \<Longrightarrow> P (if b then x else y)"
  by simp

interpretation rt: sched_class is_rt rt_setrun rt_wakeup rt_preempt rt_stop "\<lambda>c p dsp s. rt_sleep p s"
proof unfold_locales
  fix c Q s p assume a: "core c Q s" "p < length (proctab s)" "\<not> queued Q p"
  have b: "put_back c p Q s (setbackdq p (upd_rt p (\<lambda>r. r\<lparr>rt_timeleft := rt_pquantum r, rt_flags := rt_flags r AND NOT RTBACKQ\<rparr>) s))"
    by (rule put_after(1) [OF retuned_rt [OF a(1,2)] a(2,3)]) simp
  show "put_back c p Q s (rt_wakeup p s)" "put_back c p Q s (rt_setrun p s)"
    using b put_bump(2) [OF b] by (simp_all add: rt_wakeup_def rt_setrun_def Let_def)
  have r: "retuned c p Q s (if p = curproc s then upd_rt p (\<lambda>r. r\<lparr>rt_flags := rt_flags r OR RTRAN\<rparr>) s else s)"
    by (rule if_elim_ok) (rule retuned_rt [OF a(1,2)], simp, rule retuned_refl [OF a(1)])
  show "put_back c p Q s (rt_preempt p s) \<or> put_front c p Q s (rt_preempt p s)"
    using put_after(1) [OF retuned_then_rt [OF r a(2)] a(2,3)] put_after(2) [OF r a(2,3)]
    unfolding rt_preempt_def Let_def by simp
next
  fix c Q s p assume a: "core c Q s" "p < length (proctab s)"
  show "retuned c p Q s (rt_stop p s)"
    unfolding rt_stop_def by (rule if_elim_ok) (rule retuned_rt [OF a], simp, rule retuned_refl [OF a(1)])
next
  fix c Q s p dsp assume a: "core c Q s" "p < length (proctab s)"
  have r: "retuned c p Q s (rt_sleep p s)" unfolding rt_sleep_def by (rule retuned_rt [OF a]) simp
  moreover have "same_run ((pr s p)\<lparr>p_pri := p_pri (pr (rt_sleep p s) p)\<rparr>) (pr (rt_sleep p s) p)"
    using a(2) by (simp add: rt_sleep_def upd_rt_def pr_upd same_run_def coarse_def bare_def)
  ultimately show "core c Q (rt_sleep p s) \<and> only {p} s (rt_sleep p s)
      \<and> same_run ((pr s p)\<lparr>p_pri := p_pri (pr (rt_sleep p s) p)\<rparr>) (pr (rt_sleep p s) p)"
    by (simp add: retuned_def)
qed

text \<open>The calls through the class functions of a process satisfy the interface for every process.\<close>

lemma class_cases [case_names Sys Ts Rt]:
  obtains (Sys) "k = SysClass" "is_sys k" | (Ts) t where "k = TsClass t" "is_ts k" | (Rt) r where "k = RtClass r" "is_rt k"
  by (cases k) (simp_all add: is_sys_def is_ts_def is_rt_def)

interpretation cl: sched_class "\<lambda>_. True" CL_SETRUN CL_WAKEUP CL_PREEMPT CL_STOP CL_SLEEP
proof unfold_locales
  fix c Q s p assume a: "core c Q s" "p < length (proctab s)" "\<not> queued Q p"
  show "put_back c p Q s (CL_SETRUN p s)"
    by (cases "p_clproc (pr s p)" rule: class_cases)
      (use a in \<open>auto simp: CL_SETRUN_def intro: sys.setrun_back ts.setrun_back rt.setrun_back\<close>)
  show "put_back c p Q s (CL_WAKEUP p s)"
    by (cases "p_clproc (pr s p)" rule: class_cases)
      (use a in \<open>auto simp: CL_WAKEUP_def intro: sys.wakeup_back ts.wakeup_back rt.wakeup_back\<close>)
  show "put_back c p Q s (CL_PREEMPT p s) \<or> put_front c p Q s (CL_PREEMPT p s)"
    by (cases "p_clproc (pr s p)" rule: class_cases)
      (use a sys.preempt_ends [of c Q s p] ts.preempt_ends [of c Q s p] rt.preempt_ends [of c Q s p] in
        \<open>simp_all add: CL_PREEMPT_def\<close>)
next
  fix c Q s p assume a: "core c Q s" "p < length (proctab s)"
  show "retuned c p Q s (CL_STOP p s)"
    by (cases "p_clproc (pr s p)" rule: class_cases)
      (use a rt.stop_stays [OF a] retuned_refl [OF a(1)] in \<open>simp_all add: CL_STOP_def\<close>)
next
  fix c Q s p dsp
  assume a: "core c Q s" "p < length (proctab s)" "\<forall>i. p \<notin> set (Q (Dq i))" "dpri dsp \<le> 39"
  show "core c Q (CL_SLEEP c p dsp s) \<and> only {p} s (CL_SLEEP c p dsp s)
      \<and> same_run ((pr s p)\<lparr>p_pri := p_pri (pr (CL_SLEEP c p dsp s) p)\<rparr>) (pr (CL_SLEEP c p dsp s) p)"
    by (cases "p_clproc (pr s p)" rule: class_cases)
      (use sys.sleep_stays [OF a(1,2) _ a(3,4)] ts.sleep_stays [OF a(1,2) _ a(3,4)] rt.sleep_stays [OF a(1,2) _ a(3,4)] in
        \<open>simp_all add: CL_SLEEP_def\<close>)
qed

end
