(* ===== verification/Sleep_Queues.thy ===== *)
theory Sleep_Queues
  imports Sched_Core
begin

text \<open>
  The operations on the sleep queues against the lists of the queues: a process goes to the end of
  the queue of its channel, is taken out of the middle, and a wake-up takes all that sleep on the channel
  off and puts those that are not stopped behind the runnable processes of their priority.
\<close>

section \<open>The links of a sleep queue\<close>

lemma sqhash_less [simp]: "sqhash chan < NSLEEPQ"
proof -
  have "drop_bit 3 chan AND 63 = take_bit 6 (drop_bit 3 chan)" by (simp add: take_bit_eq_mask mask_eq_exp_minus_1)
  then have "sqhash chan = nat (take_bit 6 (drop_bit 3 chan))" by (simp add: sqhash_def NSLEEPQ_def)
  then show ?thesis by (simp add: NSLEEPQ_def take_bit_eq_mod nat_less_iff)
qed

lemma firstq_slpqs:
  "slpqs s = d \<Longrightarrow> i < length d \<Longrightarrow> firstq (s\<lparr>slpqs := d[i := q]\<rparr>) k = (if k = Sq i then sq_first q else firstq s k)"
  "slpqs s = d \<Longrightarrow> i < length d \<Longrightarrow> lastq (s\<lparr>slpqs := d[i := q]\<rparr>) k = (if k = Sq i then sq_last q else lastq s k)"
  "slpqs s = d \<Longrightarrow> qvalid (s\<lparr>slpqs := d[i := q]\<rparr>) k = qvalid s k"
  by (cases k; simp add: nth_list_update)+

text \<open>Take a process off its sleep queue, given the process before it.\<close>

definition sq_unlink :: "nat \<Rightarrow> nat \<Rightarrow> nat option \<Rightarrow> sched \<Rightarrow> sched" where
  "sq_unlink i p prp s = (let l = p_link (pr s p); s = set_plink i prp l s in if l = None then set_sqlast i prp s else s)"

lemma slpqs_set_link [simp]: "slpqs (set_link p l s) = slpqs s"
  by (simp add: set_link_def)

lemma sq_unlink_forms:
  assumes "i < length (slpqs s)"
  shows "sq_unlink i p None s = s\<lparr>slpqs := (slpqs s)[i := \<lparr>sq_first = nxt s p,
      sq_last = (if nxt s p = None then None else sq_last (slpqs s ! i))\<rparr>]\<rparr>"
    "sq_unlink i p (Some r) s = (set_link r (nxt s p) s)\<lparr>slpqs := (slpqs s)[i := (slpqs s ! i)\<lparr>sq_last :=
      (if nxt s p = None then Some r else sq_last (slpqs s ! i))\<rparr>]\<rparr>"
proof -
  obtain n where n: "nxt s p = n" "p_link (pr s p) = n" by (simp add: nxt_def)
  have m: "sq_last (slpqs (set_link r n s) ! i) = sq_last (slpqs s ! i)" by simp
  have id: "(slpqs s)[i := slpqs s ! i] = slpqs s" by (rule list_update_id)
  obtain a b where q: "slpqs s ! i = \<lparr>sq_first = a, sq_last = b\<rparr>" by (cases "slpqs s ! i") simp
  have w: "set_link r n s = (set_link r n s)\<lparr>slpqs := slpqs s\<rparr>" by (simp add: set_link_def upd_proc_def)
  show "sq_unlink i p None s = s\<lparr>slpqs := (slpqs s)[i := \<lparr>sq_first = nxt s p,
      sq_last = (if nxt s p = None then None else sq_last (slpqs s ! i))\<rparr>]\<rparr>"
    unfolding sq_unlink_def n Let_def set_plink_def option.case q
    by (cases n) (simp_all add: set_sqlast_def assms)
  show "sq_unlink i p (Some r) s = (set_link r (nxt s p) s)\<lparr>slpqs := (slpqs s)[i := (slpqs s ! i)\<lparr>sq_last :=
      (if nxt s p = None then Some r else sq_last (slpqs s ! i))\<rparr>]\<rparr>"
  proof (cases n)
    case None
    then show ?thesis unfolding sq_unlink_def n Let_def set_plink_def option.case set_sqlast_def by simp
  next
    case (Some m)
    have e: "(slpqs s ! i)\<lparr>sq_last := sq_last (slpqs s ! i)\<rparr> = slpqs s ! i" by simp
    show ?thesis unfolding sq_unlink_def n Let_def set_plink_def option.case Some option.distinct if_False e id
      using w Some by simp
  qed
qed

lemma sq_unlink_ok:
  assumes ok: "links_ok Q s" and i: "i < length (slpqs s)" and q: "Q (Sq i) = A @ p # B"
  shows "links_ok (Q(Sq i := A @ B)) (sq_unlink i p (lastp A) s)"
proof -
  note D = links_okD [OF ok]
  have r: "qrep (nxt s) (sq_first (slpqs s ! i)) (sq_last (slpqs s ! i)) (A @ p # B)"
    using D(1) [of "Sq i"] i q by simp
  have d: "distinct (A @ p # B)" using D(3) [of "Sq i"] q by simp
  have in_i: "x \<in> set (A @ B) \<Longrightarrow> x \<in> set (Q (Sq i))" for x using q by auto
  have lt: "\<And>x. x \<in> set (A @ B) \<Longrightarrow> x < length (proctab s)" using D(5) in_i by blast
  have apart: "x \<notin> set (Q l)" if "x \<in> set (A @ B)" "l \<noteq> Sq i" for x l
    using D(4) [of "Sq i" l x] in_i [OF that(1)] that(2) by simp
  show ?thesis
  proof (cases "A = []")
    case True
    have n: "qrep (nxt s) (nxt s p) (if nxt s p = None then None else sq_last (slpqs s ! i)) B"
      using r True by (intro qrep_unlink_head) simp
    have e: "lastp A = None" using True by simp
    show ?thesis unfolding e sq_unlink_forms(1) [OF i]
      by (rule links_ok_upd [OF ok]) (use n i d lt apart True in \<open>auto simp: firstq_slpqs\<close>)
  next
    case False
    have n: "qrep ((nxt s)(last A := nxt s p)) (sq_first (slpqs s ! i))
        (if nxt s p = None then Some (last A) else sq_last (slpqs s ! i)) (A @ B)"
      using r d False by (rule qrep_unlink_mid)
    have la: "last A \<in> set (A @ B)" using False by simp
    have e: "lastp A = Some (last A)" using False by (simp add: lastp_def)
    show ?thesis unfolding e sq_unlink_forms(2) [OF i]
    proof (rule links_ok_upd [OF ok])
      fix x l assume "l \<noteq> Sq i" "x \<in> set (Q l)"
      then have "x \<noteq> last A" using apart [OF la] by auto
      then show "nxt (set_link (last A) (nxt s p) s\<lparr>slpqs := (slpqs s)[i := (slpqs s ! i)\<lparr>sq_last :=
        (if nxt s p = None then Some (last A) else sq_last (slpqs s ! i))\<rparr>]\<rparr>) x = nxt s x"
        using lt [OF la] by (simp add: nxt_set_link)
    qed (use n i d lt lt [OF la] apart in \<open>auto simp: firstq_slpqs nxt_set_link\<close>)
  qed
qed

section \<open>Changes of the sleep queues keep the rest\<close>

definition slp_rest :: "sched \<Rightarrow> sched" where
  "slp_rest s = s\<lparr>proctab := map bare (proctab s), slpqs := map (\<lambda>_. \<lparr>sq_first = None, sq_last = None\<rparr>) (slpqs s)\<rparr>"

definition slp_same :: "sched \<Rightarrow> sched \<Rightarrow> bool" where
  "slp_same s t \<longleftrightarrow> slp_rest t = slp_rest s"

lemma slp_same_trans: "slp_same s t \<Longrightarrow> slp_same t u \<Longrightarrow> slp_same s u"
  by (simp add: slp_same_def)

lemma map_const_update: "map (\<lambda>_. c) (xs[i := q]) = map (\<lambda>_. c) xs"
  by (rule nth_equalityI) simp_all

lemma slp_same_steps: "slp_same s (set_link p l s)" "slp_same s (s\<lparr>slpqs := (slpqs s)[i := q]\<rparr>)"
  "slp_same s (set_sqlast i v s)" "slp_same s (set_plink i rp v s)"
proof -
  show a: "slp_same s (set_link p l s)" for p l
    by (simp add: slp_same_def slp_rest_def set_link_def upd_proc_def bare_link)
  show b: "slp_same s (s\<lparr>slpqs := (slpqs s)[i := q]\<rparr>)" for i q
    by (simp add: slp_same_def slp_rest_def map_const_update)
  show "slp_same s (set_sqlast i v s)" unfolding set_sqlast_def by (rule b)
  show "slp_same s (set_plink i rp v s)"
    by (cases rp) (simp_all only: set_plink_def option.case a b)
qed

lemma slp_sameD:
  assumes "slp_same s t"
  shows "same_procs s t" "dispqs t = dispqs s" "dqactmap t = dqactmap s" "srunprocs t = srunprocs s" "maxrunpri t = maxrunpri s"
    "same_rest s t" "nglobpris t = nglobpris s" "length (slpqs t) = length (slpqs s)" "curpri t = curpri s" "curproc t = curproc s"
    "runout t = runout s"
proof -
  note e = assms [unfolded slp_same_def]
  show p: "same_procs s t" using arg_cong [OF e, of proctab] by (simp add: same_procs_def slp_rest_def)
  show "dispqs t = dispqs s" using arg_cong [OF e, of dispqs] by (simp add: slp_rest_def)
  show "dqactmap t = dqactmap s" using arg_cong [OF e, of dqactmap] by (simp add: slp_rest_def)
  show "srunprocs t = srunprocs s" using arg_cong [OF e, of srunprocs] by (simp add: slp_rest_def)
  show "maxrunpri t = maxrunpri s" using arg_cong [OF e, of maxrunpri] by (simp add: slp_rest_def)
  show g: "nglobpris t = nglobpris s" using arg_cong [OF e, of nglobpris] by (simp add: slp_rest_def)
  show l: "length (slpqs t) = length (slpqs s)" using arg_cong [OF e, of "length \<circ> slpqs"] by (simp add: slp_rest_def)
  show "curpri t = curpri s" using arg_cong [OF e, of curpri] by (simp add: slp_rest_def)
  show c: "curproc t = curproc s" using arg_cong [OF e, of curproc] by (simp add: slp_rest_def)
  show r: "runout t = runout s" using arg_cong [OF e, of runout] by (simp add: slp_rest_def)
  show "same_rest s t"
    using arg_cong [OF e, of old_curproc] arg_cong [OF e, of oldproc] arg_cong [OF e, of idleswtch] arg_cong [OF e, of runin]
      arg_cong [OF e, of ts_dptbl] arg_cong [OF e, of rt_dptbl] arg_cong [OF e, of ts_plist] arg_cong [OF e, of rt_plist]
      same_procs_len [OF p] g l c r
    by (simp add: same_rest_def slp_rest_def)
qed

lemma core_slp:
  assumes ok: "core c Q s" and t: "slp_same s t" "links_ok R t" and R: "\<And>i. R (Dq i) = Q (Dq i)"
  shows "core c R t" "only {} s t"
proof -
  note D = slp_sameD [OF t(1)]
  have len: "length (proctab t) = length (proctab s)" using same_procs_len [OF D(1)] .
  have rest: "ts_dptbl t = ts_dptbl s" "rt_dptbl t = rt_dptbl s" using D(6) by (simp_all add: same_rest_def)
  show "only {} s t" unfolding only_def using D len same_procs_bare [OF D(1)] by simp
  have "runcnt R t = runcnt Q t" by (simp add: runcnt_def R fun_eq_iff)
  then have "runcnt R t = runcnt Q s" using runcnt_cong [OF disp_okD(1) [OF coreD(2) [OF ok]] D(1)] by simp
  moreover have "counts_ok (runcnt Q s) t" using disp_okD(2) [OF coreD(2) [OF ok]] D by (simp add: counts_ok_def)
  moreover have "p_pri (pr t x) = int i" if "x \<in> set (R (Dq i))" for x i
    using that disp_okD(3) [OF coreD(2) [OF ok], of x i] links_okD(5) [OF disp_okD(1) [OF coreD(2) [OF ok]], of x "Dq i"]
      same_procsD(3) [OF D(1), of x] by (simp add: R)
  ultimately have d: "disp_ok R t" using t(2) by (simp add: disp_ok_def)
  show "core c R t"
    unfolding core_def
  proof (intro conjI allI impI)
    show "conf_ok c t" by (rule conf_ok_cong [OF coreD(1) [OF ok]]) (use D len rest in simp_all)
    show "length (slpqs t) = NSLEEPQ" using coreD(3) [OF ok] D by simp
    show "proc_ok c t x" if "x < length (proctab t)" for x
      using coreD(4) [OF ok, of x] that len same_procsD [OF D(1), of x] D by (simp add: proc_ok_def)
  qed (fact d)
qed

lemma unlink_slp_same: "slp_same s (sq_unlink i p prp s)"
  unfolding sq_unlink_def Let_def by (auto intro: slp_same_steps slp_same_trans [OF slp_same_steps(4) slp_same_steps(3)])


section \<open>Off a sleep queue\<close>

lemma core_clear_wchan:
  assumes "core c Q s" "p < length (proctab s)"
  shows "core c Q (clear_wchan p s)" "only {p} s (clear_wchan p s)" "bare (pr (clear_wchan p s) p) = (bare (pr s p))\<lparr>p_wchan := 0\<rparr>"
proof -
  show "core c Q (clear_wchan p s)"
    unfolding clear_wchan_def
    by (rule core_proc [OF assms]) (use coreD(4) [OF assms] in \<open>auto simp: proc_ok_def schedulable_def\<close>)
  show "only {p} s (clear_wchan p s)" unfolding clear_wchan_def by (rule only_proc)
  show "bare (pr (clear_wchan p s) p) = (bare (pr s p))\<lparr>p_wchan := 0\<rparr>"
    using assms(2) by (simp add: clear_wchan_def pr_upd bare_def)
qed

lemma unlink_wchan:
  assumes ok: "core c Q s" and i: "i < NSLEEPQ" and q: "Q (Sq i) = A @ p # B"
  shows "core c (Q(Sq i := A @ B)) (clear_wchan p (sq_unlink i p (lastp A) s))"
    "only {p} s (clear_wchan p (sq_unlink i p (lastp A) s))"
    "bare (pr (clear_wchan p (sq_unlink i p (lastp A) s)) p) = (bare (pr s p))\<lparr>p_wchan := 0\<rparr>"
    "\<not> queued (Q(Sq i := A @ B)) p"
proof -
  let ?t = "sq_unlink i p (lastp A) s"
  note L = disp_okD(1) [OF coreD(2) [OF ok]]
  have i': "i < length (slpqs s)" using i coreD(3) [OF ok] by simp
  have p: "p < length (proctab s)" using links_okD(5) [OF L, of p "Sq i"] q by simp
  have t: "core c (Q(Sq i := A @ B)) ?t" "only {} s ?t"
    by (rule core_slp [OF ok unlink_slp_same sq_unlink_ok [OF L i' q]]; simp)+
  have len: "p < length (proctab ?t)" using same_procs_len [OF slp_sameD(1) [OF unlink_slp_same]] p by simp
  note c = core_clear_wchan [OF t(1) len]
  show "core c (Q(Sq i := A @ B)) (clear_wchan p ?t)" by (fact c(1))
  show "only {p} s (clear_wchan p ?t)" using only_trans [OF only_mono [OF t(2)] c(2)] by simp
  show "bare (pr (clear_wchan p ?t) p) = (bare (pr s p))\<lparr>p_wchan := 0\<rparr>"
    using c(3) same_procs_bare [OF slp_sameD(1) [OF unlink_slp_same] p, of i p "lastp A"] by simp
  show "\<not> queued (Q(Sq i := A @ B)) p"
    using links_okD(3) [OF L, of "Sq i"] links_okD(4) [OF L, of "Sq i" _ p] q by (auto simp: queued_def split: if_splits)
qed

lemma sq_search_found:
  assumes "chained (nxt s) rp (A @ p # B)" "p \<notin> set A"
  shows "sq_search s p (prp, rp) = Some (if A = [] then prp else lastp A)"
  using assms
proof (induction A arbitrary: rp prp)
  case Nil
  then show ?case by (subst sq_search.simps) simp
next
  case (Cons a A)
  then have e: "rp = Some a" "chained (nxt s) (nxt s a) (A @ p # B)" by auto
  have "sq_search s p (prp, rp) = sq_search s p (Some a, nxt s a)"
    using Cons.prems e(1) by (subst sq_search.simps) (auto simp: nxt_def)
  then show ?case using Cons.IH [OF e(2)] Cons.prems by (simp add: lastp_def)
qed

text \<open>\<open>unsleep\<close> returns when the process is where its sleep channel says.\<close>

lemma unsleep_ok:
  assumes ok: "core c Q s" and p: "p_wchan (pr s p) \<noteq> 0" "Q (Sq (sqhash (p_wchan (pr s p)))) = A @ p # B"
  defines "i \<equiv> sqhash (p_wchan (pr s p))"
  shows "unsleep p s = Some (clear_wchan p (sq_unlink i p (lastp A) s))"
proof -
  note L = disp_okD(1) [OF coreD(2) [OF ok]]
  have q: "Q (Sq i) = A @ p # B" using p(2) by (simp add: i_def)
  have v: "qvalid s (Sq i)" using coreD(3) [OF ok] by (simp add: i_def)
  have l: "chained (nxt s) (sq_first (slpqs s ! i)) (A @ p # B)" using links_okD(1) [OF L v] q by (simp add: qrep_def)
  have d: "p \<notin> set A" using links_okD(3) [OF L, of "Sq i"] q by simp
  have "sq_search s p (None, sq_first (slpqs s ! i)) = Some (lastp A)"
    using sq_search_found [OF l d, of None] by (simp add: lastp_def split: if_splits)
  then show ?thesis using p(1) by (simp add: unsleep_def sq_unlink_def Let_def i_def)
qed

section \<open>Onto a sleep queue\<close>

lemma sleep_enqueue_links:
  assumes ok: "links_ok Q s" and p: "p < length (proctab s)" "\<not> queued Q p" and i: "i < length (slpqs s)"
  defines "t \<equiv> (if sq_first (slpqs s ! i) = None
       then s\<lparr>slpqs := (slpqs s)[i := (slpqs s ! i)\<lparr>sq_first := Some p, sq_last := Some p\<rparr>]\<rparr>
       else (set_link (the (sq_last (slpqs s ! i))) (Some p) s)\<lparr>slpqs := (slpqs s)[i := (slpqs s ! i)\<lparr>sq_last := Some p\<rparr>]\<rparr>)"
  shows "links_ok (Q(Sq i := Q (Sq i) @ [p])) (set_link p None t)" "slp_same s (set_link p None t)"
proof -
  note D = links_okD [OF ok]
  have q: "qrep (nxt s) (sq_first (slpqs s ! i)) (sq_last (slpqs s ! i)) (Q (Sq i))" using D(1) [of "Sq i"] i by simp
  have new: "p \<notin> set (Q l)" for l using p(2) by (auto simp: queued_def)
  show "slp_same s (set_link p None t)"
  proof (cases "sq_first (slpqs s ! i) = None")
    case True
    then show ?thesis unfolding t_def by (simp add: slp_same_trans [OF slp_same_steps(2) slp_same_steps(1)])
  next
    case False
    have "slp_same s t" unfolding t_def if_not_P [OF False]
      using slp_same_trans [OF slp_same_steps(1) slp_same_steps(2) [of "set_link (the (sq_last (slpqs s ! i))) (Some p) s"]] by simp
    then show ?thesis by (rule slp_same_trans [OF _ slp_same_steps(1)])
  qed
  show "links_ok (Q(Sq i := Q (Sq i) @ [p])) (set_link p None t)"
  proof (cases "sq_first (slpqs s ! i)")
    case None
    then have e: "Q (Sq i) = []" using q qrep_empty by metis
    have t: "t = s\<lparr>slpqs := (slpqs s)[i := (slpqs s ! i)\<lparr>sq_first := Some p, sq_last := Some p\<rparr>]\<rparr>"
      unfolding t_def by (rule if_P) (fact None)
    show ?thesis unfolding t
      by (rule links_ok_upd [OF ok])
        (use i p new in \<open>auto simp: firstq_slpqs e nxt_set_link qrep_single\<close>)
  next
    case (Some f)
    then obtain l where s: "sq_last (slpqs s ! i) = Some l" using q qrep_empty by (metis option.exhaust option.distinct(1))
    then have l: "l \<in> set (Q (Sq i))" using q by (auto simp: qrep_def lastp_def split: if_splits)
    then have ll: "l < length (proctab s)" using D(5) by blast
    have ne: "l \<noteq> p" using l new by blast
    have t: "t = (set_link l (Some p) s)\<lparr>slpqs := (slpqs s)[i := (slpqs s ! i)\<lparr>sq_last := Some p\<rparr>]\<rparr>"
      unfolding t_def s option.sel by (rule if_not_P) (simp add: Some)
    have qn: "qrep ((nxt s)(p := None, l := Some p)) (sq_first (slpqs s ! i)) (Some p) (Q (Sq i) @ [p])"
      using q s D(3) new by (intro qrep_snoc) auto
    have nx: "nxt (set_link p None t) = (nxt s)(p := None, l := Some p)"
      using p ll ne by (simp add: t nxt_set_link fun_upd_twist)
    show ?thesis
    proof (rule links_ok_upd [OF ok])
      fix x m assume "m \<noteq> Sq i" "x \<in> set (Q m)"
      then have "x \<noteq> l" "x \<noteq> p" using D(4) [of m "Sq i" x] l new [of m] by auto
      then show "nxt (set_link p None t) x = nxt s x" by (simp add: nx)
    qed (use i p ll new D(3,4,5) qn nx in \<open>auto simp: firstq_slpqs t\<close>)
  qed
qed

lemma sleep_enqueue_ok:
  fixes chan :: int
  assumes ok: "core c Q s" and p: "p < length (proctab s)" "\<not> queued Q p"
  defines "i \<equiv> sqhash chan"
  shows "core c (Q(Sq i := Q (Sq i) @ [p])) (sleep_enqueue chan p s)" "only {p} s (sleep_enqueue chan p s)"
    "bare (pr (sleep_enqueue chan p s) p) = (bare (pr s p))\<lparr>p_stat := SSLEEP, p_wchan := chan\<rparr>"
    "runout (sleep_enqueue chan p s) = runout s"
proof -
  define u where "u = upd_proc p (\<lambda>x. x\<lparr>p_stat := SSLEEP, p_wchan := chan\<rparr>) s"
  have u: "core c Q u"
    unfolding u_def by (rule core_proc [OF ok p(1)]) (use coreD(4) [OF ok p(1)] in \<open>auto simp: proc_ok_def schedulable_def\<close>)
  have pu: "p < length (proctab u)" "i < length (slpqs u)" using p coreD(3) [OF ok] by (simp_all add: u_def i_def)
  define t where "t = (if sq_first (slpqs u ! i) = None
       then u\<lparr>slpqs := (slpqs u)[i := (slpqs u ! i)\<lparr>sq_first := Some p, sq_last := Some p\<rparr>]\<rparr>
       else (set_link (the (sq_last (slpqs u ! i))) (Some p) u)\<lparr>slpqs := (slpqs u)[i := (slpqs u ! i)\<lparr>sq_last := Some p\<rparr>]\<rparr>)"
  have e: "sleep_enqueue chan p s = set_link p None t"
    by (simp add: sleep_enqueue_def Let_def u_def [symmetric] i_def [symmetric] t_def)
  note l = sleep_enqueue_links [OF disp_okD(1) [OF coreD(2) [OF u]] pu(1) p(2) pu(2), folded t_def]
  note k = core_slp [OF u l(2,1)]
  show "core c (Q(Sq i := Q (Sq i) @ [p])) (sleep_enqueue chan p s)" unfolding e by (rule k(1)) simp
  have "only {p} s u" unfolding u_def by (rule only_proc)
  moreover have "only {} u (set_link p None t)" by (rule k(2)) simp
  ultimately show "only {p} s (sleep_enqueue chan p s)" unfolding e by (auto intro: only_trans only_mono)
  show "bare (pr (sleep_enqueue chan p s) p) = (bare (pr s p))\<lparr>p_stat := SSLEEP, p_wchan := chan\<rparr>"
    unfolding e using same_procs_bare [OF slp_sameD(1) [OF l(2)] pu(1)] p(1) by (simp add: u_def pr_upd bare_def)
  show "runout (sleep_enqueue chan p s) = runout s" unfolding e using slp_sameD(11) [OF l(2)] by (simp add: u_def)
qed


section \<open>Waking one process\<close>

text \<open>The class functions neither read nor change the sleep queues.\<close>

lemma slpqs_moves:
  "upd_proc p f (s\<lparr>slpqs := d\<rparr>) = (upd_proc p f s)\<lparr>slpqs := d\<rparr>" "set_link p l (s\<lparr>slpqs := d\<rparr>) = (set_link p l s)\<lparr>slpqs := d\<rparr>"
  "dq_sruninc pri (s\<lparr>slpqs := d\<rparr>) = (dq_sruninc pri s)\<lparr>slpqs := d\<rparr>"
  by (simp_all add: upd_proc_def set_link_def dq_sruninc_def Let_def)

lemma setbackdq_slpqs: "setbackdq p (s\<lparr>slpqs := d\<rparr>) = (setbackdq p s)\<lparr>slpqs := d\<rparr>"
proof -
  have "link_back i p (s\<lparr>slpqs := d\<rparr>) = (link_back i p s)\<lparr>slpqs := d\<rparr>" for i
    by (cases "dq_last (dispqs s ! i)") (simp_all add: link_back_def Let_def slpqs_moves)
  then show ?thesis by (simp add: setbackdq_split Let_def slpqs_moves)
qed

lemma upd_class_slpqs: "upd_ts p f (s\<lparr>slpqs := d\<rparr>) = (upd_ts p f s)\<lparr>slpqs := d\<rparr>" "upd_rt p g (s\<lparr>slpqs := d\<rparr>) = (upd_rt p g s)\<lparr>slpqs := d\<rparr>"
  by (simp_all add: upd_ts_def upd_rt_def slpqs_moves)

lemma CL_WAKEUP_slpqs: "CL_WAKEUP p (s\<lparr>slpqs := d\<rparr>) = (CL_WAKEUP p s)\<lparr>slpqs := d\<rparr>"
  by (cases "p_clproc (pr s p)")
    (simp_all add: CL_WAKEUP_def sys_wakeup_def ts_wakeup_def rt_wakeup_def setbackdq_slpqs upd_class_slpqs bump_both_def Let_def)

lemma wake_proc_slpqs: "wake_proc prmpt p r (s\<lparr>slpqs := d\<rparr>) = (let w = wake_proc prmpt p r s in (fst w, (snd w)\<lparr>slpqs := d\<rparr>))"
proof -
  have a: "arrange b p r (u\<lparr>slpqs := d\<rparr>) = (let w = arrange b p r u in (fst w, (snd w)\<lparr>slpqs := d\<rparr>))" for b u
    by (simp add: arrange_def Let_def)
  have st: "set_stat p SRUN (s\<lparr>slpqs := d\<rparr>) = (set_stat p SRUN s)\<lparr>slpqs := d\<rparr>" by (simp add: set_stat_def slpqs_moves)
  define u where "u = set_stat p SRUN s"
  define v where "v = (if prmpt then u else u\<lparr>npwakecnt := npwakecnt u + 1\<rparr>)"
  have "wake_proc prmpt p r (s\<lparr>slpqs := d\<rparr>) = arrange prmpt p r (CL_WAKEUP p
      (if prmpt then u\<lparr>slpqs := d\<rparr> else u\<lparr>slpqs := d\<rparr>\<lparr>npwakecnt := npwakecnt u + 1\<rparr>))"
    by (simp add: wake_proc_def Let_def st u_def)
  also have "(if prmpt then u\<lparr>slpqs := d\<rparr> else u\<lparr>slpqs := d\<rparr>\<lparr>npwakecnt := npwakecnt u + 1\<rparr>) = v\<lparr>slpqs := d\<rparr>"
    by (simp add: v_def)
  finally have "wake_proc prmpt p r (s\<lparr>slpqs := d\<rparr>) = arrange prmpt p r ((CL_WAKEUP p v)\<lparr>slpqs := d\<rparr>)"
    by (simp only: CL_WAKEUP_slpqs)
  moreover have "wake_proc prmpt p r s = arrange prmpt p r (CL_WAKEUP p v)"
    by (simp add: wake_proc_def Let_def u_def v_def)
  ultimately show ?thesis by (simp add: a)
qed

lemma wake_proc_keeps_slpqs: "slpqs (snd (wake_proc prmpt p r s)) = slpqs s"
proof -
  have "wake_proc prmpt p r s = (fst (wake_proc prmpt p r s), (snd (wake_proc prmpt p r s))\<lparr>slpqs := slpqs s\<rparr>)"
    using wake_proc_slpqs [where d = "slpqs s" and s = s] by (simp add: Let_def)
  from arg_cong [OF this, of "slpqs \<circ> snd"] show ?thesis by simp
qed

lemma bare_coarse: "bare y = bare x \<Longrightarrow> coarse y = coarse x"
  by (simp add: coarse_def)

lemma arrange_same: "snd (arrange prmpt p r s) = s \<or> snd (arrange prmpt p r s) = s\<lparr>runrun := 1\<rparr>"
  "fst (arrange prmpt p r s) \<Longrightarrow> r \<or> 0 < runout s"
  by (simp_all add: arrange_def split: if_splits)

lemma only_globals: "only P s t \<Longrightarrow> only P s (t\<lparr>runrun := n\<rparr>)" "only P (s\<lparr>npwakecnt := k\<rparr>) t = only P s t"
  by (simp_all add: only_def same_rest_def)

lemma wake_proc_ok:
  fixes prmpt r :: bool
  assumes ok: "core c Q s" and p: "p < length (proctab s)" "\<not> queued Q p"
  defines "w \<equiv> wake_proc prmpt p r s"
  shows "core c (onto_back Q s p) (snd w)" "only {p} s (snd w)" "coarse (pr (snd w) p) = (coarse (pr s p))\<lparr>p_stat := SRUN\<rparr>"
    "fst w \<Longrightarrow> r \<or> 0 < runout s"
proof -
  define u where "u = (if prmpt then set_stat p SRUN s else (set_stat p SRUN s)\<lparr>npwakecnt := npwakecnt s + 1\<rparr>)"
  have w: "w = arrange prmpt p r (CL_WAKEUP p u)"
    by (simp add: w_def wake_proc_def u_def Let_def) (simp add: set_stat_def)
  have st: "core c Q (set_stat p SRUN s)"
    unfolding set_stat_def by (rule core_proc [OF ok p(1)]) (use coreD(4) [OF ok p(1)] in \<open>auto simp: proc_ok_def schedulable_def\<close>)
  then have "core c Q ((set_stat p SRUN s)\<lparr>npwakecnt := k\<rparr>)" for k by (rule core_globals) simp_all
  then have cu: "core c Q u" using st by (simp add: u_def)
  have pu: "proctab u = proctab (set_stat p SRUN s)" by (simp add: u_def)
  have lu: "p < length (proctab u)" using p(1) by (simp add: pu set_stat_def)
  have ou: "only {p} s u"
    using only_proc [of p s] by (simp add: u_def set_stat_def only_def same_rest_def split: if_splits)
  have pb: "put_back c p Q u (CL_WAKEUP p u)" by (rule cl.wakeup_back [OF cu lu TrueI p(2)])
  have ob: "onto_back Q u p = onto_back Q s p" using p(1) by (simp add: onto_back_def pu set_stat_def pr_upd)
  have k: "core c (onto_back Q s p) (CL_WAKEUP p u)" "only {p} s (CL_WAKEUP p u)"
    using pb ob only_trans [OF ou] by (auto simp: put_back_def)
  have same: "proctab (snd w) = proctab (CL_WAKEUP p u)"
    using arrange_same(1) [of prmpt p r "CL_WAKEUP p u"] by (auto simp: w)
  show "only {p} s (snd w)" using arrange_same(1) [of prmpt p r "CL_WAKEUP p u"] k(2) only_globals(1) [OF k(2), of 1] by (auto simp: w)
  have "core c (onto_back Q s p) ((CL_WAKEUP p u)\<lparr>runrun := 1\<rparr>)" by (rule core_globals [OF k(1)]) simp_all
  then show "core c (onto_back Q s p) (snd w)" using arrange_same(1) [of prmpt p r "CL_WAKEUP p u"] k(1) by (auto simp: w)
  have "coarse (pr (CL_WAKEUP p u) p) = coarse (pr u p)" using pb by (simp add: put_back_def same_run_def)
  then show "coarse (pr (snd w) p) = (coarse (pr s p))\<lparr>p_stat := SRUN\<rparr>"
    using p(1) by (simp add: same pu set_stat_def pr_upd coarse_def bare_def)
  have ro: "runout (CL_WAKEUP p u) = runout s" using k(2) by (simp add: only_def same_rest_def)
  show "fst w \<Longrightarrow> r \<or> 0 < runout s" using arrange_same(2) [of prmpt p r "CL_WAKEUP p u"] ro by (simp add: w)
qed


section \<open>Waking all\<close>

text \<open>The queues after a wake-up of the processes \<open>ps\<close>, taken off already: those that are not stopped go
to the back of their dispatcher queues, in order.\<close>

definition woken :: "sched \<Rightarrow> nat list \<Rightarrow> (qid \<Rightarrow> nat list) \<Rightarrow> qid \<Rightarrow> nat list" where
  "woken s ps Q = fold (\<lambda>p R. if p_stat (pr s p) = SSLEEP then onto_back R s p else R) ps Q"

text \<open>What becomes of a sleeping process.\<close>

definition awake :: "proc \<Rightarrow> proc \<Rightarrow> bool" where
  "awake x y \<longleftrightarrow> coarse y = (coarse x)\<lparr>p_wchan := 0, p_stat := (if p_stat x = SSLEEP then SRUN else p_stat x)\<rparr>"

lemma awake_stay: "bare y = (bare x)\<lparr>p_wchan := 0\<rparr> \<Longrightarrow> p_stat x \<noteq> SSLEEP \<Longrightarrow> awake x y"
  unfolding awake_def coarse_def by (cases x) (simp add: bare_def)

lemma awake_cong:
  assumes b: "bare y = bare x" and a: "awake y z" shows "awake x z"
proof -
  have "coarse z = (coarse y)\<lparr>p_wchan := 0, p_stat := (if p_stat y = SSLEEP then SRUN else p_stat y)\<rparr>"
    using a by (simp only: awake_def)
  also have "\<dots> = (coarse x)\<lparr>p_wchan := 0, p_stat := (if p_stat x = SSLEEP then SRUN else p_stat x)\<rparr>"
    by (simp only: bare_coarse [OF b] bare_eqD(1) [OF b])
  finally show ?thesis by (simp only: awake_def)
qed

lemma woken_simps [simp]: "woken s [] Q = Q"
  "woken s (p # ps) Q = woken s ps (if p_stat (pr s p) = SSLEEP then onto_back Q s p else Q)"
  by (simp_all add: woken_def)

lemma onto_back_cong: "p_pri (pr t p) = p_pri (pr s p) \<Longrightarrow> onto_back Q t p = onto_back Q s p"
  by (simp add: onto_back_def)

lemma woken_cong: "\<forall>p \<in> set ps. p_stat (pr t p) = p_stat (pr s p) \<and> p_pri (pr t p) = p_pri (pr s p) \<Longrightarrow> woken t ps Q = woken s ps Q"
proof (induction ps arbitrary: Q)
  case (Cons p ps)
  then have "onto_back Q t p = onto_back Q s p" "p_stat (pr t p) = p_stat (pr s p)" by (simp_all add: onto_back_def)
  then show ?case using Cons by simp
qed simp

lemma onto_back_sq: "(onto_back Q s p) (Sq i) = Q (Sq i)" "(onto_back Q s p)(Sq i := xs) = onto_back (Q(Sq i := xs)) s p"
  by (auto simp: onto_back_def Let_def fun_eq_iff)

lemma woken_sq: "woken s ps Q (Sq i) = Q (Sq i)"
  by (induction ps arbitrary: Q) (auto simp: onto_back_sq)

lemma set_sqlast_simps [simp]: "proctab (set_sqlast i v s) = proctab s" "nxt (set_sqlast i v s) = nxt s"
  "length (slpqs (set_sqlast i v s)) = length (slpqs s)" "runout (set_sqlast i v s) = runout s"
  by (simp_all add: set_sqlast_def)

lemma sqlast_rest: "same_rest (set_sqlast i v s) t = same_rest s t" "same_rest s (set_sqlast i v t) = same_rest s t"
  unfolding same_rest_def set_sqlast_def by simp_all

lemma sqlast_only [simp]: "only P (set_sqlast i v s) t = only P s t" "only P s (set_sqlast i v t) = only P s t"
  unfolding only_def sqlast_rest set_sqlast_simps by simp_all

lemma sqlast_first [simp]: "i < length (slpqs s) \<Longrightarrow> sq_first (slpqs (set_sqlast i v s) ! i) = sq_first (slpqs s ! i)"
  by (simp add: set_sqlast_def)

lemma wake_proc_sqlast: "set_sqlast i v (snd (wake_proc prmpt p r s)) = snd (wake_proc prmpt p r (set_sqlast i v s))"
  by (simp add: set_sqlast_def wake_proc_slpqs wake_proc_keeps_slpqs Let_def)

lemma slpq_both: "(x::slpq)\<lparr>sq_first := l, sq_last := v\<rparr> = \<lparr>sq_first = l, sq_last = v\<rparr>"
  by (cases x) simp

lemma plink_sqlast_forms:
  assumes "i < length (slpqs s)"
  shows "set_sqlast i v (set_plink i None l s) = s\<lparr>slpqs := (slpqs s)[i := \<lparr>sq_first = l, sq_last = v\<rparr>]\<rparr>"
    "set_sqlast i v (set_plink i (Some r) l s) = (set_link r l s)\<lparr>slpqs := (slpqs s)[i := (slpqs s ! i)\<lparr>sq_last := v\<rparr>]\<rparr>"
  unfolding set_plink_def set_sqlast_def option.case using assms by (simp_all add: slpq_both)

lemma wchan_link_swap:
  "(ps::proc list)[r := (ps ! r)\<lparr>p_link := l\<rparr>, p := (ps[r := (ps ! r)\<lparr>p_link := l\<rparr>] ! p)\<lparr>p_wchan := 0\<rparr>]
    = ps[p := (ps ! p)\<lparr>p_wchan := 0\<rparr>, r := (ps[p := (ps ! p)\<lparr>p_wchan := 0\<rparr>] ! r)\<lparr>p_link := l\<rparr>]" (is "?a = ?b")
proof (rule nth_equalityI)
  fix i assume "i < length ?a"
  then show "?a ! i = ?b ! i" by (cases "i = r"; cases "i = p"; cases "r = p") simp_all
qed simp

lemma clear_wchan_moves:
  "clear_wchan p (s\<lparr>slpqs := d\<rparr>) = (clear_wchan p s)\<lparr>slpqs := d\<rparr>" "slpqs (clear_wchan p s) = slpqs s"
  "clear_wchan p (set_link r l s) = set_link r l (clear_wchan p s)"
  by (simp_all add: clear_wchan_def slpqs_moves) (simp add: set_link_def upd_proc_def wchan_link_swap)

lemma plink_unlinked:
  assumes "i < length (slpqs s)" "p < length (proctab s)" "qrep (nxt s) a b (A @ p # B)"
  shows "set_sqlast i (lastp (A @ B)) (set_plink i (lastp A) (p_link (pr (clear_wchan p s) p)) (clear_wchan p s))
    = clear_wchan p (sq_unlink i p (lastp A) (set_sqlast i (lastp (A @ p # B)) s))"
proof -
  have l: "chained (nxt s) (nxt s p) B" using assms(3) chained_next [of "nxt s" a A p B] by (simp add: qrep_def)
  then have n: "nxt s p = None \<longleftrightarrow> B = []" by (cases B) auto
  have pl: "p_link (pr (clear_wchan p s) p) = nxt s p" using assms(2) by (simp add: clear_wchan_def pr_upd nxt_def)
  define v where "v = lastp (A @ p # B)"
  define z where "z = set_sqlast i v s"
  have z: "i < length (slpqs z)" "nxt z = nxt s" "sq_last (slpqs z ! i) = v" using assms(1) by (simp_all add: z_def) (simp add: set_sqlast_def)
  have last: "lastp (A @ B) = (if nxt s p = None then lastp A else v)"
    using n by (auto simp: lastp_def v_def)
  have i': "i < length (slpqs (clear_wchan p s))" using assms(1) by (simp add: clear_wchan_moves)
  show ?thesis unfolding v_def [symmetric] z_def [symmetric] pl last
  proof (cases "lastp A")
    case None
    have "set_sqlast i (if nxt s p = None then None else v) (set_plink i None (nxt s p) (clear_wchan p s))
        = clear_wchan p (sq_unlink i p None z)"
      unfolding sq_unlink_forms(1) [OF z(1)] plink_sqlast_forms(1) [OF i'] clear_wchan_moves z(2,3)
      by (simp add: z_def set_sqlast_def clear_wchan_moves)
    then show "set_sqlast i (if nxt s p = None then lastp A else v) (set_plink i (lastp A) (nxt s p) (clear_wchan p s))
        = clear_wchan p (sq_unlink i p (lastp A) z)" unfolding None .
  next
    case (Some r)
    have e: "(slpqs z ! i)\<lparr>sq_last := w\<rparr> = (slpqs s ! i)\<lparr>sq_last := w\<rparr>" for w using assms(1) by (simp add: z_def set_sqlast_def)
    have "set_sqlast i (if nxt s p = None then Some r else v) (set_plink i (Some r) (nxt s p) (clear_wchan p s))
        = clear_wchan p (sq_unlink i p (Some r) z)"
      unfolding sq_unlink_forms(2) [OF z(1)] plink_sqlast_forms(2) [OF i'] clear_wchan_moves z(2,3) e
      by (simp add: z_def set_sqlast_def clear_wchan_moves slpqs_moves)
    then show "set_sqlast i (if nxt s p = None then lastp A else v) (set_plink i (lastp A) (nxt s p) (clear_wchan p s))
        = clear_wchan p (sq_unlink i p (lastp A) z)" unfolding Some .
  qed
qed


lemma woken_upd: "(woken s ps Q)(Sq i := xs) = woken s ps (Q(Sq i := xs))"
proof (induction ps arbitrary: Q)
  case (Cons p ps)
  then show ?case by (simp del: fun_upd_apply add: onto_back_sq(2))
qed simp

lemma get_plink_next:
  assumes "chained (nxt s) (sq_first (slpqs s ! i)) (A @ B)"
  shows "get_plink i (lastp A) s = (case B of [] \<Rightarrow> None | p # _ \<Rightarrow> Some p)"
proof (cases A rule: rev_cases)
  case Nil
  then show ?thesis using chained_head [of "nxt s" _ B] assms by (simp add: get_plink_def)
next
  case (snoc C a)
  then have "chained (nxt s) (nxt s a) B" using chained_next [of "nxt s" _ C a B] assms by simp
  then show ?thesis using chained_head [of "nxt s" _ B] snoc by (simp add: get_plink_def nxt_def)
qed

lemma wake_loop_spec:
  assumes "core c Q (set_sqlast i (lastp (A @ B)) s)" "Q (Sq i) = A @ B" "i = sqhash chan"
  shows "\<exists>r' t. wake_loop chan prmpt (lastp A, r, s) = Some (r', t)
    \<and> core c (woken s (filter (\<lambda>p. p_wchan (pr s p) = chan) B) (Q(Sq i := A @ filter (\<lambda>p. p_wchan (pr s p) \<noteq> chan) B))) t
    \<and> only {p \<in> set B. p_wchan (pr s p) = chan} s t
    \<and> (\<forall>p \<in> set B. p_wchan (pr s p) = chan \<longrightarrow> awake (pr s p) (pr t p)) \<and> (r' \<longrightarrow> r \<or> 0 < runout s)"
  using assms(1,2)
proof (induction B arbitrary: A Q r s)
  case Nil
  have i: "i < length (slpqs s)" using coreD(3) [OF Nil(1)] assms(3) by simp
  have "qrep (nxt s) (sq_first (slpqs s ! i)) (sq_last (slpqs (set_sqlast i (lastp A) s) ! i)) A"
    using links_okD(1) [OF disp_okD(1) [OF coreD(2) [OF Nil(1)]], of "Sq i"] i Nil(2) by simp
  then have "get_plink i (lastp A) s = None"
    using get_plink_next [of s i A "[]"] by (simp add: qrep_def)
  then have "wake_loop chan prmpt (lastp A, r, s) = Some (r, set_sqlast i (lastp A) s)"
    by (subst wake_loop.simps) (simp add: assms(3))
  moreover have "Q(Sq i := A) = Q" using Nil(2) by auto
  ultimately show ?case using Nil by simp
next
  case (Cons p B)
  define z where "z = set_sqlast i (lastp (A @ p # B)) s"
  note core = Cons.prems(1) [folded z_def]
  note L = disp_okD(1) [OF coreD(2) [OF core]]
  have i: "i < length (slpqs s)" "i < NSLEEPQ" using coreD(3) [OF core] assms(3) by (simp_all add: z_def)
  have qr: "qrep (nxt s) (sq_first (slpqs s ! i)) (sq_last (slpqs z ! i)) (A @ p # B)"
    using links_okD(1) [OF L, of "Sq i"] i Cons.prems(2) by (simp add: z_def)
  have p: "p < length (proctab s)" using links_okD(5) [OF L, of p "Sq i"] Cons.prems(2) by (simp add: z_def)
  have d: "distinct (A @ p # B)" using links_okD(3) [OF L, of "Sq i"] Cons.prems(2) by simp
  have gp: "get_plink i (lastp A) s = Some p"
    using qr get_plink_next [of s i A "p # B"] by (simp add: qrep_def)
  show ?case
  proof (cases "p_wchan (pr s p) = chan")
    case False
    have e: "wake_loop chan prmpt (lastp A, r, s) = wake_loop chan prmpt (lastp (A @ [p]), r, s)"
      using gp False by (subst wake_loop.simps) (simp add: assms(3))
    have "core c Q (set_sqlast i (lastp ((A @ [p]) @ B)) s)" "Q (Sq i) = (A @ [p]) @ B" using Cons.prems by simp_all
    note IH = Cons.IH [OF this, of r]
    have S: "{x \<in> set (p # B). p_wchan (pr s x) = chan} = {x \<in> set B. p_wchan (pr s x) = chan}" using False by auto
    have ball: "(\<forall>x \<in> set (p # B). p_wchan (pr s x) = chan \<longrightarrow> Y x) \<longleftrightarrow> (\<forall>x \<in> set B. p_wchan (pr s x) = chan \<longrightarrow> Y x)" for Y
      using False by simp
    have fl: "filter (\<lambda>p. p_wchan (pr s p) = chan) (p # B) = filter (\<lambda>p. p_wchan (pr s p) = chan) B"
      "A @ filter (\<lambda>p. p_wchan (pr s p) \<noteq> chan) (p # B) = (A @ [p]) @ filter (\<lambda>p. p_wchan (pr s p) \<noteq> chan) B" using False by simp_all
    show ?thesis unfolding e S ball fl by (rule IH)
  next
    case True
    define s' where "s' = clear_wchan p s"
    define s1 where "s1 = set_plink i (lastp A) (p_link (pr s' p)) s'"
    define w where "w = (if p_stat (pr s1 p) = SSLEEP then wake_proc prmpt p r s1 else (r, s1))"
    have pl: "p_link (pr s' p) = p_link (pr s p)" using p by (simp add: s'_def clear_wchan_def pr_upd)
    have e: "wake_loop chan prmpt (lastp A, r, s) = wake_loop chan prmpt (lastp A, w)"
      using gp True by (subst wake_loop.simps) (simp add: assms(3) s1_def w_def Let_def s'_def pl [unfolded s'_def])
    define R where "R = Q(Sq i := A @ B)"
    define n where "n = set_sqlast i (lastp (A @ B)) s1"
    have n: "n = clear_wchan p (sq_unlink i p (lastp A) z)"
      unfolding n_def s1_def s'_def z_def by (rule plink_unlinked [OF i(1) p qr])
    note u = unlink_wchan [OF core i(2) Cons.prems(2), folded n R_def]
    have only1: "only {p} s n" using u(2) by (simp add: z_def)
    have pn: "p < length (proctab n)" using only1 p by (simp add: only_def same_rest_def)
    have prn: "pr n x = pr s1 x" for x by (simp add: n_def)
    have bn: "bare (pr n p) = (bare (pr s p))\<lparr>p_wchan := 0\<rparr>" using u(3) by (simp add: z_def)
    have stat: "p_stat (pr s1 p) = p_stat (pr s p)" "p_pri (pr n p) = p_pri (pr s p)"
      using arg_cong [OF bn, of p_stat] arg_cong [OF bn, of p_pri] by (simp_all add: prn bare_def)
    define S where "S = (if p_stat (pr s p) = SSLEEP then onto_back R s p else R)"
    have ro: "runout s1 = runout s" using only1 by (simp add: n_def only_def same_rest_def)
    have w: "core c S (set_sqlast i (lastp (A @ B)) (snd w))" "only {p} s (snd w)" "awake (pr s p) (pr (snd w) p)"
      "fst w \<longrightarrow> r \<or> 0 < runout s"
    proof -
      have "core c S (set_sqlast i (lastp (A @ B)) (snd w)) \<and> only {p} s (snd w) \<and> awake (pr s p) (pr (snd w) p)
        \<and> (fst w \<longrightarrow> r \<or> 0 < runout s)"
      proof (cases "p_stat (pr s p) = SSLEEP")
        case sl: True
        then have ww: "w = wake_proc prmpt p r s1" by (simp add: w_def stat)
        note k = wake_proc_ok [OF u(1) pn u(4), where prmpt = prmpt and r = r]
        have sw: "set_sqlast i (lastp (A @ B)) (snd w) = snd (wake_proc prmpt p r n)" by (simp add: ww wake_proc_sqlast n_def)
        have f: "fst (wake_proc prmpt p r n) = fst w"
          by (simp add: ww n_def set_sqlast_def wake_proc_slpqs Let_def)
        have ob: "onto_back R n p = S" using sl stat(2) by (simp add: S_def onto_back_def)
        have pw: "proctab (snd w) = proctab (snd (wake_proc prmpt p r n))" using sw by (metis set_sqlast_simps(1))
        have "only {p} s (snd (wake_proc prmpt p r n))" using only_trans [OF only1 k(2)] .
        then have o: "only {p} s (snd w)" using sw by (metis sqlast_only(2))
        have "coarse (pr (snd w) p) = (coarse (pr n p))\<lparr>p_stat := SRUN\<rparr>" using k(3) by (simp add: pw)
        then have "awake (pr s p) (pr (snd w) p)" using bn sl by (simp add: awake_def coarse_def)
        moreover have "runout n = runout s" using only1 by (simp add: only_def same_rest_def)
        ultimately show ?thesis using k(1,4) o ob sw f by auto
      next
        case False
        then have "w = (r, s1)" by (simp add: w_def stat)
        moreover have "only {p} s s1" using only1 by (simp add: n_def)
        moreover have "awake (pr s p) (pr s1 p)" using bn False by (intro awake_stay) (simp_all add: prn)
        ultimately show ?thesis using u(1) False by (simp add: S_def n_def)
      qed
      then show "core c S (set_sqlast i (lastp (A @ B)) (snd w))" "only {p} s (snd w)" "awake (pr s p) (pr (snd w) p)"
        "fst w \<longrightarrow> r \<or> 0 < runout s" by blast+
    qed
    have SA: "S (Sq i) = A @ B" by (simp add: S_def onto_back_sq R_def)
    define s2 where "s2 = snd w"
    have e2: "wake_loop chan prmpt (lastp A, r, s) = wake_loop chan prmpt (lastp A, fst w, s2)" by (simp add: e s2_def)
    have len: "length (proctab s2) = length (proctab s)" using w(2) by (simp add: s2_def only_def same_rest_def)
    have B: "x < length (proctab s)" "x \<noteq> p" if "x \<in> set B" for x
      using links_okD(5) [OF L, of x "Sq i"] Cons.prems(2) d that by (auto simp: z_def)
    have same: "bare (pr s2 x) = bare (pr s x)" if "x \<in> set B" for x
      using w(2) B [OF that] by (simp add: s2_def only_def)
    have fl: "filter (\<lambda>x. P (p_wchan (pr s2 x))) B = filter (\<lambda>x. P (p_wchan (pr s x))) B" for P
      using bare_eqD(4) [OF same] by (intro filter_cong) auto
    note fl' = fl [of "\<lambda>v. v = chan"] fl [of "\<lambda>v. v \<noteq> chan"]
    from Cons.IH [OF w(1) SA, of "fst w", folded s2_def, unfolded fl'] obtain r' t where t: "wake_loop chan prmpt (lastp A, fst w, s2) = Some (r', t)"
      "core c (woken s2 (filter (\<lambda>p. p_wchan (pr s p) = chan) B) (S(Sq i := A @ filter (\<lambda>p. p_wchan (pr s p) \<noteq> chan) B))) t"
      "only {x \<in> set B. p_wchan (pr s2 x) = chan} s2 t"
      "\<forall>x \<in> set B. p_wchan (pr s2 x) = chan \<longrightarrow> awake (pr s2 x) (pr t x)" "r' \<longrightarrow> fst w \<or> 0 < runout s2"
      by blast
    have wo: "woken s2 ps Y = woken s ps Y" if "set ps \<subseteq> set B" for ps Y
      using that bare_eqD(1,3) [OF same] by (intro woken_cong) auto
    have "S(Sq i := A @ filter (\<lambda>p. p_wchan (pr s p) \<noteq> chan) B)
        = (if p_stat (pr s p) = SSLEEP then onto_back (Q(Sq i := A @ filter (\<lambda>p. p_wchan (pr s p) \<noteq> chan) B)) s p
           else Q(Sq i := A @ filter (\<lambda>p. p_wchan (pr s p) \<noteq> chan) B))"
      by (simp add: S_def R_def onto_back_sq(2) del: fun_upd_apply)
    then have "core c (woken s (filter (\<lambda>p. p_wchan (pr s p) = chan) (p # B))
        (Q(Sq i := A @ filter (\<lambda>p. p_wchan (pr s p) \<noteq> chan) (p # B)))) t"
      using t(2) wo [of "filter (\<lambda>p. p_wchan (pr s p) = chan) B"] True by (simp del: fun_upd_apply)
    moreover have "only {x \<in> set (p # B). p_wchan (pr s x) = chan} s t"
    proof -
      have "{x \<in> set B. p_wchan (pr s2 x) = chan} \<subseteq> {x \<in> set (p # B). p_wchan (pr s x) = chan}"
        using bare_eqD(4) [OF same] by auto
      moreover have "{p} \<subseteq> {x \<in> set (p # B). p_wchan (pr s x) = chan}" using True by simp
      ultimately show ?thesis
        using only_trans [OF only_mono [OF w(2) [folded s2_def]] only_mono [OF t(3)]] by blast
    qed
    moreover have "awake (pr s x) (pr t x)" if "x \<in> set (p # B)" "p_wchan (pr s x) = chan" for x
    proof (cases "x = p")
      case True
      have "p \<notin> set B" using d by simp
      then have "bare (pr t p) = bare (pr s2 p)" using t(3) p len by (simp add: only_def)
      then have "coarse (pr t p) = coarse (pr s2 p)" by (rule bare_coarse)
      then show ?thesis using w(3) unfolding True awake_def s2_def by (rule trans)
    next
      case False
      then have x: "x \<in> set B" using that by simp
      then have "awake (pr s2 x) (pr t x)" using t(4) that(2) bare_eqD(4) [OF same [OF x]] by simp
      then show ?thesis by (rule awake_cong [OF same [OF x]])
    qed
    moreover have "r' \<longrightarrow> r \<or> 0 < runout s" using t(5) w(4) w(2) by (auto simp: s2_def only_def same_rest_def)
    ultimately show ?thesis unfolding e2 using t(1) by blast
  qed
qed

end
