(* ===== verification/Sched_Wakes.thy ===== *)
theory Sched_Wakes
  imports Sleep_Queues
begin

text \<open>
  Where every process is between the operations of the scheduler (\<open>placed\<close>), and that setting a process
  running and waking the sleepers of a channel return and keep it.
\<close>

unbundle bit_operations_syntax

section \<open>Where the processes are\<close>

text \<open>A runnable process is on the dispatcher queue of its priority; a process with a sleep channel is
on the sleep queue of the channel, asleep or stopped; a process is on no other queue.\<close>

definition at_home :: "(qid \<Rightarrow> nat list) \<Rightarrow> nat \<Rightarrow> proc \<Rightarrow> bool" where
  "at_home Q x y \<longleftrightarrow> (\<forall>i. x \<in> set (Q (Dq i)) \<longleftrightarrow> p_stat y = SRUN \<and> p_pri y = int i)
     \<and> (\<forall>i. x \<in> set (Q (Sq i)) \<longleftrightarrow> p_wchan y \<noteq> 0 \<and> sqhash (p_wchan y) = i)
     \<and> (p_stat y = SSLEEP \<longrightarrow> p_wchan y \<noteq> 0) \<and> (p_wchan y \<noteq> 0 \<longrightarrow> p_stat y = SSLEEP \<or> p_stat y = SSTOP)"

text \<open>No sleep channel of a process entry is one of the swapper.\<close>

definition own_chans :: "sched_conf \<Rightarrow> proc \<Rightarrow> bool" where
  "own_chans c y \<longleftrightarrow> p_parent y \<notin> {runin_chan c, runout_chan c} \<and> p_addr y + trace_off c \<notin> {runin_chan c, runout_chan c}
     \<and> p_addr y \<notin> {runin_chan c, runout_chan c} \<and> p_trace y \<notin> {runin_chan c, runout_chan c}"

definition placed :: "sched_conf \<Rightarrow> (qid \<Rightarrow> nat list) \<Rightarrow> sched \<Rightarrow> bool" where
  "placed c Q s \<longleftrightarrow> core c Q s \<and> (\<forall>x < length (proctab s). at_home Q x (pr s x) \<and> own_chans c (pr s x)
       \<and> (p_stat (pr s x) = SONPROC \<longrightarrow> x = curproc s \<and> idleswtch s = 0))
     \<and> curproc s < length (proctab s) \<and> set (ts_plist s) \<subseteq> {..<length (proctab s)}
     \<and> 0 \<le> runout s \<and> (0 < runout s \<longrightarrow> p_stat (pr s (proc_sched c)) = SSLEEP \<and> p_wchan (pr s (proc_sched c)) = runout_chan c)
     \<and> (runin s \<noteq> 0 \<longrightarrow> p_stat (pr s (proc_sched c)) = SSLEEP \<and> p_wchan (pr s (proc_sched c)) = runin_chan c)
     \<and> runin_chan c \<noteq> 0 \<and> runout_chan c \<noteq> 0 \<and> runin_chan c \<noteq> runout_chan c"

lemma placedD:
  assumes "placed c Q s"
  shows "core c Q s" "x < length (proctab s) \<Longrightarrow> at_home Q x (pr s x)" "x < length (proctab s) \<Longrightarrow> own_chans c (pr s x)"
    "x < length (proctab s) \<Longrightarrow> p_stat (pr s x) = SONPROC \<Longrightarrow> x = curproc s \<and> idleswtch s = 0"
    "curproc s < length (proctab s)" "x \<in> set (ts_plist s) \<Longrightarrow> x < length (proctab s)"
    "0 < runout s \<Longrightarrow> p_stat (pr s (proc_sched c)) = SSLEEP" "0 < runout s \<Longrightarrow> p_wchan (pr s (proc_sched c)) = runout_chan c"
    "runin_chan c \<noteq> 0" "runout_chan c \<noteq> 0" "runin_chan c \<noteq> runout_chan c" "proc_sched c < length (proctab s)"
    "runin s \<noteq> 0 \<Longrightarrow> p_stat (pr s (proc_sched c)) = SSLEEP" "runin s \<noteq> 0 \<Longrightarrow> p_wchan (pr s (proc_sched c)) = runin_chan c"
    "0 \<le> runout s"
  using assms by (auto simp: placed_def core_def conf_ok_def)

text \<open>Other processes are left alone, and the swapper may have been set running.\<close>

definition wakes :: "nat set \<Rightarrow> sched \<Rightarrow> sched \<Rightarrow> bool" where
  "wakes P s t \<longleftrightarrow> only P (s\<lparr>runout := runout t\<rparr>) t \<and> (runout t = runout s \<or> runout t = 0)"

lemma only_wakes: "only P s t \<Longrightarrow> wakes P s t"
  unfolding wakes_def only_def same_rest_def by simp

lemma wakes_refl [simp]: "wakes P s s"
  by (simp add: only_wakes)

lemma wakesD:
  assumes "wakes P s t"
  shows "length (proctab t) = length (proctab s)" "curproc t = curproc s" "idleswtch t = idleswtch s" "ts_plist t = ts_plist s"
    "x < length (proctab s) \<Longrightarrow> x \<notin> P \<Longrightarrow> bare (pr t x) = bare (pr s x)" "runout t = runout s \<or> runout t = 0"
    "runin t = runin s" "nglobpris t = nglobpris s" "rt_plist t = rt_plist s" "ts_dptbl t = ts_dptbl s" "old_curproc t = old_curproc s"
    "oldproc t = oldproc s"
  using assms unfolding wakes_def only_def same_rest_def by auto

lemma wakes_trans: "wakes P s t \<Longrightarrow> wakes P t u \<Longrightarrow> wakes P s u"
  unfolding wakes_def only_def same_rest_def by auto

lemma wakes_mono: "wakes P s t \<Longrightarrow> P \<subseteq> P' \<Longrightarrow> wakes P' s t"
  unfolding wakes_def using only_mono by blast

lemma at_home_bare:
  assumes b: "bare y = bare z" and h: "at_home Q x z" and m: "\<And>k. x \<in> set (R k) \<longleftrightarrow> x \<in> set (Q k)"
  shows "at_home R x y"
  using h unfolding at_home_def m bare_eqD(1,3,4) [OF b] .

definition idents :: "proc \<Rightarrow> int \<times> int \<times> int" where
  "idents x = (p_parent x, p_addr x, p_trace x)"

lemma idents_simps [simp]: "idents (bare x) = idents x" "idents (coarse x) = idents x"
  "idents (x\<lparr>p_stat := st\<rparr>) = idents x" "idents (x\<lparr>p_wchan := w\<rparr>) = idents x" "idents (x\<lparr>p_flag := f\<rparr>) = idents x"
  "idents (x\<lparr>p_pri := n\<rparr>) = idents x" "idents (x\<lparr>p_clproc := k\<rparr>) = idents x" "idents (x\<lparr>p_whystop := h\<rparr>) = idents x"
  "idents (x\<lparr>p_whatstop := h\<rparr>) = idents x" "idents (x\<lparr>p_wcode := h\<rparr>) = idents x" "idents (x\<lparr>p_wdata := h\<rparr>) = idents x"
  "idents (x\<lparr>p_inoutage := h\<rparr>) = idents x" "idents (x\<lparr>p_swrss := h\<rparr>) = idents x" "idents (x\<lparr>p_as := a\<rparr>) = idents x"
  by (simp_all add: idents_def coarse_def bare_def)

lemma own_chans_idents: "idents y = idents z \<Longrightarrow> own_chans c y = own_chans c z"
  by (simp add: idents_def own_chans_def)

lemma own_chans_coarse: "coarse y = coarse z \<Longrightarrow> own_chans c z \<Longrightarrow> own_chans c y"
  using own_chans_idents [of y z c] by (metis idents_simps(2))

lemma own_chans_bare: "bare y = bare z \<Longrightarrow> own_chans c z \<Longrightarrow> own_chans c y"
  by (rule own_chans_coarse [OF bare_coarse])

lemma at_home_free: "at_home Q x y \<Longrightarrow> p_stat y \<noteq> SRUN \<Longrightarrow> p_wchan y = 0 \<Longrightarrow> \<not> queued Q x"
  unfolding at_home_def queued_def by (metis qid.exhaust)

lemma at_home_freeI: "\<not> queued Q x \<Longrightarrow> p_stat y \<noteq> SRUN \<Longrightarrow> p_stat y \<noteq> SSLEEP \<Longrightarrow> p_wchan y = 0 \<Longrightarrow> at_home Q x y"
  unfolding at_home_def queued_def by blast

lemma at_home_back:
  assumes "core c Q s" "x < length (proctab s)" "\<not> queued Q x" "p_stat y = SRUN" "p_wchan y = 0" "p_pri y = p_pri (pr s x)"
  shows "at_home (onto_back Q s x) x y"
proof -
  obtain i where "p_pri (pr s x) = int i" using assms(1,2) by (rule core_pri)
  then show ?thesis using assms(3-6) by (auto simp: at_home_def onto_back_def Let_def queued_def)
qed

lemma onto_back_other: "x \<noteq> p \<Longrightarrow> x \<in> set (onto_back Q s p k) \<longleftrightarrow> x \<in> set (Q k)"
  by (simp add: onto_back_def Let_def)

text \<open>One process changes its place.\<close>

lemma placed_move:
  assumes ok: "placed c Q s" and t: "core c R t" "only {p} (s\<lparr>runout := runout t, runin := runin t\<rparr>) t" and p: "p < length (proctab s)"
    and other: "\<And>x k. x \<noteq> p \<Longrightarrow> x \<in> set (R k) \<longleftrightarrow> x \<in> set (Q k)"
    and home: "at_home R p (pr t p)" "own_chans c (pr t p)" "p_stat (pr t p) = SONPROC \<Longrightarrow> p = curproc s \<and> idleswtch s = 0"
    and sw: "p \<noteq> proc_sched c \<Longrightarrow> (runout t = runout s \<or> runout t = 0) \<and> (runin t = runin s \<or> runin t = 0)"
      "p = proc_sched c \<Longrightarrow> 0 < runout t \<Longrightarrow> p_stat (pr t p) = SSLEEP \<and> p_wchan (pr t p) = runout_chan c"
      "p = proc_sched c \<Longrightarrow> runin t \<noteq> 0 \<Longrightarrow> p_stat (pr t p) = SSLEEP \<and> p_wchan (pr t p) = runin_chan c" "0 \<le> runout t"
  shows "placed c R t"
proof -
  note D = placedD [OF ok]
  have W: "length (proctab t) = length (proctab s)" "curproc t = curproc s" "idleswtch t = idleswtch s" "ts_plist t = ts_plist s"
    using t(2) by (simp_all add: only_def same_rest_def)
  have same: "bare (pr t x) = bare (pr s x)" if "x < length (proctab s)" "x \<noteq> p" for x using t(2) that by (simp add: only_def)
  have one: "at_home R x (pr t x) \<and> own_chans c (pr t x) \<and> (p_stat (pr t x) = SONPROC \<longrightarrow> x = curproc t \<and> idleswtch t = 0)"
    if "x < length (proctab t)" for x
  proof (cases "x = p")
    case True
    then show ?thesis using home W by simp
  next
    case False
    have x: "x < length (proctab s)" using that W(1) by simp
    show ?thesis
      using at_home_bare [OF same [OF x False] D(2) [OF x] other [OF False]] own_chans_bare [OF same [OF x False] D(3) [OF x]]
        D(4) [OF x] bare_eqD(1) [OF same [OF x False]] W by simp
  qed
  have "p_stat (pr t (proc_sched c)) = SSLEEP \<and> p_wchan (pr t (proc_sched c)) = runout_chan c" if "0 < runout t"
  proof (cases "p = proc_sched c")
    case False
    then have "0 < runout s" using sw(1) that by auto
    then show ?thesis using bare_eqD(1,4) [OF same [OF D(12)]] False D(7,8) by simp
  qed (use sw(2) that in simp)
  moreover have "p_stat (pr t (proc_sched c)) = SSLEEP \<and> p_wchan (pr t (proc_sched c)) = runin_chan c" if "runin t \<noteq> 0"
  proof (cases "p = proc_sched c")
    case False
    then have "runin s \<noteq> 0" using sw(1) that by auto
    then show ?thesis using bare_eqD(1,4) [OF same [OF D(12)]] False D(13,14) by simp
  qed (use sw(3) that in simp)
  ultimately show ?thesis unfolding placed_def using one t(1) D(5,6,9-11) sw(4) W by auto
qed

lemma wakes_only: "wakes P s t \<Longrightarrow> only P (s\<lparr>runout := runout t, runin := runin t\<rparr>) t"
  using wakesD(7) [of P s t] by (simp add: wakes_def only_def same_rest_def)

lemma placed_one:
  assumes ok: "placed c Q s" and t: "core c R t" "wakes {p} s t" and p: "p < length (proctab s)"
    and other: "\<And>x k. x \<noteq> p \<Longrightarrow> x \<in> set (R k) \<longleftrightarrow> x \<in> set (Q k)"
    and home: "at_home R p (pr t p)" "own_chans c (pr t p)" "p_stat (pr t p) = SONPROC \<Longrightarrow> p = curproc s \<and> idleswtch s = 0"
    and sw: "p = proc_sched c \<Longrightarrow> runout t = 0 \<and> runin t = 0"
  shows "placed c R t"
  by (rule placed_move [OF ok t(1) wakes_only [OF t(2)] p other home])
    (use sw wakesD(6,7) [OF t(2)] placedD(15) [OF ok] in auto)

lemma runout_zero: "placed c Q s \<Longrightarrow> placed c Q (s\<lparr>runout := 0\<rparr>)" "placed c Q s \<Longrightarrow> placed c Q (s\<lparr>runin := 0\<rparr>)"
  unfolding placed_def by (auto intro: core_globals)


section \<open>Off its queues and set running\<close>

lemma setrun_off:
  assumes ok: "core c Q s" and p: "p < length (proctab s)" and h: "at_home Q p (pr s p)" and st: "p_stat (pr s p) = SSLEEP \<or> p_stat (pr s p) = SSTOP"
  shows "\<exists>R t. unsleep p s = Some t \<and> core c R t \<and> only {p} s t \<and> bare (pr t p) = (bare (pr s p))\<lparr>p_wchan := 0\<rparr>
    \<and> \<not> queued R p \<and> (\<forall>x k. x \<noteq> p \<longrightarrow> (x \<in> set (R k) \<longleftrightarrow> x \<in> set (Q k)))"
proof (cases "p_wchan (pr s p) = 0")
  case True
  have "\<not> queued Q p" by (rule at_home_free [OF h]) (use st True in auto)
  moreover have "bare (pr s p) = (bare (pr s p))\<lparr>p_wchan := 0\<rparr>" using True by (cases "pr s p") (simp add: bare_def)
  ultimately show ?thesis using True ok by (intro exI [of _ Q] exI [of _ s]) (simp add: unsleep_def)
next
  case False
  define i where "i = sqhash (p_wchan (pr s p))"
  have "p \<in> set (Q (Sq i))" using h False by (simp add: at_home_def i_def)
  then obtain A B where q: "Q (Sq i) = A @ p # B" by (meson split_list)
  have i: "i < NSLEEPQ" by (simp add: i_def)
  note u = unlink_wchan [OF ok i q]
  have "unsleep p s = Some (clear_wchan p (sq_unlink i p (lastp A) s))"
    using unsleep_ok [OF ok False] q by (simp add: i_def)
  moreover have "x \<in> set ((Q(Sq i := A @ B)) k) \<longleftrightarrow> x \<in> set (Q k)" if "x \<noteq> p" for x k using that q by auto
  ultimately show ?thesis using u by blast
qed

definition runnable_now :: "proc \<Rightarrow> proc" where
  "runnable_now x = x\<lparr>p_stat := SRUN, p_whystop := 0, p_whatstop := 0\<rparr>"

lemma setrun_on:
  assumes ok: "core c R s" and p: "p < length (proctab s)" "\<not> queued R p" and f: "f = (\<lambda>x. x\<lparr>p_wcode := 0, p_wdata := 0\<rparr>) \<or> f = id"
  defines "t \<equiv> CL_SETRUN p (upd_proc p runnable_now (upd_proc p f s))"
  shows "core c (onto_back R s p) t" "only {p} s t" "p_stat (pr t p) = SRUN" "p_wchan (pr t p) = p_wchan (pr s p)"
    "p_pri (pr t p) = p_pri (pr s p)" "own_chans c (pr s p) \<Longrightarrow> own_chans c (pr t p)"
proof -
  note O = coreD(4) [OF ok p(1), unfolded proc_ok_def]
  have a: "core c R (upd_proc p f s)"
    by (rule core_proc [OF ok p(1)]) (use f O in \<open>auto simp: schedulable_def\<close>)
  have len: "p < length (proctab (upd_proc p f s))" using p by simp
  define u where "u = upd_proc p runnable_now (upd_proc p f s)"
  have pu: "pr u p = runnable_now (f (pr s p))" using p by (simp add: u_def pr_upd)
  have cu: "core c R u"
    unfolding u_def by (rule core_proc [OF a len]) (use f O p in \<open>auto simp: schedulable_def runnable_now_def pr_upd\<close>)
  have ou: "only {p} s u" unfolding u_def by (rule only_trans [OF only_proc only_proc])
  have lu: "p < length (proctab u)" using p by (simp add: u_def)
  have pb: "put_back c p R u t" unfolding t_def u_def [symmetric] by (rule cl.setrun_back [OF cu lu TrueI p(2)])
  have pri: "p_pri (pr u p) = p_pri (pr s p)" using f by (auto simp: pu runnable_now_def)
  show "core c (onto_back R s p) t" using pb pri onto_back_cong [of u p s R] by (simp add: put_back_def)
  show "only {p} s t" using pb only_trans [OF ou] by (simp add: put_back_def)
  have k: "same_run (pr u p) (pr t p)" using pb by (simp add: put_back_def)
  show "p_stat (pr t p) = SRUN" "p_wchan (pr t p) = p_wchan (pr s p)" "p_pri (pr t p) = p_pri (pr s p)"
    using same_runD(1,3,4) [OF k] f by (auto simp: pu runnable_now_def)
  show "own_chans c (pr t p)" if "own_chans c (pr s p)"
  proof (rule own_chans_coarse)
    show "coarse (pr t p) = coarse (pr u p)" using k by (simp add: same_run_def)
    show "own_chans c (pr u p)" using that f by (auto simp: pu runnable_now_def own_chans_def)
  qed
qed


lemma placed_runrun: "placed c Q s \<Longrightarrow> placed c Q (s\<lparr>runrun := n\<rparr>)"
  unfolding placed_def by (auto intro: core_globals)

lemma wakes_globals [simp]: "wakes P s (t\<lparr>runrun := n\<rparr>) = wakes P s t" "wakes P s (s\<lparr>runout := 0\<rparr>)"
  by (simp_all add: wakes_def only_def same_rest_def)

lemma setrun_made:
  assumes ok: "placed c Q s" and p: "p < length (proctab s)" and st: "p_stat (pr s p) = SSLEEP \<or> p_stat (pr s p) = SSTOP"
    and sw: "p = proc_sched c \<Longrightarrow> runout s = 0 \<and> runin s = 0" and f: "f = (\<lambda>x. x\<lparr>p_wcode := 0, p_wdata := 0\<rparr>) \<or> f = id"
  shows "\<exists>u R. unsleep p s = Some u \<and> bare (pr u p) = (bare (pr s p))\<lparr>p_wchan := 0\<rparr> \<and> (p_stat (pr s p) = SSTOP \<longrightarrow> (\<exists>R'. placed c R' u)) \<and> wakes {p} s u
    \<and> placed c R (CL_SETRUN p (upd_proc p runnable_now (upd_proc p f u)))
    \<and> wakes {p} s (CL_SETRUN p (upd_proc p runnable_now (upd_proc p f u)))
    \<and> p_stat (pr (CL_SETRUN p (upd_proc p runnable_now (upd_proc p f u))) p) = SRUN"
proof -
  note D = placedD [OF ok]
  from setrun_off [OF D(1) p D(2) [OF p] st] obtain R u where u: "unsleep p s = Some u" "core c R u" "only {p} s u"
    "bare (pr u p) = (bare (pr s p))\<lparr>p_wchan := 0\<rparr>" "\<not> queued R p" "\<forall>x k. x \<noteq> p \<longrightarrow> (x \<in> set (R k) \<longleftrightarrow> x \<in> set (Q k))"
    by blast
  have lu: "p < length (proctab u)" using u(3) p by (simp add: only_def same_rest_def)
  have uf: "p_stat (pr u p) = p_stat (pr s p)" "p_wchan (pr u p) = 0" "own_chans c (pr u p)"
  proof -
    show "p_stat (pr u p) = p_stat (pr s p)" using arg_cong [OF u(4), of p_stat] by (simp add: bare_def)
    show "p_wchan (pr u p) = 0" using arg_cong [OF u(4), of p_wchan] by (simp add: bare_def)
    show "own_chans c (pr u p)"
      using arg_cong [OF u(4), of p_parent] arg_cong [OF u(4), of p_addr] arg_cong [OF u(4), of p_trace] D(3) [OF p] by (simp add: bare_def own_chans_def)
  qed
  have wu: "wakes {p} s u" using u(3) by (rule only_wakes)
  have ru: "runout u = runout s" "runin u = runin s" using u(3) by (simp_all add: only_def same_rest_def)
  have pl: "placed c R u" if "p_stat (pr s p) = SSTOP"
  proof (rule placed_one [OF ok u(2) wu p])
    show "at_home R p (pr u p)" by (rule at_home_freeI [OF u(5)]) (use uf that in auto)
  qed (use u(6) uf that sw ru in auto)
  let ?t = "CL_SETRUN p (upd_proc p runnable_now (upd_proc p f u))"
  note t = setrun_on [OF u(2) lu u(5) f]
  have wt: "wakes {p} s ?t" using only_trans [OF u(3) t(2)] by (rule only_wakes)
  have rt: "runout ?t = runout s" "runin ?t = runin s" using t(2) ru by (simp_all add: only_def same_rest_def)
  have "placed c (onto_back R u p) ?t"
  proof (rule placed_one [OF ok t(1) wt p])
    show "at_home (onto_back R u p) p (pr ?t p)"
      by (rule at_home_back [OF u(2) lu u(5)]) (use t(3-5) uf in auto)
    show "own_chans c (pr ?t p)" using t(6) uf by blast
    show "\<And>x k. x \<noteq> p \<Longrightarrow> (x \<in> set (onto_back R u p k)) = (x \<in> set (Q k))" using u(6) onto_back_other by simp
  qed (use t(3) sw rt in auto)
  then show ?thesis using u(1,4) pl wu wt t(3) by blast
qed

text \<open>The swapper, or another process when the swapper does not wait to be set running.\<close>

lemma setrun_quiet:
  assumes ok: "placed c Q s" and p: "p < length (proctab s)" and st: "p_stat (pr s p) = SSLEEP \<or> p_stat (pr s p) = SRUN"
    and r: "runout s = 0" and i: "p = proc_sched c \<Longrightarrow> runin s = 0"
  shows "\<exists>R t. setrun_n (Suc n) c p s = Some t \<and> placed c R t \<and> wakes {p} s t \<and> p_stat (pr t p) = SRUN"
proof (cases "p_stat (pr s p) = SRUN")
  case True
  then show ?thesis using ok by auto
next
  case False
  then have sl: "p_stat (pr s p) = SSLEEP" using st by simp
  have d: "(id :: proc \<Rightarrow> proc) = (\<lambda>x. x\<lparr>p_wcode := 0, p_wdata := 0\<rparr>) \<or> (id :: proc \<Rightarrow> proc) = id" by simp
  have sr: "p_stat (pr s p) = SSLEEP \<or> p_stat (pr s p) = SSTOP" "p = proc_sched c \<Longrightarrow> runout s = 0 \<and> runin s = 0" using sl r i by simp_all
  from setrun_made [OF ok p sr d] obtain u R where u: "unsleep p s = Some u" "bare (pr u p) = (bare (pr s p))\<lparr>p_wchan := 0\<rparr>"
    "placed c R (CL_SETRUN p (upd_proc p runnable_now (upd_proc p id u)))"
    "wakes {p} s (CL_SETRUN p (upd_proc p runnable_now (upd_proc p id u)))"
    "p_stat (pr (CL_SETRUN p (upd_proc p runnable_now (upd_proc p id u))) p) = SRUN" by auto
  define t where "t = CL_SETRUN p (upd_proc p runnable_now u)"
  have id: "upd_proc p id u = u" by (simp add: upd_proc_def)
  note t = u(3-5) [unfolded id, folded t_def]
  have us: "p_stat (pr u p) = SSLEEP" using arg_cong [OF u(2), of p_stat] sl by (simp add: bare_def)
  have ro: "\<not> 0 < runout t" using wakesD(6) [OF t(2)] r by auto
  have rn: "runnable_now = (\<lambda>x. x\<lparr>p_stat := SRUN, p_whystop := 0, p_whatstop := 0\<rparr>)" by (simp add: fun_eq_iff runnable_now_def)
  have "setrun_n (Suc n) c p s = (if p_flag (pr t p) AND SLOAD = 0 then Some t
      else Some (if p_pri (pr t p) > curpri t then t\<lparr>runrun := 1\<rparr> else t))"
    using sl us ro by (simp add: u(1) Let_def t_def rn)
  then show ?thesis using t placed_runrun [OF t(1), of 1] wakes_globals(1) [of "{p}" s 1 t] by (auto split: if_splits)
qed


section \<open>Waking the sleepers of a channel\<close>

definition on_chan :: "int \<Rightarrow> sched \<Rightarrow> nat set" where
  "on_chan chan s = {x. x < length (proctab s) \<and> p_wchan (pr s x) \<noteq> 0 \<and> p_wchan (pr s x) = chan}"

text \<open>The swapper, when it waits to be set running.\<close>

definition waiting_swapper :: "sched_conf \<Rightarrow> sched \<Rightarrow> nat set" where
  "waiting_swapper c s = (if 0 < runout s then {proc_sched c} else {})"

lemma woken_other: "x \<notin> set ps \<Longrightarrow> x \<in> set (woken s ps R k) \<longleftrightarrow> x \<in> set (R k)"
proof (induction ps arbitrary: R)
  case (Cons p ps)
  then show ?case using onto_back_other [of x p R s k] by simp
qed simp

lemma onto_back_self: "p_pri (pr s x) = int i \<Longrightarrow> x \<in> set (onto_back R s x k) \<longleftrightarrow> k = Dq i \<or> x \<in> set (R k)"
  by (simp add: onto_back_def Let_def)

lemma woken_in:
  assumes "p_pri (pr s x) = int i"
  shows "x \<in> set (woken s ps R k) \<longleftrightarrow> x \<in> set (R k) \<or> x \<in> set ps \<and> p_stat (pr s x) = SSLEEP \<and> k = Dq i"
proof (induction ps arbitrary: R)
  case (Cons p ps)
  define R' where "R' = (if p_stat (pr s p) = SSLEEP then onto_back R s p else R)"
  have "x \<in> set (R' k) \<longleftrightarrow> x \<in> set (R k) \<or> x = p \<and> p_stat (pr s x) = SSLEEP \<and> k = Dq i"
  proof (cases "x = p")
    case True
    then show ?thesis using onto_back_self [OF assms, of R k] by (auto simp: R'_def)
  next
    case False
    then show ?thesis using onto_back_other [of x p R s k] by (simp add: R'_def)
  qed
  moreover have "x \<in> set (woken s (p # ps) R k) \<longleftrightarrow> x \<in> set (woken s ps R' k)" by (simp add: R'_def)
  ultimately show ?case using Cons.IH [of R'] by auto
qed simp

lemma awakeD:
  assumes "awake x y"
  shows "p_stat y = (if p_stat x = SSLEEP then SRUN else p_stat x)" "p_wchan y = 0" "p_pri y = p_pri x" "own_chans c x \<Longrightarrow> own_chans c y"
proof -
  note e = assms [unfolded awake_def]
  show "p_stat y = (if p_stat x = SSLEEP then SRUN else p_stat x)" using arg_cong [OF e, of p_stat] by (simp add: coarse_def bare_def)
  show "p_wchan y = 0" using arg_cong [OF e, of p_wchan] by (simp add: coarse_def bare_def)
  show "p_pri y = p_pri x" using arg_cong [OF e, of p_pri] by (simp add: coarse_def bare_def)
  show "own_chans c x \<Longrightarrow> own_chans c y"
    using arg_cong [OF e, of p_parent] arg_cong [OF e, of p_addr] arg_cong [OF e, of p_trace] by (simp add: coarse_def bare_def own_chans_def)
qed

text \<open>Sleepers of a channel, taken off their queue and made runnable, are in their places.\<close>

lemma woken_placed:
  assumes ok: "placed c Q s" and sw: "chan = runout_chan c \<Longrightarrow> runout s = 0" "chan = runin_chan c \<Longrightarrow> runin s = 0"
    and W: "set W \<subseteq> on_chan chan s"
    and t: "core c (woken s W (Q(Sq (sqhash chan) := filter (\<lambda>x. x \<notin> set W) (Q (Sq (sqhash chan)))))) t"
      "only (set W) s t" "\<forall>x \<in> set W. awake (pr s x) (pr t x)"
  shows "placed c (woken s W (Q(Sq (sqhash chan) := filter (\<lambda>x. x \<notin> set W) (Q (Sq (sqhash chan)))))) t"
proof -
  note D = placedD [OF ok]
  define i where "i = sqhash chan"
  define R where "R = Q(Sq i := filter (\<lambda>x. x \<notin> set W) (Q (Sq i)))"
  note t = t [folded i_def, folded R_def]
  note W' = wakesD [OF only_wakes [OF t(2)]]
  have ro: "runout t = runout s" using t(2) by (simp add: only_def same_rest_def)
  have one: "at_home (woken s W R) x (pr t x) \<and> own_chans c (pr t x) \<and> (p_stat (pr t x) = SONPROC \<longrightarrow> x = curproc t \<and> idleswtch t = 0)"
    if "x < length (proctab t)" for x
  proof (cases "x \<in> set W")
    case True
    have aw: "awake (pr s x) (pr t x)" using t(3) True by blast
    have on: "x \<in> on_chan chan s" using True W by blast
    have x: "x < length (proctab s)" using that W'(1) by simp
    obtain j where j: "p_pri (pr s x) = int j" using D(1) x by (rule core_pri)
    have ns: "p_stat (pr s x) \<noteq> SRUN" "p_wchan (pr s x) \<noteq> 0" using D(2) [OF x] on by (auto simp: at_home_def on_chan_def)
    have "x \<notin> set (R k)" for k
    proof (cases k)
      case (Dq n)
      then show ?thesis using D(2) [OF x] ns by (simp add: R_def at_home_def)
    next
      case (Sq n)
      then show ?thesis using D(2) [OF x] on True by (auto simp: R_def at_home_def on_chan_def i_def)
    qed
    then have m: "x \<in> set (woken s W R k) \<longleftrightarrow> p_stat (pr s x) = SSLEEP \<and> k = Dq j" for k
      using woken_in [OF j, of W R k] True by simp
    have "at_home (woken s W R) x (pr t x)" using awakeD(1-3) [OF aw] j ns(1) by (auto simp: at_home_def m)
    moreover have "p_stat (pr t x) \<noteq> SONPROC"
      using awakeD(1) [OF aw] D(2) [OF x] ns(2) by (auto simp: at_home_def)
    ultimately show ?thesis using awakeD(4) [OF aw D(3) [OF x]] by simp
  next
    case False
    have x: "x < length (proctab s)" using that W'(1) by simp
    have b: "bare (pr t x) = bare (pr s x)" using W'(5) [OF x False] .
    have "x \<in> set (woken s W R k) \<longleftrightarrow> x \<in> set (Q k)" for k
      using woken_other [OF False, of s R k] False by (auto simp: R_def)
    then show ?thesis using at_home_bare [OF b D(2) [OF x]] own_chans_bare [OF b D(3) [OF x]] D(4) [OF x] bare_eqD(1) [OF b] W' by simp
  qed
  have "p_stat (pr t (proc_sched c)) = SSLEEP \<and> p_wchan (pr t (proc_sched c)) = runout_chan c" if "0 < runout t"
  proof -
    have "proc_sched c \<notin> set W" using D(8) sw(1) that ro W by (auto simp: on_chan_def)
    from bare_eqD(1,4) [OF W'(5) [OF D(12) this]] show ?thesis using D(7,8) that ro by simp
  qed
  moreover have "p_stat (pr t (proc_sched c)) = SSLEEP \<and> p_wchan (pr t (proc_sched c)) = runin_chan c" if "runin t \<noteq> 0"
  proof -
    have "proc_sched c \<notin> set W" using D(14) sw(2) that W'(7) W by (auto simp: on_chan_def)
    from bare_eqD(1,4) [OF W'(5) [OF D(12) this]] show ?thesis using D(13,14) that W'(7) by simp
  qed
  ultimately have "placed c (woken s W R) t" unfolding placed_def using one t(1) D(5,6,9-11,15) W' by auto
  then show ?thesis by (simp only: R_def i_def)
qed

lemma chan_members:
  assumes "placed c Q s"
  shows "{x \<in> set (Q (Sq (sqhash chan))). p_wchan (pr s x) = chan} = on_chan chan s"
proof -
  note L = disp_okD(1) [OF coreD(2) [OF placedD(1) [OF assms]]]
  have "x \<in> set (Q (Sq (sqhash chan))) \<and> p_wchan (pr s x) = chan \<longleftrightarrow> x \<in> on_chan chan s" for x
  proof (cases "x < length (proctab s)")
    case True
    then show ?thesis using placedD(2) [OF assms True] by (auto simp: on_chan_def at_home_def)
  next
    case False
    then show ?thesis using links_okD(5) [OF L, of x "Sq (sqhash chan)"] by (auto simp: on_chan_def)
  qed
  then show ?thesis by blast
qed

lemma wake_loop_placed:
  assumes ok: "placed c Q s" and sw: "chan = runout_chan c \<Longrightarrow> runout s = 0" "chan = runin_chan c \<Longrightarrow> runin s = 0"
  shows "\<exists>r t. wake_loop chan prmpt (None, False, s) = Some (r, t)
    \<and> placed c (woken s (filter (\<lambda>p. p_wchan (pr s p) = chan) (Q (Sq (sqhash chan))))
        (Q(Sq (sqhash chan) := filter (\<lambda>p. p_wchan (pr s p) \<noteq> chan) (Q (Sq (sqhash chan)))))) t
    \<and> only (on_chan chan s) s t \<and> (\<forall>x \<in> on_chan chan s. awake (pr s x) (pr t x)) \<and> (r \<longrightarrow> 0 < runout s)"
proof -
  note D = placedD [OF ok]
  note L = disp_okD(1) [OF coreD(2) [OF D(1)]]
  define i where "i = sqhash chan"
  define B where "B = Q (Sq i)"
  define W where "W = filter (\<lambda>p. p_wchan (pr s p) = chan) B"
  have fW: "filter (\<lambda>p. p_wchan (pr s p) \<noteq> chan) B = filter (\<lambda>p. p \<notin> set W) B"
    by (rule filter_cong) (auto simp: W_def)
  define R where "R = Q(Sq i := filter (\<lambda>p. p \<notin> set W) B)"
  have i: "i < length (slpqs s)" using coreD(3) [OF D(1)] by (simp add: i_def)
  then have "sq_last (slpqs s ! i) = lastp B" using links_okD(1) [OF L, of "Sq i"] by (simp add: qrep_def B_def)
  then have "(slpqs s ! i)\<lparr>sq_last := lastp B\<rparr> = slpqs s ! i" by simp
  then have same: "set_sqlast i (lastp B) s = s" by (simp add: set_sqlast_def)
  have set: "{x \<in> set B. p_wchan (pr s x) = chan} = on_chan chan s"
    using chan_members [OF ok, of chan] by (simp add: B_def i_def)
  then have on: "set W = on_chan chan s" by (simp add: W_def)
  have c': "core c Q (set_sqlast i (lastp ([] @ B)) s)" "Q (Sq i) = [] @ B" using D(1) same by (simp_all add: B_def)
  note spec = wake_loop_spec [OF c' i_def, where prmpt = prmpt and r = False, unfolded set fW, folded W_def]
  from spec obtain r t where t: "wake_loop chan prmpt (None, False, s) = Some (r, t)" "core c (woken s W R) t"
    "only (on_chan chan s) s t" "\<forall>x \<in> set B. p_wchan (pr s x) = chan \<longrightarrow> awake (pr s x) (pr t x)" "r \<longrightarrow> 0 < runout s"
    by (auto simp: R_def)
  have aw: "\<forall>x \<in> set W. awake (pr s x) (pr t x)" using t(4) by (auto simp: W_def)
  have "placed c (woken s W R) t"
    unfolding R_def B_def i_def
    by (rule woken_placed [OF ok sw]) (use t(2,3) aw on in \<open>simp_all add: R_def B_def i_def\<close>)
  then have "placed c (woken s W (Q(Sq i := filter (\<lambda>p. p_wchan (pr s p) \<noteq> chan) B))) t" unfolding fW R_def .
  then show ?thesis using t(1,3,5) aw on unfolding W_def B_def i_def by blast
qed

lemma wakeprocs_n_ok:
  assumes ok: "placed c Q s" and sw: "chan = runout_chan c \<Longrightarrow> runout s = 0" "chan = runin_chan c \<Longrightarrow> runin s = 0"
  shows "\<exists>R t. wakeprocs_n (Suc (Suc n)) c chan prmpt s = Some t \<and> placed c R t
    \<and> wakes (on_chan chan s \<union> waiting_swapper c s) s t
    \<and> (\<forall>x \<in> on_chan chan s. awake (pr s x) (pr t x))"
proof -
  note D = placedD [OF ok]
  from wake_loop_placed [OF ok sw, where prmpt = prmpt] obtain r u R where u: "wake_loop chan prmpt (None, False, s) = Some (r, u)"
    "placed c R u" "only (on_chan chan s) s u" "\<forall>x \<in> on_chan chan s. awake (pr s x) (pr u x)" "r \<longrightarrow> 0 < runout s" by blast
  have wu: "wakes (on_chan chan s) s u" using u(3) by (rule only_wakes)
  show ?thesis
  proof (cases r)
    case False
    then have "wakeprocs_n (Suc (Suc n)) c chan prmpt s = Some u" by (simp add: u(1))
    then show ?thesis using u(2,4) wakes_mono [OF wu] by blast
  next
    case True
    then have r0: "0 < runout s" using u(5) by simp
    define v where "v = u\<lparr>runout := 0\<rparr>"
    have v: "placed c R v" unfolding v_def by (rule runout_zero(1) [OF u(2)])
    have nsw: "proc_sched c \<notin> on_chan chan s" using D(8) r0 sw by (auto simp: on_chan_def)
    have b: "bare (pr u (proc_sched c)) = bare (pr s (proc_sched c))" using wakesD(5) [OF wu D(12) nsw] .
    have st: "p_stat (pr v (proc_sched c)) = SSLEEP" using bare_eqD(1) [OF b] D(7) [OF r0] by (simp add: v_def)
    have lv: "proc_sched c < length (proctab v)" using D(12) wakesD(1) [OF wu] by (simp add: v_def)
    have rv: "runout v = 0" by (simp add: v_def)
    have "runin v = 0" using placedD(7,8,11,14) [OF ok] r0 wakesD(7) [OF wu] by (auto simp: v_def)
    from setrun_quiet [OF v lv _ rv this, of n] st obtain R' t where t: "setrun_n (Suc n) c (proc_sched c) v = Some t" "placed c R' t"
      "wakes {proc_sched c} v t" by auto
    have "wakeprocs_n (Suc (Suc n)) c chan prmpt s = Some t" using t(1) by (simp add: u(1) True v_def)
    moreover have w: "wakes (on_chan chan s \<union> waiting_swapper c s) s t"
    proof -
      have "wakes (on_chan chan s \<union> waiting_swapper c s) s u" by (rule wakes_mono [OF wu]) simp
      moreover have "wakes (on_chan chan s \<union> waiting_swapper c s) u v" by (simp add: v_def)
      moreover have "wakes (on_chan chan s \<union> waiting_swapper c s) v t"
        by (rule wakes_mono [OF t(3)]) (use r0 in \<open>simp add: waiting_swapper_def\<close>)
      ultimately show ?thesis using wakes_trans by blast
    qed
    moreover have "awake (pr s x) (pr t x)" if x: "x \<in> on_chan chan s" for x
    proof -
      have "x < length (proctab v)" "x \<notin> {proc_sched c}" using x nsw wakesD(1) [OF wu] by (auto simp: v_def on_chan_def)
      then have "bare (pr t x) = bare (pr u x)" using wakesD(5) [OF t(3)] by (simp add: v_def)
      then have "coarse (pr t x) = coarse (pr u x)" by (rule bare_coarse)
      then show ?thesis using u(4) x unfolding awake_def by simp
    qed
    ultimately show ?thesis using t(2) by blast
  qed
qed

section \<open>Setting a process running\<close>

definition may_run :: "sched \<Rightarrow> nat set" where
  "may_run s = {x. x < length (proctab s) \<and> (p_stat (pr s x) = SSLEEP \<or> p_stat (pr s x) = SSTOP)}"

lemma on_chan_may_run: "placed c Q s \<Longrightarrow> on_chan chan s \<subseteq> may_run s"
  by (auto simp: on_chan_def may_run_def at_home_def dest: placedD(2))

lemma swapper_may_run: "placed c Q s \<Longrightarrow> waiting_swapper c s \<subseteq> may_run s"
  by (auto simp: waiting_swapper_def may_run_def dest: placedD(7,12))

lemma may_run_mono: "wakes (may_run s) s t \<Longrightarrow> may_run t \<subseteq> may_run s"
proof
  fix x assume w: "wakes (may_run s) s t" and x: "x \<in> may_run t"
  show "x \<in> may_run s"
  proof (rule ccontr)
    assume n: "x \<notin> may_run s"
    have "x < length (proctab s)" using x wakesD(1) [OF w] by (simp add: may_run_def)
    then show False using bare_eqD(1) [OF wakesD(5) [OF w _ n]] x n by (simp add: may_run_def)
  qed
qed

lemma wakes_chain: "wakes (may_run s) s t \<Longrightarrow> wakes (may_run t) t u \<Longrightarrow> wakes (may_run s) s u"
  using wakes_trans wakes_mono may_run_mono by blast

lemmas setrun_unfold = setrun_n.simps(2) [of 3, simplified, folded setrun_def]

lemma setrun_ok:
  assumes ok: "placed c Q s" and p: "p < length (proctab s)" and st: "p_stat (pr s p) \<in> {SSLEEP, SRUN, SSTOP}"
    and sw: "p = proc_sched c \<Longrightarrow> runout s = 0 \<and> runin s = 0"
  shows "\<exists>R t. setrun c p s = Some t \<and> placed c R t \<and> wakes (may_run s) s t \<and> p_wchan (pr t p) = 0
    \<and> p_stat (pr t p) = (if p_stat (pr s p) = SSTOP \<and> p_flag (pr s p) AND (SXSTART OR SPSTART) \<noteq> SXSTART OR SPSTART then SSTOP else SRUN)"
proof (cases "p_stat (pr s p) = SRUN")
  case True
  moreover from this have "p_wchan (pr s p) = 0" using placedD(2) [OF ok p] by (auto simp: at_home_def)
  ultimately show ?thesis using ok by (auto simp: setrun_unfold)
next
  case nr: False
  then have sl: "p_stat (pr s p) = SSLEEP \<or> p_stat (pr s p) = SSTOP" using st by simp
  note D = placedD [OF ok]
  have pm: "{p} \<subseteq> may_run s" using sl p by (auto simp: may_run_def)
  define f :: "proc \<Rightarrow> proc" where "f = (if p_stat (pr s p) = SSTOP then (\<lambda>x. x\<lparr>p_wcode := 0, p_wdata := 0\<rparr>) else id)"
  have f: "f = (\<lambda>x. x\<lparr>p_wcode := 0, p_wdata := 0\<rparr>) \<or> f = id" by (simp add: f_def)
  from setrun_made [OF ok p sl sw f] obtain u R where u: "unsleep p s = Some u" "bare (pr u p) = (bare (pr s p))\<lparr>p_wchan := 0\<rparr>"
    "p_stat (pr s p) = SSTOP \<longrightarrow> (\<exists>R'. placed c R' u)" "wakes {p} s u"
    "placed c R (CL_SETRUN p (upd_proc p runnable_now (upd_proc p f u)))"
    "wakes {p} s (CL_SETRUN p (upd_proc p runnable_now (upd_proc p f u)))"
    "p_stat (pr (CL_SETRUN p (upd_proc p runnable_now (upd_proc p f u))) p) = SRUN" by blast
  define t where "t = CL_SETRUN p (upd_proc p runnable_now (upd_proc p f u))"
  note t = u(5-7) [folded t_def]
  have us: "p_stat (pr u p) = p_stat (pr s p)" using arg_cong [OF u(2), of p_stat] by (simp add: bare_def)
  have uf: "p_flag (pr u p) = p_flag (pr s p)" "p_wchan (pr u p) = 0"
    using arg_cong [OF u(2), of p_flag] arg_cong [OF u(2), of p_wchan] by (simp_all add: bare_def)
  have quiet: "p_wchan (pr w p) = 0" if "placed c S w" "p_stat (pr w p) = SRUN" "length (proctab w) = length (proctab s)" for S w
    using placedD(2) [OF that(1), of p] p that(2,3) by (auto simp: at_home_def)
  have wu: "wakes (may_run s) s u" using u(4) pm by (rule wakes_mono)
  have wt: "wakes (may_run s) s t" using t(2) pm by (rule wakes_mono)
  show ?thesis
  proof (cases "p_stat (pr s p) = SSTOP \<and> p_flag (pr u p) AND (SXSTART OR SPSTART) \<noteq> SXSTART OR SPSTART")
    case True
    then obtain R' where R': "placed c R' u" using u(3) by blast
    have "own_chans c (pr u p)" using placedD(3) [OF R'] p wakesD(1) [OF u(4)] by simp
    then have ne: "p_parent (pr u p) \<noteq> runout_chan c" "p_parent (pr u p) \<noteq> runin_chan c" by (simp_all add: own_chans_def)
    have n3: "(3::nat) = Suc (Suc 1)" by simp
    have "\<exists>S v. wakeprocs_n 3 c (p_parent (pr u p)) True u = Some v \<and> placed c S v
        \<and> wakes (on_chan (p_parent (pr u p)) u \<union> waiting_swapper c u) u v"
      unfolding n3 using wakeprocs_n_ok [OF R', where chan = "p_parent (pr u p)" and n = 1 and prmpt = True] ne by blast
    then obtain S v where v: "wakeprocs_n 3 c (p_parent (pr u p)) True u = Some v" "placed c S v"
      "wakes (on_chan (p_parent (pr u p)) u \<union> waiting_swapper c u) u v" by blast
    have "wakes (may_run u) u v" using v(3) on_chan_may_run [OF R'] swapper_may_run [OF R'] by (blast intro: wakes_mono)
    then have wv: "wakes (may_run s) s v" by (rule wakes_chain [OF wu])
    have "setrun c p s = (if p_flag (pr u p) AND SPSTART \<noteq> 0 \<and> p_whystop (pr u p) = PR_SIGNALLED
        then wakeprocs_n 3 c (p_parent (pr u p)) True u else Some u)"
      using True us u(1) unfolding setrun_unfold by simp
    moreover have "bare (pr v p) = bare (pr u p)"
      by (rule wakesD(5) [OF v(3)])
        (use p wakesD(1) [OF u(4)] uf(2) placedD(7) [OF R'] us True in \<open>auto simp: on_chan_def waiting_swapper_def\<close>)
    note stays = bare_eqD(1,4) [OF this]
    ultimately show ?thesis using v(1,2) wv R' wu stays us uf True by auto
  next
    case False
    have rn: "runnable_now = (\<lambda>x. x\<lparr>p_stat := SRUN, p_whystop := 0, p_whatstop := 0\<rparr>)" by (simp add: fun_eq_iff runnable_now_def)
    have f': "(if p_stat (pr u p) = SSTOP then upd_proc p (\<lambda>x. x\<lparr>p_wcode := 0, p_wdata := 0\<rparr>) u else u) = upd_proc p f u"
      by (simp add: f_def us) (simp add: upd_proc_def)
    have off: "(if p_stat (pr s p) = SSLEEP \<or> p_stat (pr s p) = SSTOP then unsleep p s else Some s) = Some u"
      using sl u(1) by simp
    have go: "\<not> (p_stat (pr u p) = SSTOP \<and> p_flag (pr u p) AND (SXSTART OR SPSTART) \<noteq> SXSTART OR SPSTART)"
      using False us by simp
    have runs: "\<not> (p_stat (pr s p) = SSTOP \<and> p_flag (pr s p) AND (SXSTART OR SPSTART) \<noteq> SXSTART OR SPSTART)"
      using False uf(1) by simp
    have e: "setrun c p s = (if p_flag (pr t p) AND SLOAD = 0 then
            (if runout t > 0 then setrun_n 3 c (proc_sched c) (t\<lparr>runout := 0\<rparr>) else Some t)
          else Some (if p_pri (pr t p) > curpri t then t\<lparr>runrun := 1\<rparr> else t))"
      by (simp only: setrun_unfold if_not_P [OF nr] off bind.bind_lunit if_not_P [OF go] Let_def f' rn [symmetric] t_def [symmetric])
    show ?thesis
    proof (cases "p_flag (pr t p) AND SLOAD = 0 \<and> runout t > 0")
      case True
      define v where "v = t\<lparr>runout := 0\<rparr>"
      have v: "placed c R v" unfolding v_def by (rule runout_zero(1) [OF t(1)])
      have st: "p_stat (pr v (proc_sched c)) = SSLEEP" using placedD(7) [OF t(1)] True by (simp add: v_def)
      have rv: "runout v = 0" by (simp add: v_def)
      have "runin v = 0" using placedD(7,8,11,14) [OF t(1)] True by (auto simp: v_def)
      from setrun_quiet [OF v placedD(12) [OF v] _ rv this, of 2] st obtain S w where w: "setrun_n 3 c (proc_sched c) v = Some w"
        "placed c S w" "wakes {proc_sched c} v w" by (auto simp: eval_nat_numeral)
      have "{proc_sched c} \<subseteq> may_run v" using st placedD(12) [OF v] by (auto simp: may_run_def)
      then have "wakes (may_run v) v w" by (rule wakes_mono [OF w(3)])
      moreover have "wakes (may_run s) s v" using wakes_trans [OF wt] by (simp add: v_def)
      ultimately have ws: "wakes (may_run s) s w" by (rule wakes_chain [rotated])
      have vp: "proctab v = proctab t" by (simp add: v_def)
      have "p \<noteq> proc_sched c" using st t(3) vp by auto
      then have bw: "bare (pr w p) = bare (pr t p)" using wakesD(5) [OF w(3), of p] p wakesD(1) [OF t(2)] vp by simp
      have wr: "p_stat (pr w p) = SRUN" using bare_eqD(1) [OF bw] t(3) by simp
      have "setrun c p s = Some w" using w(1) True unfolding e v_def by simp
      then show ?thesis using w(2) ws wr quiet [OF w(2) wr wakesD(1) [OF ws]] runs by (intro exI [of _ S] exI [of _ w]) simp
    next
      case False
      then have "setrun c p s = Some t \<or> setrun c p s = Some (t\<lparr>runrun := 1\<rparr>)" unfolding e by auto
      then obtain v where v: "setrun c p s = Some v" "v = t \<or> v = t\<lparr>runrun := 1\<rparr>" by blast
      have "placed c R v" "wakes (may_run s) s v" "p_stat (pr v p) = SRUN"
        using v(2) t(1,3) wt placed_runrun [OF t(1), of 1] wakes_globals(1) [of "may_run s" s 1 t] by auto
      then show ?thesis using v(1) quiet [of R v] wakesD(1) [of "may_run s" s v] runs by (intro exI [of _ R] exI [of _ v]) simp
    qed
  qed
qed

lemma wakeprocs_ok:
  assumes "placed c Q s" "chan = runout_chan c \<Longrightarrow> runout s = 0" "chan = runin_chan c \<Longrightarrow> runin s = 0"
  shows "\<exists>R t. wakeprocs c chan prmpt s = Some t \<and> placed c R t \<and> wakes (on_chan chan s \<union> waiting_swapper c s) s t
    \<and> (\<forall>x \<in> on_chan chan s. awake (pr s x) (pr t x))"
  using wakeprocs_n_ok [OF assms, where n = 2 and prmpt = prmpt] by (simp add: wakeprocs_def eval_nat_numeral)

end
