(* ===== verification/Wake_One.thy ===== *)
theory Wake_One
  imports Sched_Wakes
begin

text \<open>
  Waking one process of a channel: the stopped processes before the first one asleep are taken off the queue
  too, and stay stopped.
\<close>

lemma wchan_sqlast: "clear_wchan p (set_sqlast i v s) = set_sqlast i v (clear_wchan p s)"
  by (simp add: set_sqlast_def clear_wchan_moves)

lemma wchan_plink: "clear_wchan p (set_plink i rp v s) = set_plink i rp v (clear_wchan p s)"
  by (cases rp) (simp_all add: set_plink_def clear_wchan_moves)

lemma wake_one_unlink:
  "(let n = p_link (pr s p); t = set_plink i rp n (clear_wchan p s) in if n = None then set_sqlast i rp t else t)
    = clear_wchan p (sq_unlink i p rp s)"
  by (simp add: sq_unlink_def Let_def wchan_sqlast wchan_plink)

lemma wake_one_loop_spec:
  assumes "core c Q s" "Q (Sq i) = A @ B" "i = sqhash chan"
  shows "\<exists>W r' t. wake_one_loop chan prmpt (lastp A, r, s) = Some (r', t)
    \<and> (\<exists>D. filter (\<lambda>p. p_wchan (pr s p) = chan) B = W @ D
        \<and> (\<forall>x \<in> set (butlast W). p_stat (pr s x) \<noteq> SSLEEP) \<and> (D \<noteq> [] \<longrightarrow> W \<noteq> [] \<and> p_stat (pr s (last W)) = SSLEEP))
    \<and> core c (woken s W (Q(Sq i := A @ filter (\<lambda>p. p \<notin> set W) B))) t
    \<and> only (set W) s t \<and> (\<forall>p \<in> set W. awake (pr s p) (pr t p)) \<and> (r' \<longrightarrow> r \<or> 0 < runout s)"
  using assms(1,2)
proof (induction B arbitrary: A Q r s)
  case Nil
  have v: "qvalid s (Sq i)" using coreD(3) [OF Nil(1)] assms(3) by simp
  have "get_plink i (lastp A) s = None"
    using links_okD(1) [OF disp_okD(1) [OF coreD(2) [OF Nil(1)]] v] get_plink_next [of s i A "[]"] Nil(2) by (simp add: qrep_def)
  then have "wake_one_loop chan prmpt (lastp A, r, s) = Some (r, s)"
    by (subst wake_one_loop.simps) (simp add: assms(3))
  moreover have "Q(Sq i := A) = Q" using Nil(2) by auto
  ultimately show ?case using Nil by (intro exI [of _ "[]"] exI [of _ r] exI [of _ s]) simp
next
  case (Cons p B)
  note core = Cons.prems(1) and L = disp_okD(1) [OF coreD(2) [OF Cons.prems(1)]]
  have i: "i < NSLEEPQ" "qvalid s (Sq i)" using coreD(3) [OF core] assms(3) by simp_all
  have qr: "qrep (nxt s) (sq_first (slpqs s ! i)) (sq_last (slpqs s ! i)) (A @ p # B)"
    using links_okD(1) [OF L i(2)] Cons.prems(2) by simp
  have p: "p < length (proctab s)" using links_okD(5) [OF L, of p "Sq i"] Cons.prems(2) by simp
  have d: "distinct (A @ p # B)" using links_okD(3) [OF L, of "Sq i"] Cons.prems(2) by simp
  have gp: "get_plink i (lastp A) s = Some p" using qr get_plink_next [of s i A "p # B"] by (simp add: qrep_def)
  show ?case
  proof (cases "p_wchan (pr s p) = chan")
    case False
    have e: "wake_one_loop chan prmpt (lastp A, r, s) = wake_one_loop chan prmpt (lastp (A @ [p]), r, s)"
      using gp False by (subst wake_one_loop.simps) (simp add: assms(3))
    have "Q (Sq i) = (A @ [p]) @ B" using Cons.prems by simp
    from Cons.IH [OF core this, of r] obtain W r' t D where W: "wake_one_loop chan prmpt (lastp (A @ [p]), r, s) = Some (r', t)"
      "filter (\<lambda>p. p_wchan (pr s p) = chan) B = W @ D" "\<forall>x \<in> set (butlast W). p_stat (pr s x) \<noteq> SSLEEP"
      "D \<noteq> [] \<longrightarrow> W \<noteq> [] \<and> p_stat (pr s (last W)) = SSLEEP"
      "core c (woken s W (Q(Sq i := (A @ [p]) @ filter (\<lambda>p. p \<notin> set W) B))) t"
      "only (set W) s t" "\<forall>p \<in> set W. awake (pr s p) (pr t p)" "r' \<longrightarrow> r \<or> 0 < runout s" by blast
    have "set W \<subseteq> set B" using arg_cong [OF W(2), of set] by auto
    then have "p \<notin> set W" using d by auto
    then show ?thesis unfolding e using W False
      by (intro exI [of _ W] exI [of _ r'] exI [of _ t]) (auto simp del: fun_upd_apply)
  next
    case True
    define n where "n = clear_wchan p (sq_unlink i p (lastp A) s)"
    note u = unlink_wchan [OF core i(1) Cons.prems(2), folded n_def]
    define R where "R = Q(Sq i := A @ B)"
    have stat: "p_stat (pr n p) = p_stat (pr s p)" "p_pri (pr n p) = p_pri (pr s p)"
      using arg_cong [OF u(3), of p_stat] arg_cong [OF u(3), of p_pri] by (simp_all add: bare_def)
    have e: "wake_one_loop chan prmpt (lastp A, r, s) = (if p_stat (pr n p) = SSLEEP then Some (wake_proc prmpt p r n)
        else wake_one_loop chan prmpt (lastp A, r, n))"
      using gp True by (subst wake_one_loop.simps) (simp add: assms(3) n_def wake_one_unlink [symmetric] Let_def)
    show ?thesis
    proof (cases "p_stat (pr s p) = SSLEEP")
      case sl: True
      have pn: "p < length (proctab n)" using u(2) p by (simp add: only_def same_rest_def)
      note k = wake_proc_ok [OF u(1) pn u(4), where prmpt = prmpt and r = r]
      define t where "t = snd (wake_proc prmpt p r n)"
      have "coarse (pr t p) = (coarse (pr n p))\<lparr>p_stat := SRUN\<rparr>" using k(3) by (simp add: t_def)
      then have aw: "awake (pr s p) (pr t p)" using u(3) sl by (simp add: awake_def coarse_def)
      have on: "only {p} s t" unfolding t_def by (rule only_trans [OF u(2) k(2)])
      have fil: "filter (\<lambda>x. x \<notin> set [p]) (p # B) = B" using d by (auto intro: filter_True)
      have "onto_back R n p = onto_back R s p" by (rule onto_back_cong) (fact stat(2))
      then have wk: "woken s [p] (Q(Sq i := A @ filter (\<lambda>x. x \<notin> set [p]) (p # B))) = onto_back R n p"
        unfolding fil by (simp add: sl R_def del: fun_upd_apply)
      have "wake_one_loop chan prmpt (lastp A, r, s) = Some (fst (wake_proc prmpt p r n), t)"
        unfolding e using stat sl by (simp add: t_def)
      moreover have "core c (woken s [p] (Q(Sq i := A @ filter (\<lambda>x. x \<notin> set [p]) (p # B)))) t"
        unfolding wk R_def t_def by (rule k(1))
      moreover have "runout n = runout s" using u(2) by (simp add: only_def same_rest_def)
      moreover have "filter (\<lambda>p. p_wchan (pr s p) = chan) (p # B) = [p] @ filter (\<lambda>p. p_wchan (pr s p) = chan) B"
        using True by simp
      ultimately show ?thesis using aw on k(4) sl
        by (intro exI [of _ "[p]"] exI [of _ "fst (wake_proc prmpt p r n)"] exI [of _ t]) (auto simp del: fun_upd_apply)
    next
      case ns: False
      have e': "wake_one_loop chan prmpt (lastp A, r, s) = wake_one_loop chan prmpt (lastp A, r, n)" unfolding e using stat ns by simp
      have "R (Sq i) = A @ B" by (simp add: R_def)
      from Cons.IH [OF u(1) this [unfolded R_def], of r, folded R_def] obtain W r' t D
        where W: "wake_one_loop chan prmpt (lastp A, r, n) = Some (r', t)"
        "filter (\<lambda>x. p_wchan (pr n x) = chan) B = W @ D" "\<forall>x \<in> set (butlast W). p_stat (pr n x) \<noteq> SSLEEP"
        "D \<noteq> [] \<longrightarrow> W \<noteq> [] \<and> p_stat (pr n (last W)) = SSLEEP"
        "core c (woken n W (R(Sq i := A @ filter (\<lambda>x. x \<notin> set W) B))) t"
        "only (set W) n t" "\<forall>x \<in> set W. awake (pr n x) (pr t x)" "r' \<longrightarrow> r \<or> 0 < runout n" by blast
      have B: "x < length (proctab s)" "x \<noteq> p" if "x \<in> set B" for x
        using links_okD(5) [OF L, of x "Sq i"] Cons.prems(2) d that by auto
      have same: "bare (pr n x) = bare (pr s x)" if "x \<in> set B" for x
        using u(2) B [OF that] by (simp add: only_def)
      have fl: "filter (\<lambda>x. p_wchan (pr n x) = chan) B = filter (\<lambda>x. p_wchan (pr s x) = chan) B"
        using bare_eqD(4) [OF same] by (intro filter_cong) auto
      have WB: "set W \<subseteq> set B" using arg_cong [OF W(2), of set] by auto
      have pW: "p \<notin> set W" using WB d by auto
      have wk: "woken n W Y = woken s W Y" for Y
        using WB bare_eqD(1,3) [OF same] by (intro woken_cong) auto
      have RR: "R(Sq i := A @ filter (\<lambda>x. x \<notin> set W) B) = Q(Sq i := A @ filter (\<lambda>x. x \<notin> set (p # W)) (p # B))"
      proof -
        have "filter (\<lambda>x. x \<notin> set (p # W)) (p # B) = filter (\<lambda>x. x \<notin> set W) B"
          using d by (auto intro!: filter_cong)
        then show ?thesis by (simp add: R_def del: fun_upd_apply set_simps)
      qed
      have on: "only (set (p # W)) s t"
        using only_trans [OF only_mono [OF u(2)] only_mono [OF W(6)], of "set (p # W)"] by auto
      have aw: "awake (pr s x) (pr t x)" if "x \<in> set (p # W)" for x
      proof (cases "x = p")
        case True
        have lp: "p < length (proctab n)" using u(2) p by (simp add: only_def same_rest_def)
        have "bare (pr t p) = bare (pr n p)" using W(6) lp pW by (simp add: only_def)
        then have "bare (pr t p) = (bare (pr s p))\<lparr>p_wchan := 0\<rparr>" using u(3) by simp
        then show ?thesis unfolding True using ns by (rule awake_stay)
      next
        case False
        then have x: "x \<in> set W" using that by simp
        then show ?thesis using awake_cong [OF same] W(7) WB by blast
      qed
      have split: "filter (\<lambda>x. p_wchan (pr s x) = chan) (p # B) = (p # W) @ D" using True W(2) fl by simp
      have "p_stat (pr s x) \<noteq> SSLEEP" if "x \<in> set (butlast W)" for x
        using W(3) that bare_eqD(1) [OF same] WB in_set_butlastD [OF that] by (metis subsetD)
      then have stop: "\<forall>x \<in> set (butlast (p # W)). p_stat (pr s x) \<noteq> SSLEEP" using ns by simp
      have fin: "D \<noteq> [] \<longrightarrow> p # W \<noteq> [] \<and> p_stat (pr s (last (p # W))) = SSLEEP"
        using W(4) subsetD [OF WB last_in_set] bare_eqD(1) [OF same, of "last W"] by auto
      have cr: "core c (woken s (p # W) (Q(Sq i := A @ filter (\<lambda>x. x \<notin> set (p # W)) (p # B)))) t"
        using W(5) unfolding wk RR by (simp add: ns del: fun_upd_apply set_simps)
      have all: "\<forall>x \<in> set (p # W). awake (pr s x) (pr t x)" using aw by blast
      have "runout n = runout s" using u(2) by (simp add: only_def same_rest_def)
      then have rr: "r' \<longrightarrow> r \<or> 0 < runout s" using W(8) by simp
      show ?thesis unfolding e'
        by (intro exI [of _ "p # W"] exI [of _ r'] exI [of _ t] conjI exI [of _ D]) (fact W(1) split stop fin cr on all rr)+
    qed
  qed
qed


lemma wake_oneproc_ok:
  assumes ok: "placed c Q s" and sw: "chan = runout_chan c \<Longrightarrow> runout s = 0" "chan = runin_chan c \<Longrightarrow> runin s = 0"
  shows "\<exists>R t W. wake_oneproc c chan prmpt s = Some t \<and> placed c R t \<and> wakes (set W \<union> waiting_swapper c s) s t
    \<and> (\<exists>D. filter (\<lambda>p. p_wchan (pr s p) = chan) (Q (Sq (sqhash chan))) = W @ D
        \<and> (\<forall>x \<in> set (butlast W). p_stat (pr s x) \<noteq> SSLEEP) \<and> (D \<noteq> [] \<longrightarrow> W \<noteq> [] \<and> p_stat (pr s (last W)) = SSLEEP))
    \<and> (\<forall>x \<in> set W. awake (pr s x) (pr t x))"
proof -
  note D = placedD [OF ok]
  define i where "i = sqhash chan"
  have q: "Q (Sq i) = [] @ Q (Sq i)" by simp
  from wake_one_loop_spec [OF D(1) q i_def, where prmpt = prmpt and r = False] obtain W r t E where
    t: "wake_one_loop chan prmpt (None, False, s) = Some (r, t)"
    "filter (\<lambda>p. p_wchan (pr s p) = chan) (Q (Sq i)) = W @ E" "\<forall>x \<in> set (butlast W). p_stat (pr s x) \<noteq> SSLEEP"
    "E \<noteq> [] \<longrightarrow> W \<noteq> [] \<and> p_stat (pr s (last W)) = SSLEEP"
    "core c (woken s W (Q(Sq i := [] @ filter (\<lambda>p. p \<notin> set W) (Q (Sq i))))) t"
    "only (set W) s t" "\<forall>p \<in> set W. awake (pr s p) (pr t p)" "r \<longrightarrow> 0 < runout s" by auto
  have W: "set W \<subseteq> on_chan chan s"
    using arg_cong [OF t(2), of set] chan_members [OF ok, of chan] by (auto simp: i_def)
  have pl: "placed c (woken s W (Q(Sq i := filter (\<lambda>p. p \<notin> set W) (Q (Sq i))))) t"
    unfolding i_def by (rule woken_placed [OF ok sw W]) (use t(5-7) in \<open>simp_all add: i_def\<close>)
  have wt: "wakes (set W) s t" using t(6) by (rule only_wakes)
  show ?thesis
  proof (cases r)
    case False
    then have "wake_oneproc c chan prmpt s = Some t" by (simp add: wake_oneproc_def t(1))
    then show ?thesis using pl t(2-4,7) wakes_mono [OF wt, of "set W \<union> waiting_swapper c s"] unfolding i_def by blast
  next
    case True
    then have r0: "0 < runout s" using t(8) by simp
    define v where "v = t\<lparr>runout := 0\<rparr>"
    have nsw: "proc_sched c \<notin> set W" using D(8) r0 sw W by (auto simp: on_chan_def)
    have b: "bare (pr t (proc_sched c)) = bare (pr s (proc_sched c))" using wakesD(5) [OF wt D(12) nsw] .
    have st: "p_stat (pr v (proc_sched c)) = SSLEEP" using bare_eqD(1) [OF b] D(7) [OF r0] by (simp add: v_def)
    have lv: "proc_sched c < length (proctab v)" using D(12) wakesD(1) [OF wt] by (simp add: v_def)
    have z: "runout v = 0" "runin v = 0" using D(7,8,11,14) r0 wakesD(7) [OF wt] by (auto simp: v_def)
    have n4: "(4::nat) = Suc 3" by simp
    from setrun_quiet [OF runout_zero(1) [OF pl, folded v_def] lv _ z, of 3] st obtain R u where
      u: "setrun c (proc_sched c) v = Some u" "placed c R u" "wakes {proc_sched c} v u"
      unfolding setrun_def n4 by auto
    have "wake_oneproc c chan prmpt s = Some u" using u(1) by (simp add: wake_oneproc_def t(1) True v_def)
    moreover have "wakes (set W \<union> waiting_swapper c s) s u"
    proof -
      have "wakes (set W \<union> waiting_swapper c s) s t" by (rule wakes_mono [OF wt]) simp
      moreover have "wakes (set W \<union> waiting_swapper c s) t v" by (simp add: v_def)
      moreover have "wakes (set W \<union> waiting_swapper c s) v u"
        by (rule wakes_mono [OF u(3)]) (use r0 in \<open>simp add: waiting_swapper_def\<close>)
      ultimately show ?thesis using wakes_trans by blast
    qed
    moreover have "awake (pr s x) (pr u x)" if x: "x \<in> set W" for x
    proof -
      have "x < length (proctab v)" "x \<notin> {proc_sched c}" using x W nsw wakesD(1) [OF wt] by (auto simp: v_def on_chan_def)
      then have "bare (pr u x) = bare (pr t x)" using wakesD(5) [OF u(3)] by (simp add: v_def)
      then have "coarse (pr u x) = coarse (pr t x)" by (rule bare_coarse)
      then show ?thesis using t(7) x unfolding awake_def by simp
    qed
    ultimately show ?thesis using u(2) t(2-4) unfolding i_def by blast
  qed
qed

end
