(* ===== verification/Sched_Switch.thy ===== *)
theory Sched_Switch
  imports Wake_One
begin

text \<open>
  Between the events of the scheduler: \<open>sched_ok\<close>.  The switch, preemption, going to sleep and being
  stopped return and keep it.
\<close>

unbundle bit_operations_syntax

section \<open>The invariant\<close>

definition sched_ok :: "sched_conf \<Rightarrow> sched \<Rightarrow> bool" where
  "sched_ok c s \<longleftrightarrow> (\<exists>Q. placed c Q s) \<and> 0 \<le> idleswtch s \<and> (idleswtch s = 0 \<longrightarrow> p_stat (pr s (curproc s)) = SONPROC)"

definition off_cpu :: "sched \<Rightarrow> bool" where
  "off_cpu s \<longleftrightarrow> (\<forall>x < length (proctab s). p_stat (pr s x) \<noteq> SONPROC)"

lemma placed_globals:
  assumes "placed c Q s" "proctab t = proctab s" "dispqs t = dispqs s" "slpqs t = slpqs s" "dqactmap t = dqactmap s"
    "srunprocs t = srunprocs s" "nglobpris t = nglobpris s" "maxrunpri t = maxrunpri s" "ts_dptbl t = ts_dptbl s" "rt_dptbl t = rt_dptbl s"
    "curproc t = curproc s" "idleswtch t = idleswtch s" "ts_plist t = ts_plist s"
    "runout t = runout s \<or> runout t = 0" "runin t = runin s \<or> runin t = 0"
  shows "placed c Q t"
proof -
  have "core c Q t" by (rule core_globals [OF placedD(1) [OF assms(1)]]) (use assms in simp_all)
  moreover have "0 < runout t \<Longrightarrow> 0 < runout s" "0 \<le> runout t" "runin t \<noteq> 0 \<Longrightarrow> runin s \<noteq> 0" using assms(14,15) placedD(15) [OF assms(1)] by auto
  ultimately show ?thesis using assms(1) unfolding placed_def assms(2,11,12,13) by blast
qed

lemma sched_ok_wakes:
  assumes s: "sched_ok c s" "placed c Q s" and t: "placed c R t" "wakes P s t" and p: "idleswtch s = 0 \<Longrightarrow> curproc s \<notin> P"
  shows "sched_ok c t"
proof -
  note W = wakesD [OF t(2)]
  have "p_stat (pr t (curproc t)) = SONPROC" if "idleswtch t = 0"
  proof -
    have i: "idleswtch s = 0" using that W(3) by simp
    have "bare (pr t (curproc s)) = bare (pr s (curproc s))" by (rule W(5)) (use placedD(5) [OF s(2)] p [OF i] in simp_all)
    then show ?thesis using bare_eqD(1) s(1) i W(2) by (metis sched_ok_def)
  qed
  then show ?thesis using t(1) s(1) W(3) unfolding sched_ok_def by auto
qed

section \<open>The switch\<close>

lemma pick_ok:
  assumes ok: "placed c Q s" and off: "off_cpu s" and idle: "idleswtch s = 0" and max: "maxrunpri s \<noteq> -1"
  shows "\<exists>t. pswtch_pick s = Some t \<and> sched_ok c t"
proof -
  note D = placedD [OF ok] and C = coreD [OF placedD(1) [OF ok]]
  obtain m where m: "maxrunpri s = int m" using disp_okD(2) [OF C(2)] max by (cases rule: counts_top) auto
  from pswtch_pick_ok [OF C(2) m] obtain A p B t where q: "Q (Dq m) = A @ p # B" "schedulable (pr s p)"
    and pick: "pswtch_pick s = Some (set_stat p SONPROC t\<lparr>curpri := int m, curproc := p, runrun := 0, kprunrun := 0, npwakecnt := 0\<rparr>)"
    and t: "disp_ok (Q(Dq m := A @ B)) t" "disp_same s t" by blast
  define R where "R = Q(Dq m := A @ B)"
  define u where "u = set_stat p SONPROC t"
  define v where "v = u\<lparr>curpri := int m, curproc := p, runrun := 0, kprunrun := 0, npwakecnt := 0\<rparr>"
  note t = t [folded R_def] and L = disp_okD(1) [OF C(2)]
  have p: "p < length (proctab s)" "p \<in> set (Q (Dq m))" using links_okD(5) [OF L, of p "Dq m"] q by simp_all
  have nq: "\<not> queued R p"
    using links_okD(3) [OF L, of "Dq m"] links_okD(4) [OF L, of "Dq m" _ p] q by (auto simp: queued_def R_def split: if_splits)
  have run: "p_stat (pr s p) = SRUN" "p_wchan (pr s p) = 0" using D(2) [OF p(1)] p(2) by (auto simp: at_home_def)
  note k = core_disp_same [OF D(1) t]
  have lt: "length (proctab t) = length (proctab s)" using k(2) by (simp add: only_def same_rest_def)
  have same: "bare (pr t x) = bare (pr s x)" if "x < length (proctab s)" for x using k(2) that by (simp add: only_def)
  have cu: "core c R u"
    unfolding u_def set_stat_def
    by (rule core_proc [OF k(1)]) (use p lt coreD(4) [OF k(1), of p] in \<open>auto simp: proc_ok_def schedulable_def\<close>)
  have cv: "core c R v" unfolding v_def by (rule core_globals [OF cu]) simp_all
  have prv: "pr v x = (if x = p then (pr t p)\<lparr>p_stat := SONPROC\<rparr> else pr t x)" for x
    using p lt by (simp add: v_def u_def set_stat_def pr_upd)
  have one: "at_home R x (pr v x) \<and> own_chans c (pr v x) \<and> (p_stat (pr v x) = SONPROC \<longrightarrow> x = p)"
    if x: "x < length (proctab s)" for x
  proof (cases "x = p")
    case True
    have "at_home R p (pr v p)"
      by (rule at_home_freeI [OF nq]) (use run(2) bare_eqD(4) [OF same [OF p(1)]] in \<open>simp_all add: prv\<close>)
    moreover have "own_chans c (pr v p)"
      using own_chans_bare [OF same [OF p(1)] D(3) [OF p(1)]] by (simp add: prv own_chans_def)
    ultimately show ?thesis using True by simp
  next
    case False
    have "x \<in> set (R j) \<longleftrightarrow> x \<in> set (Q j)" for j using q False by (auto simp: R_def)
    then have "at_home R x (pr t x)" using at_home_bare [OF same [OF x] D(2) [OF x]] by blast
    moreover have "p_stat (pr t x) \<noteq> SONPROC" using off x bare_eqD(1) [OF same [OF x]] by (simp add: off_cpu_def)
    ultimately show ?thesis using own_chans_bare [OF same [OF x] D(3) [OF x]] False by (simp add: prv)
  qed
  have rest: "same_rest s t" using k(2) by (simp add: only_def)
  have lv: "length (proctab v) = length (proctab s)" using lt by (simp add: v_def u_def set_stat_def)
  have g: "runout v = runout s" "runin v = runin s" "idleswtch v = 0" "curproc v = p" "ts_plist v = ts_plist s"
    using rest idle by (simp_all add: v_def u_def set_stat_def same_rest_def)
  have sw: "p_stat (pr v (proc_sched c)) = SSLEEP \<and> p_wchan (pr v (proc_sched c)) = p_wchan (pr s (proc_sched c))"
    if "p_stat (pr s (proc_sched c)) = SSLEEP"
    using that run(1) bare_eqD(1,4) [OF same [OF D(12)]] by (auto simp: prv)
  have "placed c R v"
    unfolding placed_def using cv one p(1) D(6-11,13-15) sw by (auto simp: lv g)
  moreover have "p_stat (pr v p) = SONPROC" by (simp add: prv)
  ultimately have "sched_ok c v" using g unfolding sched_ok_def by auto
  then show ?thesis using pick unfolding v_def u_def by blast
qed

text \<open>With the current process put where it belongs, the switch returns; it runs another process or waits
for an interrupt.\<close>

lemma idle_ok:
  assumes ok: "placed c Q s" and off: "off_cpu s" and idle: "0 \<le> idleswtch s"
  shows "sched_ok c (pswtch_idle c s)"
proof -
  note D = placedD [OF ok]
  have "core c Q (pswtch_idle c s)" by (rule core_globals [OF D(1)]) (simp_all add: pswtch_idle_def)
  then have "placed c Q (pswtch_idle c s)"
    using ok D(12) off unfolding placed_def off_cpu_def by (auto simp: pswtch_idle_def)
  then show ?thesis using idle unfolding sched_ok_def by (auto simp: pswtch_idle_def)
qed

lemma pswtch_left:
  assumes ok: "placed c Q (if p_stat (pr s (curproc s)) = SONPROC then set_stat (curproc s) SRUN s else s)"
    and off: "off_cpu (if p_stat (pr s (curproc s)) = SONPROC then set_stat (curproc s) SRUN s else s)"
    and idle: "idleswtch s = 0"
  shows "placed c Q (pswtch_leave s)" "off_cpu (pswtch_leave s)" "idleswtch (pswtch_leave s) = 0"
    "proctab (pswtch_leave s) = proctab (if p_stat (pr s (curproc s)) = SONPROC then set_stat (curproc s) SRUN s else s)"
proof -
  let ?l = "if p_stat (pr s (curproc s)) = SONPROC then set_stat (curproc s) SRUN s else s"
  define l where "l = pswtch_leave s"
  have l: "proctab l = proctab ?l" "dispqs l = dispqs ?l" "slpqs l = slpqs ?l" "dqactmap l = dqactmap ?l" "srunprocs l = srunprocs ?l"
    "nglobpris l = nglobpris ?l" "maxrunpri l = maxrunpri ?l" "ts_dptbl l = ts_dptbl ?l" "rt_dptbl l = rt_dptbl ?l"
    "curproc l = curproc ?l" "idleswtch l = idleswtch ?l" "ts_plist l = ts_plist ?l" "runout l = runout ?l" "runin l = runin ?l"
    by (auto simp: l_def pswtch_leave_def Let_def set_stat_def upd_proc_def split: pstat.split)
  have "placed c Q l" by (rule placed_globals [OF ok]) (simp_all only: l simp_thms)
  moreover have "off_cpu l" using off by (simp only: off_cpu_def l)
  moreover have "idleswtch l = 0" using idle unfolding l(11) by (simp add: set_stat_def)
  ultimately show "placed c Q (pswtch_leave s)" "off_cpu (pswtch_leave s)" "idleswtch (pswtch_leave s) = 0"
    "proctab (pswtch_leave s) = proctab ?l" using l(1) by (simp_all only: l_def)
qed

lemma pswtch_ok:
  assumes "placed c Q (if p_stat (pr s (curproc s)) = SONPROC then set_stat (curproc s) SRUN s else s)"
    and "off_cpu (if p_stat (pr s (curproc s)) = SONPROC then set_stat (curproc s) SRUN s else s)"
    and "idleswtch s = 0"
  shows "\<exists>t. pswtch c s = Some t \<and> sched_ok c t"
proof -
  note L = pswtch_left(1-3) [OF assms]
  show ?thesis
    using pick_ok [OF L] idle_ok [OF L(1,2)] L(3) by (cases "maxrunpri (pswtch_leave s) = -1") (simp_all add: pswtch_def Let_def)
qed

lemma pswtch_resume_ok:
  assumes ok: "sched_ok c s" and idle: "0 < idleswtch s"
  shows "\<exists>t. pswtch_resume c s = Some t \<and> sched_ok c t"
proof -
  obtain Q where Q: "placed c Q s" using ok by (auto simp: sched_ok_def)
  have off: "off_cpu s" using placedD(4) [OF Q] idle by (auto simp: off_cpu_def)
  define l where "l = s\<lparr>idleswtch := 0\<rparr>"
  have "core c Q l" by (rule core_globals [OF placedD(1) [OF Q]]) (simp_all add: l_def)
  then have pl: "placed c Q l" using Q off unfolding placed_def off_cpu_def by (auto simp: l_def)
  have "off_cpu l" "idleswtch l = 0" using off by (simp_all add: off_cpu_def l_def)
  then show ?thesis
    using pick_ok [OF pl] idle_ok [OF pl] by (cases "maxrunpri l = -1") (simp_all add: pswtch_resume_def l_def [symmetric] Let_def)
qed


section \<open>Giving up the processor\<close>

lemma sched_okE:
  assumes "sched_ok c s" "idleswtch s = 0"
  obtains Q where "placed c Q s" "p_stat (pr s (curproc s)) = SONPROC" "p_wchan (pr s (curproc s)) = 0" "\<not> queued Q (curproc s)"
    "proc_sched c = curproc s \<longrightarrow> runout s = 0 \<and> runin s = 0"
proof -
  obtain Q where Q: "placed c Q s" using assms(1) by (auto simp: sched_ok_def)
  have st: "p_stat (pr s (curproc s)) = SONPROC" using assms by (simp add: sched_ok_def)
  have "p_wchan (pr s (curproc s)) = 0" using placedD(2) [OF Q placedD(5) [OF Q]] st by (auto simp: at_home_def)
  moreover from this have "\<not> queued Q (curproc s)"
    using at_home_free [OF placedD(2) [OF Q placedD(5) [OF Q]]] st by simp
  moreover have "proc_sched c = curproc s \<longrightarrow> runout s = 0 \<and> runin s = 0" using placedD(7,13,15) [OF Q] st by force
  ultimately show ?thesis using that Q st by blast
qed


lemma only_upd: "only {p} s t \<Longrightarrow> only {p} s (upd_proc p f t)"
  by (rule only_trans [OF _ only_proc])

lemma only_len: "only P s t \<Longrightarrow> length (proctab t) = length (proctab s)"
  by (simp add: only_def same_rest_def)

lemma at_home_end:
  assumes "core c Q s" "x < length (proctab s)" "\<not> queued Q x" "R = onto_back Q s x \<or> R = onto_front Q s x"
    "p_stat y = SRUN" "p_wchan y = 0" "p_pri y = p_pri (pr s x)"
  shows "at_home R x y"
proof -
  obtain i where "p_pri (pr s x) = int i" using assms(1,2) by (rule core_pri)
  then show ?thesis using assms(3-7) by (auto simp: at_home_def onto_back_def onto_front_def Let_def queued_def split: if_splits)
qed

lemma onto_front_other: "x \<noteq> p \<Longrightarrow> x \<in> set (onto_front Q s p k) \<longleftrightarrow> x \<in> set (Q k)"
  by (simp add: onto_front_def Let_def)

lemma off_cpu_one:
  assumes "placed c Q s" "placed c R t" "only {curproc s} (s\<lparr>runout := runout t, runin := runin t\<rparr>) t" "p_stat (pr t (curproc s)) \<noteq> SONPROC"
  shows "off_cpu t"
  using assms placedD(4) [OF assms(2)] by (auto simp: off_cpu_def only_def same_rest_def)

text \<open>The current process is on a dispatcher queue, in \<open>t\<close>, but not yet marked as runnable.\<close>

lemma preempt_left:
  assumes ok: "sched_ok c s" and idle: "idleswtch s = 0" and pq: "placed c Q s" and p: "p = curproc s"
    and R: "R = onto_back Q s p \<or> R = onto_front Q s p" "core c R t" "only {p} s t" "same_run (pr s p) (pr t p)"
  defines "u \<equiv> set_stat p SRUN t"
  shows "placed c R u" "off_cpu u" "(if p_stat (pr t (curproc t)) = SONPROC then set_stat (curproc t) SRUN t else t) = u"
    "idleswtch t = 0" "only {p} s u" "pr u p = (pr t p)\<lparr>p_stat := SRUN\<rparr>"
proof -
  note D = placedD [OF pq]
  have st: "p_stat (pr s p) = SONPROC" using ok idle by (simp add: sched_ok_def p)
  have lp: "p < length (proctab s)" using D(5) by (simp add: p)
  have wc: "p_wchan (pr s p) = 0" using D(2) [OF lp] st by (auto simp: at_home_def)
  have nq: "\<not> queued Q p" using at_home_free [OF D(2) [OF lp]] st wc by simp
  have sw: "p = proc_sched c \<Longrightarrow> runout s = 0 \<and> runin s = 0" using D(7,13,15) st by force
  note K = same_runD [OF R(4)] and lt = only_len [OF R(3)]
  have cp: "curproc t = p" "idleswtch t = 0" using R(3) idle by (simp_all add: only_def same_rest_def p)
  show "idleswtch t = 0" by (fact cp(2))
  show pu: "pr u p = (pr t p)\<lparr>p_stat := SRUN\<rparr>" using lp lt by (simp add: u_def set_stat_def pr_upd)
  have cu: "core c R u"
    unfolding u_def set_stat_def
    by (rule core_proc [OF R(2)]) (use lp lt coreD(4) [OF R(2), of p] in \<open>auto simp: proc_ok_def schedulable_def\<close>)
  show ou: "only {p} s u" unfolding u_def set_stat_def by (rule only_upd [OF R(3)])
  have "idents (pr t p) = idents (pr s p)" using arg_cong [OF R(4) [unfolded same_run_def], of idents] by simp
  then have own: "own_chans c (pr u p)" using own_chans_idents [of "pr u p" "pr s p" c] D(3) [OF lp] by (simp add: pu)
  have ru: "runout u = runout s" "runin u = runin s" using ou by (simp_all add: only_def same_rest_def)
  show pl: "placed c R u"
  proof (rule placed_one [OF pq cu only_wakes [OF ou] lp])
    show "at_home R p (pr u p)" by (rule at_home_end [OF D(1) lp nq R(1)]) (use K wc in \<open>simp_all add: pu\<close>)
    show "\<And>x k. x \<noteq> p \<Longrightarrow> (x \<in> set (R k)) = (x \<in> set (Q k))" using R(1) onto_back_other onto_front_other by auto
  qed (use own ru sw in \<open>auto simp: pu\<close>)
  show "off_cpu u"
    by (rule off_cpu_one [OF pq pl]) (use wakes_only [OF only_wakes [OF ou]] in \<open>simp_all add: p [symmetric] pu\<close>)
  show "(if p_stat (pr t (curproc t)) = SONPROC then set_stat (curproc t) SRUN t else t) = u"
    using K(1) st by (simp add: cp u_def)
qed

lemma preempt_queues:
  assumes ok: "sched_ok c s" and idle: "idleswtch s = 0" and pq: "placed c Q s" "\<not> queued Q (curproc s)"
  obtains R where "R = onto_back Q s (curproc s) \<or> R = onto_front Q s (curproc s)" "core c R (CL_PREEMPT (curproc s) s)"
    "only {curproc s} s (CL_PREEMPT (curproc s) s)" "same_run (pr s (curproc s)) (pr (CL_PREEMPT (curproc s) s) (curproc s))"
  using cl.preempt_ends [OF placedD(1,5) [OF pq(1)] TrueI pq(2)] that by (auto simp: put_back_def put_front_def)

lemma preempt_ok:
  assumes ok: "sched_ok c s" and idle: "idleswtch s = 0"
  shows "\<exists>t. preempt c again s = Some t \<and> sched_ok c t"
proof -
  obtain Q where Q: "placed c Q s" "p_stat (pr s (curproc s)) = SONPROC" "\<not> queued Q (curproc s)" using ok idle by (rule sched_okE)
  show ?thesis
  proof (cases again)
    case True
    define t where "t = s\<lparr>runrun := 0, kprunrun := 0, npwakecnt := 0\<rparr>"
    have "placed c Q t" by (rule placed_globals [OF Q(1)]) (simp_all add: t_def)
    then have "sched_ok c t" using Q(2) ok unfolding sched_ok_def by (auto simp: t_def)
    then show ?thesis using True by (simp add: preempt_def t_def)
  next
    case False
    obtain R where R: "R = onto_back Q s (curproc s) \<or> R = onto_front Q s (curproc s)" "core c R (CL_PREEMPT (curproc s) s)"
      "only {curproc s} s (CL_PREEMPT (curproc s) s)" "same_run (pr s (curproc s)) (pr (CL_PREEMPT (curproc s) s) (curproc s))"
      using ok idle Q(1,3) by (rule preempt_queues)
    note L = preempt_left [OF ok idle Q(1) refl R]
    have "\<exists>v. pswtch c (CL_PREEMPT (curproc s) s) = Some v \<and> sched_ok c v"
      by (rule pswtch_ok [where Q = R], unfold L(3)) (fact L(1,2,4))+
    then show ?thesis using False by (simp add: preempt_def)
  qed
qed

section \<open>Going to sleep\<close>

text \<open>The current process is asleep on a channel, in \<open>u\<close>.\<close>

lemma asleep_placed:
  fixes chan :: int
  assumes ok: "sched_ok c s" and idle: "idleswtch s = 0" and pq: "placed c Q s" and chan: "chan \<noteq> 0"
    and u: "core c (Q(Sq (sqhash chan) := Q (Sq (sqhash chan)) @ [curproc s])) u"
      "only {curproc s} (s\<lparr>runout := runout u, runin := runin u\<rparr>) u"
      "p_stat (pr u (curproc s)) = SSLEEP" "p_wchan (pr u (curproc s)) = chan" "idents (pr u (curproc s)) = idents (pr s (curproc s))"
    and sw: "curproc s \<noteq> proc_sched c \<Longrightarrow> (runout u = runout s \<or> runout u = 0) \<and> (runin u = runin s \<or> runin u = 0)"
      "curproc s = proc_sched c \<Longrightarrow> 0 < runout u \<Longrightarrow> chan = runout_chan c"
      "curproc s = proc_sched c \<Longrightarrow> runin u \<noteq> 0 \<Longrightarrow> chan = runin_chan c" "0 \<le> runout u"
  shows "placed c (Q(Sq (sqhash chan) := Q (Sq (sqhash chan)) @ [curproc s])) u" "off_cpu u" "idleswtch u = 0" "curproc u = curproc s"
proof -
  note D = placedD [OF pq]
  have st: "p_stat (pr s (curproc s)) = SONPROC" using ok idle by (simp add: sched_ok_def)
  have wc: "p_wchan (pr s (curproc s)) = 0" using D(2) [OF D(5)] st by (auto simp: at_home_def)
  have nq: "\<not> queued Q (curproc s)" using at_home_free [OF D(2) [OF D(5)]] st wc by simp
  show pl: "placed c (Q(Sq (sqhash chan) := Q (Sq (sqhash chan)) @ [curproc s])) u"
  proof (rule placed_move [OF pq u(1,2) D(5)])
    show "at_home (Q(Sq (sqhash chan) := Q (Sq (sqhash chan)) @ [curproc s])) (curproc s) (pr u (curproc s))"
      using nq u(3,4) chan by (auto simp: at_home_def queued_def)
    show "own_chans c (pr u (curproc s))" using own_chans_idents [OF u(5)] D(3,5) by simp
  qed (use sw u(3,4) in auto)
  show "off_cpu u" by (rule off_cpu_one [OF pq pl u(2)]) (simp add: u(3))
  show "idleswtch u = 0" "curproc u = curproc s" using u(2) idle by (simp_all add: only_def same_rest_def)
qed


lemma set_flag_core:
  assumes "core c Q s" "p < length (proctab s)" "\<forall>i. p \<notin> set (Q (Dq i))"
  shows "core c Q (set_flag p f s)"
  unfolding set_flag_def by (rule core_proc [OF assms(1,2)]) (use assms coreD(4) [OF assms(1,2)] in \<open>auto simp: proc_ok_def\<close>)

lemma set_flag_simps [simp]: "only {p} s (set_flag p f s)" "length (proctab (set_flag p f s)) = length (proctab s)"
  "curproc (set_flag p f s) = curproc s" "idleswtch (set_flag p f s) = idleswtch s" "runin (set_flag p f s) = runin s"
  "runout (set_flag p f s) = runout s"
  by (simp_all add: set_flag_def only_proc)

lemma pr_set_flag: "p < length (proctab s) \<Longrightarrow> pr (set_flag p f s) p = (pr s p)\<lparr>p_flag := f (p_flag (pr s p))\<rparr>"
  by (simp add: set_flag_def pr_upd)

text \<open>The class function for sleeping changes the priority of a process that is on no dispatcher queue.\<close>

lemma CL_SLEEP_ok:
  assumes "core c Q s" "p < length (proctab s)" "\<forall>i. p \<notin> set (Q (Dq i))" "dpri dsp \<le> 39"
  defines "t \<equiv> CL_SLEEP c p dsp s"
  shows "core c Q t" "only {p} s t" "p_stat (pr t p) = p_stat (pr s p)" "p_wchan (pr t p) = p_wchan (pr s p)"
    "idents (pr t p) = idents (pr s p)"
proof -
  have k: "core c Q t" "only {p} s t" "same_run ((pr s p)\<lparr>p_pri := p_pri (pr t p)\<rparr>) (pr t p)"
    using cl.sleep_stays [OF assms(1,2) TrueI assms(3,4)] by (simp_all add: t_def)
  show "core c Q t" "only {p} s t" by (fact k)+
  show "p_stat (pr t p) = p_stat (pr s p)" "p_wchan (pr t p) = p_wchan (pr s p)" using same_runD(1,4) [OF k(3)] by simp_all
  show "idents (pr t p) = idents (pr s p)" using arg_cong [OF k(3) [unfolded same_run_def], of idents] by simp
qed

lemma sleep_low_ok:
  fixes chan :: int
  assumes ok: "sched_ok c s" and idle: "idleswtch s = 0" and chan: "chan \<noteq> 0" and dsp: "dpri dsp \<le> PZERO"
    and sw: "curproc s \<noteq> proc_sched c \<Longrightarrow> a = runout s \<and> b = runin s" "curproc s = proc_sched c \<Longrightarrow> 0 < a \<Longrightarrow> chan = runout_chan c"
      "curproc s = proc_sched c \<Longrightarrow> b \<noteq> 0 \<Longrightarrow> chan = runin_chan c" "0 \<le> a"
  shows "\<exists>t. sleep c False chan dsp (s\<lparr>runout := a, runin := b\<rparr>) = Some (GaveUp, t) \<and> sched_ok c t"
proof -
  define p where "p = curproc s"
  define z where "z = s\<lparr>runout := a, runin := b\<rparr>"
  obtain Q where Q: "placed c Q s" "p_stat (pr s p) = SONPROC" "p_wchan (pr s p) = 0" "\<not> queued Q p"
    using ok idle unfolding p_def by (rule sched_okE)
  note D = placedD [OF Q(1)]
  have p: "p < length (proctab s)" using D(5) by (simp add: p_def)
  have cz: "core c Q z" by (rule core_globals [OF D(1)]) (simp_all add: z_def)
  have pz: "p < length (proctab z)" "pr z p = pr s p" "curproc z = p" using p by (simp_all add: z_def p_def)
  define R where "R = Q(Sq (sqhash chan) := Q (Sq (sqhash chan)) @ [p])"
  define e where "e = sleep_enqueue chan p z"
  note E = sleep_enqueue_ok [OF cz pz(1) Q(4), of chan, folded e_def R_def]
  define f where "f = set_flag p (\<lambda>f. f OR SNWAKE) e"
  have le: "p < length (proctab e)" using pz only_len [OF E(2)] by simp
  have nd: "\<forall>i. p \<notin> set (R (Dq i))" using Q(4) by (auto simp: R_def queued_def)
  have F: "core c R f" "only {p} z f" unfolding f_def by (rule set_flag_core [OF E(1) le nd], rule only_trans [OF E(2)]) simp
  have lf: "p < length (proctab f)" using le by (simp add: f_def)
  have dl: "dpri dsp \<le> 39" using dsp by (simp add: PZERO_def)
  define u where "u = CL_SLEEP c p dsp f"
  note U = CL_SLEEP_ok [OF F(1) lf nd dl, folded u_def]
  have pf: "pr f p = (pr e p)\<lparr>p_flag := p_flag (pr e p) OR SNWAKE\<rparr>" using le by (simp add: f_def pr_set_flag)
  have pe: "p_stat (pr e p) = SSLEEP" "p_wchan (pr e p) = chan" "idents (pr e p) = idents (pr s p)"
    using arg_cong [OF E(3), of p_stat] arg_cong [OF E(3), of p_wchan] arg_cong [OF E(3), of idents] pz(2) by (simp_all add: bare_def idents_def)
  have ou: "only {p} z u" by (rule only_trans [OF F(2) U(2)])
  have ru: "runout u = a" "runin u = b" using ou by (simp_all add: only_def same_rest_def z_def)
  have oz: "only {p} (s\<lparr>runout := runout u, runin := runin u\<rparr>) u" using ou unfolding ru z_def .
  have us: "p_stat (pr u p) = SSLEEP" "p_wchan (pr u p) = chan" "idents (pr u p) = idents (pr s p)"
    using U(3-5) pe by (simp_all add: pf)
  have A: "placed c R u" "off_cpu u" "idleswtch u = 0" "curproc u = p"
    by (rule asleep_placed [OF ok idle Q(1) chan, of u, folded p_def, folded R_def, OF U(1) oz us];
        use sw in \<open>simp add: ru p_def\<close>)+
  have st: "p_stat (pr u p) \<noteq> SONPROC" using us(1) by simp
  have "\<exists>t. pswtch c u = Some t \<and> sched_ok c t" by (rule pswtch_ok [where Q = R]) (use A st in simp_all)
  moreover have "sleep c False chan dsp z = do { t \<leftarrow> pswtch c u; Some (GaveUp, t) }"
    using dsp by (simp add: sleep_def pz(3) Let_def e_def f_def u_def)
  ultimately show ?thesis unfolding z_def by auto
qed

lemma sched_wait_ok:
  assumes ok: "sched_ok c s" and idle: "idleswtch s = 0" and sw: "curproc s = proc_sched c"
  shows "\<exists>t. sched_wait c s = Some (GaveUp, t) \<and> sched_ok c t" "\<exists>t. sched_delay c s = Some (GaveUp, t) \<and> sched_ok c t"
proof -
  obtain Q where Q: "placed c Q s" "proc_sched c = curproc s \<longrightarrow> runout s = 0 \<and> runin s = 0" using ok idle by (rule sched_okE)
  have z: "runout s = 0" "runin s = 0" using Q(2) sw by simp_all
  note D = placedD [OF Q(1)]
  have n: "dpri PSWP \<le> PZERO" by (simp add: dpri_def PSWP_def PZERO_def)
  have e: "s\<lparr>runout := runout s + 1\<rparr> = s\<lparr>runout := runout s + 1, runin := runin s\<rparr>"
    "s\<lparr>runin := runin s + 1\<rparr> = s\<lparr>runout := runout s, runin := runin s + 1\<rparr>" by simp_all
  show "\<exists>t. sched_wait c s = Some (GaveUp, t) \<and> sched_ok c t"
    unfolding sched_wait_def by (subst e(1)) (rule sleep_low_ok [OF ok idle D(10) n]; use sw z in simp)
  show "\<exists>t. sched_delay c s = Some (GaveUp, t) \<and> sched_ok c t"
    unfolding sched_delay_def by (subst e(2)) (rule sleep_low_ok [OF ok idle D(9) n]; use sw z in simp)
qed

end
