(* ===== verification/Sched_Stops.thy ===== *)
theory Sched_Stops
  imports Sched_Switch
begin

text \<open>
  Sleeping at an interruptible priority, where the process looks for signals before and after, and being
  stopped.
\<close>

unbundle bit_operations_syntax

section \<open>Changes that move no process\<close>

lemma placed_upd:
  assumes ok: "placed c Q s" and p: "p < length (proctab s)" and f: "p_link (f (pr s p)) = p_link (pr s p)"
    "p_stat (f (pr s p)) = p_stat (pr s p)" "p_pri (f (pr s p)) = p_pri (pr s p)" "p_wchan (f (pr s p)) = p_wchan (pr s p)"
    "idents (f (pr s p)) = idents (pr s p)" "class_ok c (p_clproc (f (pr s p)))"
    and run: "p_stat (pr s p) = SRUN \<Longrightarrow> schedulable (f (pr s p)) = schedulable (pr s p)"
  shows "placed c Q (upd_proc p f s)"
proof -
  note D = placedD [OF ok]
  have c: "core c Q (upd_proc p f s)"
    by (rule core_proc [OF D(1) p]) (use f run D(2) [OF p] coreD(4) [OF D(1) p] in \<open>auto simp: at_home_def proc_ok_def\<close>)
  show ?thesis
    unfolding placed_def
  proof (intro conjI allI impI)
    fix x assume x: "x < length (proctab (upd_proc p f s))"
    then have x': "x < length (proctab s)" by simp
    show "at_home Q x (pr (upd_proc p f s) x)" using D(2) [OF x'] p f by (auto simp: pr_upd at_home_def)
    show "own_chans c (pr (upd_proc p f s) x)" using D(3) [OF x'] p own_chans_idents [OF f(5)] by (auto simp: pr_upd)
    show "x = curproc (upd_proc p f s)" "idleswtch (upd_proc p f s) = 0" if "p_stat (pr (upd_proc p f s) x) = SONPROC"
      using that D(4) [OF x'] p f(2) by (auto simp: pr_upd split: if_splits)
  qed (use c D(5-15) p f(2,4) in \<open>auto simp: pr_upd\<close>)
qed

lemma placed_flag:
  assumes "placed c Q s" "p < length (proctab s)" "p_stat (pr s p) \<noteq> SRUN"
  shows "placed c Q (set_flag p f s)"
  unfolding set_flag_def
  by (rule placed_upd [OF assms(1,2)]) (use assms coreD(4) [OF placedD(1) [OF assms(1)] assms(2)] in \<open>simp_all add: proc_ok_def\<close>)

lemma sched_ok_placed:
  assumes ok: "sched_ok c s" and t: "placed c Q t" "only P s t" and cur: "p_stat (pr t (curproc s)) = p_stat (pr s (curproc s))"
  shows "sched_ok c t"
  using assms unfolding sched_ok_def only_def same_rest_def by auto

lemma sched_ok_flag:
  assumes ok: "sched_ok c s" and idle: "idleswtch s = 0"
  shows "sched_ok c (set_flag (curproc s) f s)"
proof -
  obtain Q where Q: "placed c Q s" "p_stat (pr s (curproc s)) = SONPROC" using ok idle by (rule sched_okE)
  have p: "curproc s < length (proctab s)" using placedD(5) [OF Q(1)] .
  have "placed c Q (set_flag (curproc s) f s)" by (rule placed_flag [OF Q(1) p]) (simp add: Q(2))
  then show ?thesis by (rule sched_ok_placed [OF ok _ set_flag_simps(1)]) (use p in \<open>simp add: pr_set_flag\<close>)
qed

section \<open>Waking from the outside\<close>

lemma wakeprocs_sched_ok:
  assumes ok: "sched_ok c s" and chan: "chan = runout_chan c \<Longrightarrow> runout s = 0" "chan = runin_chan c \<Longrightarrow> runin s = 0"
  shows "\<exists>t. wakeprocs c chan prmpt s = Some t \<and> sched_ok c t \<and> wakes (may_run s) s t"
proof -
  obtain Q where Q: "placed c Q s" using ok by (auto simp: sched_ok_def)
  from wakeprocs_ok [OF Q chan, where prmpt = prmpt] obtain R t where t: "wakeprocs c chan prmpt s = Some t" "placed c R t"
    "wakes (on_chan chan s \<union> waiting_swapper c s) s t" by blast
  have w: "wakes (may_run s) s t"
    by (rule wakes_mono [OF t(3)]) (use on_chan_may_run [OF Q] swapper_may_run [OF Q] in blast)
  have "idleswtch s = 0 \<Longrightarrow> curproc s \<notin> may_run s" using ok by (auto simp: may_run_def sched_ok_def)
  from sched_ok_wakes [OF ok Q t(2) w this] show ?thesis using t(1) w by blast
qed

lemma wake_oneproc_sched_ok:
  assumes ok: "sched_ok c s" and chan: "chan = runout_chan c \<Longrightarrow> runout s = 0" "chan = runin_chan c \<Longrightarrow> runin s = 0"
  shows "\<exists>t. wake_oneproc c chan prmpt s = Some t \<and> sched_ok c t"
proof -
  obtain Q where Q: "placed c Q s" using ok by (auto simp: sched_ok_def)
  from wake_oneproc_ok [OF Q chan, where prmpt = prmpt] obtain R t W E where t: "wake_oneproc c chan prmpt s = Some t" "placed c R t"
    "wakes (set W \<union> waiting_swapper c s) s t" "filter (\<lambda>p. p_wchan (pr s p) = chan) (Q (Sq (sqhash chan))) = W @ E" by blast
  have "set W \<subseteq> on_chan chan s" using arg_cong [OF t(4), of set] chan_members [OF Q, of chan] by auto
  then have w: "wakes (may_run s) s t"
    by (intro wakes_mono [OF t(3)]) (use on_chan_may_run [OF Q, of chan] swapper_may_run [OF Q] in blast)
  have "idleswtch s = 0 \<Longrightarrow> curproc s \<notin> may_run s" using ok by (auto simp: may_run_def sched_ok_def)
  from sched_ok_wakes [OF ok Q t(2) w this] show ?thesis using t(1) by blast
qed

lemma setrun_sched_ok:
  assumes ok: "sched_ok c s" and p: "p < length (proctab s)" "p_stat (pr s p) \<in> {SSLEEP, SRUN, SSTOP}"
    and sw: "p = proc_sched c \<Longrightarrow> runout s = 0 \<and> runin s = 0"
  shows "\<exists>t. setrun c p s = Some t \<and> sched_ok c t \<and> wakes (may_run s) s t"
proof -
  obtain Q where Q: "placed c Q s" using ok by (auto simp: sched_ok_def)
  from setrun_ok [OF Q p sw] obtain R t where t: "setrun c p s = Some t" "placed c R t" "wakes (may_run s) s t" by blast
  have "idleswtch s = 0 \<Longrightarrow> curproc s \<notin> may_run s" using ok by (auto simp: may_run_def sched_ok_def)
  from sched_ok_wakes [OF ok Q t(2,3) this] show ?thesis using t(1,3) by blast
qed

lemma sched_ok_runrun: "sched_ok c s \<Longrightarrow> sched_ok c (s\<lparr>runrun := n\<rparr>)"
  unfolding sched_ok_def using placed_runrun [of c _ s n] by auto

lemma prawake_ok:
  assumes ok: "sched_ok c s" and idle: "idleswtch s = 0"
  shows "\<exists>t. prawake c (curproc s) s = Some t \<and> sched_ok c t \<and> idleswtch t = 0"
proof (cases "p_flag (pr s (curproc s)) AND SPRWAKE \<noteq> 0")
  case False
  then show ?thesis using ok idle by (simp add: prawake_def)
next
  case True
  define p where "p = curproc s"
  define u where "u = set_flag p (\<lambda>f. f AND NOT SPRWAKE) s"
  have u: "sched_ok c u" unfolding u_def p_def by (rule sched_ok_flag [OF ok idle])
  obtain Q where Q: "placed c Q s" using ok by (auto simp: sched_ok_def)
  have "own_chans c (pr s p)" using placedD(3,5) [OF Q] by (simp add: p_def)
  then have ch: "p_addr (pr s p) + trace_off c \<noteq> runout_chan c" "p_addr (pr s p) + trace_off c \<noteq> runin_chan c"
    by (simp_all add: own_chans_def)
  from wakeprocs_sched_ok [OF u, of "p_addr (pr s p) + trace_off c" True] ch
  obtain t where t: "wakeprocs c (p_addr (pr s p) + trace_off c) True u = Some t" "sched_ok c t" "wakes (may_run u) u t" by auto
  have "idleswtch t = 0" using wakesD(3) [OF t(3)] idle by (simp add: u_def)
  moreover have "sched_ok c (t\<lparr>runrun := 1\<rparr>)" using t(2) by (rule sched_ok_runrun)
  moreover have "prawake c p s = Some (t\<lparr>runrun := 1\<rparr>)" using True t(1) by (simp add: prawake_def p_def u_def)
  ultimately show ?thesis by (simp add: p_def)
qed

text \<open>The process is running again, or has never gone to sleep.\<close>

lemma sleep_end_ok:
  assumes ok: "sched_ok c s" and idle: "idleswtch s = 0"
  shows "\<exists>out t. sleep_end c dsp psig s = Some (out, t) \<and> sched_ok c t"
proof -
  define u where "u = set_flag (curproc s) (\<lambda>f. f AND NOT (if psig then SNOSTOP OR SASLEEP else SNWAKE OR SNOSTOP OR SASLEEP)) s"
  have u: "sched_ok c u" "idleswtch u = 0" "curproc u = curproc s"
    unfolding u_def using sched_ok_flag [OF ok idle] idle by simp_all
  from prawake_ok [OF u(1,2)] obtain t where t: "prawake c (curproc s) u = Some t" "sched_ok c t" by (auto simp: u(3))
  have "sleep_end c dsp psig s = (do { s' \<leftarrow> (if p_trace (pr u (curproc s)) \<noteq> 0 then prawake c (curproc s) u else Some u);
      Some (if \<not> psig then Returned 0 else if dsp AND PCATCH \<noteq> 0 then Returned 1 else Jumped, s') })"
    by (simp only: sleep_end_def Let_def u_def)
  then show ?thesis using t u(1) by auto
qed

lemma sleep_woken_ok:
  assumes ok: "sched_ok c s" and idle: "idleswtch s = 0"
  shows "\<exists>out t. sleep_woken c dsp sig s = Some (out, t) \<and> sched_ok c t"
proof (cases "dpri dsp > PZERO")
  case True
  have "sched_ok c (set_flag (curproc s) (\<lambda>f. f OR SASLEEP) s)" "idleswtch (set_flag (curproc s) (\<lambda>f. f OR SASLEEP) s) = 0"
    using sched_ok_flag [OF ok idle] idle by simp_all
  from sleep_end_ok [OF this] True show ?thesis by (simp add: sleep_woken_def)
next
  case False
  then show ?thesis using sleep_end_ok [OF ok idle] by (simp add: sleep_woken_def)
qed


section \<open>Looking for signals on the way to sleep\<close>

definition looking :: "sched_conf \<Rightarrow> int \<Rightarrow> sched \<Rightarrow> bool" where
  "looking c chan s \<longleftrightarrow> (\<exists>Q. placed c Q s) \<and> off_cpu s \<and> idleswtch s = 0 \<and> p_stat (pr s (curproc s)) = SSLEEP
     \<and> p_wchan (pr s (curproc s)) = chan \<and> chan \<noteq> 0 \<and> (curproc s = proc_sched c \<longrightarrow> runout s = 0 \<and> runin s = 0)"

lemma sleep_looks:
  assumes ok: "sched_ok c s" and idle: "idleswtch s = 0" and chan: "chan \<noteq> 0" and dsp: "dpri dsp > PZERO"
  shows "\<exists>t. sleep c False chan dsp s = Some (LooksForSignal, t) \<and> looking c chan t"
proof -
  define p where "p = curproc s"
  obtain Q where Q: "placed c Q s" "p_stat (pr s p) = SONPROC" "p_wchan (pr s p) = 0" "\<not> queued Q p"
    "proc_sched c = p \<longrightarrow> runout s = 0 \<and> runin s = 0" using ok idle unfolding p_def by (rule sched_okE)
  note D = placedD [OF Q(1)]
  have p: "p < length (proctab s)" using D(5) by (simp add: p_def)
  define R where "R = Q(Sq (sqhash chan) := Q (Sq (sqhash chan)) @ [p])"
  define e where "e = sleep_enqueue chan p s"
  note E = sleep_enqueue_ok [OF D(1) p Q(4), of chan, folded e_def R_def]
  obtain g where g: "sleep c False chan dsp s = Some (LooksForSignal, set_flag p g e)"
    using dsp by (simp add: sleep_def p_def [symmetric] e_def [symmetric] Let_def)
  define u where "u = set_flag p g e"
  have le: "p < length (proctab e)" using p only_len [OF E(2)] by simp
  have nd: "\<forall>i. p \<notin> set (R (Dq i))" using Q(4) by (auto simp: R_def queued_def)
  have F: "core c R u" "only {p} s u" unfolding u_def by (rule set_flag_core [OF E(1) le nd], rule only_trans [OF E(2)]) simp
  have pe: "p_stat (pr e p) = SSLEEP" "p_wchan (pr e p) = chan" "idents (pr e p) = idents (pr s p)"
    using arg_cong [OF E(3), of p_stat] arg_cong [OF E(3), of p_wchan] arg_cong [OF E(3), of idents] by (simp_all add: bare_def idents_def)
  have us: "p_stat (pr u p) = SSLEEP" "p_wchan (pr u p) = chan" "idents (pr u p) = idents (pr s p)"
    using pe le by (simp_all add: u_def pr_set_flag)
  have ru: "runout u = runout s" "runin u = runin s" using F(2) by (simp_all add: only_def same_rest_def)
  have oz: "only {p} (s\<lparr>runout := runout u, runin := runin u\<rparr>) u" by (rule wakes_only [OF only_wakes [OF F(2)]])
  have A: "placed c R u" "off_cpu u" "idleswtch u = 0" "curproc u = p"
    by (rule asleep_placed [OF ok idle Q(1) chan, of u, folded p_def, folded R_def, OF F(1) oz us];
        use D(15) Q(5) in \<open>auto simp: ru p_def\<close>)+
  have "looking c chan u" using A us chan Q(5) ru unfolding looking_def by auto
  then show ?thesis using g by (simp add: u_def)
qed

text \<open>A signal keeps the process from sleeping.\<close>

lemma looking_back:
  assumes ok: "looking c chan s"
  shows "\<exists>t. unsleep (curproc s) s = Some t \<and> sched_ok c (set_stat (curproc s) SONPROC t)
    \<and> idleswtch (set_stat (curproc s) SONPROC t) = 0"
proof -
  define p where "p = curproc s"
  obtain Q where Q: "placed c Q s" "idleswtch s = 0" "p_stat (pr s p) = SSLEEP" "p = proc_sched c \<longrightarrow> runout s = 0 \<and> runin s = 0"
    using ok by (auto simp: looking_def p_def)
  note D = placedD [OF Q(1)]
  have p: "p < length (proctab s)" using D(5) by (simp add: p_def)
  from setrun_off [OF D(1) p D(2) [OF p]] Q(3) obtain R t where t: "unsleep p s = Some t" "core c R t" "only {p} s t"
    "bare (pr t p) = (bare (pr s p))\<lparr>p_wchan := 0\<rparr>" "\<not> queued R p" "\<forall>x k. x \<noteq> p \<longrightarrow> (x \<in> set (R k) \<longleftrightarrow> x \<in> set (Q k))" by blast
  have lt: "p < length (proctab t)" using p only_len [OF t(3)] by simp
  define u where "u = set_stat p SONPROC t"
  have cu: "core c R u"
    unfolding u_def set_stat_def
    by (rule core_proc [OF t(2) lt]) (use lt coreD(4) [OF t(2), of p] in \<open>auto simp: proc_ok_def schedulable_def\<close>)
  have ou: "only {p} s u" unfolding u_def set_stat_def by (rule only_upd [OF t(3)])
  have pu: "pr u p = (pr t p)\<lparr>p_stat := SONPROC\<rparr>" using lt by (simp add: u_def set_stat_def pr_upd)
  have "p_wchan (pr t p) = 0" "idents (pr t p) = idents (pr s p)"
    using arg_cong [OF t(4), of p_wchan] arg_cong [OF t(4), of idents] by (simp_all add: bare_def idents_def)
  then have us: "p_wchan (pr u p) = 0" "own_chans c (pr u p)"
    using own_chans_idents [of "pr u p" "pr s p" c] D(3) [OF p] by (simp_all add: pu)
  have ru: "runout u = runout s" "runin u = runin s" "curproc u = p" "idleswtch u = 0"
    using ou Q(2) by (simp_all add: only_def same_rest_def p_def)
  have "placed c R u"
  proof (rule placed_one [OF Q(1) cu only_wakes [OF ou] p])
    show "at_home R p (pr u p)" by (rule at_home_freeI [OF t(5)]) (use us in \<open>simp_all add: pu\<close>)
  qed (use us ru Q(2,4) t(6) in \<open>auto simp: p_def\<close>)
  moreover have "p_stat (pr u p) = SONPROC" by (simp add: pu)
  ultimately show ?thesis using t(1) ru unfolding sched_ok_def by (auto simp: u_def p_def)
qed

lemma looking_sleeps:
  assumes ok: "looking c chan s" and dsp: "dpri dsp \<le> 39"
  shows "\<exists>t. pswtch c (CL_SLEEP c (curproc s) dsp (set_flag (curproc s) f s)) = Some t \<and> sched_ok c t"
proof -
  define p where "p = curproc s"
  obtain Q where Q: "placed c Q s" "idleswtch s = 0" "p_stat (pr s p) = SSLEEP" "p = proc_sched c \<longrightarrow> runout s = 0 \<and> runin s = 0"
    "off_cpu s" using ok by (auto simp: looking_def p_def)
  note D = placedD [OF Q(1)]
  have p: "p < length (proctab s)" using D(5) by (simp add: p_def)
  define e where "e = set_flag p f s"
  have e: "placed c Q e" unfolding e_def by (rule placed_flag [OF Q(1) p]) (simp add: Q(3))
  have oe: "only {p} s e" by (simp add: e_def)
  have pe: "p_stat (pr e p) = SSLEEP" "p_wchan (pr e p) = p_wchan (pr s p)" "idents (pr e p) = idents (pr s p)"
    using Q(3) p by (simp_all add: e_def pr_set_flag)
  have le: "p < length (proctab e)" using p only_len [OF oe] by simp
  have nd: "\<forall>i. p \<notin> set (Q (Dq i))" using placedD(2) [OF e le] pe(1) by (auto simp: at_home_def)
  define u where "u = CL_SLEEP c p dsp e"
  note U = CL_SLEEP_ok [OF placedD(1) [OF e] le nd dsp, folded u_def]
  have ou: "only {p} s u" by (rule only_trans [OF oe U(2)])
  have us: "p_stat (pr u p) = SSLEEP" "p_wchan (pr u p) = p_wchan (pr s p)" "idents (pr u p) = idents (pr s p)"
    using U(3-5) pe by simp_all
  have ru: "runout u = runout s" "runin u = runin s" "curproc u = p" "idleswtch u = 0"
    using ou Q(2) by (simp_all add: only_def same_rest_def p_def)
  have pl: "placed c Q u"
  proof (rule placed_one [OF Q(1) U(1) only_wakes [OF ou] p refl])
    show "at_home Q p (pr u p)" using D(2) [OF p] us Q(3) by (simp add: at_home_def)
    show "own_chans c (pr u p)" using own_chans_idents [OF us(3)] D(3) [OF p] by simp
  qed (use us ru Q(4) in auto)
  have "off_cpu u"
    by (rule off_cpu_one [OF Q(1) pl]) (use wakes_only [OF only_wakes [OF ou]] us(1) in \<open>simp_all add: p_def\<close>)
  then have "\<exists>t. pswtch c u = Some t \<and> sched_ok c t"
    by (intro pswtch_ok [where Q = Q]) (use pl ru us(1) in simp_all)
  then show ?thesis by (simp add: u_def e_def p_def)
qed

lemma looking_wakes_runin:
  assumes ok: "looking c chan s" and chan: "chan \<noteq> runin_chan c" and r: "runin s \<noteq> 0"
  shows "\<exists>t. wakeprocs c (runin_chan c) True (s\<lparr>runin := 0\<rparr>) = Some t \<and> looking c chan t \<and> curproc t = curproc s"
proof -
  define p where "p = curproc s"
  obtain Q where Q: "placed c Q s" "idleswtch s = 0" "p_stat (pr s p) = SSLEEP" "p_wchan (pr s p) = chan" "chan \<noteq> 0"
    "p = proc_sched c \<longrightarrow> runout s = 0 \<and> runin s = 0" "off_cpu s" using ok by (auto simp: looking_def p_def)
  define z where "z = s\<lparr>runin := 0\<rparr>"
  have z: "placed c Q z" "runin z = 0" unfolding z_def by (rule runout_zero(2) [OF Q(1)]) simp
  have ne: "runin_chan c = runout_chan c \<Longrightarrow> runout z = 0" using placedD(11) [OF Q(1)] by simp
  from wakeprocs_ok [OF z(1) ne z(2), where prmpt = True] obtain R t where t: "wakeprocs c (runin_chan c) True z = Some t" "placed c R t"
    "wakes (on_chan (runin_chan c) z \<union> waiting_swapper c z) z t" by blast
  note W = wakesD [OF t(3)]
  have pw: "p \<notin> on_chan (runin_chan c) z \<union> waiting_swapper c z"
    using Q(4,6) chan by (auto simp: on_chan_def waiting_swapper_def z_def)
  have p: "p < length (proctab z)" using placedD(5) [OF Q(1)] by (simp add: p_def z_def)
  have b: "bare (pr t p) = bare (pr s p)" using W(5) [OF p pw] by (simp add: z_def)
  have g: "curproc t = p" "idleswtch t = 0" "runin t = 0" using W(2,3,7) Q(2) by (simp_all add: z_def p_def)
  have off: "off_cpu t"
  proof -
    have "False" if x: "x < length (proctab t)" "p_stat (pr t x) = SONPROC" for x
    proof -
      have "x = p" using placedD(4) [OF t(2) x] g by simp
      then show False using x(2) bare_eqD(1) [OF b] Q(3) by simp
    qed
    then show ?thesis by (auto simp: off_cpu_def)
  qed
  have "looking c chan t"
    unfolding looking_def g using t(2) off g bare_eqD(1,4) [OF b] Q(3-6) W(6) by (auto simp: z_def)
  then show ?thesis using t(1) g by (simp add: z_def p_def)
qed

lemma sleep_checked_ok:
  assumes ok: "looking c chan s" and chan: "chan \<noteq> runin_chan c" and dsp: "dpri dsp \<le> 39"
  shows "\<exists>out t. sleep_checked c dsp sig s = Some (out, t) \<and> sched_ok c t"
proof (cases sig)
  case True
  from looking_back [OF ok] obtain u where u: "unsleep (curproc s) s = Some u" "sched_ok c (set_stat (curproc s) SONPROC u)"
    "idleswtch (set_stat (curproc s) SONPROC u) = 0" by blast
  have "p_stat (pr s (curproc s)) = SSLEEP" using ok by (simp add: looking_def)
  then show ?thesis using sleep_end_ok [OF u(2,3)] True u(1) by (simp add: sleep_checked_def Let_def)
next
  case False
  have w: "p_wchan (pr s (curproc s)) \<noteq> 0" using ok by (simp add: looking_def)
  define f :: "bits \<Rightarrow> bits" where "f = (\<lambda>f. f AND NOT SASLEEP)"
  show ?thesis
  proof (cases "runin s = 0")
    case True
    then show ?thesis using looking_sleeps [OF ok dsp, of f] False w by (auto simp: sleep_checked_def Let_def f_def)
  next
    case r: False
    from looking_wakes_runin [OF ok chan r] obtain u where u: "wakeprocs c (runin_chan c) True (s\<lparr>runin := 0\<rparr>) = Some u"
      "looking c chan u" "curproc u = curproc s" by blast
    then show ?thesis using looking_sleeps [OF u(2) dsp, of f] False w r by (auto simp: sleep_checked_def Let_def f_def)
  qed
qed

end
