(* ===== verification/Sched_Clock.thy ===== *)
theory Sched_Clock
  imports Sched_Stops
begin

text \<open>
  What changes the priority of a process where it is: the clock, the return to user mode, the
  second's update of the time-sharing class; and a process that is stopped.
\<close>

unbundle bit_operations_syntax

section \<open>A process is taken off its dispatcher queue\<close>

text \<open>The class structure and the priority apart, the process is as before.\<close>

definition tuned :: "sched_conf \<Rightarrow> (qid \<Rightarrow> nat list) \<Rightarrow> nat \<Rightarrow> sched \<Rightarrow> sched \<Rightarrow> bool" where
  "tuned c R p s t \<longleftrightarrow> core c R t \<and> only {p} s t \<and> p_stat (pr t p) = p_stat (pr s p) \<and> p_wchan (pr t p) = p_wchan (pr s p)
     \<and> idents (pr t p) = idents (pr s p)"

lemma tunedD:
  assumes "tuned c R p s t"
  shows "core c R t" "only {p} s t" "p_stat (pr t p) = p_stat (pr s p)" "p_wchan (pr t p) = p_wchan (pr s p)"
    "idents (pr t p) = idents (pr s p)" "length (proctab t) = length (proctab s)" "conf_ok c t" "nglobpris t = nglobpris s"
  using assms by (simp_all add: tuned_def core_def only_def same_rest_def)

lemma tuned_refl: "core c R s \<Longrightarrow> tuned c R p s s"
  by (simp add: tuned_def)

lemma tuned_trans: "tuned c R p s t \<Longrightarrow> tuned c R' p t u \<Longrightarrow> tuned c R' p s u"
  unfolding tuned_def using only_trans by auto

lemma tuned_ts:
  assumes t: "tuned c R p s t" and p: "p < length (proctab s)" and f: "\<And>x. ts_ok c x \<Longrightarrow> ts_ok c (f x)"
  shows "tuned c R p s (upd_ts p f t)"
proof -
  have lp: "p < length (proctab t)" using p tunedD(6) [OF t] by simp
  have "core c R (upd_ts p f t)" by (rule core_ts [OF tunedD(1) [OF t] lp f])
  moreover have "only {p} s (upd_ts p f t)" by (rule only_trans [OF tunedD(2) [OF t] upd_class_only(1)])
  ultimately show ?thesis using tunedD(3-5) [OF t] lp by (simp add: tuned_def upd_ts_def pr_upd)
qed

lemma tuned_rt:
  assumes t: "tuned c R p s t" and p: "p < length (proctab s)" and f: "\<And>r. rt_pri (f r) = rt_pri r"
  shows "tuned c R p s (upd_rt p f t)"
proof -
  have lp: "p < length (proctab t)" using p tunedD(6) [OF t] by simp
  have "core c R (upd_rt p f t)" by (rule core_rt [OF tunedD(1) [OF t] lp f])
  moreover have "only {p} s (upd_rt p f t)" by (rule only_trans [OF tunedD(2) [OF t] upd_class_only(2)])
  ultimately show ?thesis using tunedD(3-5) [OF t] lp by (simp add: tuned_def upd_rt_def pr_upd)
qed

lemma tuned_pri:
  assumes t: "tuned c R p s t" and p: "p < length (proctab s)" "\<forall>i. p \<notin> set (R (Dq i))" and g: "0 \<le> g" "g < int (nglobpris s)"
  shows "tuned c R p s (set_pri p g t)"
proof -
  have lp: "p < length (proctab t)" using p tunedD(6) [OF t] by simp
  have "core c R (set_pri p g t)" by (rule core_set_pri [OF tunedD(1) [OF t] lp p(2) g(1)]) (use g(2) tunedD(8) [OF t] in simp)
  moreover have "only {p} s (set_pri p g t)" by (rule only_trans [OF tunedD(2) [OF t] set_pri_only])
  ultimately show ?thesis using tunedD(3-5) [OF t] lp by (simp add: tuned_def set_pri_def pr_upd)
qed

lemma tuned_globals:
  assumes "tuned c R p s t"
  shows "tuned c R p s (t\<lparr>curpri := g\<rparr>)" "tuned c R p s (bump_runrun t)" "tuned c R p s (bump_both t)"
proof -
  have "core c R (t\<lparr>curpri := g\<rparr>)" by (rule core_globals [OF tunedD(1) [OF assms]]) simp_all
  then show "tuned c R p s (t\<lparr>curpri := g\<rparr>)" using tunedD(2-5) [OF assms] by (simp add: tuned_def only_def same_rest_def)
  show "tuned c R p s (bump_runrun t)" "tuned c R p s (bump_both t)"
    using tunedD(1-5) [OF assms] core_bump by (simp_all add: tuned_def)
qed

lemma tuned_back:
  assumes t: "tuned c R p s t" and p: "p < length (proctab s)" "\<not> queued R p"
  shows "tuned c (onto_back R t p) p s (setbackdq p t)" "p_pri (pr (setbackdq p t) p) = p_pri (pr t p)"
proof -
  have lp: "p < length (proctab t)" using p tunedD(6) [OF t] by simp
  have b: "core c (onto_back R t p) (setbackdq p t)" "only {p} t (setbackdq p t)" "same_run (pr t p) (pr (setbackdq p t) p)"
    using setbackdq_put [OF tunedD(1) [OF t] lp p(2)] by (simp_all add: put_back_def)
  have "idents (pr (setbackdq p t) p) = idents (pr t p)" using arg_cong [OF b(3) [unfolded same_run_def], of idents] by simp
  then show "tuned c (onto_back R t p) p s (setbackdq p t)"
    using b(1) only_trans [OF tunedD(2) [OF t] b(2)] same_runD(1,4) [OF b(3)] tunedD(3-5) [OF t] by (simp add: tuned_def)
  show "p_pri (pr (setbackdq p t) p) = p_pri (pr t p)" using same_runD(3) [OF b(3)] .
qed

lemma dispdeq_core:
  assumes ok: "core c Q s" and p: "p < length (proctab s)" and h: "at_home Q p (pr s p)"
  shows "\<exists>R t. dispdeq p s = Some (p_stat (pr s p) = SRUN, t) \<and> tuned c R p s t \<and> bare (pr t p) = bare (pr s p) \<and> curproc t = curproc s
    \<and> (\<forall>i. p \<notin> set (R (Dq i))) \<and> (\<forall>i. p \<in> set (R (Sq i)) \<longleftrightarrow> p \<in> set (Q (Sq i)))
    \<and> (\<forall>x k. x \<noteq> p \<longrightarrow> (x \<in> set (R k) \<longleftrightarrow> x \<in> set (Q k)))"
proof -
  obtain i where i: "p_pri (pr s p) = int i" "i < nglobpris s" using ok p by (rule core_pri)
  show ?thesis
  proof (cases "p_stat (pr s p) = SRUN")
    case False
    then have nd: "\<forall>j. p \<notin> set (Q (Dq j))" using h by (simp add: at_home_def)
    have "dispdeq p s = Some (False, s)" by (rule dispdeq_off [OF coreD(2) [OF ok] i]) (use nd in simp)
    then show ?thesis using False nd tuned_refl [OF ok, of p] by (intro exI [of _ Q] exI [of _ s]) simp
  next
    case True
    then have "p \<in> set (Q (Dq i))" using h i by (simp add: at_home_def)
    then obtain A B where q: "Q (Dq i) = A @ p # B" by (meson split_list)
    note L = disp_okD(1) [OF coreD(2) [OF ok]]
    from dispdeq_on [OF coreD(2) [OF ok] q] obtain t where t: "dispdeq p s = Some (True, t)" "disp_ok (Q(Dq i := A @ B)) t" "disp_same s t"
      by blast
    define R where "R = Q(Dq i := A @ B)"
    note k = core_disp_same [OF ok t(2,3), folded R_def]
    have b: "bare (pr t p) = bare (pr s p)" using k(2) p by (simp add: only_def)
    have id: "idents (pr t p) = idents (pr s p)" using arg_cong [OF b, of idents] by simp
    have "tuned c R p s t" using k only_mono [OF k(2)] bare_eqD(1,4) [OF b] id by (simp add: tuned_def)
    moreover have "\<forall>j. p \<notin> set (R (Dq j))"
      using links_okD(3) [OF L, of "Dq i"] links_okD(4) [OF L, of "Dq i" _ p] q by (auto simp: R_def)
    moreover have "x \<in> set (R m) \<longleftrightarrow> x \<in> set (Q m)" if "x \<noteq> p" for x m using that q by (auto simp: R_def)
    moreover have "curproc t = curproc s" using disp_sameD(4) [OF t(3)] .
    ultimately show ?thesis using t(1) True b by (intro exI [of _ R] exI [of _ t]) (simp add: R_def)
  qed
qed

text \<open>A process keeps its state.\<close>

lemma placed_keep:
  assumes ok: "placed c Q s" and t: "tuned c R p s t" and p: "p < length (proctab s)"
    and other: "\<And>x k. x \<noteq> p \<Longrightarrow> x \<in> set (R k) \<longleftrightarrow> x \<in> set (Q k)" and home: "at_home R p (pr t p)"
  shows "placed c R t"
proof (rule placed_move [OF ok tunedD(1) [OF t] wakes_only [OF only_wakes [OF tunedD(2) [OF t]]] p other home])
  note D = placedD [OF ok] and T = tunedD [OF t]
  have r: "runout t = runout s" "runin t = runin s" using T(2) by (simp_all add: only_def same_rest_def)
  show "own_chans c (pr t p)" using own_chans_idents [OF T(5)] D(3) [OF p] by simp
  show "p = curproc s \<and> idleswtch s = 0" if "p_stat (pr t p) = SONPROC" using D(4) [OF p] that T(3) by simp
  show "p_stat (pr t p) = SSLEEP \<and> p_wchan (pr t p) = runout_chan c" if "p = proc_sched c" "0 < runout t"
    using D(7,8) that T(3,4) r by simp
  show "p_stat (pr t p) = SSLEEP \<and> p_wchan (pr t p) = runin_chan c" if "p = proc_sched c" "runin t \<noteq> 0"
    using D(13,14) that T(3,4) r by simp
  show "(runout t = runout s \<or> runout t = 0) \<and> (runin t = runin s \<or> runin t = 0)" using r by simp
  show "0 \<le> runout t" using D(15) r by simp
qed


section \<open>The time-sharing class\<close>

lemma ts_fields_ok:
  assumes "core c R s" "p < length (proctab s)"
  shows "0 \<le> ts_umdpri (tsof (pr s p))" "ts_umdpri (tsof (pr s p)) \<le> ts_maxumdpri c"
proof -
  have "0 \<le> ts_maxumdpri c" using coreD(1) [OF assms(1)] by (simp add: conf_ok_def)
  then show "0 \<le> ts_umdpri (tsof (pr s p))" "ts_umdpri (tsof (pr s p)) \<le> ts_maxumdpri c"
    using coreD(4) [OF assms] by (auto simp: proc_ok_def class_ok_def tsof_def ts_none_def ts_ok_def split: clproc.splits)
qed

lemma tsent_ok:
  assumes "conf_ok c s" "0 \<le> i" "i \<le> ts_maxumdpri c"
  shows "0 \<le> ts_globpri (tsent s i)" "ts_globpri (tsent s i) < int (nglobpris s)"
    "0 \<le> ts_tqexp (tsent s i)" "ts_tqexp (tsent s i) \<le> ts_maxumdpri c" "0 \<le> ts_slpret (tsent s i)" "ts_slpret (tsent s i) \<le> ts_maxumdpri c"
    "0 \<le> ts_lwait (tsent s i)" "ts_lwait (tsent s i) \<le> ts_maxumdpri c"
proof -
  have "nat i < length (ts_dptbl s)" using assms by (auto simp: conf_ok_def)
  then have "tsent s i \<in> set (ts_dptbl s)" by (simp add: tsent_def)
  then show "0 \<le> ts_globpri (tsent s i)" "ts_globpri (tsent s i) < int (nglobpris s)"
    "0 \<le> ts_tqexp (tsent s i)" "ts_tqexp (tsent s i) \<le> ts_maxumdpri c" "0 \<le> ts_slpret (tsent s i)" "ts_slpret (tsent s i) \<le> ts_maxumdpri c"
    "0 \<le> ts_lwait (tsent s i)" "ts_lwait (tsent s i) \<le> ts_maxumdpri c"
    using assms(1) by (auto simp: conf_ok_def)
qed

lemma newumdpri_ok: "0 \<le> ts_maxumdpri c \<Longrightarrow> 0 \<le> ts_cpupri t \<Longrightarrow> ts_cpupri t \<le> ts_maxumdpri c \<Longrightarrow> - ts_maxupri c \<le> ts_upri t
    \<Longrightarrow> ts_upri t \<le> ts_uprilim t \<Longrightarrow> ts_uprilim t \<le> ts_maxupri c \<Longrightarrow> ts_ok c (TS_NEWUMDPRI c t)"
  by (simp add: TS_NEWUMDPRI_def ts_ok_def Let_def)

lemma new_cpupri_ok:
  assumes "conf_ok c s" "ts_ok c t"
  shows "ts_ok c (TS_NEWUMDPRI c (t\<lparr>ts_cpupri := ts_tqexp (tsent s (ts_cpupri t)), ts_sleepwait := 0\<rparr>))"
    "ts_ok c (t\<lparr>ts_cpupri := ts_slpret (tsent s (ts_cpupri t))\<rparr>)" "ts_ok c (TS_NEWUMDPRI c t)"
    "ts_ok c ((TS_NEWUMDPRI c (t\<lparr>ts_cpupri := ts_lwait (tsent s (ts_cpupri t))\<rparr>))\<lparr>ts_dispwait := 0\<rparr>)"
proof -
  have t: "0 \<le> ts_cpupri t" "ts_cpupri t \<le> ts_maxumdpri c" "- ts_maxupri c \<le> ts_upri t" "ts_upri t \<le> ts_uprilim t" "ts_uprilim t \<le> ts_maxupri c"
    "0 \<le> ts_maxumdpri c" using assms by (simp_all add: ts_ok_def conf_ok_def)
  note e = tsent_ok [OF assms(1) t(1,2)]
  show "ts_ok c (TS_NEWUMDPRI c (t\<lparr>ts_cpupri := ts_tqexp (tsent s (ts_cpupri t)), ts_sleepwait := 0\<rparr>))"
    by (rule newumdpri_ok) (use e t in simp_all)
  show "ts_ok c (t\<lparr>ts_cpupri := ts_slpret (tsent s (ts_cpupri t))\<rparr>)" using e assms(2) by (simp add: ts_ok_def)
  show "ts_ok c (TS_NEWUMDPRI c t)" by (rule newumdpri_ok) (use t in simp_all)
  have "ts_ok c (TS_NEWUMDPRI c (t\<lparr>ts_cpupri := ts_lwait (tsent s (ts_cpupri t))\<rparr>))" by (rule newumdpri_ok) (use e t in simp_all)
  then show "ts_ok c ((TS_NEWUMDPRI c (t\<lparr>ts_cpupri := ts_lwait (tsent s (ts_cpupri t))\<rparr>))\<lparr>ts_dispwait := 0\<rparr>)" by simp
qed

definition taken_off :: "(qid \<Rightarrow> nat list) \<Rightarrow> (qid \<Rightarrow> nat list) \<Rightarrow> nat \<Rightarrow> bool" where
  "taken_off Q R p \<longleftrightarrow> (\<forall>i. p \<notin> set (R (Dq i))) \<and> (\<forall>i. p \<in> set (R (Sq i)) \<longleftrightarrow> p \<in> set (Q (Sq i)))
     \<and> (\<forall>x k. x \<noteq> p \<longrightarrow> (x \<in> set (R k) \<longleftrightarrow> x \<in> set (Q k)))"

lemma requeue_placed:
  assumes ok: "placed c Q s" and p: "p < length (proctab s)" and t: "tuned c R p s t" "taken_off Q R p"
  shows "\<exists>R'. placed c R' (ts_requeue (p_stat (pr s p) = SRUN) p t) \<and> tuned c R' p s (ts_requeue (p_stat (pr s p) = SRUN) p t)"
proof -
  note h = placedD(2) [OF ok p] and T = tunedD [OF t(1)]
  have others: "x \<noteq> p \<Longrightarrow> x \<in> set (R k) \<longleftrightarrow> x \<in> set (Q k)" for x k using t(2) by (simp add: taken_off_def)
  show ?thesis
  proof (cases "p_stat (pr s p) = SRUN")
    case True
    have "p \<notin> set (R (Sq i))" for i using t(2) h True by (auto simp: taken_off_def at_home_def)
    moreover have "p \<notin> set (R (Dq i))" for i using t(2) by (simp add: taken_off_def)
    ultimately have nq: "\<not> queued R p" unfolding queued_def by (metis qid.exhaust)
    define u where "u = ts_quantum_in p t"
    have u: "tuned c R p s u" unfolding u_def ts_quantum_in_def Let_def by (rule tuned_ts [OF t(1) p]) simp
    have lu: "p < length (proctab u)" using p tunedD(6) [OF u] by simp
    note b = tuned_back [OF u p nq]
    have "at_home (onto_back R u p) p (pr (setbackdq p u) p)"
      by (rule at_home_back [OF tunedD(1) [OF u] lu nq]) (use tunedD(3,4) [OF b(1)] b(2) True h in \<open>auto simp: at_home_def\<close>)
    then have "placed c (onto_back R u p) (setbackdq p u)"
      by (intro placed_keep [OF ok b(1) p]) (use others onto_back_other in auto)
    then show ?thesis using b(1) True by (auto simp: ts_requeue_def u_def)
  next
    case False
    define u where "u = upd_ts p (\<lambda>t. t\<lparr>ts_flags := ts_flags t OR TSBACKQ\<rparr>) t"
    have u: "tuned c R p s u" unfolding u_def by (rule tuned_ts [OF t(1) p]) simp
    have "at_home R p (pr u p)" using h False tunedD(3,4) [OF u] t(2) by (auto simp: at_home_def taken_off_def)
    then have "placed c R u" by (intro placed_keep [OF ok u p]) (use others in auto)
    then show ?thesis using u False by (auto simp: ts_requeue_def u_def)
  qed
qed

lemma dispdeq_taken:
  assumes ok: "placed c Q s" and p: "p < length (proctab s)" and t: "tuned c Q p s t" "bare (pr t p) = bare (pr s p) \<or> at_home Q p (pr t p)"
  shows "\<exists>R u. dispdeq p t = Some (p_stat (pr s p) = SRUN, u) \<and> tuned c R p s u \<and> taken_off Q R p \<and> curproc u = curproc t
    \<and> coarse (pr u p) = coarse (pr t p)"
proof -
  have lt: "p < length (proctab t)" using p tunedD(6) [OF t(1)] by simp
  have h: "at_home Q p (pr t p)" using t(2) at_home_bare [OF _ placedD(2) [OF ok p]] by blast
  from dispdeq_core [OF tunedD(1) [OF t(1)] lt h] obtain R u where u: "dispdeq p t = Some (p_stat (pr t p) = SRUN, u)" "tuned c R p t u"
    "bare (pr u p) = bare (pr t p)" "curproc u = curproc t" "\<forall>i. p \<notin> set (R (Dq i))" "\<forall>i. p \<in> set (R (Sq i)) \<longleftrightarrow> p \<in> set (Q (Sq i))"
    "\<forall>x k. x \<noteq> p \<longrightarrow> (x \<in> set (R k) \<longleftrightarrow> x \<in> set (Q k))" by blast
  have "tuned c R p s u" by (rule tuned_trans [OF t(1) u(2)])
  then show ?thesis using u tunedD(3) [OF t(1)] bare_coarse [OF u(3)] by (auto simp: taken_off_def)
qed


lemma at_home_keeps: "same_run x y \<Longrightarrow> at_home Q p x \<Longrightarrow> at_home Q p y"
  unfolding at_home_def by (simp add: same_runD(1,3,4))

lemma placed_bump: "placed c Q s \<Longrightarrow> placed c Q (bump_runrun s)" "placed c Q s \<Longrightarrow> placed c Q (bump_both s)"
  by (erule placed_globals; simp add: bump_runrun_def bump_both_def)+

definition kept :: "sched_conf \<Rightarrow> nat \<Rightarrow> sched \<Rightarrow> sched \<Rightarrow> bool" where
  "kept c p s t \<longleftrightarrow> (\<exists>R. placed c R t \<and> tuned c R p s t)"

lemma kept_refl: "placed c Q s \<Longrightarrow> kept c p s s"
  unfolding kept_def using tuned_refl placedD(1) by blast

lemma kept_sched_ok:
  assumes ok: "sched_ok c s" and k: "kept c p s t"
  shows "sched_ok c t"
proof -
  obtain Q where Q: "placed c Q s" using ok by (auto simp: sched_ok_def)
  obtain R where R: "placed c R t" "tuned c R p s t" using k by (auto simp: kept_def)
  have cur: "curproc t = curproc s" "idleswtch t = idleswtch s" using tunedD(2) [OF R(2)] by (simp_all add: only_def same_rest_def)
  have "p_stat (pr t (curproc s)) = p_stat (pr s (curproc s))"
  proof (cases "curproc s = p")
    case True
    then show ?thesis using tunedD(3) [OF R(2)] by simp
  next
    case False
    then have "bare (pr t (curproc s)) = bare (pr s (curproc s))" using tunedD(2) [OF R(2)] placedD(5) [OF Q] by (simp add: only_def)
    then show ?thesis by (rule bare_eqD(1))
  qed
  then show ?thesis using ok R(1) cur unfolding sched_ok_def by auto
qed

lemma kept_class:
  assumes ok: "placed c Q s" and p: "p < length (proctab s)" and k: "tuned c Q p s t" "same_run (pr s p) (pr t p)"
  shows "kept c p s t"
  unfolding kept_def using placed_keep [OF ok k(1) p refl at_home_keeps [OF k(2) placedD(2) [OF ok p]]] k(1) by blast

lemma repri_ok:
  assumes ok: "placed c Q s" and p: "p < length (proctab s)" and t: "tuned c R p s t" "taken_off Q R p"
  defines "g \<equiv> ts_globpri (tsumd t p)"
  shows "kept c p s (ts_requeue (p_stat (pr s p) = SRUN) p (set_pri p g (if b then t\<lparr>curpri := g\<rparr> else t)))"
    "kept c p s (ts_requeue (p_stat (pr s p) = SRUN) p (upd_ts p (\<lambda>t. t\<lparr>ts_dispwait := 0\<rparr>) (set_pri p g (t\<lparr>curpri := g\<rparr>))))"
proof -
  have lt: "p < length (proctab t)" using p tunedD(6) [OF t(1)] by simp
  have g: "0 \<le> g" "g < int (nglobpris s)"
    using tsent_ok(1,2) [OF tunedD(7) [OF t(1)] ts_fields_ok [OF tunedD(1) [OF t(1)] lt]] tunedD(8) [OF t(1)] by (simp_all add: g_def tsumd_def)
  have nd: "\<forall>i. p \<notin> set (R (Dq i))" using t(2) by (simp add: taken_off_def)
  have a: "tuned c R p s (set_pri p g (if b then t\<lparr>curpri := g\<rparr> else t))" for b
    by (rule tuned_pri [OF _ p nd g]) (use t(1) tuned_globals(1) in simp)
  show "kept c p s (ts_requeue (p_stat (pr s p) = SRUN) p (set_pri p g (if b then t\<lparr>curpri := g\<rparr> else t)))"
    unfolding kept_def by (rule requeue_placed [OF ok p a t(2)])
  have "tuned c R p s (upd_ts p (\<lambda>t. t\<lparr>ts_dispwait := 0\<rparr>) (set_pri p g (t\<lparr>curpri := g\<rparr>)))"
    by (rule tuned_ts [OF _ p]) (use a [of True] in simp_all)
  then show "kept c p s (ts_requeue (p_stat (pr s p) = SRUN) p (upd_ts p (\<lambda>t. t\<lparr>ts_dispwait := 0\<rparr>) (set_pri p g (t\<lparr>curpri := g\<rparr>))))"
    unfolding kept_def by (rule requeue_placed [OF ok p _ t(2)])
qed

lemma kept_bump: "kept c p s t \<Longrightarrow> kept c p s (bump_runrun t)" "kept c p s t \<Longrightarrow> kept c p s (bump_both t)"
  unfolding kept_def using placed_bump tuned_globals(2,3) by blast+

lemma ts_tick_ok:
  assumes ok: "placed c Q s" and p: "p < length (proctab s)"
  shows "\<exists>t. ts_tick c p s = Some t \<and> kept c p s t"
proof (cases "ts_flags (tsof (pr s p)) AND TSKPRI \<noteq> 0")
  case True
  then show ?thesis using kept_refl [OF ok] by (simp add: ts_tick_def)
next
  case False
  define z where "z = upd_ts p (\<lambda>t. t\<lparr>ts_timeleft := s32 (ts_timeleft t - 1)\<rparr>) s"
  have z: "tuned c Q p s z" unfolding z_def by (rule tuned_ts [OF tuned_refl [OF placedD(1) [OF ok]] p]) simp
  have kz: "same_run (pr s p) (pr z p)" by (simp add: z_def)
  show ?thesis
  proof (cases "ts_timeleft (tsof (pr z p)) = 0")
    case n: False
    then show ?thesis using kept_class [OF ok p z kz] False by (simp add: ts_tick_def z_def [symmetric] Let_def)
  next
    case True
    from dispdeq_taken [OF ok p z] at_home_keeps [OF kz placedD(2) [OF ok p]] obtain R u where
      u: "dispdeq p z = Some (p_stat (pr s p) = SRUN, u)" "tuned c R p s u" "taken_off Q R p" by blast
    define v where "v = upd_ts p (\<lambda>t. TS_NEWUMDPRI c (t\<lparr>ts_cpupri := ts_tqexp (tsent u (ts_cpupri t)), ts_sleepwait := 0\<rparr>)) u"
    have v: "tuned c R p s v" unfolding v_def by (rule tuned_ts [OF u(2) p]) (rule new_cpupri_ok(1) [OF tunedD(7) [OF u(2)]])
    note k = kept_bump(1) [OF repri_ok(2) [OF ok p v u(3)]]
    have "ts_tick c p s = Some (bump_runrun (ts_requeue (p_stat (pr s p) = SRUN) p
        (upd_ts p (\<lambda>t. t\<lparr>ts_dispwait := 0\<rparr>) (set_pri p (ts_globpri (tsumd v p)) (v\<lparr>curpri := ts_globpri (tsumd v p)\<rparr>)))))"
      using False True u(1) by (simp add: ts_tick_def z_def [symmetric] Let_def v_def)
    then show ?thesis using k by blast
  qed
qed

lemma ts_update_one_ok:
  assumes ok: "placed c Q s" and p: "p < length (proctab s)"
  shows "\<exists>t. ts_update_one c p s = Some t \<and> kept c p s t"
proof -
  have step: "kept c p s (upd_ts p f s)" if "\<And>x. ts_ok c x \<Longrightarrow> ts_ok c (f x)" for f
    by (rule kept_class [OF ok p tuned_ts [OF tuned_refl [OF placedD(1) [OF ok]] p that]]) simp_all
  define z where "z = upd_ts p (\<lambda>t. t\<lparr>ts_dispwait := s16 (ts_dispwait t + 1)\<rparr>) s"
  define v where "v = upd_ts p (\<lambda>t. (TS_NEWUMDPRI c (t\<lparr>ts_cpupri := ts_lwait (tsent z (ts_cpupri t))\<rparr>))\<lparr>ts_dispwait := 0\<rparr>) z"
  have z: "tuned c Q p s z" unfolding z_def by (rule tuned_ts [OF tuned_refl [OF placedD(1) [OF ok]] p]) simp
  have v: "tuned c Q p s v" unfolding v_def by (rule tuned_ts [OF z p]) (rule new_cpupri_ok(4) [OF tunedD(7) [OF z]])
  have kv: "same_run (pr s p) (pr v p)" unfolding v_def z_def by (rule same_run_trans [OF upd_class_keeps(1) upd_class_keeps(1)])
  from dispdeq_taken [OF ok p v] at_home_keeps [OF kv placedD(2) [OF ok p]] obtain R u where
    u: "dispdeq p v = Some (p_stat (pr s p) = SRUN, u)" "tuned c R p s u" "taken_off Q R p" by blast
  define g where "g = ts_globpri (tsumd u p)"
  have k: "kept c p s (ts_requeue (p_stat (pr s p) = SRUN) p (set_pri p g (if p = curproc u then u\<lparr>curpri := g\<rparr> else u)))"
    unfolding g_def by (rule repri_ok(1) [OF ok p u(2,3)])
  have e: "ts_update_one c p s = Some s \<or> (\<exists>f. (\<forall>x. ts_ok c x \<longrightarrow> ts_ok c (f x)) \<and> ts_update_one c p s = Some (upd_ts p f s))
      \<or> ts_update_one c p s = Some (ts_requeue (p_stat (pr s p) = SRUN) p (set_pri p g (if p = curproc u then u\<lparr>curpri := g\<rparr> else u)))"
  proof (cases "ts_flags (tsof (pr s p)) AND TSKPRI \<noteq> 0")
    case True
    then show ?thesis
      by (cases "p_stat (pr s p) = SSLEEP")
        (auto simp: ts_update_one_def intro!: exI [of _ "\<lambda>t. t\<lparr>ts_sleepwait := s32 (ts_sleepwait t + 8)\<rparr>"])
  next
    case n1: False
    show ?thesis
    proof (cases "p_stat (pr s p) \<noteq> SRUN \<and> p_stat (pr s p) \<noteq> SONPROC \<or> p_flag (pr s p) AND SPROCIO \<noteq> 0")
      case True
      then show ?thesis using n1 by (simp add: ts_update_one_def)
    next
      case n2: False
      show ?thesis
      proof (cases "ts_dispwait (tsof (pr z p)) \<le> ts_maxwait (tsumd z p)")
        case True
        have "ts_update_one c p s = Some z"
          unfolding ts_update_one_def using n1 n2 True by (simp only: if_not_P Let_def z_def [symmetric] if_True if_False simp_thms)
        then show ?thesis unfolding z_def
          by (intro disjI2 disjI1 exI [of _ "\<lambda>t. t\<lparr>ts_dispwait := s16 (ts_dispwait t + 1)\<rparr>"]) simp
      next
        case n3: False
        have "ts_update_one c p s = (do { (wasonq, s) \<leftarrow> dispdeq p v; let g = ts_globpri (tsumd s p);
            let s = set_pri p g (if p = curproc s then s\<lparr>curpri := g\<rparr> else s); Some (ts_requeue wasonq p s) })"
          unfolding ts_update_one_def using n1 n2 n3
          by (simp only: if_not_P Let_def z_def [symmetric] v_def [symmetric] if_True if_False simp_thms)
        then show ?thesis by (simp add: u(1) g_def Let_def)
      qed
    qed
  qed
  show ?thesis using e k step kept_refl [OF ok] by metis
qed


lemma ts_update_list_ok:
  "sched_ok c s \<Longrightarrow> set ps \<subseteq> {..<length (proctab s)} \<Longrightarrow> \<exists>t. ts_update_list c ps s = Some t \<and> sched_ok c t"
proof (induction ps arbitrary: s)
  case (Cons p ps)
  obtain Q where Q: "placed c Q s" using Cons.prems by (auto simp: sched_ok_def)
  have p: "p < length (proctab s)" using Cons.prems by simp
  from ts_update_one_ok [OF Q p] obtain t where t: "ts_update_one c p s = Some t" "kept c p s t" by blast
  have "length (proctab t) = length (proctab s)" using t(2) tunedD(6) by (auto simp: kept_def)
  then show ?case using Cons.IH [OF kept_sched_ok [OF Cons.prems(1) t(2)]] Cons.prems(2) t(1) by simp
qed simp

lemma sched_ok_bump: "sched_ok c s \<Longrightarrow> sched_ok c (bump_runrun s)"
  unfolding sched_ok_def using placed_bump(1) [of c _ s] by (auto simp: bump_runrun_def)

lemma ts_update_ok: "sched_ok c s \<Longrightarrow> \<exists>t. ts_update c s = Some t \<and> sched_ok c t"
proof -
  assume ok: "sched_ok c s"
  then obtain Q where Q: "placed c Q s" by (auto simp: sched_ok_def)
  have "set (ts_plist s) \<subseteq> {..<length (proctab s)}" using placedD(6) [OF Q] by auto
  from ts_update_list_ok [OF ok this] show ?thesis using sched_ok_bump by (auto simp: ts_update_def)
qed

lemma kept_off:
  assumes ok: "placed c Q s" and p: "p < length (proctab s)" "p_stat (pr s p) \<noteq> SRUN" and t: "tuned c Q p s t"
  shows "kept c p s t"
proof -
  have "at_home Q p (pr t p)" using placedD(2) [OF ok p(1)] p(2) tunedD(3,4) [OF t] by (simp add: at_home_def)
  then show ?thesis unfolding kept_def using placed_keep [OF ok t p(1) refl] t by blast
qed

lemma rt_tick_ok:
  assumes ok: "placed c Q s" and p: "p < length (proctab s)" "p_stat (pr s p) \<noteq> SRUN"
  shows "kept c p s (rt_tick p s)"
proof -
  define z where "z = upd_rt p (\<lambda>r. r\<lparr>rt_timeleft := s32 (rt_timeleft r - 1)\<rparr>) s"
  have z: "tuned c Q p s z" unfolding z_def by (rule tuned_rt [OF tuned_refl [OF placedD(1) [OF ok]] p(1)]) simp
  have y: "tuned c Q p s (bump_both (upd_rt p (\<lambda>r. r\<lparr>rt_flags := rt_flags r OR RTBACKQ\<rparr>) z))"
    by (rule tuned_globals(3), rule tuned_rt [OF z p(1)]) simp
  show ?thesis
    using kept_off [OF ok p z] kept_off [OF ok p y] kept_refl [OF ok] by (simp add: rt_tick_def z_def [symmetric] Let_def)
qed

lemma ts_trapret_ok:
  assumes ok: "placed c Q s" and p: "p < length (proctab s)" "p_stat (pr s p) \<noteq> SRUN"
  shows "kept c p s (ts_trapret c p s)"
proof (cases "ts_flags (tsof (pr s p)) AND TSKPRI = 0")
  case True
  then show ?thesis using kept_refl [OF ok] by (simp add: ts_trapret_def)
next
  case False
  have nd: "\<forall>i. p \<notin> set (Q (Dq i))" using placedD(2) [OF ok p(1)] p(2) by (simp add: at_home_def)
  define y where "y = upd_ts p (\<lambda>t. t\<lparr>ts_sleepwait := (if ts_sleepwait t > TS_SLEEPMAX then TS_SLEEPMAX div 2 else ts_sleepwait t div 2)\<rparr>)
    (ts_quantum_in p (upd_ts p (\<lambda>t. t\<lparr>ts_cpupri := ts_slpret (tsent s (ts_cpupri t))\<rparr>) s))"
  define z where "z = (if ts_sleepwait (tsof (pr s p)) > TS_SLEEPWAIT then y else s)"
  define w where "w = upd_ts p (\<lambda>t. let t = TS_NEWUMDPRI c t in t\<lparr>ts_flags := ts_flags t AND NOT TSKPRI\<rparr>) z"
  define g where "g = ts_globpri (tsumd w p)"
  define v where "v = upd_ts p (\<lambda>t. t\<lparr>ts_dispwait := 0\<rparr>) (set_pri p g (w\<lparr>curpri := g\<rparr>))"
  define b where "b = upd_ts p (\<lambda>t. t\<lparr>ts_flags := ts_flags t OR TSBACKQ\<rparr>) v"
  have s: "tuned c Q p s s" by (rule tuned_refl [OF placedD(1) [OF ok]])
  have x: "tuned c Q p s (upd_ts p (\<lambda>t. t\<lparr>ts_cpupri := ts_slpret (tsent s (ts_cpupri t))\<rparr>) s)"
    by (rule tuned_ts [OF s p(1)]) (rule new_cpupri_ok(2) [OF tunedD(7) [OF s]])
  have "tuned c Q p s y"
    unfolding y_def ts_quantum_in_def Let_def by (rule tuned_ts [OF tuned_ts [OF x p(1)] p(1)]) simp_all
  then have z: "tuned c Q p s z" using s by (simp add: z_def)
  have w: "tuned c Q p s w"
    unfolding w_def by (rule tuned_ts [OF z p(1)]) (simp add: Let_def new_cpupri_ok(3) [OF tunedD(7) [OF z]])
  have lw: "p < length (proctab w)" using p tunedD(6) [OF w] by simp
  have g: "0 \<le> g" "g < int (nglobpris s)"
    using tsent_ok(1,2) [OF tunedD(7) [OF w] ts_fields_ok [OF tunedD(1) [OF w] lw]] tunedD(8) [OF w] by (simp_all add: g_def tsumd_def)
  have v: "tuned c Q p s v"
    unfolding v_def by (rule tuned_ts [OF tuned_pri [OF tuned_globals(1) [OF w] p(1) nd g] p(1)]) simp
  have b: "tuned c Q p s b" unfolding b_def by (rule tuned_ts [OF v p(1)]) simp
  have "ts_trapret c p s = v \<or> ts_trapret c p s = bump_runrun v \<or> ts_trapret c p s = bump_runrun b"
    using False unfolding ts_trapret_def Let_def y_def [symmetric] z_def [symmetric]
    by (simp add: w_def [unfolded Let_def, symmetric] g_def [symmetric] v_def [symmetric] b_def [symmetric])
  then show ?thesis using kept_off [OF ok p v] kept_off [OF ok p b] kept_bump(1) by auto
qed

lemma CL_TICK_ok:
  assumes ok: "sched_ok c s" and idle: "idleswtch s = 0"
  shows "\<exists>t. CL_TICK c (curproc s) s = Some t \<and> sched_ok c t"
proof -
  obtain Q where Q: "placed c Q s" "p_stat (pr s (curproc s)) = SONPROC" using ok idle by (rule sched_okE)
  note p = placedD(5) [OF Q(1)]
  have nr: "p_stat (pr s (curproc s)) \<noteq> SRUN" using Q(2) by simp
  show ?thesis
    using ts_tick_ok [OF Q(1) p] kept_sched_ok [OF ok] kept_sched_ok [OF ok rt_tick_ok [OF Q(1) p nr]] ok
    by (cases "p_clproc (pr s (curproc s))") (auto simp: CL_TICK_def)
qed

lemma CL_TRAPRET_ok:
  assumes ok: "sched_ok c s" and idle: "idleswtch s = 0"
  shows "sched_ok c (CL_TRAPRET c (curproc s) s)"
proof -
  obtain Q where Q: "placed c Q s" "p_stat (pr s (curproc s)) = SONPROC" using ok idle by (rule sched_okE)
  have nr: "p_stat (pr s (curproc s)) \<noteq> SRUN" using Q(2) by simp
  show ?thesis
    using kept_sched_ok [OF ok ts_trapret_ok [OF Q(1) placedD(5) [OF Q(1)] nr]] ok
    by (cases "p_clproc (pr s (curproc s))") (auto simp: CL_TRAPRET_def)
qed

end
