(* ===== verification/Sched_Lives.thy ===== *)
theory Sched_Lives
  imports Sched_Clock
begin

text \<open>
  Stopping, birth and death of processes, and what the swapper and \<open>/proc\<close> do to the flags of a process
  that may be on a dispatcher queue.
\<close>

unbundle bit_operations_syntax

section \<open>Being stopped\<close>

lemma CL_STOP_tuned:
  assumes t: "tuned c R p s t" and p: "p < length (proctab s)"
  shows "tuned c R p s (CL_STOP p t)"
proof -
  have r: "tuned c R p s (rt_stop p t)"
    unfolding rt_stop_def by (rule if_elim_ok) (rule tuned_rt [OF t p], simp, rule t)
  show ?thesis by (cases "p_clproc (pr t p)") (simp_all add: CL_STOP_def r t)
qed

lemma stop_ok:
  assumes ok: "placed c Q s" and p: "p < length (proctab s)" "p \<noteq> proc_sched c \<or> runout s = 0 \<and> runin s = 0"
    and st: "p_stat (pr s p) \<in> {SONPROC, SRUN, SSLEEP}"
  shows "\<exists>R t. stop p why what s = Some t \<and> placed c R t \<and> only {p} s t \<and> p_stat (pr t p) = SSTOP"
proof -
  note D = placedD [OF ok]
  from dispdeq_core [OF D(1) p(1) D(2) [OF p(1)]] obtain R u where u: "dispdeq p s = Some (p_stat (pr s p) = SRUN, u)" "tuned c R p s u"
    "\<forall>i. p \<notin> set (R (Dq i))" "\<forall>i. p \<in> set (R (Sq i)) \<longleftrightarrow> p \<in> set (Q (Sq i))"
    "\<forall>x k. x \<noteq> p \<longrightarrow> (x \<in> set (R k) \<longleftrightarrow> x \<in> set (Q k))" by blast
  have lu: "p < length (proctab u)" using p tunedD(6) [OF u(2)] by simp
  define f :: "proc \<Rightarrow> proc" where "f = (\<lambda>x. x\<lparr>p_stat := SSTOP, p_flag := p_flag x AND NOT (SPSTART OR SXSTART), p_whystop := u16 why, p_whatstop := u16 what\<rparr>)"
  define v where "v = upd_proc p f u"
  have v: "v = upd_proc p (\<lambda>x. x\<lparr>p_whystop := u16 why, p_whatstop := u16 what\<rparr>)
      (set_flag p (\<lambda>f. f AND NOT (SPSTART OR SXSTART)) (set_stat p SSTOP u))"
    using lu by (simp add: v_def f_def upd_proc_def set_flag_def set_stat_def)
  have cv: "core c R v" unfolding v_def
    by (rule core_proc [OF tunedD(1) [OF u(2)] lu]) (use u(3) coreD(4) [OF tunedD(1) [OF u(2)] lu] in \<open>auto simp: f_def proc_ok_def\<close>)
  have ov: "only {p} s v" unfolding v_def by (rule only_upd [OF tunedD(2) [OF u(2)]])
  have pv: "pr v p = f (pr u p)" using lu by (simp add: v_def pr_upd)
  have lv: "p < length (proctab v)" using lu by (simp add: v_def)
  define t where "t = CL_STOP p v"
  have t: "tuned c R p v t" unfolding t_def by (rule CL_STOP_tuned [OF tuned_refl [OF cv] lv])
  note T = tunedD [OF t]
  have ot: "only {p} s t" by (rule only_trans [OF ov T(2)])
  have stat: "p_stat (pr t p) = SSTOP" "p_wchan (pr t p) = p_wchan (pr s p)" "idents (pr t p) = idents (pr s p)"
    using T(3-5) tunedD(4,5) [OF u(2)] by (simp_all add: pv f_def)
  have r: "runout t = runout s" "runin t = runin s" using ot by (simp_all add: only_def same_rest_def)
  have "placed c R t"
  proof (rule placed_one [OF ok T(1) only_wakes [OF ot] p(1)])
    show "at_home R p (pr t p)" using D(2) [OF p(1)] u(3,4) stat st by (auto simp: at_home_def)
    show "own_chans c (pr t p)" using own_chans_idents [OF stat(3)] D(3) [OF p(1)] by simp
  qed (use u(5) stat(1) p(2) r in auto)
  moreover have "stop p why what s = Some t" unfolding stop_def u(1) t_def v by simp
  ultimately show ?thesis using ot stat(1) by blast
qed

text \<open>Wake-ups leave a stopped or dead process in its state.\<close>

definition quiet_for :: "sched_conf \<Rightarrow> nat \<Rightarrow> sched \<Rightarrow> sched \<Rightarrow> bool" where
  "quiet_for c p s t \<longleftrightarrow> (\<exists>R. placed c R t) \<and> p_stat (pr t p) = p_stat (pr s p) \<and> idents (pr t p) = idents (pr s p) \<and> wakes (may_run s) s t"

lemma quiet_for_refl: "placed c Q s \<Longrightarrow> quiet_for c p s s"
  by (auto simp: quiet_for_def)

lemma quiet_for_trans: "quiet_for c p s t \<Longrightarrow> quiet_for c p t u \<Longrightarrow> quiet_for c p s u"
  unfolding quiet_for_def using wakes_chain by auto

lemma quiet_for_wakeprocs:
  assumes ok: "placed c Q s" and p: "p < length (proctab s)" "p_stat (pr s p) \<in> {SSTOP, SZOMB}"
    and chan: "chan \<notin> {runin_chan c, runout_chan c}"
  shows "\<exists>t. wakeprocs c chan prmpt s = Some t \<and> quiet_for c p s t"
proof -
  have ch: "chan = runout_chan c \<Longrightarrow> runout s = 0" "chan = runin_chan c \<Longrightarrow> runin s = 0" using chan by simp_all
  from wakeprocs_ok [OF ok ch, where prmpt = prmpt] obtain R t where t: "wakeprocs c chan prmpt s = Some t" "placed c R t"
    "wakes (on_chan chan s \<union> waiting_swapper c s) s t" "\<forall>x \<in> on_chan chan s. awake (pr s x) (pr t x)" by blast
  have w: "wakes (may_run s) s t"
    by (rule wakes_mono [OF t(3)]) (use on_chan_may_run [OF ok] swapper_may_run [OF ok] in blast)
  have "p_stat (pr t p) = p_stat (pr s p) \<and> idents (pr t p) = idents (pr s p)"
  proof (cases "p \<in> on_chan chan s")
    case True
    then have a: "awake (pr s p) (pr t p)" using t(4) by blast
    have "idents (pr t p) = idents (pr s p)" using arg_cong [OF a [unfolded awake_def], of idents] by simp
    then show ?thesis using awakeD(1) [OF a] p(2) by auto
  next
    case False
    have "p \<notin> waiting_swapper c s" using placedD(7) [OF ok] p(2) by (auto simp: waiting_swapper_def)
    then have b: "bare (pr t p) = bare (pr s p)" using wakesD(5) [OF t(3) p(1)] False by blast
    show ?thesis using bare_eqD(1) [OF b] arg_cong [OF b, of idents] by simp
  qed
  then show ?thesis using t(1,2) w by (auto simp: quiet_for_def)
qed

lemma quiet_for_next:
  assumes "quiet_for c p s t" "p < length (proctab s)" "p_stat (pr s p) \<in> {SSTOP, SZOMB}" "chan \<notin> {runin_chan c, runout_chan c}"
  shows "\<exists>u. wakeprocs c chan prmpt t = Some u \<and> quiet_for c p s u"
proof -
  obtain R where R: "placed c R t" "p_stat (pr t p) = p_stat (pr s p)" "wakes (may_run s) s t" using assms(1) by (auto simp: quiet_for_def)
  have "p < length (proctab t)" using assms(2) wakesD(1) [OF R(3)] by simp
  from quiet_for_wakeprocs [OF R(1) this _ assms(4), of prmpt] assms(3) R(2) obtain u where "wakeprocs c chan prmpt t = Some u" "quiet_for c p t u"
    by auto
  then show ?thesis using quiet_for_trans [OF assms(1)] by blast
qed

lemma quiet_for_chans:
  assumes "quiet_for c p s t" "p < length (proctab s)"
  shows "p_addr (pr t p) \<notin> {runin_chan c, runout_chan c}" "p_parent (pr t p) \<notin> {runin_chan c, runout_chan c}"
    "p_trace (pr t p) \<notin> {runin_chan c, runout_chan c}"
proof -
  obtain R where "placed c R t" "wakes (may_run s) s t" using assms(1) by (auto simp: quiet_for_def)
  then have "own_chans c (pr t p)" using placedD(3) wakesD(1) assms(2) by metis
  then show "p_addr (pr t p) \<notin> {runin_chan c, runout_chan c}" "p_parent (pr t p) \<notin> {runin_chan c, runout_chan c}"
    "p_trace (pr t p) \<notin> {runin_chan c, runout_chan c}" by (simp_all add: own_chans_def)
qed

lemma quiet_for_upd:
  assumes k: "quiet_for c p s t" and p: "p < length (proctab s)" "p_stat (pr s p) = SSTOP"
    and f: "\<And>x. p_link (f x) = p_link x" "\<And>x. p_stat (f x) = p_stat x" "\<And>x. p_pri (f x) = p_pri x" "\<And>x. p_wchan (f x) = p_wchan x"
      "\<And>x. idents (f x) = idents x" "\<And>x. p_clproc (f x) = p_clproc x"
  shows "quiet_for c p s (upd_proc p f t)"
proof -
  obtain R where R: "placed c R t" "p_stat (pr t p) = SSTOP" "wakes (may_run s) s t" "idents (pr t p) = idents (pr s p)"
    using k p(2) by (auto simp: quiet_for_def)
  have lt: "p < length (proctab t)" using p wakesD(1) [OF R(3)] by simp
  have "placed c R (upd_proc p f t)"
    by (rule placed_upd [OF R(1) lt]) (use f R(2) coreD(4) [OF placedD(1) [OF R(1)] lt] in \<open>simp_all add: proc_ok_def\<close>)
  moreover have "wakes (may_run t) t (upd_proc p f t)"
    by (rule wakes_mono [OF only_wakes [OF only_proc]]) (use R(2) lt in \<open>simp add: may_run_def\<close>)
  ultimately show ?thesis using wakes_chain [OF R(3)] R(2,4) p(2) f(2,5) lt by (auto simp: quiet_for_def pr_upd)
qed

lemma sigcld_wakes_ok:
  assumes k: "quiet_for c p s t" and p: "p < length (proctab s)" "p_stat (pr s p) \<in> {SSTOP, SZOMB}"
  shows "\<exists>u. sigcld_wakes c p t = Some u \<and> quiet_for c p s u"
proof (cases "p_wcode (pr t p) \<in> {CLD_EXITED, CLD_KILLED, CLD_DUMPED, CLD_STOPPED, CLD_CONTINUED}")
  case True
  from quiet_for_next [OF k p quiet_for_chans(1) [OF k p(1)]] obtain u where u: "wakeprocs c (p_addr (pr t p)) True t = Some u" "quiet_for c p s u" by blast
  from quiet_for_next [OF u(2) p quiet_for_chans(2) [OF u(2) p(1)]] obtain v where "wakeprocs c (p_parent (pr u p)) True u = Some v" "quiet_for c p s v"
    by blast
  then show ?thesis using True u(1) by (simp add: sigcld_wakes_def)
qed (use k in \<open>simp add: sigcld_wakes_def\<close>)

lemma stop_debugger_ok:
  assumes k: "quiet_for c p s t" and p: "p < length (proctab s)" "p_stat (pr s p) = SSTOP"
  shows "\<exists>u. stop_debugger c p why t = Some u \<and> quiet_for c p s u"
proof -
  define v where "v = (if why \<noteq> PR_SIGNALLED then set_flag p (\<lambda>f. f OR SXSTART) t else t)"
  have v: "quiet_for c p s v" using quiet_for_upd [OF k p] k by (simp add: v_def set_flag_def)
  define w where "w = set_flag p (\<lambda>f. f AND NOT SPRSTOP) v"
  have w: "quiet_for c p s w" unfolding w_def set_flag_def by (rule quiet_for_upd [OF v p]) simp_all
  have st: "p_stat (pr s p) \<in> {SSTOP, SZOMB}" using p(2) by simp
  have e: "stop_debugger c p why t = (if p_trace (pr w p) \<noteq> 0 then wakeprocs c (p_trace (pr w p)) True w else Some w)"
    by (simp only: stop_debugger_def Let_def v_def w_def)
  show ?thesis unfolding e using quiet_for_next [OF w p(1) st quiet_for_chans(3) [OF w p(1)], of True] w by simp
qed

lemma stop_notify_ok:
  assumes ok: "placed c Q s" and p: "p < length (proctab s)" "p_stat (pr s p) = SSTOP"
  shows "\<exists>t. stop_notify c p why what firststop held s = Some t \<and> quiet_for c p s t"
proof -
  note k = quiet_for_refl [OF ok, of p]
  have st: "p_stat (pr s p) \<in> {SSTOP, SZOMB}" using p(2) by simp
  have j: "quiet_for c p s (upd_proc p (\<lambda>x. x\<lparr>p_flag := p_flag x OR SPSTART, p_wcode := CLD_STOPPED, p_wdata := what\<rparr>) s)"
    by (rule quiet_for_upd [OF k p]) simp_all
  define a where "a = upd_proc p (\<lambda>x. x\<lparr>p_wcode := CLD_TRAPPED, p_wdata := what\<rparr>) s"
  have a: "quiet_for c p s a" unfolding a_def by (rule quiet_for_upd [OF k p]) simp_all
  from quiet_for_next [OF a p(1) st quiet_for_chans(2) [OF a p(1)]] obtain b where b: "wakeprocs c (p_parent (pr a p)) True a = Some b" "quiet_for c p s b"
    by blast
  from quiet_for_next [OF b(2) p(1) st quiet_for_chans(1) [OF b(2) p(1)]] obtain d where d: "wakeprocs c (p_addr (pr b p)) True b = Some d" "quiet_for c p s d"
    by blast
  have x: "quiet_for c p s (set_flag p (\<lambda>f. f OR SXSTART) s)" unfolding set_flag_def by (rule quiet_for_upd [OF k p]) simp_all
  have y: "quiet_for c p s (set_flag p (\<lambda>f. f OR SPSTART) d)" unfolding set_flag_def by (rule quiet_for_upd [OF d(2) p]) simp_all
  show ?thesis
  proof (cases "why = PR_JOBCONTROL")
    case True
    then show ?thesis using sigcld_wakes_ok [OF j p(1) st] by (simp add: stop_notify_def)
  next
    case n1: False
    show ?thesis
    proof (cases "why = PR_SIGNALLED \<and> p_flag (pr s p) AND STRC \<noteq> 0")
      case True
      have "stop_notify c p why what firststop held s
          = (if \<not> firststop \<or> \<not> held then Some (set_flag p (\<lambda>f. f OR SPSTART) d) else stop_debugger c p why d)"
        using True n1 b(1) d(1) by (simp add: stop_notify_def Let_def a_def)
      then show ?thesis using y stop_debugger_ok [OF d(2) p] by simp
    next
      case False
      then show ?thesis using n1 stop_debugger_ok [OF x p] stop_debugger_ok [OF k p] by (auto simp: stop_notify_def)
    qed
  qed
qed


text \<open>The current process has left its place on the processor.\<close>

lemma switch_away:
  assumes ok: "placed c Q s" and st: "p_stat (pr s (curproc s)) \<noteq> SONPROC" and idle: "idleswtch s = 0"
  shows "\<exists>t. pswtch c s = Some t \<and> sched_ok c t"
proof -
  have "off_cpu s" using placedD(4) [OF ok] st by (auto simp: off_cpu_def)
  then show ?thesis using ok st idle by (intro pswtch_ok [where Q = Q]) simp_all
qed

lemma stop_and_switch_ok:
  assumes ok: "placed c Q s" and idle: "idleswtch s = 0" and st: "p_stat (pr s (curproc s)) \<in> {SONPROC, SSLEEP}"
    and sw: "curproc s = proc_sched c \<longrightarrow> runout s = 0 \<and> runin s = 0"
  shows "\<exists>t. stop_and_switch c why what firststop held s = Some t \<and> sched_ok c t"
proof -
  define p where "p = curproc s"
  have p: "p < length (proctab s)" using placedD(5) [OF ok] by (simp add: p_def)
  from stop_ok [OF ok p, where why = why and what = what] st sw obtain R u where u: "stop p why what s = Some u" "placed c R u" "only {p} s u" "p_stat (pr u p) = SSTOP"
    by (auto simp: p_def)
  have lu: "p < length (proctab u)" using p only_len [OF u(3)] by simp
  from stop_notify_ok [OF u(2) lu u(4)] obtain v where v: "stop_notify c p why what firststop held u = Some v" "quiet_for c p u v" by blast
  then obtain S where S: "placed c S v" "p_stat (pr v p) = SSTOP" "wakes (may_run u) u v" using u(4) by (auto simp: quiet_for_def)
  have g: "curproc v = p" "idleswtch v = 0" using wakesD(2,3) [OF S(3)] u(3) idle by (simp_all add: only_def same_rest_def p_def)
  have "\<exists>t. pswtch c v = Some t \<and> sched_ok c t" by (rule switch_away [OF S(1)]) (use S(2) g in simp_all)
  then show ?thesis using u(1) v(1) by (simp add: stop_and_switch_def Let_def p_def)
qed

lemma sched_ok_schedulable_flag:
  assumes ok: "sched_ok c s" and p: "p < length (proctab s)" and f: "\<And>x. schedulable (x\<lparr>p_flag := f (p_flag x)\<rparr>) = schedulable x"
  shows "sched_ok c (set_flag p f s)"
proof -
  obtain Q where Q: "placed c Q s" using ok by (auto simp: sched_ok_def)
  have "placed c Q (set_flag p f s)" unfolding set_flag_def
    by (rule placed_upd [OF Q p]) (use f coreD(4) [OF placedD(1) [OF Q] p] in \<open>simp_all add: proc_ok_def\<close>)
  then show ?thesis by (rule sched_ok_placed [OF ok _ set_flag_simps(1)]) (use p in \<open>simp add: set_flag_def pr_upd\<close>)
qed

lemma stop_sleeper_ok:
  assumes ok: "sched_ok c s" and p: "p < length (proctab s)" "p \<noteq> proc_sched c" and cur: "idleswtch s \<noteq> 0 \<longrightarrow> p \<noteq> curproc s"
  shows "\<exists>t. stop_sleeper c p firststop held s = Some t \<and> sched_ok c t"
proof -
  obtain Q where Q: "placed c Q s" using ok by (auto simp: sched_ok_def)
  have "schedulable (x\<lparr>p_flag := p_flag x OR SPRSTOP\<rparr>) = schedulable x" for x
    by (simp add: schedulable_def SPRSTOP_def SLOAD_def SPROCIO_def SSYS_def word_bw_assocs bit.conj_disj_distrib2)
  then have a: "sched_ok c (set_flag p (\<lambda>f. f OR SPRSTOP) s)" by (rule sched_ok_schedulable_flag [OF ok p(1)])
  show ?thesis
  proof (cases "p_stat (pr s p) = SSLEEP \<and> p_flag (pr s p) AND (SNWAKE OR SNOSTOP) = 0")
    case False
    then show ?thesis using a ok by (auto simp: stop_sleeper_def)
  next
    case True
    from stop_ok [OF Q p(1), where why = PR_REQUESTED and what = 0] True p(2) obtain R u where u: "stop p PR_REQUESTED 0 s = Some u" "placed c R u" "only {p} s u" "p_stat (pr u p) = SSTOP"
      by auto
    have lu: "p < length (proctab u)" using p only_len [OF u(3)] by simp
    from stop_notify_ok [OF u(2) lu u(4)] obtain v where v: "stop_notify c p PR_REQUESTED 0 firststop held u = Some v" "quiet_for c p u v" by blast
    have w: "quiet_for c p u (set_flag p (\<lambda>f. f OR SASLEEP) v)" unfolding set_flag_def by (rule quiet_for_upd [OF v(2) lu u(4)]) simp_all
    then obtain S where S: "placed c S (set_flag p (\<lambda>f. f OR SASLEEP) v)" "wakes (may_run u) u (set_flag p (\<lambda>f. f OR SASLEEP) v)"
      by (auto simp: quiet_for_def)
    have pm: "{p} \<subseteq> may_run s" using True p by (auto simp: may_run_def)
    have ws: "wakes (may_run s) s (set_flag p (\<lambda>f. f OR SASLEEP) v)"
      using wakes_chain [OF wakes_mono [OF only_wakes [OF u(3)] pm]] S(2) by blast
    have nc: "idleswtch s = 0 \<Longrightarrow> curproc s \<notin> may_run s" using ok by (auto simp: may_run_def sched_ok_def)
    have "sched_ok c (set_flag p (\<lambda>f. f OR SASLEEP) v)" by (rule sched_ok_wakes [OF ok Q S(1) ws nc])
    then show ?thesis using True u(1) v(1) by (simp add: stop_sleeper_def)
  qed
qed

section \<open>Death\<close>

lemma exit_sched_ok:
  assumes ok: "sched_ok c s" and idle: "idleswtch s = 0"
  shows "\<exists>t. exit_sched c why what s = Some t \<and> sched_ok c t"
proof -
  define p where "p = curproc s"
  obtain Q where Q: "placed c Q s" "p_stat (pr s p) = SONPROC" "p_wchan (pr s p) = 0" "\<not> queued Q p"
    "proc_sched c = p \<longrightarrow> runout s = 0 \<and> runin s = 0" using ok idle unfolding p_def by (rule sched_okE)
  note D = placedD [OF Q(1)]
  have p: "p < length (proctab s)" using D(5) by (simp add: p_def)
  define f :: "proc \<Rightarrow> proc" where "f = (\<lambda>x. x\<lparr>p_stat := SZOMB, p_wcode := signed_take_bit 7 why, p_wdata := what\<rparr>)"
  define z where "z = upd_proc p f s"
  have pz: "pr z p = f (pr s p)" "p < length (proctab z)" using p by (simp_all add: z_def pr_upd)
  have cz: "core c Q z" unfolding z_def
    by (rule core_proc [OF D(1) p]) (use coreD(4) [OF D(1) p] in \<open>auto simp: f_def proc_ok_def schedulable_def\<close>)
  have oz: "only {p} s z" unfolding z_def by (rule only_proc)
  have nz: "p_stat (pr z p) \<noteq> SONPROC" "runout z = runout s" "runin z = runin s" by (simp_all add: pz f_def) (simp_all add: z_def)
  have plz: "placed c Q z"
  proof (rule placed_one [OF Q(1) cz only_wakes [OF oz] p refl])
    show "at_home Q p (pr z p)" by (rule at_home_freeI [OF Q(4)]) (use Q(3) in \<open>simp_all add: pz f_def\<close>)
    show "own_chans c (pr z p)" using own_chans_idents [of "pr z p" "pr s p" c] D(3) [OF p] by (simp add: pz f_def)
  qed (use Q(5) nz in auto)
  have sz: "p_stat (pr z p) = SZOMB" "p_stat (pr z p) \<in> {SSTOP, SZOMB}" by (simp_all add: pz f_def)
  note k = quiet_for_refl [OF plz, of p]
  have "\<exists>a. (if p_trace (pr z p) \<noteq> 0 then wakeprocs c (p_trace (pr z p)) True z else Some z) = Some a \<and> quiet_for c p z a"
    using quiet_for_next [OF k pz(2) sz(2) quiet_for_chans(3) [OF k pz(2)], of True] k by simp
  then obtain a where a: "(if p_trace (pr z p) \<noteq> 0 then wakeprocs c (p_trace (pr z p)) True z else Some z) = Some a" "quiet_for c p z a" by blast
  from sigcld_wakes_ok [OF a(2) pz(2) sz(2)] obtain b where b: "sigcld_wakes c p a = Some b" "quiet_for c p z b" by blast
  then obtain S where S: "placed c S b" "p_stat (pr b p) = SZOMB" "wakes (may_run z) z b" using sz(1) by (auto simp: quiet_for_def)
  have g: "curproc b = p" "idleswtch b = 0" using wakesD(2,3) [OF S(3)] idle by (simp_all add: z_def p_def)
  define e where "e = CL_EXITCLASS p b"
  have "\<exists>ts rs. e = b\<lparr>ts_plist := ts, rt_plist := rs\<rparr> \<and> set ts \<subseteq> set (ts_plist b)"
  proof (cases "p_clproc (pr b p)")
    case SysClass
    then show ?thesis by (intro exI [of _ "ts_plist b"] exI [of _ "rt_plist b"]) (simp add: e_def CL_EXITCLASS_def)
  next
    case (TsClass t)
    then show ?thesis
      by (intro exI [of _ "remove1 p (ts_plist b)"] exI [of _ "rt_plist b"])
        (simp add: e_def CL_EXITCLASS_def ts_exitclass_def set_remove1_subset)
  next
    case (RtClass r)
    then show ?thesis
      by (intro exI [of _ "ts_plist b"] exI [of _ "remove1 p (rt_plist b)"]) (simp add: e_def CL_EXITCLASS_def rt_exitclass_def)
  qed
  then obtain ts rs where e: "e = b\<lparr>ts_plist := ts, rt_plist := rs\<rparr>" "set ts \<subseteq> set (ts_plist b)" by blast
  have "core c S e" by (rule core_globals [OF placedD(1) [OF S(1)]]) (simp_all add: e(1))
  then have pe: "placed c S e" using S(1) e(2) unfolding placed_def by (auto simp: e(1))
  have "\<exists>t. pswtch c e = Some t \<and> sched_ok c t" by (rule switch_away [OF pe]) (use S(2) g in \<open>simp_all add: e(1)\<close>)
  moreover have "exit_sched c why what s = (do { s \<leftarrow> (if p_trace (pr z p) \<noteq> 0 then wakeprocs c (p_trace (pr z p)) True z else Some z);
        s \<leftarrow> sigcld_wakes c p s; pswtch c (CL_EXITCLASS p s) })"
    by (simp only: exit_sched_def Let_def p_def [symmetric] f_def [symmetric] z_def [symmetric])
  ultimately show ?thesis using a(1) b(1) by (simp add: e_def)
qed

end
