(* ===== verification/Sched_Swaps.thy ===== *)
theory Sched_Swaps
  imports Sched_Lives
begin

text \<open>
  The swapper and \<open>/proc\<close> change the flags of a process that may be on a dispatcher queue, and keep the
  counts of the dispatcher queues right; and what sets the swapper running.
\<close>

unbundle bit_operations_syntax

section \<open>The flags that count\<close>

lemma two_bits:
  fixes f :: bits
  assumes "m < 32" "n < 32" "m \<noteq> n"
  shows "f AND (2 ^ m OR 2 ^ n) = 2 ^ m \<longleftrightarrow> bit f m \<and> \<not> bit f n"
proof
  assume e: "f AND (2 ^ m OR 2 ^ n) = 2 ^ m"
  show "bit f m \<and> \<not> bit f n"
    using arg_cong [OF e, of "\<lambda>w. bit w m"] arg_cong [OF e, of "\<lambda>w. bit w n"] assms by (simp add: bit_simps)
qed (auto simp: bit_simps intro!: bit_eqI)

lemma schedulable_bits: "schedulable x \<longleftrightarrow> p_flag x AND SLOAD \<noteq> 0 \<and> p_flag x AND SPROCIO = 0 \<or> p_flag x AND SSYS \<noteq> 0"
proof -
  have one: "f AND 2 ^ n = 0 \<longleftrightarrow> \<not> bit f n" for f :: bits and n using and_exp_eq_0_iff_not_bit [of f n] .
  have two: "f AND (2 ^ 4 OR 2 ^ 10) = 2 ^ 4 \<longleftrightarrow> bit f 4 \<and> \<not> bit f 10" for f :: bits by (rule two_bits) simp_all
  have m: "SLOAD = 2 ^ 4" "SPROCIO = 2 ^ 10" by (simp_all add: SLOAD_def SPROCIO_def)
  show ?thesis unfolding schedulable_def m two one by simp
qed

lemma flag_masks:
  "SLOAD \<noteq> 0" "SPROCIO \<noteq> 0" "(f OR SLOAD) AND SLOAD \<noteq> 0" "(f OR SLOAD) AND SPROCIO = f AND SPROCIO" "(f OR SLOAD) AND SSYS = f AND SSYS"
  "(f AND NOT SLOAD) AND SLOAD = 0" "(f AND NOT SLOAD) AND SPROCIO = f AND SPROCIO" "(f AND NOT SLOAD) AND SSYS = f AND SSYS"
  "(f OR SPROCIO) AND SLOAD = f AND SLOAD" "(f OR SPROCIO) AND SPROCIO \<noteq> 0" "(f OR SPROCIO) AND SSYS = f AND SSYS"
  "(f AND NOT SPROCIO) AND SLOAD = f AND SLOAD" "(f AND NOT SPROCIO) AND SPROCIO = 0" "(f AND NOT SPROCIO) AND SSYS = f AND SSYS"
proof -
  show "SLOAD \<noteq> 0" "SPROCIO \<noteq> 0" "(f OR SLOAD) AND SLOAD \<noteq> 0" "(f OR SPROCIO) AND SPROCIO \<noteq> 0"
    by (simp_all add: SLOAD_def SPROCIO_def word_bw_comms bit.conj_disj_distrib)
qed (simp_all add: SLOAD_def SPROCIO_def SSYS_def word_bw_assocs bit.conj_disj_distrib2)

lemma flag_load_sys: "f AND (SLOAD OR SSYS) = SLOAD \<longleftrightarrow> f AND SLOAD \<noteq> 0 \<and> f AND SSYS = 0"
proof -
  have one: "f AND 2 ^ n = 0 \<longleftrightarrow> \<not> bit f n" for f :: bits and n using and_exp_eq_0_iff_not_bit [of f n] .
  have two: "f AND (2 ^ 4 OR 2 ^ 0) = 2 ^ 4 \<longleftrightarrow> bit f 4 \<and> \<not> bit f 0" for f :: bits by (rule two_bits) simp_all
  have m: "SLOAD = 2 ^ 4" "SSYS = 2 ^ 0" by (simp_all add: SLOAD_def SSYS_def)
  show ?thesis unfolding m two one by simp
qed

section \<open>A process on a queue is counted, or no longer\<close>

lemma recount:
  assumes ok: "disp_ok Q s" and q: "p \<in> set (Q (Dq i))" and f: "p_link (f (pr s p)) = p_link (pr s p)" "p_pri (f (pr s p)) = p_pri (pr s p)"
  shows "\<not> schedulable (pr s p) \<Longrightarrow> schedulable (f (pr s p)) \<Longrightarrow> disp_ok Q (dq_sruninc (int i) (upd_proc p f s))"
    "schedulable (pr s p) \<Longrightarrow> \<not> schedulable (f (pr s p)) \<Longrightarrow> disp_ok Q (dq_srundec (int i) (upd_proc p f s))"
proof -
  note D = disp_okD [OF ok] and L = links_okD [OF disp_okD(1) [OF ok]]
  have p: "p < length (proctab s)" and i: "i < nglobpris s" using L(5,6) [OF q] D(4) by simp_all
  define u where "u = upd_proc p f s"
  have pu: "pr u x = (if x = p then f (pr s p) else pr s x)" for x using p by (simp add: u_def pr_upd)
  have lu: "links_ok Q u" by (rule links_ok_cong [OF D(1)]) (simp_all add: u_def nxt_def pr_upd p f)
  have cu: "counts_ok (runcnt Q s) u" by (rule counts_cong [OF D(2)]) (simp_all add: u_def)
  have pri: "p_pri (pr u x) = int j" if "x \<in> set (Q (Dq j))" for x j using D(3) [OF that] f(2) by (auto simp: pu)
  obtain A B where q': "Q (Dq i) = A @ p # B" using q by (meson split_list)
  then have nin: "p \<notin> set A" "p \<notin> set B" using L(3) [of "Dq i"] by simp_all
  have other: "runcnt Q u j = runcnt Q s j" if "j \<noteq> i" for j
  proof -
    have "p \<notin> set (Q (Dq j))" using L(4) [of "Dq i" "Dq j" p] q that by simp
    then have "filter (\<lambda>x. schedulable (pr u x)) (Q (Dq j)) = filter (\<lambda>x. schedulable (pr s x)) (Q (Dq j))"
      by (intro filter_cong) (auto simp: pu)
    then show ?thesis by (simp add: runcnt_def)
  qed
  have AB: "filter (\<lambda>x. schedulable (pr u x)) A = filter (\<lambda>x. schedulable (pr s x)) A"
    "filter (\<lambda>x. schedulable (pr u x)) B = filter (\<lambda>x. schedulable (pr s x)) B"
    using nin by (auto intro!: filter_cong simp: pu)
  have at: "runcnt Q u i + (if schedulable (pr s p) then 1 else 0) = runcnt Q s i + (if schedulable (f (pr s p)) then 1 else 0)"
    by (simp add: runcnt_def q' AB) (simp add: pu)
  { assume n: "\<not> schedulable (pr s p)" "schedulable (f (pr s p))"
    have "runcnt Q u = (runcnt Q s)(i := runcnt Q s i + 1)" using other at n by (auto simp: fun_eq_iff)
    moreover have "counts_ok ((runcnt Q s)(i := runcnt Q s i + 1)) (dq_sruninc (int i) u)"
      by (rule counts_sruninc [OF cu]) (simp add: u_def i)
    moreover have "runcnt Q (dq_sruninc (int i) u) = runcnt Q u" by (simp add: runcnt_def fun_eq_iff)
    ultimately show "disp_ok Q (dq_sruninc (int i) (upd_proc p f s))"
      using lu pri unfolding u_def [symmetric] by (simp add: disp_ok_def) }
  { assume n: "schedulable (pr s p)" "\<not> schedulable (f (pr s p))"
    have "runcnt Q u = (runcnt Q s)(i := runcnt Q s i - 1)" "0 < runcnt Q s i" using other at n by (auto simp: fun_eq_iff)
    moreover from this(2) have "counts_ok ((runcnt Q s)(i := runcnt Q s i - 1)) (dq_srundec (int i) u)"
      by (rule counts_srundec [OF cu])
    moreover have "runcnt Q (dq_srundec (int i) u) = runcnt Q u" by (simp add: runcnt_def fun_eq_iff)
    ultimately show "disp_ok Q (dq_srundec (int i) (upd_proc p f s))"
      using lu pri unfolding u_def [symmetric] by (simp add: disp_ok_def) }
qed

lemma recounted_kept:
  assumes ok: "placed c Q s" and p: "p < length (proctab s)" and f: "p_stat (f (pr s p)) = p_stat (pr s p)" "p_pri (f (pr s p)) = p_pri (pr s p)"
    "p_wchan (f (pr s p)) = p_wchan (pr s p)" "idents (f (pr s p)) = idents (pr s p)" "class_ok c (p_clproc (f (pr s p)))"
    and t: "disp_ok Q t" "disp_same (upd_proc p f s) t"
  shows "kept c p s t"
proof -
  note D = placedD [OF ok] and T = disp_sameD [OF t(2)]
  have len: "length (proctab t) = length (proctab s)" using same_procs_len [OF T(1)] by simp
  have b: "bare (pr t x) = bare (pr (upd_proc p f s) x)" if "x < length (proctab s)" for x
    using same_procs_bare [OF T(1)] that by simp
  have pt: "bare (pr t p) = bare (f (pr s p))" "idents (pr t p) = idents (pr s p)"
    using b [OF p] arg_cong [OF b [OF p], of idents, unfolded idents_simps] p f(4) by (simp_all add: pr_upd)
  note B = bare_eqD [OF pt(1)]
  have other: "bare (pr t x) = bare (pr s x)" if "x < length (proctab s)" "x \<noteq> p" for x using b [OF that(1)] that(2) p by (simp add: pr_upd)
  have "core c Q t"
    unfolding core_def
  proof (intro conjI allI impI)
    show "conf_ok c t" by (rule conf_ok_cong [OF coreD(1) [OF D(1)]]) (simp_all add: T len)
    show "length (slpqs t) = NSLEEPQ" using coreD(3) [OF D(1)] T by simp
    fix x assume "x < length (proctab t)"
    then have x: "x < length (proctab s)" using len by simp
    show "proc_ok c t x"
    proof (cases "x = p")
      case True
      then show ?thesis using coreD(4) [OF D(1) p] f(2,5) B T(3) by (simp add: proc_ok_def)
    next
      case False
      then show ?thesis using coreD(4) [OF D(1) x] bare_eqD [OF other [OF x]] T(3) by (simp add: proc_ok_def)
    qed
  qed (fact t(1))
  moreover have "only {p} s t" unfolding only_def same_rest_def using T len other by simp
  ultimately have tn: "tuned c Q p s t" using B f pt(2) by (simp add: tuned_def)
  have "at_home Q p (pr t p)" using D(2) [OF p] B f by (simp add: at_home_def)
  then show ?thesis unfolding kept_def using placed_keep [OF ok tn p refl] tn by blast
qed

text \<open>A change of the flags, with the count of the queue of the process.\<close>

lemma flags_kept:
  assumes ok: "placed c Q s" and p: "p < length (proctab s)" and f: "\<And>x. p_link (f x) = p_link x" "\<And>x. p_stat (f x) = p_stat x"
    "\<And>x. p_pri (f x) = p_pri x" "\<And>x. p_wchan (f x) = p_wchan x" "\<And>x. idents (f x) = idents x" "\<And>x. p_clproc (f x) = p_clproc x"
  shows "p_stat (pr s p) = SRUN \<longrightarrow> schedulable (f (pr s p)) = schedulable (pr s p) \<Longrightarrow> kept c p s (upd_proc p f s)"
    "p_stat (pr s p) = SRUN \<Longrightarrow> \<not> schedulable (pr s p) \<Longrightarrow> schedulable (f (pr s p))
      \<Longrightarrow> kept c p s (dq_sruninc (p_pri (pr s p)) (upd_proc p f s))"
    "p_stat (pr s p) = SRUN \<Longrightarrow> schedulable (pr s p) \<Longrightarrow> \<not> schedulable (f (pr s p))
      \<Longrightarrow> kept c p s (dq_srundec (p_pri (pr s p)) (upd_proc p f s))"
proof -
  note D = placedD [OF ok]
  obtain i where i: "p_pri (pr s p) = int i" using core_pri [OF D(1) p] by blast
  have cl: "class_ok c (p_clproc (f (pr s p)))" using f(6) coreD(4) [OF D(1) p] by (simp add: proc_ok_def)
  have q: "p \<in> set (Q (Dq i))" if "p_stat (pr s p) = SRUN" using D(2) [OF p] that i by (simp add: at_home_def)
  note k = recounted_kept [where f = f, OF ok p f(2,3,4,5) cl]
  note r = recount [where f = f, OF coreD(2) [OF D(1)] q f(1,3)]
  show "kept c p s (upd_proc p f s)" if "p_stat (pr s p) = SRUN \<longrightarrow> schedulable (f (pr s p)) = schedulable (pr s p)"
  proof (rule k)
    show "disp_ok Q (upd_proc p f s)"
      by (rule disp_ok_proc [OF coreD(2) [OF D(1)] p]) (use f that D(2) [OF p] in \<open>auto simp: at_home_def\<close>)
  qed simp
  show "kept c p s (dq_sruninc (p_pri (pr s p)) (upd_proc p f s))"
    if "p_stat (pr s p) = SRUN" "\<not> schedulable (pr s p)" "schedulable (f (pr s p))"
    using k [OF r(1) [OF that] disp_same_inc(1)] by (simp add: i)
  show "kept c p s (dq_srundec (p_pri (pr s p)) (upd_proc p f s))"
    if "p_stat (pr s p) = SRUN" "schedulable (pr s p)" "\<not> schedulable (f (pr s p))"
    using k [OF r(2) [OF that] disp_same_inc(2)] by (simp add: i)
qed


section \<open>The swapper and /proc\<close>

lemma sched_ok_cases:
  assumes "sched_ok c s" obtains Q where "placed c Q s"
  using assms by (auto simp: sched_ok_def)

lemma swapped_in_ok:
  assumes ok: "sched_ok c s" and p: "p < length (proctab s)" "p_flag (pr s p) AND SLOAD = 0" "p_flag (pr s p) AND SSYS = 0"
  shows "sched_ok c (swapped_in p s)"
proof -
  obtain Q where Q: "placed c Q s" using ok by (rule sched_ok_cases)
  define f :: "proc \<Rightarrow> proc" where "f = (\<lambda>x. x\<lparr>p_flag := p_flag x OR SLOAD, p_inoutage := 0\<rparr>)"
  have sch: "\<not> schedulable (pr s p)" "schedulable (f (pr s p)) \<longleftrightarrow> p_flag (pr s p) AND SPROCIO = 0"
    using p(2,3) by (simp_all add: schedulable_bits f_def flag_masks)
  have "swapped_in p s = (if p_stat (pr s p) = SRUN \<and> p_flag (pr s p) AND SPROCIO = 0
      then dq_sruninc (p_pri (pr s p)) (upd_proc p f s) else upd_proc p f s)"
    using p(1) by (simp add: swapped_in_def f_def pr_upd Let_def flag_masks)
  moreover have "p_stat (pr s p) = SRUN \<and> p_flag (pr s p) AND SPROCIO = 0 \<Longrightarrow> kept c p s (dq_sruninc (p_pri (pr s p)) (upd_proc p f s))"
    by (rule flags_kept(2) [OF Q p(1)]) (use sch in \<open>simp_all add: f_def\<close>)
  moreover have "\<not> (p_stat (pr s p) = SRUN \<and> p_flag (pr s p) AND SPROCIO = 0) \<Longrightarrow> kept c p s (upd_proc p f s)"
    by (rule flags_kept(1) [OF Q p(1)]) (use sch in \<open>simp_all add: f_def\<close>)
  ultimately show ?thesis using kept_sched_ok [OF ok] by presburger
qed

lemma swap_out_undone_ok:
  assumes ok: "sched_ok c s" and p: "p < length (proctab s)" "p_flag (pr s p) AND SLOAD = 0" "p_flag (pr s p) AND SSYS = 0"
  shows "sched_ok c (swap_out_undone p s)"
proof -
  obtain Q where Q: "placed c Q s" using ok by (rule sched_ok_cases)
  define f :: "proc \<Rightarrow> proc" where "f = (\<lambda>x. x\<lparr>p_flag := p_flag x OR SLOAD\<rparr>)"
  have sch: "\<not> schedulable (pr s p)" "schedulable (f (pr s p)) \<longleftrightarrow> p_flag (pr s p) AND SPROCIO = 0"
    using p(2,3) by (simp_all add: schedulable_bits f_def flag_masks)
  have "swap_out_undone p s = (if p_stat (pr s p) = SRUN \<and> p_flag (pr s p) AND SPROCIO = 0
      then dq_sruninc (p_pri (pr s p)) (upd_proc p f s) else upd_proc p f s)"
    using p(1) by (simp add: swap_out_undone_def set_flag_def f_def pr_upd Let_def flag_masks)
  moreover have "p_stat (pr s p) = SRUN \<and> p_flag (pr s p) AND SPROCIO = 0 \<Longrightarrow> kept c p s (dq_sruninc (p_pri (pr s p)) (upd_proc p f s))"
    by (rule flags_kept(2) [OF Q p(1)]) (use sch in \<open>simp_all add: f_def\<close>)
  moreover have "\<not> (p_stat (pr s p) = SRUN \<and> p_flag (pr s p) AND SPROCIO = 0) \<Longrightarrow> kept c p s (upd_proc p f s)"
    by (rule flags_kept(1) [OF Q p(1)]) (use sch in \<open>simp_all add: f_def\<close>)
  ultimately show ?thesis using kept_sched_ok [OF ok] by presburger
qed

lemma upd_srundec: "upd_proc p f (dq_srundec n s) = dq_srundec n (upd_proc p f s)"
  by (simp add: dq_srundec_def upd_proc_def Let_def)

lemma swap_flags: "f AND (SLOAD OR SSYS OR SLOCK OR SUSWAP OR SPROCIO OR SSWLOCKS) = SLOAD
    \<Longrightarrow> f AND SLOAD \<noteq> 0 \<and> f AND SPROCIO = 0 \<and> f AND SSYS = 0" for f :: bits
proof -
  let ?m = "SLOAD OR SSYS OR SLOCK OR SUSWAP OR SPROCIO OR SSWLOCKS"
  assume e: "f AND ?m = SLOAD"
  have m: "?m AND SLOAD = SLOAD" "?m AND SPROCIO = SPROCIO" "?m AND SSYS = SSYS"
    by (simp_all add: SLOAD_def SSYS_def SLOCK_def SUSWAP_def SPROCIO_def SSWLOCKS_def)
  have "f AND k = SLOAD AND k" if "?m AND k = k" for k using arg_cong [OF e, of "\<lambda>w. w AND k"] that by (simp only: word_bw_assocs)
  from this [OF m(1)] this [OF m(2)] this [OF m(3)] show ?thesis by (simp add: SLOAD_def SPROCIO_def SSYS_def)
qed

lemma swap_out_ok:
  assumes ok: "sched_ok c s" and p: "p < length (proctab s)"
  shows "sched_ok c (swap_out p unloadok s)"
proof (cases "p_flag (pr s p) AND (SLOAD OR SSYS OR SLOCK OR SUSWAP OR SPROCIO OR SSWLOCKS) = SLOAD")
  case False
  then show ?thesis using ok by (simp add: swap_out_def)
next
  case True
  note fl = swap_flags [OF True]
  obtain Q where Q: "placed c Q s" using ok by (rule sched_ok_cases)
  define f :: "proc \<Rightarrow> proc" where "f = (\<lambda>x. x\<lparr>p_flag := p_flag x AND NOT SLOAD\<rparr>)"
  define g :: "proc \<Rightarrow> proc" where "g = (\<lambda>x. x\<lparr>p_swrss := (case p_as x of Some rss \<Rightarrow> rss div 2 | None \<Rightarrow> 0)\<rparr>)"
  have sch: "schedulable (pr s p)" "\<not> schedulable (f (pr s p))" "schedulable (g x) = schedulable x" for x
    using fl by (simp_all add: schedulable_bits f_def g_def flag_masks)
  define t where "t = (if unloadok then if p_stat (pr s p) = SRUN then dq_srundec (p_pri (pr s p)) (upd_proc p f s) else upd_proc p f s else s)"
  have "kept c p s t"
  proof (cases "unloadok \<and> p_stat (pr s p) = SRUN")
    case True
    have "kept c p s (dq_srundec (p_pri (pr s p)) (upd_proc p f s))"
      by (rule flags_kept(3) [OF Q p]) (use sch True in \<open>simp_all add: f_def\<close>)
    then show ?thesis using True by (simp add: t_def)
  next
    case False
    have "kept c p s (upd_proc p f s)" if "p_stat (pr s p) \<noteq> SRUN" by (rule flags_kept(1) [OF Q p]) (use that in \<open>simp_all add: f_def\<close>)
    then show ?thesis using False kept_refl [OF Q] by (simp add: t_def)
  qed
  then have t: "sched_ok c t" "length (proctab t) = length (proctab s)" using kept_sched_ok [OF ok] tunedD(6) by (auto simp: kept_def)
  obtain R where R: "placed c R t" using t(1) by (rule sched_ok_cases)
  have pt: "p < length (proctab t)" using p t(2) by simp
  have "kept c p t (upd_proc p g t)" by (rule flags_kept(1) [OF R pt]) (simp_all add: sch(3), simp_all add: g_def)
  moreover have "swap_out p unloadok s = upd_proc p g t"
    using True by (simp add: swap_out_def t_def g_def f_def set_flag_def upd_srundec)
  ultimately show ?thesis using kept_sched_ok [OF t(1)] by simp
qed

lemma prlock_hold_ok:
  assumes ok: "sched_ok c s" and p: "p < length (proctab s)" "p_flag (pr s p) AND SPROCIO = 0"
  shows "sched_ok c (prlock_hold p s)"
proof (cases "p = curproc s")
  case True
  then show ?thesis using ok by (simp add: prlock_hold_def)
next
  case False
  obtain Q where Q: "placed c Q s" using ok by (rule sched_ok_cases)
  define f :: "proc \<Rightarrow> proc" where "f = (\<lambda>x. x\<lparr>p_flag := p_flag x OR SPROCIO\<rparr>)"
  have sch: "schedulable (pr s p) \<longleftrightarrow> p_flag (pr s p) AND SLOAD \<noteq> 0 \<or> p_flag (pr s p) AND SSYS \<noteq> 0"
    "schedulable (f (pr s p)) \<longleftrightarrow> p_flag (pr s p) AND SSYS \<noteq> 0"
    using p(2) by (simp_all add: schedulable_bits f_def flag_masks)
  let ?b = "p_stat (pr s p) = SRUN \<and> p_flag (pr s p) AND (SLOAD OR SSYS) = SLOAD"
  have "prlock_hold p s = (if ?b then dq_srundec (p_pri (pr s p)) (upd_proc p f s) else upd_proc p f s)"
    using p(1) False by (simp add: prlock_hold_def set_flag_def f_def pr_upd Let_def flag_load_sys flag_masks)
  moreover have "?b \<Longrightarrow> kept c p s (dq_srundec (p_pri (pr s p)) (upd_proc p f s))"
    by (rule flags_kept(3) [OF Q p(1)]) (use sch in \<open>simp_all add: flag_load_sys\<close>, simp_all add: f_def)
  moreover have "\<not> ?b \<Longrightarrow> kept c p s (upd_proc p f s)"
    by (rule flags_kept(1) [OF Q p(1)]) (use sch in \<open>auto simp: flag_load_sys\<close>, simp_all add: f_def)
  ultimately show ?thesis using kept_sched_ok [OF ok] by presburger
qed

lemma prunlock_free_ok:
  assumes ok: "sched_ok c s" and p: "p < length (proctab s)"
  shows "sched_ok c (prunlock_free p s)"
proof (cases "p_flag (pr s p) AND SPROCIO = 0")
  case True
  then show ?thesis using ok by (simp add: prunlock_free_def)
next
  case False
  obtain Q where Q: "placed c Q s" using ok by (rule sched_ok_cases)
  define f :: "proc \<Rightarrow> proc" where "f = (\<lambda>x. x\<lparr>p_flag := p_flag x AND NOT SPROCIO\<rparr>)"
  have sch: "schedulable (f (pr s p)) \<longleftrightarrow> p_flag (pr s p) AND SLOAD \<noteq> 0 \<or> p_flag (pr s p) AND SSYS \<noteq> 0"
    "schedulable (pr s p) \<longleftrightarrow> p_flag (pr s p) AND SSYS \<noteq> 0"
    using False by (simp_all add: schedulable_bits f_def flag_masks)
  let ?b = "p_stat (pr s p) = SRUN \<and> p_flag (pr s p) AND (SLOAD OR SSYS) = SLOAD"
  define t where "t = dq_sruninc (p_pri (pr s p)) (upd_proc p f s)"
  have "prunlock_free p s = (if ?b then if p_pri (pr s p) > curpri s then bump_runrun t else t else upd_proc p f s)"
    using p(1) False by (simp add: prunlock_free_def set_flag_def f_def pr_upd Let_def flag_load_sys flag_masks t_def)
  moreover have "?b \<Longrightarrow> kept c p s t" unfolding t_def
    by (rule flags_kept(2) [OF Q p(1)]) (use sch in \<open>simp_all add: flag_load_sys\<close>, simp_all add: f_def)
  moreover have "\<not> ?b \<Longrightarrow> kept c p s (upd_proc p f s)"
    by (rule flags_kept(1) [OF Q p(1)]) (use sch in \<open>auto simp: flag_load_sys\<close>, simp_all add: f_def)
  ultimately show ?thesis using kept_sched_ok [OF ok] kept_bump(1) [of c p s t] by presburger
qed


section \<open>The swapper is set running\<close>

lemma swapper_waits:
  assumes ok: "sched_ok c s"
  shows "runin s \<noteq> 0 \<Longrightarrow> runout s = 0" "runin s \<noteq> 0 \<or> runout s \<noteq> 0 \<Longrightarrow> p_stat (pr s (proc_sched c)) = SSLEEP"
    "proc_sched c < length (proctab s)" "0 \<le> runout s"
proof -
  obtain Q where Q: "placed c Q s" using ok by (rule sched_ok_cases)
  note D = placedD [OF Q]
  show "runin s \<noteq> 0 \<Longrightarrow> runout s = 0" using D(8,11,14,15) by force
  show "runin s \<noteq> 0 \<or> runout s \<noteq> 0 \<Longrightarrow> p_stat (pr s (proc_sched c)) = SSLEEP" using D(7,13,15) by force
  show "proc_sched c < length (proctab s)" "0 \<le> runout s" by (fact D(12), fact D(15))
qed

lemma sched_ok_reset: "sched_ok c s \<Longrightarrow> sched_ok c (s\<lparr>runin := 0\<rparr>)" "sched_ok c s \<Longrightarrow> sched_ok c (s\<lparr>runout := 0\<rparr>)"
  unfolding sched_ok_def using runout_zero [of c _ s] by auto

lemma set_swapper:
  assumes ok: "sched_ok c s" and st: "p_stat (pr s (proc_sched c)) = SSLEEP" and z: "runout s = 0" "runin s = 0"
  shows "\<exists>t. setrun c (proc_sched c) s = Some t \<and> sched_ok c t \<and> runout t = 0"
  using setrun_sched_ok [OF ok swapper_waits(3) [OF ok]] st z wakesD(6) by fastforce

lemma clock_swapper_ok:
  assumes ok: "sched_ok c s"
  shows "\<exists>t. clock_swapper c low s = Some t \<and> sched_ok c t"
proof (cases "runin s = 0")
  case False
  then have z: "runout s = 0" "p_stat (pr s (proc_sched c)) = SSLEEP" using swapper_waits [OF ok] by simp_all
  have "\<exists>t. setrun c (proc_sched c) (s\<lparr>runin := 0\<rparr>) = Some t \<and> sched_ok c t \<and> runout t = 0"
    by (rule set_swapper [OF sched_ok_reset(1) [OF ok]]) (simp_all add: z)
  then show ?thesis using False by (auto simp: clock_swapper_def)
next
  case True
  show ?thesis
  proof (cases "low \<and> runout s \<noteq> 0")
    case low: True
    then have z: "p_stat (pr s (proc_sched c)) = SSLEEP" using swapper_waits(2) [OF ok] by simp
    have "\<exists>t. setrun c (proc_sched c) (s\<lparr>runout := 0\<rparr>) = Some t \<and> sched_ok c t \<and> runout t = 0"
      by (rule set_swapper [OF sched_ok_reset(2) [OF ok]]) (simp_all add: z True)
    then show ?thesis using low True by (auto simp: clock_swapper_def)
  qed (use ok True in \<open>auto simp: clock_swapper_def\<close>)
qed

lemma vmmeter_swapper_ok:
  assumes ok: "sched_ok c s"
  shows "\<exists>t. vmmeter_swapper c low s = Some t \<and> sched_ok c t"
proof (cases "low \<and> runout s \<noteq> 0")
  case True
  define z where "z = s\<lparr>runout := 0, runin := 0\<rparr>"
  have "sched_ok c (s\<lparr>runout := 0\<rparr>\<lparr>runin := 0\<rparr>)" using ok by (intro sched_ok_reset)
  then have z: "sched_ok c z" "runout z = 0" "runin z = 0" by (simp_all add: z_def)
  from wakeprocs_sched_ok [OF z(1), of "runin_chan c" True] z(2,3) obtain u where
    u: "wakeprocs c (runin_chan c) True z = Some u" "sched_ok c u" "wakes (may_run z) z u" by blast
  have r: "runout u = 0" "runin u = 0" using wakesD(6,7) [OF u(3)] z by auto
  from wakeprocs_sched_ok [OF u(2), of "runout_chan c" True] r obtain v where
    "wakeprocs c (runout_chan c) True u = Some v" "sched_ok c v" by blast
  then show ?thesis using True u(1) by (simp add: vmmeter_swapper_def z_def)
qed (use ok in \<open>auto simp: vmmeter_swapper_def\<close>)

end
