(* ===== verification/Sched_Births.thy ===== *)
theory Sched_Births
  imports Sched_Swaps
begin

text \<open>
  A process is made by \<open>newproc\<close>, and started.
\<close>

unbundle bit_operations_syntax

section \<open>A new entry of the process table\<close>

lemma placed_plists:
  assumes "placed c Q s"
  shows "set ts \<subseteq> {..<length (proctab s)} \<Longrightarrow> placed c Q (s\<lparr>ts_plist := ts\<rparr>)" "placed c Q (s\<lparr>rt_plist := rs\<rparr>)"
proof -
  have "core c Q (s\<lparr>ts_plist := ts\<rparr>)" "core c Q (s\<lparr>rt_plist := rs\<rparr>)"
    by (rule core_globals [OF placedD(1) [OF assms]]; simp)+
  then show "set ts \<subseteq> {..<length (proctab s)} \<Longrightarrow> placed c Q (s\<lparr>ts_plist := ts\<rparr>)" "placed c Q (s\<lparr>rt_plist := rs\<rparr>)"
    using assms unfolding placed_def by auto
qed

lemma placed_append:
  assumes ok: "placed c Q s" and x: "p_stat x = SIDL" "p_wchan x = 0" "0 \<le> p_pri x" "p_pri x < int (nglobpris s)"
    "class_ok c (p_clproc x)" "own_chans c x"
  defines "t \<equiv> s\<lparr>proctab := proctab s @ [x]\<rparr>"
  shows "placed c Q t"
proof -
  note D = placedD [OF ok] and C = coreD [OF placedD(1) [OF ok]]
  note L = links_okD [OF disp_okD(1) [OF C(2)]]
  have old: "pr t y = pr s y" if "y < length (proctab s)" for y using that by (simp add: t_def nth_append)
  have new: "pr t (length (proctab s)) = x" by (simp add: t_def nth_append)
  have len: "length (proctab t) = Suc (length (proctab s))" by (simp add: t_def)
  have inq: "y \<in> set (Q k) \<Longrightarrow> pr t y = pr s y" for y k using old L(5) by blast
  have "disp_ok Q t"
    by (rule disp_ok_cong [OF C(2)]) (use inq in \<open>auto simp: t_def nxt_def queued_def\<close>)
  moreover have "conf_ok c t" by (rule conf_ok_cong [OF C(1)]) (simp_all add: t_def)
  moreover have "proc_ok c t y" if "y < length (proctab t)" for y
  proof (cases "y < length (proctab s)")
    case True
    then show ?thesis using C(4) [OF True] old by (simp add: proc_ok_def t_def)
  next
    case False
    then have "y = length (proctab s)" using that len by simp
    then show ?thesis using x new by (simp add: proc_ok_def) (simp add: t_def)
  qed
  moreover have "length (slpqs t) = NSLEEPQ" using C(3) by (simp add: t_def)
  ultimately have core: "core c Q t" by (simp add: core_def)
  have nq: "\<not> queued Q (length (proctab s))" using L(5) by (force simp: queued_def)
  have one: "at_home Q y (pr t y) \<and> own_chans c (pr t y) \<and> (p_stat (pr t y) = SONPROC \<longrightarrow> y = curproc t \<and> idleswtch t = 0)"
    if "y < length (proctab t)" for y
  proof (cases "y < length (proctab s)")
    case True
    then show ?thesis using D(2-4) [of y] old by (simp add: t_def)
  next
    case False
    then have "y = length (proctab s)" using that len by simp
    then show ?thesis using x new at_home_freeI [OF nq, of x] by simp
  qed
  have "p_stat (pr t (proc_sched c)) = p_stat (pr s (proc_sched c))" "p_wchan (pr t (proc_sched c)) = p_wchan (pr s (proc_sched c))"
    using old [OF D(12)] by simp_all
  moreover have g: "curproc t = curproc s" "runout t = runout s" "runin t = runin s" "ts_plist t = ts_plist s" by (simp_all add: t_def)
  moreover have "set (ts_plist s) \<subseteq> {..<length (proctab t)}" using D(6) len by fastforce
  ultimately show ?thesis unfolding placed_def using core one D(5,7-11,13-15) len by auto
qed

lemma fork_ok:
  assumes ok: "placed c Q s" and p: "pp < length (proctab s)" "cp < length (proctab s)" "p_stat (pr s cp) = SIDL"
  shows "placed c Q (CL_FORK pp cp s)" "only {cp} (s\<lparr>ts_plist := ts_plist (CL_FORK pp cp s), rt_plist := rt_plist (CL_FORK pp cp s)\<rparr>) (CL_FORK pp cp s)"
proof -
  note D = placedD [OF ok]
  have ne: "p_stat (pr s cp) \<noteq> SRUN" using p(3) by simp
  have u: "placed c Q (upd_proc cp (\<lambda>x. x\<lparr>p_clproc := k\<rparr>) s)" if "class_ok c k" for k
    by (rule placed_upd [OF ok p(2)]) (use that ne in simp_all)
  have cl: "class_ok c (p_clproc (pr s pp))" using coreD(4) [OF D(1) p(1)] by (simp add: proc_ok_def)
  have pl: "placed c Q ((upd_proc cp (\<lambda>x. x\<lparr>p_clproc := k\<rparr>) s)\<lparr>ts_plist := cp # ts_plist s\<rparr>)"
    "placed c Q ((upd_proc cp (\<lambda>x. x\<lparr>p_clproc := k\<rparr>) s)\<lparr>rt_plist := rs\<rparr>)" if "class_ok c k" for k rs
    using placed_plists [OF u [OF that]] p(2) placedD(6) [OF ok] by (auto simp: subset_iff)
  show "placed c Q (CL_FORK pp cp s)"
  proof (cases "p_clproc (pr s pp)")
    case SysClass
    then show ?thesis using u [of SysClass] by (simp add: CL_FORK_def class_ok_def)
  next
    case (TsClass t)
    then have "ts_ok c t" using cl by (simp add: class_ok_def)
    then show ?thesis using TsClass pl(1) [of "TsClass _"]
      by (simp add: CL_FORK_def ts_fork_def tsof_def Let_def class_ok_def)
  next
    case (RtClass r)
    then have "class_ok c (RtClass (r\<lparr>rt_timeleft := a, rt_flags := b\<rparr>))" for a b using cl by (simp add: class_ok_def)
    then show ?thesis using RtClass pl(2) [of "RtClass _" "cp # rt_plist s"]
      by (simp add: CL_FORK_def rt_fork_def rtof_def Let_def)
  qed
  show "only {cp} (s\<lparr>ts_plist := ts_plist (CL_FORK pp cp s), rt_plist := rt_plist (CL_FORK pp cp s)\<rparr>) (CL_FORK pp cp s)"
    using p(2) by (cases "p_clproc (pr s pp)") (simp_all add: CL_FORK_def ts_fork_def rt_fork_def Let_def only_def same_rest_def pr_upd)
qed

lemma newproc_ok:
  assumes ok: "sched_ok c s" and idle: "idleswtch s = 0"
    and addr: "addr \<notin> {runin_chan c, runout_chan c}" "addr + trace_off c \<notin> {runin_chan c, runout_chan c}"
  shows "sched_ok c (newproc addr sysproc vfork s)"
proof -
  define p where "p = curproc s"
  obtain Q where Q: "placed c Q s" "p_stat (pr s p) = SONPROC" using ok idle unfolding p_def by (rule sched_okE)
  note D = placedD [OF Q(1)]
  have p: "p < length (proctab s)" using D(5) by (simp add: p_def)
  define x where "x = child_entry (pr s p) addr sysproc vfork"
  have x: "p_stat x = SIDL" "p_wchan x = 0" "p_pri x = p_pri (pr s p)" "p_clproc x = SysClass" "idents x = (p_addr (pr s p), addr, 0)"
    by (simp_all add: x_def child_entry_def Let_def idents_def)
  define u where "u = s\<lparr>proctab := proctab s @ [x]\<rparr>"
  have own: "own_chans c x" using D(3) [OF p] D(9,10) addr x(5) by (auto simp: own_chans_def idents_def)
  have "placed c Q u" unfolding u_def
    by (rule placed_append [OF Q(1)]) (use x own coreD(4) [OF D(1) p] in \<open>simp_all add: proc_ok_def class_ok_def\<close>)
  note F = fork_ok [OF this, of p "length (proctab s)"]
  have lu: "p < length (proctab u)" "length (proctab s) < length (proctab u)" "pr u (length (proctab s)) = x" "pr u p = pr s p"
    using p by (simp_all add: u_def nth_append)
  define t where "t = CL_FORK p (length (proctab s)) u"
  have pl: "placed c Q t" unfolding t_def by (rule F(1)) (use lu x in simp_all)
  have o: "only {length (proctab s)} (u\<lparr>ts_plist := ts_plist t, rt_plist := rt_plist t\<rparr>) t" unfolding t_def by (rule F(2)) (use lu x in simp_all)
  have g: "curproc t = p" "idleswtch t = 0" using o idle by (simp_all add: only_def same_rest_def u_def p_def)
  have "bare (pr t p) = bare (pr s p)" using o lu p by (simp add: only_def)
  then have "p_stat (pr t p) = SONPROC" using bare_eqD(1) Q(2) by metis
  then have "sched_ok c t" using pl g by (auto simp: sched_ok_def)
  then show ?thesis by (simp add: newproc_def t_def u_def x_def p_def)
qed

section \<open>The start\<close>

lemma newproc_started_ok:
  assumes ok: "sched_ok c s" and idle: "idleswtch s = 0" and cp: "cp < length (proctab s)" "p_stat (pr s cp) = SIDL"
  shows "sched_ok c (newproc_started cp as s)"
proof -
  define p where "p = curproc s"
  obtain Q where Q: "placed c Q s" "p_stat (pr s p) = SONPROC" using ok idle unfolding p_def by (rule sched_okE)
  note D = placedD [OF Q(1)]
  have p: "p < length (proctab s)" "p \<noteq> cp" using D(5) Q(2) cp(2) by (auto simp: p_def)
  have wc: "p_wchan (pr s cp) = 0" using D(2) [OF cp(1)] cp(2) by (auto simp: at_home_def)
  have nq: "\<not> queued Q cp" using at_home_free [OF D(2) [OF cp(1)]] cp(2) wc by simp
  define u where "u = upd_proc cp (\<lambda>x. x\<lparr>p_as := as, p_stat := SRUN\<rparr>) s"
  have cu: "core c Q u" unfolding u_def
    by (rule core_proc [OF D(1) cp(1)]) (use nq coreD(4) [OF D(1) cp(1)] in \<open>auto simp: queued_def proc_ok_def\<close>)
  have lu: "cp < length (proctab u)" "pr u cp = (pr s cp)\<lparr>p_as := as, p_stat := SRUN\<rparr>" using cp by (simp_all add: u_def pr_upd)
  have B: "core c (onto_back Q u cp) (setbackdq cp u)" "only {cp} u (setbackdq cp u)" "same_run (pr u cp) (pr (setbackdq cp u) cp)"
    using setbackdq_put [OF cu lu(1) nq] by (simp_all add: put_back_def)
  define v where "v = setbackdq cp u"
  have ov: "only {cp} s v" unfolding v_def u_def by (rule only_trans [OF only_proc B(2) [unfolded u_def]])
  note K = same_runD [OF B(3) [folded v_def]]
  have id: "idents (pr v cp) = idents (pr s cp)"
    using arg_cong [OF B(3) [folded v_def, unfolded same_run_def], of idents] by (simp add: lu)
  have nsw: "cp = proc_sched c \<Longrightarrow> runout v = 0 \<and> runin v = 0"
    using ov D(7,13,15) cp(2) by (force simp: only_def same_rest_def)
  have pv: "placed c (onto_back Q u cp) v"
  proof (rule placed_one [OF Q(1) B(1) [folded v_def] only_wakes [OF ov] cp(1)])
    show "at_home (onto_back Q u cp) cp (pr v cp)" by (rule at_home_back [OF cu lu(1) nq]) (use K wc in \<open>simp_all add: lu\<close>)
    show "own_chans c (pr v cp)" using own_chans_idents [OF id] D(3) [OF cp(1)] by simp
  qed (use onto_back_other nsw K in \<open>auto simp: lu\<close>)
  have bp: "bare (pr v p) = bare (pr s p)" using ov p by (simp add: only_def)
  have sv: "sched_ok c v" by (rule sched_ok_placed [OF ok pv ov]) (use bare_eqD(1) [OF bp] in \<open>simp add: p_def\<close>)
  have lv: "p < length (proctab v)" using p only_len [OF ov] by simp
  define w where "w = upd_ts p (\<lambda>t. t\<lparr>ts_flags := ts_flags t OR (TSBACKQ OR TSFORK)\<rparr>) v"
  have "tuned c (onto_back Q u cp) p v w" unfolding w_def by (rule tuned_ts [OF tuned_refl [OF placedD(1) [OF pv]] lv]) simp
  then have "kept c p v w" by (rule kept_class [OF pv lv]) (simp add: w_def)
  then have sw: "sched_ok c (bump_runrun w)" using kept_sched_ok [OF sv] sched_ok_bump by blast
  have "newproc_started cp as s = v \<or> newproc_started cp as s = bump_runrun w"
    by (cases "p_clproc (pr u cp)")
      (simp_all add: newproc_started_def u_def [symmetric] CL_FORKRET_def sys_forkret_def rt_forkret_def ts_forkret_def v_def w_def p_def Let_def)
  then show ?thesis using sv sw by auto
qed

end
