(* ===== verification/Sched_Boot.thy ===== *)
theory Sched_Boot
  imports Sched_Births
begin

text \<open>
  The start of scheduling: the tables of the configuration (\<open>ts.cf/Space.c\<close>, \<open>rt.cf/Space.c\<close>), the
  greatest priority each class reports, \<open>dispinit\<close>, and process 0 (\<open>p0init\<close> of \<open>svc/startup.c\<close>).
\<close>

unbundle bit_operations_syntax

section \<open>The tables\<close>

definition config_ts_dptbl :: "tsdpent list" where
  "config_ts_dptbl = map (\<lambda>(g, q, t, r, m, l).
     \<lparr>ts_globpri = g, ts_quantum = q, ts_tqexp = t, ts_slpret = r, ts_maxwait = m, ts_lwait = l\<rparr>)
    [
     (0, 40, 0, 10, 3, 10), (1, 40, 0, 11, 3, 11), (2, 40, 1, 12, 3, 12), (3, 40, 1, 13, 3, 13), (4, 40, 2, 14, 3, 14),
     (5, 40, 2, 15, 3, 15), (6, 40, 3, 16, 3, 16), (7, 40, 3, 17, 3, 17), (8, 40, 4, 18, 3, 18), (9, 40, 4, 19, 3, 19),
     (10, 30, 5, 20, 3, 20), (11, 30, 5, 21, 3, 21), (12, 30, 6, 22, 3, 22), (13, 30, 6, 23, 3, 23), (14, 30, 7, 24, 3, 24),
     (15, 30, 7, 25, 2, 25), (16, 30, 8, 26, 2, 26), (17, 30, 8, 27, 2, 27), (18, 30, 9, 28, 2, 28), (19, 30, 9, 29, 2, 29),
     (20, 20, 10, 30, 2, 30), (21, 20, 11, 31, 2, 31), (22, 20, 12, 32, 2, 32), (23, 20, 13, 33, 2, 33), (24, 20, 14, 34, 2, 34),
     (25, 20, 15, 35, 2, 35), (26, 20, 16, 36, 2, 36), (27, 20, 17, 37, 2, 37), (28, 20, 18, 38, 2, 38), (29, 20, 19, 39, 2, 39),
     (30, 15, 20, 40, 2, 40), (31, 15, 21, 40, 2, 40), (32, 15, 22, 41, 2, 41), (33, 15, 23, 41, 2, 41), (34, 15, 24, 42, 2, 42),
     (35, 15, 25, 42, 2, 42), (36, 15, 26, 43, 2, 43), (37, 15, 27, 43, 2, 43), (38, 15, 28, 44, 2, 44), (39, 15, 29, 44, 2, 44),
     (40, 10, 30, 45, 2, 45), (41, 10, 31, 45, 2, 45), (42, 10, 32, 46, 2, 46), (43, 10, 33, 46, 2, 46), (44, 10, 34, 47, 2, 47),
     (45, 5, 35, 47, 1, 47), (46, 5, 36, 48, 1, 48), (47, 5, 37, 48, 1, 48), (48, 5, 38, 49, 1, 49), (49, 5, 39, 49, 1, 49)]"

definition config_ts_kmdpris :: "int list" where
  "config_ts_kmdpris = [
     50, 51, 52, 53, 54, 55, 56, 57, 58, 59,
     60, 61, 62, 63, 64, 65, 66, 67, 68, 69,
     70, 71, 72, 73, 74, 75, 76, 77, 78, 79,
     80, 81, 82, 83, 84, 85, 86, 87, 88, 89,
     90, 91, 92, 93, 94, 95, 96, 97, 98, 99]"

definition config_rt_dptbl :: "rtdpent list" where
  "config_rt_dptbl = map (\<lambda>(g, q). \<lparr>rt_globpri = g, rt_quantum = q\<rparr>)
    [
     (100, 100), (101, 100), (102, 100), (103, 100), (104, 100), (105, 100), (106, 100), (107, 100), (108, 100), (109, 100),
     (110, 80), (111, 80), (112, 80), (113, 80), (114, 80), (115, 80), (116, 80), (117, 80), (118, 80), (119, 80),
     (120, 60), (121, 60), (122, 60), (123, 60), (124, 60), (125, 60), (126, 60), (127, 60), (128, 60), (129, 60),
     (130, 40), (131, 40), (132, 40), (133, 40), (134, 40), (135, 40), (136, 40), (137, 40), (138, 40), (139, 40),
     (140, 20), (141, 20), (142, 20), (143, 20), (144, 20), (145, 20), (146, 20), (147, 20), (148, 20), (149, 20),
     (150, 10), (151, 10), (152, 10), (153, 10), (154, 10), (155, 10), (156, 10), (157, 10), (158, 10), (159, 10)]"

section \<open>The classes\<close>

definition PSLEP :: int where "PSLEP = 39"

text \<open>The greatest global priority of each class; \<open>None\<close> is the panic of \<open>sys_init\<close>.\<close>

definition sys_init :: "sched_conf \<Rightarrow> int option" where
  "sys_init c = (if v_maxsyspri c < PSLEP then None else Some (v_maxsyspri c))"

definition ts_init :: "sched_conf \<Rightarrow> sched \<Rightarrow> int" where
  "ts_init c s = max (ts_kmdpris c ! nat (ts_maxkmdpri c)) (ts_globpri (ts_dptbl s ! nat (ts_maxumdpri c)))"

definition rt_init :: "sched_conf \<Rightarrow> sched \<Rightarrow> int" where
  "rt_init c s = rt_globpri (rt_dptbl s ! nat (rt_maxpri c))"

section \<open>Process 0\<close>

text \<open>The entry is allocated cleared; \<open>p_cred\<close> is set later in \<open>main\<close>.\<close>

definition p0init :: "sched_conf \<Rightarrow> cred \<Rightarrow> int \<Rightarrow> sched \<Rightarrow> sched" where
  "p0init c cr addr s =
     s\<lparr>proctab := proctab s @
         [\<lparr>p_stat = SONPROC, p_flag = SLOAD OR SSYS OR SLOCK OR SULOAD, p_pri = v_maxsyspri c, p_wchan = 0, p_link = None,
           p_clproc = SysClass, p_cred = cr, p_addr = addr, p_parent = 0, p_trace = 0, p_whystop = 0, p_whatstop = 0,
           p_wcode = 0, p_wdata = 0, p_inoutage = 0, p_slptime = 0, p_swrss = 0, p_as = None\<rparr>],
       curproc := length (proctab s), curpri := v_maxsyspri c\<rparr>"

text \<open>The variables before the start: cleared, but for the tables.\<close>

definition sched_bss :: "tsdpent list \<Rightarrow> rtdpent list \<Rightarrow> sched" where
  "sched_bss tsd rtd = \<lparr>proctab = [], dispqs = [], dqactmap = [], srunprocs = 0, nglobpris = 0, maxrunpri = 0, curproc = 0,
     old_curproc = 0, oldproc = None, curpri = 0, runrun = 0, kprunrun = 0, npwakecnt = 0, idleswtch = 0,
     slpqs = replicate NSLEEPQ \<lparr>sq_first = None, sq_last = None\<rparr>, runin = 0, runout = 0, ts_dptbl = tsd, rt_dptbl = rtd,
     ts_plist = [], rt_plist = []\<rparr>"

definition sched_boot :: "sched_conf \<Rightarrow> cred \<Rightarrow> int \<Rightarrow> tsdpent list \<Rightarrow> rtdpent list \<Rightarrow> sched option" where
  "sched_boot c cr addr tsd rtd =
     (let s = sched_bss tsd rtd in
      do {
        m \<leftarrow> sys_init c;
        Some (p0init c cr addr (dispinit [m, ts_init c s, rt_init c s] s))
      })"

section \<open>The start is right\<close>

lemma boot_links:
  assumes "\<forall>q \<in> set (dispqs s). dq_first q = None \<and> dq_last q = None" "\<forall>q \<in> set (slpqs s). sq_first q = None \<and> sq_last q = None"
  shows "links_ok (\<lambda>k. []) s"
proof -
  have "firstq s k = None \<and> lastq s k = None" if "qvalid s k" for k
    using that assms by (cases k) (auto simp: all_set_conv_all_nth)
  then show ?thesis by (simp add: links_ok_def qrep_def)
qed

lemma boot_placed:
  assumes s: "sched_boot c cr addr tsd rtd = Some s" and conf: "conf_ok c s" "proc_sched c = 0"
    and ch: "runin_chan c \<noteq> 0" "runout_chan c \<noteq> 0" "runin_chan c \<noteq> runout_chan c"
    and addr: "addr \<notin> {runin_chan c, runout_chan c}" "addr + trace_off c \<notin> {runin_chan c, runout_chan c}"
  shows "placed c (\<lambda>k. []) s" "p_stat (pr s (curproc s)) = SONPROC" "idleswtch s = 0"
proof -
  obtain n where n: "s = p0init c cr addr ((sched_bss tsd rtd)\<lparr>nglobpris := n,
        dispqs := replicate n \<lparr>dq_first = None, dq_last = None, dq_sruncnt = 0\<rparr>,
        dqactmap := replicate (n div BT_NBIPUL + 1) 0, srunprocs := 0, maxrunpri := -1\<rparr>)"
    using s unfolding sched_boot_def dispinit_def Let_def by (auto split: bind_splits)
  have links: "links_ok (\<lambda>k. []) s" by (rule boot_links) (simp_all add: n p0init_def sched_bss_def NSLEEPQ_def)
  have z: "\<not> BT_TEST (dqactmap s) i" if "i div 32 < length (dqactmap s)" for i
  proof -
    have m: "dqactmap s = replicate (n div BT_NBIPUL + 1) 0" by (simp add: n p0init_def)
    have "i div 32 < n div BT_NBIPUL + 1" using that by (simp add: m)
    then have "dqactmap s ! (i div 32) = 0" unfolding m by (rule nth_replicate)
    then show ?thesis by (simp add: BT_TEST_def BT_WIM_def BT_ULSHIFT_def drop_bit_eq_div)
  qed
  have "counts_ok (runcnt (\<lambda>k. []) s) s"
    by (rule counts_okI) (use z in \<open>simp_all add: runcnt_def n p0init_def BT_NBIPUL_def\<close>)
  then have disp: "disp_ok (\<lambda>k. []) s" using links by (simp add: disp_ok_def)
  have one: "proctab s = [pr s 0]" "p_pri (pr s 0) = v_maxsyspri c" "p_clproc (pr s 0) = SysClass" "length (slpqs s) = NSLEEPQ"
    "curproc s = 0" "idleswtch s = 0" "p_stat (pr s 0) = SONPROC" "p_wchan (pr s 0) = 0" "p_parent (pr s 0) = 0" "p_trace (pr s 0) = 0"
    "p_addr (pr s 0) = addr" "ts_plist s = []" "runin s = 0" "runout s = 0"
    by (simp_all add: n p0init_def sched_bss_def)
  have len: "x < length (proctab s) \<longleftrightarrow> x = 0" for x using arg_cong [OF one(1), of length] by simp
  have v: "0 \<le> v_maxsyspri c" "v_maxsyspri c < int (nglobpris s)" using conf(1) by (auto simp: conf_ok_def)
  have core: "core c (\<lambda>k. []) s" using conf(1) disp one v by (simp add: core_def len proc_ok_def class_ok_def)
  show "placed c (\<lambda>k. []) s"
    unfolding placed_def using core ch addr one len by (simp add: at_home_def own_chans_def)
  show "p_stat (pr s (curproc s)) = SONPROC" "idleswtch s = 0" using one by simp_all
qed

section \<open>The system as shipped\<close>

definition shipped_conf :: sched_conf where
  "shipped_conf = \<lparr>v_maxsyspri = 99, ts_kmdpris = config_ts_kmdpris, ts_maxupri = 20, ts_maxumdpri = int (length config_ts_dptbl) - 1,
     ts_maxkmdpri = int (length config_ts_kmdpris) - 1, rt_maxpri = int (length config_rt_dptbl) - 1,
     proc_sched = 0, runin_chan = 0x1000, runout_chan = 0x1004, trace_off = 8, sc_sec = demo_sec\<rparr>"

lemma shipped_boot: "sched_boot shipped_conf demo_cred 0x2000 config_ts_dptbl config_rt_dptbl
    = Some (p0init shipped_conf demo_cred 0x2000 (dispinit [99, 99, 159] (sched_bss config_ts_dptbl config_rt_dptbl)))"
  by (simp add: sched_boot_def sys_init_def ts_init_def rt_init_def shipped_conf_def PSLEP_def config_ts_dptbl_def
      config_ts_kmdpris_def config_rt_dptbl_def sched_bss_def)

definition shipped_start :: sched where
  "shipped_start = the (sched_boot shipped_conf demo_cred 0x2000 config_ts_dptbl config_rt_dptbl)"

lemma shipped_conf_ok: "conf_ok shipped_conf shipped_start"
  unfolding shipped_start_def shipped_boot
  by (simp add: conf_ok_def p0init_def dispinit_def sched_bss_def shipped_conf_def config_ts_dptbl_def config_ts_kmdpris_def config_rt_dptbl_def)

end
