(* ===== verification/Sched_Safety.thy ===== *)
theory Sched_Safety
  imports Sched_Boot
begin

text \<open>
  The scheduler as a whole: the events that may happen to it, what the kernel does at each of them, and
  the states that can be reached from the start.  Every event returns, and every reachable state satisfies
  the invariant.
\<close>

unbundle bit_operations_syntax

section \<open>Events\<close>

datatype sched_event =
    Preempt bool                          \<comment> \<open>the current process is preempted\<close>
  | Tick | Trapret                        \<comment> \<open>a clock tick; the return to user mode\<close>
  | SleepLow int bits                     \<comment> \<open>\<open>sleep\<close> that signals do not end\<close>
  | SleepHigh int bits bool               \<comment> \<open>\<open>sleep\<close> that they do; whether there is one\<close>
  | SleepStopped int bits int int bool bool  \<comment> \<open>\<open>sleep\<close> with a stop while it looks\<close>
  | Checked bits bool                     \<comment> \<open>\<open>sleep\<close> goes on after such a stop\<close>
  | Woken bits bool                       \<comment> \<open>\<open>sleep\<close> goes on after the switch\<close>
  | Stops int int bool bool               \<comment> \<open>the current process stops\<close>
  | SwapperWaits | SwapperDelays
  | Forks int bool bool | Starts nat "int option" | Exits int int
  | SwapsIn nat | SwapsOut nat bool | SwapFails nat
  | Holds nat | Frees nat | StopSleeper nat bool bool   \<comment> \<open>\<open>/proc\<close>\<close>
  | Wakes int bool | WakesOne int bool | SetsRunning nat
  | ClockSwapper bool | MeterSwapper bool | Update
  | Resume                                \<comment> \<open>an interrupt ends the idling\<close>

fun sched_exec :: "sched_conf \<Rightarrow> sched_event \<Rightarrow> sched \<Rightarrow> sched option" where
  "sched_exec c (Preempt again) s = preempt c again s"
| "sched_exec c Tick s = CL_TICK c (curproc s) s"
| "sched_exec c Trapret s = Some (CL_TRAPRET c (curproc s) s)"
| "sched_exec c (SleepLow chan dsp) s = map_option snd (sleep c False chan dsp s)"
| "sched_exec c (SleepHigh chan dsp sig) s =
     do { (out, s) \<leftarrow> sleep c False chan dsp s; (out, s) \<leftarrow> sleep_checked c dsp sig s; Some s }"
| "sched_exec c (SleepStopped chan dsp why what firststop held) s =
     do { (out, s) \<leftarrow> sleep c False chan dsp s; stop_and_switch c why what firststop held s }"
| "sched_exec c (Checked dsp sig) s = map_option snd (sleep_checked c dsp sig s)"
| "sched_exec c (Woken dsp sig) s = map_option snd (sleep_woken c dsp sig s)"
| "sched_exec c (Stops why what firststop held) s = stop_and_switch c why what firststop held s"
| "sched_exec c SwapperWaits s = map_option snd (sched_wait c s)"
| "sched_exec c SwapperDelays s = map_option snd (sched_delay c s)"
| "sched_exec c (Forks addr sysproc vfork) s = Some (newproc addr sysproc vfork s)"
| "sched_exec c (Starts cp as) s = Some (newproc_started cp as s)"
| "sched_exec c (Exits why what) s = exit_sched c why what s"
| "sched_exec c (SwapsIn p) s = Some (swapped_in p s)"
| "sched_exec c (SwapsOut p unloadok) s = Some (swap_out p unloadok s)"
| "sched_exec c (SwapFails p) s = Some (swap_out_undone p s)"
| "sched_exec c (Holds p) s = Some (prlock_hold p s)"
| "sched_exec c (Frees p) s = Some (prunlock_free p s)"
| "sched_exec c (StopSleeper p firststop held) s = stop_sleeper c p firststop held s"
| "sched_exec c (Wakes chan prmpt) s = wakeprocs c chan prmpt s"
| "sched_exec c (WakesOne chan prmpt) s = wake_oneproc c chan prmpt s"
| "sched_exec c (SetsRunning p) s = setrun c p s"
| "sched_exec c (ClockSwapper low) s = clock_swapper c low s"
| "sched_exec c (MeterSwapper low) s = vmmeter_swapper c low s"
| "sched_exec c Update s = ts_update c s"
| "sched_exec c Resume s = pswtch_resume c s"

text \<open>
  When an event may happen.  What the current process does happens while one runs; only the swapper uses its two
  channels; a priority of \<open>sleep\<close> is at most \<open>PSLEP\<close>, as all those of the kernel; \<open>setrun\<close> is called for a process that
  sleeps, is stopped or runnable; the address of a new entry is not a channel of the swapper.
\<close>

fun sched_may :: "sched_conf \<Rightarrow> sched_event \<Rightarrow> sched \<Rightarrow> bool" where
  "sched_may c (SleepLow chan dsp) s \<longleftrightarrow> idleswtch s = 0 \<and> chan \<noteq> 0 \<and> dpri dsp \<le> PZERO"
| "sched_may c (SleepHigh chan dsp sig) s \<longleftrightarrow> idleswtch s = 0 \<and> chan \<noteq> 0 \<and> chan \<noteq> runin_chan c \<and> PZERO < dpri dsp \<and> dpri dsp \<le> PSLEP"
| "sched_may c (SleepStopped chan dsp why what firststop held) s \<longleftrightarrow> idleswtch s = 0 \<and> chan \<noteq> 0 \<and> PZERO < dpri dsp"
| "sched_may c SwapperWaits s \<longleftrightarrow> idleswtch s = 0 \<and> curproc s = proc_sched c"
| "sched_may c SwapperDelays s \<longleftrightarrow> idleswtch s = 0 \<and> curproc s = proc_sched c"
| "sched_may c (Forks addr sysproc vfork) s \<longleftrightarrow> idleswtch s = 0
     \<and> addr \<notin> {runin_chan c, runout_chan c} \<and> addr + trace_off c \<notin> {runin_chan c, runout_chan c}"
| "sched_may c (Starts cp as) s \<longleftrightarrow> idleswtch s = 0 \<and> cp < length (proctab s) \<and> p_stat (pr s cp) = SIDL"
| "sched_may c (SwapsIn p) s \<longleftrightarrow> p < length (proctab s) \<and> p_flag (pr s p) AND SLOAD = 0 \<and> p_flag (pr s p) AND SSYS = 0"
| "sched_may c (SwapsOut p unloadok) s \<longleftrightarrow> p < length (proctab s)"
| "sched_may c (SwapFails p) s \<longleftrightarrow> p < length (proctab s) \<and> p_flag (pr s p) AND SLOAD = 0 \<and> p_flag (pr s p) AND SSYS = 0"
| "sched_may c (Holds p) s \<longleftrightarrow> p < length (proctab s) \<and> p_flag (pr s p) AND SPROCIO = 0"
| "sched_may c (Frees p) s \<longleftrightarrow> p < length (proctab s)"
| "sched_may c (StopSleeper p firststop held) s \<longleftrightarrow> idleswtch s = 0 \<and> p < length (proctab s) \<and> p \<noteq> proc_sched c"
| "sched_may c (Wakes chan prmpt) s \<longleftrightarrow> chan \<notin> {runin_chan c, runout_chan c}"
| "sched_may c (WakesOne chan prmpt) s \<longleftrightarrow> chan \<notin> {runin_chan c, runout_chan c}"
| "sched_may c (SetsRunning p) s \<longleftrightarrow> p < length (proctab s) \<and> p_stat (pr s p) \<in> {SSLEEP, SRUN, SSTOP}
     \<and> (p = proc_sched c \<longrightarrow> runout s = 0 \<and> runin s = 0)"
| "sched_may c (ClockSwapper low) s \<longleftrightarrow> True"
| "sched_may c (MeterSwapper low) s \<longleftrightarrow> True"
| "sched_may c Update s \<longleftrightarrow> True"
| "sched_may c Resume s \<longleftrightarrow> 0 < idleswtch s"
| "sched_may c ev s \<longleftrightarrow> idleswtch s = 0"

inductive sched_reach :: "sched_conf \<Rightarrow> sched \<Rightarrow> sched \<Rightarrow> bool" for c s0 where
  reach_start: "sched_reach c s0 s0"
| reach_event: "sched_reach c s0 s \<Longrightarrow> sched_may c ev s \<Longrightarrow> sched_exec c ev s = Some t \<Longrightarrow> sched_reach c s0 t"

section \<open>Every event\<close>

lemma sleep_low_any:
  assumes ok: "sched_ok c s" and idle: "idleswtch s = 0" and chan: "chan \<noteq> 0" and dsp: "dpri dsp \<le> PZERO"
  shows "\<exists>t. sleep c False chan dsp s = Some (GaveUp, t) \<and> sched_ok c t"
proof -
  obtain Q where Q: "placed c Q s" "proc_sched c = curproc s \<longrightarrow> runout s = 0 \<and> runin s = 0" using ok idle by (rule sched_okE)
  have e: "s = s\<lparr>runout := runout s, runin := runin s\<rparr>" by simp
  show ?thesis
    by (subst e) (rule sleep_low_ok [OF ok idle chan dsp]; use Q(2) placedD(15) [OF Q(1)] in simp)
qed

lemma sleep_high_any:
  assumes ok: "sched_ok c s" and idle: "idleswtch s = 0" and chan: "chan \<noteq> 0" "chan \<noteq> runin_chan c"
    and dsp: "PZERO < dpri dsp" "dpri dsp \<le> PSLEP"
  shows "\<exists>t. sched_exec c (SleepHigh chan dsp sig) s = Some t \<and> sched_ok c t"
proof -
  from sleep_looks [OF ok idle chan(1) dsp(1)] obtain u where u: "sleep c False chan dsp s = Some (LooksForSignal, u)" "looking c chan u"
    by blast
  have "dpri dsp \<le> 39" using dsp(2) by (simp add: PSLEP_def)
  from sleep_checked_ok [OF u(2) chan(2) this] obtain out t where "sleep_checked c dsp sig u = Some (out, t)" "sched_ok c t" by blast
  then show ?thesis using u(1) by simp
qed

lemma sleep_stopped_any:
  assumes ok: "sched_ok c s" and idle: "idleswtch s = 0" and chan: "chan \<noteq> 0" and dsp: "PZERO < dpri dsp"
  shows "\<exists>t. sched_exec c (SleepStopped chan dsp why what firststop held) s = Some t \<and> sched_ok c t"
proof -
  from sleep_looks [OF ok idle chan dsp] obtain u where u: "sleep c False chan dsp s = Some (LooksForSignal, u)" "looking c chan u"
    by blast
  then obtain Q where Q: "placed c Q u" "idleswtch u = 0" "p_stat (pr u (curproc u)) = SSLEEP"
    "curproc u = proc_sched c \<longrightarrow> runout u = 0 \<and> runin u = 0" by (auto simp: looking_def)
  have "p_stat (pr u (curproc u)) \<in> {SONPROC, SSLEEP}" using Q(3) by simp
  from stop_and_switch_ok [OF Q(1,2) this Q(4)] show ?thesis using u(1) by simp
qed

lemma checked_awake:
  assumes ok: "sched_ok c s" and idle: "idleswtch s = 0"
  shows "\<exists>out t. sleep_checked c dsp sig s = Some (out, t) \<and> sched_ok c t"
proof -
  obtain Q where Q: "placed c Q s" "p_stat (pr s (curproc s)) = SONPROC" "p_wchan (pr s (curproc s)) = 0" using ok idle by (rule sched_okE)
  show ?thesis using sleep_end_ok [OF ok idle] Q by (simp add: sleep_checked_def Let_def)
qed

lemma stops_any:
  assumes ok: "sched_ok c s" and idle: "idleswtch s = 0"
  shows "\<exists>t. stop_and_switch c why what firststop held s = Some t \<and> sched_ok c t"
proof -
  obtain Q where Q: "placed c Q s" "p_stat (pr s (curproc s)) = SONPROC" "proc_sched c = curproc s \<longrightarrow> runout s = 0 \<and> runin s = 0"
    using ok idle by (rule sched_okE)
  show ?thesis by (rule stop_and_switch_ok [OF Q(1) idle]) (use Q in auto)
qed

lemma sched_exec_ok:
  assumes ok: "sched_ok c s" and may: "sched_may c ev s"
  shows "\<exists>t. sched_exec c ev s = Some t \<and> sched_ok c t"
proof (cases ev)
  case (Preempt again)
  then show ?thesis using preempt_ok [OF ok] may by simp
next
  case Tick
  then show ?thesis using CL_TICK_ok [OF ok] may by simp
next
  case Trapret
  then show ?thesis using CL_TRAPRET_ok [OF ok] may by simp
next
  case (SleepLow chan dsp)
  then show ?thesis using sleep_low_any [OF ok, of chan dsp] may by auto
next
  case (SleepHigh chan dsp sig)
  then show ?thesis using sleep_high_any [OF ok, of chan dsp sig] may by simp
next
  case (SleepStopped chan dsp why what firststop held)
  then show ?thesis using sleep_stopped_any [OF ok, of chan dsp why what firststop held] may by simp
next
  case (Checked dsp sig)
  then show ?thesis using checked_awake [OF ok, of dsp sig] may by auto
next
  case (Woken dsp sig)
  then show ?thesis using sleep_woken_ok [OF ok, of dsp sig] may by auto
next
  case (Stops why what firststop held)
  then show ?thesis using stops_any [OF ok] may by simp
next
  case SwapperWaits
  then show ?thesis using sched_wait_ok(1) [OF ok] may by auto
next
  case SwapperDelays
  then show ?thesis using sched_wait_ok(2) [OF ok] may by auto
next
  case (Forks addr sysproc vfork)
  then show ?thesis using newproc_ok [OF ok, of addr] may by simp
next
  case (Starts cp as)
  then show ?thesis using newproc_started_ok [OF ok, of cp] may by simp
next
  case (Exits why what)
  then show ?thesis using exit_sched_ok [OF ok] may by simp
next
  case (SwapsIn p)
  then show ?thesis using swapped_in_ok [OF ok] may by simp
next
  case (SwapsOut p unloadok)
  then show ?thesis using swap_out_ok [OF ok] may by simp
next
  case (SwapFails p)
  then show ?thesis using swap_out_undone_ok [OF ok] may by simp
next
  case (Holds p)
  then show ?thesis using prlock_hold_ok [OF ok] may by simp
next
  case (Frees p)
  then show ?thesis using prunlock_free_ok [OF ok] may by simp
next
  case (StopSleeper p firststop held)
  then show ?thesis using stop_sleeper_ok [OF ok] may by simp
next
  case (Wakes chan prmpt)
  then show ?thesis using wakeprocs_sched_ok [OF ok, of chan prmpt] may by auto
next
  case (WakesOne chan prmpt)
  then show ?thesis using wake_oneproc_sched_ok [OF ok, of chan prmpt] may by auto
next
  case (SetsRunning p)
  then show ?thesis using setrun_sched_ok [OF ok, of p] may by auto
next
  case (ClockSwapper low)
  then show ?thesis using clock_swapper_ok [OF ok] by simp
next
  case (MeterSwapper low)
  then show ?thesis using vmmeter_swapper_ok [OF ok] by simp
next
  case Update
  then show ?thesis using ts_update_ok [OF ok] by simp
next
  case Resume
  then show ?thesis using pswtch_resume_ok [OF ok] may by simp
qed

lemma sched_reach_ok: "sched_reach c s0 s \<Longrightarrow> sched_ok c s0 \<Longrightarrow> sched_ok c s"
proof (induction rule: sched_reach.induct)
  case (reach_event s ev t)
  then show ?case using sched_exec_ok [of c s ev] by auto
qed

end
