(* ===== verification/Sched_Choice.thy ===== *)
theory Sched_Choice
  imports Sched_Safety
begin

text \<open>
  Which process the switch gives the processor to: the first, on the dispatcher queue of the highest priority, of
  those that can run.  A process that is preempted competes with the others; at the end of its time
  quantum it stands behind those of the priority it falls to.
\<close>

unbundle bit_operations_syntax

definition ready :: "sched \<Rightarrow> nat set" where
  "ready s = {x. x < length (proctab s) \<and> p_stat (pr s x) = SRUN \<and> schedulable (pr s x)}"

definition run_choice :: "(qid \<Rightarrow> nat list) \<Rightarrow> sched \<Rightarrow> sched \<Rightarrow> bool" where
  "run_choice Q s t \<longleftrightarrow> (if ready s = {} then idleswtch t = 1 \<and> off_cpu t
     else idleswtch t = 0 \<and> curproc t \<in> ready s \<and> (\<forall>x \<in> ready s. p_pri (pr s x) \<le> p_pri (pr s (curproc t)))
       \<and> (\<exists>A B. Q (Dq (nat (p_pri (pr s (curproc t))))) = A @ curproc t # B \<and> (\<forall>a \<in> set A. \<not> schedulable (pr s a))))"

lemma ready_queued:
  assumes ok: "placed c Q s" and x: "x \<in> ready s"
  obtains i where "p_pri (pr s x) = int i" "x \<in> set (Q (Dq i))" "0 < runcnt Q s i"
proof -
  have x: "x < length (proctab s)" "p_stat (pr s x) = SRUN" "schedulable (pr s x)" using x by (simp_all add: ready_def)
  obtain i where i: "p_pri (pr s x) = int i" using core_pri [OF placedD(1) [OF ok] x(1)] by blast
  have "x \<in> set (Q (Dq i))" using placedD(2) [OF ok x(1)] x(2) i by (simp add: at_home_def)
  moreover from this have "0 < runcnt Q s i" using x(3) by (auto simp: runcnt_def filter_empty_conv)
  ultimately show ?thesis using that i by blast
qed

lemma pick_choice:
  assumes ok: "placed c Q s" and idle: "idleswtch s = 0" and max: "maxrunpri s \<noteq> -1" and t: "pswtch_pick s = Some t"
  shows "run_choice Q s t"
proof -
  note C = coreD [OF placedD(1) [OF ok]] and L = links_okD [OF disp_okD(1) [OF coreD(2) [OF placedD(1) [OF ok]]]]
  obtain m where m: "maxrunpri s = int m" using disp_okD(2) [OF C(2)] max by (cases rule: counts_top) auto
  from pswtch_pick_ok [OF C(2) m] obtain A p B u where q: "Q (Dq m) = A @ p # B" "\<forall>a \<in> set A. \<not> schedulable (pr s a)" "schedulable (pr s p)"
    "\<forall>i x. x \<in> set (Q (Dq i)) \<and> schedulable (pr s x) \<longrightarrow> i \<le> m"
    "t = set_stat p SONPROC u\<lparr>curpri := int m, curproc := p, runrun := 0, kprunrun := 0, npwakecnt := 0\<rparr>" "disp_same s u"
    unfolding t by blast
  have pm: "p \<in> set (Q (Dq m))" "p < length (proctab s)" using q(1) L(5) [of p "Dq m"] by simp_all
  then have p: "p \<in> ready s" "p_pri (pr s p) = int m"
    using placedD(2) [OF ok pm(2)] q(3) disp_okD(3) [OF C(2), of p m] by (auto simp: ready_def at_home_def)
  have "p_pri (pr s x) \<le> int m" if x: "x \<in> ready s" for x
  proof -
    obtain i where "p_pri (pr s x) = int i" "x \<in> set (Q (Dq i))" using ready_queued [OF ok x] by blast
    then show ?thesis using q(4) x by (auto simp: ready_def)
  qed
  moreover have "curproc t = p" "idleswtch t = 0" using disp_sameD(11) [OF q(6)] idle by (simp_all add: q(5) set_stat_def)
  ultimately show ?thesis using p q(1,2) by (auto simp: run_choice_def)
qed

lemma idle_choice:
  assumes ok: "placed c Q s" and off: "off_cpu s" and idle: "idleswtch s = 0" and max: "maxrunpri s = -1"
  shows "run_choice Q s (pswtch_idle c s)"
proof -
  have "runcnt Q s i = 0" for i using disp_okD(2) [OF coreD(2) [OF placedD(1) [OF ok]]] max by (cases rule: counts_top) auto
  then have "ready s = {}" using ready_queued [OF ok] by (metis all_not_in_conv less_numeral_extra(3))
  then show ?thesis using off idle by (simp add: run_choice_def pswtch_idle_def off_cpu_def)
qed

lemma pswtch_choice:
  assumes "placed c Q (pswtch_leave s)" "off_cpu (pswtch_leave s)" "idleswtch (pswtch_leave s) = 0"
  shows "\<exists>t. pswtch c s = Some t \<and> sched_ok c t \<and> run_choice Q (pswtch_leave s) t"
  using pick_ok [OF assms] pick_choice [OF assms(1,3)] idle_ok [OF assms(1,2)] idle_choice [OF assms] assms(3)
  by (cases "maxrunpri (pswtch_leave s) = -1") (auto simp: pswtch_def Let_def)

lemma run_choice_cong: "proctab s = proctab s' \<Longrightarrow> run_choice Q s t = run_choice Q s' t"
  by (simp only: run_choice_def ready_def)

lemma preempt_choice:
  assumes ok: "sched_ok c s" and idle: "idleswtch s = 0" and pq: "placed c Q s" and p: "p = curproc s"
    and R: "R = onto_back Q s p \<or> R = onto_front Q s p" "core c R (CL_PREEMPT p s)" "only {p} s (CL_PREEMPT p s)"
      "same_run (pr s p) (pr (CL_PREEMPT p s) p)"
  defines "u \<equiv> set_stat p SRUN (CL_PREEMPT p s)"
  shows "\<exists>t. preempt c False s = Some t \<and> sched_ok c t \<and> run_choice R u t" "placed c R u" "only {p} s u"
    "pr u p = (pr (CL_PREEMPT p s) p)\<lparr>p_stat := SRUN\<rparr>"
proof -
  note L = preempt_left [OF ok idle pq p R, folded u_def]
  note M = pswtch_left [where s = "CL_PREEMPT p s", unfolded L(3), OF L(1,2,4)]
  have "run_choice R (pswtch_leave (CL_PREEMPT p s)) t = run_choice R u t" for t by (rule run_choice_cong [OF M(4)])
  then show "\<exists>t. preempt c False s = Some t \<and> sched_ok c t \<and> run_choice R u t"
    using pswtch_choice [OF M(1-3)] by (simp add: preempt_def p)
  show "placed c R u" "only {p} s u" "pr u p = (pr (CL_PREEMPT p s) p)\<lparr>p_stat := SRUN\<rparr>" by (fact L(1), fact L(5), fact L(6))
qed

text \<open>Preemption, without the queues: the candidates are the processes that are ready and the one preempted.\<close>

definition candidates :: "sched \<Rightarrow> nat set" where
  "candidates s = {x. x < length (proctab s) \<and> schedulable (pr s x) \<and> (p_stat (pr s x) = SRUN \<or> x = curproc s)}"

section \<open>The end of a time quantum\<close>

text \<open>What a time-sharing process becomes at the end of its quantum.\<close>

definition expired :: "sched_conf \<Rightarrow> sched \<Rightarrow> tsproc \<Rightarrow> tsproc" where
  "expired c s t = TS_NEWUMDPRI c (t\<lparr>ts_timeleft := 0, ts_cpupri := ts_tqexp (tsent s (ts_cpupri t)), ts_sleepwait := 0\<rparr>)"

lemma expired_flags [simp]: "ts_flags (expired c s t) = ts_flags t"
  by (simp add: expired_def TS_NEWUMDPRI_def Let_def)

lemma tick_expires:
  assumes ok: "sched_ok c s" and idle: "idleswtch s = 0" and p: "p = curproc s" and ts: "p_clproc (pr s p) = TsClass t"
    "ts_flags t AND TSKPRI = 0" "ts_timeleft t = 1"
  shows "\<exists>u. CL_TICK c p s = Some u \<and> sched_ok c u \<and> curproc u = p \<and> idleswtch u = 0 \<and> runrun u = runrun s + 1 \<and> only {p} s u
    \<and> p_pri (pr u p) = ts_globpri (tsent s (ts_umdpri (expired c s t)))
    \<and> (\<exists>v. p_clproc (pr u p) = TsClass v \<and> ts_flags v = ts_flags t OR TSBACKQ)"
proof -
  obtain Q where Q: "placed c Q s" "p_stat (pr s p) = SONPROC" "\<not> queued Q p" using ok idle unfolding p by (rule sched_okE)
  note D = placedD [OF Q(1)]
  have lp: "p < length (proctab s)" using D(5) by (simp add: p)
  have tk: "tsof (pr s p) = t" using ts(1) by (simp add: tsof_def)
  define z where "z = upd_ts p (\<lambda>t. t\<lparr>ts_timeleft := s32 (ts_timeleft t - 1)\<rparr>) s"
  have z: "core c Q z" unfolding z_def by (rule core_ts [OF D(1) lp]) simp
  have kz: "same_run (pr s p) (pr z p)" by (simp add: z_def)
  have pz: "p_clproc (pr z p) = TsClass (t\<lparr>ts_timeleft := 0\<rparr>)" using lp ts by (simp add: z_def upd_class_pr s32_def)
  obtain i where i: "p_pri (pr s p) = int i" "i < nglobpris s" using D(1) lp by (rule core_pri)
  have deq: "dispdeq p z = Some (False, z)"
    by (rule dispdeq_off [OF coreD(2) [OF z], of p i]) (use same_runD(3) [OF kz] i Q(3) in \<open>simp_all add: queued_def, simp add: z_def\<close>)
  define v where "v = upd_ts p (\<lambda>t. TS_NEWUMDPRI c (t\<lparr>ts_cpupri := ts_tqexp (tsent z (ts_cpupri t)), ts_sleepwait := 0\<rparr>)) z"
  have lz: "p < length (proctab z)" using lp by (simp add: z_def)
  have pv: "p_clproc (pr v p) = TsClass (expired c s t)"
    using lz pz by (simp add: v_def upd_class_pr expired_def) (simp add: z_def tsent_def)
  define g where "g = ts_globpri (tsent s (ts_umdpri (expired c s t)))"
  have gv: "ts_globpri (tsumd v p) = g" using pv by (simp add: tsumd_def tsof_def g_def) (simp add: v_def z_def tsent_def)
  define u where "u = bump_runrun (ts_requeue False p (upd_ts p (\<lambda>t. t\<lparr>ts_dispwait := 0\<rparr>) (set_pri p g (v\<lparr>curpri := g\<rparr>))))"
  have "ts_tick c p s = Some u"
    using ts(2,3) pz deq gv unfolding ts_tick_def tk u_def
    by (simp add: z_def [symmetric] tsof_def Let_def v_def [symmetric])
  then have tick: "CL_TICK c p s = Some u" using ts(1) by (simp add: CL_TICK_def)
  moreover have "sched_ok c u" using CL_TICK_ok [OF ok idle] tick by (simp add: p)
  moreover have lv: "p < length (proctab v)" using lz by (simp add: v_def)
  have o: "only {p} s u" unfolding u_def ts_requeue_def v_def z_def
    by (simp add: upd_ts_def set_pri_def) (simp add: only_def same_rest_def pr_upd lp upd_proc_def)
  moreover have "runrun u = runrun s + 1" by (simp add: u_def bump_runrun_def ts_requeue_def upd_ts_def set_pri_def v_def z_def)
  moreover have "p_pri (pr u p) = g" using lv by (simp add: u_def bump_runrun_def ts_requeue_def upd_ts_def set_pri_def pr_upd)
  moreover have "\<exists>w. p_clproc (pr u p) = TsClass w \<and> ts_flags w = ts_flags t OR TSBACKQ"
    using lv pv by (simp add: u_def bump_runrun_def ts_requeue_def upd_ts_def set_pri_def pr_upd)
  moreover have "curproc u = p" "idleswtch u = 0" using o idle by (simp_all add: only_def same_rest_def p)
  ultimately show ?thesis unfolding g_def by blast
qed

lemma backq_flags:
  fixes f :: "8 word"
  assumes "f AND TSKPRI = 0"
  shows "(f OR TSBACKQ) AND (TSBACKQ OR TSKPRI OR TSFORK) = TSBACKQ \<or> (f OR TSBACKQ) AND (TSBACKQ OR TSKPRI OR TSFORK) = TSBACKQ OR TSFORK"
proof -
  have m: "TSKPRI = 2 ^ 0" "TSBACKQ = 2 ^ 1" "TSFORK = 2 ^ 2" by (simp_all add: TSKPRI_def TSBACKQ_def TSFORK_def)
  have k: "\<not> bit f 0" using iffD1 [OF and_exp_eq_0_iff_not_bit assms [unfolded m(1)]] .
  have "(f OR TSBACKQ) AND (TSBACKQ OR TSKPRI OR TSFORK) = (if bit f 2 then TSBACKQ OR TSFORK else TSBACKQ)"
  proof (rule bit_word_eqI)
    fix n assume "n < LENGTH(8)"
    then have "n = 0 \<or> n = 1 \<or> n = 2 \<or> n = 3 \<or> n = 4 \<or> n = 5 \<or> n = 6 \<or> n = 7" by auto
    then show "bit ((f OR TSBACKQ) AND (TSBACKQ OR TSKPRI OR TSFORK)) n = bit (if bit f 2 then TSBACKQ OR TSFORK else TSBACKQ) n"
      by (elim disjE) (simp_all add: k TSKPRI_def TSBACKQ_def TSFORK_def bit_or_iff bit_and_iff)
  qed
  then show ?thesis by (simp split: if_splits)
qed

text \<open>A process marked to go to the back goes there when it is preempted.\<close>

lemma preempt_back:
  assumes ok: "core c Q s" and p: "p < length (proctab s)" "\<not> queued Q p" and ts: "p_clproc (pr s p) = TsClass t"
    "ts_flags t = f OR TSBACKQ" "f AND TSKPRI = 0"
  shows "put_back c p Q s (CL_PREEMPT p s)"
proof -
  have "put_back c p Q s (ts_preempt p s)"
    using put_after(1) [OF retuned_then_ts [OF retuned_quantum [OF ok p(1)] p(1)] p(1,2)] put_after(1) [OF retuned_ts [OF ok p(1)] p(1,2)]
      backq_flags [OF ts(3)] ts(1,2) unfolding ts_preempt_def Let_def by (auto simp: tsof_def)
  then show ?thesis using ts(1) by (simp add: CL_PREEMPT_def)
qed

end
