(* ===== verification/Sched_Results.thy ===== *)
theory Sched_Results
  imports Sched_Choice
begin

text \<open>
  The properties of scheduling, each with an application to a concrete state: the system as shipped after its
  start, and a system with two time-sharing processes.
\<close>

unbundle bit_operations_syntax

section \<open>Concrete states\<close>

lemma shipped_start_def': "shipped_start = p0init shipped_conf demo_cred 0x2000 (dispinit [99, 99, 159] (sched_bss config_ts_dptbl config_rt_dptbl))"
  by (simp add: shipped_start_def shipped_boot)

lemma shipped_booted: "sched_boot shipped_conf demo_cred 0x2000 config_ts_dptbl config_rt_dptbl = Some shipped_start"
  by (simp add: shipped_start_def shipped_boot)

lemma shipped_fields: "length (proctab shipped_start) = 1" "curproc shipped_start = 0" "idleswtch shipped_start = 0" "runout shipped_start = 0"
  "runin shipped_start = 0" "p_stat (pr shipped_start 0) = SONPROC" "p_pri (pr shipped_start 0) = 99" "p_wchan (pr shipped_start 0) = 0"
  "maxrunpri shipped_start = -1" "nglobpris shipped_start = 160" "ts_dptbl shipped_start = config_ts_dptbl"
  "slpqs shipped_start = replicate NSLEEPQ \<lparr>sq_first = None, sq_last = None\<rparr>" "p_clproc (pr shipped_start 0) = SysClass"
  by (simp_all add: shipped_start_def' p0init_def dispinit_def sched_bss_def shipped_conf_def)

lemma shipped_chans: "proc_sched shipped_conf = 0" "runin_chan shipped_conf = 0x1000" "runout_chan shipped_conf = 0x1004" "trace_off shipped_conf = 8"
  by (simp_all add: shipped_conf_def)

lemma shipped_ok: "sched_ok shipped_conf shipped_start"
proof -
  have "placed shipped_conf (\<lambda>k. []) shipped_start"
    by (rule boot_placed(1) [OF shipped_booted shipped_conf_ok]) (simp_all add: shipped_chans)
  then show ?thesis by (auto simp: sched_ok_def shipped_fields)
qed

definition two_ts :: tsproc where
  "two_ts = \<lparr>ts_timeleft = 1, ts_cpupri = 10, ts_uprilim = 0, ts_upri = 0, ts_umdpri = 10, ts_nice = 20, ts_flags = 0,
     ts_dispwait = 0, ts_sleepwait = 0\<rparr>"

text \<open>Process 0 as a time-sharing process with one tick left, which has made process 1; then process 1 is started.\<close>

definition two_made :: sched where
  "two_made = newproc 0x2100 False False (upd_proc 0 (\<lambda>x. x\<lparr>p_clproc := TsClass two_ts\<rparr>) shipped_start)"

definition two_procs :: sched where
  "two_procs = newproc_started 1 (Some 100) two_made"

lemma two_made_ok: "sched_ok shipped_conf two_made" "idleswtch two_made = 0" "curproc two_made = 0" "length (proctab two_made) = 2"
  "p_stat (pr two_made 1) = SIDL" "p_clproc (pr two_made 0) = TsClass two_ts" "p_pri (pr two_made 1) = 99"
  "p_flag (pr two_made 1) = SLOAD" "ts_dptbl two_made = config_ts_dptbl"
  "dispqs two_made = replicate 160 \<lparr>dq_first = None, dq_last = None, dq_sruncnt = 0\<rparr>"
  "\<exists>t. p_clproc (pr two_made 1) = TsClass t"
proof -
  define u where "u = upd_proc 0 (\<lambda>x. x\<lparr>p_clproc := TsClass two_ts\<rparr>) shipped_start"
  obtain Q where Q: "placed shipped_conf Q shipped_start" using shipped_ok by (rule sched_ok_cases)
  have "class_ok shipped_conf (TsClass two_ts)"
    by (simp add: class_ok_def ts_ok_def two_ts_def shipped_conf_def config_ts_dptbl_def)
  then have "placed shipped_conf Q u" unfolding u_def
    by (intro placed_upd [OF Q]) (simp_all add: shipped_fields)
  then have u: "sched_ok shipped_conf u" by (auto simp: sched_ok_def u_def shipped_fields pr_upd)
  show "sched_ok shipped_conf two_made" unfolding two_made_def u_def [symmetric]
    by (rule newproc_ok [OF u]) (simp_all add: u_def shipped_fields shipped_chans)
  show "idleswtch two_made = 0" "curproc two_made = 0" "length (proctab two_made) = 2"
    "p_stat (pr two_made 1) = SIDL" "p_clproc (pr two_made 0) = TsClass two_ts" "p_pri (pr two_made 1) = 99"
    "p_flag (pr two_made 1) = SLOAD" "ts_dptbl two_made = config_ts_dptbl"
    "dispqs two_made = replicate 160 \<lparr>dq_first = None, dq_last = None, dq_sruncnt = 0\<rparr>" "\<exists>t. p_clproc (pr two_made 1) = TsClass t"
    by (simp_all add: two_made_def newproc_def CL_FORK_def ts_fork_def shipped_fields pr_upd nth_append child_entry_def Let_def)
      (simp_all add: shipped_start_def' p0init_def dispinit_def sched_bss_def SLOAD_def SSYS_def SLOCK_def SULOAD_def SJCTL_def SNOWAIT_def
        SPROCTR_def SPRFORK_def)
qed


lemma two_procs_ok: "sched_ok shipped_conf two_procs" "idleswtch two_procs = 0" "curproc two_procs = 0" "length (proctab two_procs) = 2"
  "p_stat (pr two_procs 1) = SRUN" "p_pri (pr two_procs 1) = 99" "schedulable (pr two_procs 1)"
  "p_clproc (pr two_procs 0) = TsClass (two_ts\<lparr>ts_flags := TSBACKQ OR TSFORK\<rparr>)" "ts_dptbl two_procs = config_ts_dptbl"
proof -
  show "sched_ok shipped_conf two_procs"
    unfolding two_procs_def by (rule newproc_started_ok) (simp_all add: two_made_ok del: One_nat_def)
  define u where "u = upd_proc 1 (\<lambda>x. x\<lparr>p_as := Some 100, p_stat := SRUN\<rparr>) two_made"
  obtain t where t: "p_clproc (pr u 1) = TsClass t" using two_made_ok(11) by (auto simp: u_def pr_upd two_made_ok)
  define v where "v = setbackdq 1 u"
  have e: "two_procs = bump_runrun (upd_ts 0 (\<lambda>t. t\<lparr>ts_flags := ts_flags t OR (TSBACKQ OR TSFORK)\<rparr>) v)"
    unfolding two_procs_def newproc_started_def two_made_ok(3) u_def [symmetric] CL_FORKRET_def t by (simp add: ts_forkret_def v_def)
  have u: "pr u 0 = pr two_made 0" "pr u 1 = (pr two_made 1)\<lparr>p_as := Some 100, p_stat := SRUN\<rparr>" "length (proctab u) = 2"
    "dispqs u = replicate 160 \<lparr>dq_first = None, dq_last = None, dq_sruncnt = 0\<rparr>" "idleswtch u = 0" "curproc u = 0" "ts_dptbl u = config_ts_dptbl"
    by (simp_all add: u_def pr_upd two_made_ok del: One_nat_def)
  have v: "pr v 0 = pr u 0" "pr v 1 = (pr u 1)\<lparr>p_link := None\<rparr>" "length (proctab v) = 2" "idleswtch v = 0" "curproc v = 0" "ts_dptbl v = config_ts_dptbl"
    by (simp_all add: v_def setbackdq_def u two_made_ok set_link_def pr_upd Let_def del: One_nat_def)
  show "idleswtch two_procs = 0" "curproc two_procs = 0" "length (proctab two_procs) = 2" "ts_dptbl two_procs = config_ts_dptbl"
    "p_stat (pr two_procs 1) = SRUN" "p_pri (pr two_procs 1) = 99" "schedulable (pr two_procs 1)"
    "p_clproc (pr two_procs 0) = TsClass (two_ts\<lparr>ts_flags := TSBACKQ OR TSFORK\<rparr>)"
    using two_made_ok by (simp_all add: e bump_runrun_def upd_ts_def pr_upd v u schedulable_def two_ts_def del: One_nat_def)
qed

text \<open>The only process has gone to sleep on a channel of its own.\<close>

lemma sleeper_exists: "\<exists>s. sched_ok shipped_conf s \<and> p_wchan (pr s 0) = 0x3000 \<and> p_stat (pr s 0) = SSLEEP \<and> length (proctab s) = 1"
proof -
  have n: "sqhash 0x3000 = 0" by (simp add: sqhash_def NSLEEPQ_def)
  have d: "dpri PSWP = 0" "\<not> dpri PSWP > PZERO" by (simp_all add: dpri_def PSWP_def PZERO_def)
  from sleep_low_any [OF shipped_ok, of "0x3000" PSWP] obtain t where t: "sleep shipped_conf False 0x3000 PSWP shipped_start = Some (GaveUp, t)"
    "sched_ok shipped_conf t" by (auto simp: shipped_fields d PZERO_def)
  have "p_wchan (pr t 0) = 0x3000 \<and> p_stat (pr t 0) = SSLEEP \<and> length (proctab t) = 1"
    using t(1) d(2) shipped_fields(1,2)
    by (auto simp: sleep_def Let_def shipped_fields sleep_enqueue_def n NSLEEPQ_def set_flag_def set_link_def set_pri_def pr_upd CL_SLEEP_def sys_sleep_def
        pswtch_def pswtch_leave_def pswtch_idle_def)
  then show ?thesis using t(2) by blast
qed

text \<open>A process is stopped, with one mark only or with both.\<close>

definition stopped_made :: "bits \<Rightarrow> sched" where
  "stopped_made fl = upd_proc 1 (\<lambda>x. x\<lparr>p_stat := SSTOP, p_flag := p_flag x OR fl\<rparr>) two_made"

lemma stopped_made_ok: "sched_ok shipped_conf (stopped_made fl)" "length (proctab (stopped_made fl)) = 2" "p_stat (pr (stopped_made fl) 1) = SSTOP"
  "p_flag (pr (stopped_made fl) 1) = SLOAD OR fl" "runout (stopped_made fl) = 0" "runin (stopped_made fl) = 0"
proof -
  obtain Q where Q: "placed shipped_conf Q two_made" using two_made_ok(1) by (rule sched_ok_cases)
  note D = placedD [OF Q]
  have l: "(1::nat) < length (proctab two_made)" by (simp add: two_made_ok)
  have wc: "p_wchan (pr two_made 1) = 0" using D(2) [OF l] by (auto simp: at_home_def two_made_ok simp del: One_nat_def)
  have nq: "\<not> queued Q 1" using at_home_free [OF D(2) [OF l]] wc by (simp add: two_made_ok del: One_nat_def)
  have c: "core shipped_conf Q (stopped_made fl)" unfolding stopped_made_def
    by (rule core_proc [OF D(1) l]) (use nq coreD(4) [OF D(1) l] in \<open>auto simp: queued_def proc_ok_def\<close>)
  have o: "only {1} two_made (stopped_made fl)" unfolding stopped_made_def by (rule only_proc)
  have p: "pr (stopped_made fl) 1 = (pr two_made 1)\<lparr>p_stat := SSTOP, p_flag := p_flag (pr two_made 1) OR fl\<rparr>"
    "pr (stopped_made fl) 0 = pr two_made 0" using l by (simp_all add: stopped_made_def pr_upd)
  show r: "runout (stopped_made fl) = 0" "runin (stopped_made fl) = 0"
    by (simp_all add: stopped_made_def two_made_def newproc_def CL_FORK_def ts_fork_def shipped_fields Let_def pr_upd nth_append)
  have "placed shipped_conf Q (stopped_made fl)"
  proof (rule placed_one [OF Q c only_wakes [OF o] l refl])
    show "at_home Q 1 (pr (stopped_made fl) 1)" by (rule at_home_freeI [OF nq]) (simp_all add: p wc del: One_nat_def)
    show "own_chans shipped_conf (pr (stopped_made fl) 1)" using own_chans_idents [of "pr (stopped_made fl) 1" "pr two_made 1"] D(3) [OF l] by (simp add: p del: One_nat_def)
  qed (simp_all add: p shipped_chans del: One_nat_def)
  then show "sched_ok shipped_conf (stopped_made fl)"
    by (rule sched_ok_placed [OF two_made_ok(1) _ o]) (simp add: two_made_ok p)
  show "length (proctab (stopped_made fl)) = 2" "p_stat (pr (stopped_made fl) 1) = SSTOP" "p_flag (pr (stopped_made fl) 1) = SLOAD OR fl"
    using two_made_ok by (simp_all add: stopped_made_def pr_upd del: One_nat_def)
qed

section \<open>The invariant\<close>



section \<open>Every event returns\<close>



section \<open>The choice of the switch\<close>

text \<open>C8: A preemption gives the processor to a process of the highest priority among those that are runnable and can
be given it and the one preempted; when there is none the processor idles.\<close>

theorem preempt_runs_best:
  assumes ok: "sched_ok c s" and idle: "idleswtch s = 0"
  shows "\<exists>t. preempt c False s = Some t \<and> sched_ok c t
    \<and> (if candidates s = {} then idleswtch t = 1 \<and> off_cpu t
       else idleswtch t = 0 \<and> curproc t \<in> candidates s \<and> p_stat (pr t (curproc t)) = SONPROC
         \<and> (\<forall>x \<in> candidates s. p_pri (pr s x) \<le> p_pri (pr s (curproc t))))"
proof -
  define p where "p = curproc s"
  obtain Q where Q: "placed c Q s" "p_stat (pr s p) = SONPROC" "\<not> queued Q p" using ok idle unfolding p_def by (rule sched_okE)
  obtain R where R: "R = onto_back Q s p \<or> R = onto_front Q s p" "core c R (CL_PREEMPT p s)"
    "only {p} s (CL_PREEMPT p s)" "same_run (pr s p) (pr (CL_PREEMPT p s) p)"
    using ok idle Q(1) Q(3) [unfolded p_def] unfolding p_def by (rule preempt_queues)
  note C = preempt_choice [OF ok idle Q(1) p_def R]
  define u where "u = set_stat p SRUN (CL_PREEMPT p s)"
  from C(1) obtain t where t: "preempt c False s = Some t" "sched_ok c t" "run_choice R u t" unfolding u_def by blast
  have len: "length (proctab u) = length (proctab s)" unfolding u_def by (rule only_len [OF C(3)])
  note K = same_runD [OF R(4)]
  have up: "p_stat (pr u p) = SRUN" "p_pri (pr u p) = p_pri (pr s p)" "schedulable (pr u p) = schedulable (pr s p)"
    unfolding u_def C(4) using K by (simp_all add: schedulable_def)
  have ux: "bare (pr u x) = bare (pr s x)" if "x < length (proctab s)" "x \<noteq> p" for x
    using C(3) that by (simp add: only_def u_def)
  have same: "p_pri (pr u x) = p_pri (pr s x) \<and> (x \<in> ready u \<longleftrightarrow> x \<in> candidates s)" if "x < length (proctab s)" for x
    using up bare_eqD(1,3,7) [OF ux [OF that]] that len by (cases "x = p") (auto simp: ready_def candidates_def p_def [symmetric])
  have rc: "ready u = candidates s" using same len by (auto simp: ready_def candidates_def)
  have pri: "p_pri (pr u x) = p_pri (pr s x)" if "x \<in> candidates s" for x using same that by (simp add: candidates_def)
  show ?thesis
  proof (cases "candidates s = {}")
    case True
    then show ?thesis using t rc by (auto simp: run_choice_def)
  next
    case False
    then have g: "idleswtch t = 0" "curproc t \<in> candidates s" "\<forall>x \<in> candidates s. p_pri (pr u x) \<le> p_pri (pr u (curproc t))"
      using t(3) rc unfolding run_choice_def by simp_all
    then have "\<forall>x \<in> candidates s. p_pri (pr s x) \<le> p_pri (pr s (curproc t))" using pri by simp
    with g show ?thesis using t(1,2) False by (auto simp: sched_ok_def)
  qed
qed


theorem preempt_runs_best_witness:
  "\<exists>t. preempt shipped_conf False two_procs = Some t \<and> idleswtch t = 0 \<and> p_pri (pr two_procs 1) \<le> p_pri (pr two_procs (curproc t))"
proof -
  have c: "1 \<in> candidates two_procs" by (simp add: candidates_def two_procs_ok del: One_nat_def)
  then have n: "candidates two_procs \<noteq> {}" by blast
  show ?thesis using preempt_runs_best [OF two_procs_ok(1,2)] c unfolding if_not_P [OF n] by blast
qed

text \<open>C10: When the time quantum of the current time-sharing process ends, it falls to the priority its dispatcher parameter table says,
asks to be preempted, and gives way at that preemption to any other process of the new priority or a higher one that can run.\<close>

theorem quantum_end_lets_others_run:
  assumes ok: "sched_ok c s" and idle: "idleswtch s = 0" and p: "p = curproc s" and ts: "p_clproc (pr s p) = TsClass t"
    "ts_flags t AND TSKPRI = 0" "ts_timeleft t = 1"
    and x: "x < length (proctab s)" "p_stat (pr s x) = SRUN" "schedulable (pr s x)"
      "ts_globpri (tsent s (ts_umdpri (expired c s t))) \<le> p_pri (pr s x)"
  shows "\<exists>u v. CL_TICK c p s = Some u \<and> runrun u = runrun s + 1 \<and> p_pri (pr u p) = ts_globpri (tsent s (ts_umdpri (expired c s t)))
    \<and> preempt c False u = Some v \<and> curproc v \<noteq> p \<and> p_stat (pr v (curproc v)) = SONPROC"
proof -
  from tick_expires [OF ok idle p ts] obtain u w where u: "CL_TICK c p s = Some u" "sched_ok c u" "curproc u = p" "idleswtch u = 0"
    "runrun u = runrun s + 1" "only {p} s u" "p_pri (pr u p) = ts_globpri (tsent s (ts_umdpri (expired c s t)))"
    "p_clproc (pr u p) = TsClass w" "ts_flags w = ts_flags t OR TSBACKQ" by blast
  obtain Q where Q: "placed c Q u" "\<not> queued Q p" using u(2,4) unfolding u(3) [symmetric] by (rule sched_okE)
  have xp: "x \<noteq> p" using x(2) ok idle by (auto simp: sched_ok_def p)
  have lp: "p < length (proctab u)" using placedD(5) [OF Q(1)] u(3) by simp
  have bx: "bare (pr u x) = bare (pr s x)" using u(6) x(1) xp by (simp add: only_def)
  have b: "put_back c p Q u (CL_PREEMPT p u)" by (rule preempt_back [OF placedD(1) [OF Q(1)] lp Q(2) u(8,9) ts(2)])
  define R where "R = onto_back Q u p"
  have R: "R = onto_back Q u p \<or> R = onto_front Q u p" "core c R (CL_PREEMPT p u)" "only {p} u (CL_PREEMPT p u)"
    "same_run (pr u p) (pr (CL_PREEMPT p u) p)" using b by (simp_all add: put_back_def R_def)
  note C = preempt_choice [OF u(2,4) Q(1) u(3) [symmetric] R]
  define l where "l = set_stat p SRUN (CL_PREEMPT p u)"
  note C = C [folded l_def]
  obtain v where v: "preempt c False u = Some v" "sched_ok c v" "run_choice R l v" using C(1) by blast
  have ll: "length (proctab l) = length (proctab s)" using only_len [OF C(3)] only_len [OF u(6)] by simp
  have xl: "bare (pr l x) = bare (pr s x)" using C(3) bx x(1) xp only_len [OF u(6)] by (simp add: only_def)
  have xr: "x \<in> ready l" using bare_eqD(1,7) [OF xl] x ll by (simp add: ready_def)
  have pl: "p_pri (pr l p) = p_pri (pr u p)" using same_runD(3) [OF R(4)] by (simp add: C(4))
  have ch: "idleswtch v = 0" "p_pri (pr l x) \<le> p_pri (pr l (curproc v))"
    "\<exists>A B. R (Dq (nat (p_pri (pr l (curproc v))))) = A @ curproc v # B \<and> (\<forall>a \<in> set A. \<not> schedulable (pr l a))"
    using v(3) xr by (auto simp: run_choice_def split: if_splits)
  have "curproc v \<noteq> p"
  proof
    assume e: "curproc v = p"
    obtain i where i: "p_pri (pr u p) = int i" using core_pri [OF placedD(1) [OF Q(1)] lp] by blast
    obtain A B where ab: "Q (Dq i) @ [p] = A @ p # B" "\<forall>a \<in> set A. \<not> schedulable (pr l a)"
      using ch(3) e pl i by (auto simp: R_def onto_back_def Let_def)
    have pq: "p \<notin> set (Q (Dq i))" using Q(2) by (auto simp: queued_def)
    have "A = Q (Dq i)" using ab(1) pq by (cases B rule: rev_cases) auto
    moreover have "p_pri (pr l x) = int i" using ch(2) e pl i x(4) u(7) bare_eqD(3) [OF xl] by simp
    then have "x \<in> set (Q (Dq i))"
      using placedD(2) [OF C(2), of x] xr xp by (auto simp: ready_def at_home_def R_def onto_back_def Let_def i)
    ultimately show False using ab(2) xr by (auto simp: ready_def)
  qed
  moreover have "p_stat (pr v (curproc v)) = SONPROC" using v(2) ch(1) by (simp add: sched_ok_def)
  ultimately show ?thesis using u(1,5,7) v(1) by blast
qed

theorem quantum_end_lets_others_run_witness:
  "\<exists>u v. CL_TICK shipped_conf 0 two_procs = Some u \<and> p_pri (pr u 0) = 5 \<and> preempt shipped_conf False u = Some v \<and> curproc v \<noteq> 0"
proof -
  have e: "ts_globpri (tsent two_procs (ts_umdpri (expired shipped_conf two_procs (two_ts\<lparr>ts_flags := TSBACKQ OR TSFORK\<rparr>)))) = 5"
    by (simp add: expired_def two_ts_def TS_NEWUMDPRI_def Let_def tsent_def two_procs_ok shipped_conf_def config_ts_dptbl_def s16_def)
  have f: "(TSBACKQ OR TSFORK) AND TSKPRI = 0" by (simp add: TSBACKQ_def TSFORK_def TSKPRI_def)
  have q: "ts_timeleft (two_ts\<lparr>ts_flags := TSBACKQ OR TSFORK\<rparr>) = 1" "ts_flags (two_ts\<lparr>ts_flags := TSBACKQ OR TSFORK\<rparr>) = TSBACKQ OR TSFORK"
    by (simp_all add: two_ts_def)
  have "\<exists>u v. CL_TICK shipped_conf 0 two_procs = Some u \<and> runrun u = runrun two_procs + 1 \<and> p_pri (pr u 0) = 5
      \<and> preempt shipped_conf False u = Some v \<and> curproc v \<noteq> 0 \<and> p_stat (pr v (curproc v)) = SONPROC"
    by (rule quantum_end_lets_others_run [OF two_procs_ok(1,2) two_procs_ok(3) [symmetric] two_procs_ok(8), of 1, unfolded e q])
      (simp_all add: f two_procs_ok del: One_nat_def)
  then show ?thesis by blast
qed

section \<open>Waking\<close>

text \<open>C9: \<open>wakeprocs\<close> returns; every process that slept on the channel is runnable with its priority, one stopped on it no longer waits for the
channel, and no other process changes, but for the swapper when it waits for work.\<close>

theorem wakeprocs_wakes_sleepers:
  assumes ok: "sched_ok c s" and chan: "chan \<notin> {0, runin_chan c, runout_chan c}"
  shows "\<exists>t. wakeprocs c chan prmpt s = Some t \<and> sched_ok c t \<and> (\<forall>x < length (proctab s).
      (p_wchan (pr s x) = chan \<longrightarrow> p_wchan (pr t x) = 0 \<and> p_pri (pr t x) = p_pri (pr s x)
         \<and> p_stat (pr t x) = (if p_stat (pr s x) = SSLEEP then SRUN else p_stat (pr s x)))
      \<and> (p_wchan (pr s x) \<noteq> chan \<and> (x \<noteq> proc_sched c \<or> runout s = 0) \<longrightarrow> bare (pr t x) = bare (pr s x)))"
proof -
  obtain Q where Q: "placed c Q s" using ok by (rule sched_ok_cases)
  have ch: "chan = runout_chan c \<Longrightarrow> runout s = 0" "chan = runin_chan c \<Longrightarrow> runin s = 0" using chan by simp_all
  from wakeprocs_ok [OF Q ch, where prmpt = prmpt] obtain R t where t: "wakeprocs c chan prmpt s = Some t" "placed c R t"
    "wakes (on_chan chan s \<union> waiting_swapper c s) s t" "\<forall>x \<in> on_chan chan s. awake (pr s x) (pr t x)" by blast
  have "sched_ok c t" using wakeprocs_sched_ok [OF ok, of chan prmpt] ch t(1) by auto
  moreover have "p_wchan (pr t x) = 0 \<and> p_pri (pr t x) = p_pri (pr s x) \<and> p_stat (pr t x) = (if p_stat (pr s x) = SSLEEP then SRUN else p_stat (pr s x))"
    if "x < length (proctab s)" "p_wchan (pr s x) = chan" for x
  proof -
    have "x \<in> on_chan chan s" using that chan by (simp add: on_chan_def)
    then show ?thesis using awakeD(1-3) t(4) by blast
  qed
  moreover have "bare (pr t x) = bare (pr s x)" if "x < length (proctab s)" "p_wchan (pr s x) \<noteq> chan" "x \<noteq> proc_sched c \<or> runout s = 0" for x
    by (rule wakesD(5) [OF t(3) that(1)]) (use that in \<open>auto simp: on_chan_def waiting_swapper_def\<close>)
  ultimately show ?thesis using t(1) by blast
qed

theorem wakeprocs_wakes_sleepers_witness:
  "\<exists>s t. sched_ok shipped_conf s \<and> p_stat (pr s 0) = SSLEEP \<and> wakeprocs shipped_conf 0x3000 True s = Some t \<and> p_stat (pr t 0) = SRUN"
proof -
  obtain s where s: "sched_ok shipped_conf s" "p_wchan (pr s 0) = 0x3000" "p_stat (pr s 0) = SSLEEP" "length (proctab s) = 1"
    using sleeper_exists by blast
  have "(0x3000::int) \<notin> {0, runin_chan shipped_conf, runout_chan shipped_conf}" by (simp add: shipped_chans)
  from wakeprocs_wakes_sleepers [OF s(1) this, of True] s show ?thesis by (metis less_one)
qed

text \<open>C17: \<open>setrun\<close> takes a sleeping or stopped process off its sleep queue and makes it runnable, but a stopped one only when both the
signal that continues it and the debugger have let it go.\<close>

theorem setrun_needs_both_marks:
  assumes ok: "sched_ok c s" and p: "p < length (proctab s)" "p_stat (pr s p) \<in> {SSLEEP, SRUN, SSTOP}"
    and sw: "p = proc_sched c \<longrightarrow> runout s = 0 \<and> runin s = 0"
  shows "\<exists>t. setrun c p s = Some t \<and> sched_ok c t \<and> p_wchan (pr t p) = 0
    \<and> p_stat (pr t p) = (if p_stat (pr s p) = SSTOP \<and> p_flag (pr s p) AND (SXSTART OR SPSTART) \<noteq> SXSTART OR SPSTART then SSTOP else SRUN)"
proof -
  obtain Q where Q: "placed c Q s" using ok by (rule sched_ok_cases)
  have "p = proc_sched c \<Longrightarrow> runout s = 0 \<and> runin s = 0" using sw by simp
  from setrun_ok [OF Q p this] setrun_sched_ok [OF ok p this] show ?thesis by auto
qed

theorem setrun_needs_both_marks_witness:
  "(\<exists>t. setrun shipped_conf 1 (stopped_made SXSTART) = Some t \<and> p_stat (pr t 1) = SSTOP)
    \<and> (\<exists>t. setrun shipped_conf 1 (stopped_made (SXSTART OR SPSTART)) = Some t \<and> p_stat (pr t 1) = SRUN)"
proof -
  have p: "1 < length (proctab (stopped_made fl))" "p_stat (pr (stopped_made fl) 1) \<in> {SSLEEP, SRUN, SSTOP}"
    "1 = proc_sched shipped_conf \<longrightarrow> runout (stopped_made fl) = 0 \<and> runin (stopped_made fl) = 0" for fl
    by (simp_all add: stopped_made_ok shipped_chans del: One_nat_def)
  have "(SLOAD OR SXSTART) AND (SXSTART OR SPSTART) \<noteq> SXSTART OR SPSTART"
    "(SLOAD OR (SXSTART OR SPSTART)) AND (SXSTART OR SPSTART) = SXSTART OR SPSTART"
    by (simp_all add: SLOAD_def SXSTART_def SPSTART_def)
  then show ?thesis
    using setrun_needs_both_marks [OF stopped_made_ok(1) p, of SXSTART] setrun_needs_both_marks [OF stopped_made_ok(1) p, of "SXSTART OR SPSTART"]
    by (auto simp: stopped_made_ok simp del: One_nat_def)
qed

end
