(* ===== verification/Spec2Isabelle.thy ===== *)
theory Spec2Isabelle
  imports Sem_Invariant Record_Lock_Safety Message_Safety Stream_Queue_Safety Sched_Results
begin

text \<open>
  A model of parts of the UNIX System V Release 4.2 kernel, translated from the C sources under
  \<open>src/common/uts\<close> (machine independent) and \<open>src/i386/uts\<close>, with the theorems that make the
  parts correct.  Paths below are relative to these two directories.

  \<^bold>\<open>Conventions.\<close>  C integers are \<open>int\<close> or \<open>nat\<close> with the wrap-around written out (\<open>u16\<close>, \<open>u32\<close>,
  \<open>s16\<close>, \<open>s32\<close> of \<open>Kernel_Prelude\<close>), flag words are \<open>32 word\<close>, a pointer into a table is an index
  and \<open>NULL\<close> is \<open>None\<close>.  A routine that returns an error number gives \<open>Err e\<close> or \<open>Ok r\<close>, next to the
  state it leaves, on the error branches too.  The kernel does not preempt a process inside the
  kernel: a routine runs whole, up to the calls of \<open>sleep\<close>, where it is cut into the part before
  and the part after.

  \<^bold>\<open>Resource map\<close> (\<open>util/malloc.c\<close>).  \<open>Resource_Map\<close>: \<open>rmalloc\<close>, \<open>rmfree\<close>, \<open>rminit\<close> and \<open>rmwant\<close> over
  an array of extents.  The interface \<open>unit_allocator\<close> (what is handed out was free, and is the
  caller's until released) is interpreted on these definitions as \<open>rm\<close>; the semaphores and the
  message queues allocate through it.

  \<^bold>\<open>IPC permissions\<close> (\<open>proc/ipc/ipc.c\<close>).  \<open>Ipc_Perm\<close>: \<open>ipcaccess\<close> against a declarative policy, and
  \<open>ipcget\<close>; the interface \<open>object_table\<close> says that an identifier names one object until it is removed,
  interpreted on the semaphore table as \<open>sem_ids\<close>.

  \<^bold>\<open>Semaphores\<close> (\<open>proc/ipc/sem.c\<close>).  \<open>Sem_Undo\<close> holds the state and the undo tables; \<open>Semaphores\<close> the
  operations \<open>semop\<close> (all or nothing, against the abstract \<open>semop_spec\<close>), \<open>semexit\<close>, \<open>semctl\<close>, \<open>semget\<close>;
  \<open>Sem_Control\<close> and \<open>Sem_Invariant\<close> the invariant that every reachable state (\<open>sem_reach\<close>) has.

  \<^bold>\<open>File and record locking\<close> (\<open>fs/flock.c\<close>).  \<open>Record_Locks\<close>, \<open>Record_Lock_Calls\<close>: the sorted list of
  locks of a file, the list of sleepers, the calls.  \<open>Record_Lock_Facts\<close>, \<open>Record_Lock_Adjust\<close>:
  \<open>flckadj\<close> against a map from bytes to locks.  \<open>Record_Lock_Safety\<close>: no two processes hold
  conflicting locks, deadlock detection decides, who sleeps is blocked.

  \<^bold>\<open>Message queues\<close> (\<open>proc/ipc/msg.c\<close>).  \<open>Message_Queues\<close>: the calls, cut where they may sleep (lock of
  a queue, four channels, copies from and to user memory).  \<open>Message_Lists\<close> and \<open>Message_Invariant\<close>:
  headers, segments and queues share out the tables; the abstract queues.  \<open>Message_Steps\<close>,
  \<open>Message_Send\<close>, \<open>Message_Calls\<close>: every call is a step of the abstract queues.  \<open>Message_Sleep\<close>,
  \<open>Message_System\<close>, \<open>Message_Safety\<close>: processes and sleepers, the reachable states, the properties.

  \<^bold>\<open>STREAMS queues\<close> (\<open>io/stream.c\<close>, the queue part, and \<open>io/strsubr.c\<close>).  \<open>Stream_Queues\<close>: messages
  by priority band, flow control, service scheduling.  \<open>Stream_Queue_Order\<close>, \<open>_Flow\<close>, \<open>_System\<close>,
  \<open>_Remove\<close>, \<open>_Flush\<close>: order, counts, enabling, removal and flushing keep the invariant;
  \<open>Stream_Queue_Safety\<close> the reachable states and the properties.

  \<^bold>\<open>Loops.\<close>  The loops that can run for ever are partial functions (\<open>deadflck_loop\<close>, \<open>back_srv\<close>,
  \<open>fwd_srv\<close>); that they end is proved where it holds, and that deadlock detection can loop is
  proved too.  All other loops are recursions on lists or on table sizes; no fuel is needed.

  \<^bold>\<open>Not modelled.\<close>  Interrupt levels, auditing, the covert channel limiter, the add-on packages for
  mandatory access control and access control lists (their decisions are parameters), and the rest
  of the system: shared memory, virtual memory, file systems, networking, drivers, commands and
  libraries.
\<close>

end
